(* ===== verification/RlxPrelude.thy ===== *)
theory RlxPrelude
  imports Main "HOL-Library.Word"
begin

text \<open>
  Shared material of the development: the result type of the modelled Rust
  functions, the fixed-width helper operations the code takes from the standard
  library (checked, saturating and aligning arithmetic on \<open>usize\<close>), and the
  generic list lemmas the component theories share.

  Conventions. A Rust function that can return \<open>Err\<close> or panic has a result of
  type \<open>('e, 'a) outcome\<close>: \<open>Ok\<close>, \<open>Err\<close> (the \<open>Result::Err\<close> of the source) or
  \<open>Panic\<close> (an \<open>unwrap\<close>, an index out of range, a failed \<open>assert!\<close>).
  \<open>usize\<close> values are of type \<open>nat\<close>; where the source asks for checked, saturating
  or wrapping arithmetic the bound \<open>usize_max\<close> is written out.
\<close>

section \<open>Results\<close>

datatype ('e, 'a) outcome = Ok 'a | Err 'e | Panic

fun bind_outcome :: "('e, 'a) outcome \<Rightarrow> ('a \<Rightarrow> ('e, 'b) outcome) \<Rightarrow> ('e, 'b) outcome" where
  "bind_outcome (Ok x) f = f x"
| "bind_outcome (Err e) f = Err e"
| "bind_outcome Panic f = Panic"

named_theorems outcome_simps \<open>inversion of results built with \<open>bind_outcome\<close>\<close>

lemma bind_outcome_Ok [outcome_simps]:
  "bind_outcome m f = Ok y \<longleftrightarrow> (\<exists>x. m = Ok x \<and> f x = Ok y)"
  by (cases m) auto

lemma bind_outcome_Err [outcome_simps]:
  "bind_outcome m f = Err e \<longleftrightarrow> m = Err e \<or> (\<exists>x. m = Ok x \<and> f x = Err e)"
  by (cases m) auto

lemma bind_outcome_Panic [outcome_simps]:
  "bind_outcome m f = Panic \<longleftrightarrow> m = Panic \<or> (\<exists>x. m = Ok x \<and> f x = Panic)"
  by (cases m) auto

lemma bind_outcome_cong [fundef_cong]:
  "m = m' \<Longrightarrow> (\<And>x. m' = Ok x \<Longrightarrow> f x = g x) \<Longrightarrow> bind_outcome m f = bind_outcome m' g"
  by (cases m') auto

text \<open>\<open>iter().map(f).collect::<Result<_, _>>()\<close>: left to right, the first failure wins.\<close>

fun traverse :: "('a \<Rightarrow> ('e, 'b) outcome) \<Rightarrow> 'a list \<Rightarrow> ('e, 'b list) outcome" where
  "traverse f [] = Ok []"
| "traverse f (x # xs) =
     bind_outcome (f x) (\<lambda>y. bind_outcome (traverse f xs) (\<lambda>ys. Ok (y # ys)))"

lemma traverse_Ok_iff [outcome_simps]:
  "traverse f xs = Ok ys \<longleftrightarrow> list_all2 (\<lambda>x y. f x = Ok y) xs ys"
  by (induction xs arbitrary: ys) (auto simp: outcome_simps list_all2_Cons1)

lemma traverse_total: "(\<And>x. x \<in> set xs \<Longrightarrow> f x = Ok (g x)) \<Longrightarrow> traverse f xs = Ok (map g xs)"
  by (induction xs) auto

lemma traverse_Err: "traverse f xs = Err e \<Longrightarrow> \<exists>x \<in> set xs. f x = Err e"
  by (induction xs) (auto simp: outcome_simps)

text \<open>A \<open>for\<close> loop over a list that can leave with an error or a panic.\<close>

fun for_each :: "('s \<Rightarrow> 'a \<Rightarrow> ('e, 's) outcome) \<Rightarrow> 's \<Rightarrow> 'a list \<Rightarrow> ('e, 's) outcome" where
  "for_each f s [] = Ok s"
| "for_each f s (x # xs) = bind_outcome (f s x) (\<lambda>s'. for_each f s' xs)"

lemma for_each_append:
  "for_each f s (xs @ ys) = bind_outcome (for_each f s xs) (\<lambda>s'. for_each f s' ys)"
proof (induction xs arbitrary: s)
  case (Cons x xs)
  then show ?case by (cases "f s x") auto
qed simp

lemma for_each_invariant:
  assumes "for_each f s xs = Ok s'" and "P s"
    and "\<And>s x t. x \<in> set xs \<Longrightarrow> P s \<Longrightarrow> f s x = Ok t \<Longrightarrow> P t"
  shows "P s'"
  using assms by (induction xs arbitrary: s) (auto simp: outcome_simps)

lemma for_each_prefix:
  assumes "for_each f s xs = Ok s'" and "P 0 s"
    and "\<And>k s t. k < length xs \<Longrightarrow> P k s \<Longrightarrow> f s (xs ! k) = Ok t \<Longrightarrow> P (Suc k) t"
  shows "P (length xs) s'"
  using assms
proof (induction xs arbitrary: s' rule: rev_induct)
  case (snoc x xs)
  obtain s1 where s1: "for_each f s xs = Ok s1" "f s1 x = Ok s'"
    using snoc.prems(1) by (auto simp: for_each_append outcome_simps)
  have "P (length xs) s1"
    using snoc.IH [OF s1(1) snoc.prems(2)] snoc.prems(3) by (simp add: nth_append)
  then show ?case using snoc.prems(3) [of "length xs" s1 s'] s1(2) by simp
qed simp

lemma for_each_prefix_ok:
  assumes "P 0 s" and "\<And>k s. k < length xs \<Longrightarrow> P k s \<Longrightarrow> \<exists>t. f s (xs ! k) = Ok t \<and> P (Suc k) t"
  shows "\<exists>t. for_each f s xs = Ok t \<and> P (length xs) t"
  using assms(2)
proof (induction xs rule: rev_induct)
  case Nil
  then show ?case using assms(1) by simp
next
  case (snoc x xs)
  have "\<exists>t. for_each f s xs = Ok t \<and> P (length xs) t"
    using snoc.prems by (intro snoc.IH) (metis length_append_singleton less_SucI nth_append)
  moreover have "P (length xs) t \<Longrightarrow> \<exists>u. f t x = Ok u \<and> P (Suc (length xs)) u" for t
    using snoc.prems [of "length xs" t] by simp
  ultimately obtain t u where "for_each f s xs = Ok t" "f t x = Ok u" "P (Suc (length xs)) u"
    by blast
  then show ?case by (simp add: for_each_append)
qed

text \<open>Reading a list at an index as Rust does: out of range panics.\<close>

definition index_or_panic :: "'a list \<Rightarrow> nat \<Rightarrow> ('e, 'a) outcome" where
  "index_or_panic xs i = (if i < length xs then Ok (xs ! i) else Panic)"

lemma index_or_panic_Ok [outcome_simps]:
  "index_or_panic xs i = Ok x \<longleftrightarrow> i < length xs \<and> xs ! i = x"
  by (auto simp: index_or_panic_def)

lemma index_or_panic_in [simp]: "i < length xs \<Longrightarrow> index_or_panic xs i = Ok (xs ! i)"
  by (simp add: index_or_panic_def)

section \<open>Results that are certain\<close>

text \<open>A call that returns neither an error nor a panic.\<close>

definition returns :: "('e, 'a) outcome \<Rightarrow> bool" where
  "returns m \<longleftrightarrow> (\<exists>x. m = Ok x)"

named_theorems returning \<open>rules that show a result to be \<open>Ok\<close>\<close>

lemma returns_Ok [simp, returning]: "returns (Ok x)"
  by (simp add: returns_def)

lemma returns_not [simp]: "\<not> returns (Err e)" "\<not> returns Panic"
  by (simp_all add: returns_def)

lemma returnsE: "returns m \<Longrightarrow> (\<And>x. m = Ok x \<Longrightarrow> P) \<Longrightarrow> P"
  by (auto simp: returns_def)

lemma returns_bind [returning]:
  "returns m \<Longrightarrow> (\<And>x. m = Ok x \<Longrightarrow> returns (f x)) \<Longrightarrow> returns (bind_outcome m f)"
  by (auto simp: returns_def)

lemma returns_if [returning]:
  "(b \<Longrightarrow> returns m) \<Longrightarrow> (\<not> b \<Longrightarrow> returns m') \<Longrightarrow> returns (if b then m else m')"
  by simp

lemma returns_traverse [returning]:
  "(\<And>x. x \<in> set xs \<Longrightarrow> returns (f x)) \<Longrightarrow> returns (traverse f xs)"
  by (induction xs) (auto intro!: returns_bind)

lemma returns_for_each [returning]:
  "(\<And>s x. x \<in> set xs \<Longrightarrow> returns (f s x)) \<Longrightarrow> returns (for_each f s xs)"
  by (induction xs arbitrary: s) (auto intro!: returns_bind)

lemma returns_for_each_invariant:
  assumes "P s" and "\<And>s x. x \<in> set xs \<Longrightarrow> P s \<Longrightarrow> \<exists>t. f s x = Ok t \<and> P t"
  shows "\<exists>t. for_each f s xs = Ok t \<and> P t"
  using assms
proof (induction xs arbitrary: s)
  case (Cons x xs)
  obtain t where "f s x = Ok t" "P t" using Cons.prems(2) [of x s] Cons.prems(1) by auto
  then show ?case using Cons.IH [of t] Cons.prems(2) by auto
qed simp

section \<open>Fixed-width arithmetic on \<open>usize\<close>\<close>

definition usize_max :: nat where
  "usize_max = 18446744073709551615"

lemma usize_max_eq: "usize_max = 2 ^ 64 - 1"
  by (simp add: usize_max_def)

definition u32_max :: nat where
  "u32_max = 4294967295"

definition checked_mul :: "nat \<Rightarrow> nat \<Rightarrow> nat option" where
  "checked_mul a b = (if a * b \<le> usize_max then Some (a * b) else None)"

definition saturating_mul :: "nat \<Rightarrow> nat \<Rightarrow> nat" where
  "saturating_mul a b = min (a * b) usize_max"

definition saturating_add :: "nat \<Rightarrow> nat \<Rightarrow> nat" where
  "saturating_add a b = min (a + b) usize_max"

lemma saturating_mul_exact: "a * b \<le> usize_max \<Longrightarrow> saturating_mul a b = a * b"
  by (simp add: saturating_mul_def)

lemma saturating_add_exact: "a + b \<le> usize_max \<Longrightarrow> saturating_add a b = a + b"
  by (simp add: saturating_add_def)

text \<open>
  The rounding idiom \<open>(x + align - 1) & !(align - 1)\<close>. The bit operations are
  read on the integers, where they agree with \<open>usize\<close> as long as the sum fits.
\<close>

definition align_up :: "nat \<Rightarrow> nat \<Rightarrow> nat" where
  "align_up align x =
     nat (and (int x + int align - 1) (not (int align - 1)))"

lemma and_not_mask_int: "and (x :: int) (not (2 ^ k - 1)) = x - x mod 2 ^ k"
proof -
  have "x - take_bit k x = and x (not (take_bit k x))"
    by (rule disjunctive_diff_eq_and_not) (auto simp: bit_eq_iff bit_simps)
  also have "\<dots> = and x (not (mask k))"
    by (auto simp: bit_eq_iff bit_simps)
  finally show ?thesis by (simp add: mask_eq_exp_minus_1 take_bit_eq_mod)
qed

lemma align_up_pow2:
  "align_up (2 ^ k) x = (x + 2 ^ k - 1) div 2 ^ k * 2 ^ k"
proof -
  define m where "m = x + 2 ^ k - 1"
  have one: "(1 :: nat) \<le> 2 ^ k" by simp
  have "int x + int (2 ^ k) - 1 = int m"
    using one unfolding m_def by (subst of_nat_diff) (auto simp: trans_le_add2)
  then have "align_up (2 ^ k) x = nat (and (int m) (not (2 ^ k - 1)))"
    by (simp add: align_up_def)
  also have "\<dots> = nat (int m - int m mod 2 ^ k)" by (simp add: and_not_mask_int)
  also have "int m - int m mod 2 ^ k = int (m - m mod 2 ^ k)"
    by (simp add: of_nat_diff zmod_int)
  also have "m - m mod 2 ^ k = m div 2 ^ k * 2 ^ k"
    by (simp add: minus_mod_eq_div_mult)
  finally have "align_up (2 ^ k) x = nat (int (m div 2 ^ k * 2 ^ k))" .
  then show ?thesis unfolding m_def by (simp only: nat_int)
qed

lemma align_up_ge: "x \<le> align_up (2 ^ k) x"
proof -
  have "(x + 2 ^ k - 1) div 2 ^ k * 2 ^ k + (x + 2 ^ k - 1) mod 2 ^ k = x + 2 ^ k - 1"
    by (rule div_mult_mod_eq)
  moreover have "(x + 2 ^ k - 1) mod 2 ^ k < 2 ^ k" by (rule mod_less_divisor) simp
  moreover have "(1 :: nat) \<le> 2 ^ k" by simp
  ultimately show ?thesis unfolding align_up_pow2 by linarith
qed

lemma align_up_dvd: "2 ^ k dvd align_up (2 ^ k) x"
  by (simp add: align_up_pow2)

lemma align_up_mono: "x \<le> y \<Longrightarrow> align_up (2 ^ k) x \<le> align_up (2 ^ k) y"
  by (simp add: align_up_pow2 div_le_mono)

lemma mult_add_pred_div: "0 < p \<Longrightarrow> (p * q + (p - 1)) div p = (q :: nat)"
proof -
  assume p: "0 < p"
  then have "(p * q + (p - 1)) div p = q + (p - 1) div p" by (intro div_mult_self4) simp
  with p show ?thesis by simp
qed

lemma align_up_least: "2 ^ k dvd y \<Longrightarrow> x \<le> y \<Longrightarrow> align_up (2 ^ k) x \<le> y"
proof -
  assume "2 ^ k dvd y" "x \<le> y"
  then obtain q where q: "y = 2 ^ k * q" by blast
  have "(x + 2 ^ k - 1) div 2 ^ k \<le> (2 ^ k * q + (2 ^ k - 1)) div 2 ^ k"
    using \<open>x \<le> y\<close> q by (intro div_le_mono) simp
  also have "\<dots> = q"
    by (rule mult_add_pred_div) simp
  finally show ?thesis by (simp add: align_up_pow2 q)
qed

lemma prod_list_nat_1: "prod_list ns = (1 :: nat) \<longleftrightarrow> (\<forall>n \<in> set ns. n = 1)"
  by (induction ns) auto

end
