(* ===== verification/DTypes.thy ===== *)
theory DTypes
  imports RlxPrelude
begin

text \<open>
  Element types (\<open>crates/core/rlx-ir/src/dtype.rs\<close>): the \<open>DType\<close> enum with its size,
  classification and promotion tables, the \<open>Element\<close> descriptor, and the
  encoding of a scalar literal as little-endian bytes. An \<open>f64\<close> is its 64 bit
  pattern (sign, 11 exponent bits, 52 fraction bits), so that finiteness,
  integrality, truncation and the narrowing to \<open>f32\<close> are computed exactly.
\<close>

section \<open>The DType enum\<close>

datatype dtype = F32 | F16 | BF16 | F64 | I8 | I16 | I32 | I64 | U8 | U32 | BoolT | C64 | C128

fun dtype_size_bytes :: "dtype \<Rightarrow> nat" where
  "dtype_size_bytes BoolT = 1"
| "dtype_size_bytes I8 = 1"
| "dtype_size_bytes U8 = 1"
| "dtype_size_bytes F16 = 2"
| "dtype_size_bytes BF16 = 2"
| "dtype_size_bytes I16 = 2"
| "dtype_size_bytes F32 = 4"
| "dtype_size_bytes I32 = 4"
| "dtype_size_bytes U32 = 4"
| "dtype_size_bytes F64 = 8"
| "dtype_size_bytes I64 = 8"
| "dtype_size_bytes C64 = 8"
| "dtype_size_bytes C128 = 16"

definition is_float :: "dtype \<Rightarrow> bool" where
  "is_float d = (d \<in> {F32, F16, BF16, F64})"

definition is_complex :: "dtype \<Rightarrow> bool" where
  "is_complex d = (d \<in> {C64, C128})"

definition is_int :: "dtype \<Rightarrow> bool" where
  "is_int d = (d \<in> {I8, I16, I32, I64, U8, U32})"

fun promotion_rank :: "dtype \<Rightarrow> nat" where
  "promotion_rank BoolT = 0"
| "promotion_rank U8 = 1"
| "promotion_rank I8 = 1"
| "promotion_rank I16 = 2"
| "promotion_rank BF16 = 2"
| "promotion_rank F16 = 3"
| "promotion_rank U32 = 4"
| "promotion_rank I32 = 4"
| "promotion_rank I64 = 5"
| "promotion_rank F32 = 6"
| "promotion_rank F64 = 7"
| "promotion_rank C64 = 8"
| "promotion_rank C128 = 9"

text \<open>The closure \<open>promote_int_to_float\<close>; its arms are tried in the source's order.\<close>

definition promote_int_to_float :: "dtype \<Rightarrow> dtype \<Rightarrow> dtype" where
  "promote_int_to_float i f =
     (if f = F64 then F64
      else if i = I64 then F64
      else if f = F32 then F32
      else if f = F16 \<or> f = BF16 then F32
      else f)"

definition promote :: "dtype \<Rightarrow> dtype \<Rightarrow> dtype" where
  "promote a b =
     (if a = b then a
      else if (a = F16 \<and> b = BF16) \<or> (a = BF16 \<and> b = F16) then F32
      else if is_int a \<and> \<not> is_int b \<and> \<not> is_float a \<and> is_float b then promote_int_to_float a b
      else if \<not> is_int a \<and> is_int b \<and> is_float a \<and> \<not> is_float b then promote_int_to_float b a
      else if promotion_rank a \<ge> promotion_rank b then a else b)"

lemmas dtype_class_defs = is_float_def is_complex_def is_int_def

text \<open>Facts about all pairs of types are evaluated over the list of types.\<close>

definition all_dtypes :: "dtype list" where
  "all_dtypes = [F32, F16, BF16, F64, I8, I16, I32, I64, U8, U32, BoolT, C64, C128]"

lemma in_all_dtypes [simp]: "d \<in> set all_dtypes"
  by (cases d) (simp_all add: all_dtypes_def)

lemma dtype_pairs_check:
  "list_all (\<lambda>a. list_all (\<lambda>b. P a b) all_dtypes) all_dtypes \<Longrightarrow> P a b"
  by (simp add: list_all_iff)

lemma dtype_size_bytes_pos [simp]: "0 < dtype_size_bytes d"
  by (cases d) auto

lemma dtype_size_bytes_le_16: "dtype_size_bytes d \<le> 16"
  by (cases d) auto

lemma dtype_class_simps [simp]:
  "is_float F32" "is_float F16" "is_float BF16" "is_float F64" "\<not> is_float I8"
  "\<not> is_float I16" "\<not> is_float I32" "\<not> is_float I64" "\<not> is_float U8" "\<not> is_float U32"
  "\<not> is_float BoolT" "\<not> is_float C64" "\<not> is_float C128"
  "\<not> is_int F32" "\<not> is_int F16" "\<not> is_int BF16" "\<not> is_int F64" "is_int I8"
  "is_int I16" "is_int I32" "is_int I64" "is_int U8" "is_int U32"
  "\<not> is_int BoolT" "\<not> is_int C64" "\<not> is_int C128"
  "\<not> is_complex F32" "\<not> is_complex F16" "\<not> is_complex BF16" "\<not> is_complex F64" "\<not> is_complex I8"
  "\<not> is_complex I16" "\<not> is_complex I32" "\<not> is_complex I64" "\<not> is_complex U8" "\<not> is_complex U32"
  "\<not> is_complex BoolT" "is_complex C64" "is_complex C128"
  by (simp_all add: dtype_class_defs)

lemma dtype_class_partition:
  "d = BoolT \<or> is_float d \<or> is_int d \<or> is_complex d"
  "\<not> (is_float d \<and> is_int d)" "\<not> (is_float d \<and> is_complex d)" "\<not> (is_int d \<and> is_complex d)"
  by (cases d; simp)+

lemma promote_same [simp]: "promote a a = a"
  by (simp add: promote_def)

section \<open>Element descriptors\<close>

datatype element_subtype = Standard | Fp8E4m3 | Fp8E5m2

record element =
  el_dtype :: dtype
  el_subtype :: element_subtype
  el_saturating :: bool

definition element_new :: "dtype \<Rightarrow> element" where
  "element_new d = \<lparr>el_dtype = d, el_subtype = Standard, el_saturating = False\<rparr>"

definition element_fp8_e4m3 :: element where
  "element_fp8_e4m3 = \<lparr>el_dtype = U8, el_subtype = Fp8E4m3, el_saturating = True\<rparr>"

definition element_fp8_e5m2 :: element where
  "element_fp8_e5m2 = \<lparr>el_dtype = U8, el_subtype = Fp8E5m2, el_saturating = True\<rparr>"

definition element_saturating :: "element \<Rightarrow> element" where
  "element_saturating e = e\<lparr>el_saturating := True\<rparr>"

section \<open>The bit pattern of an f64\<close>

type_synonym f64 = "64 word"
type_synonym bytes = "8 word list"

definition f64_neg :: "f64 \<Rightarrow> bool" where
  "f64_neg v = (2 ^ 63 \<le> unat v)"

definition f64_exp :: "f64 \<Rightarrow> nat" where
  "f64_exp v = unat v div 2 ^ 52 mod 2 ^ 11"

definition f64_frac :: "f64 \<Rightarrow> nat" where
  "f64_frac v = unat v mod 2 ^ 52"

text \<open>A finite pattern is worth \<open>f64_mant v * 2 ^ (f64_scale v - 1074)\<close>, up to sign.\<close>

definition f64_mant :: "f64 \<Rightarrow> nat" where
  "f64_mant v = (if f64_exp v = 0 then f64_frac v else 2 ^ 52 + f64_frac v)"

definition f64_scale :: "f64 \<Rightarrow> nat" where
  "f64_scale v = (if f64_exp v = 0 then 0 else f64_exp v - 1)"

definition f64_is_finite :: "f64 \<Rightarrow> bool" where
  "f64_is_finite v = (f64_exp v \<noteq> 2047)"

definition f64_is_nan :: "f64 \<Rightarrow> bool" where
  "f64_is_nan v = (f64_exp v = 2047 \<and> f64_frac v \<noteq> 0)"

text \<open>\<open>fract() == 0.0\<close> on a finite pattern.\<close>

definition f64_integral :: "f64 \<Rightarrow> bool" where
  "f64_integral v = (1074 \<le> f64_scale v \<or> 2 ^ (1074 - f64_scale v) dvd f64_mant v)"

text \<open>The value truncated towards zero, and \<open>value as i64\<close>, which saturates.\<close>

definition f64_trunc :: "f64 \<Rightarrow> int" where
  "f64_trunc v =
     (let m = (if 1074 \<le> f64_scale v then f64_mant v * 2 ^ (f64_scale v - 1074)
               else f64_mant v div 2 ^ (1074 - f64_scale v))
      in if f64_neg v then - int m else int m)"

definition f64_as_i64 :: "f64 \<Rightarrow> int" where
  "f64_as_i64 v =
     (if f64_is_nan v then 0
      else if \<not> f64_is_finite v then (if f64_neg v then - (2 ^ 63) else 2 ^ 63 - 1)
      else max (- (2 ^ 63)) (min (2 ^ 63 - 1) (f64_trunc v)))"

lemmas f64_decode_defs = f64_neg_def f64_exp_def f64_frac_def f64_mant_def f64_scale_def
  f64_is_finite_def f64_is_nan_def f64_integral_def f64_trunc_def f64_as_i64_def

text \<open>\<open>value as f32\<close>: to nearest, ties to even; NaN becomes a quiet NaN.\<close>

definition round_half_even :: "nat \<Rightarrow> nat \<Rightarrow> nat" where
  "round_half_even m s =
     (let q = m div 2 ^ s; r = m mod 2 ^ s
      in if 2 * r < 2 ^ s \<or> (2 * r = 2 ^ s \<and> even q) then q else q + 1)"

definition f64_as_f32 :: "f64 \<Rightarrow> 32 word" where
  "f64_as_f32 v =
     (let sign = (if f64_neg v then 2 ^ 31 else 0 :: nat) in
      if f64_is_nan v then of_nat (sign + 0x7fc00000 + f64_frac v div 2 ^ 29 mod 2 ^ 22)
      else if \<not> f64_is_finite v then of_nat (sign + 0x7f800000)
      else
        let j = f64_scale v - 896;
            n = round_half_even (f64_mant v) (j + 925 - f64_scale v);
            mag = j * 2 ^ 23 + n
        in of_nat (sign + min mag 0x7f800000))"

section \<open>Scalar literals as bytes\<close>

definition le_bytes :: "nat \<Rightarrow> int \<Rightarrow> bytes" where
  "le_bytes n v = map (\<lambda>i. word_of_int (v div 256 ^ i)) [0..<n]"

fun le_value :: "bytes \<Rightarrow> int" where
  "le_value [] = 0"
| "le_value (b # bs) = uint b + 256 * le_value bs"

definition le_signed :: "bytes \<Rightarrow> int" where
  "le_signed bs =
     (let v = le_value bs; m = 256 ^ length bs in if 2 * v < m then v else v - m)"

datatype const_error =
    NotFinite dtype
  | NotIntegral dtype
  | OutOfRange dtype
  | NeedsCast dtype

definition integral_scalar :: "f64 \<Rightarrow> dtype \<Rightarrow> (const_error, int) outcome" where
  "integral_scalar v d =
     (if \<not> f64_is_finite v then Err (NotFinite d)
      else if \<not> f64_integral v then Err (NotIntegral d)
      else Ok (f64_as_i64 v))"

text \<open>The arms for the integer types other than \<open>i64\<close> share one shape: \<open>n\<close> bytes, range \<open>lo..=hi\<close>.\<close>

definition int_constant_bytes ::
  "f64 \<Rightarrow> dtype \<Rightarrow> nat \<Rightarrow> int \<Rightarrow> int \<Rightarrow> (const_error, bytes) outcome" where
  "int_constant_bytes v d n lo hi =
     bind_outcome (integral_scalar v d) (\<lambda>i.
       if lo \<le> i \<and> i \<le> hi then Ok (le_bytes n i) else Err (OutOfRange d))"

fun scalar_constant_bytes :: "f64 \<Rightarrow> dtype \<Rightarrow> (const_error, bytes) outcome" where
  "scalar_constant_bytes v F32 = Ok (le_bytes 4 (uint (f64_as_f32 v)))"
| "scalar_constant_bytes v F64 = Ok (le_bytes 8 (uint v))"
| "scalar_constant_bytes v I8 = int_constant_bytes v I8 1 (- 128) 127"
| "scalar_constant_bytes v I16 = int_constant_bytes v I16 2 (- 32768) 32767"
| "scalar_constant_bytes v I32 = int_constant_bytes v I32 4 (- (2 ^ 31)) (2 ^ 31 - 1)"
| "scalar_constant_bytes v I64 =
     (if \<not> f64_is_finite v then Err (NotFinite I64)
      else if \<not> f64_integral v then Err (NotIntegral I64)
      else if 2 ^ 63 \<le> f64_trunc v \<or> f64_trunc v < - (2 ^ 63) then Err (OutOfRange I64)
      else Ok (le_bytes 8 (f64_as_i64 v)))"
| "scalar_constant_bytes v U8 = int_constant_bytes v U8 1 0 255"
| "scalar_constant_bytes v U32 = int_constant_bytes v U32 4 0 (2 ^ 32 - 1)"
| "scalar_constant_bytes v BoolT = Ok [if f64_exp v = 0 \<and> f64_frac v = 0 then 0 else 1]"
| "scalar_constant_bytes v F16 = Err (NeedsCast F16)"
| "scalar_constant_bytes v BF16 = Err (NeedsCast BF16)"
| "scalar_constant_bytes v C64 = Err (NeedsCast C64)"
| "scalar_constant_bytes v C128 = Err (NeedsCast C128)"

lemma length_le_bytes [simp]: "length (le_bytes n v) = n"
  by (simp add: le_bytes_def)

lemma le_bytes_Suc: "le_bytes (Suc n) v = word_of_int v # le_bytes n (v div 256)"
  by (simp add: le_bytes_def upt_conv_Cons map_Suc_upt [symmetric] comp_def
      zdiv_zmult2_eq [symmetric] del: upt_Suc)

lemma le_value_le_bytes: "le_value (le_bytes n v) = v mod 256 ^ n"
proof (induction n arbitrary: v)
  case 0
  then show ?case by (simp add: le_bytes_def)
next
  case (Suc n)
  have "le_value (le_bytes (Suc n) v) = v mod 256 + 256 * (v div 256 mod 256 ^ n)"
    by (simp add: le_bytes_Suc Suc.IH uint_word_of_int)
  then show ?case by (simp add: zmod_zmult2_eq)
qed

lemma le_signed_le_bytes:
  assumes "- (256 ^ n) \<le> 2 * v" and "2 * v < 256 ^ n"
  shows "le_signed (le_bytes n v) = v"
proof (cases "0 \<le> v")
  case True
  then have "v mod 256 ^ n = v" using assms by (intro mod_pos_pos_trivial) auto
  then show ?thesis using assms by (simp add: le_signed_def le_value_le_bytes)
next
  case False
  then have "(v + 256 ^ n) mod 256 ^ n = v + 256 ^ n"
    using assms by (intro mod_pos_pos_trivial) auto
  then show ?thesis using assms False by (simp add: le_signed_def le_value_le_bytes)
qed

lemma int_constant_bytes_OkD:
  assumes "int_constant_bytes v d n lo hi = Ok bs" and "- (2 ^ 63) < lo" and "hi < 2 ^ 63 - 1"
  shows "lo \<le> f64_trunc v" "f64_trunc v \<le> hi" "bs = le_bytes n (f64_trunc v)"
    "f64_is_finite v" "f64_integral v"
proof -
  have fin: "f64_is_finite v" and intg: "f64_integral v"
    and r: "lo \<le> f64_as_i64 v" "f64_as_i64 v \<le> hi" and bs: "bs = le_bytes n (f64_as_i64 v)"
    using assms(1) by (auto simp: int_constant_bytes_def integral_scalar_def outcome_simps
        split: if_splits)
  have "\<not> f64_is_nan v" using fin by (simp add: f64_is_nan_def f64_is_finite_def)
  then have "f64_as_i64 v = max (- (2 ^ 63)) (min (2 ^ 63 - 1) (f64_trunc v))"
    using fin by (simp add: f64_as_i64_def)
  with r assms(2,3) have "f64_as_i64 v = f64_trunc v"
    by (simp add: max_def min_def split: if_splits)
  with r bs show "lo \<le> f64_trunc v" "f64_trunc v \<le> hi" "bs = le_bytes n (f64_trunc v)" by auto
  show "f64_is_finite v" "f64_integral v" using fin intg .
qed

lemma int_constant_bytes_signed:
  assumes "int_constant_bytes v d n lo hi = Ok bs" and "- (2 ^ 63) < lo" and "hi < 2 ^ 63 - 1"
    and "- (256 ^ n) \<le> 2 * lo" and "2 * hi < 256 ^ n"
  shows "le_signed bs = f64_trunc v"
  using int_constant_bytes_OkD [OF assms(1-3)] assms(4,5) by (simp add: le_signed_le_bytes)

lemma int_constant_bytes_unsigned:
  assumes "int_constant_bytes v d n 0 hi = Ok bs" and "hi < 2 ^ 63 - 1" and "hi < 256 ^ n"
  shows "le_value bs = f64_trunc v"
  using int_constant_bytes_OkD [OF assms(1) _ assms(2)] assms(3) by (simp add: le_value_le_bytes)

text \<open>Reading the bytes of an integer literal back at its type.\<close>

definition int_of_bytes :: "dtype \<Rightarrow> bytes \<Rightarrow> int" where
  "int_of_bytes d bs = (if d \<in> {U8, U32} then le_value bs else le_signed bs)"

section \<open>Properties\<close>

text \<open>
  Integer literals round-trip: when a scalar literal of an integer type encodes, it has
  the type's size, the literal was finite and integral, and decoding the bytes at
  that type gives back exactly its value.
\<close>

theorem scalar_constant_roundtrip:
  assumes "scalar_constant_bytes v d = Ok bs" and "is_int d"
  shows "length bs = dtype_size_bytes d \<and> f64_is_finite v \<and> f64_integral v
         \<and> int_of_bytes d bs = f64_trunc v"
proof -
  have i64: "d = I64 \<Longrightarrow> f64_as_i64 v = f64_trunc v"
    using assms by (auto simp: f64_as_i64_def f64_is_nan_def f64_is_finite_def split: if_splits)
  show ?thesis
    using assms i64
    by (cases d)
      (auto simp: dtype_class_defs int_of_bytes_def le_signed_le_bytes
        dest: int_constant_bytes_OkD int_constant_bytes_signed int_constant_bytes_unsigned
        split: if_splits)
qed

text \<open>The pattern \<open>0xC060000000000000\<close> is the f64 \<open>-128.0\<close>.\<close>

theorem scalar_constant_roundtrip_witness:
  "scalar_constant_bytes 0xC060000000000000 I8 = Ok [0x80]
   \<and> int_of_bytes I8 [0x80] = f64_trunc 0xC060000000000000"
proof -
  have h: "scalar_constant_bytes 0xC060000000000000 I8 = Ok [0x80]"
    by (simp add: int_constant_bytes_def integral_scalar_def f64_decode_defs le_bytes_def)
  have i: "is_int I8" by (simp add: is_int_def)
  show ?thesis using scalar_constant_roundtrip [OF h i] h by blast
qed

text \<open>Promotion is commutative except between the signed and unsigned types of one
  width, where the left operand wins.
\<close>

theorem promote_commute_iff:
  "promote a b = promote b a \<longleftrightarrow>
   (a, b) \<notin> {(U8, I8), (I8, U8), (U32, I32), (I32, U32)}"
  by (rule dtype_pairs_check [where P = "\<lambda>a b. promote a b = promote b a \<longleftrightarrow>
    (a, b) \<notin> {(U8, I8), (I8, U8), (U32, I32), (I32, U32)}"]) code_simp

text \<open>The promoted type is at least as wide as both operands in the promotion order,
  it is a float type whenever an integer meets a float, and complex absorbs the rest.
\<close>

theorem promote_upper_bound:
  "promotion_rank a \<le> promotion_rank (promote a b)
   \<and> promotion_rank b \<le> promotion_rank (promote a b)
   \<and> (is_int a \<and> is_float b \<or> is_float a \<and> is_int b \<longrightarrow> is_float (promote a b))
   \<and> (is_complex a \<or> is_complex b \<longrightarrow> is_complex (promote a b))"
  by (rule dtype_pairs_check [where P = "\<lambda>a b. promotion_rank a \<le> promotion_rank (promote a b)
    \<and> promotion_rank b \<le> promotion_rank (promote a b)
    \<and> (is_int a \<and> is_float b \<or> is_float a \<and> is_int b \<longrightarrow> is_float (promote a b))
    \<and> (is_complex a \<or> is_complex b \<longrightarrow> is_complex (promote a b))"]) code_simp

end
