(* ===== verification/Shapes.thy ===== *)
theory Shapes
  imports DTypes
begin

text \<open>
  Tensor shapes and shape inference (\<open>crates/core/rlx-ir/src/shape.rs\<close>). A shape is a
  list of dimensions, each static or a dynamic symbol, with an element type.
  Every inference function is translated with its error returns (\<open>Err\<close>) and its
  panics (\<open>Panic\<close>: \<open>unwrap_static\<close> of a dynamic dimension, an index out of range,
  a subtraction that underflows). Additions and products that the source does not
  check are exact on \<open>nat\<close>.
\<close>

section \<open>Dimensions and shapes\<close>

datatype dim = Static nat | Dynamic nat

record shape =
  dims :: "dim list"
  shape_dtype :: dtype

text \<open>The error returns; each constructor is one message of the source.\<close>

datatype shape_error =
    CannotBroadcast nat nat
  | RankError nat nat
  | KMismatch dim dim
  | NotStatic nat
  | GroupedOutMismatch
  | NegativeDim int
  | AxisOutOfRange nat nat
  | WindowTooLong nat nat
  | DynamicAxis nat
  | ConcatEmpty
  | ConcatRankZero
  | AxisMismatch nat nat nat
  | SymbolMismatch nat nat
  | ManyWildcards
  | NoElementCount
  | ElementCount nat nat
  | ChannelMismatch nat nat
  | ZeroStride
  | NoOutput
  | DTypeMismatch dtype dtype
  | DoesNotFit nat
  | PastCapacity nat nat
  | RowExtent nat

type_synonym 'a res = "(shape_error, 'a) outcome"

fun unwrap_static :: "dim \<Rightarrow> nat res" where
  "unwrap_static (Static n) = Ok n"
| "unwrap_static (Dynamic s) = Panic"

fun is_static :: "dim \<Rightarrow> bool" where
  "is_static (Static n) = True"
| "is_static (Dynamic s) = False"

definition shape_new :: "nat list \<Rightarrow> dtype \<Rightarrow> shape" where
  "shape_new ds t = \<lparr>dims = map Static ds, shape_dtype = t\<rparr>"

definition shape_from_dims :: "dim list \<Rightarrow> dtype \<Rightarrow> shape" where
  "shape_from_dims ds t = \<lparr>dims = ds, shape_dtype = t\<rparr>"

definition shape_scalar :: "dtype \<Rightarrow> shape" where
  "shape_scalar t = \<lparr>dims = [], shape_dtype = t\<rparr>"

definition rank :: "shape \<Rightarrow> nat" where
  "rank s = length (dims s)"

definition dim_at :: "shape \<Rightarrow> nat \<Rightarrow> dim res" where
  "dim_at s i = index_or_panic (dims s) i"

definition static_at :: "shape \<Rightarrow> nat \<Rightarrow> nat res" where
  "static_at s i = bind_outcome (dim_at s i) unwrap_static"

definition static_dims :: "dim list \<Rightarrow> (nat list) res" where
  "static_dims ds = traverse unwrap_static ds"

definition gather_index_count :: "shape \<Rightarrow> nat \<Rightarrow> nat res" where
  "gather_index_count s axis =
     (if axis < rank s then static_at s axis
      else bind_outcome (static_dims (dims s)) (\<lambda>ns. Ok (max (prod_list ns) 1)))"

definition symbols_of :: "dim list \<Rightarrow> nat list" where
  "symbols_of ds =
     remdups_adj (sort (List.map_filter (\<lambda>d. case d of Dynamic s \<Rightarrow> Some s | Static _ \<Rightarrow> None) ds))"

definition dynamic_symbols :: "shape \<Rightarrow> nat list" where
  "dynamic_symbols s = symbols_of (dims s)"

fun bind_dim :: "(nat \<rightharpoonup> nat) \<Rightarrow> dim \<Rightarrow> dim" where
  "bind_dim b (Dynamic s) = (case b s of Some n \<Rightarrow> Static n | None \<Rightarrow> Dynamic s)"
| "bind_dim b (Static n) = Static n"

definition bind_shape :: "shape \<Rightarrow> (nat \<rightharpoonup> nat) \<Rightarrow> shape" where
  "bind_shape s b = s\<lparr>dims := map (bind_dim b) (dims s)\<rparr>"

fun checked_product :: "nat \<Rightarrow> dim list \<Rightarrow> nat option" where
  "checked_product tot [] = Some tot"
| "checked_product tot (Static n # ds) =
     (case checked_mul tot n of None \<Rightarrow> None | Some t \<Rightarrow> checked_product t ds)"
| "checked_product tot (Dynamic s # ds) = None"

definition num_elements :: "shape \<Rightarrow> nat option" where
  "num_elements s = checked_product 1 (dims s)"

definition shape_size_bytes :: "shape \<Rightarrow> nat option" where
  "shape_size_bytes s = map_option (\<lambda>n. n * dtype_size_bytes (shape_dtype s)) (num_elements s)"

definition shape_is_static :: "shape \<Rightarrow> bool" where
  "shape_is_static s = list_all is_static (dims s)"

definition with_dim :: "shape \<Rightarrow> nat \<Rightarrow> dim \<Rightarrow> shape res" where
  "with_dim s axis d =
     (if axis < rank s then Ok (s\<lparr>dims := (dims s)[axis := d]\<rparr>) else Panic)"

definition with_dtype :: "shape \<Rightarrow> dtype \<Rightarrow> shape" where
  "with_dtype s t = s\<lparr>shape_dtype := t\<rparr>"

section \<open>Modulation metadata\<close>

definition as_u32 :: "nat \<Rightarrow> nat" where
  "as_u32 n = n mod 2 ^ 32"

definition saturating_mul_u32 :: "nat \<Rightarrow> nat \<Rightarrow> nat" where
  "saturating_mul_u32 a b = min (a * b) u32_max"

definition ada_modulation_lead_pack :: "nat list \<Rightarrow> nat list \<Rightarrow> (nat list) res" where
  "ada_modulation_lead_pack x_dims mod_dims_in =
     (let rk = length x_dims; lead = rk - 1 in
      if rk < 1 \<or> 8 < lead \<or> rk < length mod_dims_in then Panic
      else
        let pad = rk - length mod_dims_in;
            mod_dims = replicate pad 1 @ mod_dims_in
        in Ok ([as_u32 lead]
               @ map as_u32 (take lead x_dims) @ replicate (8 - lead) 0
               @ map as_u32 (take lead mod_dims) @ replicate (8 - lead) 0))"

definition launch_step ::
  "nat list \<Rightarrow> nat list \<Rightarrow> nat \<Rightarrow> nat \<Rightarrow> nat \<times> nat \<Rightarrow> nat \<Rightarrow> (nat \<times> nat) res" where
  "launch_step x_dims mod_dims xr mr st i =
     (if xr \<le> i + mr \<and> xr < mr then Panic
      else
        let xd = as_u32 (x_dims ! i);
            md = (if xr \<le> i + mr then as_u32 (mod_dims ! (i - (xr - mr))) else 1)
        in if md = 1 \<and> 1 < xd then Ok (fst st, saturating_mul_u32 (snd st) xd)
           else Ok (saturating_mul_u32 (fst st) (max xd 1), snd st))"

definition ada_modulation_launch :: "nat list \<Rightarrow> nat list \<Rightarrow> (nat \<times> nat) res" where
  "ada_modulation_launch x_dims mod_dims =
     (if x_dims = [] \<or> mod_dims = [] then Panic
      else
        let xr = length x_dims - 1; mr = length mod_dims - 1 in
        bind_outcome (for_each (launch_step x_dims mod_dims xr mr) (1, 1) [0..<xr])
          (\<lambda>(mods, sq). Ok (max mods 1, max sq 1)))"

section \<open>Broadcasting\<close>

definition broadcast_dim :: "dim \<Rightarrow> dim \<Rightarrow> dim res" where
  "broadcast_dim a b =
     (if a = Static 1 then Ok b
      else if b = Static 1 then Ok a
      else case (a, b) of
        (Static x, Static y) \<Rightarrow> if x = y then Ok (Static x) else Err (CannotBroadcast x y)
      | (Dynamic s, Dynamic t) \<Rightarrow> if s = t then Ok (Dynamic s) else Ok a
      | _ \<Rightarrow> Ok a)"

definition aligned_dim :: "shape \<Rightarrow> nat \<Rightarrow> nat \<Rightarrow> dim" where
  "aligned_dim s max_rank i =
     (if i < max_rank - rank s then Static 1 else dims s ! (i - (max_rank - rank s)))"

definition broadcast :: "shape \<Rightarrow> shape \<Rightarrow> shape res" where
  "broadcast a b =
     (let max_rank = max (rank a) (rank b) in
      bind_outcome
        (traverse (\<lambda>i. broadcast_dim (aligned_dim a max_rank i) (aligned_dim b max_rank i))
          [0..<max_rank])
        (\<lambda>ds. Ok \<lparr>dims = ds, shape_dtype = shape_dtype a\<rparr>))"

definition broadcast_with :: "shape \<Rightarrow> shape \<Rightarrow> shape res" where
  "broadcast_with a b = broadcast a b"

section \<open>Matrix products\<close>

record grouped_dims =
  gm_m :: nat
  gm_k :: nat
  gm_n :: nat
  gm_experts :: nat

text \<open>The closure \<open>statics\<close>: a dynamic dimension is an error here, not a panic.\<close>

fun statics :: "dim \<Rightarrow> nat res" where
  "statics (Static v) = Ok v"
| "statics (Dynamic s) = Err (NotStatic s)"

definition grouped_matmul_dims :: "shape \<Rightarrow> shape \<Rightarrow> shape option \<Rightarrow> grouped_dims res" where
  "grouped_matmul_dims input weight out =
     (if rank input < 2 then Err (RankError (rank input) 2)
      else if rank weight \<noteq> 3 then Err (RankError (rank weight) 3)
      else
        bind_outcome (bind_outcome (dim_at input (rank input - 2)) statics) (\<lambda>m.
        bind_outcome (bind_outcome (dim_at input (rank input - 1)) statics) (\<lambda>k.
        bind_outcome (bind_outcome (dim_at weight 0) statics) (\<lambda>e.
        bind_outcome (bind_outcome (dim_at weight 1) statics) (\<lambda>k_w.
        bind_outcome (bind_outcome (dim_at weight 2) statics) (\<lambda>n.
          if k \<noteq> k_w then Err (KMismatch (Static k) (Static k_w))
          else
            let result = Ok \<lparr>gm_m = m, gm_k = k, gm_n = n, gm_experts = e\<rparr> in
            case out of
              None \<Rightarrow> result
            | Some o_s \<Rightarrow>
                bind_outcome (bind_outcome (dim_at o_s (rank o_s - 1)) statics) (\<lambda>out_n.
                  let out_elems = (case num_elements o_s of None \<Rightarrow> 0 | Some c \<Rightarrow> c) in
                  if out_n \<noteq> n \<or> out_elems \<noteq> m * n then Err GroupedOutMismatch
                  else result)))))))"

definition grouped_matmul_shape :: "shape \<Rightarrow> shape \<Rightarrow> shape res" where
  "grouped_matmul_shape input weight =
     bind_outcome (grouped_matmul_dims input weight None)
       (\<lambda>d. Ok (shape_new [gm_m d, gm_n d] (shape_dtype input)))"

text \<open>The contraction check: equal extents, or equal symbols; a static against a dynamic passes.\<close>

fun k_agree :: "dim \<Rightarrow> dim \<Rightarrow> bool" where
  "k_agree (Static a) (Static b) = (a = b)"
| "k_agree (Dynamic s) (Dynamic t) = (s = t)"
| "k_agree _ _ = True"

definition matmul_shape :: "shape \<Rightarrow> shape \<Rightarrow> shape res" where
  "matmul_shape lhs rhs =
     (if rank lhs < 2 \<or> rank rhs < 2 then Err (RankError (rank lhs) (rank rhs))
      else
        let m = dims lhs ! (rank lhs - 2); k1 = dims lhs ! (rank lhs - 1);
            k2 = dims rhs ! (rank rhs - 2); n = dims rhs ! (rank rhs - 1)
        in
        if \<not> k_agree k1 k2 then Err (KMismatch k1 k2)
        else
          let lhs_batch = take (rank lhs - 2) (dims lhs);
              rhs_batch = take (rank rhs - 2) (dims rhs);
              batch_a = shape_from_dims lhs_batch (shape_dtype lhs);
              batch_b = shape_from_dims rhs_batch (shape_dtype rhs)
          in
          bind_outcome
            (if lhs_batch = [] \<and> rhs_batch = [] then Ok []
             else if lhs_batch = [] then Ok rhs_batch
             else if rhs_batch = [] then Ok lhs_batch
             else bind_outcome (broadcast batch_a batch_b) (\<lambda>s. Ok (dims s)))
            (\<lambda>batch. Ok \<lparr>dims = batch @ [m, n], shape_dtype = shape_dtype lhs\<rparr>))"

definition dequant_matmul_shape :: "shape \<Rightarrow> shape \<Rightarrow> shape res" where
  "dequant_matmul_shape lhs rhs =
     (if rank lhs < 2 then Err (RankError (rank lhs) 2)
      else if rank rhs \<noteq> 2 then Err (RankError (rank rhs) 2)
      else
        let m = dims lhs ! (rank lhs - 2); k_lhs = dims lhs ! (rank lhs - 1);
            n = dims rhs ! 0; k_rhs = dims rhs ! 1
        in
        if \<not> k_agree k_lhs k_rhs then Err (KMismatch k_lhs k_rhs)
        else Ok \<lparr>dims = take (rank lhs - 2) (dims lhs) @ [m, n], shape_dtype = shape_dtype lhs\<rparr>)"

section \<open>Element-wise, reducing and data-movement operators\<close>

definition expand_shape :: "shape \<Rightarrow> int list \<Rightarrow> shape res" where
  "expand_shape input target =
     (case find (\<lambda>d. d < 0) target of
        Some d \<Rightarrow> Err (NegativeDim d)
      | None \<Rightarrow> broadcast input (shape_new (map nat target) (shape_dtype input)))"

definition binary_shape :: "shape \<Rightarrow> shape \<Rightarrow> shape res" where
  "binary_shape lhs rhs = broadcast lhs rhs"

definition unary_shape :: "shape \<Rightarrow> shape" where
  "unary_shape input = input"

definition cast_shape :: "shape \<Rightarrow> dtype \<Rightarrow> shape" where
  "cast_shape input to = with_dtype input to"

definition compare_shape :: "shape \<Rightarrow> shape \<Rightarrow> shape res" where
  "compare_shape lhs rhs = bind_outcome (broadcast lhs rhs) (\<lambda>s. Ok (with_dtype s BoolT))"

definition reduce_shape :: "shape \<Rightarrow> nat list \<Rightarrow> bool \<Rightarrow> shape res" where
  "reduce_shape input axes keep_dim =
     Ok \<lparr>dims = concat (map (\<lambda>i. if i \<in> set axes then (if keep_dim then [Static 1] else [])
                                 else [dims input ! i]) [0..<rank input]),
         shape_dtype = shape_dtype input\<rparr>"

definition softmax_shape :: "shape \<Rightarrow> shape" where
  "softmax_shape input = input"

definition transpose_shape :: "shape \<Rightarrow> nat list \<Rightarrow> shape res" where
  "transpose_shape input perm =
     (if length perm \<noteq> rank input then Err (RankError (length perm) (rank input))
      else bind_outcome (traverse (dim_at input) perm)
             (\<lambda>ds. Ok \<lparr>dims = ds, shape_dtype = shape_dtype input\<rparr>))"

definition narrow_shape_at :: "shape \<Rightarrow> nat \<Rightarrow> nat \<Rightarrow> nat \<Rightarrow> shape res" where
  "narrow_shape_at input axis start len =
     (if rank input \<le> axis then Err (AxisOutOfRange axis (rank input))
      else bind_outcome (dim_at input axis) (\<lambda>d.
        case d of
          Static extent \<Rightarrow>
            if extent < start + len then Err (WindowTooLong (start + len) extent)
            else with_dim input axis (Static len)
        | Dynamic s \<Rightarrow> with_dim input axis (Static len)))"

definition narrow_shape :: "shape \<Rightarrow> nat \<Rightarrow> nat \<Rightarrow> shape res" where
  "narrow_shape input axis len = narrow_shape_at input axis 0 len"

text \<open>The loop body of \<open>tile_shape\<close> for \<open>(axis, r)\<close>; it reads the input and writes \<open>out\<close>.\<close>

definition tile_step :: "shape \<Rightarrow> shape \<Rightarrow> nat \<times> nat \<Rightarrow> shape res" where
  "tile_step input out p =
     (let axis = fst p; r = snd p in
      if r = 1 then Ok out
      else bind_outcome (dim_at input axis) (\<lambda>d. case d of
        Static n \<Rightarrow> with_dim out axis (Static (n * r))
      | Dynamic s \<Rightarrow> Err (DynamicAxis axis)))"

definition tile_shape :: "shape \<Rightarrow> nat list \<Rightarrow> shape res" where
  "tile_shape input reps =
     (if length reps \<noteq> rank input then Err (RankError (length reps) (rank input))
      else for_each (tile_step input) input (List.enumerate 0 reps))"

definition slice_shape :: "shape \<Rightarrow> nat \<Rightarrow> nat \<Rightarrow> shape res" where
  "slice_shape input axis len =
     (if rank input \<le> axis then Err (AxisOutOfRange axis (rank input))
      else with_dim input axis (Static len))"

definition pad_step :: "shape \<Rightarrow> shape \<Rightarrow> nat \<times> nat \<times> nat \<Rightarrow> shape res" where
  "pad_step input out p =
     (let axis = fst p; before = fst (snd p); after = snd (snd p) in
      if before = 0 \<and> after = 0 then Ok out
      else bind_outcome (dim_at input axis) (\<lambda>d. case d of
        Static n \<Rightarrow> with_dim out axis (Static (n + before + after))
      | Dynamic s \<Rightarrow> Err (DynamicAxis axis)))"

definition pad_shape :: "shape \<Rightarrow> (nat \<times> nat) list \<Rightarrow> shape res" where
  "pad_shape input pads =
     (if length pads \<noteq> rank input then Err (RankError (length pads) (rank input))
      else for_each (pad_step input) input (List.enumerate 0 pads))"

text \<open>The off-axis check of one concat operand: the first static mismatch with the base.\<close>

definition concat_mismatch :: "shape \<Rightarrow> shape \<Rightarrow> nat \<Rightarrow> nat option" where
  "concat_mismatch base s ax =
     find (\<lambda>d. d \<noteq> ax \<and> (case (dims s ! d, dims base ! d) of
              (Static a, Static b) \<Rightarrow> a \<noteq> b | _ \<Rightarrow> False)) [0..<rank s]"

definition concat_step ::
  "shape \<Rightarrow> nat \<Rightarrow> nat \<times> nat option \<Rightarrow> shape \<Rightarrow> (nat \<times> nat option) res" where
  "concat_step base axis st s =
     (if rank s = 0 then Err ConcatRankZero
      else if rank s \<noteq> rank base then Err (RankError (rank s) (rank base))
      else
        let ax = min axis (rank s - 1) in
        case concat_mismatch base s ax of
          Some d \<Rightarrow> Err (AxisMismatch d ax axis)
        | None \<Rightarrow>
            (case dims s ! ax of
               Static n \<Rightarrow> Ok (fst st + n, snd st)
             | Dynamic sy \<Rightarrow>
                 (case snd st of
                    Some prev \<Rightarrow>
                      if prev \<noteq> sy then Err (SymbolMismatch prev sy)
                      else Ok (fst st, Some sy)
                  | None \<Rightarrow> Ok (fst st, Some sy))))"

definition concat_shape :: "shape list \<Rightarrow> nat \<Rightarrow> shape res" where
  "concat_shape inputs axis =
     (case inputs of
        [] \<Rightarrow> Err ConcatEmpty
      | base # _ \<Rightarrow>
          bind_outcome (for_each (concat_step base axis) (0, None) inputs) (\<lambda>(static_sum, dyn_sym).
            let out_dim = (case dyn_sym of None \<Rightarrow> Static static_sum | Some sy \<Rightarrow> Dynamic sy);
                out_axis = min axis (rank base - 1)
            in with_dim base out_axis out_dim))"

definition gather_shape :: "shape \<Rightarrow> shape \<Rightarrow> nat \<Rightarrow> shape res" where
  "gather_shape table indices axis =
     (if rank table \<le> axis then Err (AxisOutOfRange axis (rank table))
      else Ok \<lparr>dims = take axis (dims table) @ dims indices @ drop (axis + 1) (dims table),
               shape_dtype = shape_dtype table\<rparr>)"

section \<open>Reshape\<close>

text \<open>\<open>as\<close> casts between \<open>usize\<close> and \<open>i64\<close> reinterpret modulo \<open>2 ^ 64\<close>.\<close>

definition as_i64 :: "nat \<Rightarrow> int" where
  "as_i64 n = (let m = int n mod 2 ^ 64 in if m < 2 ^ 63 then m else m - 2 ^ 64)"

definition as_usize :: "int \<Rightarrow> nat" where
  "as_usize i = nat (i mod 2 ^ 64)"

text \<open>Rust's \<open>/\<close> on signed integers truncates towards zero; the divisor here is positive.\<close>

definition trunc_div :: "int \<Rightarrow> int \<Rightarrow> int" where
  "trunc_div a b = sgn a * sgn b * (\<bar>a\<bar> div \<bar>b\<bar>)"

definition sym_rows :: nat where
  "sym_rows = 2"

definition wildcard_count :: "int list \<Rightarrow> nat" where
  "wildcard_count new_shape = length (filter (\<lambda>d. d = - 1) new_shape)"

definition reshape_dim_static :: "shape \<Rightarrow> int \<Rightarrow> int \<Rightarrow> dim res" where
  "reshape_dim_static input known_product d =
     (if d = - 1 then
        (case num_elements input of
           None \<Rightarrow> Err NoElementCount
         | Some tot \<Rightarrow> Ok (Static (as_usize (trunc_div (as_i64 tot) (max known_product 1)))))
      else if d < 0 then Err (NegativeDim d)
      else Ok (Static (nat d)))"

definition reshape_static :: "shape \<Rightarrow> int list \<Rightarrow> shape res" where
  "reshape_static input new_shape =
     (let known_product = prod_list (filter (\<lambda>d. d \<noteq> - 1) new_shape) in
      bind_outcome (traverse (reshape_dim_static input known_product) new_shape) (\<lambda>ds.
        let result = Ok \<lparr>dims = ds, shape_dtype = shape_dtype input\<rparr> in
        case num_elements input of
          None \<Rightarrow> result
        | Some tot \<Rightarrow>
            let out_total = (case checked_product 1 ds of None \<Rightarrow> usize_max | Some t \<Rightarrow> t) in
            if out_total \<noteq> tot then Err (ElementCount tot out_total) else result))"

text \<open>The position of the first wildcard, \<open>new_shape.iter().position(|&d| d == -1)\<close>.\<close>

fun wildcard_position :: "int list \<Rightarrow> nat option" where
  "wildcard_position [] = None"
| "wildcard_position (d # ds) = (if d = - 1 then Some 0 else map_option Suc (wildcard_position ds))"

definition insert_at :: "nat \<Rightarrow> 'a \<Rightarrow> 'a list \<Rightarrow> 'a list" where
  "insert_at i x xs = take i xs @ x # drop i xs"

definition reshape_symbolic :: "shape \<Rightarrow> int list \<Rightarrow> shape res" where
  "reshape_symbolic input new_shape =
     (let dyn_syms = dynamic_symbols input; neg_idx = wildcard_position new_shape in
      bind_outcome
        (traverse (\<lambda>d. if d < 0 then Err (NegativeDim d) else Ok (Static (nat d)))
          (case neg_idx of None \<Rightarrow> new_shape
           | Some ni \<Rightarrow> take ni new_shape @ drop (Suc ni) new_shape))
        (\<lambda>out_dims.
          case neg_idx of
            None \<Rightarrow> Ok \<lparr>dims = out_dims, shape_dtype = shape_dtype input\<rparr>
          | Some ni \<Rightarrow>
              (case dyn_syms of
                 [] \<Rightarrow> Err NoElementCount
               | [sy] \<Rightarrow> Ok \<lparr>dims = insert_at ni (Dynamic sy) out_dims,
                               shape_dtype = shape_dtype input\<rparr>
               | _ \<Rightarrow> Ok \<lparr>dims = insert_at ni (Dynamic sym_rows) out_dims,
                           shape_dtype = shape_dtype input\<rparr>)))"

definition reshape_shape :: "shape \<Rightarrow> int list \<Rightarrow> shape res" where
  "reshape_shape input new_shape =
     (if 1 < wildcard_count new_shape then Err ManyWildcards
      else if shape_is_static input then reshape_static input new_shape
      else reshape_symbolic input new_shape)"

text \<open>Flattening the leading axes; \<open>Ok None\<close> is the source's \<open>None\<close>.\<close>

definition leading_flatten_fused_shape :: "shape \<Rightarrow> shape option" where
  "leading_flatten_fused_shape input =
     (if rank input < 2 then None
      else case dims input ! (rank input - 1) of
        Dynamic s \<Rightarrow> None
      | Static h \<Rightarrow>
          let leading = take (rank input - 1) (dims input);
              product = prod_list (List.map_filter (\<lambda>d. case d of Static n \<Rightarrow> Some n | _ \<Rightarrow> None) leading);
              lead_dim =
                (if list_all is_static leading then Static product
                 else case symbols_of leading of
                     [] \<Rightarrow> Static product
                   | [sy] \<Rightarrow> Dynamic sy
                   | _ \<Rightarrow> Dynamic sym_rows)
          in Some (shape_from_dims [lead_dim, Static h] (shape_dtype input)))"

definition leading_flatten_shape :: "shape \<Rightarrow> int list \<Rightarrow> shape option" where
  "leading_flatten_shape input new_shape =
     (if length new_shape \<noteq> 2 then None
      else case leading_flatten_fused_shape input of
        None \<Rightarrow> None
      | Some flat \<Rightarrow>
          (case dims input ! (rank input - 1) of
             Dynamic s \<Rightarrow> None
           | Static h \<Rightarrow>
               if as_usize (new_shape ! 1) \<noteq> h then None
               else case dims flat ! 0 of
                 Static lead \<Rightarrow> if as_usize (new_shape ! 0) = lead then Some flat else None
               | Dynamic s \<Rightarrow> if new_shape ! 0 = - 1 then Some flat else None))"

section \<open>Attention, convolution and pooling\<close>

definition attention_shape :: "shape \<Rightarrow> shape" where
  "attention_shape q = q"

definition attention_shape_vdim :: "shape \<Rightarrow> nat \<Rightarrow> nat \<Rightarrow> nat \<Rightarrow> shape res" where
  "attention_shape_vdim q num_heads head_dim v_head_dim =
     (if head_dim = v_head_dim \<or> rank q = 0 then Ok q
      else
        let new_last = (if 4 \<le> rank q then v_head_dim else num_heads * v_head_dim)
        in with_dim q (rank q - 1) (Static new_last))"

text \<open>
  The two spatial size rules. Division by a zero stride panics, as does the
  subtraction of the transposed rule when it would go below zero.
\<close>

definition conv2d_spatial_output ::
  "nat \<Rightarrow> nat \<Rightarrow> nat \<Rightarrow> nat \<Rightarrow> nat \<Rightarrow> nat res" where
  "conv2d_spatial_output in_size kern stride padding dilation =
     (let dil_k = saturating_mul dilation (kern - 1) in
      if stride = 0 then Panic
      else Ok ((in_size + 2 * padding - dil_k - 1) div stride + 1))"

definition conv_transpose2d_spatial_output ::
  "nat \<Rightarrow> nat \<Rightarrow> nat \<Rightarrow> nat \<Rightarrow> nat \<Rightarrow> nat \<Rightarrow> nat res" where
  "conv_transpose2d_spatial_output in_size kern stride padding dilation output_padding =
     (let dil_k = saturating_mul dilation (kern - 1) in
      if in_size = 0 \<or> (in_size - 1) * stride + output_padding + dil_k < 2 * padding then Panic
      else Ok ((in_size - 1) * stride + output_padding + dil_k - 2 * padding + 1))"

definition conv2d_output_shape ::
  "shape \<Rightarrow> shape \<Rightarrow> nat \<times> nat \<Rightarrow> nat \<times> nat \<Rightarrow> nat \<times> nat \<Rightarrow> nat \<times> nat \<Rightarrow> nat \<Rightarrow> shape res" where
  "conv2d_output_shape input weight kernel_size stride padding dilation groups =
     (if rank input \<noteq> 4 \<or> rank weight \<noteq> 4 then Err (RankError (rank input) (rank weight))
      else
        bind_outcome (dim_at input 0) (\<lambda>n.
        bind_outcome (static_at input 1) (\<lambda>c_in.
        bind_outcome (static_at input 2) (\<lambda>h.
        bind_outcome (static_at input 3) (\<lambda>w.
        bind_outcome (static_at weight 0) (\<lambda>c_out.
        bind_outcome (static_at weight 1) (\<lambda>w_cin.
          if w_cin * groups \<noteq> c_in then Err (ChannelMismatch (w_cin * groups) c_in)
          else
            bind_outcome (conv2d_spatial_output h (fst kernel_size) (fst stride) (fst padding)
              (fst dilation)) (\<lambda>h_out.
            bind_outcome (conv2d_spatial_output w (snd kernel_size) (snd stride) (snd padding)
              (snd dilation)) (\<lambda>w_out.
            Ok (shape_from_dims [n, Static c_out, Static h_out, Static w_out]
                 (shape_dtype input)))))))))))"

definition rope_table_stride :: "shape \<Rightarrow> nat \<Rightarrow> nat res" where
  "rope_table_stride cos_t n_rot =
     (if 2 \<le> rank cos_t
      then bind_outcome (unwrap_static (last (dims cos_t))) (\<lambda>d. Ok (max d 1))
      else Ok (max (n_rot div 2) 1))"

definition pool2d_output_shape ::
  "shape \<Rightarrow> nat \<times> nat \<Rightarrow> nat \<times> nat \<Rightarrow> nat \<times> nat \<Rightarrow> shape res" where
  "pool2d_output_shape input kernel_size stride padding =
     (if rank input \<noteq> 4 then Err (RankError (rank input) 4)
      else if fst stride = 0 \<or> snd stride = 0 then Err ZeroStride
      else
        bind_outcome (dim_at input 0) (\<lambda>n.
        bind_outcome (dim_at input 1) (\<lambda>c.
        bind_outcome (static_at input 2) (\<lambda>h.
        bind_outcome (static_at input 3) (\<lambda>w.
        bind_outcome (conv2d_spatial_output h (fst kernel_size) (fst stride) (fst padding) 1)
          (\<lambda>h_out.
        bind_outcome (conv2d_spatial_output w (snd kernel_size) (snd stride) (snd padding) 1)
          (\<lambda>w_out.
          if h_out = 0 \<or> w_out = 0 then Err NoOutput
          else Ok (shape_from_dims [n, c, Static h_out, Static w_out] (shape_dtype input)))))))))"

definition im2col_output_shape ::
  "shape \<Rightarrow> nat \<times> nat \<Rightarrow> nat \<times> nat \<Rightarrow> nat \<times> nat \<Rightarrow> nat \<times> nat \<Rightarrow> shape res" where
  "im2col_output_shape input kernel_size stride padding dilation =
     (if rank input \<noteq> 4 then Err (RankError (rank input) 4)
      else
        bind_outcome (static_at input 1) (\<lambda>c_in.
        bind_outcome (static_at input 2) (\<lambda>h.
        bind_outcome (static_at input 3) (\<lambda>w.
        bind_outcome (conv2d_spatial_output h (fst kernel_size) (fst stride) (fst padding)
          (fst dilation)) (\<lambda>h_out.
        bind_outcome (conv2d_spatial_output w (snd kernel_size) (snd stride) (snd padding)
          (snd dilation)) (\<lambda>w_out.
        bind_outcome (dim_at input 0) (\<lambda>n.
          let k = c_in * fst kernel_size * snd kernel_size;
              spatial = h_out * w_out;
              m = (case n of Static b \<Rightarrow> Static (b * spatial) | Dynamic s \<Rightarrow> Dynamic sym_rows)
          in Ok (shape_from_dims [m, Static k] (shape_dtype input)))))))))"

definition conv_transpose2d_output_shape ::
  "shape \<Rightarrow> shape \<Rightarrow> nat \<times> nat \<Rightarrow> nat \<times> nat \<Rightarrow> nat \<times> nat \<Rightarrow> nat \<times> nat \<Rightarrow> nat \<times> nat \<Rightarrow> nat
   \<Rightarrow> shape res" where
  "conv_transpose2d_output_shape input weight kernel_size stride padding dilation output_padding
     groups =
     (if rank input \<noteq> 4 \<or> rank weight \<noteq> 4 then Err (RankError (rank input) (rank weight))
      else
        bind_outcome (dim_at input 0) (\<lambda>n.
        bind_outcome (static_at input 1) (\<lambda>c_in.
        bind_outcome (static_at input 2) (\<lambda>h.
        bind_outcome (static_at input 3) (\<lambda>w.
        bind_outcome (static_at weight 0) (\<lambda>w_cin.
        bind_outcome (static_at weight 1) (\<lambda>c_out_per_g.
          if w_cin \<noteq> c_in then Err (ChannelMismatch w_cin c_in)
          else
            bind_outcome (conv_transpose2d_spatial_output h (fst kernel_size) (fst stride)
              (fst padding) (fst dilation) (fst output_padding)) (\<lambda>h_out.
            bind_outcome (conv_transpose2d_spatial_output w (snd kernel_size) (snd stride)
              (snd padding) (snd dilation) (snd output_padding)) (\<lambda>w_out.
            Ok (shape_from_dims [n, Static (c_out_per_g * groups), Static h_out, Static w_out]
                 (shape_dtype input)))))))))))"

type_synonym triple = "nat \<times> nat \<times> nat"

definition fst3 :: "triple \<Rightarrow> nat" where "fst3 t = fst t"
definition snd3 :: "triple \<Rightarrow> nat" where "snd3 t = fst (snd t)"
definition thd3 :: "triple \<Rightarrow> nat" where "thd3 t = snd (snd t)"

definition conv3d_output_shape ::
  "shape \<Rightarrow> shape \<Rightarrow> triple \<Rightarrow> triple \<Rightarrow> triple \<Rightarrow> triple \<Rightarrow> nat \<Rightarrow> shape res" where
  "conv3d_output_shape input weight kernel_size stride padding dilation groups =
     (if rank input \<noteq> 5 \<or> rank weight \<noteq> 5 then Err (RankError (rank input) (rank weight))
      else
        bind_outcome (dim_at input 0) (\<lambda>n.
        bind_outcome (static_at input 1) (\<lambda>c_in.
        bind_outcome (static_at input 2) (\<lambda>d.
        bind_outcome (static_at input 3) (\<lambda>h.
        bind_outcome (static_at input 4) (\<lambda>w.
        bind_outcome (static_at weight 0) (\<lambda>c_out.
        bind_outcome (static_at weight 1) (\<lambda>w_cin.
          if w_cin * groups \<noteq> c_in then Err (ChannelMismatch (w_cin * groups) c_in)
          else
            bind_outcome (conv2d_spatial_output d (fst3 kernel_size) (fst3 stride) (fst3 padding)
              (fst3 dilation)) (\<lambda>d_out.
            bind_outcome (conv2d_spatial_output h (snd3 kernel_size) (snd3 stride) (snd3 padding)
              (snd3 dilation)) (\<lambda>h_out.
            bind_outcome (conv2d_spatial_output w (thd3 kernel_size) (thd3 stride) (thd3 padding)
              (thd3 dilation)) (\<lambda>w_out.
            Ok (shape_from_dims [n, Static c_out, Static d_out, Static h_out, Static w_out]
                 (shape_dtype input)))))))))))))"

definition conv_transpose3d_output_shape ::
  "shape \<Rightarrow> shape \<Rightarrow> triple \<Rightarrow> triple \<Rightarrow> triple \<Rightarrow> triple \<Rightarrow> triple \<Rightarrow> nat \<Rightarrow> shape res" where
  "conv_transpose3d_output_shape input weight kernel_size stride padding dilation output_padding
     groups =
     (if rank input \<noteq> 5 \<or> rank weight \<noteq> 5 then Err (RankError (rank input) (rank weight))
      else
        bind_outcome (dim_at input 0) (\<lambda>n.
        bind_outcome (static_at input 1) (\<lambda>c_in.
        bind_outcome (static_at input 2) (\<lambda>d.
        bind_outcome (static_at input 3) (\<lambda>h.
        bind_outcome (static_at input 4) (\<lambda>w.
        bind_outcome (static_at weight 0) (\<lambda>w_cin.
        bind_outcome (static_at weight 1) (\<lambda>c_out_per_g.
          if w_cin \<noteq> c_in then Err (ChannelMismatch w_cin c_in)
          else
            bind_outcome (conv_transpose2d_spatial_output d (fst3 kernel_size) (fst3 stride)
              (fst3 padding) (fst3 dilation) (fst3 output_padding)) (\<lambda>d_out.
            bind_outcome (conv_transpose2d_spatial_output h (snd3 kernel_size) (snd3 stride)
              (snd3 padding) (snd3 dilation) (snd3 output_padding)) (\<lambda>h_out.
            bind_outcome (conv_transpose2d_spatial_output w (thd3 kernel_size) (thd3 stride)
              (thd3 padding) (thd3 dilation) (thd3 output_padding)) (\<lambda>w_out.
            Ok (shape_from_dims
                 [n, Static (c_out_per_g * groups), Static d_out, Static h_out, Static w_out]
                 (shape_dtype input)))))))))))))"

section \<open>In-place updates\<close>

fun update_fits :: "bool \<Rightarrow> dim \<Rightarrow> dim \<Rightarrow> bool" where
  "update_fits on_axis (Static o_n) (Static u_n) = (if on_axis then u_n \<le> o_n else o_n = u_n)"
| "update_fits on_axis o_d u_d = (on_axis \<or> o_d = u_d)"

definition dynamic_update_slice_shape :: "shape \<Rightarrow> shape \<Rightarrow> nat \<Rightarrow> shape res" where
  "dynamic_update_slice_shape operand upd axis =
     (if rank operand \<le> axis \<or> rank upd \<noteq> rank operand then Err (AxisOutOfRange axis (rank operand))
      else if shape_dtype upd \<noteq> shape_dtype operand
      then Err (DTypeMismatch (shape_dtype upd) (shape_dtype operand))
      else case find (\<lambda>i. \<not> update_fits (i = axis) (dims operand ! i) (dims upd ! i))
                  [0..<rank operand] of
        Some i \<Rightarrow> Err (DoesNotFit i)
      | None \<Rightarrow> Ok operand)"

definition kv_append_shape :: "shape \<Rightarrow> shape \<Rightarrow> nat \<Rightarrow> nat \<Rightarrow> shape res" where
  "kv_append_shape cache row axis pos =
     (if rank cache \<le> axis then Err (AxisOutOfRange axis (rank cache))
      else if rank row \<noteq> rank cache then Err (RankError (rank row) (rank cache))
      else if shape_dtype row \<noteq> shape_dtype cache
      then Err (DTypeMismatch (shape_dtype row) (shape_dtype cache))
      else if (case dims cache ! axis of Static cap \<Rightarrow> cap \<le> pos | Dynamic s \<Rightarrow> False)
      then Err (PastCapacity pos axis)
      else if (case dims row ! axis of Static n \<Rightarrow> n \<noteq> 1 | Dynamic s \<Rightarrow> False)
      then Err (RowExtent axis)
      else case find (\<lambda>i. i \<noteq> axis \<and> (case (dims cache ! i, dims row ! i) of
                            (Static c, Static r) \<Rightarrow> c \<noteq> r | _ \<Rightarrow> False)) [0..<rank cache] of
        Some i \<Rightarrow> Err (DoesNotFit i)
      | None \<Rightarrow> with_dim cache axis (Static (pos + 1)))"

end
