(* ===== verification/ShapeLaws.thy ===== *)
theory ShapeLaws
  imports Shapes "HOL-Library.Multiset"
begin

text \<open>
  Laws of shape inference: element counts and the overflow guard, broadcasting as
  a join, the operators that move, reduce or grow an axis, the convolution size
  rules against a count of window positions, and the reshape and KV-append checks.
\<close>

section \<open>Element counts\<close>

lemma checked_mul_Some_iff: "checked_mul a b = Some c \<longleftrightarrow> c = a * b \<and> a * b \<le> usize_max"
  by (auto simp: checked_mul_def)

lemma checked_product_Some:
  "checked_product t ds = Some n \<Longrightarrow>
   \<exists>ns. ds = map Static ns \<and> n = t * prod_list ns \<and> (ns \<noteq> [] \<longrightarrow> n \<le> usize_max)"
proof (induction t ds rule: checked_product.induct)
  case (1 t)
  then show ?case by simp
next
  case (2 t m ds)
  then obtain ns where ns: "ds = map Static ns" "n = t * m * prod_list ns"
      "ns \<noteq> [] \<longrightarrow> n \<le> usize_max" and le: "t * m \<le> usize_max"
    by (auto simp: checked_mul_Some_iff split: option.splits)
  then show ?case
    by (intro exI [of _ "m # ns"]) (cases ns; auto simp: mult.assoc)
next
  case (3 t s ds)
  then show ?case by simp
qed

lemma num_elements_Some:
  assumes "num_elements s = Some n"
  obtains ns where "dims s = map Static ns" "n = prod_list ns" "n \<le> usize_max"
proof -
  obtain ns where ns: "dims s = map Static ns" "n = prod_list ns" "ns \<noteq> [] \<longrightarrow> n \<le> usize_max"
    using checked_product_Some [of 1 "dims s" n] assms by (auto simp: num_elements_def)
  then have "n \<le> usize_max" by (cases ns) (simp_all add: usize_max_def)
  with ns that show ?thesis by blast
qed

lemma list_all_is_static: "list_all is_static ds \<longleftrightarrow> (\<exists>ns. ds = map Static ns)"
proof (induction ds)
  case (Cons d ds)
  then show ?case by (cases d) (auto simp: Cons_eq_map_conv)
qed simp

lemma shape_is_static_iff: "shape_is_static s \<longleftrightarrow> (\<exists>ns. dims s = map Static ns)"
  by (simp add: shape_is_static_def list_all_is_static)

lemma checked_product_exact:
  "t * prod_list ns \<le> usize_max \<Longrightarrow> 0 \<notin> set ns \<Longrightarrow>
   checked_product t (map Static ns) = Some (t * prod_list ns)"
proof (induction ns arbitrary: t)
  case (Cons n ns)
  have "prod_list ns \<noteq> 0" using Cons.prems(2) by (simp add: prod_list_zero_iff)
  then have "t * n \<le> t * n * prod_list ns" by simp
  moreover have le: "t * n * prod_list ns \<le> usize_max" using Cons.prems(1) by (simp add: ac_simps)
  ultimately have "t * n \<le> usize_max" by linarith
  moreover have "checked_product (t * n) (map Static ns) = Some (t * n * prod_list ns)"
    using Cons.IH [OF le] Cons.prems(2) by simp
  ultimately show ?case by (simp add: checked_mul_def ac_simps)
qed simp

text \<open>\<open>num_elements\<close> answers exactly the product of the extents, only for fully static
  shapes, and never a product past \<open>usize::MAX\<close>; a static shape without a zero
  extent is rejected only when its product does not fit.
\<close>

theorem num_elements_spec:
  "(num_elements s = Some n \<longrightarrow>
      (\<exists>ns. dims s = map Static ns \<and> n = prod_list ns \<and> n \<le> usize_max))
   \<and> (dims s = map Static ms \<and> 0 \<notin> set ms \<longrightarrow>
      num_elements s = (if prod_list ms \<le> usize_max then Some (prod_list ms) else None))"
proof (intro conjI impI)
  assume "num_elements s = Some n"
  then show "\<exists>ns. dims s = map Static ns \<and> n = prod_list ns \<and> n \<le> usize_max"
    by (elim num_elements_Some) blast
next
  assume s: "dims s = map Static ms \<and> 0 \<notin> set ms"
  show "num_elements s = (if prod_list ms \<le> usize_max then Some (prod_list ms) else None)"
  proof (cases "prod_list ms \<le> usize_max")
    case True
    then show ?thesis using s checked_product_exact [of 1 ms] by (simp add: num_elements_def)
  next
    case False
    have "num_elements s \<noteq> Some m" for m
    proof
      assume "num_elements s = Some m"
      then show False using s False by (elim num_elements_Some) (auto simp: inj_map_eq_map inj_def)
    qed
    with False show ?thesis by (cases "num_elements s") auto
  qed
qed

text \<open>The byte size is not covered by that guard: a shape whose element count fits can
  need more bytes than \<open>usize\<close> can hold, and \<open>size_bytes\<close> multiplies unchecked.
\<close>

theorem size_bytes_unguarded:
  "\<exists>s n. num_elements s = Some n \<and> n \<le> usize_max \<and>
     (case shape_size_bytes s of Some b \<Rightarrow> usize_max < b | None \<Rightarrow> False)"
proof (intro exI conjI)
  let ?s = "shape_new [2 ^ 61] F64"
  show n: "num_elements ?s = Some (2 ^ 61)"
    by (simp add: num_elements_def shape_new_def checked_mul_def usize_max_def)
  show "(2 :: nat) ^ 61 \<le> usize_max" by (simp add: usize_max_def)
  show "case shape_size_bytes ?s of Some b \<Rightarrow> usize_max < b | None \<Rightarrow> False"
    unfolding shape_size_bytes_def n by (simp add: shape_new_def usize_max_def)
qed

section \<open>Broadcasting\<close>

lemma broadcast_Ok_iff:
  "broadcast a b = Ok c \<longleftrightarrow>
     shape_dtype c = shape_dtype a \<and> rank c = max (rank a) (rank b) \<and>
     (\<forall>i < rank c. broadcast_dim (aligned_dim a (rank c) i) (aligned_dim b (rank c) i)
                     = Ok (dims c ! i))"
proof -
  have "broadcast a b = Ok c \<longleftrightarrow>
    list_all2 (\<lambda>i d. broadcast_dim (aligned_dim a (max (rank a) (rank b)) i)
        (aligned_dim b (max (rank a) (rank b)) i) = Ok d) [0..<max (rank a) (rank b)] (dims c)
    \<and> shape_dtype c = shape_dtype a"
    by (auto simp: broadcast_def Let_def outcome_simps)
  also have "\<dots> \<longleftrightarrow> shape_dtype c = shape_dtype a \<and> rank c = max (rank a) (rank b) \<and>
     (\<forall>i < rank c. broadcast_dim (aligned_dim a (rank c) i) (aligned_dim b (rank c) i)
                     = Ok (dims c ! i))"
    by (auto simp: list_all2_conv_all_nth rank_def)
  finally show ?thesis .
qed

lemma aligned_dim_self [simp]: "rank s = r \<Longrightarrow> aligned_dim s r i = dims s ! i"
  by (simp add: aligned_dim_def)

lemma broadcast_dim_static_commute:
  "is_static a \<Longrightarrow> is_static b \<Longrightarrow> broadcast_dim a b = Ok d \<longleftrightarrow> broadcast_dim b a = Ok d"
  by (cases a; cases b) (auto simp: broadcast_dim_def)

lemma broadcast_dim_static_join:
  assumes "is_static a" "is_static b" "broadcast_dim a b = Ok d"
  shows "is_static d" "broadcast_dim d a = Ok d" "broadcast_dim d b = Ok d"
  using assms by (cases a; cases b; auto simp: broadcast_dim_def split: if_splits)+

lemma aligned_dim_is_static:
  "shape_is_static s \<Longrightarrow> rank s \<le> r \<Longrightarrow> i < r \<Longrightarrow> is_static (aligned_dim s r i)"
  by (auto simp: aligned_dim_def shape_is_static_def list_all_length rank_def)

text \<open>
  On static shapes broadcasting is a join: the result does not depend on the order
  of the operands (its element type is the left one's), is static, has the larger
  rank, and both operands broadcast into it without changing it.
\<close>

theorem broadcast_static_join:
  assumes "shape_is_static a" and "shape_is_static b" and "broadcast a b = Ok c"
  shows "shape_is_static c \<and> rank c = max (rank a) (rank b)
         \<and> broadcast b a = Ok (with_dtype c (shape_dtype b))
         \<and> broadcast c a = Ok c \<and> broadcast c b = Ok c"
proof -
  have c: "shape_dtype c = shape_dtype a" "rank c = max (rank a) (rank b)"
    and d: "\<And>i. i < rank c \<Longrightarrow> broadcast_dim (aligned_dim a (rank c) i) (aligned_dim b (rank c) i)
                     = Ok (dims c ! i)"
    using assms(3) by (auto simp: broadcast_Ok_iff)
  have st: "is_static (aligned_dim a (rank c) i)" "is_static (aligned_dim b (rank c) i)"
    if "i < rank c" for i
    using that assms c(2) by (auto intro: aligned_dim_is_static)
  note j = broadcast_dim_static_join [OF st d]
  have "shape_is_static c"
    using j(1) by (auto simp: shape_is_static_def list_all_length rank_def)
  moreover have "broadcast b a = Ok (with_dtype c (shape_dtype b))"
    using c d st broadcast_dim_static_commute
    by (auto simp: broadcast_Ok_iff with_dtype_def rank_def max.commute)
  moreover have "broadcast c a = Ok c" "broadcast c b = Ok c"
    using c j by (auto simp: broadcast_Ok_iff)
  ultimately show ?thesis using c by simp
qed

theorem broadcast_static_join_witness:
  "broadcast (shape_new [5, 1] F32) (shape_new [3] F32) = Ok (shape_new [5, 3] F32)
   \<and> broadcast (shape_new [3] F32) (shape_new [5, 1] F32) = Ok (shape_new [5, 3] F32)"
proof -
  have h: "broadcast (shape_new [5, 1] F32) (shape_new [3] F32) = Ok (shape_new [5, 3] F32)"
    by code_simp
  have s: "shape_is_static (shape_new [5, 1] F32)" "shape_is_static (shape_new [3] F32)"
    by (simp_all add: shape_is_static_def shape_new_def)
  show ?thesis using broadcast_static_join [OF s h] h
    by (simp add: with_dtype_def shape_new_def)
qed

text \<open>With a dynamic dimension the operands are not interchangeable: against a static
  extent other than 1 the left operand's dimension is kept whichever it is.
\<close>

theorem broadcast_dim_keeps_left:
  "n \<noteq> 1 \<Longrightarrow> broadcast_dim (Static n) (Dynamic s) = Ok (Static n)
          \<and> broadcast_dim (Dynamic s) (Static n) = Ok (Dynamic s)"
  by (simp add: broadcast_dim_def)

theorem broadcast_dim_keeps_left_witness:
  "broadcast_dim (Static 5) (Dynamic 0) = Ok (Static 5)
   \<and> broadcast_dim (Dynamic 0) (Static 5) = Ok (Dynamic 0)"
  using broadcast_dim_keeps_left [of 5 0] by simp

section \<open>Reshape and transpose\<close>

text \<open>
  A reshape of a static shape keeps the number of elements, the element type and
  the requested rank. The element count must be below \<open>usize::MAX\<close>, the value the code
  substitutes for a product that overflows.
\<close>

theorem reshape_preserves_count:
  assumes "reshape_shape input new_shape = Ok out" and "shape_is_static input"
    and "num_elements input = Some n" and "n < usize_max"
  shows "num_elements out = Some n \<and> shape_dtype out = shape_dtype input
         \<and> rank out = length new_shape \<and> wildcard_count new_shape \<le> 1"
  using assms
  by (auto simp: reshape_shape_def reshape_static_def Let_def outcome_simps num_elements_def
      rank_def list_all2_lengthD split: if_splits option.splits)

theorem reshape_preserves_count_witness:
  "reshape_shape (shape_new [4, 6] F32) [- 1, 8] = Ok (shape_new [3, 8] F32)
   \<and> num_elements (shape_new [3, 8] F32) = Some 24"
proof -
  have h: "reshape_shape (shape_new [4, 6] F32) [- 1, 8] = Ok (shape_new [3, 8] F32)"
    by (simp add: shape_new_def reshape_shape_def reshape_static_def reshape_dim_static_def
        wildcard_count_def shape_is_static_def num_elements_def checked_mul_def usize_max_def
        as_i64_def as_usize_def trunc_div_def)
  have n: "num_elements (shape_new [4, 6] F32) = Some 24"
    by (simp add: num_elements_def shape_new_def checked_mul_def usize_max_def)
  have s: "shape_is_static (shape_new [4, 6] F32)"
    by (simp add: shape_is_static_def shape_new_def)
  show ?thesis using reshape_preserves_count [OF h s n] h by (simp add: usize_max_def)
qed

lemma transpose_Ok_iff:
  "transpose_shape s perm = Ok out \<longleftrightarrow>
     length perm = rank s \<and> (\<forall>p \<in> set perm. p < rank s) \<and>
     dims out = map (\<lambda>p. dims s ! p) perm \<and> shape_dtype out = shape_dtype s"
proof -
  have "list_all2 (\<lambda>p d. dim_at s p = (Ok d :: dim res)) perm ds \<longleftrightarrow>
      (\<forall>p \<in> set perm. p < rank s) \<and> ds = map (\<lambda>p. dims s ! p) perm" for ds
    by (auto simp: list_all2_conv_all_nth dim_at_def outcome_simps rank_def in_set_conv_nth
        intro!: nth_equalityI dest: nth_mem)
  then show ?thesis by (auto simp: transpose_shape_def outcome_simps)
qed

lemma mset_perm_upt:
  assumes "distinct perm" "length perm = n" "\<forall>p \<in> set perm. p < n"
  shows "mset perm = mset [0..<n]"
proof -
  have "set perm \<subseteq> {0..<n}" using assms(3) by auto
  moreover have "card (set perm) = n" using assms(1,2) by (simp add: distinct_card)
  ultimately have "set perm = {0..<n}" by (simp add: card_subset_eq)
  then show ?thesis using assms(1) by (metis mset_set_set mset_upt)
qed

text \<open>
  Transposing by a permutation keeps the number of elements, and a permutation list
  that is not a permutation of the axes is only rejected by its length or by a panic
  on an axis out of range: the result always has the rank of the input.
\<close>

theorem transpose_preserves_count:
  assumes "transpose_shape s perm = Ok out" and "distinct perm"
    and "num_elements s = Some n" and "num_elements out = Some m"
  shows "m = n \<and> rank out = rank s \<and> mset (dims out) = mset (dims s)"
proof -
  from assms(1) have p: "length perm = rank s" "\<forall>p \<in> set perm. p < rank s"
    "dims out = map (\<lambda>p. dims s ! p) perm" by (auto simp: transpose_Ok_iff)
  have "mset (dims out) = image_mset (\<lambda>p. dims s ! p) (mset [0..<rank s])"
    using p mset_perm_upt [OF assms(2) p(1,2)] by simp
  also have "\<dots> = mset (map (\<lambda>p. dims s ! p) [0..<rank s])" by simp
  also have "\<dots> = mset (dims s)" by (simp add: rank_def map_nth)
  finally have ms: "mset (dims out) = mset (dims s)" .
  from assms(3) obtain ns where ns: "dims s = map Static ns" "n = prod_list ns"
    by (elim num_elements_Some)
  from assms(4) obtain os where os: "dims out = map Static os" "m = prod_list os"
    by (elim num_elements_Some)
  define ext where "ext = (\<lambda>d. case d of Static n \<Rightarrow> n | Dynamic s \<Rightarrow> (0 :: nat))"
  have "image_mset ext (mset (dims out)) = image_mset ext (mset (dims s))" using ms by simp
  then have "mset os = mset ns" using ns os
    by (simp add: ext_def comp_def flip: mset_map)
  then have "prod_list os = prod_list ns" by (metis prod_mset_prod_list)
  then have "m = n" using ns(2) os(2) by simp
  moreover have "rank out = rank s" using mset_eq_length [OF ms] by (simp add: rank_def)
  ultimately show ?thesis using ms by blast
qed

theorem transpose_preserves_count_witness:
  "transpose_shape (shape_new [2, 3, 4] F32) [0, 2, 1] = Ok (shape_new [2, 4, 3] F32)
   \<and> num_elements (shape_new [2, 4, 3] F32) = Some 24"
proof -
  have h: "transpose_shape (shape_new [2, 3, 4] F32) [0, 2, 1] = Ok (shape_new [2, 4, 3] F32)"
    by code_simp
  have n: "num_elements (shape_new [2, 3, 4] F32) = Some 24"
    "num_elements (shape_new [2, 4, 3] F32) = Some 24"
    by (simp_all add: num_elements_def shape_new_def checked_mul_def usize_max_def)
  show ?thesis using transpose_preserves_count [OF h _ n] h n by simp
qed

lemma dim_at_Ok [outcome_simps]: "dim_at s i = Ok d \<longleftrightarrow> i < rank s \<and> dims s ! i = d"
  by (simp add: dim_at_def rank_def outcome_simps)

lemma statics_Ok [outcome_simps]: "statics d = Ok n \<longleftrightarrow> d = Static n"
  by (cases d) auto

section \<open>Reductions\<close>

lemma reduce_keep_dims:
  "reduce_shape input axes True = Ok r \<Longrightarrow>
   rank r = rank input \<and> shape_dtype r = shape_dtype input \<and>
   (\<forall>i < rank input. dims r ! i = (if i \<in> set axes then Static 1 else dims input ! i))"
proof -
  have c: "concat (map (\<lambda>i. [g i]) xs) = map g xs" for g :: "nat \<Rightarrow> dim" and xs
    by (induction xs) auto
  assume "reduce_shape input axes True = Ok r"
  then have "dims r = concat (map (\<lambda>i. [if i \<in> set axes then Static 1 else dims input ! i])
      [0..<rank input])" "shape_dtype r = shape_dtype input"
    by (auto simp: reduce_shape_def if_distrib [of "\<lambda>x. [x]"])
  then show ?thesis by (simp add: c rank_def)
qed

text \<open>
  Reducing with \<open>keep_dim\<close> gives a shape that broadcasts back to the input, whatever
  the axes and whether dimensions are static or dynamic.
\<close>

theorem reduce_keep_dim_broadcasts_back:
  "reduce_shape input axes True = Ok r \<Longrightarrow> broadcast input r = Ok input"
  using reduce_keep_dims [of input axes r]
  by (auto simp: broadcast_Ok_iff broadcast_dim_def split: dim.splits)

theorem reduce_keep_dim_broadcasts_back_witness:
  "broadcast (shape_new [4, 6] F32) (shape_new [4, 1] F32) = Ok (shape_new [4, 6] F32)"
proof -
  have h: "reduce_shape (shape_new [4, 6] F32) [1] True = Ok (shape_new [4, 1] F32)" by code_simp
  show ?thesis by (rule reduce_keep_dim_broadcasts_back [OF h])
qed

section \<open>Concatenation\<close>

lemma find_None_upt: "find P [0..<n] = None \<longleftrightarrow> (\<forall>i < n. \<not> P i)"
  by (auto simp: find_None_iff)

definition axis_extent :: "shape \<Rightarrow> nat \<Rightarrow> nat" where
  "axis_extent s ax = (case dims s ! ax of Static n \<Rightarrow> n | Dynamic y \<Rightarrow> 0)"

lemma concat_step_static:
  assumes "concat_step base axis st s = Ok st'" and "shape_is_static s" and "shape_is_static base"
    and "axis < rank base"
  shows "st' = (fst st + axis_extent s axis, snd st)" "rank s = rank base"
    "d < rank base \<Longrightarrow> d \<noteq> axis \<Longrightarrow> dims s ! d = dims base ! d"
proof -
  have r: "rank s = rank base" using assms(1) by (simp add: concat_step_def split: if_splits)
  have ax: "min axis (rank base - Suc 0) = axis" using assms(4) by simp
  have m: "concat_mismatch base s axis = None"
    using assms(1) by (simp add: concat_step_def r ax Let_def split: if_splits option.splits)
  obtain ss bs where ss: "dims s = map Static ss" "dims base = map Static bs"
    using assms(2,3) by (auto simp: shape_is_static_iff)
  have len: "length ss = rank base" "length bs = rank base"
    using ss r by (auto simp: rank_def)
  show "rank s = rank base" by (fact r)
  show "st' = (fst st + axis_extent s axis, snd st)"
    using assms(1,4) m ss len
    by (simp add: concat_step_def r ax Let_def axis_extent_def split: if_splits)
  show "d < rank base \<Longrightarrow> d \<noteq> axis \<Longrightarrow> dims s ! d = dims base ! d"
    using m r ss len by (auto simp: concat_mismatch_def find_None_upt)
qed

lemma concat_loop_static:
  assumes "for_each (concat_step base axis) st ss = Ok st'" and "\<forall>s \<in> set ss. shape_is_static s"
    and "shape_is_static base" and "axis < rank base"
  shows "st' = (fst st + sum_list (map (\<lambda>s. axis_extent s axis) ss), snd st) \<and>
    (\<forall>s \<in> set ss. rank s = rank base \<and>
       (\<forall>d < rank base. d \<noteq> axis \<longrightarrow> dims s ! d = dims base ! d))"
  using assms(1,2)
proof (induction ss arbitrary: st)
  case (Cons s ss)
  from Cons.prems(1) obtain st1 where
    1: "concat_step base axis st s = Ok st1" and 2: "for_each (concat_step base axis) st1 ss = Ok st'"
    by (auto simp: outcome_simps)
  have "shape_is_static s" using Cons.prems(2) by simp
  note step = concat_step_static [OF 1 this assms(3,4)]
  show ?case using Cons.IH [OF 2] Cons.prems(2) step by auto
qed simp

text \<open>
  Concatenating static shapes on a valid axis sums that axis, and succeeds only if
  all operands have one rank and agree on every other axis.
\<close>

theorem concat_static_spec:
  assumes "concat_shape (base # ss) axis = Ok out" and "\<forall>s \<in> set (base # ss). shape_is_static s"
    and "axis < rank base"
  shows "dims out = (dims base)[axis := Static (\<Sum>s\<leftarrow>base # ss. axis_extent s axis)]
    \<and> shape_dtype out = shape_dtype base
    \<and> (\<forall>s \<in> set ss. rank s = rank base \<and>
         (\<forall>d < rank base. d \<noteq> axis \<longrightarrow> dims s ! d = dims base ! d))"
proof -
  have "\<exists>st. for_each (concat_step base axis) (0, None) (base # ss) = Ok st \<and>
      with_dim base (min axis (rank base - 1))
        (case snd st of None \<Rightarrow> Static (fst st) | Some y \<Rightarrow> Dynamic y) = Ok out"
    using assms(1)
    by (simp add: concat_shape_def Let_def case_prod_unfold outcome_simps del: for_each.simps)
  then obtain st where loop: "for_each (concat_step base axis) (0, None) (base # ss) = Ok st"
    and out: "with_dim base (min axis (rank base - 1))
      (case snd st of None \<Rightarrow> Static (fst st) | Some y \<Rightarrow> Dynamic y) = Ok out"
    by blast
  have b: "shape_is_static base" using assms(2) by simp
  note l = concat_loop_static [OF loop assms(2) b assms(3)]
  have "min axis (rank base - 1) = axis" using assms(3) by simp
  moreover have "snd st = None" "fst st = (\<Sum>s\<leftarrow>base # ss. axis_extent s axis)" using l by auto
  ultimately have "out = base\<lparr>dims := (dims base)[axis := Static (\<Sum>s\<leftarrow>base # ss. axis_extent s axis)]\<rparr>"
    using out assms(3) by (simp add: with_dim_def)
  then have "dims out = (dims base)[axis := Static (\<Sum>s\<leftarrow>base # ss. axis_extent s axis)]"
    "shape_dtype out = shape_dtype base" by simp_all
  with conjunct2 [OF l] show ?thesis by simp
qed

theorem concat_static_spec_witness:
  "concat_shape [shape_new [2, 3] F32, shape_new [2, 5] F32] 1 = Ok (shape_new [2, 8] F32)
   \<and> dims (shape_new [2, 8] F32) = (dims (shape_new [2, 3] F32))[1 := Static 8]"
proof -
  have h: "concat_shape [shape_new [2, 3] F32, shape_new [2, 5] F32] 1 = Ok (shape_new [2, 8] F32)"
    by code_simp
  have s: "\<forall>s \<in> set [shape_new [2, 3] F32, shape_new [2, 5] F32]. shape_is_static s"
    "1 < rank (shape_new [2, 3] F32)"
    by (simp_all add: shape_is_static_def shape_new_def rank_def)
  show ?thesis using concat_static_spec [OF h s] h by (simp add: axis_extent_def shape_new_def)
qed

section \<open>Convolution sizes\<close>

lemma card_multiples_le: "0 < s \<Longrightarrow> card {i :: nat. i * s \<le> n} = n div s + 1"
proof -
  assume "0 < s"
  then have "{i. i * s \<le> n} = {..n div s}"
    by (auto simp: less_eq_div_iff_mult_less_eq)
  then show ?thesis by simp
qed

text \<open>
  Where the dilated kernel fits in the padded input, the spatial size is the number
  of positions at which the window fits.
\<close>

theorem conv2d_spatial_counts_windows:
  assumes "0 < stride" and "dilation * (kern - 1) < in_size + 2 * padding"
    and "in_size + 2 * padding \<le> usize_max"
  shows "conv2d_spatial_output in_size kern stride padding dilation =
    Ok (card {i. i * stride + dilation * (kern - 1) < in_size + 2 * padding})"
proof -
  let ?k = "dilation * (kern - 1)"
  have "saturating_mul dilation (kern - 1) = ?k"
    using assms by (intro saturating_mul_exact) linarith
  moreover have "{i. i * stride + ?k < in_size + 2 * padding} =
      {i. i * stride \<le> in_size + 2 * padding - ?k - 1}"
    using assms(2) by auto
  ultimately show ?thesis using assms(1)
    by (simp add: conv2d_spatial_output_def card_multiples_le)
qed

theorem conv2d_spatial_counts_windows_witness:
  "conv2d_spatial_output 32 3 2 1 1 = Ok (card {i. i * 2 + 1 * (3 - 1) < 32 + 2 * (1 :: nat)})"
  by (rule conv2d_spatial_counts_windows) (simp_all add: usize_max_def)

text \<open>Where the window does not fit there is no position, yet the size rule still
  answers 1; so the \<open>leaves no output\<close> check of \<open>pool2d_output_shape\<close> never fires.
\<close>

theorem pool2d_no_output_unreachable:
  "pool2d_output_shape input kernel_size stride padding \<noteq> Err NoOutput
   \<and> (0 < s \<and> in_size + 2 * p \<le> saturating_mul d (k - 1) \<longrightarrow>
        conv2d_spatial_output in_size k s p d = Ok 1)"
proof
  have pos: "conv2d_spatial_output i k s p d = Ok (n :: nat) \<Longrightarrow> n \<noteq> 0" for i k s p d n
    by (auto simp: conv2d_spatial_output_def Let_def split: if_splits)
  show "pool2d_output_shape input kernel_size stride padding \<noteq> Err NoOutput"
    by (auto simp: pool2d_output_shape_def outcome_simps static_at_def dim_at_def
        index_or_panic_def conv2d_spatial_output_def Let_def split: if_splits dest: pos
        elim!: unwrap_static.elims)
  show "0 < s \<and> in_size + 2 * p \<le> saturating_mul d (k - 1) \<longrightarrow>
        conv2d_spatial_output in_size k s p d = Ok 1"
    by (simp add: conv2d_spatial_output_def)
qed

text \<open>
  The transposed convolution inverts the convolution on sizes: running the forward
  rule on the transposed rule's answer gives back the original extent, as long as
  the output padding is smaller than the stride.
\<close>

theorem conv_transpose_roundtrip:
  assumes "conv_transpose2d_spatial_output n k s p d op = Ok m" and "op < s"
  shows "conv2d_spatial_output m k s p d = Ok n"
proof -
  let ?k = "saturating_mul d (k - 1)"
  have n: "n \<noteq> 0" and le: "2 * p \<le> (n - 1) * s + op + ?k"
    and m: "m = (n - 1) * s + op + ?k - 2 * p + 1"
    using assms(1) by (auto simp: conv_transpose2d_spatial_output_def Let_def split: if_splits)
  have "m + 2 * p - ?k - 1 = (n - 1) * s + op" using le m by simp
  moreover have "((n - 1) * s + op) div s = n - 1" using assms(2) by simp
  ultimately show ?thesis using n assms(2) by (simp add: conv2d_spatial_output_def)
qed

theorem conv_transpose_roundtrip_witness:
  "conv_transpose2d_spatial_output 16 3 2 1 1 1 = Ok 32 \<and> conv2d_spatial_output 32 3 2 1 1 = Ok 16"
proof -
  have h: "conv_transpose2d_spatial_output 16 3 2 1 1 1 = Ok 32"
    by (simp add: conv_transpose2d_spatial_output_def saturating_mul_def usize_max_def)
  show ?thesis using conv_transpose_roundtrip [OF h] h by simp
qed

section \<open>In-place updates and grouped products\<close>

text \<open>
  An accepted KV append stays inside the cache: the written position is below a
  static capacity, the result covers exactly the rows up to it, no other axis
  changes, and a static row is one step that matches the cache on every other axis.
\<close>

theorem kv_append_within_capacity:
  assumes "kv_append_shape cache row axis pos = Ok out"
  shows "axis < rank cache \<and> rank row = rank cache \<and> shape_dtype row = shape_dtype cache
    \<and> dims out = (dims cache)[axis := Static (pos + 1)]
    \<and> (\<forall>cap. dims cache ! axis = Static cap \<longrightarrow> pos < cap)
    \<and> (\<forall>n. dims row ! axis = Static n \<longrightarrow> n = 1)
    \<and> (\<forall>i < rank cache. \<forall>c r. i \<noteq> axis \<and> dims cache ! i = Static c \<and> dims row ! i = Static r \<longrightarrow> c = r)"
proof -
  have "find (\<lambda>i. i \<noteq> axis \<and> (case (dims cache ! i, dims row ! i) of
                            (Static c, Static r) \<Rightarrow> c \<noteq> r | _ \<Rightarrow> False)) [0..<rank cache] = None"
    using assms by (auto simp: kv_append_shape_def split: if_splits option.splits)
  then have "i < rank cache \<Longrightarrow> i \<noteq> axis \<Longrightarrow> dims cache ! i = Static c \<Longrightarrow>
      dims row ! i = Static r \<Longrightarrow> c = r" for i c r
    by (auto simp: find_None_upt)
  moreover have "axis < rank cache" "rank row = rank cache" "shape_dtype row = shape_dtype cache"
    "dims out = (dims cache)[axis := Static (pos + 1)]"
    "dims cache ! axis = Static cap \<Longrightarrow> pos < cap" "dims row ! axis = Static n \<Longrightarrow> n = 1" for cap n
    using assms by (auto simp: kv_append_shape_def with_dim_def split: if_splits option.splits)
  ultimately show ?thesis by blast
qed

theorem kv_append_within_capacity_witness:
  "kv_append_shape (shape_new [1, 8, 4] F32) (shape_new [1, 1, 4] F32) 1 7
     = Ok (shape_new [1, 8, 4] F32) \<and> (7 :: nat) < 8"
proof -
  have h: "kv_append_shape (shape_new [1, 8, 4] F32) (shape_new [1, 1, 4] F32) 1 7
     = Ok (shape_new [1, 8, 4] F32)" by code_simp
  have "dims (shape_new [1, 8, 4] F32) ! 1 = Static 8" by (simp add: shape_new_def)
  then show ?thesis using kv_append_within_capacity [OF h] h by blast
qed

text \<open>
  Grouped matrix products reject the transposed expert bank: success means the bank's
  second axis is the input's last extent, and a declared output holds exactly
  \<open>m * n\<close> elements with last extent \<open>n\<close>.
\<close>

theorem grouped_matmul_checked:
  assumes "grouped_matmul_dims input weight (Some o_s) = Ok d" and "0 < gm_m d * gm_n d"
  shows "dims input ! (rank input - 1) = Static (gm_k d)
    \<and> dims weight = [Static (gm_experts d), Static (gm_k d), Static (gm_n d)]
    \<and> num_elements o_s = Some (gm_m d * gm_n d)
    \<and> last (dims o_s) = Static (gm_n d)"
proof -
  have w: "rank weight = 3" "dims weight ! 0 = Static (gm_experts d)"
      "dims weight ! 1 = Static (gm_k d)" "dims weight ! 2 = Static (gm_n d)"
    and i: "dims input ! (rank input - 1) = Static (gm_k d)"
    and o1: "rank o_s - 1 < rank o_s" "dims o_s ! (rank o_s - 1) = Static (gm_n d)"
    and o2: "num_elements o_s = Some (gm_m d * gm_n d)"
    using assms by (auto simp: grouped_matmul_dims_def outcome_simps Let_def
        split: if_splits option.splits)
  have "dims weight = [Static (gm_experts d), Static (gm_k d), Static (gm_n d)]"
    using w by (auto simp: rank_def numeral_3_eq_3 numeral_2_eq_2 length_Suc_conv)
  moreover have "last (dims o_s) = Static (gm_n d)"
    using o1 by (subst last_conv_nth) (auto simp: rank_def)
  ultimately show ?thesis using i o2 by blast
qed

theorem grouped_matmul_checked_witness:
  "grouped_matmul_dims (shape_new [5, 6] F32) (shape_new [8, 6, 12] F32)
     (Some (shape_new [5, 12] F32)) = Ok \<lparr>gm_m = 5, gm_k = 6, gm_n = 12, gm_experts = 8\<rparr>
   \<and> num_elements (shape_new [5, 12] F32) = Some 60"
proof -
  have h: "grouped_matmul_dims (shape_new [5, 6] F32) (shape_new [8, 6, 12] F32)
     (Some (shape_new [5, 12] F32)) = Ok \<lparr>gm_m = 5, gm_k = 6, gm_n = 12, gm_experts = 8\<rparr>"
    by (simp add: grouped_matmul_dims_def shape_new_def rank_def dim_at_def index_or_panic_def
        num_elements_def checked_mul_def usize_max_def)
  show ?thesis using grouped_matmul_checked [OF h] h by simp
qed

end
