(* ===== verification/IR.thy ===== *)
theory IR
  imports ShapeLaws
begin

text \<open>
  The computation graph (\<open>crates/core/rlx-ir/src/graph.rs\<close>, the operators of
  \<open>op.rs\<close>): operators, nodes and graphs, the construction and query operations, the
  well-formedness every graph built by appending has, and the value of a graph
  under given kernels, against which the compile passes are proved.

  Of the roughly 190 variants of \<open>Op\<close> the theory names those that some modelled pass
  inspects; \<open>OtherOp\<close> carries the variant name and the rendered attributes of the
  rest, which the passes copy and compare but never look into. An \<open>f32\<close> attribute is
  its bit pattern. A node id is a \<open>nat\<close>: graphs have fewer than \<open>2 ^ 32\<close> nodes.
\<close>

section \<open>Operators\<close>

type_synonym f32 = "32 word"
type_synonym node_id = nat

datatype activation =
    Gelu | GeluApprox | Silu | Relu | Sigmoid | Tanh | Exp | Log | Sqrt | Rsqrt | Neg | Abs
  | Sin | Cos | Tan | Atan | Recip | Round | Floor | Ceil | Sign | Softplus | Elu | Erf
  | HardSwish | HardSigmoid | Mish | Softsign | LogSigmoid

definition activation_region_fusable :: "activation \<Rightarrow> bool" where
  "activation_region_fusable a =
     (a \<notin> {Floor, Ceil, Sign, Softplus, Elu, Erf, HardSwish, HardSigmoid, Mish, Softsign,
           LogSigmoid})"

datatype binary_op =
    Add | Sub | Mul | Div | Max | Min | Pow | Mod | BitAnd | BitOr | BitXor | Shl | Shr | Atan2

definition binary_region_fusable :: "binary_op \<Rightarrow> bool" where
  "binary_region_fusable b = (b \<in> {Add, Sub, Mul, Div, Max, Min, Pow})"

datatype cmp_op = Eq | Ne | Lt | Le | Gt | Ge

datatype scatter_nd_reduction = ScatterReplace | ScatterAddTo | ScatterMul | ScatterMax | ScatterMin

datatype mask_kind = MaskNone | MaskCausal | MaskSlidingWindow nat | MaskCustom | MaskBias

datatype op =
    Input string
  | Param string
  | Constant bytes
  | Activation activation
  | Cast dtype
  | Binary binary_op
  | Compare cmp_op
  | Where
  | Fma
  | MatMul
  | LayerNorm int f32
  | LayerNorm2d f32
  | Attention nat nat "nat option" mask_kind "f32 option" "f32 option"
  | Reshape "int list"
  | Transpose "nat list"
  | Narrow nat nat nat
  | Concat nat
  | KvAppend nat nat
  | Expand "int list"
  | Gather nat
  | ScatterNd scatter_nd_reduction
  | ScatterElements int scatter_nd_reduction
  | GatherNd int
  | GatherElements int
  | DequantMatMul string
  | GroupedMatMul
  | DequantGroupedMatMul string
  | Conv3d triple triple triple nat
  | FusedConvBiasAct "nat list" "nat list" "nat list" "nat list" nat "activation option" bool
  | LayerNormBackwardGamma int f32
  | Custom string nat bytes
  | DynamicUpdateSlice nat
  | OtherOp string string

section \<open>Nodes and graphs\<close>

record node =
  n_id :: node_id
  n_op :: op
  n_inputs :: "node_id list"
  n_shape :: shape
  n_name :: "string option"
  n_origin :: "string option"

record sym_attr =
  sa_node :: node_id
  sa_path :: "string list"
  sa_sym :: nat
  sa_scale :: int
  sa_offset :: int

record sym_def =
  sd_sym :: nat
  sd_of :: nat
  sd_times :: "nat option"
  sd_scale :: int
  sd_linear :: int
  sd_inner :: int
  sd_div :: int
  sd_plus :: "nat option"
  sd_plus_scale :: int
  sd_offset :: int

record graph =
  g_name :: string
  g_nodes :: "node list"
  g_outputs :: "node_id list"
  g_sym_attrs :: "sym_attr list"
  g_vars :: "(node_id \<times> nat) list"
  g_sym_defs :: "sym_def list"
  g_output_names :: "(nat \<times> string) list"

definition graph_new :: "string \<Rightarrow> graph" where
  "graph_new nm = \<lparr>g_name = nm, g_nodes = [], g_outputs = [], g_sym_attrs = [], g_vars = [],
     g_sym_defs = [], g_output_names = []\<rparr>"

text \<open>The derived-from-nothing \<open>PartialEq\<close>: name, node count and outputs only.\<close>

definition graph_shallow_eq :: "graph \<Rightarrow> graph \<Rightarrow> bool" where
  "graph_shallow_eq a b \<longleftrightarrow>
     g_name a = g_name b \<and> length (g_nodes a) = length (g_nodes b) \<and> g_outputs a = g_outputs b"

definition graph_len :: "graph \<Rightarrow> nat" where
  "graph_len g = length (g_nodes g)"

definition graph_is_empty :: "graph \<Rightarrow> bool" where
  "graph_is_empty g = (g_nodes g = [])"

definition node_at :: "graph \<Rightarrow> node_id \<Rightarrow> node res" where
  "node_at g i = index_or_panic (g_nodes g) i"

definition push_ext ::
  "graph \<Rightarrow> op \<Rightarrow> node_id list \<Rightarrow> shape \<Rightarrow> string option \<Rightarrow> string option \<Rightarrow> graph \<times> node_id" where
  "push_ext g opr inputs s nm orig =
     (let i = length (g_nodes g) in
      (g\<lparr>g_nodes := g_nodes g @ [\<lparr>n_id = i, n_op = opr, n_inputs = inputs, n_shape = s,
          n_name = nm, n_origin = orig\<rparr>]\<rparr>, i))"

definition push :: "graph \<Rightarrow> op \<Rightarrow> node_id list \<Rightarrow> shape \<Rightarrow> string option \<Rightarrow> graph \<times> node_id" where
  "push g opr inputs s nm = push_ext g opr inputs s nm None"

definition append_node ::
  "graph \<Rightarrow> op \<Rightarrow> node_id list \<Rightarrow> shape \<Rightarrow> string option \<Rightarrow> graph \<times> node_id" where
  "append_node g opr inputs s nm = push g opr inputs s nm"

definition add_node :: "graph \<Rightarrow> op \<Rightarrow> node_id list \<Rightarrow> shape \<Rightarrow> graph \<times> node_id" where
  "add_node g opr inputs s = push g opr inputs s None"

definition set_inputs :: "graph \<Rightarrow> node_id \<Rightarrow> node_id list \<Rightarrow> graph res" where
  "set_inputs g i inputs =
     (if i < graph_len g
      then Ok (g\<lparr>g_nodes := (g_nodes g)[i := (g_nodes g ! i)\<lparr>n_inputs := inputs\<rparr>]\<rparr>)
      else Panic)"

definition set_outputs :: "graph \<Rightarrow> node_id list \<Rightarrow> graph" where
  "set_outputs g outs =
     g\<lparr>g_output_names := filter (\<lambda>p. fst p < length outs) (g_output_names g), g_outputs := outs\<rparr>"

definition set_sym_attrs :: "graph \<Rightarrow> sym_attr list \<Rightarrow> graph" where
  "set_sym_attrs g attrs = g\<lparr>g_sym_attrs := attrs\<rparr>"

definition set_sym_defs :: "graph \<Rightarrow> sym_def list \<Rightarrow> graph" where
  "set_sym_defs g ds = g\<lparr>g_sym_defs := ds\<rparr>"

definition set_vars :: "graph \<Rightarrow> (node_id \<times> nat) list \<Rightarrow> graph" where
  "set_vars g vs = g\<lparr>g_vars := sort_key snd vs\<rparr>"

definition var_output :: "graph \<Rightarrow> node_id \<Rightarrow> nat option" where
  "var_output g input = map_option snd (find (\<lambda>p. fst p = input) (g_vars g))"

definition graph_shape :: "graph \<Rightarrow> node_id \<Rightarrow> shape res" where
  "graph_shape g i = bind_outcome (node_at g i) (\<lambda>n. Ok (n_shape n))"

section \<open>Output names\<close>

text \<open>
  \<open>output_names\<close> is kept sorted by output index without repetition; \<open>binary_search_by_key\<close>
  then returns the position of the key or the position to insert it at, which is the
  number of entries with a smaller key.
\<close>

definition name_position :: "(nat \<times> string) list \<Rightarrow> nat \<Rightarrow> nat" where
  "name_position xs k = length (takeWhile (\<lambda>p. fst p < k) xs)"

definition name_found :: "(nat \<times> string) list \<Rightarrow> nat \<Rightarrow> bool" where
  "name_found xs k \<longleftrightarrow>
     (let at = name_position xs k in at < length xs \<and> fst (xs ! at) = k)"

definition name_output :: "graph \<Rightarrow> nat \<Rightarrow> string \<Rightarrow> graph" where
  "name_output g k nm =
     (let xs = g_output_names g; at = name_position xs k in
      if name_found xs k then g\<lparr>g_output_names := xs[at := (fst (xs ! at), nm)]\<rparr>
      else g\<lparr>g_output_names := take at xs @ (k, nm) # drop at xs\<rparr>)"

definition output_name :: "graph \<Rightarrow> nat \<Rightarrow> string option" where
  "output_name g k =
     (let xs = g_output_names g in
      if name_found xs k then Some (snd (xs ! name_position xs k)) else None)"

definition output_index :: "graph \<Rightarrow> string \<Rightarrow> nat option" where
  "output_index g nm = map_option fst (find (\<lambda>p. snd p = nm) (g_output_names g))"

definition set_named_outputs :: "graph \<Rightarrow> (string \<times> node_id) list \<Rightarrow> graph" where
  "set_named_outputs g outs =
     g\<lparr>g_outputs := map snd outs,
       g_output_names := zip [0..<length outs] (map fst outs)\<rparr>"

text \<open>\<open>dedup_by_key\<close> keeps the first of each run of equal keys.\<close>

fun dedup_by_fst :: "(nat \<times> 'b) list \<Rightarrow> (nat \<times> 'b) list" where
  "dedup_by_fst (p # q # xs) =
     (if fst p = fst q then dedup_by_fst (p # xs) else p # dedup_by_fst (q # xs))"
| "dedup_by_fst xs = xs"

definition set_output_names :: "graph \<Rightarrow> (nat \<times> string) list \<Rightarrow> graph" where
  "set_output_names g names = g\<lparr>g_output_names := dedup_by_fst (sort_key fst names)\<rparr>"

definition names_sorted :: "graph \<Rightarrow> bool" where
  "names_sorted g = sorted_wrt (\<lambda>p q. fst p < fst q) (g_output_names g)"

section \<open>Queries\<close>

definition users :: "graph \<Rightarrow> node_id \<Rightarrow> node_id list" where
  "users g i = map n_id (filter (\<lambda>n. i \<in> set (n_inputs n)) (g_nodes g))"

definition use_count :: "graph \<Rightarrow> node_id \<Rightarrow> nat" where
  "use_count g i = length (filter (\<lambda>n. i \<in> set (n_inputs n)) (g_nodes g))"

definition node_id_by_name :: "graph \<Rightarrow> string \<Rightarrow> node_id option" where
  "node_id_by_name g nm =
     map_option n_id (find (\<lambda>n. n_op n = Input nm \<or> n_op n = Param nm) (g_nodes g))"

definition input_id :: "graph \<Rightarrow> string \<Rightarrow> node_id option" where
  "input_id g nm = map_option n_id (find (\<lambda>n. n_op n = Input nm) (g_nodes g))"

definition param_id :: "graph \<Rightarrow> string \<Rightarrow> node_id option" where
  "param_id g nm = map_option n_id (find (\<lambda>n. n_op n = Param nm) (g_nodes g))"

definition topo_order :: "graph \<Rightarrow> node_id list" where
  "topo_order g = [0..<length (g_nodes g)]"

definition reverse_topo :: "graph \<Rightarrow> node_id list" where
  "reverse_topo g = rev [0..<length (g_nodes g)]"

definition has_dynamic_dims :: "graph \<Rightarrow> bool" where
  "has_dynamic_dims g = list_ex (\<lambda>n. list_ex (\<lambda>d. \<not> is_static d) (dims (n_shape n))) (g_nodes g)"

definition collect_dynamic_symbols :: "graph \<Rightarrow> nat list" where
  "collect_dynamic_symbols g =
     sorted_list_of_set (set (concat (map (\<lambda>n. dynamic_symbols (n_shape n)) (g_nodes g))))"

definition is_symbolic :: "graph \<Rightarrow> bool" where
  "is_symbolic g \<longleftrightarrow> g_sym_attrs g \<noteq> [] \<or> has_dynamic_dims g"

section \<open>Well-formed graphs\<close>

text \<open>
  What appending keeps: the node at position \<open>i\<close> has id \<open>i\<close> and reads only earlier
  nodes, and the outputs are nodes of the graph.
\<close>

definition wf_nodes :: "node list \<Rightarrow> bool" where
  "wf_nodes ns \<longleftrightarrow>
     (\<forall>i < length ns. n_id (ns ! i) = i \<and> (\<forall>j \<in> set (n_inputs (ns ! i)). j < i))"

definition wf_graph :: "graph \<Rightarrow> bool" where
  "wf_graph g \<longleftrightarrow> wf_nodes (g_nodes g) \<and> (\<forall>i \<in> set (g_outputs g). i < graph_len g)"

lemma wf_nodesD:
  assumes "wf_nodes ns" and "i < length ns"
  shows "n_id (ns ! i) = i" and "j \<in> set (n_inputs (ns ! i)) \<Longrightarrow> j < i"
  using assms by (auto simp: wf_nodes_def)

lemma wf_nodes_Nil [simp]: "wf_nodes []"
  by (simp add: wf_nodes_def)

lemma wf_nodes_snoc:
  "wf_nodes (ns @ [n]) \<longleftrightarrow>
     wf_nodes ns \<and> n_id n = length ns \<and> (\<forall>j \<in> set (n_inputs n). j < length ns)"
  by (auto simp: wf_nodes_def nth_append less_Suc_eq)

lemma wf_nodes_member:
  assumes "wf_nodes ns" and "n \<in> set ns"
  shows "n_id n < length ns" and "ns ! n_id n = n"
    and "j \<in> set (n_inputs n) \<Longrightarrow> j < length ns"
proof -
  show "n_id n < length ns" "ns ! n_id n = n"
    using assms by (auto simp: wf_nodes_def in_set_conv_nth)
  then show "j \<in> set (n_inputs n) \<Longrightarrow> j < length ns"
    using wf_nodesD(2) [OF assms(1)] by (metis order_less_trans)
qed

lemma wf_graph_new [simp]: "wf_graph (graph_new nm)"
  by (simp add: wf_graph_def graph_new_def)

lemma node_at_Ok [outcome_simps]: "node_at g i = Ok n \<longleftrightarrow> i < graph_len g \<and> g_nodes g ! i = n"
  by (auto simp: node_at_def graph_len_def outcome_simps)

lemma node_at_in [simp]: "i < graph_len g \<Longrightarrow> node_at g i = Ok (g_nodes g ! i)"
  by (simp add: node_at_Ok)

lemma add_node_simps [simp]:
  "g_nodes (fst (add_node g opr ins s)) =
     g_nodes g @ [\<lparr>n_id = graph_len g, n_op = opr, n_inputs = ins, n_shape = s,
       n_name = None, n_origin = None\<rparr>]"
  "snd (add_node g opr ins s) = graph_len g"
  "g_outputs (fst (add_node g opr ins s)) = g_outputs g"
  by (simp_all add: add_node_def push_def push_ext_def Let_def graph_len_def)

lemma wf_add_node:
  assumes "wf_nodes (g_nodes g)" and "\<forall>j \<in> set ins. j < graph_len g"
  shows "wf_nodes (g_nodes (fst (add_node g opr ins s)))"
  using assms by (simp add: wf_nodes_snoc graph_len_def)

section \<open>Laws\<close>

lemma sorted_map_of_position:
  assumes "sorted_wrt (\<lambda>p q. fst p < fst q) xs"
  shows "map_of xs k = (if name_found xs k then Some (snd (xs ! name_position xs k)) else None)"
  using assms
proof (induction xs)
  case (Cons p xs)
  show ?case
  proof (cases "fst p < k")
    case True
    then show ?thesis using Cons by (auto simp: name_found_def name_position_def Let_def)
  next
    case False
    have "k \<noteq> fst p \<Longrightarrow> map_of xs k = None"
      using False Cons.prems by (fastforce simp: map_of_eq_None_iff)
    then show ?thesis
      using False by (cases p) (auto simp: name_found_def name_position_def Let_def)
  qed
qed (simp add: name_found_def name_position_def)

lemma output_name_map_of: "names_sorted g \<Longrightarrow> output_name g k = map_of (g_output_names g) k"
  by (simp add: output_name_def names_sorted_def sorted_map_of_position Let_def)

lemma sorted_take_position:
  "sorted_wrt (\<lambda>p q. fst p < fst q) xs \<Longrightarrow>
   take (name_position xs k) xs = filter (\<lambda>p. fst p < k) xs"
proof (induction xs)
  case (Cons p xs)
  then have "\<not> fst p < k \<Longrightarrow> filter (\<lambda>p. fst p < k) xs = []"
    by (auto simp: filter_empty_conv)
  then show ?case using Cons by (auto simp: name_position_def)
qed (simp add: name_position_def)

lemma sorted_drop_position:
  "sorted_wrt (\<lambda>p q. fst p < fst q) xs \<Longrightarrow>
   drop (name_position xs k) xs = filter (\<lambda>p. k \<le> fst p) xs"
proof (induction xs)
  case (Cons p xs)
  then have "\<not> fst p < k \<Longrightarrow> filter (\<lambda>p. k \<le> fst p) xs = xs"
    by (auto simp: filter_id_conv)
  then show ?case using Cons by (auto simp: name_position_def)
qed (simp add: name_position_def)

lemma sorted_drop_Suc_position:
  assumes "sorted_wrt (\<lambda>p q. fst p < fst q) xs" and "name_found xs k"
  shows "drop (Suc (name_position xs k)) xs = filter (\<lambda>p. k < fst p) xs"
  using assms
proof (induction xs)
  case (Cons p xs)
  show ?case
  proof (cases "fst p < k")
    case True
    then show ?thesis using Cons by (auto simp: name_found_def name_position_def Let_def)
  next
    case False
    then have "fst p = k" using Cons.prems by (simp add: name_found_def name_position_def Let_def)
    moreover from this have "filter (\<lambda>p. k < fst p) xs = xs"
      using Cons.prems(1) by (auto simp: filter_id_conv)
    ultimately show ?thesis by (simp add: name_position_def)
  qed
qed (simp add: name_found_def)

lemma not_found_filter:
  assumes "sorted_wrt (\<lambda>p q. fst p < fst q) xs" and "\<not> name_found xs k"
  shows "filter (\<lambda>p. k \<le> fst p) xs = filter (\<lambda>p. k < fst p) xs"
proof -
  have "map_of xs k = None" using assms by (simp add: sorted_map_of_position)
  then have "\<forall>p \<in> set xs. fst p \<noteq> k" by (force simp: map_of_eq_None_iff)
  then show ?thesis by (auto intro!: filter_cong)
qed

lemma name_output_names:
  assumes "names_sorted g"
  shows "g_output_names (name_output g k nm) =
     filter (\<lambda>p. fst p < k) (g_output_names g) @ (k, nm) #
     filter (\<lambda>p. k < fst p) (g_output_names g)"
proof -
  let ?xs = "g_output_names g"
  have srt: "sorted_wrt (\<lambda>p q. fst p < fst q) ?xs" using assms by (simp add: names_sorted_def)
  show ?thesis
  proof (cases "name_found ?xs k")
    case True
    then have "name_position ?xs k < length ?xs" "fst (?xs ! name_position ?xs k) = k"
      by (simp_all add: name_found_def Let_def)
    then show ?thesis
      using True sorted_take_position [OF srt] sorted_drop_Suc_position [OF srt True]
      by (simp add: name_output_def Let_def upd_conv_take_nth_drop)
  next
    case False
    then show ?thesis
      using sorted_take_position [OF srt] sorted_drop_position [OF srt] not_found_filter [OF srt]
      by (simp add: name_output_def Let_def)
  qed
qed

lemma names_sorted_name_output:
  assumes "names_sorted g"
  shows "names_sorted (name_output g k nm)"
  using assms
  by (auto simp: names_sorted_def name_output_names sorted_wrt_append sorted_wrt_filter)

lemma dedup_by_fst_sorted:
  "sorted_wrt (\<lambda>p q. fst p \<le> fst q) xs \<Longrightarrow>
   sorted_wrt (\<lambda>p q. fst p < fst q) (dedup_by_fst xs) \<and> set (dedup_by_fst xs) \<subseteq> set xs"
proof (induction xs rule: dedup_by_fst.induct)
  case (1 p q xs)
  show ?case
  proof (cases "fst p = fst q")
    case True
    then show ?thesis using 1 by auto
  next
    case False
    then have "\<forall>r \<in> set (q # xs). fst p < fst r" using 1(3) by fastforce
    then show ?thesis using False 1 by auto
  qed
qed auto

lemma names_sorted_ops:
  "names_sorted (graph_new nm)"
  "names_sorted (set_output_names g names)"
  "names_sorted (set_named_outputs g outs)"
  "names_sorted g \<Longrightarrow> names_sorted (set_outputs g os)"
proof -
  show "names_sorted (graph_new nm)" by (simp add: names_sorted_def graph_new_def)
  show "names_sorted (set_output_names g names)"
    using dedup_by_fst_sorted [of "sort_key fst names"] sorted_sort_key [of fst names]
    by (simp add: names_sorted_def set_output_names_def sorted_wrt_map)
  have "sorted_wrt (\<lambda>p q. fst p < fst q) (zip [0..<n] xs)" for n and xs :: "string list"
    by (auto simp: sorted_wrt_iff_nth_less)
  then show "names_sorted (set_named_outputs g outs)"
    by (simp add: names_sorted_def set_named_outputs_def)
  show "names_sorted g \<Longrightarrow> names_sorted (set_outputs g os)"
    by (simp add: names_sorted_def set_outputs_def sorted_wrt_filter)
qed

text \<open>Naming an output: reading the name back gives it, the other outputs keep theirs,
  and the table stays sorted, which the binary searches rely on.\<close>
theorem name_output_roundtrip:
  assumes "names_sorted g"
  shows "output_name (name_output g k nm) j = (if j = k then Some nm else output_name g j) \<and>
    names_sorted (name_output g k nm)"
proof -
  let ?xs = "g_output_names g"
  have srt: "sorted_wrt (\<lambda>p q. fst p < fst q) ?xs" using assms by (simp add: names_sorted_def)
  have dist: "distinct (map fst zs)" if "sorted_wrt (\<lambda>p q. fst p < fst q) zs"
    for zs :: "(nat \<times> string) list"
    using that strict_sorted_iff [of "map fst zs"] by (simp add: sorted_wrt_map)
  have srt': "sorted_wrt (\<lambda>p q. fst p < fst q) (g_output_names (name_output g k nm))"
    using names_sorted_name_output [OF assms] by (simp add: names_sorted_def)
  have mem: "(j, v) \<in> set (g_output_names (name_output g k nm)) \<longleftrightarrow>
      (if j = k then v = nm else (j, v) \<in> set ?xs)" for v
    by (auto simp: name_output_names [OF assms])
  have "map_of (g_output_names (name_output g k nm)) j = Some v \<longleftrightarrow>
      (if j = k then Some nm else map_of ?xs j) = Some v" for v
    using mem [of v] map_of_eq_Some_iff [OF dist [OF srt]] map_of_eq_Some_iff [OF dist [OF srt']]
    by auto
  then have "map_of (g_output_names (name_output g k nm)) j =
      (if j = k then Some nm else map_of ?xs j)"
    by (metis not_Some_eq)
  then show ?thesis
    using names_sorted_name_output [OF assms] assms by (simp add: output_name_map_of)
qed

theorem name_output_roundtrip_witness:
  "output_name (name_output (name_output (graph_new ''g'') 3 ''loss'') 1 ''logits'') 3
     = Some ''loss''"
  using name_output_roundtrip [OF names_sorted_name_output [OF names_sorted_ops(1)],
      where nm = "''logits''" and j = 3]
    name_output_roundtrip [OF names_sorted_ops(1), where nm = "''loss''" and j = 3]
  by simp

end
