(* ===== verification/Rewrite.thy ===== *)
theory Rewrite
  imports IR
begin

text \<open>
  The value of a graph under given kernels, and the contract of the passes that rebuild
  a graph node by node into a fresh one through a map from old ids to new ids, as
  \<open>rlx-compile\<close>'s \<open>dce.rs\<close>, \<open>cse.rs\<close> and \<open>legalize_broadcast.rs\<close> do. The kernels
  (\<open>sem\<close>) stand for the backends: they give the value of one operator at its output
  shape on its operands' values; nothing is assumed of them unless a theorem says so.
\<close>

section \<open>Values\<close>

type_synonym 'v kernels = "op \<Rightarrow> shape \<Rightarrow> 'v list \<Rightarrow> 'v"
type_synonym id_map = "node_id \<rightharpoonup> node_id"

definition node_value :: "'v kernels \<Rightarrow> 'v list \<Rightarrow> node \<Rightarrow> 'v" where
  "node_value sem vs n = sem (n_op n) (n_shape n) (map (\<lambda>i. vs ! i) (n_inputs n))"

definition eval_nodes :: "'v kernels \<Rightarrow> node list \<Rightarrow> 'v list" where
  "eval_nodes sem ns = foldl (\<lambda>vs n. vs @ [node_value sem vs n]) [] ns"

definition value_at :: "'v kernels \<Rightarrow> graph \<Rightarrow> node_id \<Rightarrow> 'v" where
  "value_at sem g i = eval_nodes sem (g_nodes g) ! i"

lemma value_at_abs: "value_at sem g = (\<lambda>i. eval_nodes sem (g_nodes g) ! i)"
  by (rule ext) (simp add: value_at_def)

definition output_values :: "'v kernels \<Rightarrow> graph \<Rightarrow> 'v list" where
  "output_values sem g = map (value_at sem g) (g_outputs g)"

lemma eval_nodes_simps [simp]:
  "eval_nodes sem [] = []"
  "eval_nodes sem (ns @ [n]) = eval_nodes sem ns @ [node_value sem (eval_nodes sem ns) n]"
  by (simp_all add: eval_nodes_def)

lemma length_eval_nodes [simp]: "length (eval_nodes sem ns) = length ns"
  by (induction ns rule: rev_induct) auto

lemma eval_nodes_prefix: "i < length ns \<Longrightarrow> eval_nodes sem (ns @ ms) ! i = eval_nodes sem ns ! i"
proof (induction ms rule: rev_induct)
  case (snoc m ms)
  then show ?case by (simp add: nth_append flip: append_assoc)
qed simp

lemma node_value_cong:
  "(\<And>i. i \<in> set (n_inputs n) \<Longrightarrow> vs ! i = ws ! i) \<Longrightarrow> node_value sem vs n = node_value sem ws n"
  by (simp add: node_value_def cong: map_cong)

lemma eval_nodes_nth:
  assumes "wf_nodes ns" and "i < length ns"
  shows "eval_nodes sem ns ! i =
     sem (n_op (ns ! i)) (n_shape (ns ! i)) (map (\<lambda>j. eval_nodes sem ns ! j) (n_inputs (ns ! i)))"
proof -
  define us where "us = take i ns"
  define ms where "ms = drop (Suc i) ns"
  have ns: "ns = (us @ [ns ! i]) @ ms" using assms(2) by (simp add: us_def ms_def id_take_nth_drop)
  have len: "length us = i" using assms(2) by (simp add: us_def)
  have "eval_nodes sem ns ! i = eval_nodes sem (us @ [ns ! i]) ! i"
    by (subst ns, rule eval_nodes_prefix) (simp add: len)
  also have "\<dots> = node_value sem (eval_nodes sem us) (ns ! i)" by (simp add: nth_append len)
  also have "\<dots> = node_value sem (eval_nodes sem ns) (ns ! i)"
  proof (rule node_value_cong)
    fix j assume "j \<in> set (n_inputs (ns ! i))"
    then have "j < length us" using wf_nodesD(2) [OF assms] len by simp
    then show "eval_nodes sem us ! j = eval_nodes sem ns ! j"
      using eval_nodes_prefix [of j us sem "[ns ! i] @ ms"] ns by simp
  qed
  finally show ?thesis by (simp add: node_value_def)
qed

lemma value_at_wf:
  "wf_nodes (g_nodes g) \<Longrightarrow> i < graph_len g \<Longrightarrow> value_at sem g i =
     sem (n_op (g_nodes g ! i)) (n_shape (g_nodes g ! i)) (map (value_at sem g) (n_inputs (g_nodes g ! i)))"
  by (simp add: value_at_abs graph_len_def eval_nodes_nth)

section \<open>Rebuilding a graph\<close>

definition map_ids :: "id_map \<Rightarrow> node_id list \<Rightarrow> node_id list res" where
  "map_ids m is = traverse (\<lambda>i. case m i of Some j \<Rightarrow> Ok j | None \<Rightarrow> Panic) is"

text \<open>Appending a copy of a node with new inputs, its name and origin carried over.\<close>

definition copy_node :: "graph \<Rightarrow> node \<Rightarrow> node_id list \<Rightarrow> graph \<times> node_id" where
  "copy_node out n inputs =
     (case add_node out (n_op n) inputs (n_shape n) of (out1, i) \<Rightarrow>
        (if n_name n \<noteq> None \<or> n_origin n \<noteq> None
         then out1\<lparr>g_nodes := (g_nodes out1)[i :=
                (g_nodes out1 ! i)\<lparr>n_name := n_name n, n_origin := n_origin n\<rparr>]\<rparr>
         else out1, i))"

definition rebuild_outputs :: "graph \<Rightarrow> graph \<Rightarrow> id_map \<Rightarrow> graph res" where
  "rebuild_outputs g out m =
     bind_outcome (map_ids m (g_outputs g)) (\<lambda>outs. Ok (set_outputs out outs))"

text \<open>The new id has, under the kernels \<open>sem'\<close> of the new graph, the value the old one has
  under those of the source.\<close>

definition mapped ::
  "'v kernels \<Rightarrow> 'v kernels \<Rightarrow> graph \<Rightarrow> graph \<Rightarrow> id_map \<Rightarrow> node_id \<Rightarrow> bool" where
  "mapped sem sem' g out m i \<longleftrightarrow>
     (\<exists>j. m i = Some j \<and> j < graph_len out \<and> value_at sem' out j = value_at sem g i)"

definition extends :: "graph \<Rightarrow> graph \<Rightarrow> bool" where
  "extends g h \<longleftrightarrow> (\<exists>ns. g_nodes h = g_nodes g @ ns)"

lemma extends_refl [simp]: "extends g g"
  by (simp add: extends_def)

lemma extends_trans: "extends g h \<Longrightarrow> extends h k \<Longrightarrow> extends g k"
  by (auto simp: extends_def)

lemma extends_len: "extends g h \<Longrightarrow> graph_len g \<le> graph_len h"
  by (auto simp: extends_def graph_len_def)

lemma extends_node: "extends g h \<Longrightarrow> i < graph_len g \<Longrightarrow> g_nodes h ! i = g_nodes g ! i"
  by (auto simp: extends_def graph_len_def nth_append)

lemma extends_value: "extends g h \<Longrightarrow> i < graph_len g \<Longrightarrow> value_at sem h i = value_at sem g i"
  by (auto simp: extends_def graph_len_def value_at_def eval_nodes_prefix)

lemma mapped_extends:
  "mapped sem sem' g out m i \<Longrightarrow> extends out out' \<Longrightarrow> m' i = m i \<Longrightarrow> mapped sem sem' g out' m' i"
  unfolding mapped_def using extends_len extends_value by (metis order_less_le_trans)

lemma extends_add_node [simp]: "extends g (fst (add_node g opr ins s))"
  by (simp add: extends_def)

lemma graph_len_add_node [simp]: "graph_len (fst (add_node g opr ins s)) = Suc (graph_len g)"
  by (simp add: graph_len_def)

lemma value_at_add_node:
  "value_at sem (fst (add_node g opr ins s)) (graph_len g) = sem opr s (map (value_at sem g) ins)"
  by (simp add: value_at_abs graph_len_def nth_append node_value_def)

lemma copy_node_simps [simp]:
  "g_nodes (fst (copy_node out n ins)) =
     g_nodes out @ [n\<lparr>n_id := graph_len out, n_inputs := ins\<rparr>]"
  "snd (copy_node out n ins) = graph_len out"
  by (auto simp: copy_node_def add_node_def push_def push_ext_def Let_def graph_len_def)

lemma extends_copy_node [simp]: "extends g (fst (copy_node g n ins))"
  by (simp add: extends_def)

lemma graph_len_copy_node [simp]: "graph_len (fst (copy_node g n ins)) = Suc (graph_len g)"
  by (simp add: graph_len_def)

lemma value_at_copy_node:
  "value_at sem (fst (copy_node g n ins)) (graph_len g) =
     sem (n_op n) (n_shape n) (map (value_at sem g) ins)"
  by (simp add: value_at_abs graph_len_def nth_append node_value_def)

lemma wf_copy_node:
  "wf_nodes (g_nodes g) \<Longrightarrow> \<forall>j \<in> set ins. j < graph_len g \<Longrightarrow>
   wf_nodes (g_nodes (fst (copy_node g n ins)))"
  by (simp add: wf_nodes_snoc graph_len_def)

lemma value_at_node:
  assumes "wf_graph g" and "n \<in> set (g_nodes g)"
  shows "value_at sem g (n_id n) = sem (n_op n) (n_shape n) (map (value_at sem g) (n_inputs n))"
proof -
  have wf: "wf_nodes (g_nodes g)" using assms by (simp add: wf_graph_def)
  have "n_id n < length (g_nodes g)" "g_nodes g ! n_id n = n"
    using wf_nodes_member [OF wf assms(2)] by auto
  then show ?thesis using eval_nodes_nth [OF wf, of "n_id n" sem] by (simp add: value_at_abs)
qed

lemma map_ids_mapped:
  assumes "\<forall>i \<in> set is. mapped sem sem' g out m i"
  obtains js where "map_ids m is = Ok js" "length js = length is"
    "\<forall>j \<in> set js. j < graph_len out" "map (value_at sem' out) js = map (value_at sem g) is"
proof -
  have "\<exists>js. map_ids m is = Ok js \<and> length js = length is \<and> (\<forall>j \<in> set js. j < graph_len out) \<and>
      map (value_at sem' out) js = map (value_at sem g) is"
    using assms
  proof (induction "is")
    case (Cons i "is")
    then obtain js where "map_ids m is = Ok js" "length js = length is"
        "\<forall>j \<in> set js. j < graph_len out" "map (value_at sem' out) js = map (value_at sem g) is"
      by auto
    moreover obtain j where "m i = Some j" "j < graph_len out" "value_at sem' out j = value_at sem g i"
      using Cons.prems by (auto simp: mapped_def)
    ultimately show ?case by (intro exI [of _ "j # js"]) (simp add: map_ids_def)
  qed (simp add: map_ids_def)
  then show thesis using that by blast
qed

section \<open>The contract of a rebuilding pass\<close>

text \<open>
  A pass is a loop over the nodes in order. Its step may keep any state beside the new
  graph (\<open>built\<close>) and the id map (\<open>ids\<close>), with an invariant \<open>inv g k\<close> once the first \<open>k\<close>
  nodes are done; \<open>keep\<close> are the old ids it has to map,
  \<open>admissible\<close> what it asks of the source graph. The contract of one step: it succeeds
  when the operands it needs are mapped, only appends to the new graph, changes no
  other entry of the map, and maps the node to a node of the same value. The kernels
  of the source (\<open>sem\<close>) and of the result (\<open>sem'\<close>) may differ.
\<close>

locale node_rewrite =
  fixes sem sem' :: "'v kernels"
    and start :: "graph \<Rightarrow> 's"
    and step :: "graph \<Rightarrow> 's \<Rightarrow> node \<Rightarrow> 's res"
    and built :: "'s \<Rightarrow> graph"
    and ids :: "'s \<Rightarrow> id_map"
    and keep :: "graph \<Rightarrow> node_id \<Rightarrow> bool"
    and inv :: "graph \<Rightarrow> nat \<Rightarrow> 's \<Rightarrow> bool"
    and admissible :: "graph \<Rightarrow> bool"
  assumes start_empty: "g_nodes (built (start g)) = []"
    and start_inv: "inv g 0 (start g)"
    and keep_output: "i \<in> set (g_outputs g) \<Longrightarrow> keep g i"
    and keep_input: "wf_graph g \<Longrightarrow> n \<in> set (g_nodes g) \<Longrightarrow> keep g (n_id n) \<Longrightarrow>
      i \<in> set (n_inputs n) \<Longrightarrow> keep g i"
    and step_ok: "wf_graph g \<Longrightarrow> admissible g \<Longrightarrow> n \<in> set (g_nodes g) \<Longrightarrow> inv g (n_id n) s \<Longrightarrow>
      wf_nodes (g_nodes (built s)) \<Longrightarrow>
      (keep g (n_id n) \<Longrightarrow> \<forall>i \<in> set (n_inputs n). mapped sem sem' g (built s) (ids s) i) \<Longrightarrow>
      \<exists>s'. step g s n = Ok s' \<and> inv g (Suc (n_id n)) s' \<and> wf_nodes (g_nodes (built s')) \<and>
        extends (built s) (built s') \<and> (\<forall>i. i \<noteq> n_id n \<longrightarrow> ids s' i = ids s i) \<and>
        (keep g (n_id n) \<longrightarrow> mapped sem sem' g (built s') (ids s') (n_id n))"
begin

lemma loop_prefix:
  assumes wf: "wf_graph g" and adm: "admissible g" and "k \<le> length (g_nodes g)"
  shows "\<exists>s. for_each (step g) (start g) (take k (g_nodes g)) = Ok s \<and> inv g k s \<and>
    wf_nodes (g_nodes (built s)) \<and>
    (\<forall>i < k. keep g i \<longrightarrow> mapped sem sem' g (built s) (ids s) i)"
  using assms(3)
proof (induction k)
  case 0
  then show ?case by (simp add: start_empty start_inv)
next
  case (Suc k)
  then obtain s where loop: "for_each (step g) (start g) (take k (g_nodes g)) = Ok s"
    and inv: "inv g k s" and wf': "wf_nodes (g_nodes (built s))"
    and old: "\<forall>i < k. keep g i \<longrightarrow> mapped sem sem' g (built s) (ids s) i" by auto
  let ?n = "g_nodes g ! k"
  have k: "k < length (g_nodes g)" and mem: "?n \<in> set (g_nodes g)" using Suc.prems by auto
  have wfn: "wf_nodes (g_nodes g)" using wf by (simp add: wf_graph_def)
  note idk = wf_nodesD [OF wfn k]
  have "\<forall>i \<in> set (n_inputs ?n). mapped sem sem' g (built s) (ids s) i" if "keep g (n_id ?n)"
    using keep_input [OF wf mem that] idk(2) old by blast
  then obtain s' where s': "step g s ?n = Ok s'" "inv g (Suc k) s'" "wf_nodes (g_nodes (built s'))"
      "extends (built s) (built s')" "\<forall>i. i \<noteq> n_id ?n \<longrightarrow> ids s' i = ids s i"
      "keep g (n_id ?n) \<longrightarrow> mapped sem sem' g (built s') (ids s') (n_id ?n)"
    using step_ok [OF wf adm mem _ wf'] inv idk(1) by metis
  have "mapped sem sem' g (built s') (ids s') i" if "i < Suc k" and kp: "keep g i" for i
  proof (cases "i = k")
    case True
    then show ?thesis using s'(6) kp idk(1) by simp
  next
    case False
    then have "mapped sem sem' g (built s) (ids s) i" using old that by simp
    then show ?thesis by (rule mapped_extends [OF _ s'(4)]) (use s'(5) False idk(1) in simp)
  qed
  moreover have "for_each (step g) (start g) (take (Suc k) (g_nodes g)) = Ok s'"
    using k loop s'(1) by (simp add: take_Suc_conv_app_nth for_each_append)
  ultimately show ?case using s' by blast
qed

theorem rebuild_ok:
  assumes wf: "wf_graph g" and adm: "admissible g"
  shows "\<exists>s g'. for_each (step g) (start g) (g_nodes g) = Ok s \<and> inv g (graph_len g) s \<and>
    rebuild_outputs g (built s) (ids s) = Ok g' \<and> wf_graph g' \<and>
    g_nodes g' = g_nodes (built s) \<and> output_values sem' g' = output_values sem g"
proof -
  obtain s where loop: "for_each (step g) (start g) (g_nodes g) = Ok s" and inv: "inv g (graph_len g) s"
    and wf': "wf_nodes (g_nodes (built s))"
    and old: "\<forall>i < length (g_nodes g). keep g i \<longrightarrow> mapped sem sem' g (built s) (ids s) i"
    using loop_prefix [OF wf adm order.refl] by (auto simp: graph_len_def)
  have "\<forall>i \<in> set (g_outputs g). mapped sem sem' g (built s) (ids s) i"
    using old wf keep_output by (auto simp: wf_graph_def graph_len_def)
  then obtain js where js: "map_ids (ids s) (g_outputs g) = Ok js"
    "\<forall>j \<in> set js. j < graph_len (built s)"
    "map (value_at sem' (built s)) js = map (value_at sem g) (g_outputs g)"
    by (rule map_ids_mapped)
  let ?g' = "set_outputs (built s) js"
  have nodes: "g_nodes ?g' = g_nodes (built s)" by (simp add: set_outputs_def)
  have "output_values sem' ?g' = output_values sem g"
    using js(3) by (simp add: output_values_def set_outputs_def value_at_abs)
  moreover have "wf_graph ?g'"
    using wf' js(2) by (simp add: wf_graph_def set_outputs_def graph_len_def)
  moreover have "rebuild_outputs g (built s) (ids s) = Ok ?g'"
    using js(1) by (simp add: rebuild_outputs_def)
  ultimately show ?thesis using loop inv nodes by blast
qed

end

section \<open>A small graph and kernels for the examples\<close>

text \<open>\<open>x + y\<close> with the product \<open>x * y\<close> computed twice beside it and used by no output;
  kernels on numbers.\<close>

definition sample_node :: "node_id \<Rightarrow> op \<Rightarrow> node_id list \<Rightarrow> node" where
  "sample_node i opr ins = \<lparr>n_id = i, n_op = opr, n_inputs = ins,
     n_shape = \<lparr>dims = [Static 2], shape_dtype = F32\<rparr>, n_name = None, n_origin = None\<rparr>"

definition sample_graph :: "node_id list \<Rightarrow> graph" where
  "sample_graph outs = (graph_new ''g'')\<lparr>g_nodes :=
     [sample_node 0 (Input ''x'') [], sample_node 1 (Input ''y'') [],
      sample_node 2 (Binary Mul) [0, 1], sample_node 3 (Binary Add) [0, 1],
      sample_node 4 (Binary Mul) [0, 1]], g_outputs := outs\<rparr>"

definition number_kernels :: "nat kernels" where
  "number_kernels opr s vs = (case opr of
       Input nm \<Rightarrow> length nm + 1
     | Binary b \<Rightarrow> (if b = Mul then foldr (*) vs 1 else foldr (+) vs 0)
     | Expand t \<Rightarrow> hd vs
     | _ \<Rightarrow> 0)"

lemma wf_sample_graph: "\<forall>i \<in> set outs. i < 5 \<Longrightarrow> wf_graph (sample_graph outs)"
  by (simp add: wf_graph_def sample_graph_def wf_nodes_def sample_node_def graph_new_def
    graph_len_def less_Suc_eq numeral_eq_Suc)

end
