(* ===== verification/DCE.thy ===== *)
theory DCE
  imports Rewrite
begin

text \<open>
  Dead-code elimination (\<open>crates/core/rlx-compile/src/dce.rs\<close>): a worklist marks the nodes
  the outputs depend on, a rebuild keeps exactly those.
\<close>

section \<open>The pass\<close>

text \<open>The worklist loop; \<open>live\<close> is the \<open>HashSet\<close>, the list is the \<open>VecDeque\<close>.\<close>

function mark :: "graph \<Rightarrow> node_id set \<Rightarrow> node_id list \<Rightarrow> node_id set res" where
  "mark g live [] = Ok live"
| "mark g live (i # queue) =
     (if i \<in> live then mark g live queue
      else case node_at g i of
        Ok n \<Rightarrow> mark g (insert i live) (queue @ n_inputs n)
      | Err e \<Rightarrow> Err e
      | Panic \<Rightarrow> Panic)"
  by pat_completeness auto

termination
proof (relation "measures [\<lambda>(g, live, queue). card ({..<graph_len g} - live),
                            \<lambda>(g, live, queue). length queue]")
  fix g live i queue n
  assume "i \<notin> live" and "node_at g i = Ok n"
  then have "{..<graph_len g} - insert i live \<subset> {..<graph_len g} - live"
    by (auto simp: node_at_Ok)
  then have "card ({..<graph_len g} - insert i live) < card ({..<graph_len g} - live)"
    by (intro psubset_card_mono) auto
  then show "((g, insert i live, queue @ n_inputs n), (g, live, i # queue))
      \<in> measures [\<lambda>(g, live, queue). card ({..<graph_len g} - live),
                   \<lambda>(g, live, queue). length queue]"
    by simp
qed auto

definition dce_step ::
  "node_id set \<Rightarrow> graph \<times> id_map \<Rightarrow> node \<Rightarrow> (graph \<times> id_map) res" where
  "dce_step live st n =
     (case st of (out, m) \<Rightarrow>
        if n_id n \<notin> live then Ok (out, m)
        else bind_outcome (map_ids m (n_inputs n)) (\<lambda>inputs.
          case copy_node out n inputs of (out', i) \<Rightarrow> Ok (out', m(n_id n \<mapsto> i))))"

definition dce_run :: "graph \<Rightarrow> graph res" where
  "dce_run g =
     bind_outcome (mark g {} (g_outputs g)) (\<lambda>live.
       bind_outcome (for_each (dce_step live) (graph_new (g_name g), Map.empty) (g_nodes g))
         (\<lambda>(out, m). rebuild_outputs g out m))"

section \<open>Reachability\<close>

inductive reach :: "graph \<Rightarrow> node_id \<Rightarrow> bool" for g where
  reach_output: "i \<in> set (g_outputs g) \<Longrightarrow> reach g i"
| reach_input: "reach g i \<Longrightarrow> j \<in> set (n_inputs (g_nodes g ! i)) \<Longrightarrow> reach g j"

lemma reach_len: "reach g i \<Longrightarrow> wf_graph g \<Longrightarrow> i < graph_len g"
proof (induction rule: reach.induct)
  case (reach_input i j)
  then show ?case using wf_nodesD(2) [of "g_nodes g" i j] by (auto simp: wf_graph_def graph_len_def)
qed (simp add: wf_graph_def)

definition closed_under :: "graph \<Rightarrow> node_id set \<Rightarrow> node_id list \<Rightarrow> bool" where
  "closed_under g live queue \<longleftrightarrow>
     (\<forall>i \<in> live. set (n_inputs (g_nodes g ! i)) \<subseteq> live \<union> set queue)"

lemma mark_closure:
  assumes "wf_graph g" and "\<forall>i \<in> set queue. i < graph_len g" and "closed_under g live queue"
    and "\<forall>i \<in> live \<union> set queue. reach g i"
  shows "\<exists>L. mark g live queue = Ok L \<and> live \<union> set queue \<subseteq> L \<and> closed_under g L [] \<and>
    (\<forall>i \<in> L. reach g i)"
  using assms
proof (induction g live queue rule: mark.induct)
  case (2 g live i queue)
  show ?case
  proof (cases "i \<in> live")
    case True
    have "closed_under g live queue" using 2(5) True by (auto simp: closed_under_def)
    then have "\<exists>L. mark g live queue = Ok L \<and> live \<union> set queue \<subseteq> L \<and> closed_under g L [] \<and>
        (\<forall>i \<in> L. reach g i)"
      using 2(1) [OF True] 2(3,4,6) by auto
    then show ?thesis using True by auto
  next
    case False
    let ?n = "g_nodes g ! i"
    have i: "i < graph_len g" and n: "node_at g i = Ok ?n" using 2(4) by auto
    have "\<forall>j \<in> set (n_inputs ?n). reach g j" using 2(6) reach_input by auto
    moreover from this have "\<forall>j \<in> set (n_inputs ?n). j < graph_len g"
      using reach_len 2(3) by blast
    moreover have "closed_under g (insert i live) (queue @ n_inputs ?n)"
      using 2(5) by (auto simp: closed_under_def)
    ultimately have "\<exists>L. mark g (insert i live) (queue @ n_inputs ?n) = Ok L \<and>
        insert i live \<union> set (queue @ n_inputs ?n) \<subseteq> L \<and> closed_under g L [] \<and>
        (\<forall>i \<in> L. reach g i)"
      using 2(2) [OF False n] 2(3,4,6) by (simp add: ball_Un)
    then show ?thesis using False n by auto
  qed
qed auto

lemma mark_reach:
  assumes "wf_graph g"
  shows "mark g {} (g_outputs g) = Ok {i. reach g i}"
proof -
  obtain L where L: "mark g {} (g_outputs g) = Ok L" "set (g_outputs g) \<subseteq> L"
      "closed_under g L []" "\<forall>i \<in> L. reach g i"
    using mark_closure [OF assms, of "g_outputs g" "{}"] assms reach_output
    by (auto simp: wf_graph_def closed_under_def)
  have "i \<in> L" if "reach g i" for i
    using that by induction (use L in \<open>auto simp: closed_under_def\<close>)
  then have "L = {i. reach g i}" using L(4) by auto
  then show ?thesis using L(1) by simp
qed

section \<open>Correctness\<close>

text \<open>What the rebuild keeps: the map is a bijection from the kept ids seen so far to the
  new graph, and a copy reads the images of the original's inputs.\<close>

definition dce_inv :: "graph \<Rightarrow> nat \<Rightarrow> graph \<times> id_map \<Rightarrow> bool" where
  "dce_inv g k st \<longleftrightarrow> (case st of (out, m) \<Rightarrow>
     ran m = {..<graph_len out} \<and> inj_on m (dom m) \<and> dom m = {i. reach g i \<and> i < k} \<and>
     (\<forall>i j. m i = Some j \<longrightarrow>
        map Some (n_inputs (g_nodes out ! j)) = map m (n_inputs (g_nodes g ! i))))"

lemma map_ids_Ok: "map_ids m is = Ok js \<longleftrightarrow> map m is = map Some js"
  unfolding map_ids_def
  by (induction "is" arbitrary: js) (auto simp: outcome_simps Cons_eq_map_conv split: option.splits)

lemma dce_step_inv:
  assumes wf: "wf_graph g" and mem: "n \<in> set (g_nodes g)" and inv: "dce_inv g (n_id n) (out, m)"
    and wf': "wf_nodes (g_nodes out)" and kp: "reach g (n_id n)"
    and ids: "map_ids m (n_inputs n) = Ok js"
  shows "dce_inv g (Suc (n_id n)) (fst (copy_node out n js), m(n_id n \<mapsto> graph_len out))"
proof -
  let ?out = "fst (copy_node out n js)" and ?m = "m(n_id n \<mapsto> graph_len out)"
  have wfn: "wf_nodes (g_nodes g)" using wf by (simp add: wf_graph_def)
  note nid = wf_nodes_member [OF wfn mem]
  have rn: "ran m = {..<graph_len out}" and inj: "inj_on m (dom m)" and dm: "dom m = {i. reach g i \<and> i < n_id n}"
    and ins: "\<And>i j. m i = Some j \<Longrightarrow>
        map Some (n_inputs (g_nodes out ! j)) = map m (n_inputs (g_nodes g ! i))"
    using inv by (auto simp: dce_inv_def)
  have fresh: "m (n_id n) = None" using dm by (auto simp: dom_def)
  have bound: "j < graph_len out" if "m i = Some j" for i j
    using rn that by (auto simp: ran_def)
  have "ran ?m = {..<graph_len ?out}"
    using rn fresh by (simp add: lessThan_Suc)
  moreover have "inj_on ?m (dom ?m)"
    using inj bound by (fastforce simp: inj_on_def dom_def)
  moreover have "dom ?m = {i. reach g i \<and> i < Suc (n_id n)}"
    using dm kp by (auto simp: less_Suc_eq)
  moreover have "map Some (n_inputs (g_nodes ?out ! j)) = map ?m (n_inputs (g_nodes g ! i))"
    if eq: "?m i = Some j" for i j
  proof -
    have keep: "map ?m xs = map m xs" if "None \<notin> m ` set xs" for xs
      using that fresh by (auto intro!: map_cong simp: image_def)
    have some: "None \<notin> m ` set xs" if "map Some ys = map m xs" for xs ys
    proof -
      have "m ` set xs = set (map Some ys)" unfolding that by simp
      then show ?thesis by auto
    qed
    show ?thesis
    proof (cases "i = n_id n")
      case True
      have "map m (n_inputs n) = map Some js" using ids by (simp add: map_ids_Ok)
      then have "map ?m (n_inputs n) = map Some js" using keep some by metis
      then show ?thesis using True eq nid by (auto simp: nth_append graph_len_def)
    next
      case False
      then have m: "m i = Some j" using eq by simp
      have "map Some (n_inputs (g_nodes ?out ! j)) = map m (n_inputs (g_nodes g ! i))"
        using ins [OF m] bound [OF m] by (simp add: nth_append graph_len_def)
      then show ?thesis using keep some by metis
    qed
  qed
  ultimately show ?thesis unfolding dce_inv_def prod.case by blast
qed

interpretation dce: node_rewrite sem sem "\<lambda>g. (graph_new (g_name g), Map.empty)"
  "\<lambda>g. dce_step {i. reach g i}" fst snd reach dce_inv "\<lambda>_. True" for sem :: "'v kernels"
proof unfold_locales
  fix g :: graph and n s
  assume wf: "wf_graph g" and mem: "n \<in> set (g_nodes g)" and inv: "dce_inv g (n_id n) s"
    and wf': "wf_nodes (g_nodes (fst s))"
    and ins: "reach g (n_id n) \<Longrightarrow> \<forall>i \<in> set (n_inputs n). mapped sem sem g (fst s) (snd s) i"
  obtain out m where s: "s = (out, m)" by (cases s)
  let ?post = "\<lambda>s'. dce_step {i. reach g i} s n = Ok s' \<and> dce_inv g (Suc (n_id n)) s' \<and>
      wf_nodes (g_nodes (fst s')) \<and> extends (fst s) (fst s') \<and>
      (\<forall>i. i \<noteq> n_id n \<longrightarrow> snd s' i = snd s i) \<and>
      (reach g (n_id n) \<longrightarrow> mapped sem sem g (fst s') (snd s') (n_id n))"
  show "\<exists>s'. ?post s'"
  proof (cases "reach g (n_id n)")
    case False
    then have "dce_inv g (Suc (n_id n)) s"
      using inv by (auto simp: dce_inv_def s less_Suc_eq)
    then have "?post s" using False wf' by (simp add: dce_step_def s)
    then show ?thesis by blast
  next
    case True
    have "\<forall>i \<in> set (n_inputs n). mapped sem sem g out m i" using ins [OF True] s by simp
    then obtain js where js: "map_ids m (n_inputs n) = Ok js" "\<forall>j \<in> set js. j < graph_len out"
        "map (value_at sem out) js = map (value_at sem g) (n_inputs n)"
      by (rule map_ids_mapped)
    let ?s' = "(fst (copy_node out n js), m(n_id n \<mapsto> graph_len out))"
    have "dce_step {i. reach g i} s n = Ok ?s'"
      using True js(1) by (simp add: dce_step_def s split_beta)
    moreover have "dce_inv g (Suc (n_id n)) ?s'"
      using dce_step_inv [OF wf mem _ _ True js(1)] inv wf' s by simp
    moreover have "mapped sem sem g (fst ?s') (snd ?s') (n_id n)"
      unfolding mapped_def value_at_node [OF wf mem] by (simp add: value_at_copy_node js(3))
    ultimately have "?post ?s'" using wf_copy_node js(2) wf' s by simp
    then show ?thesis by blast
  qed
next
  show "reach g i" if "i \<in> set (g_outputs g)" for g i using that by (rule reach_output)
  show "reach g i" if "wf_graph g" "n \<in> set (g_nodes g)" "reach g (n_id n)" "i \<in> set (n_inputs n)"
    for g n i
    using that wf_nodes_member [of "g_nodes g" n] reach_input [of g "n_id n" i]
    by (simp add: wf_graph_def)
qed (simp_all add: graph_new_def dce_inv_def graph_len_def)

lemma dce_run_eq:
  "wf_graph g \<Longrightarrow> dce_run g =
     bind_outcome (for_each (dce_step {i. reach g i}) (graph_new (g_name g), Map.empty) (g_nodes g))
       (\<lambda>(out, m). rebuild_outputs g out m)"
  by (simp add: dce_run_def mark_reach)

text \<open>C15. Dead-code elimination returns on every well-formed graph, without a missing
  entry in its id map, and the outputs keep their values under any kernels.\<close>
theorem dce_preserves_outputs:
  assumes "wf_graph g"
  shows "\<exists>g'. dce_run g = Ok g' \<and> wf_graph g' \<and> output_values sem g' = output_values sem g"
  using dce.rebuild_ok [OF assms, where sem = sem] by (auto simp: dce_run_eq [OF assms] split_beta)

text \<open>Only what the outputs need is left: the result has one node for each node the
  outputs of the source depend on, and its own outputs depend on all of them.\<close>
theorem dce_minimal:
  assumes "wf_graph g" and "dce_run g = Ok g'"
  shows "graph_len g' = card {i. reach g i} \<and> (\<forall>j < graph_len g'. reach g' j)"
proof -
  obtain out m where loop: "dce_inv g (graph_len g) (out, m)"
      and fin: "rebuild_outputs g out m = Ok g'" and nodes: "g_nodes g' = g_nodes out"
    using dce.rebuild_ok [OF assms(1), where sem = number_kernels] assms(2)
    by (auto simp: dce_run_eq [OF assms(1)] split_beta)
  have rn: "ran m = {..<graph_len g'}" and inj: "inj_on m (dom m)"
    and dm: "dom m = {i. reach g i}"
    and ins: "\<And>i j. m i = Some j \<Longrightarrow>
        map Some (n_inputs (g_nodes g' ! j)) = map m (n_inputs (g_nodes g ! i))"
    using loop nodes reach_len [OF _ assms(1)] by (auto simp: dce_inv_def graph_len_def)
  have outs: "map m (g_outputs g) = map Some (g_outputs g')"
    using fin by (auto simp: rebuild_outputs_def outcome_simps map_ids_Ok set_outputs_def)
  have "Some ` ran m = m ` dom m" by (force simp: ran_def dom_def image_def)
  then have "card (ran m) = card (dom m)"
    using inj by (metis card_image inj_Some)
  then have "graph_len g' = card {i. reach g i}" using rn dm by simp
  moreover have img: "\<exists>j. m i = Some j \<and> reach g' j" if "reach g i" for i
    using that
  proof induction
    case (reach_output i)
    then have "m i \<in> Some ` set (g_outputs g')" by (metis imageI list.set_map outs)
    then show ?case using reach.reach_output by blast
  next
    case (reach_input i k)
    then obtain j where j: "m i = Some j" "reach g' j" by blast
    then have "m k \<in> Some ` set (n_inputs (g_nodes g' ! j))"
      using reach_input(2) ins [OF j(1)] by (metis imageI list.set_map)
    then show ?case using reach.reach_input [OF j(2)] by blast
  qed
  moreover have "reach g' j" if "j < graph_len g'" for j
  proof -
    have "j \<in> ran m" using rn that by simp
    then obtain i where "m i = Some j" by (auto simp: ran_def)
    then show ?thesis using img [of i] dm by (auto simp: dom_def)
  qed
  ultimately show ?thesis by blast
qed

theorem dce_preserves_outputs_witness:
  "\<exists>g'. dce_run (sample_graph [3]) = Ok g' \<and> wf_graph g' \<and>
     output_values number_kernels g' = output_values number_kernels (sample_graph [3])"
  by (rule dce_preserves_outputs) (simp add: wf_sample_graph)

lemma dce_sample:
  "dce_run (sample_graph [3]) = Ok ((graph_new ''g'')\<lparr>g_nodes :=
     [sample_node 0 (Input ''x'') [], sample_node 1 (Input ''y'') [],
      sample_node 2 (Binary Add) [0, 1]], g_outputs := [2]\<rparr>)"
  by (simp add: dce_run_def sample_graph_def sample_node_def graph_new_def node_at_def
    dce_step_def map_ids_def copy_node_def add_node_def push_def push_ext_def rebuild_outputs_def
    set_outputs_def)

theorem dce_minimal_witness:
  "card {i. reach (sample_graph [3]) i} = 3"
  using dce_minimal [OF _ dce_sample] by (simp add: wf_sample_graph graph_len_def)

end
