(* ===== verification/CSE.thy ===== *)
theory CSE
  imports Rewrite
begin

text \<open>
  Structural equality of graphs (\<open>crates/core/rlx-ir/src/equivalence.rs\<close>) and
  common-subexpression elimination (\<open>crates/core/rlx-compile/src/cse.rs\<close>).

  Operators are compared by their \<open>Debug\<close> rendering in the source, which determines every
  attribute; here that is equality of \<open>op\<close>. (The rendering prints every NaN alike, so two
  NaN attributes of different payload are equal there and not here.) The 64-bit key of
  \<open>node_value_key\<close> is the standard library's \<open>DefaultHasher\<close> fed with operator, inputs and
  shape: it is a parameter \<open>key\<close>, of which nothing is assumed, collisions included.
\<close>

section \<open>Structural equality\<close>

record ignore_config =
  ic_graph_name :: bool
  ic_node_names :: bool
  ic_origins :: bool

definition ignore_exact :: ignore_config where
  "ignore_exact = \<lparr>ic_graph_name = False, ic_node_names = False, ic_origins = False\<rparr>"

definition ignore_semantic :: ignore_config where
  "ignore_semantic = \<lparr>ic_graph_name = True, ic_node_names = True, ic_origins = True\<rparr>"

definition node_structurally_eq :: "ignore_config \<Rightarrow> node \<Rightarrow> node \<Rightarrow> bool" where
  "node_structurally_eq cfg x y \<longleftrightarrow>
     (if n_id x \<noteq> n_id y \<or> n_inputs x \<noteq> n_inputs y \<or> n_shape x \<noteq> n_shape y then False
      else if \<not> ic_node_names cfg \<and> n_name x \<noteq> n_name y then False
      else if \<not> ic_origins cfg \<and> n_origin x \<noteq> n_origin y then False
      else n_op x = n_op y)"

definition structurally_eq :: "graph \<Rightarrow> graph \<Rightarrow> ignore_config \<Rightarrow> bool" where
  "structurally_eq a b cfg \<longleftrightarrow>
     (if \<not> ic_graph_name cfg \<and> g_name a \<noteq> g_name b then False
      else if graph_len a \<noteq> graph_len b \<or> g_outputs a \<noteq> g_outputs b then False
      else list_all (\<lambda>(x, y). node_structurally_eq cfg x y) (zip (g_nodes a) (g_nodes b)))"

lemma structurally_eq_nodes:
  "structurally_eq a b cfg \<Longrightarrow> list_all2 (node_structurally_eq cfg) (g_nodes a) (g_nodes b)"
  by (auto simp: structurally_eq_def list_all2_iff list_all_iff graph_len_def split: if_splits)

lemma eval_nodes_structurally_eq:
  "list_all2 (node_structurally_eq cfg) ms ns \<Longrightarrow> eval_nodes sem ms = eval_nodes sem ns"
proof (induction ms arbitrary: ns rule: rev_induct)
  case (snoc m ms)
  then obtain n ns' where ns: "ns = ns' @ [n]" and rest: "list_all2 (node_structurally_eq cfg) ms ns'"
    and one: "node_structurally_eq cfg m n"
    by (auto simp: list_all2_append1 list_all2_Cons1)
  have "node_value sem vs m = node_value sem vs n" for vs
    using one by (auto simp: node_structurally_eq_def node_value_def split: if_splits)
  then show ?case using snoc.IH [OF rest] ns by simp
qed simp

text \<open>Graphs that are structurally equal, under any of the ignore configurations, have
  the same output values under any kernels, so ignoring names and origins is sound.\<close>
theorem structurally_eq_values:
  assumes "structurally_eq a b cfg"
  shows "output_values sem a = output_values sem b"
proof -
  have "g_outputs a = g_outputs b" using assms by (auto simp: structurally_eq_def split: if_splits)
  then show ?thesis
    using eval_nodes_structurally_eq [OF structurally_eq_nodes [OF assms], of sem]
    by (simp add: output_values_def value_at_def)
qed

theorem structurally_eq_values_witness:
  "output_values number_kernels (sample_graph [3]\<lparr>g_name := ''h''\<rparr>) =
   output_values number_kernels (sample_graph [3])"
  by (rule structurally_eq_values [where cfg = ignore_semantic])
    (simp add: structurally_eq_def ignore_semantic_def sample_graph_def sample_node_def
      node_structurally_eq_def graph_len_def)

section \<open>The pass\<close>

type_synonym node_key = "op \<Rightarrow> node_id list \<Rightarrow> shape \<Rightarrow> nat"
type_synonym cse_state = "graph \<times> id_map \<times> (nat \<rightharpoonup> node_id list)"

fun cse_find :: "graph \<Rightarrow> node \<Rightarrow> node_id list \<Rightarrow> node_id list \<Rightarrow> node_id option res" where
  "cse_find out n inputs [] = Ok None"
| "cse_find out n inputs (cand # cands) =
     bind_outcome (node_at out cand) (\<lambda>c.
       if n_inputs c = inputs \<and> n_shape c = n_shape n \<and> n_op c = n_op n then Ok (Some cand)
       else cse_find out n inputs cands)"

definition bucket :: "(nat \<rightharpoonup> node_id list) \<Rightarrow> nat \<Rightarrow> node_id list" where
  "bucket b k = (case b k of Some cands \<Rightarrow> cands | None \<Rightarrow> [])"

definition cse_step :: "node_key \<Rightarrow> cse_state \<Rightarrow> node \<Rightarrow> cse_state res" where
  "cse_step key st n =
     (case st of (out, m, b) \<Rightarrow>
        bind_outcome (map_ids m (n_inputs n)) (\<lambda>inputs.
          if inputs \<noteq> [] then
            (let k = key (n_op n) inputs (n_shape n) in
             bind_outcome (cse_find out n inputs (bucket b k)) (\<lambda>existing.
               case existing of
                 Some e \<Rightarrow> Ok (out, m(n_id n \<mapsto> e), b)
               | None \<Rightarrow> (case copy_node out n inputs of (out', i) \<Rightarrow>
                   Ok (out', m(n_id n \<mapsto> i), b(k \<mapsto> bucket b k @ [i])))))
          else (case copy_node out n inputs of (out', i) \<Rightarrow> Ok (out', m(n_id n \<mapsto> i), b))))"

definition cse_run :: "node_key \<Rightarrow> graph \<Rightarrow> graph res" where
  "cse_run key g =
     bind_outcome (for_each (cse_step key) (graph_new (g_name g), Map.empty, Map.empty) (g_nodes g))
       (\<lambda>(out, m, b). rebuild_outputs g out m)"

section \<open>Correctness\<close>

definition same_expression :: "node \<Rightarrow> node \<Rightarrow> bool" where
  "same_expression x y \<longleftrightarrow>
     n_inputs x \<noteq> [] \<and> n_inputs x = n_inputs y \<and> n_shape x = n_shape y \<and> n_op x = n_op y"

definition no_duplicates :: "graph \<Rightarrow> bool" where
  "no_duplicates g \<longleftrightarrow>
     (\<forall>i < graph_len g. \<forall>j < graph_len g.
        same_expression (g_nodes g ! i) (g_nodes g ! j) \<longrightarrow> i = j)"

text \<open>The buckets hold, under its key, every node of the new graph that has inputs.\<close>

definition cse_inv :: "node_key \<Rightarrow> cse_state \<Rightarrow> bool" where
  "cse_inv key st \<longleftrightarrow> (case st of (out, m, b) \<Rightarrow>
     no_duplicates out \<and>
     (\<forall>k. set (bucket b k) = {i. i < graph_len out \<and> n_inputs (g_nodes out ! i) \<noteq> [] \<and>
        key (n_op (g_nodes out ! i)) (n_inputs (g_nodes out ! i)) (n_shape (g_nodes out ! i)) = k}))"

lemma cse_find_cases:
  assumes "\<forall>i \<in> set cands. i < graph_len out"
  shows "(\<exists>e \<in> set cands. cse_find out n ins cands = Ok (Some e) \<and>
        n_inputs (g_nodes out ! e) = ins \<and> n_shape (g_nodes out ! e) = n_shape n \<and>
        n_op (g_nodes out ! e) = n_op n) \<or>
     cse_find out n ins cands = Ok None \<and>
      (\<forall>e \<in> set cands. \<not> (n_inputs (g_nodes out ! e) = ins \<and>
        n_shape (g_nodes out ! e) = n_shape n \<and> n_op (g_nodes out ! e) = n_op n))"
  using assms by (induction cands) auto

lemma no_duplicates_copy:
  assumes "no_duplicates out"
    and "\<forall>e < graph_len out. ins \<noteq> [] \<longrightarrow> \<not> (n_inputs (g_nodes out ! e) = ins \<and>
        n_shape (g_nodes out ! e) = n_shape n \<and> n_op (g_nodes out ! e) = n_op n)"
  shows "no_duplicates (fst (copy_node out n ins))"
  using assms unfolding no_duplicates_def
  by (auto simp: same_expression_def nth_append graph_len_def less_Suc_eq)

lemma cse_step_ok:
  fixes sem :: "'v kernels"
  assumes wf: "wf_graph g" and mem: "n \<in> set (g_nodes g)" and inv: "cse_inv key s"
    and wf': "wf_nodes (g_nodes (fst s))"
    and ins: "\<forall>i \<in> set (n_inputs n). mapped sem sem g (fst s) (fst (snd s)) i"
  shows "\<exists>s'. cse_step key s n = Ok s' \<and> cse_inv key s' \<and> wf_nodes (g_nodes (fst s')) \<and>
      extends (fst s) (fst s') \<and> (\<forall>i. i \<noteq> n_id n \<longrightarrow> fst (snd s') i = fst (snd s) i) \<and>
      mapped sem sem g (fst s') (fst (snd s')) (n_id n)"
    (is "\<exists>s'. ?post s'")
proof -
  obtain out m b where s: "s = (out, m, b)" by (cases s)
  have "\<forall>i \<in> set (n_inputs n). mapped sem sem g out m i" using ins s by simp
  then obtain js where js: "map_ids m (n_inputs n) = Ok js" "\<forall>j \<in> set js. j < graph_len out"
      "map (value_at sem out) js = map (value_at sem g) (n_inputs n)"
    by (rule map_ids_mapped)
  define k where "k = key (n_op n) js (n_shape n)"
  have nd: "no_duplicates out" and bk: "\<And>k. set (bucket b k) = {i. i < graph_len out \<and>
      n_inputs (g_nodes out ! i) \<noteq> [] \<and> key (n_op (g_nodes out ! i))
        (n_inputs (g_nodes out ! i)) (n_shape (g_nodes out ! i)) = k}"
    using inv s by (auto simp: cse_inv_def)
  let ?out = "fst (copy_node out n js)"
  have new: "wf_nodes (g_nodes ?out)" "extends out ?out" "mapped sem sem g ?out (m(n_id n \<mapsto> graph_len out)) (n_id n)"
    using wf_copy_node [OF _ js(2)] wf' s
    unfolding mapped_def value_at_node [OF wf mem] by (simp_all add: value_at_copy_node js(3))
  have nodes: "g_nodes ?out ! i = (if i < graph_len out then g_nodes out ! i
      else n\<lparr>n_id := graph_len out, n_inputs := js\<rparr>)" if "i < Suc (graph_len out)" for i
    using that by (simp add: nth_append graph_len_def)
  show ?thesis
  proof (cases "js = []")
    case True
    have "no_duplicates ?out" using no_duplicates_copy [OF nd] True by simp
    then have "cse_inv key (?out, m(n_id n \<mapsto> graph_len out), b)"
      using bk True nodes by (auto simp: cse_inv_def less_Suc_eq)
    moreover have "cse_step key s n = Ok (?out, m(n_id n \<mapsto> graph_len out), b)"
      using js(1) True by (simp add: cse_step_def s split_beta)
    ultimately have "?post (?out, m(n_id n \<mapsto> graph_len out), b)" using new s by simp
    then show ?thesis by blast
  next
    case False
    have "\<forall>i \<in> set (bucket b k). i < graph_len out" using bk by simp
    note find = cse_find_cases [OF this, of n js]
    show ?thesis
    proof (cases "cse_find out n js (bucket b k) = Ok None")
      case True
      have "\<not> (n_inputs (g_nodes out ! e) = js \<and> n_shape (g_nodes out ! e) = n_shape n \<and>
          n_op (g_nodes out ! e) = n_op n)" if "e < graph_len out" for e
        using find True that False by (auto simp: bk k_def)
      then have nd': "no_duplicates ?out" using no_duplicates_copy [OF nd] by blast
      have "cse_inv key (?out, m(n_id n \<mapsto> graph_len out), b(k \<mapsto> bucket b k @ [graph_len out]))"
        using nd' False nodes bk
        by (auto simp: cse_inv_def bucket_def k_def less_Suc_eq split: if_splits)
      moreover have "cse_step key s n =
          Ok (?out, m(n_id n \<mapsto> graph_len out), b(k \<mapsto> bucket b k @ [graph_len out]))"
        using js(1) False True by (simp add: cse_step_def s split_beta k_def Let_def)
      ultimately have
        "?post (?out, m(n_id n \<mapsto> graph_len out), b(k \<mapsto> bucket b k @ [graph_len out]))"
        using new s by simp
      then show ?thesis by blast
    next
      case exists: False
      then obtain e where e: "e < graph_len out" "cse_find out n js (bucket b k) = Ok (Some e)"
          "n_inputs (g_nodes out ! e) = js" "n_shape (g_nodes out ! e) = n_shape n"
          "n_op (g_nodes out ! e) = n_op n"
        using find by (auto simp: bk)
      have "value_at sem out e = value_at sem g (n_id n)"
        unfolding value_at_node [OF wf mem] using value_at_wf [of out e sem] wf' s e js(3) by simp
      then have "mapped sem sem g out (m(n_id n \<mapsto> e)) (n_id n)" using e by (simp add: mapped_def)
      moreover have "cse_step key s n = Ok (out, m(n_id n \<mapsto> e), b)"
        using js(1) False e(2) by (simp add: cse_step_def s k_def Let_def)
      ultimately have "?post (out, m(n_id n \<mapsto> e), b)"
        using inv wf' s by (simp add: cse_inv_def)
      then show ?thesis by blast
    qed
  qed
qed

interpretation cse: node_rewrite sem sem "\<lambda>g. (graph_new (g_name g), Map.empty, Map.empty)"
  "\<lambda>_. cse_step key" fst "\<lambda>s. fst (snd s)" "\<lambda>_ _. True" "\<lambda>_ _. cse_inv key" "\<lambda>_. True"
  for sem :: "'v kernels" and key
proof unfold_locales
  show "cse_inv key (graph_new (g_name g), Map.empty, Map.empty)" for g
    by (simp add: cse_inv_def no_duplicates_def graph_new_def graph_len_def bucket_def)
next
  fix g :: graph and n s
  assume "wf_graph g" and "n \<in> set (g_nodes g)" and "cse_inv key s" and "wf_nodes (g_nodes (fst s))"
    and "True \<Longrightarrow> \<forall>i \<in> set (n_inputs n). mapped sem sem g (fst s) (fst (snd s)) i"
  then show "\<exists>s'. cse_step key s n = Ok s' \<and> cse_inv key s' \<and> wf_nodes (g_nodes (fst s')) \<and>
      extends (fst s) (fst s') \<and> (\<forall>i. i \<noteq> n_id n \<longrightarrow> fst (snd s') i = fst (snd s) i) \<and>
      (True \<longrightarrow> mapped sem sem g (fst s') (fst (snd s')) (n_id n))"
    using cse_step_ok [of g n key s sem] by blast
qed (simp_all add: graph_new_def)



text \<open>One pass is complete: in its result no two nodes that have inputs compute the
  same operator of the same inputs at the same shape.\<close>
theorem cse_complete:
  assumes "wf_graph g" and "cse_run key g = Ok g'"
  shows "no_duplicates g'"
proof -
  obtain out m b where "cse_inv key (out, m, b)" and "g_nodes g' = g_nodes out"
    using cse.rebuild_ok [OF assms(1), where key = key and sem = number_kernels] assms(2)
    by (auto simp: cse_run_def split_beta)
  then show ?thesis by (simp add: cse_inv_def no_duplicates_def graph_len_def)
qed

lemma cse_sample:
  "cse_run (\<lambda>_ _ _. 7) (sample_graph [2, 4]) = Ok ((graph_new ''g'')\<lparr>g_nodes :=
     [sample_node 0 (Input ''x'') [], sample_node 1 (Input ''y'') [],
      sample_node 2 (Binary Mul) [0, 1], sample_node 3 (Binary Add) [0, 1]],
     g_outputs := [2, 2]\<rparr>)"
  by (simp add: cse_run_def sample_graph_def sample_node_def graph_new_def node_at_def bucket_def
    cse_step_def map_ids_def copy_node_def add_node_def push_def push_ext_def rebuild_outputs_def
    set_outputs_def Let_def)

theorem cse_complete_witness:
  "no_duplicates ((graph_new ''g'')\<lparr>g_nodes :=
     [sample_node 0 (Input ''x'') [], sample_node 1 (Input ''y'') [],
      sample_node 2 (Binary Mul) [0, 1], sample_node 3 (Binary Add) [0, 1]],
     g_outputs := [2, 2]\<rparr>)"
  by (rule cse_complete [OF _ cse_sample]) (simp add: wf_sample_graph)

end
