(* ===== verification/LegalizeBroadcast.thy ===== *)
theory LegalizeBroadcast
  imports Rewrite
begin

text \<open>
  Broadcast legalization (\<open>crates/core/rlx-compile/src/legalize_broadcast.rs\<close>, with the
  attention geometry of \<open>crates/core/rlx-ir/src/attention_layout.rs\<close>).

  The CPU's binary kernels read operand \<open>x\<close> at \<open>x[i % x.len()]\<close>. The pass inserts an
  \<open>Expand\<close> before every operand that read would get wrong. The main theorem states it as
  the module does: the legalized graph under the modulo-reading kernels computes what the
  source computes under kernels that broadcast by strides. A cast of an extent to \<open>i64\<close>
  is the identity: an extent that has a buffer is below \<open>2 ^ 63\<close>.
\<close>

section \<open>The pass\<close>

definition shape_eq :: "shape \<Rightarrow> shape \<Rightarrow> bool" where
  "shape_eq a b \<longleftrightarrow> dims a = dims b \<and> shape_dtype a = shape_dtype b"

definition is_scalar :: "shape \<Rightarrow> bool" where
  "is_scalar s \<longleftrightarrow>
     prod_list (List.map_filter (\<lambda>d. case d of Static n \<Rightarrow> Some n | Dynamic _ \<Rightarrow> None) (dims s)) = 1"

definition is_clean_trailing_broadcast :: "shape \<Rightarrow> shape \<Rightarrow> bool" where
  "is_clean_trailing_broadcast src target =
     (let s_dims = dims src; t_dims = dims target in
      if length s_dims > length t_dims then False
      else let off = length t_dims - length s_dims in
        list_all (\<lambda>i. case (s_dims ! i, t_dims ! (off + i)) of
             (Static a, Static b) \<Rightarrow> a = b
           | (Dynamic a, Dynamic b) \<Rightarrow> a = b
           | _ \<Rightarrow> False) [0..<length s_dims])"

definition maybe_expand :: "node_id \<Rightarrow> shape \<Rightarrow> shape \<Rightarrow> graph \<Rightarrow> graph \<times> node_id" where
  "maybe_expand i src target out =
     (if shape_eq src target then (out, i)
      else if is_scalar src then (out, i)
      else if is_clean_trailing_broadcast src target then (out, i)
      else add_node out
        (Expand (map (\<lambda>d. case d of Static n \<Rightarrow> int n | Dynamic _ \<Rightarrow> -1) (dims target)))
        [i] target)"

fun is_binary :: "op \<Rightarrow> bool" where
  "is_binary (Binary b) = True"
| "is_binary _ = False"

definition legalize_node ::
  "node \<Rightarrow> graph \<Rightarrow> id_map \<Rightarrow> graph \<Rightarrow> (graph \<times> node_id) res" where
  "legalize_node n fwd m out =
     bind_outcome (map_ids m (n_inputs n)) (\<lambda>new_inputs.
       if is_binary (n_op n) \<and> length (n_inputs n) = 2 then
         bind_outcome (node_at fwd (n_inputs n ! 0)) (\<lambda>lhs.
         bind_outcome (node_at fwd (n_inputs n ! 1)) (\<lambda>rhs.
           case maybe_expand (new_inputs ! 0) (n_shape lhs) (n_shape n) out of (out1, lhs_id) \<Rightarrow>
           case maybe_expand (new_inputs ! 1) (n_shape rhs) (n_shape n) out1 of (out2, rhs_id) \<Rightarrow>
           Ok (add_node out2 (n_op n) [lhs_id, rhs_id] (n_shape n))))
       else Ok (add_node out (n_op n) new_inputs (n_shape n)))"

definition legalize_step :: "graph \<Rightarrow> graph \<times> id_map \<Rightarrow> node \<Rightarrow> (graph \<times> id_map) res" where
  "legalize_step fwd st n =
     (case st of (out, m) \<Rightarrow>
        bind_outcome (legalize_node n fwd m out) (\<lambda>(out', i). Ok (out', m(n_id n \<mapsto> i))))"

definition run_with_remap :: "graph \<Rightarrow> (graph \<times> id_map) res" where
  "run_with_remap g =
     bind_outcome (for_each (legalize_step g) (graph_new (g_name g), Map.empty) (g_nodes g))
       (\<lambda>(out, m). bind_outcome (rebuild_outputs g out m) (\<lambda>out'. Ok (out', m)))"

section \<open>Custom attention masks\<close>

record attn_geom =
  ag_batch :: nat
  ag_seq_q :: nat
  ag_seq_k :: nat
  ag_heads :: nat
  ag_head_dim :: nat
  ag_bhsd :: bool

definition attention_geom :: "shape \<Rightarrow> shape \<Rightarrow> nat \<Rightarrow> nat \<Rightarrow> attn_geom res" where
  "attention_geom q k num_heads head_dim =
     bind_outcome
       (if rank q = 4 then
          bind_outcome (static_at q 1) (\<lambda>d1.
          bind_outcome (static_at q 2) (\<lambda>d2.
            if d1 = num_heads then
              bind_outcome (static_at q 0) (\<lambda>b.
              bind_outcome (static_at k 2) (\<lambda>sk. Ok (b, d2, sk, True)))
            else
              bind_outcome (static_at q 0) (\<lambda>b.
              bind_outcome (static_at k 1) (\<lambda>sk. Ok (b, d1, sk, False)))))
        else if rank q \<ge> 3 then
          bind_outcome (static_at q 0) (\<lambda>b.
          bind_outcome (static_at q 1) (\<lambda>sq.
          bind_outcome (static_at k 1) (\<lambda>sk. Ok (b, sq, sk, False))))
        else
          bind_outcome (static_at q 0) (\<lambda>sq.
          bind_outcome (static_at k 0) (\<lambda>sk. Ok (1, sq, sk, False))))
       (\<lambda>(b, sq, sk, bhsd). Ok \<lparr>ag_batch = b, ag_seq_q = sq, ag_seq_k = sk,
          ag_heads = num_heads, ag_head_dim = head_dim, ag_bhsd = bhsd\<rparr>)"

fun custom_heads :: "op \<Rightarrow> (nat \<times> nat) option" where
  "custom_heads (Attention nh hdim vd mk sc sf) = (if mk = MaskCustom then Some (nh, hdim) else None)"
| "custom_heads _ = None"

text \<open>\<open>None\<close> in the result is the source's \<open>None\<close>: nothing to widen.\<close>

definition widen_custom_mask ::
  "node \<Rightarrow> graph \<Rightarrow> node_id list \<Rightarrow> graph \<Rightarrow> (graph \<times> node_id) option res" where
  "widen_custom_mask n fwd new_inputs out =
     (case custom_heads (n_op n) of
        None \<Rightarrow> Ok None
      | Some (nh, hdim) \<Rightarrow>
        if length (n_inputs n) < 4 then Ok None
        else
          bind_outcome (graph_shape fwd (n_inputs n ! 0)) (\<lambda>q_shape.
          bind_outcome (graph_shape fwd (n_inputs n ! 1)) (\<lambda>k_shape.
          bind_outcome (graph_shape fwd (n_inputs n ! 3)) (\<lambda>m_shape.
            if rank q_shape < 3 \<or> rank k_shape < 3 then Ok None
            else case num_elements m_shape of
              None \<Rightarrow> Ok None
            | Some m_elems \<Rightarrow>
              bind_outcome (attention_geom q_shape k_shape nh hdim) (\<lambda>geom.
                if ag_batch geom \<le> 1 \<or> m_elems \<noteq> ag_seq_k geom then Ok None
                else
                  let dt = shape_dtype m_shape; b = ag_batch geom; sk = ag_seq_k geom in
                  case add_node out (Reshape [1, int sk]) [new_inputs ! 3] (shape_new [1, sk] dt)
                  of (out1, flat) \<Rightarrow>
                  case add_node out1 (Expand [int b, int sk]) [flat] (shape_new [b, sk] dt)
                  of (out2, wide) \<Rightarrow>
                  Ok (Some (add_node out2 (n_op n) (new_inputs[3 := wide]) (n_shape n))))))))"

definition mask_step :: "graph \<Rightarrow> graph \<times> id_map \<Rightarrow> node \<Rightarrow> (graph \<times> id_map) res" where
  "mask_step fwd st n =
     (case st of (out, m) \<Rightarrow>
        bind_outcome (map_ids m (n_inputs n)) (\<lambda>new_inputs.
        bind_outcome (widen_custom_mask n fwd new_inputs out) (\<lambda>w.
          case (case w of Some p \<Rightarrow> p
                | None \<Rightarrow> add_node out (n_op n) new_inputs (n_shape n)) of
            (out', i) \<Rightarrow> Ok (out', m(n_id n \<mapsto> i)))))"

definition legalize_custom_attention_mask :: "graph \<Rightarrow> graph res" where
  "legalize_custom_attention_mask g =
     (if \<not> list_ex (\<lambda>n. custom_heads (n_op n) \<noteq> None) (g_nodes g) then Ok g
      else
        bind_outcome (for_each (mask_step g) (graph_new (g_name g), Map.empty) (g_nodes g))
          (\<lambda>(out, m). rebuild_outputs g out m))"

definition legalize_run :: "graph \<Rightarrow> graph res" where
  "legalize_run g =
     bind_outcome (run_with_remap g) (\<lambda>(out, m). legalize_custom_attention_mask out)"

section \<open>Tensors, strided and modulo reads\<close>

text \<open>A tensor is its extents and its elements in row-major order.\<close>

record 'a tensor =
  t_dims :: "nat list"
  t_data :: "'a list"

definition extents :: "shape \<Rightarrow> nat list" where
  "extents s = map (\<lambda>d. case d of Static n \<Rightarrow> n | Dynamic _ \<Rightarrow> 0) (dims s)"

text \<open>The operand index that broadcasting reads for output index \<open>i\<close>, both extent lists
  innermost first: an extent of 1 and a missing leading axis have stride 0.\<close>

fun bcast_index :: "nat list \<Rightarrow> nat list \<Rightarrow> nat \<Rightarrow> nat" where
  "bcast_index (s # ss) (t # ts) i =
     (if s = 1 then 0 else i mod t) + s * bcast_index ss ts (i div t)"
| "bcast_index _ _ i = 0"

definition bcast_read :: "'a tensor \<Rightarrow> nat list \<Rightarrow> nat \<Rightarrow> 'a" where
  "bcast_read x ds i = t_data x ! bcast_index (rev (t_dims x)) (rev ds) i"

definition modulo_read :: "'a tensor \<Rightarrow> nat list \<Rightarrow> nat \<Rightarrow> 'a" where
  "modulo_read x ds i = t_data x ! (i mod length (t_data x))"

text \<open>Kernels with a given way of reading the operands of \<open>Binary\<close>; \<open>f\<close> is the scalar
  arithmetic and \<open>other\<close> the data of every other operator.\<close>

definition tensor_kernels ::
  "('a tensor \<Rightarrow> nat list \<Rightarrow> nat \<Rightarrow> 'a) \<Rightarrow> (binary_op \<Rightarrow> 'a \<Rightarrow> 'a \<Rightarrow> 'a) \<Rightarrow>
   (op \<Rightarrow> shape \<Rightarrow> 'a tensor list \<Rightarrow> 'a list) \<Rightarrow> 'a tensor kernels" where
  "tensor_kernels rd f other opr s vs =
     \<lparr>t_dims = extents s, t_data =
        (case opr of
           Binary b \<Rightarrow>
             if length vs = 2
             then map (\<lambda>i. f b (rd (vs ! 0) (extents s) i) (rd (vs ! 1) (extents s) i))
                    [0..<prod_list (extents s)]
             else other opr s vs
         | Expand t \<Rightarrow> map (bcast_read (vs ! 0) (extents s)) [0..<prod_list (extents s)]
         | _ \<Rightarrow> other opr s vs)\<rparr>"

text \<open>The other kernels fill exactly the buffer of their shape.\<close>

definition sized :: "(op \<Rightarrow> shape \<Rightarrow> 'a tensor list \<Rightarrow> 'a list) \<Rightarrow> bool" where
  "sized other \<longleftrightarrow> (\<forall>opr s vs. length (other opr s vs) = prod_list (extents s))"

lemma tensor_kernels_size:
  "sized other \<Longrightarrow> t_dims (tensor_kernels rd f other opr s vs) = extents s \<and>
     length (t_data (tensor_kernels rd f other opr s vs)) = prod_list (extents s)"
  by (simp add: tensor_kernels_def sized_def split: op.split)

lemma value_size:
  assumes "sized other" and "wf_nodes (g_nodes g)" and "i < graph_len g"
  shows "t_dims (value_at (tensor_kernels rd f other) g i) = extents (n_shape (g_nodes g ! i))"
    and "length (t_data (value_at (tensor_kernels rd f other) g i)) =
      prod_list (extents (n_shape (g_nodes g ! i)))"
  unfolding value_at_wf [OF assms(2,3)] using tensor_kernels_size [OF assms(1)] by blast+

lemma bcast_index_clean: "bcast_index ss (ss @ us) i = i mod prod_list ss"
proof (induction ss arbitrary: i)
  case (Cons s ss)
  then show ?case by (auto simp: mod_mult2_eq)
qed simp

lemma bcast_index_ones: "\<forall>s \<in> set ss. s = 1 \<Longrightarrow> bcast_index ss ts i = 0"
  by (induction ss ts i rule: bcast_index.induct) auto

lemma same_dim:
  "(case (a, b) of (Static x, Static y) \<Rightarrow> x = y | (Dynamic x, Dynamic y) \<Rightarrow> x = y | _ \<Rightarrow> False)
     \<longleftrightarrow> a = b"
  by (cases a; cases b) auto

lemma clean_suffix:
  assumes "is_clean_trailing_broadcast src target"
  shows "\<exists>pre. dims target = pre @ dims src"
proof -
  let ?off = "length (dims target) - length (dims src)"
  have len: "length (dims src) \<le> length (dims target)"
    using assms by (auto simp: is_clean_trailing_broadcast_def Let_def split: if_splits)
  have "dims src ! i = dims target ! (?off + i)" if "i < length (dims src)" for i
    using assms that len unfolding is_clean_trailing_broadcast_def Let_def same_dim
    by (auto simp: list_all_iff split: if_splits)
  then have "dims src = drop ?off (dims target)"
    by (intro nth_equalityI) (use len in auto)
  then show ?thesis by (metis append_take_drop_id)
qed

lemma scalar_ones:
  assumes "list_all is_static (dims s)" and "is_scalar s"
  shows "\<forall>n \<in> set (extents s). n = 1"
proof -
  have "List.map_filter (\<lambda>d. case d of Static n \<Rightarrow> Some n | Dynamic _ \<Rightarrow> None) ds =
      map (\<lambda>d. case d of Static n \<Rightarrow> n | Dynamic _ \<Rightarrow> 0) ds" if "list_all is_static ds" for ds
    using that by (induction ds) (auto simp: List.map_filter_simps split: dim.split)
  then have "prod_list (extents s) = 1" using assms by (simp add: is_scalar_def extents_def)
  then show ?thesis by (simp only: prod_list_nat_1)
qed

text \<open>Where the pass leaves an operand alone, the modulo read is the broadcast read.\<close>

lemma modulo_read_clean:
  assumes st: "list_all is_static (dims src)"
    and ok: "shape_eq src target \<or> is_scalar src \<or> is_clean_trailing_broadcast src target"
    and x: "t_dims x = extents src" "length (t_data x) = prod_list (extents src)"
  shows "modulo_read x (extents target) i = bcast_read x (extents target) i"
proof (cases "is_scalar src")
  case True
  note ones = scalar_ones [OF st True]
  then have "prod_list (extents src) = 1" by (simp only: prod_list_nat_1)
  then show ?thesis using ones x bcast_index_ones by (simp add: modulo_read_def bcast_read_def)
next
  case False
  then obtain pre where "dims target = pre @ dims src"
    using ok clean_suffix by (auto simp: shape_eq_def)
  then have "rev (extents target) = rev (extents src) @ rev (extents \<lparr>dims = pre, shape_dtype = F32\<rparr>)"
    by (simp add: extents_def)
  then have "bcast_index (rev (extents src)) (rev (extents target)) i = i mod prod_list (extents src)"
    by (simp add: bcast_index_clean)
  then show ?thesis using x by (simp add: modulo_read_def bcast_read_def)
qed

lemma modulo_read_expanded:
  assumes "i < prod_list ds" and "t_data y = map (bcast_read x ds) [0..<prod_list ds]"
  shows "modulo_read y ds i = bcast_read x ds i"
  using assms by (simp add: modulo_read_def)

section \<open>Correctness of the binary legalization\<close>

definition legal_operand :: "shape \<Rightarrow> shape \<Rightarrow> bool" where
  "legal_operand src target \<longleftrightarrow>
     shape_eq src target \<or> is_scalar src \<or> is_clean_trailing_broadcast src target"

definition legal_node :: "graph \<Rightarrow> node \<Rightarrow> bool" where
  "legal_node g n \<longleftrightarrow> (is_binary (n_op n) \<and> length (n_inputs n) = 2 \<longrightarrow>
     (\<forall>j \<in> set (n_inputs n). legal_operand (n_shape (g_nodes g ! j)) (n_shape n)))"

definition binary_legal :: "graph \<Rightarrow> bool" where
  "binary_legal g \<longleftrightarrow> (\<forall>n \<in> set (g_nodes g). legal_node g n)"

abbreviation reference_kernels where
  "reference_kernels \<equiv> tensor_kernels bcast_read"

abbreviation modulo_kernels where
  "modulo_kernels \<equiv> tensor_kernels modulo_read"

lemma binary_legal_add_node:
  assumes "binary_legal g" and wf: "wf_nodes (g_nodes g)" and ins: "\<forall>j \<in> set ins. j < graph_len g"
    and "is_binary opr \<Longrightarrow> length ins = 2 \<Longrightarrow>
      \<forall>j \<in> set ins. legal_operand (n_shape (g_nodes g ! j)) s"
  shows "binary_legal (fst (add_node g opr ins s))"
proof -
  have "legal_node (fst (add_node g opr ins s)) n" if n: "n \<in> set (g_nodes g)" for n
  proof -
    have "\<forall>j \<in> set (n_inputs n). j < graph_len g"
      using wf_nodes_member(3) [OF wf n] by (simp add: graph_len_def)
    then show ?thesis using assms(1) n by (auto simp: binary_legal_def legal_node_def nth_append graph_len_def)
  qed
  moreover have "legal_node (fst (add_node g opr ins s)) \<lparr>n_id = graph_len g, n_op = opr,
      n_inputs = ins, n_shape = s, n_name = None, n_origin = None\<rparr>"
    using assms(4) ins by (auto simp: legal_node_def nth_append graph_len_def)
  ultimately show ?thesis by (auto simp: binary_legal_def)
qed

lemma maybe_expand_ok:
  assumes sz: "sized other" and wf: "wf_nodes (g_nodes out)" and i: "i < graph_len out"
    and src: "n_shape (g_nodes out ! i) = src" and st: "list_all is_static (dims src)"
    and leg: "binary_legal out" and eq: "maybe_expand i src target out = (out', i')"
  shows "wf_nodes (g_nodes out')" and "extends out out'" and "i' < graph_len out'"
    and "binary_legal out'" and "legal_operand (n_shape (g_nodes out' ! i')) target"
    and "k < prod_list (extents target) \<Longrightarrow>
      modulo_read (value_at (modulo_kernels f other) out' i') (extents target) k =
      bcast_read (value_at (modulo_kernels f other) out i) (extents target) k"
proof -
  let ?K = "modulo_kernels f other"
  have "wf_nodes (g_nodes out') \<and> extends out out' \<and> i' < graph_len out' \<and> binary_legal out' \<and>
    legal_operand (n_shape (g_nodes out' ! i')) target \<and>
    (k < prod_list (extents target) \<longrightarrow>
      modulo_read (value_at ?K out' i') (extents target) k = bcast_read (value_at ?K out i) (extents target) k)"
  proof (cases "legal_operand src target")
    case True
    then have same: "out' = out" "i' = i"
      using eq by (auto simp: maybe_expand_def legal_operand_def split: if_splits)
    have "modulo_read (value_at ?K out i) (extents target) k = bcast_read (value_at ?K out i) (extents target) k"
      by (rule modulo_read_clean [OF st])
        (use True value_size [OF sz wf i] src in \<open>auto simp: legal_operand_def\<close>)
    then show ?thesis using same wf i leg True src by simp
  next
    case False
    then obtain t where new: "add_node out (Expand t) [i] target = (out', i')"
      using eq by (auto simp: maybe_expand_def legal_operand_def split: if_splits)
    let ?out = "fst (add_node out (Expand t) [i] target)"
    have same: "out' = ?out" "i' = graph_len out" using new by (metis fst_conv, metis add_node_simps(2) snd_conv)
    have "binary_legal ?out" by (rule binary_legal_add_node [OF leg wf]) (use i in auto)
    moreover have "t_data (value_at ?K ?out (graph_len out)) =
        map (bcast_read (value_at ?K out i) (extents target)) [0..<prod_list (extents target)]"
      by (simp add: value_at_add_node tensor_kernels_def)
    moreover have "legal_operand (n_shape (g_nodes ?out ! graph_len out)) target"
      by (simp add: graph_len_def legal_operand_def shape_eq_def)
    moreover have "modulo_read (value_at ?K ?out (graph_len out)) (extents target) k =
        bcast_read (value_at ?K out i) (extents target) k" if "k < prod_list (extents target)"
      using that calculation(2) by (rule modulo_read_expanded)
    ultimately show ?thesis
      using same wf_add_node [OF wf, of "[i]"] i by simp
  qed
  then show "wf_nodes (g_nodes out')" "extends out out'" "i' < graph_len out'"
    "binary_legal out'" "legal_operand (n_shape (g_nodes out' ! i')) target"
    "k < prod_list (extents target) \<Longrightarrow> modulo_read (value_at ?K out' i') (extents target) k =
      bcast_read (value_at ?K out i) (extents target) k"
    by blast+
qed

text \<open>After the first \<open>k\<close> nodes: the new graph is legal, and the map keeps shapes.\<close>

definition shapes_kept :: "graph \<Rightarrow> graph \<Rightarrow> id_map \<Rightarrow> bool" where
  "shapes_kept g out m \<longleftrightarrow>
     (\<forall>i j. m i = Some j \<longrightarrow> j < graph_len out \<and> n_shape (g_nodes out ! j) = n_shape (g_nodes g ! i))"

definition legalize_inv :: "graph \<Rightarrow> graph \<times> id_map \<Rightarrow> bool" where
  "legalize_inv g st \<longleftrightarrow> binary_legal (fst st) \<and> shapes_kept g (fst st) (snd st)"

lemma shapes_kept_extends:
  "shapes_kept g out m \<Longrightarrow> extends out out' \<Longrightarrow> shapes_kept g out' m"
  unfolding shapes_kept_def using extends_len extends_node by (metis order_less_le_trans)

lemma static_shape: "\<not> has_dynamic_dims g \<Longrightarrow> i < graph_len g \<Longrightarrow>
    list_all is_static (dims (n_shape (g_nodes g ! i)))"
  by (auto simp: has_dynamic_dims_def list_ex_iff list_all_iff graph_len_def)

lemma modulo_binary_value:
  assumes "\<And>k. k < prod_list (extents s) \<Longrightarrow> modulo_read l' (extents s) k = bcast_read l (extents s) k"
    and "\<And>k. k < prod_list (extents s) \<Longrightarrow> modulo_read r' (extents s) k = bcast_read r (extents s) k"
  shows "modulo_kernels f other (Binary b) s [l', r'] = reference_kernels f other (Binary b) s [l, r]"
  using assms by (simp add: tensor_kernels_def)

lemma kernels_agree:
  "\<not> (is_binary opr \<and> length vs = 2) \<Longrightarrow>
   modulo_kernels f other opr s vs = reference_kernels f other opr s vs"
  by (cases opr) (auto simp: tensor_kernels_def)

lemma legalize_node_binary:
  assumes sz: "sized other" and dyn: "\<not> has_dynamic_dims g" and wf: "wf_graph g"
    and n: "n \<in> set (g_nodes g)" "is_binary (n_op n)" "length (n_inputs n) = 2"
    and out: "wf_nodes (g_nodes out)" "binary_legal out" "shapes_kept g out m"
    and ins: "\<forall>i \<in> set (n_inputs n).
      mapped (reference_kernels f other) (modulo_kernels f other) g out m i"
  obtains out2 l r where "legalize_node n g m out = Ok (add_node out2 (n_op n) [l, r] (n_shape n))"
    "wf_nodes (g_nodes out2)" "extends out out2" "l < graph_len out2" "r < graph_len out2"
    "binary_legal (fst (add_node out2 (n_op n) [l, r] (n_shape n)))"
    "value_at (modulo_kernels f other) (fst (add_node out2 (n_op n) [l, r] (n_shape n))) (graph_len out2)
       = value_at (reference_kernels f other) g (n_id n)"
proof -
  let ?R = "reference_kernels f other" and ?K = "modulo_kernels f other"
  obtain a b where ab: "n_inputs n = [a, b]"
    using n(3) by (metis (no_types, opaque_lifting) length_0_conv length_Suc_conv numeral_2_eq_2)
  obtain i j where ij: "m a = Some i" "m b = Some j" "i < graph_len out" "j < graph_len out"
      "value_at ?K out i = value_at ?R g a" "value_at ?K out j = value_at ?R g b"
    using ins ab by (auto simp: mapped_def)
  have len: "a < graph_len g" "b < graph_len g"
    using wf_nodes_member(3) [OF _ n(1)] wf ab by (auto simp: wf_graph_def graph_len_def)
  have sh: "n_shape (g_nodes out ! i) = n_shape (g_nodes g ! a)"
      "n_shape (g_nodes out ! j) = n_shape (g_nodes g ! b)"
    using out(3) ij by (auto simp: shapes_kept_def)
  obtain out1 l where e1: "maybe_expand i (n_shape (g_nodes g ! a)) (n_shape n) out = (out1, l)"
    by fastforce
  note A = maybe_expand_ok [OF sz out(1) ij(3) sh(1) static_shape [OF dyn len(1)] out(2) e1]
  obtain out2 r where e2: "maybe_expand j (n_shape (g_nodes g ! b)) (n_shape n) out1 = (out2, r)"
    by fastforce
  have j1: "j < graph_len out1" "n_shape (g_nodes out1 ! j) = n_shape (g_nodes g ! b)"
      "value_at ?K out1 j = value_at ?R g b"
    using extends_len [OF A(2)] extends_node [OF A(2) ij(4)] extends_value [OF A(2) ij(4), of ?K] ij sh
    by auto
  note B = maybe_expand_ok [OF sz A(1) j1(1,2) static_shape [OF dyn len(2)] A(4) e2]
  have l2: "l < graph_len out2" "n_shape (g_nodes out2 ! l) = n_shape (g_nodes out1 ! l)"
      "value_at ?K out2 l = value_at ?K out1 l"
    using extends_len [OF B(2)] extends_node [OF B(2) A(3)] extends_value [OF B(2) A(3), of ?K] A(3) by auto
  obtain bop where bop: "n_op n = Binary bop" using n(2) by (cases "n_op n") auto
  have "?K (n_op n) (n_shape n) [value_at ?K out2 l, value_at ?K out2 r] =
      ?R (n_op n) (n_shape n) [value_at ?R g a, value_at ?R g b]"
    unfolding bop by (rule modulo_binary_value) (use A(6) B(6) l2(3) ij j1(3) in auto)
  then have val: "value_at ?K (fst (add_node out2 (n_op n) [l, r] (n_shape n))) (graph_len out2)
      = value_at ?R g (n_id n)"
    unfolding value_at_node [OF wf n(1)] value_at_add_node by (simp add: ab)
  have leg: "binary_legal (fst (add_node out2 (n_op n) [l, r] (n_shape n)))"
    using A(5) B(5) l2 by (intro binary_legal_add_node [OF B(4,1)]) (auto simp: B(3))
  have "legalize_node n g m out = Ok (add_node out2 (n_op n) [l, r] (n_shape n))"
    using n ab ij len e1 e2 by (simp add: legalize_node_def map_ids_def)
  then show thesis
    using that [OF _ B(1) extends_trans [OF A(2) B(2)] l2(1) B(3) leg val] by blast
qed

lemma legalize_step_ok:
  assumes sz: "sized other" and dyn: "\<not> has_dynamic_dims g" and wf: "wf_graph g"
    and n: "n \<in> set (g_nodes g)" and inv: "legalize_inv g s" and wf': "wf_nodes (g_nodes (fst s))"
    and ins: "\<forall>i \<in> set (n_inputs n).
      mapped (reference_kernels f other) (modulo_kernels f other) g (fst s) (snd s) i"
  shows "\<exists>s'. legalize_step g s n = Ok s' \<and> legalize_inv g s' \<and> wf_nodes (g_nodes (fst s')) \<and>
      extends (fst s) (fst s') \<and> (\<forall>i. i \<noteq> n_id n \<longrightarrow> snd s' i = snd s i) \<and>
      mapped (reference_kernels f other) (modulo_kernels f other) g (fst s') (snd s') (n_id n)"
proof -
  let ?R = "reference_kernels f other" and ?K = "modulo_kernels f other"
  obtain out m where s: "s = (out, m)" by (cases s)
  have leg: "binary_legal out" and sk: "shapes_kept g out m" and wfo: "wf_nodes (g_nodes out)"
    using inv wf' by (simp_all add: legalize_inv_def s)
  have ins': "\<forall>i \<in> set (n_inputs n). mapped ?R ?K g out m i" using ins s by simp
  have self: "g_nodes g ! n_id n = n" using wf n wf_nodes_member by (auto simp: wf_graph_def)
  have fin: ?thesis
    if node: "legalize_node n g m out = Ok (add_node out2 (n_op n) js (n_shape n))"
      and wf2: "wf_nodes (g_nodes out2)" and ext: "extends out out2"
      and js: "\<forall>j \<in> set js. j < graph_len out2"
      and leg2: "binary_legal (fst (add_node out2 (n_op n) js (n_shape n)))"
      and val: "value_at ?K (fst (add_node out2 (n_op n) js (n_shape n))) (graph_len out2) =
        value_at ?R g (n_id n)" for out2 js
  proof -
    let ?out = "fst (add_node out2 (n_op n) js (n_shape n))" and ?m = "m(n_id n \<mapsto> graph_len out2)"
    have ext': "extends out ?out" using ext extends_add_node by (rule extends_trans)
    have "shapes_kept g ?out ?m"
      using shapes_kept_extends [OF sk ext'] self
      by (auto simp: shapes_kept_def graph_len_def)
    then have "legalize_inv g (?out, ?m)" using leg2 by (simp add: legalize_inv_def)
    moreover have "legalize_step g s n = Ok (?out, ?m)"
      using node by (simp add: legalize_step_def s split_beta)
    moreover have "mapped ?R ?K g ?out ?m (n_id n)" using val by (simp add: mapped_def)
    ultimately show ?thesis
      using wf_add_node [OF wf2 js] ext' by (intro exI [of _ "(?out, ?m)"]) (simp add: s)
  qed
  show ?thesis
  proof (cases "is_binary (n_op n) \<and> length (n_inputs n) = 2")
    case True
    then obtain out2 l r where
      "legalize_node n g m out = Ok (add_node out2 (n_op n) [l, r] (n_shape n))"
      "wf_nodes (g_nodes out2)" "extends out out2" "l < graph_len out2" "r < graph_len out2"
      "binary_legal (fst (add_node out2 (n_op n) [l, r] (n_shape n)))"
      "value_at ?K (fst (add_node out2 (n_op n) [l, r] (n_shape n))) (graph_len out2) =
        value_at ?R g (n_id n)"
      using legalize_node_binary [OF sz dyn wf n _ _ wfo leg sk ins'] by blast
    then show ?thesis by (intro fin) auto
  next
    case False
    obtain js where js: "map_ids m (n_inputs n) = Ok js" "length js = length (n_inputs n)"
        "\<forall>j \<in> set js. j < graph_len out" "map (value_at ?K out) js = map (value_at ?R g) (n_inputs n)"
      using ins' by (rule map_ids_mapped)
    show ?thesis
    proof (rule fin [OF _ wfo extends_refl js(3)])
      show "legalize_node n g m out = Ok (add_node out (n_op n) js (n_shape n))"
        using False js(1) by (auto simp: legalize_node_def)
      show "binary_legal (fst (add_node out (n_op n) js (n_shape n)))"
        using False js by (intro binary_legal_add_node [OF leg wfo]) auto
      show "value_at ?K (fst (add_node out (n_op n) js (n_shape n))) (graph_len out) =
          value_at ?R g (n_id n)"
        unfolding value_at_node [OF wf n] value_at_add_node js(4)
        by (rule kernels_agree) (use False in simp)
    qed
  qed
qed

interpretation lb: node_rewrite "tensor_kernels bcast_read f other" "tensor_kernels modulo_read f other"
  "\<lambda>g. (graph_new (g_name g), Map.empty)" legalize_step fst snd "\<lambda>_ _. True"
  "\<lambda>g _. legalize_inv g" "\<lambda>g. sized other \<and> \<not> has_dynamic_dims g" for f other
proof unfold_locales
  show "legalize_inv g (graph_new (g_name g), Map.empty)" for g
    by (simp add: legalize_inv_def binary_legal_def graph_new_def shapes_kept_def)
next
  fix g :: graph and n s
  assume "wf_graph g" "sized other \<and> \<not> has_dynamic_dims g" "n \<in> set (g_nodes g)"
    "legalize_inv g s" "wf_nodes (g_nodes (fst s))"
    "True \<Longrightarrow> \<forall>i \<in> set (n_inputs n).
      mapped (tensor_kernels bcast_read f other) (tensor_kernels modulo_read f other) g (fst s) (snd s) i"
  then show "\<exists>s'. legalize_step g s n = Ok s' \<and> legalize_inv g s' \<and> wf_nodes (g_nodes (fst s')) \<and>
      extends (fst s) (fst s') \<and> (\<forall>i. i \<noteq> n_id n \<longrightarrow> snd s' i = snd s i) \<and>
      (True \<longrightarrow> mapped (tensor_kernels bcast_read f other) (tensor_kernels modulo_read f other)
        g (fst s') (snd s') (n_id n))"
    using legalize_step_ok [of other g n s f] by blast
qed (simp_all add: graph_new_def)

lemma has_dynamic_add_node:
  "has_dynamic_dims (fst (add_node g opr ins s)) \<longleftrightarrow>
     has_dynamic_dims g \<or> \<not> list_all is_static (dims s)"
  by (auto simp: has_dynamic_dims_def list_ex_iff list_all_iff)

lemma add_node_static:
  "add_node g opr ins s = (a, b) \<Longrightarrow> has_dynamic_dims a \<Longrightarrow> list_all is_static (dims s) \<Longrightarrow>
     has_dynamic_dims g"
  using has_dynamic_add_node [of g opr ins s] by simp

lemma maybe_expand_static:
  "\<not> has_dynamic_dims out \<Longrightarrow> list_all is_static (dims target) \<Longrightarrow>
   \<not> has_dynamic_dims (fst (maybe_expand i src target out))"
  by (simp add: maybe_expand_def has_dynamic_add_node)

lemma legalize_step_static:
  assumes "legalize_step g s n = Ok s'" and "\<not> has_dynamic_dims (fst s)"
    and "list_all is_static (dims (n_shape n))"
  shows "\<not> has_dynamic_dims (fst s')"
  using assms maybe_expand_static
  by (auto simp: legalize_step_def legalize_node_def outcome_simps split_beta
      dest!: add_node_static split: if_splits)

lemma run_with_remap_static:
  assumes "run_with_remap g = Ok (g', m)" and "\<not> has_dynamic_dims g"
  shows "\<not> has_dynamic_dims g'"
proof -
  obtain s where loop: "for_each (legalize_step g) (graph_new (g_name g), Map.empty) (g_nodes g) = Ok s"
      and nodes: "g_nodes g' = g_nodes (fst s)"
    using assms(1)
    by (auto simp: run_with_remap_def outcome_simps split_beta rebuild_outputs_def set_outputs_def)
  have "\<not> has_dynamic_dims (fst s)"
  proof (rule for_each_invariant [OF loop])
    show "\<not> has_dynamic_dims (fst (graph_new (g_name g), Map.empty))"
      by (simp add: has_dynamic_dims_def graph_new_def)
    show "\<not> has_dynamic_dims (fst t)" if "n \<in> set (g_nodes g)" "\<not> has_dynamic_dims (fst s)"
      "legalize_step g s n = Ok t" for s n t
      using legalize_step_static [OF that(3,2)] that(1) assms(2)
      by (auto simp: has_dynamic_dims_def list_ex_iff list_all_iff)
  qed
  then show ?thesis using nodes by (simp add: has_dynamic_dims_def)
qed

section \<open>Correctness of the mask widening\<close>

text \<open>What the pass relies on: a reshape copies, and an attention kernel given one row of a
  custom mask means that row for every batch entry.\<close>

definition reshape_copies :: "(op \<Rightarrow> shape \<Rightarrow> 'a tensor list \<Rightarrow> 'a list) \<Rightarrow> bool" where
  "reshape_copies other \<longleftrightarrow>
     (\<forall>t s x. prod_list (extents s) = length (t_data x) \<longrightarrow> other (Reshape t) s [x] = t_data x)"

definition row_per_batch :: "nat \<Rightarrow> 'a tensor \<Rightarrow> 'a tensor" where
  "row_per_batch b mk =
     (let sk = length (t_data mk) in
      \<lparr>t_dims = [b, sk], t_data = map (\<lambda>i. t_data mk ! (i mod sk)) [0..<b * sk]\<rparr>)"

definition mask_row_broadcasts :: "(op \<Rightarrow> shape \<Rightarrow> 'a tensor list \<Rightarrow> 'a list) \<Rightarrow> bool" where
  "mask_row_broadcasts other \<longleftrightarrow>
     (\<forall>opr s vs. custom_heads opr \<noteq> None \<longrightarrow> 4 \<le> length vs \<longrightarrow> 3 \<le> length (t_dims (vs ! 0)) \<longrightarrow>
        other opr s (vs[3 := row_per_batch (t_dims (vs ! 0) ! 0) (vs ! 3)]) = other opr s vs)"

lemma expand_row:
  assumes "t_dims x = [1, sk]" and "length (t_data x) = sk"
  shows "tensor_kernels rd f other (Expand t) (shape_new [b, sk] dt) [x] = row_per_batch b x"
proof -
  have "bcast_read x [b, sk] i = t_data x ! (i mod sk)" for i
    using assms by (simp add: bcast_read_def)
  then show ?thesis
    using assms(2) by (simp add: tensor_kernels_def extents_def shape_new_def row_per_batch_def Let_def)
qed

lemma custom_kernel:
  "custom_heads opr \<noteq> None \<Longrightarrow>
   tensor_kernels rd f other opr s vs = \<lparr>t_dims = extents s, t_data = other opr s vs\<rparr>"
  by (cases opr) (simp_all add: tensor_kernels_def)

lemma attention_geom_Ok:
  assumes "list_all is_static (dims q)" "list_all is_static (dims k)" "3 \<le> rank q" "3 \<le> rank k"
  obtains geom where "attention_geom q k nh hdim = Ok geom" "ag_batch geom = extents q ! 0"
proof -
  have st: "\<exists>n. static_at s i = Ok n \<and> extents s ! i = n"
    if "list_all is_static (dims s)" "i < rank s" for s i
    using that by (cases "dims s ! i")
      (auto simp: static_at_def dim_at_def rank_def list_all_length extents_def)
  have q: "\<And>i. i < rank q \<Longrightarrow> \<exists>n. static_at q i = Ok n \<and> extents q ! i = n"
    and k: "\<And>i. i < rank k \<Longrightarrow> \<exists>n. static_at k i = Ok n \<and> extents k ! i = n"
    using st assms by blast+
  have "\<exists>geom. attention_geom q k nh hdim = Ok geom \<and> ag_batch geom = extents q ! 0"
    using q [of 0] q [of 1] q [of 2] k [of 1] k [of 2] assms(3,4)
    by (auto simp: attention_geom_def)
  then show thesis using that by blast
qed

lemma mask_step_ok:
  fixes rd :: "'a tensor \<Rightarrow> nat list \<Rightarrow> nat \<Rightarrow> 'a"
  assumes hyp: "sized other" "reshape_copies other" "mask_row_broadcasts other"
    and dyn: "\<not> has_dynamic_dims g" and wf: "wf_graph g" and n: "n \<in> set (g_nodes g)"
    and wf': "wf_nodes (g_nodes (fst s))"
    and ins: "\<forall>i \<in> set (n_inputs n).
      mapped (tensor_kernels rd f other) (tensor_kernels rd f other) g (fst s) (snd s) i"
  shows "\<exists>s'. mask_step g s n = Ok s' \<and> wf_nodes (g_nodes (fst s')) \<and>
      extends (fst s) (fst s') \<and> (\<forall>i. i \<noteq> n_id n \<longrightarrow> snd s' i = snd s i) \<and>
      mapped (tensor_kernels rd f other) (tensor_kernels rd f other) g (fst s') (snd s') (n_id n)"
proof -
  let ?K = "tensor_kernels rd f other"
  obtain out m where s: "s = (out, m)" by (cases s)
  have wfo: "wf_nodes (g_nodes out)" using wf' s by simp
  have wfg: "wf_nodes (g_nodes g)" using wf by (simp add: wf_graph_def)
  have "\<forall>i \<in> set (n_inputs n). mapped ?K ?K g out m i" using ins s by simp
  then obtain js where js: "map_ids m (n_inputs n) = Ok js" "length js = length (n_inputs n)"
      "\<forall>j \<in> set js. j < graph_len out" "map (value_at ?K out) js = map (value_at ?K g) (n_inputs n)"
    by (rule map_ids_mapped)
  have fin: ?thesis
    if "mask_step g s n = Ok (fst (add_node out2 (n_op n) ks (n_shape n)), m(n_id n \<mapsto> graph_len out2))"
      and "wf_nodes (g_nodes out2)" and "extends out out2" and "\<forall>j \<in> set ks. j < graph_len out2"
      and "?K (n_op n) (n_shape n) (map (value_at ?K out2) ks) = value_at ?K g (n_id n)" for out2 ks
    using that wf_add_node [OF that(2,4)] extends_trans [OF that(3) extends_add_node]
    by (intro exI [of _ "(fst (add_node out2 (n_op n) ks (n_shape n)), m(n_id n \<mapsto> graph_len out2))"])
      (simp add: s mapped_def value_at_add_node)
  have vn: "?K (n_op n) (n_shape n) (map (value_at ?K out) js) = value_at ?K g (n_id n)"
    unfolding value_at_node [OF wf n] js(4) ..
  show ?thesis
  proof (cases "widen_custom_mask n g js out = Ok None")
    case True
    then have "mask_step g s n =
        Ok (fst (add_node out (n_op n) js (n_shape n)), m(n_id n \<mapsto> graph_len out))"
      using js(1) by (simp add: mask_step_def s split_beta)
    then show ?thesis by (rule fin [OF _ wfo extends_refl js(3) vn])
  next
    case False
    then obtain nh hdim where op: "custom_heads (n_op n) = Some (nh, hdim)"
      by (auto simp: widen_custom_mask_def split: option.splits)
    have len4: "4 \<le> length (n_inputs n)"
      by (rule ccontr) (use False op in \<open>simp add: widen_custom_mask_def\<close>)
    let ?sh = "\<lambda>k. n_shape (g_nodes g ! (n_inputs n ! k))"
    have il: "n_inputs n ! k < graph_len g" if "k < 4" for k
      using wf_nodes_member(3) [OF wfg n] len4 that by (simp add: graph_len_def)
    then have gs: "graph_shape g (n_inputs n ! k) = Ok (?sh k)" if "k < 4" for k
      using that by (simp add: graph_shape_def)
    have rk: "3 \<le> rank (?sh 0)" "3 \<le> rank (?sh 1)"
      by (rule ccontr, use False op len4 gs in \<open>simp add: widen_custom_mask_def\<close>)+
    obtain geom where geom: "attention_geom (?sh 0) (?sh 1) nh hdim = Ok geom"
        "ag_batch geom = extents (?sh 0) ! 0"
      using attention_geom_Ok [OF static_shape [OF dyn] static_shape [OF dyn] rk] il by auto
    have "1 < ag_batch geom \<and> num_elements (?sh 3) = Some (ag_seq_k geom)"
      by (rule ccontr, use False op len4 gs rk geom(1) in
        \<open>cases "num_elements (?sh 3)"; auto simp: widen_custom_mask_def split: if_splits\<close>)
    then have b: "1 < ag_batch geom" and me: "num_elements (?sh 3) = Some (ag_seq_k geom)" by auto
    let ?b = "ag_batch geom" and ?sk = "ag_seq_k geom" and ?dt = "shape_dtype (?sh 3)"
    define out1 where "out1 = fst (add_node out (Reshape [1, int ?sk]) [js ! 3] (shape_new [1, ?sk] ?dt))"
    define out2 where "out2 = fst (add_node out1 (Expand [int ?b, int ?sk]) [graph_len out]
        (shape_new [?b, ?sk] ?dt))"
    let ?ks = "js[3 := graph_len out1]"
    have step: "mask_step g s n =
        Ok (fst (add_node out2 (n_op n) ?ks (n_shape n)), m(n_id n \<mapsto> graph_len out2))"
      using js(1) op len4 gs rk geom(1) me b
      by (simp add: mask_step_def s widen_custom_mask_def split_beta Let_def out2_def out1_def)
    have l3: "3 < length js" using len4 js(2) by simp
    have j3: "js ! 3 < graph_len out" using js(3) l3 by simp
    have wf1: "wf_nodes (g_nodes out1)" unfolding out1_def using wf_add_node [OF wfo] j3 by simp
    have len1: "graph_len out1 = Suc (graph_len out)" by (simp add: out1_def)
    have wf2: "wf_nodes (g_nodes out2)" unfolding out2_def using wf_add_node [OF wf1] len1 by simp
    have len2: "graph_len out2 = Suc (graph_len out1)" by (simp add: out2_def)
    have e1: "extends out out1" and e2: "extends out1 out2" by (simp_all add: out1_def out2_def)
    have ks: "\<forall>j \<in> set ?ks. j < graph_len out2"
    proof
      fix j assume "j \<in> set ?ks"
      then have "j = graph_len out1 \<or> j \<in> set js" using set_update_subset_insert by fastforce
      then show "j < graph_len out2" using js(3) len1 len2 by auto
    qed
    let ?mk = "value_at ?K g (n_inputs n ! 3)" and ?vs = "map (value_at ?K g) (n_inputs n)"
    have v3: "value_at ?K out (js ! 3) = ?mk"
      using js(4) l3 js(2) by (metis nth_map)
    obtain ns where ns: "dims (?sh 3) = map Static ns" "?sk = prod_list ns"
      by (rule num_elements_Some [OF me])
    have "extents (?sh 3) = ns" unfolding extents_def ns(1) by (simp add: comp_def)
    then have mk: "length (t_data ?mk) = ?sk"
      using value_size(2) [OF hyp(1) wfg il [of 3], of rd f] ns(2) by simp
    have flat: "value_at ?K out1 (graph_len out) = \<lparr>t_dims = [1, ?sk], t_data = t_data ?mk\<rparr>"
      using hyp(2) mk unfolding out1_def value_at_add_node
      by (simp add: v3 tensor_kernels_def extents_def shape_new_def reshape_copies_def)
    have wide: "value_at ?K out2 (graph_len out1) = row_per_batch ?b ?mk"
      unfolding out2_def value_at_add_node
      by (simp add: flat expand_row mk) (simp add: row_per_batch_def)
    have keep: "value_at ?K out2 j = value_at ?K out j" if "j < graph_len out" for j
      using extends_value [OF extends_trans [OF e1 e2] that] .
    have "map (value_at ?K out2) ?ks = (map (value_at ?K out2) js)[3 := row_per_batch ?b ?mk]"
      by (simp add: map_update wide)
    also have "map (value_at ?K out2) js = ?vs" using keep js(3,4) by (simp cong: map_cong)
    finally have vs: "map (value_at ?K out2) ?ks = ?vs[3 := row_per_batch ?b (?vs ! 3)]"
      using len4 by simp
    have "t_dims (?vs ! 0) = extents (?sh 0)"
      using value_size(1) [OF hyp(1) wfg il [of 0], of rd f] len4
      by (cases "n_inputs n") simp_all
    moreover have "3 \<le> length (extents (?sh 0))" using rk(1) by (simp add: rank_def extents_def)
    ultimately have "other (n_op n) (n_shape n) (?vs[3 := row_per_batch ?b (?vs ! 3)]) =
        other (n_op n) (n_shape n) ?vs"
      using hyp(3) op len4 geom(2) unfolding mask_row_broadcasts_def
      by (metis length_map option.distinct(1))
    then have "?K (n_op n) (n_shape n) (map (value_at ?K out2) ?ks) = value_at ?K g (n_id n)"
      unfolding vs value_at_node [OF wf n] using op by (simp add: custom_kernel)
    then show ?thesis by (rule fin [OF step wf2 extends_trans [OF e1 e2] ks])
  qed
qed

interpretation cm: node_rewrite "tensor_kernels rd f other" "tensor_kernels rd f other"
  "\<lambda>g. (graph_new (g_name g), Map.empty)" mask_step fst snd "\<lambda>_ _. True" "\<lambda>_ _ _. True"
  "\<lambda>g. sized other \<and> reshape_copies other \<and> mask_row_broadcasts other \<and> \<not> has_dynamic_dims g"
  for rd :: "'a tensor \<Rightarrow> nat list \<Rightarrow> nat \<Rightarrow> 'a" and f other
proof unfold_locales
  fix g :: graph and n s
  assume "wf_graph g" "sized other \<and> reshape_copies other \<and> mask_row_broadcasts other \<and> \<not> has_dynamic_dims g"
    "n \<in> set (g_nodes g)" "True" "wf_nodes (g_nodes (fst s))"
    "True \<Longrightarrow> \<forall>i \<in> set (n_inputs n).
      mapped (tensor_kernels rd f other) (tensor_kernels rd f other) g (fst s) (snd s) i"
  then show "\<exists>s'. mask_step g s n = Ok s' \<and> True \<and> wf_nodes (g_nodes (fst s')) \<and>
      extends (fst s) (fst s') \<and> (\<forall>i. i \<noteq> n_id n \<longrightarrow> snd s' i = snd s i) \<and>
      (True \<longrightarrow> mapped (tensor_kernels rd f other) (tensor_kernels rd f other)
        g (fst s') (snd s') (n_id n))"
    using mask_step_ok [of other g n s rd f] by blast
qed (simp_all add: graph_new_def)

lemma run_with_remap_correct:
  assumes "sized other" and "wf_graph g" and "\<not> has_dynamic_dims g"
  shows "\<exists>g' m. run_with_remap g = Ok (g', m) \<and> wf_graph g' \<and>
    output_values (modulo_kernels f other) g' = output_values (reference_kernels f other) g"
  using lb.rebuild_ok [OF assms(2), where f = f and other = other] assms(1,3)
  by (auto simp: run_with_remap_def split_beta)

lemma legalize_mask_correct:
  assumes "sized other" "reshape_copies other" "mask_row_broadcasts other"
    and "wf_graph g" and "\<not> has_dynamic_dims g"
  shows "\<exists>g'. legalize_custom_attention_mask g = Ok g' \<and> wf_graph g' \<and>
    output_values (tensor_kernels rd f other) g' = output_values (tensor_kernels rd f other) g"
  using cm.rebuild_ok [OF assms(4), where rd = rd and f = f and other = other] assms
  by (auto simp: legalize_custom_attention_mask_def split_beta)


text \<open>Every binary node of the result reads operands of the output's shape, scalars or
  trailing slices of it, which are the cases the CPU kernels handle.\<close>
theorem legalize_broadcast_legal:
  assumes "wf_graph g" and "\<not> has_dynamic_dims g" and "run_with_remap g = Ok (g', m)"
  shows "binary_legal g'"
proof -
  have "sized (\<lambda>_ s _. replicate (prod_list (extents s)) ())" by (simp add: sized_def)
  then obtain out m' where "legalize_inv g (out, m')" and "g_nodes g' = g_nodes out"
    using lb.rebuild_ok [OF assms(1), where f = "\<lambda>_ _ _. ()"
        and other = "\<lambda>_ s _. replicate (prod_list (extents s)) ()"] assms(2,3)
    by (auto simp: run_with_remap_def split_beta)
  then show ?thesis by (simp add: legalize_inv_def binary_legal_def legal_node_def)
qed

text \<open>The convolution bias: \<open>[1, 2, 2] + [1, 2, 1]\<close>.\<close>

definition bias_graph :: graph where
  "bias_graph = (graph_new ''bias'')\<lparr>g_nodes :=
     [\<lparr>n_id = 0, n_op = Input ''x'', n_inputs = [], n_shape = shape_new [1, 2, 2] F32,
       n_name = None, n_origin = None\<rparr>,
      \<lparr>n_id = 1, n_op = Param ''b'', n_inputs = [], n_shape = shape_new [1, 2, 1] F32,
       n_name = None, n_origin = None\<rparr>,
      \<lparr>n_id = 2, n_op = Binary Add, n_inputs = [0, 1], n_shape = shape_new [1, 2, 2] F32,
       n_name = None, n_origin = None\<rparr>], g_outputs := [2]\<rparr>"

definition legal_bias_graph :: graph where
  "legal_bias_graph = bias_graph\<lparr>g_nodes := take 2 (g_nodes bias_graph) @
     [\<lparr>n_id = 2, n_op = Expand [1, 2, 2], n_inputs = [1], n_shape = shape_new [1, 2, 2] F32,
       n_name = None, n_origin = None\<rparr>,
      \<lparr>n_id = 3, n_op = Binary Add, n_inputs = [0, 2], n_shape = shape_new [1, 2, 2] F32,
       n_name = None, n_origin = None\<rparr>], g_outputs := [3]\<rparr>"

definition bias_data :: "op \<Rightarrow> shape \<Rightarrow> nat tensor list \<Rightarrow> nat list" where
  "bias_data opr s vs = map (\<lambda>i. case opr of Param nm \<Rightarrow> 10 * (i + 1) | Reshape t \<Rightarrow> t_data (hd vs) ! i
     | Input nm \<Rightarrow> i | _ \<Rightarrow> 0) [0..<prod_list (extents s)]"

lemma bias_graph_ok: "wf_graph bias_graph" "\<not> has_dynamic_dims bias_graph" "sized bias_data"
  by (simp_all add: wf_graph_def bias_graph_def wf_nodes_def graph_new_def graph_len_def
      less_Suc_eq numeral_eq_Suc has_dynamic_dims_def shape_new_def sized_def bias_data_def)

lemma legalize_bias_graph:
  "run_with_remap bias_graph = Ok (legal_bias_graph, [0 \<mapsto> 0, 1 \<mapsto> 1, 2 \<mapsto> 3])"
  by (simp add: run_with_remap_def bias_graph_def legal_bias_graph_def graph_new_def shape_new_def
    legalize_step_def legalize_node_def map_ids_def add_node_def push_def push_ext_def node_at_def
    maybe_expand_def shape_eq_def is_scalar_def List.map_filter_simps is_clean_trailing_broadcast_def
    rebuild_outputs_def set_outputs_def Let_def upt_rec numeral_3_eq_3)

lemma bias_data_ok: "reshape_copies bias_data" "mask_row_broadcasts bias_data"
proof -
  show "reshape_copies bias_data"
    by (auto simp: reshape_copies_def bias_data_def intro: nth_equalityI)
  have "custom_heads opr \<noteq> None \<Longrightarrow> bias_data opr s vs = map (\<lambda>_. 0) [0..<prod_list (extents s)]"
    for opr s vs by (cases opr) (simp_all add: bias_data_def)
  then show "mask_row_broadcasts bias_data" by (simp add: mask_row_broadcasts_def)
qed

lemma legal_bias_graph_masks: "legalize_custom_attention_mask legal_bias_graph = Ok legal_bias_graph"
  by (simp add: legalize_custom_attention_mask_def legal_bias_graph_def bias_graph_def graph_new_def)


theorem legalize_broadcast_legal_witness: "binary_legal legal_bias_graph"
  by (rule legalize_broadcast_legal [OF bias_graph_ok(1,2) legalize_bias_graph])

end
