(* ===== verification/KvPool.thy ===== *)
theory KvPool
  imports RlxPrelude
begin

text \<open>
  The page pool of the paged KV cache and the block table of a sequence
  (\<open>crates/core/rlx-runtime/src/paged_kv.rs\<close>, \<open>KvPagePool\<close> and \<open>KvBlockTable\<close>), and the
  contract of a reference-counted page allocator that the prefix cache relies on. A
  page id is a \<open>nat\<close>; owner counts are natural numbers (a page has fewer than \<open>2 ^ 32\<close>
  owners). Panics are the two assertions and the vector accesses.
\<close>

section \<open>The pool\<close>

type_synonym 'a run = "(unit, 'a) outcome"
type_synonym page_id = nat

record page_desc =
  pd_offset :: nat
  pd_bytes :: nat
  pd_filled :: nat

record kv_pool =
  kp_free :: "page_id set"
  kp_descs :: "page_desc list"
  kp_refs :: "nat list"
  kp_bytes_per_page :: nat
  kp_tokens_per_page :: nat

definition pool_new :: "nat \<Rightarrow> nat \<Rightarrow> nat \<Rightarrow> kv_pool" where
  "pool_new num_pages bytes_per_page tokens_per_page =
     \<lparr>kp_free = set [0..<num_pages],
      kp_descs = map (\<lambda>i. \<lparr>pd_offset = i * bytes_per_page, pd_bytes = bytes_per_page, pd_filled = 0\<rparr>)
        [0..<num_pages],
      kp_refs = replicate num_pages 0,
      kp_bytes_per_page = bytes_per_page, kp_tokens_per_page = tokens_per_page\<rparr>"

definition pool_capacity :: "kv_pool \<Rightarrow> nat" where
  "pool_capacity p = length (kp_descs p)"

definition pool_free_count :: "kv_pool \<Rightarrow> nat" where
  "pool_free_count p = card (kp_free p)"

definition pool_used_count :: "kv_pool \<Rightarrow> nat" where
  "pool_used_count p = pool_capacity p - pool_free_count p"

text \<open>The first element of the \<open>BTreeSet\<close> is its minimum. \<open>None\<close>: the pool is empty.\<close>

definition pool_alloc :: "kv_pool \<Rightarrow> (kv_pool \<times> page_id) option run" where
  "pool_alloc p =
     (if kp_free p = {} then Ok None
      else let i = Min (kp_free p) in
        if i < length (kp_descs p) \<and> i < length (kp_refs p) then
          Ok (Some (p\<lparr>kp_free := kp_free p - {i},
                      kp_descs := (kp_descs p)[i := (kp_descs p ! i)\<lparr>pd_filled := 0\<rparr>],
                      kp_refs := (kp_refs p)[i := 1]\<rparr>, i))
        else Panic)"

definition pool_retain :: "kv_pool \<Rightarrow> page_id \<Rightarrow> kv_pool run" where
  "pool_retain p i =
     bind_outcome (index_or_panic (kp_refs p) i) (\<lambda>r.
       if r > 0 then Ok (p\<lparr>kp_refs := (kp_refs p)[i := r + 1]\<rparr>) else Panic)"

definition pool_free :: "kv_pool \<Rightarrow> page_id \<Rightarrow> kv_pool run" where
  "pool_free p i =
     bind_outcome (index_or_panic (kp_refs p) i) (\<lambda>r.
       if r > 0 then
         let p' = p\<lparr>kp_refs := (kp_refs p)[i := r - 1]\<rparr> in
         Ok (if r - 1 = 0 then p'\<lparr>kp_free := insert i (kp_free p')\<rparr> else p')
       else Panic)"

definition pool_ref_count :: "kv_pool \<Rightarrow> page_id \<Rightarrow> nat run" where
  "pool_ref_count p i = index_or_panic (kp_refs p) i"

definition pool_descriptor :: "kv_pool \<Rightarrow> page_id \<Rightarrow> page_desc run" where
  "pool_descriptor p i = index_or_panic (kp_descs p) i"

section \<open>The block table\<close>

record block_table =
  bt_pages :: "page_id list"
  bt_seq_len :: nat

definition table_new :: block_table where
  "table_new = \<lparr>bt_pages = [], bt_seq_len = 0\<rparr>"

definition push_page :: "block_table \<Rightarrow> page_id \<Rightarrow> block_table" where
  "push_page t p = t\<lparr>bt_pages := bt_pages t @ [p]\<rparr>"

definition page_for_token :: "block_table \<Rightarrow> nat \<Rightarrow> nat \<Rightarrow> page_id option run" where
  "page_for_token t tok tokens_per_page =
     (if tokens_per_page = 0 then Panic
      else let idx = tok div tokens_per_page in
        Ok (if idx < length (bt_pages t) then Some (bt_pages t ! idx) else None))"

definition page_count :: "block_table \<Rightarrow> nat" where
  "page_count t = length (bt_pages t)"

definition table_release :: "block_table \<Rightarrow> kv_pool \<Rightarrow> (block_table \<times> kv_pool) run" where
  "table_release t pool =
     bind_outcome (for_each pool_free pool (bt_pages t)) (\<lambda>pool'.
       Ok (t\<lparr>bt_pages := [], bt_seq_len := 0\<rparr>, pool'))"

section \<open>The contract of a reference-counted allocator\<close>

text \<open>\<open>owners p i\<close> is the number of references to page \<open>i\<close>; a page is free when it has none.\<close>

locale page_allocator =
  fixes inv :: "'p \<Rightarrow> bool"
    and pages :: "'p \<Rightarrow> page_id set"
    and owners :: "'p \<Rightarrow> page_id \<Rightarrow> nat"
    and alloc :: "'p \<Rightarrow> ('p \<times> page_id) option run"
    and retain :: "'p \<Rightarrow> page_id \<Rightarrow> 'p run"
    and release :: "'p \<Rightarrow> page_id \<Rightarrow> 'p run"
  assumes alloc_none: "inv p \<Longrightarrow> (\<forall>i \<in> pages p. 0 < owners p i) \<Longrightarrow> alloc p = Ok None"
    and alloc_some: "inv p \<Longrightarrow> i \<in> pages p \<Longrightarrow> owners p i = 0 \<Longrightarrow>
      \<exists>p' j. alloc p = Ok (Some (p', j)) \<and> inv p' \<and> pages p' = pages p \<and> j \<in> pages p \<and>
        owners p j = 0 \<and> owners p' = (owners p)(j := 1)"
    and retain_ok: "inv p \<Longrightarrow> 0 < owners p i \<Longrightarrow>
      \<exists>p'. retain p i = Ok p' \<and> inv p' \<and> pages p' = pages p \<and>
        owners p' = (owners p)(i := owners p i + 1)"
    and release_ok: "inv p \<Longrightarrow> 0 < owners p i \<Longrightarrow>
      \<exists>p'. release p i = Ok p' \<and> inv p' \<and> pages p' = pages p \<and>
        owners p' = (owners p)(i := owners p i - 1)"
    and release_free: "inv p \<Longrightarrow> owners p i = 0 \<Longrightarrow> release p i = Panic"
    and owners_pages: "inv p \<Longrightarrow> 0 < owners p i \<Longrightarrow> i \<in> pages p"
begin

lemma alloc_cases:
  assumes "inv p"
  obtains "alloc p = Ok None" "\<forall>i \<in> pages p. 0 < owners p i"
  | p' j where "alloc p = Ok (Some (p', j))" "inv p'" "pages p' = pages p" "j \<in> pages p"
      "owners p j = 0" "owners p' = (owners p)(j := 1)"
  using alloc_none [OF assms] alloc_some [OF assms] by (metis gr0I)

lemma release_all_ok:
  assumes "inv p" and "\<forall>i. count_list is i \<le> owners p i"
  shows "\<exists>p'. for_each release p is = Ok p' \<and> inv p' \<and> pages p' = pages p \<and>
    (\<forall>i. owners p' i = owners p i - count_list is i)"
  using assms
proof (induction "is" arbitrary: p)
  case (Cons k "is")
  have "0 < owners p k" using Cons.prems(2) by (metis count_list.simps(2) gr0I le_zero_eq nat.distinct(1) Suc_eq_plus1)
  then obtain q where q: "release p k = Ok q" "inv q" "pages q = pages p"
      "owners q = (owners p)(k := owners p k - 1)"
    using release_ok [OF Cons.prems(1)] by blast
  have "\<forall>i. count_list is i \<le> owners q i"
  proof
    fix i show "count_list is i \<le> owners q i"
      using Cons.prems(2) [rule_format, of i] q(4) by (auto split: if_splits)
  qed
  then obtain p' where "for_each release q is = Ok p'" "inv p'" "pages p' = pages q"
      "\<forall>i. owners p' i = owners q i - count_list is i"
    using Cons.IH [OF q(2)] by blast
  then show ?case using q by auto
qed simp

lemma retain_release:
  assumes "inv p" and "0 < owners p i"
  shows "\<exists>p' p''. retain p i = Ok p' \<and> release p' i = Ok p'' \<and> inv p'' \<and> owners p'' = owners p"
  using retain_ok [OF assms] release_ok by (metis add_diff_cancel_right' fun_upd_same fun_upd_triv
    fun_upd_upd zero_less_one trans_less_add2)

end

section \<open>The pool provides it\<close>

text \<open>A page is on the free list exactly when it has no owner, and page \<open>i\<close> is the \<open>i\<close>-th
  block of the arena.\<close>

definition pool_inv :: "kv_pool \<Rightarrow> bool" where
  "pool_inv p \<longleftrightarrow>
     length (kp_refs p) = length (kp_descs p) \<and>
     kp_free p = {i. i < length (kp_refs p) \<and> kp_refs p ! i = 0} \<and>
     (\<forall>i < length (kp_descs p). pd_offset (kp_descs p ! i) = i * kp_bytes_per_page p \<and>
        pd_bytes (kp_descs p ! i) = kp_bytes_per_page p)"

definition pool_pages :: "kv_pool \<Rightarrow> page_id set" where
  "pool_pages p = {..<length (kp_refs p)}"

definition pool_owners :: "kv_pool \<Rightarrow> page_id \<Rightarrow> nat" where
  "pool_owners p i = (if i < length (kp_refs p) then kp_refs p ! i else 0)"

lemma pool_inv_new: "pool_inv (pool_new n b t)"
  by (auto simp: pool_inv_def pool_new_def)

lemma finite_free [simp]: "pool_inv p \<Longrightarrow> finite (kp_free p)"
  by (simp add: pool_inv_def)

interpretation pool: page_allocator pool_inv pool_pages pool_owners pool_alloc pool_retain pool_free
proof unfold_locales
  fix p i
  assume inv: "pool_inv p"
  note fr = inv [unfolded pool_inv_def]
  show "pool_alloc p = Ok None" if "\<forall>i \<in> pool_pages p. 0 < pool_owners p i"
  proof -
    have "kp_free p = {}" using fr that by (auto simp: pool_pages_def pool_owners_def)
    then show ?thesis by (simp add: pool_alloc_def)
  qed
  show "\<exists>p' j. pool_alloc p = Ok (Some (p', j)) \<and> pool_inv p' \<and> pool_pages p' = pool_pages p \<and>
      j \<in> pool_pages p \<and> pool_owners p j = 0 \<and> pool_owners p' = (pool_owners p)(j := 1)"
    if "i \<in> pool_pages p" "pool_owners p i = 0"
  proof -
    let ?j = "Min (kp_free p)"
    have ne: "kp_free p \<noteq> {}" using fr that by (auto simp: pool_pages_def pool_owners_def split: if_splits)
    then have "?j \<in> kp_free p" using inv by (intro Min_in) simp
    then have j: "?j < length (kp_refs p)" "kp_refs p ! ?j = 0" "?j < length (kp_descs p)"
      using fr by auto
    let ?p = "p\<lparr>kp_free := kp_free p - {?j},
        kp_descs := (kp_descs p)[?j := (kp_descs p ! ?j)\<lparr>pd_filled := 0\<rparr>],
        kp_refs := (kp_refs p)[?j := 1]\<rparr>"
    have "pool_alloc p = Ok (Some (?p, ?j))" using ne j by (simp add: pool_alloc_def Let_def)
    moreover have "pool_inv ?p"
      using fr j unfolding pool_inv_def by (auto simp: nth_list_update split: if_splits)
    moreover have "pool_owners ?p = (pool_owners p)(?j := 1)"
      using j by (auto simp: pool_owners_def nth_list_update)
    ultimately show ?thesis
      using j by (intro exI [of _ ?p] exI [of _ ?j]) (simp add: pool_pages_def pool_owners_def)
  qed
  show "\<exists>p'. pool_retain p i = Ok p' \<and> pool_inv p' \<and> pool_pages p' = pool_pages p \<and>
      pool_owners p' = (pool_owners p)(i := pool_owners p i + 1)" if "0 < pool_owners p i"
    using that fr
    by (auto simp: pool_retain_def pool_owners_def pool_pages_def pool_inv_def nth_list_update
        fun_eq_iff split: if_splits)
  show "\<exists>p'. pool_free p i = Ok p' \<and> pool_inv p' \<and> pool_pages p' = pool_pages p \<and>
      pool_owners p' = (pool_owners p)(i := pool_owners p i - 1)" if "0 < pool_owners p i"
    using that fr
    by (auto simp: pool_free_def pool_owners_def pool_pages_def pool_inv_def nth_list_update
        fun_eq_iff Let_def split: if_splits)
  show "pool_free p i = Panic" if "pool_owners p i = 0"
    using that by (auto simp: pool_free_def pool_owners_def index_or_panic_def split: if_splits)
  show "i \<in> pool_pages p" if "0 < pool_owners p i"
    using that by (simp add: pool_owners_def pool_pages_def split: if_splits)
qed

text \<open>The pool's books balance whatever the operations: allocation, retain and free keep
  the free list equal to the pages without an owner, so used and free pages add up to
  the capacity, and freeing a page with no owner is refused.\<close>
theorem pool_books_balance:
  assumes "pool_inv p"
  shows "pool_used_count p + pool_free_count p = pool_capacity p \<and>
    pool_used_count p = card {i. 0 < pool_owners p i} \<and>
    (\<forall>i. pool_free p i = Panic \<longleftrightarrow> pool_owners p i = 0)"
proof -
  have fr: "kp_free p = {i \<in> {..<length (kp_refs p)}. kp_refs p ! i = 0}"
    and len: "length (kp_refs p) = pool_capacity p"
    using assms by (auto simp: pool_inv_def pool_capacity_def)
  have used: "{i. 0 < pool_owners p i} = {..<length (kp_refs p)} - kp_free p"
    unfolding fr by (auto simp: pool_owners_def)
  have "kp_free p \<subseteq> {..<length (kp_refs p)}" unfolding fr by auto
  then have "card {i. 0 < pool_owners p i} = pool_capacity p - card (kp_free p)"
    and "card (kp_free p) \<le> pool_capacity p"
    using len card_mono [of "{..<length (kp_refs p)}" "kp_free p"]
    by (simp_all add: used card_Diff_subset finite_subset)
  moreover have "pool_free p i = Panic \<longleftrightarrow> pool_owners p i = 0" for i
    using pool.release_ok [OF assms, of i] pool.release_free [OF assms, of i] by fastforce
  ultimately show ?thesis by (simp add: pool_used_count_def pool_free_count_def)
qed

theorem pool_books_balance_witness:
  "pool_used_count (pool_new 4 1024 16) = 0 \<and> pool_free (pool_new 4 1024 16) 2 = Panic"
  using pool_books_balance [OF pool_inv_new, of 4 1024 16]
  by (simp add: pool_new_def pool_owners_def pool_used_count_def pool_free_count_def
      pool_capacity_def)

text \<open>Releasing a sequence gives up exactly its own references: with the table's pages
  among the owners of each page, nothing panics, and every count drops by the number of
  times the table listed the page.\<close>
theorem table_release_refs:
  assumes "pool_inv pool" and "\<forall>i. count_list (bt_pages t) i \<le> pool_owners pool i"
  shows "\<exists>pool'. table_release t pool = Ok (table_new, pool') \<and> pool_inv pool' \<and>
    (\<forall>i. pool_owners pool' i = pool_owners pool i - count_list (bt_pages t) i)"
  using pool.release_all_ok [OF assms] by (auto simp: table_release_def table_new_def)

theorem table_release_refs_witness:
  "\<exists>pool'. table_release \<lparr>bt_pages = [0], bt_seq_len = 3\<rparr>
       (pool_new 2 64 16\<lparr>kp_free := {1}, kp_refs := [1, 0]\<rparr>) = Ok (table_new, pool') \<and>
     pool_owners pool' 0 = 0"
proof -
  let ?pool = "pool_new 2 64 16\<lparr>kp_free := {1}, kp_refs := [1, 0]\<rparr>"
  have "pool_inv ?pool"
    by (auto simp: pool_inv_def pool_new_def numeral_2_eq_2 less_Suc_eq nth_append)
  moreover have "\<forall>i. count_list (bt_pages \<lparr>bt_pages = [0], bt_seq_len = 3\<rparr>) i \<le> pool_owners ?pool i"
    by (simp add: pool_owners_def)
  ultimately obtain pool' where
    "table_release \<lparr>bt_pages = [0], bt_seq_len = 3\<rparr> ?pool = Ok (table_new, pool')"
    and "\<forall>i. pool_owners pool' i = pool_owners ?pool i -
        count_list (bt_pages \<lparr>bt_pages = [0], bt_seq_len = 3\<rparr>) i"
    using table_release_refs by blast
  moreover from this(2) [rule_format, of 0] have "pool_owners pool' 0 = 0" by (simp add: pool_owners_def)
  ultimately show ?thesis by blast
qed

end
