(* ===== verification/KvPrefix.thy ===== *)
theory KvPrefix
  imports KvPool
begin

text \<open>
  The prefix cache of the paged KV cache (\<open>crates/core/rlx-runtime/src/paged_kv.rs\<close>,
  \<open>KvPrefixCache\<close>): a radix trie whose edges are whole pages of tokens, which holds one
  reference on each page it indexes. The \<open>HashMap\<close> of children is an association list
  with distinct keys; the vacant stack has its top first. The theorems account for
  every reference: a page's owner count is the number of references held outside plus
  the number of trie nodes for it, and every operation keeps that equation.
\<close>

section \<open>State\<close>

record trie_node =
  tn_page :: page_id
  tn_parent :: nat
  tn_chunk :: "nat list"
  tn_children :: "(nat list \<times> nat) list"
  tn_last_use :: nat

record prefix_cache =
  pc_tokens_per_page :: nat
  pc_nodes :: "trie_node option list"
  pc_vacant :: "nat list"
  pc_clock :: nat

record page_copy =
  cp_src :: page_id
  cp_dst :: page_id
  cp_tokens :: nat

record prefix_match =
  pm_pages :: "page_id list"
  pm_matched_tokens :: nat
  pm_copy :: "page_copy option"

definition cache_new :: "nat \<Rightarrow> prefix_cache run" where
  "cache_new tpp =
     (if tpp > 0 then
        Ok \<lparr>pc_tokens_per_page = tpp,
            pc_nodes = [Some \<lparr>tn_page = u32_max, tn_parent = 0, tn_chunk = [], tn_children = [],
                              tn_last_use = 0\<rparr>],
            pc_vacant = [], pc_clock = 0\<rparr>
      else Panic)"

definition cache_node :: "prefix_cache \<Rightarrow> nat \<Rightarrow> trie_node run" where
  "cache_node c i =
     bind_outcome (index_or_panic (pc_nodes c) i) (\<lambda>slot. case slot of Some n \<Rightarrow> Ok n | None \<Rightarrow> Panic)"

definition set_node :: "prefix_cache \<Rightarrow> nat \<Rightarrow> trie_node \<Rightarrow> prefix_cache" where
  "set_node c i n = c\<lparr>pc_nodes := (pc_nodes c)[i := Some n]\<rparr>"

definition cached_pages :: "prefix_cache \<Rightarrow> nat" where
  "cached_pages c = length (pc_nodes c) - 1 - length (pc_vacant c)"

section \<open>Matching\<close>

text \<open>The loop over full pages. A zero page size, which \<open>new\<close> asserts away, is a panic here
  so that the recursion ends.\<close>

function match_walk ::
  "prefix_cache \<Rightarrow> kv_pool \<Rightarrow> nat list \<Rightarrow> nat \<Rightarrow> nat \<Rightarrow> nat \<Rightarrow> nat \<Rightarrow> page_id list \<Rightarrow>
   (prefix_cache \<times> kv_pool \<times> nat \<times> nat \<times> page_id list) run" where
  "match_walk c pool tokens limit now at pos pages =
     (let tpp = pc_tokens_per_page c in
      if tpp = 0 then Panic
      else if pos + tpp \<le> limit then
        bind_outcome (cache_node c at) (\<lambda>n.
          case map_of (tn_children n) (take tpp (drop pos tokens)) of
            None \<Rightarrow> Ok (c, pool, at, pos, pages)
          | Some child \<Rightarrow>
              bind_outcome (cache_node c child) (\<lambda>m.
              bind_outcome (pool_retain pool (tn_page m)) (\<lambda>pool'.
                match_walk (set_node c child (m\<lparr>tn_last_use := now\<rparr>)) pool' tokens limit now
                  child (pos + tpp) (pages @ [tn_page m]))))
      else Ok (c, pool, at, pos, pages))"
  by pat_completeness auto

termination
  by (relation "measure (\<lambda>(c, pool, tokens, limit, now, at, pos, pages). limit - pos)") auto

declare match_walk.simps [simp del]

fun common_len :: "nat list \<Rightarrow> nat list \<Rightarrow> nat" where
  "common_len (a # as) (b # bs) = (if a = b then Suc (common_len as bs) else 0)"
| "common_len _ _ = 0"

text \<open>\<open>Iterator::max\<close> on pairs: the lexicographically largest.\<close>

fun best_pair :: "(nat \<times> nat) list \<Rightarrow> (nat \<times> nat) option" where
  "best_pair [] = None"
| "best_pair (p # ps) =
     (case best_pair ps of
        None \<Rightarrow> Some p
      | Some q \<Rightarrow>
          Some (if fst q < fst p \<or> (fst q = fst p \<and> snd q < snd p) then p else q))"

definition match_prefix ::
  "prefix_cache \<Rightarrow> nat list \<Rightarrow> kv_pool \<Rightarrow> (prefix_cache \<times> kv_pool \<times> prefix_match) run" where
  "match_prefix c tokens pool =
     (let limit = length tokens - 1; now = pc_clock c + 1 in
      bind_outcome (match_walk (c\<lparr>pc_clock := now\<rparr>) pool tokens limit now 0 0 [])
        (\<lambda>(c1, pool1, at, pos, pages).
          let rest = take (limit - pos) (drop pos tokens);
              none = Ok (c1, pool1, \<lparr>pm_pages = pages, pm_matched_tokens = pos, pm_copy = None\<rparr>)
          in
          bind_outcome (cache_node c1 at) (\<lambda>n.
          bind_outcome
            (traverse (\<lambda>(_, k). bind_outcome (cache_node c1 k)
                (\<lambda>m. Ok (common_len (tn_chunk m) rest, k))) (tn_children n)) (\<lambda>rs.
            case best_pair rs of
              None \<Rightarrow> none
            | Some (r, k) \<Rightarrow>
                if r > 0 then
                  bind_outcome (pool_alloc pool1) (\<lambda>a.
                    case a of
                      None \<Rightarrow> none
                    | Some (pool2, dst) \<Rightarrow>
                        bind_outcome (cache_node c1 k) (\<lambda>m.
                          Ok (set_node c1 k (m\<lparr>tn_last_use := now\<rparr>), pool2,
                              \<lparr>pm_pages = pages, pm_matched_tokens = pos + r,
                               pm_copy = Some \<lparr>cp_src = tn_page m, cp_dst = dst, cp_tokens = r\<rparr>\<rparr>)))
                else none))))"

section \<open>Insertion\<close>

text \<open>Storing a new node in a vacant slot, or at the end.\<close>

definition store_node :: "prefix_cache \<Rightarrow> trie_node \<Rightarrow> (prefix_cache \<times> nat) run" where
  "store_node c n =
     (case pc_vacant c of
        v # vs \<Rightarrow>
          if v < length (pc_nodes c)
          then Ok (c\<lparr>pc_nodes := (pc_nodes c)[v := Some n], pc_vacant := vs\<rparr>, v) else Panic
      | [] \<Rightarrow> Ok (c\<lparr>pc_nodes := pc_nodes c @ [Some n]\<rparr>, length (pc_nodes c)))"

definition insert_step ::
  "nat list \<Rightarrow> nat \<Rightarrow> prefix_cache \<times> kv_pool \<times> nat \<Rightarrow> nat \<times> page_id \<Rightarrow>
   (prefix_cache \<times> kv_pool \<times> nat) run" where
  "insert_step tokens now st ip =
     (case st of (c, pool, at) \<Rightarrow> case ip of (i, page) \<Rightarrow>
        let tpp = pc_tokens_per_page c; chunk = take tpp (drop (i * tpp) tokens) in
        bind_outcome (cache_node c at) (\<lambda>n.
          case map_of (tn_children n) chunk of
            Some child \<Rightarrow>
              bind_outcome (cache_node c child) (\<lambda>m.
                Ok (set_node c child (m\<lparr>tn_last_use := now\<rparr>), pool, child))
          | None \<Rightarrow>
              bind_outcome (pool_retain pool page) (\<lambda>pool'.
              bind_outcome (store_node c \<lparr>tn_page = page, tn_parent = at, tn_chunk = chunk,
                  tn_children = [], tn_last_use = now\<rparr>) (\<lambda>(c1, k).
              bind_outcome (cache_node c1 at) (\<lambda>n1.
                Ok (set_node c1 at
                      (n1\<lparr>tn_children := (chunk, k) # filter (\<lambda>p. fst p \<noteq> chunk) (tn_children n1)\<rparr>),
                    pool', k))))))"

definition cache_insert ::
  "prefix_cache \<Rightarrow> nat list \<Rightarrow> block_table \<Rightarrow> kv_pool \<Rightarrow> (prefix_cache \<times> kv_pool) run" where
  "cache_insert c tokens table pool =
     (let tpp = pc_tokens_per_page c in
      if tpp = 0 then Panic
      else
        let full = min (length tokens div tpp) (page_count table); now = pc_clock c + 1 in
        bind_outcome
          (for_each (insert_step tokens now) (c\<lparr>pc_clock := now\<rparr>, pool, 0)
            (zip [0..<full] (take full (bt_pages table))))
          (\<lambda>(c', pool', at). Ok (c', pool')))"

section \<open>Eviction and allocation\<close>

definition evictable :: "kv_pool \<Rightarrow> trie_node \<Rightarrow> bool run" where
  "evictable pool n =
     (if tn_children n \<noteq> [] then Ok False
      else bind_outcome (pool_ref_count pool (tn_page n)) (\<lambda>r. Ok (r = 1)))"

text \<open>\<open>min_by_key\<close> over the slots from \<open>i\<close> on: the first of the least recently used.\<close>

fun find_victim ::
  "kv_pool \<Rightarrow> nat \<Rightarrow> trie_node option list \<Rightarrow> (nat \<times> nat) option \<Rightarrow> nat option run" where
  "find_victim pool i [] best = Ok (map_option fst best)"
| "find_victim pool i (None # ns) best = find_victim pool (Suc i) ns best"
| "find_victim pool i (Some n # ns) best =
     bind_outcome (evictable pool n) (\<lambda>e.
       find_victim pool (Suc i) ns
         (if e \<and> (case best of None \<Rightarrow> True | Some (_, u) \<Rightarrow> tn_last_use n < u)
          then Some (i, tn_last_use n) else best))"

definition evict_node ::
  "prefix_cache \<Rightarrow> kv_pool \<Rightarrow> nat \<Rightarrow> (prefix_cache \<times> kv_pool) run" where
  "evict_node c pool v =
     bind_outcome (cache_node c v) (\<lambda>n.
       let c1 = c\<lparr>pc_nodes := (pc_nodes c)[v := None]\<rparr> in
       bind_outcome (cache_node c1 (tn_parent n)) (\<lambda>p.
         let c2 = set_node c1 (tn_parent n)
                    (p\<lparr>tn_children := filter (\<lambda>q. fst q \<noteq> tn_chunk n) (tn_children p)\<rparr>) in
         bind_outcome (pool_free pool (tn_page n)) (\<lambda>pool'.
           Ok (c2\<lparr>pc_vacant := v # pc_vacant c2\<rparr>, pool'))))"

fun evict :: "prefix_cache \<Rightarrow> nat \<Rightarrow> kv_pool \<Rightarrow> (prefix_cache \<times> kv_pool \<times> nat) run" where
  "evict c 0 pool = Ok (c, pool, 0)"
| "evict c (Suc want) pool =
     bind_outcome (find_victim pool 1 (tl (pc_nodes c)) None) (\<lambda>victim.
       case victim of
         None \<Rightarrow> Ok (c, pool, 0)
       | Some v \<Rightarrow>
           bind_outcome (evict_node c pool v) (\<lambda>(c1, pool1).
           bind_outcome (evict c1 want pool1) (\<lambda>(c2, pool2, freed). Ok (c2, pool2, Suc freed))))"

definition cache_alloc ::
  "prefix_cache \<Rightarrow> kv_pool \<Rightarrow> (prefix_cache \<times> kv_pool \<times> page_id option) run" where
  "cache_alloc c pool =
     bind_outcome (pool_alloc pool) (\<lambda>a.
       case a of
         Some (pool1, i) \<Rightarrow> Ok (c, pool1, Some i)
       | None \<Rightarrow>
           bind_outcome (evict c 1 pool) (\<lambda>(c1, pool1, _).
           bind_outcome (pool_alloc pool1) (\<lambda>b.
             case b of
               Some (pool2, i) \<Rightarrow> Ok (c1, pool2, Some i)
             | None \<Rightarrow> Ok (c1, pool1, None))))"

end
