(* ===== verification/KvPrefixLaws.thy ===== *)
theory KvPrefixLaws
  imports KvPrefix
begin

text \<open>
  Correctness of the prefix cache: the shape of the trie, the reference accounting, what a
  match returns and what an insertion makes matchable. A cache is compared up to the
  recency stamps by its skeleton.
\<close>

section \<open>Live nodes, skeletons, the invariant\<close>

definition live :: "prefix_cache \<Rightarrow> nat \<Rightarrow> trie_node \<Rightarrow> bool" where
  "live c i n \<longleftrightarrow> i < length (pc_nodes c) \<and> pc_nodes c ! i = Some n"

lemma cache_node_Ok [outcome_simps]: "cache_node c i = Ok n \<longleftrightarrow> live c i n"
  by (auto simp: cache_node_def live_def outcome_simps split: option.splits)

lemma cache_node_live [simp]: "live c i n \<Longrightarrow> cache_node c i = Ok n"
  by (simp add: cache_node_Ok)

lemma live_fun: "live c i n \<Longrightarrow> live c i m \<Longrightarrow> n = m"
  by (simp add: live_def)

lemma live_set_node:
  "live (set_node c k m) i n \<longleftrightarrow> (if i = k then k < length (pc_nodes c) \<and> n = m else live c i n)"
  by (auto simp: live_def set_node_def nth_list_update)

lemma live_clock [simp]: "live (c\<lparr>pc_clock := t\<rparr>) = live c"
  by (intro ext) (simp add: live_def)

lemma set_node_simps [simp]:
  "pc_tokens_per_page (set_node c k m) = pc_tokens_per_page c"
  "pc_vacant (set_node c k m) = pc_vacant c"
  "length (pc_nodes (set_node c k m)) = length (pc_nodes c)"
  by (simp_all add: set_node_def)

definition trie_inv :: "prefix_cache \<Rightarrow> bool" where
  "trie_inv c \<longleftrightarrow>
     0 < pc_tokens_per_page c \<and> (\<exists>r. live c 0 r) \<and>
     (\<forall>i n. live c i n \<longrightarrow> distinct (map fst (tn_children n)) \<and>
        (\<forall>ch k. (ch, k) \<in> set (tn_children n) \<longrightarrow> 0 < k \<and>
           (\<exists>m. live c k m \<and> tn_parent m = i \<and> tn_chunk m = ch))) \<and>
     (\<forall>i n. live c i n \<longrightarrow> 0 < i \<longrightarrow> length (tn_chunk n) = pc_tokens_per_page c \<and>
        (\<exists>p. live c (tn_parent n) p \<and> (tn_chunk n, i) \<in> set (tn_children p))) \<and>
     distinct (pc_vacant c) \<and>
     set (pc_vacant c) = {i. 0 < i \<and> i < length (pc_nodes c) \<and> pc_nodes c ! i = None}"

lemma trie_invD:
  assumes "trie_inv c"
  shows "0 < pc_tokens_per_page c" and "\<exists>r. live c 0 r"
    and "live c i n \<Longrightarrow> distinct (map fst (tn_children n))"
    and "live c i n \<Longrightarrow> (ch, k) \<in> set (tn_children n) \<Longrightarrow>
      0 < k \<and> (\<exists>m. live c k m \<and> tn_parent m = i \<and> tn_chunk m = ch)"
    and "live c i n \<Longrightarrow> 0 < i \<Longrightarrow> length (tn_chunk n) = pc_tokens_per_page c"
    and "live c i n \<Longrightarrow> 0 < i \<Longrightarrow>
      \<exists>p. live c (tn_parent n) p \<and> (tn_chunk n, i) \<in> set (tn_children p)"
    and "distinct (pc_vacant c)"
    and "set (pc_vacant c) = {i. 0 < i \<and> i < length (pc_nodes c) \<and> pc_nodes c ! i = None}"
  using assms unfolding trie_inv_def by blast+

definition strip :: "trie_node \<Rightarrow> trie_node" where
  "strip n = n\<lparr>tn_last_use := 0\<rparr>"

definition skeleton :: "prefix_cache \<Rightarrow> nat \<times> trie_node option list \<times> nat list" where
  "skeleton c = (pc_tokens_per_page c, map (map_option strip) (pc_nodes c), pc_vacant c)"

lemma strip_eq: "strip n = strip m \<longleftrightarrow> tn_page n = tn_page m \<and> tn_parent n = tn_parent m \<and>
    tn_chunk n = tn_chunk m \<and> tn_children n = tn_children m"
  by (cases n; cases m) (simp add: strip_def)

lemma skeleton_clock [simp]: "skeleton (c\<lparr>pc_clock := t\<rparr>) = skeleton c"
  by (simp add: skeleton_def)

lemma skeleton_touch: "live c k m \<Longrightarrow> skeleton (set_node c k (m\<lparr>tn_last_use := t\<rparr>)) = skeleton c"
  by (auto simp: skeleton_def set_node_def live_def map_update strip_def
      intro!: nth_equalityI simp: nth_list_update)

lemma skeleton_length: "skeleton c = skeleton d \<Longrightarrow> length (pc_nodes c) = length (pc_nodes d)"
  unfolding skeleton_def by (metis length_map prod.inject)

lemma skeleton_live:
  assumes "skeleton c = skeleton d" and "live c i n"
  obtains m where "live d i m" "strip m = strip n"
proof -
  have len: "length (pc_nodes c) = length (pc_nodes d)" using assms(1) by (rule skeleton_length)
  have "map (map_option strip) (pc_nodes c) ! i = map (map_option strip) (pc_nodes d) ! i"
    using assms(1) by (simp add: skeleton_def)
  then have "map_option strip (pc_nodes d ! i) = Some (strip n)"
    using assms(2) len by (simp add: live_def)
  then show thesis using that assms(2) len by (auto simp: live_def)
qed

lemma skeleton_trie_inv:
  assumes eq: "skeleton c = skeleton d" and inv: "trie_inv c"
  shows "trie_inv d"
proof -
  note bwd = skeleton_live [OF eq [symmetric]] and fwd = skeleton_live [OF eq]
  have tv: "pc_tokens_per_page d = pc_tokens_per_page c" "pc_vacant d = pc_vacant c"
    using eq by (simp_all add: skeleton_def)
  have none: "pc_nodes d ! i = None \<longleftrightarrow> pc_nodes c ! i = None" if "i < length (pc_nodes d)" for i
    using bwd fwd that skeleton_length [OF eq] unfolding live_def by (metis not_Some_eq)
  show ?thesis unfolding trie_inv_def
  proof (intro conjI allI impI ballI)
    show "0 < pc_tokens_per_page d" using trie_invD(1) [OF inv] tv by simp
    show "\<exists>r. live d 0 r" using trie_invD(2) [OF inv] fwd by metis
    show "distinct (pc_vacant d)" using trie_invD(7) [OF inv] tv by simp
    show "set (pc_vacant d) = {i. 0 < i \<and> i < length (pc_nodes d) \<and> pc_nodes d ! i = None}"
      using trie_invD(8) [OF inv] tv none skeleton_length [OF eq] by auto
  next
    fix i n assume n: "live d i n"
    then obtain n' where n': "live c i n'" "strip n' = strip n" by (rule bwd)
    show "distinct (map fst (tn_children n))" using trie_invD(3) [OF inv n'(1)] n'(2) by (simp add: strip_eq)
    fix ch k assume "(ch, k) \<in> set (tn_children n)"
    then have k: "0 < k \<and> (\<exists>m. live c k m \<and> tn_parent m = i \<and> tn_chunk m = ch)"
      using trie_invD(4) [OF inv n'(1)] n'(2) by (simp add: strip_eq)
    then show "0 < k" by blast
    from k obtain m where m: "live c k m" "tn_parent m = i" "tn_chunk m = ch" by blast
    from m(1) obtain m' where "live d k m'" "strip m' = strip m" by (rule fwd)
    then show "\<exists>m. live d k m \<and> tn_parent m = i \<and> tn_chunk m = ch"
      using m by (auto simp: strip_eq)
  next
    fix i n assume n: "live d i n"
    then obtain n' where n': "live c i n'" "strip n' = strip n" by (rule bwd)
    assume i: "0 < i"
    show "length (tn_chunk n) = pc_tokens_per_page d"
      using trie_invD(5) [OF inv n'(1) i] n'(2) tv by (simp add: strip_eq)
    obtain p where p: "live c (tn_parent n') p" "(tn_chunk n', i) \<in> set (tn_children p)"
      using trie_invD(6) [OF inv n'(1) i] by blast
    from p(1) obtain p' where "live d (tn_parent n') p'" "strip p' = strip p" by (rule fwd)
    then show "\<exists>p. live d (tn_parent n) p \<and> (tn_chunk n, i) \<in> set (tn_children p)"
      using p(2) n'(2) by (auto simp: strip_eq)
  qed
qed

section \<open>Reference accounting\<close>

definition cached_refs :: "prefix_cache \<Rightarrow> page_id \<Rightarrow> nat" where
  "cached_refs c i = card {k. 0 < k \<and> (\<exists>n. live c k n \<and> tn_page n = i)}"

text \<open>\<open>own i\<close> references to page \<open>i\<close> are held outside the cache, by block tables.\<close>

definition accounted :: "prefix_cache \<Rightarrow> kv_pool \<Rightarrow> (page_id \<Rightarrow> nat) \<Rightarrow> bool" where
  "accounted c pool own \<longleftrightarrow> trie_inv c \<and> pool_inv pool \<and>
     (\<forall>i. pool_owners pool i = own i + cached_refs c i)"

lemma skeleton_cached_refs: "skeleton c = skeleton d \<Longrightarrow> cached_refs c i = cached_refs d i"
  unfolding cached_refs_def by (metis (no_types, opaque_lifting) skeleton_live strip_eq)

lemma finite_live [simp]: "finite {k. 0 < k \<and> (\<exists>n. live c k n \<and> P k n)}"
  by (rule finite_subset [of _ "{..<length (pc_nodes c)}"]) (auto simp: live_def)

lemma cached_refs_pos: "live c k n \<Longrightarrow> 0 < k \<Longrightarrow> 0 < cached_refs c (tn_page n)"
  unfolding cached_refs_def using finite_live [of c "\<lambda>_ m. tn_page m = tn_page n"]
  by (subst card_gt_0_iff) auto

lemma accounted_page:
  "accounted c pool own \<Longrightarrow> live c k n \<Longrightarrow> 0 < k \<Longrightarrow> 0 < pool_owners pool (tn_page n)"
  using cached_refs_pos by (simp add: accounted_def)

lemma child_live:
  assumes "trie_inv c" and "live c at n" and "map_of (tn_children n) ch = Some k"
  obtains m where "live c k m" "0 < k" "tn_chunk m = ch" "tn_parent m = at"
  using trie_invD(4) [OF assms(1,2) map_of_SomeD [OF assms(3)]] that by blast

section \<open>Walking the trie\<close>

text \<open>The specification of a lookup: the nodes below \<open>at\<close> spelled by a list of chunks, as far
  as the trie goes.\<close>

fun walk :: "prefix_cache \<Rightarrow> nat \<Rightarrow> nat list list \<Rightarrow> nat list" where
  "walk c at [] = []"
| "walk c at (ch # chs) =
     (case cache_node c at of
        Ok n \<Rightarrow> (case map_of (tn_children n) ch of Some k \<Rightarrow> k # walk c k chs | None \<Rightarrow> [])
      | _ \<Rightarrow> [])"

definition page_at :: "prefix_cache \<Rightarrow> nat \<Rightarrow> page_id" where
  "page_at c i = (case cache_node c i of Ok n \<Rightarrow> tn_page n | _ \<Rightarrow> 0)"

text \<open>The first \<open>n\<close> pages of tokens, from the \<open>j\<close>-th on.\<close>

definition chunks :: "nat \<Rightarrow> nat list \<Rightarrow> nat \<Rightarrow> nat \<Rightarrow> nat list list" where
  "chunks tpp tokens j n = map (\<lambda>i. take tpp (drop (i * tpp) tokens)) [j..<n]"

lemma chunks_step: "j < n \<Longrightarrow> chunks tpp tokens j n =
    take tpp (drop (j * tpp) tokens) # chunks tpp tokens (Suc j) n"
  by (simp add: chunks_def upt_conv_Cons)

lemma chunks_end: "n \<le> j \<Longrightarrow> chunks tpp tokens j n = []"
  by (simp add: chunks_def)

lemma cache_node_skeleton:
  assumes "skeleton c = skeleton d"
  shows "(\<exists>n m. cache_node c i = Ok n \<and> cache_node d i = Ok m \<and> strip n = strip m) \<or>
     cache_node c i = Panic \<and> cache_node d i = Panic"
proof -
  have "cache_node e i = Panic \<or> (\<exists>n. cache_node e i = Ok n)" for e :: prefix_cache
    by (auto simp: cache_node_def index_or_panic_def split: option.splits)
  then show ?thesis
    using skeleton_live [OF assms] skeleton_live [OF assms [symmetric]]
    by (metis cache_node_Ok outcome.distinct(3))
qed

lemma walk_skeleton: "skeleton c = skeleton d \<Longrightarrow> walk c at chs = walk d at chs"
proof (induction chs arbitrary: at)
  case (Cons ch chs)
  then show ?case
    using cache_node_skeleton [OF Cons.prems, of at] by (auto simp: strip_eq split: option.splits)
qed simp

lemma page_at_skeleton: "skeleton c = skeleton d \<Longrightarrow> page_at c i = page_at d i"
  using cache_node_skeleton [of c d i] by (auto simp: page_at_def strip_eq)

lemma walk_live:
  assumes "trie_inv c" and "live c at n" and "k \<in> set (walk c at chs)"
  shows "0 < k \<and> (\<exists>m. live c k m)"
  using assms
proof (induction chs arbitrary: at n)
  case (Cons ch chs)
  show ?case
  proof (cases "map_of (tn_children n) ch")
    case None
    then show ?thesis using Cons.prems by simp
  next
    case (Some j)
    obtain m where "live c j m" "0 < j" by (rule child_live [OF Cons.prems(1,2) Some])
    then show ?thesis using Cons Some by auto
  qed
qed simp

lemma match_walk_ok:
  assumes "trie_inv c" and "pool_inv pool" and "live c at n" and "pos = j * pc_tokens_per_page c"
    and "pos \<le> limit"
    and "\<forall>k m. live c k m \<longrightarrow> 0 < k \<longrightarrow> 0 < pool_owners pool (tn_page m)"
  shows "\<exists>c1 pool1 at1 n1 pos1 ks. match_walk c pool tokens limit now at pos pages =
      Ok (c1, pool1, at1, pos1, pages @ map (page_at c) ks) \<and>
    ks = walk c at (chunks (pc_tokens_per_page c) tokens j (limit div pc_tokens_per_page c)) \<and>
    skeleton c1 = skeleton c \<and> pool_inv pool1 \<and>
    (\<forall>i. pool_owners pool1 i = pool_owners pool i + count_list (map (page_at c) ks) i) \<and>
    live c1 at1 n1 \<and> pos1 = pos + length ks * pc_tokens_per_page c \<and> pos1 \<le> limit \<and>
    (pos1 + pc_tokens_per_page c \<le> limit \<longrightarrow>
      map_of (tn_children n1) (take (pc_tokens_per_page c) (drop pos1 tokens)) = None)"
  using assms
proof (induction c pool tokens limit now at pos pages arbitrary: n j rule: match_walk.induct)
  case (1 c pool tokens limit now at pos pages)
  let ?t = "pc_tokens_per_page c"
  have t: "0 < ?t" by (rule trie_invD(1) [OF 1(2)])
  let ?ch = "take ?t (drop pos tokens)"
  show ?case
  proof (cases "pos + ?t \<le> limit")
    case False
    then have "limit div ?t \<le> j"
      using 1(5,6) t by (metis add.commute div_less_iff_less_mult leI le_trans less_Suc_eq_le mult_Suc not_le)
    then have "walk c at (chunks ?t tokens j (limit div ?t)) = []" by (simp add: chunks_end)
    moreover have "match_walk c pool tokens limit now at pos pages = Ok (c, pool, at, pos, pages)"
      using False t by (subst match_walk.simps) (simp add: Let_def)
    ultimately show ?thesis using 1 False by auto
  next
    case True
    then have "(j + 1) * ?t \<le> limit" using 1(5) by (simp add: algebra_simps)
    then have j: "j < limit div ?t" using t by (metis Suc_eq_plus1 Suc_le_eq less_eq_div_iff_mult_less_eq)
    have chs: "chunks ?t tokens j (limit div ?t) = ?ch # chunks ?t tokens (Suc j) (limit div ?t)"
      using chunks_step [OF j] 1(5) by simp
    have at: "cache_node c at = Ok n" using 1(4) by simp
    show ?thesis
    proof (cases "map_of (tn_children n) ?ch")
      case None
      then have "walk c at (chunks ?t tokens j (limit div ?t)) = []" by (simp add: chs at)
      moreover have "match_walk c pool tokens limit now at pos pages = Ok (c, pool, at, pos, pages)"
        using True t at None by (subst match_walk.simps) (simp add: Let_def)
      ultimately show ?thesis using 1 None by auto
    next
      case (Some k)
      obtain m where m: "live c k m" "0 < k" by (rule child_live [OF 1(2,4) Some])
      have kn: "cache_node c k = Ok m" using m by simp
      obtain pool' where p': "pool_retain pool (tn_page m) = Ok pool'" "pool_inv pool'"
          "pool_owners pool' = (pool_owners pool)(tn_page m := pool_owners pool (tn_page m) + 1)"
        using pool.retain_ok [OF 1(3)] 1(7) m by blast
      let ?c = "set_node c k (m\<lparr>tn_last_use := now\<rparr>)"
      have sk: "skeleton ?c = skeleton c" by (rule skeleton_touch [OF m(1)])
      have t': "pc_tokens_per_page ?c = ?t" by simp
      have own': "\<forall>i x. live ?c i x \<longrightarrow> 0 < i \<longrightarrow> 0 < pool_owners pool' (tn_page x)"
        using 1(7) m p'(3) by (auto simp: live_set_node)
      have lk: "live ?c k (m\<lparr>tn_last_use := now\<rparr>)" using m(1) unfolding live_set_node by (simp add: live_def)
      have pg: "tn_page m = page_at c k" by (simp add: page_at_def kn)
      have wk: "walk c at (chunks ?t tokens j (limit div ?t)) =
          k # walk c k (chunks ?t tokens (Suc j) (limit div ?t))"
        by (simp add: chs at Some)
      have eq: "match_walk c pool tokens limit now at pos pages =
          match_walk ?c pool' tokens limit now k (pos + ?t) (pages @ [tn_page m])"
        using True t at Some kn p'(1) by (subst match_walk.simps) (simp add: Let_def)
      have "pos + ?t = Suc j * pc_tokens_per_page ?c" using 1(5) by simp
      from 1(1) [OF refl _ True at Some kn p'(1) skeleton_trie_inv [OF sk [symmetric] 1(2)] p'(2) lk this True own']
      obtain c1 pool1 at1 n1 pos1 ks where
        r: "match_walk ?c pool' tokens limit now k (pos + ?t) (pages @ [tn_page m]) =
            Ok (c1, pool1, at1, pos1, (pages @ [tn_page m]) @ map (page_at ?c) ks)"
        "ks = walk ?c k (chunks ?t tokens (Suc j) (limit div ?t))"
        "skeleton c1 = skeleton ?c" "pool_inv pool1"
        "\<forall>i. pool_owners pool1 i = pool_owners pool' i + count_list (map (page_at ?c) ks) i"
        "live c1 at1 n1" "pos1 = pos + ?t + length ks * ?t" "pos1 \<le> limit"
        "pos1 + ?t \<le> limit \<longrightarrow> map_of (tn_children n1) (take ?t (drop pos1 tokens)) = None"
        using t unfolding t' by (metis neq0_conv)
      have pa: "page_at ?c = page_at c" using page_at_skeleton [OF sk] by blast
      have ks: "walk c at (chunks ?t tokens j (limit div ?t)) = k # ks"
        unfolding wk r(2) using walk_skeleton [OF sk] by simp
      have "\<forall>i. pool_owners pool1 i =
          pool_owners pool i + count_list (map (page_at c) (k # ks)) i"
        using r(5) p'(3) pg by (auto simp: pa)
      then show ?thesis
        unfolding ks eq r(1) pa using r(3,4,6-9) sk pg
        by (intro exI [of _ c1] exI [of _ pool1] exI [of _ at1] exI [of _ n1] exI [of _ pos1]
            exI [of _ "k # ks"]) (simp add: algebra_simps)
    qed
  qed
qed

section \<open>Matching a prompt\<close>

lemma common_len_le: "common_len as bs \<le> length as" "common_len as bs \<le> length bs"
  by (induction as bs rule: common_len.induct) auto

lemma common_len_take: "take (common_len as bs) as = take (common_len as bs) bs"
  by (induction as bs rule: common_len.induct) auto

lemma best_pair_mem: "best_pair ps = Some q \<Longrightarrow> q \<in> set ps"
  by (induction ps arbitrary: q) (auto split: option.splits if_splits)

lemma best_pair_None: "best_pair ps = None \<longleftrightarrow> ps = []"
  by (cases ps) (auto split: option.splits)

lemma best_pair_max: "best_pair ps = Some q \<Longrightarrow> p \<in> set ps \<Longrightarrow> fst p \<le> fst q"
proof (induction ps arbitrary: q)
  case (Cons x ps)
  show ?case
  proof (cases "best_pair ps")
    case None
    then show ?thesis using Cons.prems best_pair_None [of ps] by simp
  next
    case (Some y)
    then show ?thesis using Cons.IH [OF Some] Cons.prems by (fastforce split: if_splits)
  qed
qed simp

lemma children_lens:
  assumes "trie_inv c" and "live c at n"
  shows "traverse (\<lambda>(_, k). bind_outcome (cache_node c k) (\<lambda>m. Ok (common_len (tn_chunk m) rest, k)))
      (tn_children n) = Ok (map (\<lambda>(ch, k). (common_len ch rest, k)) (tn_children n))"
proof (rule traverse_total)
  fix x assume "x \<in> set (tn_children n)"
  moreover obtain ch k where "x = (ch, k)" by (cases x)
  ultimately show "(case x of (_, k) \<Rightarrow> bind_outcome (cache_node c k)
      (\<lambda>m. Ok (common_len (tn_chunk m) rest, k))) = Ok (case x of (ch, k) \<Rightarrow> (common_len ch rest, k))"
    using trie_invD(4) [OF assms, of ch k] by fastforce
qed

text \<open>The references a match hands to the caller.\<close>

definition match_held :: "prefix_match \<Rightarrow> page_id list" where
  "match_held r = pm_pages r @ (case pm_copy r of Some cp \<Rightarrow> [cp_dst cp] | None \<Rightarrow> [])"

definition copy_tokens :: "prefix_match \<Rightarrow> nat" where
  "copy_tokens r = (case pm_copy r of Some cp \<Rightarrow> cp_tokens cp | None \<Rightarrow> 0)"

lemma match_prefix_ok:
  assumes acc: "accounted c pool own"
  shows "\<exists>c' pool' r ks. match_prefix c tokens pool = Ok (c', pool', r) \<and>
    accounted c' pool' (\<lambda>i. own i + count_list (match_held r) i) \<and> skeleton c' = skeleton c \<and>
    ks = walk c 0 (chunks (pc_tokens_per_page c) tokens 0
      ((length tokens - 1) div pc_tokens_per_page c)) \<and>
    pm_pages r = map (page_at c) ks \<and>
    pm_matched_tokens r = length ks * pc_tokens_per_page c + copy_tokens r \<and>
    pm_matched_tokens r \<le> length tokens - 1 \<and>
    copy_tokens r < pc_tokens_per_page c \<and>
    (\<forall>cp. pm_copy r = Some cp \<longrightarrow> 0 < cp_tokens cp \<and> own (cp_dst cp) = 0 \<and>
      cached_refs c (cp_dst cp) = 0 \<and> 0 < cached_refs c (cp_src cp))"
proof -
  let ?t = "pc_tokens_per_page c" and ?limit = "length tokens - 1" and ?now = "pc_clock c + 1"
  let ?c0 = "c\<lparr>pc_clock := ?now\<rparr>"
  have inv: "trie_inv c" and pinv: "pool_inv pool" and own: "\<And>i. pool_owners pool i = own i + cached_refs c i"
    using acc by (auto simp: accounted_def)
  have t: "0 < ?t" by (rule trie_invD(1) [OF inv])
  have inv0: "trie_inv ?c0" by (rule skeleton_trie_inv [OF _ inv]) simp
  obtain root where root: "live ?c0 0 root" using trie_invD(2) [OF inv0] by blast
  have ownp: "\<forall>k m. live ?c0 k m \<longrightarrow> 0 < k \<longrightarrow> 0 < pool_owners pool (tn_page m)"
    using accounted_page [OF acc] by simp
  obtain c1 pool1 at1 n1 pos1 ks where
    w: "match_walk ?c0 pool tokens ?limit ?now 0 0 [] = Ok (c1, pool1, at1, pos1, map (page_at ?c0) ks)"
    "ks = walk ?c0 0 (chunks ?t tokens 0 (?limit div ?t))" "skeleton c1 = skeleton ?c0" "pool_inv pool1"
    "\<forall>i. pool_owners pool1 i = pool_owners pool i + count_list (map (page_at ?c0) ks) i"
    "live c1 at1 n1" "pos1 = length ks * ?t" "pos1 \<le> ?limit"
    "pos1 + ?t \<le> ?limit \<longrightarrow> map_of (tn_children n1) (take ?t (drop pos1 tokens)) = None"
    using match_walk_ok [OF inv0 pinv root, where pos = 0 and j = 0 and limit = ?limit and now = ?now and pages = "[]" and tokens = tokens] ownp by auto
  have sk: "skeleton c1 = skeleton c" using w(3) by simp
  have pa: "page_at ?c0 = page_at c" by (rule ext, rule page_at_skeleton) simp
  have ks: "ks = walk c 0 (chunks ?t tokens 0 (?limit div ?t))"
    unfolding w(2) by (rule walk_skeleton) simp
  have inv1: "trie_inv c1" by (rule skeleton_trie_inv [OF sk [symmetric] inv])
  have t1: "pc_tokens_per_page c1 = ?t" using sk by (simp add: skeleton_def)
  let ?rest = "take (?limit - pos1) (drop pos1 tokens)"
  let ?rs = "map (\<lambda>(ch, k). (common_len ch ?rest, k)) (tn_children n1)"
  have unfold: "match_prefix c tokens pool =
      (let none = Ok (c1, pool1, \<lparr>pm_pages = map (page_at c) ks, pm_matched_tokens = pos1, pm_copy = None\<rparr>)
       in case best_pair ?rs of None \<Rightarrow> none
        | Some (r, k) \<Rightarrow> if r > 0 then bind_outcome (pool_alloc pool1) (\<lambda>a. case a of
              None \<Rightarrow> none
            | Some (pool2, dst) \<Rightarrow> bind_outcome (cache_node c1 k) (\<lambda>m.
                Ok (set_node c1 k (m\<lparr>tn_last_use := ?now\<rparr>), pool2,
                  \<lparr>pm_pages = map (page_at c) ks, pm_matched_tokens = pos1 + r,
                   pm_copy = Some \<lparr>cp_src = tn_page m, cp_dst = dst, cp_tokens = r\<rparr>\<rparr>)))
          else none)"
    unfolding match_prefix_def Let_def w(1) bind_outcome.simps prod.case pa
    using w(6) children_lens [OF inv1 w(6)] by simp
  have refs1: "cached_refs c1 i = cached_refs c i" for i by (rule skeleton_cached_refs [OF sk])
  have own1: "pool_owners pool1 i = own i + count_list (map (page_at c) ks) i + cached_refs c i" for i
    using w(5) own unfolding pa by simp
  have none: ?thesis if "match_prefix c tokens pool = Ok (c1, pool1,
      \<lparr>pm_pages = map (page_at c) ks, pm_matched_tokens = pos1, pm_copy = None\<rparr>)"
    using that sk ks w(7,8) t inv1 w(4) own1 refs1
    by (intro exI [of _ c1] exI [of _ pool1] exI [of _ "\<lparr>pm_pages = map (page_at c) ks,
        pm_matched_tokens = pos1, pm_copy = None\<rparr>"] exI [of _ ks])
      (simp add: match_held_def copy_tokens_def accounted_def)
  show ?thesis
  proof (cases "best_pair ?rs")
    case None
    then show ?thesis using unfold by (intro none) simp
  next
    case (Some rk)
    obtain r k where rk: "rk = (r, k)" by (cases rk)
    then obtain ch where ch: "(ch, k) \<in> set (tn_children n1)" "r = common_len ch ?rest"
      using best_pair_mem [OF Some] by auto
    obtain m where m: "live c1 k m" "tn_chunk m = ch" "0 < k"
      using trie_invD(4) [OF inv1 w(6) ch(1)] by blast
    have rlim: "pos1 + r \<le> ?limit"
      using common_len_le(2) [of ch ?rest] w(8) ch(2) by simp
    have lch: "length ch = ?t" using trie_invD(5) [OF inv1 m(1,3)] m(2) t1 by simp
    have rt: "r < ?t"
    proof (rule ccontr)
      assume "\<not> r < ?t"
      then have r: "r = ?t" using common_len_le(1) [of ch ?rest] lch ch(2) by simp
      then have "ch = take ?t ?rest" using common_len_take [of ch ?rest] ch(2) lch by simp
      then have "ch = take ?t (drop pos1 tokens)" using rlim r by (simp add: min_def)
      moreover have "map_of (tn_children n1) ch = Some k"
        using ch(1) trie_invD(3) [OF inv1 w(6)] by simp
      ultimately show False using w(9) rlim r by simp
    qed
    show ?thesis
    proof (cases "r > 0")
      case False
      then show ?thesis using unfold Some rk by (intro none) simp
    next
      case True
      from w(4) show ?thesis
      proof (cases rule: pool.alloc_cases)
        case 1
        then show ?thesis using unfold Some rk True by (intro none) simp
      next
        case (2 pool2 dst)
        let ?c2 = "set_node c1 k (m\<lparr>tn_last_use := ?now\<rparr>)"
        let ?r = "\<lparr>pm_pages = map (page_at c) ks, pm_matched_tokens = pos1 + r,
            pm_copy = Some \<lparr>cp_src = tn_page m, cp_dst = dst, cp_tokens = r\<rparr>\<rparr>"
        have res: "match_prefix c tokens pool = Ok (?c2, pool2, ?r)"
          using unfold Some rk True 2(1) m(1) by simp
        have sk2: "skeleton ?c2 = skeleton c" using skeleton_touch [OF m(1)] sk by simp
        have dst: "own dst = 0" "cached_refs c dst = 0" "count_list (map (page_at c) ks) dst = 0"
          using 2(5) own1 by simp_all
        have "pool_owners pool2 i = own i + count_list (match_held ?r) i + cached_refs ?c2 i" for i
          using 2(6) own1 [of i] dst skeleton_cached_refs [OF sk2, of i]
          by (auto simp: match_held_def)
        then have "accounted ?c2 pool2 (\<lambda>i. own i + count_list (match_held ?r) i)"
          using skeleton_trie_inv [OF sk2 [symmetric] inv] 2(2) by (simp add: accounted_def)
        moreover have "0 < cached_refs c (tn_page m)" using cached_refs_pos [OF m(1,3)] refs1 by simp
        ultimately show ?thesis
          using res sk2 ks w(7) rlim rt True dst
          by (intro exI [of _ ?c2] exI [of _ pool2] exI [of _ ?r] exI [of _ ks])
            (simp add: copy_tokens_def)
      qed
    qed
  qed
qed

text \<open>Matching a prompt never panics and balances the books: exactly the pages it returns,
  and the fresh page of a copy, gain one reference for the caller. It leaves at least
  one token unmatched, a copy covers less than a page, its destination was held by
  nobody and its source is a cached page.\<close>
theorem match_prefix_accounted:
  assumes "accounted c pool own" and "tokens \<noteq> []"
  shows "\<exists>c' pool' r. match_prefix c tokens pool = Ok (c', pool', r) \<and>
    accounted c' pool' (\<lambda>i. own i + count_list (match_held r) i) \<and>
    pm_matched_tokens r = length (pm_pages r) * pc_tokens_per_page c + copy_tokens r \<and>
    pm_matched_tokens r < length tokens \<and> copy_tokens r < pc_tokens_per_page c \<and>
    (\<forall>cp. pm_copy r = Some cp \<longrightarrow> 0 < cp_tokens cp \<and> own (cp_dst cp) = 0 \<and>
      cached_refs c (cp_dst cp) = 0 \<and> 0 < cached_refs c (cp_src cp))"
proof -
  have "0 < length tokens" using assms(2) by simp
  then have less: "n \<le> length tokens - 1 \<Longrightarrow> n < length tokens" for n by linarith
  obtain c' pool' r ks where r: "match_prefix c tokens pool = Ok (c', pool', r)"
    "accounted c' pool' (\<lambda>i. own i + count_list (match_held r) i)" "pm_pages r = map (page_at c) ks"
    "pm_matched_tokens r = length ks * pc_tokens_per_page c + copy_tokens r"
    "pm_matched_tokens r \<le> length tokens - 1" "copy_tokens r < pc_tokens_per_page c"
    "\<forall>cp. pm_copy r = Some cp \<longrightarrow> 0 < cp_tokens cp \<and> own (cp_dst cp) = 0 \<and>
      cached_refs c (cp_dst cp) = 0 \<and> 0 < cached_refs c (cp_src cp)"
    using match_prefix_ok [OF assms(1), of tokens] by blast
  have "length (pm_pages r) = length ks" using r(3) by simp
  then show ?thesis
    using r less [OF r(5)] by (intro exI [of _ c'] exI [of _ pool'] exI [of _ r]) simp
qed

lemma accounted_new:
  "cache_new tpp = Ok c \<Longrightarrow> accounted c (pool_new n b t) (\<lambda>_. 0)"
proof -
  assume new: "cache_new tpp = Ok c"
  then have l: "live c i n \<longleftrightarrow> i = 0 \<and> n = \<lparr>tn_page = u32_max, tn_parent = 0, tn_chunk = [],
      tn_children = [], tn_last_use = 0\<rparr>" for i n
    by (auto simp: cache_new_def live_def split: if_splits)
  have "trie_inv c"
    using new unfolding trie_inv_def l by (auto simp: cache_new_def split: if_splits)
  moreover have "cached_refs c i = 0" for i
  proof -
    have "{k. 0 < k \<and> (\<exists>n. live c k n \<and> tn_page n = i)} = {}" by (auto simp: l)
    then show ?thesis by (simp only: cached_refs_def card.empty)
  qed
  moreover have "pool_owners (pool_new n b t) i = 0" for i by (simp add: pool_owners_def pool_new_def)
  ultimately show ?thesis by (simp add: accounted_def pool_inv_new)
qed

section \<open>Insertion\<close>

lemma store_node_ok:
  assumes inv: "trie_inv c"
  shows "\<exists>c1 k. store_node c n = Ok (c1, k) \<and> 0 < k \<and> (\<forall>x. \<not> live c k x) \<and>
    (\<forall>i x. live c1 i x \<longleftrightarrow> (if i = k then x = n else live c i x)) \<and>
    pc_tokens_per_page c1 = pc_tokens_per_page c \<and> distinct (pc_vacant c1) \<and>
    set (pc_vacant c1) = {i. 0 < i \<and> i < length (pc_nodes c1) \<and> pc_nodes c1 ! i = None}"
proof (cases "pc_vacant c")
  case Nil
  have "0 < length (pc_nodes c)" using trie_invD(2) [OF inv] by (auto simp: live_def)
  moreover have "live (c\<lparr>pc_nodes := pc_nodes c @ [Some n]\<rparr>) i x \<longleftrightarrow>
      (if i = length (pc_nodes c) then x = n else live c i x)" for i x
    by (auto simp: live_def nth_append)
  moreover have "{i. 0 < i \<and> i < Suc (length (pc_nodes c)) \<and> (pc_nodes c @ [Some n]) ! i = None} = {}"
    using trie_invD(8) [OF inv] Nil by (auto simp: nth_append less_Suc_eq)
  ultimately show ?thesis using Nil by (simp add: store_node_def live_def)
next
  case (Cons v vs)
  have v: "0 < v" "v < length (pc_nodes c)" "pc_nodes c ! v = None" "v \<notin> set vs" "distinct vs"
    using trie_invD(7,8) [OF inv] Cons by auto
  have "set vs = set (pc_vacant c) - {v}" using v Cons by auto
  then have "set vs = {i. 0 < i \<and> i < length (pc_nodes c) \<and> (pc_nodes c)[v := Some n] ! i = None}"
    using trie_invD(8) [OF inv] v by (auto simp: nth_list_update)
  moreover have "live (c\<lparr>pc_nodes := (pc_nodes c)[v := Some n], pc_vacant := vs\<rparr>) i x \<longleftrightarrow>
      (if i = v then x = n else live c i x)" for i x
    using v by (auto simp: live_def nth_list_update)
  ultimately show ?thesis using Cons v by (simp add: store_node_def live_def)
qed

text \<open>Every step of one trie is a step of the other.\<close>

definition sub_trie :: "prefix_cache \<Rightarrow> prefix_cache \<Rightarrow> bool" where
  "sub_trie c d \<longleftrightarrow> (\<forall>i n. live c i n \<longrightarrow> (\<exists>m. live d i m \<and>
     (\<forall>ch k. map_of (tn_children n) ch = Some k \<longrightarrow> map_of (tn_children m) ch = Some k)))"

lemma sub_trie_skeleton: "skeleton c = skeleton d \<Longrightarrow> sub_trie c d"
  unfolding sub_trie_def by (metis skeleton_live strip_eq)

lemma walk_sub:
  "sub_trie c d \<Longrightarrow> length (walk c at chs) = length chs \<Longrightarrow> walk d at chs = walk c at chs"
proof (induction chs arbitrary: at)
  case (Cons ch chs)
  obtain n k where n: "live c at n" and k: "map_of (tn_children n) ch = Some k"
    using Cons.prems(2) by (auto split: outcome.splits option.splits simp: cache_node_Ok)
  obtain m where m: "live d at m" "map_of (tn_children m) ch = Some k"
    using Cons.prems(1) n k unfolding sub_trie_def by blast
  show ?case using Cons n k m by simp
qed simp

lemma walk_append:
  "length (walk c at xs) = length xs \<Longrightarrow>
   walk c at (xs @ ys) = walk c at xs @ walk c (last (at # walk c at xs)) ys"
proof (induction xs arbitrary: at)
  case (Cons x xs)
  obtain n k where n: "live c at n" and k: "map_of (tn_children n) x = Some k"
    using Cons.prems by (auto split: outcome.splits option.splits simp: cache_node_Ok)
  then show ?case using Cons by simp
qed simp

lemma chunks_snoc: "chunks tpp tokens 0 (Suc j) =
    chunks tpp tokens 0 j @ [take tpp (drop (j * tpp) tokens)]"
  by (simp add: chunks_def)

text \<open>A new child below a live node.\<close>

lemma add_child:
  assumes inv: "trie_inv c" and at: "live c at n" and new: "map_of (tn_children n) chunk = None"
    and len: "length chunk = pc_tokens_per_page c"
  shows "\<exists>c1 k n1. store_node c \<lparr>tn_page = page, tn_parent = at, tn_chunk = chunk, tn_children = [],
        tn_last_use = now\<rparr> = Ok (c1, k) \<and> live c1 at n1 \<and>
    (let c2 = set_node c1 at (n1\<lparr>tn_children := (chunk, k) # filter (\<lambda>p. fst p \<noteq> chunk) (tn_children n1)\<rparr>)
     in trie_inv c2 \<and> sub_trie c c2 \<and> (\<exists>x. live c2 k x) \<and> walk c2 at [chunk] = [k] \<and>
        pc_tokens_per_page c2 = pc_tokens_per_page c \<and>
        (\<forall>i. cached_refs c2 i = cached_refs c i + (if i = page then 1 else 0)))"
proof -
  let ?new = "\<lparr>tn_page = page, tn_parent = at, tn_chunk = chunk, tn_children = [], tn_last_use = now\<rparr>"
  obtain c1 k where st: "store_node c ?new = Ok (c1, k)" and k: "0 < k" "\<And>x. \<not> live c k x"
    and l1: "\<And>i x. live c1 i x \<longleftrightarrow> (if i = k then x = ?new else live c i x)"
    and t1: "pc_tokens_per_page c1 = pc_tokens_per_page c"
    and vac: "distinct (pc_vacant c1)"
      "set (pc_vacant c1) = {i. 0 < i \<and> i < length (pc_nodes c1) \<and> pc_nodes c1 ! i = None}"
    using store_node_ok [OF inv, of ?new] by blast
  have atk: "at \<noteq> k" using at k by blast
  have at1: "live c1 at n" using l1 at atk by simp
  have fil: "filter (\<lambda>p. fst p \<noteq> chunk) (tn_children n) = tn_children n"
    using new by (auto simp: filter_id_conv map_of_eq_None_iff)
  let ?n = "n\<lparr>tn_children := (chunk, k) # tn_children n\<rparr>"
  let ?c = "set_node c1 at ?n"
  have l2: "live ?c i x \<longleftrightarrow> (if i = k then x = ?new else if i = at then x = ?n else live c i x)" for i x
  proof -
    have "at < length (pc_nodes c1)" using at1 by (simp add: live_def)
    then show ?thesis using atk by (simp add: live_set_node l1)
  qed
  have old: "\<exists>y. live ?c i y \<and> tn_page y = tn_page x \<and> tn_parent y = tn_parent x \<and>
      tn_chunk y = tn_chunk x \<and> set (tn_children x) \<subseteq> set (tn_children y)" if "live c i x" for i x
  proof -
    have "i \<noteq> k" and "i = at \<Longrightarrow> x = n" using that k live_fun [OF at] by auto
    then show ?thesis
      using that atk by (intro exI [of _ "if i = at then ?n else x"]) (auto simp: l2)
  qed
  have inv2: "trie_inv ?c" unfolding trie_inv_def
  proof (intro conjI allI impI)
    show "0 < pc_tokens_per_page ?c" using trie_invD(1) [OF inv] t1 by simp
    show "\<exists>r. live ?c 0 r" using trie_invD(2) [OF inv] old by blast
    show "distinct (pc_vacant ?c)" using vac by simp
    show "set (pc_vacant ?c) = {i. 0 < i \<and> i < length (pc_nodes ?c) \<and> pc_nodes ?c ! i = None}"
    proof -
      have "pc_nodes ?c ! i = None \<longleftrightarrow> pc_nodes c1 ! i = None" if "i < length (pc_nodes c1)" for i
        using at1 that by (cases "i = at") (simp_all add: set_node_def live_def)
      then show ?thesis unfolding set_node_simps vac(2) by blast
    qed
  next
    fix i x assume x: "live ?c i x"
    show "distinct (map fst (tn_children x))"
      using x trie_invD(3) [OF inv] at new
      by (auto simp: l2 map_of_eq_None_iff split: if_splits)
    fix ch j assume mem: "(ch, j) \<in> set (tn_children x)"
    have "0 < j \<and> (\<exists>m. live ?c j m \<and> tn_parent m = i \<and> tn_chunk m = ch)"
    proof (cases "i = at \<and> j = k \<and> ch = chunk")
      case True
      then show ?thesis using k(1) by (simp add: l2)
    next
      case False
      then obtain y where "live c i y" "(ch, j) \<in> set (tn_children y)"
        using x mem at by (auto simp: l2 split: if_splits)
      then show ?thesis using trie_invD(4) [OF inv] old by metis
    qed
    then show "0 < j" "\<exists>m. live ?c j m \<and> tn_parent m = i \<and> tn_chunk m = ch" by blast+
  next
    fix i x assume x: "live ?c i x" and i: "0 < i"
    show "length (tn_chunk x) = pc_tokens_per_page ?c"
      using x i trie_invD(5) [OF inv] len t1 at by (auto simp: l2 split: if_splits)
    show "\<exists>p. live ?c (tn_parent x) p \<and> (tn_chunk x, i) \<in> set (tn_children p)"
    proof (cases "i = k")
      case True
      then show ?thesis using x atk by (auto simp: l2)
    next
      case False
      then obtain y where "live c i y" "tn_parent y = tn_parent x" "tn_chunk y = tn_chunk x"
        using x at by (auto simp: l2 split: if_splits)
      then show ?thesis using trie_invD(6) [OF inv _ i] old by (metis subsetD)
    qed
  qed
  have sub: "sub_trie c ?c"
    unfolding sub_trie_def
  proof (intro allI impI)
    fix i x assume x: "live c i x"
    then have "i \<noteq> k" and "i = at \<Longrightarrow> x = n" using k live_fun [OF at] by auto
    then show "\<exists>m. live ?c i m \<and> (\<forall>ch j. map_of (tn_children x) ch = Some j \<longrightarrow>
        map_of (tn_children m) ch = Some j)"
      using x new by (intro exI [of _ "if i = at then ?n else x"]) (auto simp: l2)
  qed
  have "cached_refs ?c i = cached_refs c i + (if i = page then 1 else 0)" for i
  proof -
    have "(\<exists>x. live ?c j x \<and> tn_page x = i) \<longleftrightarrow>
        j = k \<and> i = page \<or> (\<exists>x. live c j x \<and> tn_page x = i)" for j
    proof (cases "j = k")
      case True
      then show ?thesis using k(2) by (auto simp: l2)
    next
      case False
      have "(\<exists>x. live c at x \<and> tn_page x = i) \<longleftrightarrow> tn_page n = i" using at live_fun by metis
      then show ?thesis using False by (cases "j = at") (simp_all add: l2)
    qed
    then have "{j. 0 < j \<and> (\<exists>x. live ?c j x \<and> tn_page x = i)} =
        {j. 0 < j \<and> (\<exists>x. live c j x \<and> tn_page x = i)} \<union> (if i = page then {k} else {})"
      using k(1) by auto
    then show ?thesis by (simp add: cached_refs_def card_insert_if k(2))
  qed
  moreover have "walk ?c at [chunk] = [k]"
  proof -
    have "live ?c at ?n" using atk by (simp add: l2)
    then show ?thesis by simp
  qed
  moreover have "\<exists>x. live ?c k x" by (simp add: l2)
  ultimately show ?thesis
    using st at1 inv2 sub t1 fil by (intro exI [of _ c1] exI [of _ k] exI [of _ n]) (simp add: Let_def)
qed

text \<open>The loop state after \<open>j\<close> pages: everything accounted, the first \<open>j\<close> chunks walkable
  from the root, and \<open>at\<close> the node they lead to.\<close>

definition inserted ::
  "nat \<Rightarrow> (page_id \<Rightarrow> nat) \<Rightarrow> nat list \<Rightarrow> nat \<Rightarrow> prefix_cache \<times> kv_pool \<times> nat \<Rightarrow> bool" where
  "inserted tpp own tokens j st \<longleftrightarrow> (case st of (c, pool, at) \<Rightarrow>
     accounted c pool own \<and> (\<exists>n. live c at n) \<and> pc_tokens_per_page c = tpp \<and>
     (let ks = walk c 0 (chunks tpp tokens 0 j) in length ks = j \<and> last (0 # ks) = at))"

lemma walk_take: "walk c at (take m chs) = take m (walk c at chs)"
  by (induction chs arbitrary: at m)
    (auto simp: take_Cons split: nat.split outcome.split option.split)

lemma take_chunks: "k \<le> n \<Longrightarrow> take k (chunks tpp tokens 0 n) = chunks tpp tokens 0 k"
  by (simp add: chunks_def take_map)

lemma length_chunks [simp]: "length (chunks tpp tokens j n) = n - j"
  by (simp add: chunks_def)

lemma insert_step_ok:
  assumes ins: "inserted tpp own tokens j (c, pool, at)" and page: "0 < own page"
    and len: "(j + 1) * tpp \<le> length tokens"
  shows "\<exists>st'. insert_step tokens now (c, pool, at) (j, page) = Ok st' \<and>
    inserted tpp own tokens (Suc j) st'"
proof -
  let ?ks = "walk c 0 (chunks tpp tokens 0 j)" and ?ch = "take tpp (drop (j * tpp) tokens)"
  obtain n where n: "live c at n" and acc: "accounted c pool own" and t: "pc_tokens_per_page c = tpp"
    and ks: "length ?ks = j" "last (0 # ?ks) = at"
    using ins by (auto simp: inserted_def Let_def)
  have inv: "trie_inv c" and pinv: "pool_inv pool" and own: "\<And>i. pool_owners pool i = own i + cached_refs c i"
    using acc by (auto simp: accounted_def)
  have lch: "length ?ch = tpp" using len by simp
  have walked: "length (walk d 0 (chunks tpp tokens 0 (Suc j))) = Suc j \<and>
      last (0 # walk d 0 (chunks tpp tokens 0 (Suc j))) = k"
    if sub: "sub_trie c d" and one: "walk d at [?ch] = [k]" for d k
  proof -
    have w: "walk d 0 (chunks tpp tokens 0 j) = ?ks" using walk_sub [OF sub] ks(1) by simp
    have "walk d 0 (chunks tpp tokens 0 (Suc j)) = ?ks @ walk d at [?ch]"
      unfolding chunks_snoc using walk_append [of d 0 "chunks tpp tokens 0 j" "[?ch]"] w ks by simp
    then show ?thesis using one ks(1) by simp
  qed
  show ?thesis
  proof (cases "map_of (tn_children n) ?ch")
    case (Some k)
    obtain m where m: "live c k m" "0 < k" by (rule child_live [OF inv n Some])
    let ?c = "set_node c k (m\<lparr>tn_last_use := now\<rparr>)"
    have sk: "skeleton ?c = skeleton c" by (rule skeleton_touch [OF m(1)])
    have "insert_step tokens now (c, pool, at) (j, page) = Ok (?c, pool, k)"
      using n Some m t by (simp add: insert_step_def Let_def)
    moreover have "accounted ?c pool own"
      using skeleton_trie_inv [OF sk [symmetric] inv] pinv own skeleton_cached_refs [OF sk]
      by (simp add: accounted_def)
    moreover have "walk ?c at [?ch] = [k]" unfolding walk_skeleton [OF sk] using n Some by simp
    then have "length (walk ?c 0 (chunks tpp tokens 0 (Suc j))) = Suc j \<and>
        last (0 # walk ?c 0 (chunks tpp tokens 0 (Suc j))) = k"
      by (rule walked [OF sub_trie_skeleton [OF sk [symmetric]]])
    moreover have "live ?c k (m\<lparr>tn_last_use := now\<rparr>)"
      using m(1) unfolding live_set_node by (simp add: live_def)
    ultimately show ?thesis
      using t by (intro exI [of _ "(?c, pool, k)"]) (auto simp: inserted_def Let_def)
  next
    case None
    have "length ?ch = pc_tokens_per_page c" using lch t by simp
    from add_child [OF inv n None this, of page now]
    obtain c1 k n1 where st: "store_node c \<lparr>tn_page = page, tn_parent = at, tn_chunk = ?ch,
          tn_children = [], tn_last_use = now\<rparr> = Ok (c1, k)" and n1: "live c1 at n1"
      and c2: "let c2 = set_node c1 at (n1\<lparr>tn_children := (?ch, k) #
            filter (\<lambda>p. fst p \<noteq> ?ch) (tn_children n1)\<rparr>)
        in trie_inv c2 \<and> sub_trie c c2 \<and> (\<exists>x. live c2 k x) \<and> walk c2 at [?ch] = [k] \<and>
          pc_tokens_per_page c2 = pc_tokens_per_page c \<and>
          (\<forall>i. cached_refs c2 i = cached_refs c i + (if i = page then 1 else 0))"
      by blast
    define d where "d = set_node c1 at (n1\<lparr>tn_children := (?ch, k) #
        filter (\<lambda>p. fst p \<noteq> ?ch) (tn_children n1)\<rparr>)"
    have d: "trie_inv d" "sub_trie c d" "\<exists>x. live d k x" "walk d at [?ch] = [k]"
        "pc_tokens_per_page d = tpp"
        "\<And>i. cached_refs d i = cached_refs c i + (if i = page then 1 else 0)"
      using c2 t unfolding Let_def d_def by simp_all
    have "0 < pool_owners pool page" using own page by simp
    then obtain pool' where p': "pool_retain pool page = Ok pool'" "pool_inv pool'"
        "pool_owners pool' = (pool_owners pool)(page := pool_owners pool page + 1)"
      using pool.retain_ok [OF pinv] by blast
    have "insert_step tokens now (c, pool, at) (j, page) = Ok (d, pool', k)"
      using n None t p'(1) st n1 by (simp add: insert_step_def Let_def d_def)
    moreover have "accounted d pool' own"
      using d(1,6) p'(2,3) own by (simp add: accounted_def)
    ultimately show ?thesis
      using walked [OF d(2,4)] d(3,5)
      by (intro exI [of _ "(d, pool', k)"]) (auto simp: inserted_def Let_def)
  qed
qed

lemma insert_loop_ok:
  assumes "inserted tpp own tokens 0 st" and "full \<le> length ps" and "full * tpp \<le> length tokens"
    and "\<forall>p \<in> set ps. 0 < own p"
  shows "\<exists>st'. for_each (insert_step tokens now) st (zip [0..<full] (take full ps)) = Ok st' \<and>
    inserted tpp own tokens full st'"
  using assms(2,3)
proof (induction full)
  case 0
  then show ?case using assms(1) by simp
next
  case (Suc j)
  then obtain st' where st': "for_each (insert_step tokens now) st (zip [0..<j] (take j ps)) = Ok st'"
      "inserted tpp own tokens j st'" by auto
  obtain c pool at where s: "st' = (c, pool, at)" by (cases st')
  have "0 < own (ps ! j)" using Suc.prems(1) assms(4) by simp
  then obtain st2 where "insert_step tokens now st' (j, ps ! j) = Ok st2"
      "inserted tpp own tokens (Suc j) st2"
    using insert_step_ok [of tpp own tokens j c pool at "ps ! j" now] st'(2) s Suc.prems(2) by auto
  moreover have "zip [0..<Suc j] (take (Suc j) ps) = zip [0..<j] (take j ps) @ [(j, ps ! j)]"
    using Suc.prems(1) by (simp add: take_Suc_conv_app_nth)
  ultimately show ?case using st'(1) by (simp add: for_each_append)
qed

lemma cache_insert_ok:
  assumes acc: "accounted c pool own" and own: "\<forall>p \<in> set (bt_pages table). 0 < own p"
  shows "\<exists>c' pool'. cache_insert c tokens table pool = Ok (c', pool') \<and> accounted c' pool' own \<and>
    pc_tokens_per_page c' = pc_tokens_per_page c \<and>
    (let full = min (length tokens div pc_tokens_per_page c) (page_count table) in
     length (walk c' 0 (chunks (pc_tokens_per_page c) tokens 0 full)) = full)"
proof -
  let ?t = "pc_tokens_per_page c" and ?c0 = "c\<lparr>pc_clock := pc_clock c + 1\<rparr>"
  let ?full = "min (length tokens div ?t) (page_count table)"
  have inv: "trie_inv c" using acc by (simp add: accounted_def)
  have t: "0 < ?t" by (rule trie_invD(1) [OF inv])
  have sk: "skeleton c = skeleton ?c0" by simp
  have "accounted ?c0 pool own"
    using acc skeleton_trie_inv [OF sk inv] skeleton_cached_refs [OF sk] by (simp add: accounted_def)
  moreover have "\<exists>n. live ?c0 0 n" using trie_invD(2) [OF inv] by simp
  ultimately have start: "inserted ?t own tokens 0 (?c0, pool, 0)"
    by (simp add: inserted_def chunks_def)
  have "?full * ?t \<le> length tokens"
    by (meson div_times_less_eq_dividend le_trans min.cobounded1 mult_le_mono1)
  then obtain st' where st': "for_each (insert_step tokens (pc_clock c + 1)) (?c0, pool, 0)
        (zip [0..<?full] (take ?full (bt_pages table))) = Ok st'" "inserted ?t own tokens ?full st'"
    using insert_loop_ok [OF start _ _ own, of ?full "pc_clock c + 1"] by (auto simp: page_count_def)
  obtain c' pool' at where s: "st' = (c', pool', at)" by (cases st')
  then have "cache_insert c tokens table pool = Ok (c', pool')"
    using st'(1) t by (simp add: cache_insert_def Let_def)
  then show ?thesis using st'(2) s by (auto simp: inserted_def Let_def)
qed

text \<open>C12. Indexing a finished sequence never panics, takes one reference for each page it
  newly indexes and nothing else.\<close>
theorem cache_insert_accounted:
  assumes "accounted c pool own" and "\<forall>p \<in> set (bt_pages table). 0 < own p"
  shows "\<exists>c' pool'. cache_insert c tokens table pool = Ok (c', pool') \<and> accounted c' pool' own"
  using cache_insert_ok [OF assms] by blast


section \<open>Eviction\<close>

definition evictable_node :: "kv_pool \<Rightarrow> trie_node \<Rightarrow> bool" where
  "evictable_node pool n \<longleftrightarrow> tn_children n = [] \<and> pool_owners pool (tn_page n) = 1"

lemma evictable_eq:
  "tn_page n < length (kp_refs pool) \<Longrightarrow> evictable pool n = Ok (evictable_node pool n)"
  by (simp add: evictable_def evictable_node_def pool_ref_count_def pool_owners_def)

text \<open>\<open>b\<close> is the first of the least recently used among \<open>best\<close> and the evictable slots of \<open>ns\<close>,
  numbered from \<open>i\<close>.\<close>

definition slot_of ::
  "kv_pool \<Rightarrow> nat \<Rightarrow> trie_node option list \<Rightarrow> nat \<Rightarrow> nat \<Rightarrow> bool" where
  "slot_of pool i ns w u \<longleftrightarrow>
     (\<exists>n. i \<le> w \<and> w - i < length ns \<and> ns ! (w - i) = Some n \<and> u = tn_last_use n \<and>
        evictable_node pool n)"

definition victim_post ::
  "kv_pool \<Rightarrow> nat \<Rightarrow> trie_node option list \<Rightarrow> (nat \<times> nat) option \<Rightarrow> (nat \<times> nat) option \<Rightarrow> bool" where
  "victim_post pool i ns best b \<longleftrightarrow>
     (case b of
        None \<Rightarrow> best = None \<and> (\<forall>n. Some n \<in> set ns \<longrightarrow> \<not> evictable_node pool n)
      | Some (w, u) \<Rightarrow>
          (best = Some (w, u) \<or> slot_of pool i ns w u) \<and>
          (\<forall>n. Some n \<in> set ns \<longrightarrow> evictable_node pool n \<longrightarrow> u \<le> tn_last_use n) \<and>
          (\<forall>w' u'. best = Some (w', u') \<longrightarrow> u \<le> u'))"

lemma slot_of_Cons: "slot_of pool (Suc i) ns w u \<Longrightarrow> slot_of pool i (x # ns) w u"
  by (cases w) (auto simp: slot_of_def nth_Cons Suc_diff_le split: nat.split)

lemma slot_of_head: "evictable_node pool n \<Longrightarrow> slot_of pool i (Some n # ns) i (tn_last_use n)"
  by (simp add: slot_of_def)

lemma victim_post_None:
  "victim_post pool (Suc i) ns best b \<Longrightarrow> victim_post pool i (None # ns) best b"
  by (auto simp: victim_post_def split: option.splits intro: slot_of_Cons)

lemma victim_post_Some:
  assumes "victim_post pool (Suc i) ns
    (if evictable_node pool n \<and> (case best of None \<Rightarrow> True | Some (_, u) \<Rightarrow> tn_last_use n < u)
     then Some (i, tn_last_use n) else best) b"
  shows "victim_post pool i (Some n # ns) best b"
proof (cases "evictable_node pool n \<and> (case best of None \<Rightarrow> True | Some (_, u) \<Rightarrow> tn_last_use n < u)")
  case True
  have post: "victim_post pool (Suc i) ns (Some (i, tn_last_use n)) b"
    using assms unfolding if_P [OF True] by simp
  then obtain w u where b: "b = Some (w, u)" by (cases b) (auto simp: victim_post_def)
  have "u \<le> tn_last_use n" "(w = i \<and> u = tn_last_use n) \<or> slot_of pool (Suc i) ns w u"
    "\<forall>n. Some n \<in> set ns \<longrightarrow> evictable_node pool n \<longrightarrow> u \<le> tn_last_use n"
    using post b by (auto simp: victim_post_def)
  then show ?thesis
    using True b slot_of_head [of pool n i ns] slot_of_Cons
    by (cases best) (auto simp: victim_post_def)
next
  case False
  have post: "victim_post pool (Suc i) ns best b" using assms unfolding if_not_P [OF False] by simp
  have "evictable_node pool n \<Longrightarrow> \<exists>w u. best = Some (w, u) \<and> u \<le> tn_last_use n"
    using False by (cases best) auto
  then show ?thesis
    using post slot_of_Cons by (cases b; cases best) (auto simp: victim_post_def)
qed

lemma find_victim_ok:
  assumes "\<forall>n. Some n \<in> set ns \<longrightarrow> tn_page n < length (kp_refs pool)"
  shows "\<exists>b. find_victim pool i ns best = Ok (map_option fst b) \<and> victim_post pool i ns best b"
  using assms
proof (induction pool i ns best rule: find_victim.induct)
  case (1 pool i best)
  then show ?case by (intro exI [of _ best]) (auto simp: victim_post_def split: option.split)
next
  case (2 pool i ns best)
  then show ?case using victim_post_None by fastforce
next
  case (3 pool i n ns best)
  have e: "evictable pool n = Ok (evictable_node pool n)" using 3(2) by (intro evictable_eq) simp
  from 3(1) [OF e] 3(2) obtain b where
    "find_victim pool (Suc i) ns (if evictable_node pool n \<and>
        (case best of None \<Rightarrow> True | Some (_, u) \<Rightarrow> tn_last_use n < u)
      then Some (i, tn_last_use n) else best) = Ok (map_option fst b)"
    and "victim_post pool (Suc i) ns (if evictable_node pool n \<and>
        (case best of None \<Rightarrow> True | Some (_, u) \<Rightarrow> tn_last_use n < u)
      then Some (i, tn_last_use n) else best) b"
    by (metis list.set_intros(2))
  then show ?case using e victim_post_Some by (intro exI [of _ b]) simp
qed

text \<open>The victim: none only when nothing can be evicted, else the least recently used leaf
  whose page only the cache holds.\<close>

lemma victim_ok:
  assumes acc: "accounted c pool own"
  shows "\<exists>v. find_victim pool 1 (tl (pc_nodes c)) None = Ok v \<and>
    (case v of
       None \<Rightarrow> \<forall>i n. 0 < i \<longrightarrow> live c i n \<longrightarrow> \<not> evictable_node pool n
     | Some w \<Rightarrow> 0 < w \<and> (\<exists>n. live c w n \<and> evictable_node pool n \<and>
         (\<forall>i m. 0 < i \<longrightarrow> live c i m \<longrightarrow> evictable_node pool m \<longrightarrow> tn_last_use n \<le> tn_last_use m)))"
proof -
  have ne: "pc_nodes c \<noteq> []" using acc trie_invD(2) [of c] by (auto simp: accounted_def live_def)
  have tl: "Some n \<in> set (tl (pc_nodes c)) \<longleftrightarrow> (\<exists>i. 0 < i \<and> live c i n)" for n
  proof
    assume "Some n \<in> set (tl (pc_nodes c))"
    then obtain i where "i < length (tl (pc_nodes c))" "tl (pc_nodes c) ! i = Some n"
      by (auto simp: in_set_conv_nth)
    then show "\<exists>i. 0 < i \<and> live c i n"
      by (intro exI [of _ "Suc i"]) (simp add: live_def nth_tl)
  next
    assume "\<exists>i. 0 < i \<and> live c i n"
    then obtain i where "0 < i" "live c i n" by blast
    then have "i - 1 < length (tl (pc_nodes c))" "tl (pc_nodes c) ! (i - 1) = Some n"
      by (auto simp: live_def nth_tl)
    then show "Some n \<in> set (tl (pc_nodes c))" by (metis nth_mem)
  qed
  have range: "tn_page n < length (kp_refs pool)" if "0 < i" "live c i n" for i n
    using accounted_page [OF acc that(2,1)] by (simp add: pool_owners_def split: if_splits)
  then obtain b where b: "find_victim pool 1 (tl (pc_nodes c)) None = Ok (map_option fst b)"
      "victim_post pool 1 (tl (pc_nodes c)) None b"
    using find_victim_ok [of "tl (pc_nodes c)" pool 1 None] tl by blast
  show ?thesis
  proof (cases b)
    case None
    then show ?thesis using b tl by (auto simp: victim_post_def)
  next
    case (Some wu)
    obtain w u where wu: "wu = (w, u)" by (cases wu)
    obtain n where n: "1 \<le> w" "w - 1 < length (tl (pc_nodes c))" "tl (pc_nodes c) ! (w - 1) = Some n"
        "u = tn_last_use n" "evictable_node pool n"
      using b(2) Some wu by (auto simp: victim_post_def slot_of_def)
    then have "live c w n" by (auto simp: live_def nth_tl)
    then show ?thesis using b Some wu n tl by (auto simp: victim_post_def)
  qed
qed

lemma cached_pages_card:
  assumes inv: "trie_inv c"
  shows "cached_pages c = card {k. 0 < k \<and> (\<exists>n. live c k n)}"
proof -
  let ?L = "{k. 0 < k \<and> (\<exists>n. live c k n)}"
  have ne: "0 < length (pc_nodes c)" using trie_invD(2) [OF inv] by (auto simp: live_def)
  have all: "{1..<length (pc_nodes c)} = ?L \<union> set (pc_vacant c)"
    unfolding trie_invD(8) [OF inv] by (auto simp: live_def)
  have "?L \<inter> set (pc_vacant c) = {}" unfolding trie_invD(8) [OF inv] by (auto simp: live_def)
  moreover have "finite ?L" using finite_live [of c "\<lambda>_ _. True"] by simp
  ultimately have "length (pc_nodes c) - 1 = card ?L + length (pc_vacant c)"
    using all card_Un_disjoint [of ?L "set (pc_vacant c)"] distinct_card [OF trie_invD(7) [OF inv]]
    by (metis List.finite_set card_atLeastLessThan)
  then show ?thesis by (simp add: cached_pages_def)
qed

lemma cached_refs_insert:
  "{k. 0 < k \<and> (\<exists>x. live c k x \<and> tn_page x = i)} =
     insert v {k. 0 < k \<and> (\<exists>x. live d k x \<and> tn_page x = i)} \<Longrightarrow>
   (\<And>x. \<not> live d v x) \<Longrightarrow> cached_refs c i = Suc (cached_refs d i)"
  by (simp add: cached_refs_def card_insert_if)

lemma evict_node_ok:
  assumes acc: "accounted c pool own" and v: "0 < v" "live c v n" "evictable_node pool n"
  shows "\<exists>c' pool'. evict_node c pool v = Ok (c', pool') \<and> accounted c' pool' own \<and>
    cached_pages c = Suc (cached_pages c') \<and> pc_tokens_per_page c' = pc_tokens_per_page c \<and>
    pool_owners pool (tn_page n) = 1 \<and> pool_owners pool' (tn_page n) = 0 \<and>
    pool_pages pool' = pool_pages pool \<and> (\<forall>i. pool_owners pool' i \<le> pool_owners pool i)"
proof -
  have inv: "trie_inv c" and pinv: "pool_inv pool" and own: "\<And>i. pool_owners pool i = own i + cached_refs c i"
    using acc by (auto simp: accounted_def)
  have leaf: "tn_children n = []" and one: "pool_owners pool (tn_page n) = 1"
    using v(3) by (auto simp: evictable_node_def)
  obtain p where p: "live c (tn_parent n) p" "(tn_chunk n, v) \<in> set (tn_children p)"
    using trie_invD(6) [OF inv v(2,1)] by blast
  have pv: "tn_parent n \<noteq> v" using p v(2) leaf live_fun by fastforce
  let ?c1 = "c\<lparr>pc_nodes := (pc_nodes c)[v := None]\<rparr>"
  let ?p = "p\<lparr>tn_children := filter (\<lambda>q. fst q \<noteq> tn_chunk n) (tn_children p)\<rparr>"
  let ?c2 = "set_node ?c1 (tn_parent n) ?p"
  let ?c = "?c2\<lparr>pc_vacant := v # pc_vacant ?c2\<rparr>"
  have p1: "live ?c1 (tn_parent n) p" using p(1) pv by (simp add: live_def)
  have l: "live ?c i x \<longleftrightarrow> i \<noteq> v \<and> (if i = tn_parent n then x = ?p else live c i x)" for i x
    using p(1) v(2) pv by (auto simp: live_def set_node_def nth_list_update)
  have key: "fst q = tn_chunk n \<longleftrightarrow> snd q = v" if q: "q \<in> set (tn_children p)" for q
  proof
    assume "fst q = tn_chunk n"
    then show "snd q = v"
      using q p(2) trie_invD(3) [OF inv p(1)] by (metis map_of_is_SomeI option.inject prod.collapse)
  next
    assume "snd q = v"
    then show "fst q = tn_chunk n"
      using trie_invD(4) [OF inv p(1), of "fst q" "snd q"] q live_fun [OF v(2)] by fastforce
  qed
  then have kids: "set (tn_children ?p) = {q \<in> set (tn_children p). snd q \<noteq> v}" by auto
  have same: "\<exists>y. live c i y \<and> tn_page y = tn_page x \<and> tn_parent y = tn_parent x \<and>
      tn_chunk y = tn_chunk x \<and> set (tn_children x) = {q \<in> set (tn_children y). snd q \<noteq> v} \<and>
      distinct (map fst (tn_children x))" if x: "live ?c i x" for i x
  proof (cases "i = tn_parent n")
    case True
    have "distinct (map fst (tn_children ?p))"
      using trie_invD(3) [OF inv p(1)] by (simp add: distinct_map_filter)
    moreover have "x = ?p" using x True l by simp
    ultimately show ?thesis using True p(1) kids by (intro exI [of _ p]) simp
  next
    case False
    then have lx: "live c i x" using x l by simp
    have "snd q \<noteq> v" if mem: "q \<in> set (tn_children x)" for q
      using trie_invD(4) [OF inv lx, of "fst q" "snd q"] mem False live_fun [OF v(2)] by fastforce
    then have "set (tn_children x) = {q \<in> set (tn_children x). snd q \<noteq> v}" by blast
    then show ?thesis using lx trie_invD(3) [OF inv lx] by blast
  qed
  have keep: "\<exists>y. live ?c i y \<and> tn_page y = tn_page x \<and> tn_parent y = tn_parent x \<and>
      tn_chunk y = tn_chunk x \<and> {q \<in> set (tn_children x). snd q \<noteq> v} \<subseteq> set (tn_children y)"
    if x: "live c i x" "i \<noteq> v" for i x
  proof (cases "i = tn_parent n")
    case True
    then have "x = p" using x(1) p(1) live_fun by blast
    moreover have "live ?c i ?p" using True l pv by simp
    ultimately show ?thesis using kids by (intro exI [of _ ?p]) simp
  next
    case False
    then show ?thesis using x l by (intro exI [of _ x]) auto
  qed
  have inv': "trie_inv ?c" unfolding trie_inv_def
  proof (intro conjI allI impI)
    show "0 < pc_tokens_per_page ?c" using trie_invD(1) [OF inv] by simp
    show "\<exists>r. live ?c 0 r" using trie_invD(2) [OF inv] keep v(1) by blast
    have nv: "v \<notin> set (pc_vacant c)" using v(2) trie_invD(8) [OF inv] by (auto simp: live_def)
    then show "distinct (pc_vacant ?c)" using trie_invD(7) [OF inv] by simp
    have "pc_nodes ?c ! i = None \<longleftrightarrow> i = v \<or> pc_nodes c ! i = None" if "i < length (pc_nodes c)" for i
      using that p(1) pv
      by (cases "i = tn_parent n"; cases "i = v") (simp_all add: set_node_def live_def)
    moreover have "v < length (pc_nodes c)" using v(2) by (simp add: live_def)
    moreover have "set (pc_vacant ?c) = insert v (set (pc_vacant c))" and
      "length (pc_nodes ?c) = length (pc_nodes c)" by simp_all
    ultimately show "set (pc_vacant ?c) = {i. 0 < i \<and> i < length (pc_nodes ?c) \<and> pc_nodes ?c ! i = None}"
      using trie_invD(8) [OF inv] v(1) by auto
  next
    fix i x assume x: "live ?c i x"
    then obtain y where y: "live c i y" "tn_page y = tn_page x" "tn_parent y = tn_parent x"
        "tn_chunk y = tn_chunk x" "set (tn_children x) = {q \<in> set (tn_children y). snd q \<noteq> v}"
        "distinct (map fst (tn_children x))"
      using same by blast
    show "distinct (map fst (tn_children x))" by (rule y(6))
    fix ch j assume "(ch, j) \<in> set (tn_children x)"
    then have j: "(ch, j) \<in> set (tn_children y)" "j \<noteq> v" using y(5) by auto
    obtain m where m: "0 < j" "live c j m" "tn_parent m = i" "tn_chunk m = ch"
      using trie_invD(4) [OF inv y(1) j(1)] by blast
    show "0 < j" by (rule m(1))
    show "\<exists>m. live ?c j m \<and> tn_parent m = i \<and> tn_chunk m = ch" using keep [OF m(2) j(2)] unfolding m(3,4) by blast
  next
    fix i x assume x: "live ?c i x" and i: "0 < i"
    have iv: "i \<noteq> v" using x l by simp
    obtain y where y: "live c i y" "tn_parent y = tn_parent x" "tn_chunk y = tn_chunk x"
      using same [OF x] by blast
    show "length (tn_chunk x) = pc_tokens_per_page ?c" using trie_invD(5) [OF inv y(1) i] y by simp
    obtain q where q: "live c (tn_parent y) q" "(tn_chunk y, i) \<in> set (tn_children q)"
      using trie_invD(6) [OF inv y(1) i] by blast
    have "tn_parent y \<noteq> v" using q v(2) leaf live_fun by fastforce
    then obtain r where r: "live ?c (tn_parent y) r"
        "{q' \<in> set (tn_children q). snd q' \<noteq> v} \<subseteq> set (tn_children r)"
      using keep [OF q(1)] by blast
    then have "(tn_chunk y, i) \<in> set (tn_children r)" using q(2) iv by auto
    then show "\<exists>p. live ?c (tn_parent x) p \<and> (tn_chunk x, i) \<in> set (tn_children p)"
      using r(1) unfolding y(2,3) by blast
  qed
  have who: "(\<exists>x. live ?c j x \<and> P (tn_page x)) \<longleftrightarrow> j \<noteq> v \<and> (\<exists>x. live c j x \<and> P (tn_page x))" for j P
  proof
    assume "\<exists>x. live ?c j x \<and> P (tn_page x)"
    then obtain x where x: "live ?c j x" "P (tn_page x)" by blast
    moreover from x(1) have "j \<noteq> v" unfolding l by blast
    moreover obtain y where "live c j y" "tn_page y = tn_page x" using same [OF x(1)] by blast
    ultimately show "j \<noteq> v \<and> (\<exists>x. live c j x \<and> P (tn_page x))" by auto
  next
    assume "j \<noteq> v \<and> (\<exists>x. live c j x \<and> P (tn_page x))"
    then obtain x where x: "live c j x" "j \<noteq> v" "P (tn_page x)" by blast
    obtain y where y: "live ?c j y" "tn_page y = tn_page x" using keep [OF x(1,2)] by blast
    have "P (tn_page y)" unfolding y(2) by (rule x(3))
    then show "\<exists>x. live ?c j x \<and> P (tn_page x)" using y(1) by blast
  qed
  have dead: "\<not> live ?c v x" for x unfolding l by blast
  have "{k. 0 < k \<and> (\<exists>x. live c k x \<and> True)} = insert v {k. 0 < k \<and> (\<exists>x. live ?c k x \<and> True)}"
    using who [of _ "\<lambda>_. True"] v by auto
  moreover have "v \<notin> {k. 0 < k \<and> (\<exists>x. live ?c k x \<and> True)}" using l by simp
  ultimately have pages: "cached_pages c = Suc (cached_pages ?c)"
    using cached_pages_card [OF inv] cached_pages_card [OF inv'] finite_live [of ?c "\<lambda>_ _. True"] by simp
  have refs: "cached_refs c i = cached_refs ?c i + (if i = tn_page n then 1 else 0)" for i
  proof (cases "i = tn_page n")
    case True
    have "{k. 0 < k \<and> (\<exists>x. live c k x \<and> tn_page x = i)} =
        insert v {k. 0 < k \<and> (\<exists>x. live ?c k x \<and> tn_page x = i)}"
      using who [of _ "\<lambda>g. g = i"] v True by auto
    then have "cached_refs c i = Suc (cached_refs ?c i)" by (rule cached_refs_insert) (rule dead)
    then show ?thesis using True by simp
  next
    case False
    have "(\<exists>x. live c v x \<and> tn_page x = i) = False" using False v(2) live_fun by blast
    then have "{k. 0 < k \<and> (\<exists>x. live c k x \<and> tn_page x = i)} =
        {k. 0 < k \<and> (\<exists>x. live ?c k x \<and> tn_page x = i)}"
      using who [of _ "\<lambda>g. g = i"] by auto
    then show ?thesis using False by (simp add: cached_refs_def)
  qed
  obtain pool' where p': "pool_free pool (tn_page n) = Ok pool'" "pool_inv pool'"
      "pool_pages pool' = pool_pages pool"
      "pool_owners pool' = (pool_owners pool)(tn_page n := pool_owners pool (tn_page n) - 1)"
    using pool.release_ok [OF pinv, of "tn_page n"] one by auto
  have "evict_node c pool v = Ok (?c, pool')"
    using v(2) p1 p'(1) by (simp add: evict_node_def Let_def)
  moreover have "pool_owners pool' i = own i + cached_refs ?c i" for i
    using own [of i] refs [of i] p'(4) one by auto
  moreover have "accounted ?c pool' own"
    unfolding accounted_def using inv' p'(2) calculation(2) by blast
  moreover have "pool_owners pool' i \<le> pool_owners pool i" for i using p'(4) by simp
  moreover have "pc_tokens_per_page ?c = pc_tokens_per_page c" "pool_owners pool' (tn_page n) = 0"
    using p'(4) one by simp_all
  ultimately show ?thesis using one pages p'(3) by blast
qed

lemma evict_ok:
  assumes "accounted c pool own"
  shows "\<exists>c' pool' freed. evict c want pool = Ok (c', pool', freed) \<and> accounted c' pool' own \<and>
    freed \<le> want \<and> cached_pages c = cached_pages c' + freed \<and>
    pc_tokens_per_page c' = pc_tokens_per_page c \<and> pool_pages pool' = pool_pages pool \<and>
    (\<forall>i. pool_owners pool' i \<le> pool_owners pool i) \<and>
    (freed < want \<longrightarrow> (\<forall>i n. 0 < i \<longrightarrow> live c' i n \<longrightarrow> \<not> evictable_node pool' n)) \<and>
    (0 < freed \<longrightarrow> (\<exists>i \<in> pool_pages pool'. pool_owners pool' i = 0))"
  using assms
proof (induction want arbitrary: c pool)
  case 0
  then show ?case by simp
next
  case (Suc want)
  obtain v where v: "find_victim pool 1 (tl (pc_nodes c)) None = Ok v"
    "case v of None \<Rightarrow> \<forall>i n. 0 < i \<longrightarrow> live c i n \<longrightarrow> \<not> evictable_node pool n
     | Some w \<Rightarrow> 0 < w \<and> (\<exists>n. live c w n \<and> evictable_node pool n \<and>
         (\<forall>i m. 0 < i \<longrightarrow> live c i m \<longrightarrow> evictable_node pool m \<longrightarrow> tn_last_use n \<le> tn_last_use m))"
    using victim_ok [OF Suc.prems] by blast
  show ?case
  proof (cases v)
    case None
    then show ?thesis
      using v Suc.prems by (intro exI [of _ c] exI [of _ pool] exI [of _ 0]) simp
  next
    case (Some w)
    then obtain n where n: "0 < w" "live c w n" "evictable_node pool n" using v(2) by auto
    obtain c1 pool1 where e: "evict_node c pool w = Ok (c1, pool1)" "accounted c1 pool1 own"
        "cached_pages c = Suc (cached_pages c1)" "pc_tokens_per_page c1 = pc_tokens_per_page c"
        "pool_owners pool (tn_page n) = 1" "pool_owners pool1 (tn_page n) = 0"
        "pool_pages pool1 = pool_pages pool" "\<forall>i. pool_owners pool1 i \<le> pool_owners pool i"
      using evict_node_ok [OF Suc.prems n] by blast
    obtain c2 pool2 freed where r: "evict c1 want pool1 = Ok (c2, pool2, freed)"
        "accounted c2 pool2 own" "freed \<le> want" "cached_pages c1 = cached_pages c2 + freed"
        "pc_tokens_per_page c2 = pc_tokens_per_page c1" "pool_pages pool2 = pool_pages pool1"
        "\<forall>i. pool_owners pool2 i \<le> pool_owners pool1 i"
        "freed < want \<longrightarrow> (\<forall>i n. 0 < i \<longrightarrow> live c2 i n \<longrightarrow> \<not> evictable_node pool2 n)"
        "0 < freed \<longrightarrow> (\<exists>i \<in> pool_pages pool2. pool_owners pool2 i = 0)"
      using Suc.IH [OF e(2)] by blast
    have "tn_page n \<in> pool_pages pool"
      using e(5) pool.owners_pages [of pool "tn_page n"] Suc.prems by (simp add: accounted_def)
    moreover have "pool_owners pool2 (tn_page n) = 0" using r(7) e(6) by (metis le_zero_eq)
    moreover have "\<forall>i. pool_owners pool2 i \<le> pool_owners pool i" using r(7) e(8) le_trans by blast
    ultimately show ?thesis
      using v(1) Some e(1,3,4,7) r(1-6,8)
      by (intro exI [of _ c2] exI [of _ pool2] exI [of _ "Suc freed"]) auto
  qed
qed


lemma cache_alloc_ok:
  assumes acc: "accounted c pool own"
  shows "\<exists>c' pool' r. cache_alloc c pool = Ok (c', pool', r) \<and>
    (case r of
       Some i \<Rightarrow> own i = 0 \<and> cached_refs c' i = 0 \<and> accounted c' pool' (own(i := 1))
     | None \<Rightarrow> accounted c' pool' own \<and> (\<forall>i \<in> pool_pages pool'. 0 < pool_owners pool' i) \<and>
         (\<forall>i n. 0 < i \<longrightarrow> live c' i n \<longrightarrow> \<not> evictable_node pool' n))"
proof -
  have got: "own j = 0 \<and> cached_refs d j = 0 \<and> accounted d q' (own(j := 1))"
    if "accounted d q own" "pool_inv q'" "pool_owners q j = 0" "pool_owners q' = (pool_owners q)(j := 1)"
    for d q q' j
    using that by (auto simp: accounted_def)
  have "pool_inv pool" using acc by (simp add: accounted_def)
  then show ?thesis
  proof (cases rule: pool.alloc_cases)
    case (2 pool' j)
    then show ?thesis
      using got [OF acc 2(2,5,6)]
      by (intro exI [of _ c] exI [of _ pool'] exI [of _ "Some j"]) (simp add: cache_alloc_def)
  next
    case 1
    obtain c1 pool1 freed where e: "evict c 1 pool = Ok (c1, pool1, freed)" "accounted c1 pool1 own"
        "freed \<le> 1" "freed < 1 \<longrightarrow> (\<forall>i n. 0 < i \<longrightarrow> live c1 i n \<longrightarrow> \<not> evictable_node pool1 n)"
        "0 < freed \<longrightarrow> (\<exists>i \<in> pool_pages pool1. pool_owners pool1 i = 0)"
      using evict_ok [OF acc, of 1] by blast
    have "pool_inv pool1" using e(2) by (simp add: accounted_def)
    then show ?thesis
    proof (cases rule: pool.alloc_cases)
      case none: 1
      then have "freed = 0" using e(5) by fastforce
      then show ?thesis
        using 1(1) e none by (intro exI [of _ c1] exI [of _ pool1] exI [of _ None]) (simp add: cache_alloc_def)
    next
      case (2 pool' j)
      then show ?thesis
        using got [OF e(2) 2(2,5,6)] 1(1) e(1)
        by (intro exI [of _ c1] exI [of _ pool'] exI [of _ "Some j"]) (simp add: cache_alloc_def)
    qed
  qed
qed

text \<open>A page handed out belongs to nobody else: no block table holds it and the cache no
  longer indexes it. The allocation fails only when every page is referenced and no
  cached leaf can be given up.\<close>
theorem cache_alloc_exclusive:
  assumes "accounted c pool own"
  shows "\<exists>c' pool' r. cache_alloc c pool = Ok (c', pool', r) \<and>
    (case r of
       Some i \<Rightarrow> own i = 0 \<and> cached_refs c' i = 0 \<and> accounted c' pool' (own(i := 1))
     | None \<Rightarrow> accounted c' pool' own \<and> (\<forall>i \<in> pool_pages pool'. 0 < pool_owners pool' i) \<and>
         (\<forall>i n. 0 < i \<longrightarrow> live c' i n \<longrightarrow> \<not> evictable_node pool' n))"
  by (rule cache_alloc_ok [OF assms])

section \<open>A cache with one indexed page\<close>

text \<open>Two tokens per page, two pages; page 0 holds the tokens \<open>7, 8\<close> and is held by a block
  table and by the cache.\<close>

definition sample_cache :: prefix_cache where
  "sample_cache = \<lparr>pc_tokens_per_page = 2, pc_nodes =
     [Some \<lparr>tn_page = u32_max, tn_parent = 0, tn_chunk = [], tn_children = [([7, 8], 1)],
            tn_last_use = 0\<rparr>,
      Some \<lparr>tn_page = 0, tn_parent = 0, tn_chunk = [7, 8], tn_children = [], tn_last_use = 1\<rparr>],
     pc_vacant = [], pc_clock = 1\<rparr>"

definition sample_pool :: "nat \<Rightarrow> kv_pool" where
  "sample_pool r = (pool_new 2 64 2)\<lparr>kp_free := {1}, kp_refs := [r, 0]\<rparr>"

lemma live_sample: "live sample_cache i n \<longleftrightarrow>
    i = 0 \<and> n = \<lparr>tn_page = u32_max, tn_parent = 0, tn_chunk = [], tn_children = [([7, 8], 1)],
      tn_last_use = 0\<rparr> \<or>
    i = 1 \<and> n = \<lparr>tn_page = 0, tn_parent = 0, tn_chunk = [7, 8], tn_children = [], tn_last_use = 1\<rparr>"
  by (auto simp: live_def sample_cache_def less_Suc_eq)

lemma pool_inv_sample: "pool_inv (sample_pool (Suc r))"
proof -
  have two: "i < 2 \<longleftrightarrow> i = 0 \<or> i = (1 :: nat)" for i by auto
  have "{i. i < 2 \<and> [Suc r, 0] ! i = 0} = {1}" unfolding two by auto
  then show ?thesis by (simp add: pool_inv_def sample_pool_def pool_new_def numeral_2_eq_2 All_less_Suc)
qed

lemma accounted_sample: "accounted sample_cache (sample_pool (r + 1)) (\<lambda>i. if i = 0 then r else 0)"
proof -
  have "trie_inv sample_cache"
    unfolding trie_inv_def
  proof (intro conjI allI impI)
    show "set (pc_vacant sample_cache) =
        {i. 0 < i \<and> i < length (pc_nodes sample_cache) \<and> pc_nodes sample_cache ! i = None}"
      by (auto simp: sample_cache_def less_Suc_eq)
    show "distinct (pc_vacant sample_cache)" "0 < pc_tokens_per_page sample_cache"
      by (simp_all add: sample_cache_def)
    show "\<exists>r. live sample_cache 0 r" by (simp add: live_sample)
  next
    fix i n assume n: "live sample_cache i n"
    show "distinct (map fst (tn_children n))" using n by (elim live_sample [THEN iffD1, THEN disjE]) auto
    fix ch k assume "(ch, k) \<in> set (tn_children n)"
    then have "i = 0 \<and> ch = [7, 8] \<and> k = 1" using n by (elim live_sample [THEN iffD1, THEN disjE]) auto
    then show "0 < k" "\<exists>m. live sample_cache k m \<and> tn_parent m = i \<and> tn_chunk m = ch"
      by (simp_all add: live_sample)
  next
    fix i n assume "live sample_cache i n" "0 < i"
    then have n: "i = 1" "n = \<lparr>tn_page = 0, tn_parent = 0, tn_chunk = [7, 8], tn_children = [],
        tn_last_use = 1\<rparr>" by (simp_all add: live_sample)
    show "length (tn_chunk n) = pc_tokens_per_page sample_cache" by (simp add: n sample_cache_def)
    show "\<exists>p. live sample_cache (tn_parent n) p \<and> (tn_chunk n, i) \<in> set (tn_children p)"
      by (simp add: n live_sample)
  qed
  moreover have "pool_inv (sample_pool (r + 1))"
    using pool_inv_sample [of r] by simp
  moreover have "(0 < k \<and> (\<exists>n. live sample_cache k n \<and> tn_page n = i)) = (k = 1 \<and> i = 0)" for k i
  proof (cases "k = 1")
    case True
    then show ?thesis unfolding live_sample by auto
  next
    case False
    then show ?thesis unfolding live_sample by auto
  qed
  then have "{k. 0 < k \<and> (\<exists>n. live sample_cache k n \<and> tn_page n = i)} = (if i = 0 then {1} else {})"
    for i by (simp only:) auto
  then have "cached_refs sample_cache i = (if i = 0 then 1 else 0)" for i
    by (simp add: cached_refs_def)
  moreover have "pool_owners (sample_pool (r + 1)) i = (if i = 0 then r + 1 else 0)" for i
    by (simp add: pool_owners_def sample_pool_def nth_Cons')
  ultimately show ?thesis unfolding accounted_def by simp
qed

lemma accounted_sample_1: "accounted sample_cache (sample_pool 1) (\<lambda>_. 0)"
  using accounted_sample [of 0] by simp

lemma accounted_sample_2: "accounted sample_cache (sample_pool 2) (\<lambda>i. if i = 0 then 1 else 0)"
  using accounted_sample [of 1] by (simp add: numeral_2_eq_2)

theorem match_prefix_accounted_witness:
  "\<exists>c' pool' r. match_prefix sample_cache [7, 8, 9] (sample_pool 2) = Ok (c', pool', r) \<and>
     accounted c' pool' (\<lambda>i. (if i = 0 then 1 else 0) + count_list (match_held r) i)"
  using match_prefix_accounted [OF accounted_sample_2, of "[7, 8, 9]"] by blast

theorem cache_insert_accounted_witness:
  "\<exists>c' pool'. cache_insert sample_cache [7, 8, 5, 6] \<lparr>bt_pages = [0], bt_seq_len = 2\<rparr> (sample_pool 2)
     = Ok (c', pool') \<and> accounted c' pool' (\<lambda>i. if i = 0 then 1 else 0)"
  by (rule cache_insert_accounted [OF accounted_sample_2]) simp



theorem cache_alloc_exclusive_witness:
  "\<exists>c' pool' r. cache_alloc sample_cache (sample_pool 1) = Ok (c', pool', r) \<and>
     (\<forall>i. r = Some i \<longrightarrow> cached_refs c' i = 0)"
proof -
  obtain c' pool' r where "cache_alloc sample_cache (sample_pool 1) = Ok (c', pool', r)"
    and r: "case r of Some i \<Rightarrow> 0 = (0 :: nat) \<and> cached_refs c' i = 0 \<and> accounted c' pool' ((\<lambda>_. 0)(i := 1))
     | None \<Rightarrow> accounted c' pool' (\<lambda>_. 0) \<and> (\<forall>i \<in> pool_pages pool'. 0 < pool_owners pool' i) \<and>
         (\<forall>i n. 0 < i \<longrightarrow> live c' i n \<longrightarrow> \<not> evictable_node pool' n)"
    using cache_alloc_exclusive [OF accounted_sample_1] by blast
  moreover have "r = Some i \<Longrightarrow> cached_refs c' i = 0" for i using r by simp
  ultimately show ?thesis by blast
qed

end
