(* ===== verification/KvBatch.thy ===== *)
theory KvBatch
  imports RlxPrelude
begin

text \<open>
  Continuous batching (\<open>crates/core/rlx-runtime/src/paged_kv.rs\<close>, \<open>BatchConstructor\<close>):
  decode steps first, then prefill work up to the token budget, the last prefill chunked.
  A queue is a list, its front first.
\<close>

section \<open>The constructor\<close>

datatype batch_kind = Prefill | Decode

record batch_entry =
  be_seq_id :: nat
  be_kind :: batch_kind
  be_input_tokens :: "nat list"
  be_cached_len :: nat

record batch_constructor =
  bc_max_tokens :: nat
  bc_max_entries :: nat

text \<open>The two loops; the state is the batch so far and the tokens it uses.\<close>

fun take_decodes ::
  "batch_constructor \<Rightarrow> batch_entry list \<Rightarrow> nat \<Rightarrow> batch_entry list \<Rightarrow>
   batch_entry list \<times> nat \<times> batch_entry list" where
  "take_decodes k batch used [] = (batch, used, [])"
| "take_decodes k batch used (d # dq) =
     (if length batch < bc_max_entries k then
        if bc_max_tokens k < used + length (be_input_tokens d) then (batch, used, d # dq)
        else take_decodes k (batch @ [d]) (used + length (be_input_tokens d)) dq
      else (batch, used, d # dq))"

fun take_prefills ::
  "batch_constructor \<Rightarrow> batch_entry list \<Rightarrow> nat \<Rightarrow> batch_entry list \<Rightarrow>
   batch_entry list \<times> batch_entry list" where
  "take_prefills k batch used [] = (batch, [])"
| "take_prefills k batch used (p # pq) =
     (if length batch < bc_max_entries k then
        let want = length (be_input_tokens p); remaining = bc_max_tokens k - used in
        if remaining = 0 then (batch, p # pq)
        else if want \<le> remaining then take_prefills k (batch @ [p]) (used + want) pq
        else
          (batch @ [\<lparr>be_seq_id = be_seq_id p, be_kind = Prefill,
                     be_input_tokens = take remaining (be_input_tokens p),
                     be_cached_len = be_cached_len p\<rparr>],
           p\<lparr>be_input_tokens := drop remaining (be_input_tokens p),
             be_cached_len := be_cached_len p + remaining\<rparr> # pq)
      else (batch, p # pq))"

definition build_batch ::
  "batch_constructor \<Rightarrow> batch_entry list \<Rightarrow> batch_entry list \<Rightarrow>
   batch_entry list \<times> batch_entry list \<times> batch_entry list" where
  "build_batch k decode_queue prefill_queue =
     (case take_decodes k [] 0 decode_queue of (batch1, used, dq) \<Rightarrow>
      case take_prefills k batch1 used prefill_queue of (batch2, pq) \<Rightarrow> (batch2, dq, pq))"

section \<open>Budget and conservation\<close>

definition tokens_in :: "batch_entry list \<Rightarrow> nat" where
  "tokens_in es = (\<Sum>e\<leftarrow>es. length (be_input_tokens e))"

lemma tokens_in_simps [simp]:
  "tokens_in [] = 0" "tokens_in (e # es) = length (be_input_tokens e) + tokens_in es"
  "tokens_in (es @ fs) = tokens_in es + tokens_in fs"
  by (simp_all add: tokens_in_def)

lemma take_decodes_ok:
  assumes "take_decodes k batch used dq = (batch', used', dq')" and "used = tokens_in batch"
    and "used \<le> bc_max_tokens k" and "length batch \<le> bc_max_entries k"
  shows "\<exists>taken. batch' = batch @ taken \<and> dq = taken @ dq' \<and> used' = tokens_in batch' \<and>
    used' \<le> bc_max_tokens k \<and> length batch' \<le> bc_max_entries k \<and>
    (dq' \<noteq> [] \<longrightarrow> length batch' = bc_max_entries k \<or>
      bc_max_tokens k < used' + length (be_input_tokens (hd dq')))"
  using assms
proof (induction k batch used dq arbitrary: batch' used' dq' rule: take_decodes.induct)
  case (2 k batch used d dq)
  show ?case
  proof (cases "length batch < bc_max_entries k \<and> used + length (be_input_tokens d) \<le> bc_max_tokens k")
    case True
    then have "\<exists>taken. batch' = (batch @ [d]) @ taken \<and> dq = taken @ dq' \<and> used' = tokens_in batch' \<and>
        used' \<le> bc_max_tokens k \<and> length batch' \<le> bc_max_entries k \<and>
        (dq' \<noteq> [] \<longrightarrow> length batch' = bc_max_entries k \<or>
          bc_max_tokens k < used' + length (be_input_tokens (hd dq')))"
      using 2 by (intro "2.IH") auto
    then obtain taken where "batch' = (batch @ [d]) @ taken \<and> dq = taken @ dq' \<and>
        used' = tokens_in batch' \<and> used' \<le> bc_max_tokens k \<and> length batch' \<le> bc_max_entries k \<and>
        (dq' \<noteq> [] \<longrightarrow> length batch' = bc_max_entries k \<or>
          bc_max_tokens k < used' + length (be_input_tokens (hd dq')))" by blast
    then show ?thesis by (intro exI [of _ "d # taken"]) auto
  next
    case False
    then show ?thesis using 2 by (auto split: if_splits)
  qed
qed auto

text \<open>Splitting a prefill: a chunk of its tokens now, the rest later with the cached length
  moved past the chunk.\<close>

definition chunk_of :: "batch_entry \<Rightarrow> batch_entry \<Rightarrow> batch_entry \<Rightarrow> bool" where
  "chunk_of p now later \<longleftrightarrow>
     be_seq_id now = be_seq_id p \<and> be_seq_id later = be_seq_id p \<and> be_kind now = Prefill \<and>
     be_kind later = be_kind p \<and> be_input_tokens p = be_input_tokens now @ be_input_tokens later \<and>
     be_input_tokens now \<noteq> [] \<and> be_input_tokens later \<noteq> [] \<and> be_cached_len now = be_cached_len p \<and>
     be_cached_len later = be_cached_len p + length (be_input_tokens now)"

lemma take_prefills_ok:
  assumes "take_prefills k batch used pq = (batch', pq')" and "used = tokens_in batch"
    and "used \<le> bc_max_tokens k" and "length batch \<le> bc_max_entries k"
  shows "\<exists>taken. batch' = batch @ taken \<and> tokens_in batch' \<le> bc_max_tokens k \<and>
    length batch' \<le> bc_max_entries k \<and>
    (pq' \<noteq> [] \<longrightarrow> length batch' = bc_max_entries k \<or> tokens_in batch' = bc_max_tokens k) \<and>
    (pq = taken @ pq' \<or>
     (\<exists>front p now later rest. taken = front @ [now] \<and> pq = front @ p # rest \<and>
        pq' = later # rest \<and> chunk_of p now later))"
  using assms
proof (induction k batch used pq arbitrary: batch' pq' rule: take_prefills.induct)
  case (2 k batch used p pq)
  let ?want = "length (be_input_tokens p)" and ?rem = "bc_max_tokens k - used"
  show ?case
  proof (cases "length batch < bc_max_entries k \<and> ?rem \<noteq> 0")
    case False
    then have "batch' = batch" "pq' = p # pq" using 2 by (auto simp: Let_def split: if_splits)
    then show ?thesis using False 2 by auto
  next
    case go: True
    show ?thesis
    proof (cases "?want \<le> ?rem")
      case True
      then have "\<exists>taken. batch' = (batch @ [p]) @ taken \<and> tokens_in batch' \<le> bc_max_tokens k \<and>
          length batch' \<le> bc_max_entries k \<and>
          (pq' \<noteq> [] \<longrightarrow> length batch' = bc_max_entries k \<or> tokens_in batch' = bc_max_tokens k) \<and>
          (pq = taken @ pq' \<or>
           (\<exists>front q now later rest. taken = front @ [now] \<and> pq = front @ q # rest \<and>
              pq' = later # rest \<and> chunk_of q now later))"
        using 2 go by (intro "2.IH") (auto simp: Let_def)
      then obtain taken where t: "batch' = (batch @ [p]) @ taken" "tokens_in batch' \<le> bc_max_tokens k"
          "length batch' \<le> bc_max_entries k"
          "pq' \<noteq> [] \<longrightarrow> length batch' = bc_max_entries k \<or> tokens_in batch' = bc_max_tokens k"
          "pq = taken @ pq' \<or> (\<exists>front q now later rest. taken = front @ [now] \<and>
             pq = front @ q # rest \<and> pq' = later # rest \<and> chunk_of q now later)" by blast
      from t(5) have "p # pq = (p # taken) @ pq' \<or> (\<exists>front q now later rest. p # taken = front @ [now] \<and>
          p # pq = front @ q # rest \<and> pq' = later # rest \<and> chunk_of q now later)"
        by (metis append_Cons)
      then show ?thesis using t(1-4) by (intro exI [of _ "p # taken"]) simp
    next
      case False
      let ?now = "\<lparr>be_seq_id = be_seq_id p, be_kind = Prefill,
          be_input_tokens = take ?rem (be_input_tokens p), be_cached_len = be_cached_len p\<rparr>"
      let ?later = "p\<lparr>be_input_tokens := drop ?rem (be_input_tokens p),
          be_cached_len := be_cached_len p + ?rem\<rparr>"
      have res: "batch' = batch @ [?now]" "pq' = ?later # pq"
        using 2(2) go False by (auto simp: Let_def)
      have "be_input_tokens p \<noteq> []" using False by auto
      then have "chunk_of p ?now ?later" using go False by (simp add: chunk_of_def)
      moreover have "tokens_in batch' = bc_max_tokens k" using res False 2(3,4) by simp
      ultimately show ?thesis
        using res go by (intro exI [of _ "[?now]"]) (auto intro!: exI [of _ "[]"])
    qed
  qed
qed auto



end
