(* ===== verification/Views.thy ===== *)
theory Views
  imports IR
begin

text \<open>
  View detection and fold predicates of the memory planner
  (\<open>crates/core/rlx-compile/src/memory.rs\<close>, lines 57 to 304 and 559 to 584): which nodes
  borrow the bytes of an operand, the root a chain of views leads to, and which transposes
  a backend folds into a matrix product.

  The functions of the planner return no \<open>Err\<close>; \<open>Err Diverges\<close> is the value of a loop or
  recursion of the source that does not end, which a cyclic graph can make happen.
\<close>

datatype diverges = Diverges

type_synonym 'a planned = "(diverges, 'a) outcome"

text \<open>\<open>unwrap\<close> of a result of the shape layer.\<close>

fun unwrap_res :: "'a res \<Rightarrow> 'a planned" where
  "unwrap_res (Ok x) = Ok x"
| "unwrap_res (Err e) = Panic"
| "unwrap_res Panic = Panic"

lemma unwrap_res_Ok [outcome_simps]: "unwrap_res m = Ok x \<longleftrightarrow> m = Ok x"
  by (cases m) auto

definition node_of :: "graph \<Rightarrow> node_id \<Rightarrow> node planned" where
  "node_of g i = index_or_panic (g_nodes g) i"

lemma node_of_Ok [outcome_simps]: "node_of g i = Ok n \<longleftrightarrow> i < graph_len g \<and> g_nodes g ! i = n"
  by (auto simp: node_of_def graph_len_def outcome_simps)

lemma node_of_in [simp]: "i < graph_len g \<Longrightarrow> node_of g i = Ok (g_nodes g ! i)"
  by (simp add: node_of_Ok)

section \<open>Views\<close>

definition pure_view_offset :: "graph \<Rightarrow> node \<Rightarrow> (node_id \<times> nat) option planned" where
  "pure_view_offset g n =
     (case n_op n of
        Reshape _ \<Rightarrow> bind_outcome (index_or_panic (n_inputs n) 0) (\<lambda>p. Ok (Some (p, 0)))
      | KvAppend _ _ \<Rightarrow> bind_outcome (index_or_panic (n_inputs n) 0) (\<lambda>p. Ok (Some (p, 0)))
      | DynamicUpdateSlice _ \<Rightarrow> bind_outcome (index_or_panic (n_inputs n) 0) (\<lambda>p. Ok (Some (p, 0)))
      | Cast to \<Rightarrow>
          bind_outcome (index_or_panic (n_inputs n) 0) (\<lambda>p.
          bind_outcome (node_of g p) (\<lambda>parent.
            Ok (if shape_dtype (n_shape parent) = to then Some (p, 0) else None)))
      | Narrow axis start _ \<Rightarrow>
          bind_outcome (index_or_panic (n_inputs n) 0) (\<lambda>p.
          bind_outcome (node_of g p) (\<lambda>parent.
            if rank (n_shape parent) < axis then Panic
            else if list_all (\<lambda>d. d = Static 1) (take axis (dims (n_shape parent)))
            then bind_outcome
                   (traverse (\<lambda>i. unwrap_res (static_at (n_shape parent) i))
                      [Suc axis ..< rank (n_shape parent)]) (\<lambda>inner.
                   Ok (Some (p, start * prod_list inner
                              * dtype_size_bytes (shape_dtype (n_shape parent)))))
            else Ok None))
      | _ \<Rightarrow> Ok None)"

fun writes_in_place :: "op \<Rightarrow> bool" where
  "writes_in_place (KvAppend _ _) = True"
| "writes_in_place (DynamicUpdateSlice _) = True"
| "writes_in_place _ = False"

definition is_pure_view :: "graph \<Rightarrow> node \<Rightarrow> bool planned" where
  "is_pure_view g n =
     (if writes_in_place (n_op n) then Ok False
      else bind_outcome (pure_view_offset g n) (\<lambda>v. Ok (v \<noteq> None)))"

text \<open>
  The loop of \<open>resolve_view_root\<close>. A walk that ends visits no node twice, so it makes at
  most \<open>graph_len\<close> steps; one that is longer goes round a cycle for ever.
\<close>

fun view_walk :: "graph \<Rightarrow> nat \<Rightarrow> node_id \<Rightarrow> nat \<Rightarrow> (node_id \<times> nat) planned" where
  "view_walk g 0 i off = Err Diverges"
| "view_walk g (Suc fuel) i off =
     bind_outcome (node_of g i) (\<lambda>n.
     bind_outcome (pure_view_offset g n) (\<lambda>v.
       case v of
         Some (parent, d) \<Rightarrow> view_walk g fuel parent (off + d)
       | None \<Rightarrow> Ok (i, off)))"

definition resolve_view_root :: "graph \<Rightarrow> node_id \<Rightarrow> (node_id \<times> nat) planned" where
  "resolve_view_root g i = view_walk g (Suc (graph_len g)) i 0"

definition collect_view_aliases :: "graph \<Rightarrow> (node_id \<rightharpoonup> node_id \<times> nat) planned" where
  "collect_view_aliases g =
     for_each (\<lambda>out n.
       bind_outcome (pure_view_offset g n) (\<lambda>v.
         if v = None then Ok out
         else bind_outcome (resolve_view_root g (n_id n)) (\<lambda>r. Ok (out(n_id n \<mapsto> r)))))
       Map.empty (g_nodes g)"

section \<open>Folded transposes\<close>

definition small_m_grouped :: nat where
  "small_m_grouped = 4"

text \<open>The reads of a node: one entry per input slot, in graph order.\<close>

definition reads_of :: "graph \<Rightarrow> node_id \<Rightarrow> (node \<times> nat) list" where
  "reads_of g i =
     concat (map (\<lambda>n. map (Pair n) (filter (\<lambda>slot. n_inputs n ! slot = i) [0..<length (n_inputs n)]))
       (g_nodes g))"

definition small_reader :: "graph \<Rightarrow> node \<Rightarrow> bool planned" where
  "small_reader g n =
     bind_outcome (index_or_panic (n_inputs n) 0) (\<lambda>a.
     bind_outcome (node_of g a) (\<lambda>na.
     bind_outcome (index_or_panic (n_inputs n) 1) (\<lambda>b.
     bind_outcome (node_of g b) (\<lambda>nb.
       case grouped_matmul_dims (n_shape na) (n_shape nb) (Some (n_shape n)) of
         Ok gd \<Rightarrow> Ok (gm_m gd \<le> small_m_grouped)
       | Err e \<Rightarrow> Ok False
       | Panic \<Rightarrow> Panic))))"

fun all_small :: "graph \<Rightarrow> node_id \<Rightarrow> node list \<Rightarrow> bool planned" where
  "all_small g i [] = Ok True"
| "all_small g i (n # ns) =
     (if i \<notin> set (n_inputs n) then all_small g i ns
      else bind_outcome (small_reader g n) (\<lambda>small. if small then all_small g i ns else Ok False))"

definition is_elidable_bank_transpose_gated :: "graph \<Rightarrow> node \<Rightarrow> bool \<Rightarrow> bool planned" where
  "is_elidable_bank_transpose_gated g n require_small_m =
     (if n_op n \<noteq> Transpose [0, 2, 1] \<or> rank (n_shape n) \<noteq> 3 \<or> shape_dtype (n_shape n) \<noteq> F32
         \<or> n_id n \<in> set (g_outputs g)
      then Ok False
      else
        let readers = reads_of g (n_id n) in
        if \<not> list_all (\<lambda>(r, slot). slot = 1 \<and> n_op r = GroupedMatMul
                         \<and> shape_dtype (n_shape r) = F32) readers
        then Ok False
        else bind_outcome
               (if require_small_m then all_small g (n_id n) (g_nodes g) else Ok True)
               (\<lambda>small. Ok (small \<and> 0 < length readers)))"

definition is_elidable_bank_transpose :: "graph \<Rightarrow> node \<Rightarrow> bool planned" where
  "is_elidable_bank_transpose g n = is_elidable_bank_transpose_gated g n False"

definition is_matmul_fold_transpose :: "graph \<Rightarrow> node \<Rightarrow> bool" where
  "is_matmul_fold_transpose g n \<longleftrightarrow>
     n_op n = Transpose [1, 0] \<and> rank (n_shape n) = 2 \<and> n_id n \<notin> set (g_outputs g)"

definition folds_into_matmul :: "graph \<Rightarrow> node \<Rightarrow> bool planned" where
  "folds_into_matmul g mm =
     (if n_op mm = MatMul \<and> shape_dtype (n_shape mm) = F32 \<and> 2 \<le> length (n_inputs mm)
      then bind_outcome (node_of g (n_inputs mm ! 0)) (\<lambda>a.
             if rank (n_shape a) \<noteq> 2 then Ok False
             else bind_outcome (node_of g (n_inputs mm ! 1)) (\<lambda>b. Ok (rank (n_shape b) = 2)))
      else Ok False)"

text \<open>The double loop over nodes and input slots, which leaves at the second use.\<close>

fun sole_reader_scan :: "node_id \<Rightarrow> node option \<Rightarrow> (node \<times> node_id) list \<Rightarrow> node option option" where
  "sole_reader_scan i reader [] = Some reader"
| "sole_reader_scan i reader ((n, j) # slots) =
     (if j \<noteq> i then sole_reader_scan i reader slots
      else if reader \<noteq> None then None
      else sole_reader_scan i (Some n) slots)"

definition input_slots :: "graph \<Rightarrow> (node \<times> node_id) list" where
  "input_slots g = concat (map (\<lambda>n. map (Pair n) (n_inputs n)) (g_nodes g))"

definition is_elidable_matmul_transpose :: "graph \<Rightarrow> node \<Rightarrow> bool planned" where
  "is_elidable_matmul_transpose g n =
     (if \<not> is_matmul_fold_transpose g n then Ok False
      else case sole_reader_scan (n_id n) None (input_slots g) of
        Some (Some mm) \<Rightarrow> folds_into_matmul g mm
      | _ \<Rightarrow> Ok False)"

type_synonym reader_index = "node_id \<rightharpoonup> nat \<times> node_id"

definition count_read :: "reader_index \<Rightarrow> node \<times> node_id \<Rightarrow> reader_index" where
  "count_read readers slot =
     (case slot of (n, i) \<Rightarrow>
        readers(i \<mapsto> (case readers i of Some (c, r) \<Rightarrow> (Suc c, r) | None \<Rightarrow> (1, n_id n))))"

definition reader_index_new :: "graph \<Rightarrow> reader_index" where
  "reader_index_new g = foldl count_read Map.empty (input_slots g)"

definition sole_reader :: "reader_index \<Rightarrow> node_id \<Rightarrow> node_id option" where
  "sole_reader readers i =
     (case readers i of Some (c, r) \<Rightarrow> (if c = 1 then Some r else None) | None \<Rightarrow> None)"

definition is_elidable_matmul_transpose_indexed ::
  "graph \<Rightarrow> node \<Rightarrow> reader_index \<Rightarrow> bool planned" where
  "is_elidable_matmul_transpose_indexed g n readers =
     (if \<not> is_matmul_fold_transpose g n then Ok False
      else case sole_reader readers (n_id n) of
        Some mm \<Rightarrow> bind_outcome (node_of g mm) (folds_into_matmul g)
      | None \<Rightarrow> Ok False)"

definition is_elidable_folded_transpose_gated :: "graph \<Rightarrow> node \<Rightarrow> bool \<Rightarrow> bool planned" where
  "is_elidable_folded_transpose_gated g n require_small_m =
     bind_outcome (is_elidable_bank_transpose_gated g n require_small_m) (\<lambda>bank.
       if bank then Ok True
       else if require_small_m then Ok False
       else is_elidable_matmul_transpose g n)"

definition is_elidable_folded_transpose :: "graph \<Rightarrow> node \<Rightarrow> bool planned" where
  "is_elidable_folded_transpose g n = is_elidable_folded_transpose_gated g n False"

end
