(* ===== verification/Liveness.thy ===== *)
theory Liveness
  imports Views
begin

text \<open>
  Live ranges of the memory planner (\<open>crates/core/rlx-compile/src/memory.rs\<close>, lines 585 to
  1430, with \<open>detect_packed_bshd_qkv_attention\<close> of \<open>rlx-ir/src/attention_layout.rs\<close>): the
  range \<open>(birth, death)\<close> of every node's buffer, in steps of the schedule, and the passes
  that extend ranges for kernels which read or write at another step than their own.

  A range table is a map. Where the source iterates over a \<open>HashMap\<close>, whose order it leaves
  open, the model goes through the keys in ascending order; the loops concerned only take
  minima and maxima. The environment switches of the process are the fields of \<open>plan_env\<close>
  (\<open>RLX_ARENA_NO_REUSE_OPS\<close> as the list it parses to); what is only printed is left out.
\<close>

type_synonym ranges = "node_id \<rightharpoonup> nat \<times> nat"

record no_reuse_spec =
  nr_name :: string
  nr_range :: "(nat \<times> nat) option"

record plan_env =
  env_no_reuse :: bool
  env_pin_outputs :: bool
  env_pin_host :: bool
  env_no_reuse_ops :: "no_reuse_spec list option"

fun is_boundary :: "op \<Rightarrow> bool" where
  "is_boundary (Input _) = True"
| "is_boundary (Param _) = True"
| "is_boundary (Constant _) = True"
| "is_boundary _ = False"

section \<open>Entries\<close>

text \<open>\<open>entry(i).and_modify(f)\<close>: an absent entry stays absent.\<close>

definition modify :: "ranges \<Rightarrow> node_id \<Rightarrow> (nat \<times> nat \<Rightarrow> nat \<times> nat) \<Rightarrow> ranges" where
  "modify r i f = r(i := map_option f (r i))"

definition raise_death :: "ranges \<Rightarrow> node_id \<Rightarrow> nat \<Rightarrow> ranges" where
  "raise_death r i step = modify r i (\<lambda>(b, d). (b, max d step))"

definition pin_death :: "ranges \<Rightarrow> node_id \<Rightarrow> nat \<Rightarrow> ranges" where
  "pin_death r i fin = modify r i (\<lambda>(b, d). (b, fin))"

text \<open>A read of \<open>i\<close> is a read of the buffer it is a view of; the view's own entry follows.\<close>

definition read_at :: "graph \<Rightarrow> nat \<Rightarrow> ranges \<Rightarrow> node_id \<Rightarrow> ranges planned" where
  "read_at g step r i =
     bind_outcome (resolve_view_root g i) (\<lambda>(root, _).
       let r1 = raise_death r root step in
       Ok (if root \<noteq> i then raise_death r1 i step else r1))"

definition pin_at :: "graph \<Rightarrow> nat \<Rightarrow> ranges \<Rightarrow> node_id \<Rightarrow> ranges planned" where
  "pin_at g fin r i =
     bind_outcome (resolve_view_root g i) (\<lambda>(root, _).
       let r1 = pin_death r root fin in
       Ok (if root \<noteq> i then pin_death r1 i fin else r1))"

section \<open>Base ranges\<close>

text \<open>A folded transpose is never executed: its reader reads the transpose's operand.\<close>

definition live_input :: "graph \<Rightarrow> nat \<Rightarrow> ranges \<Rightarrow> node_id \<Rightarrow> ranges planned" where
  "live_input g step r i =
     bind_outcome (read_at g step r i) (\<lambda>r1.
     bind_outcome (node_of g i) (\<lambda>src.
     bind_outcome (is_elidable_folded_transpose g src) (\<lambda>folded.
       if folded
       then bind_outcome (index_or_panic (n_inputs src) 0) (read_at g step r1)
       else Ok r1)))"

definition live_node :: "graph \<Rightarrow> ranges \<Rightarrow> nat \<times> node \<Rightarrow> ranges planned" where
  "live_node g r sn =
     (case sn of (step, n) \<Rightarrow>
        for_each (live_input g step)
          (if r (n_id n) = None then r(n_id n \<mapsto> (step, step)) else r) (n_inputs n))"

text \<open>The stack walk over ancestors (\<open>up\<close>) or over the given nodes only.\<close>

function pin_walk ::
  "graph \<Rightarrow> nat \<Rightarrow> bool \<Rightarrow> node_id set \<Rightarrow> node_id list \<Rightarrow> ranges \<Rightarrow> ranges planned" where
  "pin_walk g fin up seen [] r = Ok r"
| "pin_walk g fin up seen (i # stack) r =
     (if i \<in> seen then pin_walk g fin up seen stack r
      else bind_outcome (node_of g i) (\<lambda>n.
           bind_outcome (pin_at g fin r i)
             (pin_walk g fin up (insert i seen) ((if up then rev (n_inputs n) else []) @ stack))))"
  by pat_completeness auto

termination
proof (relation "measures [\<lambda>(g, fin, up, seen, stack, r). card ({..<graph_len g} - seen),
                            \<lambda>(g, fin, up, seen, stack, r). length stack]")
  fix g fin up seen i stack and r r' :: ranges and n
  assume "i \<notin> seen" and "node_of g i = Ok n"
  then have "{..<graph_len g} - insert i seen \<subset> {..<graph_len g} - seen"
    by (auto simp: node_of_Ok)
  then have "card ({..<graph_len g} - insert i seen) < card ({..<graph_len g} - seen)"
    by (intro psubset_card_mono) auto
  then show "((g, fin, up, insert i seen, (if up then rev (n_inputs n) else []) @ stack, r'),
      (g, fin, up, seen, i # stack, r))
      \<in> measures [\<lambda>(g, fin, up, seen, stack, r). card ({..<graph_len g} - seen),
                   \<lambda>(g, fin, up, seen, stack, r). length stack]"
    by simp
qed auto

definition pin_boundary :: "nat \<Rightarrow> ranges \<Rightarrow> node \<Rightarrow> ranges" where
  "pin_boundary fin r n =
     (if is_boundary (n_op n) then modify r (n_id n) (\<lambda>_. (0, fin)) else r)"

definition compute_live_ranges_opts :: "graph \<Rightarrow> bool \<Rightarrow> ranges planned" where
  "compute_live_ranges_opts g pin_output_ancestors =
     (let fin = graph_len g in
      bind_outcome (for_each (live_node g) Map.empty (enumerate 0 (g_nodes g))) (\<lambda>r1.
      bind_outcome (for_each (pin_at g fin) r1 (g_outputs g)) (\<lambda>r2.
      bind_outcome (pin_walk g fin pin_output_ancestors {} (rev (g_outputs g)) r2) (\<lambda>r3.
        Ok (foldl (pin_boundary fin) r3 (g_nodes g))))))"

definition compute_live_ranges :: "graph \<Rightarrow> ranges planned" where
  "compute_live_ranges g = compute_live_ranges_opts g True"

section \<open>Extensions to the end\<close>

definition extend_node_chain :: "graph \<Rightarrow> nat \<Rightarrow> ranges \<Rightarrow> node_id \<Rightarrow> ranges planned" where
  "extend_node_chain g fin r start = pin_walk g fin True {} [start] r"

fun pin_views :: "graph \<Rightarrow> nat \<Rightarrow> nat \<Rightarrow> ranges \<Rightarrow> node_id \<Rightarrow> ranges planned" where
  "pin_views g 0 fin r i = Err Diverges"
| "pin_views g (Suc fuel) fin r i =
     bind_outcome (node_of g i) (\<lambda>n.
     bind_outcome (pure_view_offset g n) (\<lambda>v.
       case v of
         Some (parent, _) \<Rightarrow> pin_views g fuel fin (pin_death r i fin) parent
       | None \<Rightarrow> Ok (pin_death r i fin)))"

definition extend_view_chain :: "graph \<Rightarrow> nat \<Rightarrow> ranges \<Rightarrow> node_id \<Rightarrow> ranges planned" where
  "extend_view_chain g fin = pin_views g (Suc (graph_len g)) fin"

section \<open>Custom, hosted and deferred operators\<close>

fun is_structural :: "op \<Rightarrow> bool" where
  "is_structural (Expand _) = True"
| "is_structural (Concat _) = True"
| "is_structural (Transpose _) = True"
| "is_structural (Narrow _ _ _) = True"
| "is_structural _ = False"

fun is_dequant :: "op \<Rightarrow> bool" where
  "is_dequant (DequantMatMul _) = True"
| "is_dequant (DequantGroupedMatMul _) = True"
| "is_dequant _ = False"

definition is_prefix_of :: "string \<Rightarrow> string \<Rightarrow> bool" where
  "is_prefix_of p s \<longleftrightarrow> take (length p) s = p"

definition custom_step :: "graph \<Rightarrow> ranges \<Rightarrow> node \<Rightarrow> ranges planned" where
  "custom_step g r n =
     (case n_op n of
        Custom name num_inputs _ \<Rightarrow>
          if is_prefix_of ''onnx.'' name
          then for_each (extend_node_chain g (graph_len g)) r
                 (take (min num_inputs (length (n_inputs n))) (n_inputs n))
          else Ok r
      | _ \<Rightarrow> Ok r)"

definition host_step :: "graph \<Rightarrow> ranges \<Rightarrow> node \<Rightarrow> ranges planned" where
  "host_step g r n =
     (if is_structural (n_op n)
      then bind_outcome (for_each (extend_view_chain g (graph_len g)) r (n_inputs n)) (\<lambda>r1.
             extend_view_chain g (graph_len g) r1 (n_id n))
      else Ok r)"

definition dequant_step :: "graph \<Rightarrow> ranges \<Rightarrow> node \<Rightarrow> ranges planned" where
  "dequant_step g r n =
     (if is_dequant (n_op n)
      then case n_inputs n of
          [] \<Rightarrow> Ok r
        | x # _ \<Rightarrow> extend_view_chain g (graph_len g) r x
      else Ok r)"

text \<open>The filter by operator kind and occurrence: a spec names a kind in lower case and may
  restrict it to a span of occurrences, counted per kind in node order. The kind is the head
  of the operator's \<open>Debug\<close> text when the table lists it, else \<open>Other\<close>.\<close>

definition selects :: "no_reuse_spec \<Rightarrow> nat \<Rightarrow> bool" where
  "selects f idx = (case nr_range f of None \<Rightarrow> True | Some (lo, hi) \<Rightarrow> lo \<le> idx \<and> idx \<le> hi)"

definition ascii_lower :: "char \<Rightarrow> char" where
  "ascii_lower c =
     (let k = (of_char c :: nat) in if 65 \<le> k \<and> k \<le> 90 then char_of (k + 32) else c)"

definition lowercase :: "string \<Rightarrow> string" where
  "lowercase = map ascii_lower"

fun debug_head :: "op \<Rightarrow> string" where
  "debug_head (Input _) = ''Input''"
| "debug_head (Param _) = ''Param''"
| "debug_head (Constant _) = ''Constant''"
| "debug_head (Activation _) = ''Activation''"
| "debug_head (Cast _) = ''Cast''"
| "debug_head (Binary _) = ''Binary''"
| "debug_head (Compare _) = ''Compare''"
| "debug_head Where = ''Where''"
| "debug_head Fma = ''Fma''"
| "debug_head MatMul = ''MatMul''"
| "debug_head (LayerNorm _ _) = ''LayerNorm''"
| "debug_head (LayerNorm2d _) = ''LayerNorm2d''"
| "debug_head (Attention _ _ _ _ _ _) = ''Attention''"
| "debug_head (Reshape _) = ''Reshape''"
| "debug_head (Transpose _) = ''Transpose''"
| "debug_head (Narrow _ _ _) = ''Narrow''"
| "debug_head (Concat _) = ''Concat''"
| "debug_head (KvAppend _ _) = ''KvAppend''"
| "debug_head (Expand _) = ''Expand''"
| "debug_head (Gather _) = ''Gather''"
| "debug_head (ScatterNd _) = ''ScatterNd''"
| "debug_head (ScatterElements _ _) = ''ScatterElements''"
| "debug_head (GatherNd _) = ''GatherNd''"
| "debug_head (GatherElements _) = ''GatherElements''"
| "debug_head (DequantMatMul _) = ''DequantMatMul''"
| "debug_head GroupedMatMul = ''GroupedMatMul''"
| "debug_head (DequantGroupedMatMul _) = ''DequantGroupedMatMul''"
| "debug_head (Conv3d _ _ _ _) = ''Conv3d''"
| "debug_head (FusedConvBiasAct _ _ _ _ _ _ _) = ''FusedConvBiasAct''"
| "debug_head (LayerNormBackwardGamma _ _) = ''LayerNormBackwardGamma''"
| "debug_head (Custom _ _ _) = ''Custom''"
| "debug_head (DynamicUpdateSlice _) = ''DynamicUpdateSlice''"
| "debug_head (OtherOp name _) = name"

definition op_kind_names :: "string list" where
  "op_kind_names =
     [''Input'', ''Param'', ''Constant'', ''MatMul'', ''Binary'', ''Unary'', ''Activation'',
      ''Reduce'', ''Softmax'', ''Reshape'', ''Transpose'', ''Narrow'', ''Concat'', ''Expand'',
      ''Pad'', ''Slice'', ''Gather'', ''Cast'', ''LayerNorm'', ''RmsNorm'', ''GroupNorm'',
      ''Conv'', ''Pool'', ''Rope'', ''Attention'', ''Where'', ''Fma'', ''Compare'',
      ''ArgReduce'', ''ScatterAdd'', ''Tile'', ''Roll'', ''Clamp'', ''Trilu'']"

definition op_kind_name :: "op \<Rightarrow> string" where
  "op_kind_name opr =
     (case find (\<lambda>n. lowercase n = lowercase (debug_head opr)) op_kind_names of
        Some n \<Rightarrow> n
      | None \<Rightarrow> ''Other'')"

definition filter_step ::
  "graph \<Rightarrow> no_reuse_spec list \<Rightarrow> ranges \<times> (string \<rightharpoonup> nat) \<Rightarrow> node
    \<Rightarrow> (ranges \<times> (string \<rightharpoonup> nat)) planned" where
  "filter_step g specs st n =
     (case st of (r, seen) \<Rightarrow>
        let kind = op_kind_name (n_op n) in
        case find (\<lambda>f. nr_name f = lowercase kind) specs of
          None \<Rightarrow> Ok (r, seen)
        | Some f \<Rightarrow>
            let idx = (case seen kind of Some c \<Rightarrow> c | None \<Rightarrow> 0);
                seen1 = seen(kind \<mapsto> Suc idx) in
            if selects f idx
            then bind_outcome (for_each (extend_node_chain g (graph_len g)) r (n_inputs n)) (\<lambda>r1.
                 bind_outcome (extend_node_chain g (graph_len g) r1 (n_id n)) (\<lambda>r2.
                   Ok (r2, seen1)))
            else Ok (r, seen1))"

definition pin_selected :: "plan_env \<Rightarrow> graph \<Rightarrow> ranges \<Rightarrow> ranges planned" where
  "pin_selected env g r =
     (case env_no_reuse_ops env of
        None \<Rightarrow> Ok r
      | Some specs \<Rightarrow>
          bind_outcome (for_each (filter_step g specs) (r, Map.empty) (g_nodes g)) (\<lambda>(r1, _). Ok r1))"

definition extend_custom_op_input_liveness ::
  "plan_env \<Rightarrow> graph \<Rightarrow> bool \<Rightarrow> ranges \<Rightarrow> ranges planned" where
  "extend_custom_op_input_liveness env g dequant_host_fallback r =
     bind_outcome (for_each (custom_step g) r (g_nodes g)) (\<lambda>r1.
     bind_outcome
       (if env_pin_host env then for_each (host_step g) r1 (g_nodes g) else Ok r1) (\<lambda>r2.
     bind_outcome (pin_selected env g r2) (\<lambda>r3.
       if dequant_host_fallback then for_each (dequant_step g) r3 (g_nodes g) else Ok r3)))"

fun is_custom_named :: "string list \<Rightarrow> op \<Rightarrow> bool" where
  "is_custom_named names (Custom name _ _) = (name \<in> set names)"
| "is_custom_named names _ = False"

definition bert_step :: "graph \<Rightarrow> ranges \<Rightarrow> node \<Rightarrow> ranges planned" where
  "bert_step g r n =
     (let fin = graph_len g; own = (\<lambda>r1. Ok (pin_death r1 (n_id n) fin)) in
      case n_op n of
        LayerNorm _ _ \<Rightarrow>
          bind_outcome (for_each (extend_node_chain g fin) r (take 1 (n_inputs n))) own
      | LayerNorm2d _ \<Rightarrow>
          bind_outcome (for_each (extend_node_chain g fin) r (take 1 (n_inputs n))) own
      | Binary b \<Rightarrow>
          if b = Add
          then bind_outcome (for_each (extend_node_chain g fin) r (n_inputs n)) own
          else Ok r
      | _ \<Rightarrow> Ok r)"

definition extend_bert_hidden_liveness :: "graph \<Rightarrow> ranges \<Rightarrow> ranges planned" where
  "extend_bert_hidden_liveness g r =
     (if list_ex (\<lambda>n. is_custom_named [''onnx.QMatMul'', ''onnx.ActCopy''] (n_op n)) (g_nodes g)
      then for_each (bert_step g) r (g_nodes g)
      else Ok r)"

section \<open>The duration epilogue\<close>

fun any_i64 :: "graph \<Rightarrow> node_id list \<Rightarrow> bool planned" where
  "any_i64 g [] = Ok False"
| "any_i64 g (i # is) =
     bind_outcome (node_of g i) (\<lambda>n.
       if shape_dtype (n_shape n) = I64 then Ok True else any_i64 g is)"

definition graph_exports_onnx_duration :: "graph \<Rightarrow> bool planned" where
  "graph_exports_onnx_duration g = any_i64 g (g_outputs g)"

definition duration_keep :: "node \<Rightarrow> bool" where
  "duration_keep n \<longleftrightarrow>
     (let i64 = (shape_dtype (n_shape n) = I64) in
      case n_op n of
        Custom name _ _ \<Rightarrow>
          name = ''onnx.ConcatFromSequence'' \<or> name = ''onnx.KittenConcatFromSequence''
          \<or> i64 \<and> rank (n_shape n) \<le> 2
      | Expand _ \<Rightarrow> i64
      | Cast to \<Rightarrow> to = I64
      | Where \<Rightarrow> i64
      | Binary _ \<Rightarrow> i64
      | _ \<Rightarrow> i64 \<and> rank (n_shape n) \<le> 2)"

definition duration_step :: "graph \<Rightarrow> ranges \<Rightarrow> node \<Rightarrow> ranges planned" where
  "duration_step g r n =
     (if duration_keep n
      then bind_outcome (extend_node_chain g (graph_len g) r (n_id n)) (\<lambda>r1.
             Ok (pin_death r1 (n_id n) (graph_len g)))
      else Ok r)"

definition extend_onnx_duration_epilogue_liveness :: "graph \<Rightarrow> ranges \<Rightarrow> ranges planned" where
  "extend_onnx_duration_epilogue_liveness g r =
     bind_outcome (graph_exports_onnx_duration g) (\<lambda>exports.
       if exports
       then bind_outcome (for_each (extend_node_chain g (graph_len g)) r (g_outputs g)) (\<lambda>r1.
              for_each (duration_step g) r1 (g_nodes g))
       else Ok r)"

end
