(* ===== verification/StaticWeights.thy ===== *)
theory StaticWeights
  imports Liveness Rewrite
begin

text \<open>
  Static weight packs (\<open>memory.rs\<close>, lines 912 to 1030): the memoised recursion that decides
  which tensors depend on parameters and constants only, and the live-range extension that
  gives every such pack a slot of its own. The last section shows what the predicate
  promises the backends that skip a pack on later runs: its value does not depend on any
  graph input.
\<close>

section \<open>The predicate\<close>

text \<open>What an operator contributes: a leaf decides by itself, some operators ask all their
  operands (those of the first group only when they have any), the others are not static.\<close>

datatype static_rule = Leaf bool | AllInputs bool

fun static_rule_of :: "op \<Rightarrow> static_rule" where
  "static_rule_of (Param _) = Leaf True"
| "static_rule_of (Constant _) = Leaf True"
| "static_rule_of (Cast _) = AllInputs True"
| "static_rule_of (Reshape _) = AllInputs True"
| "static_rule_of (Transpose _) = AllInputs True"
| "static_rule_of (Narrow _ _ _) = AllInputs True"
| "static_rule_of (Expand _) = AllInputs True"
| "static_rule_of (Activation _) = AllInputs True"
| "static_rule_of (Concat _) = AllInputs True"
| "static_rule_of (Binary _) = AllInputs False"
| "static_rule_of Where = AllInputs False"
| "static_rule_of Fma = AllInputs False"
| "static_rule_of _ = Leaf False"

type_synonym memo = "node_id \<rightharpoonup> bool"

text \<open>The recursion on node ids with its memo table; the fuel bounds the depth, which on a
  graph whose nodes read earlier ones is at most the number of nodes.\<close>

fun static_walk :: "graph \<Rightarrow> nat \<Rightarrow> node_id \<Rightarrow> memo \<Rightarrow> (bool \<times> memo) planned"
  and static_all :: "graph \<Rightarrow> nat \<Rightarrow> node_id list \<Rightarrow> memo \<Rightarrow> (bool \<times> memo) planned" where
  "static_walk g 0 i memo = Err Diverges"
| "static_walk g (Suc fuel) i memo =
     (case memo i of
        Some v \<Rightarrow> Ok (v, memo)
      | None \<Rightarrow>
          bind_outcome (node_of g i) (\<lambda>n.
          bind_outcome
            (case static_rule_of (n_op n) of
               Leaf v \<Rightarrow> Ok (v, memo)
             | AllInputs nonempty \<Rightarrow>
                 if nonempty \<and> n_inputs n = [] then Ok (False, memo)
                 else static_all g fuel (n_inputs n) memo)
            (\<lambda>(v, memo1). Ok (v, memo1(i \<mapsto> v)))))"
| "static_all g fuel [] memo = Ok (True, memo)"
| "static_all g fuel (i # is) memo =
     bind_outcome (static_walk g fuel i memo) (\<lambda>(v, memo1).
       if v then static_all g fuel is memo1 else Ok (False, memo1))"

definition is_static_weight_tensor :: "graph \<Rightarrow> node_id \<Rightarrow> memo \<Rightarrow> (bool \<times> memo) planned" where
  "is_static_weight_tensor g = static_walk g (Suc (graph_len g))"

definition static_step :: "graph \<Rightarrow> ranges \<times> memo \<Rightarrow> node \<Rightarrow> (ranges \<times> memo) planned" where
  "static_step g st n =
     (case st of (r, memo) \<Rightarrow>
        bind_outcome (is_static_weight_tensor g (n_id n) memo) (\<lambda>(v, memo1).
          Ok (if v \<and> \<not> is_boundary (n_op n)
              then (modify r (n_id n) (\<lambda>_. (0, graph_len g)), memo1)
              else (r, memo1))))"

definition extend_static_weight_pack_liveness :: "graph \<Rightarrow> ranges \<Rightarrow> ranges planned" where
  "extend_static_weight_pack_liveness g r =
     bind_outcome (for_each (static_step g) (r, Map.empty) (g_nodes g)) (\<lambda>(r1, _). Ok r1)"

section \<open>The predicate without a memo\<close>

inductive static_weight :: "graph \<Rightarrow> node_id \<Rightarrow> bool" for g where
  static_leaf: "i < graph_len g \<Longrightarrow> static_rule_of (n_op (g_nodes g ! i)) = Leaf True \<Longrightarrow>
     static_weight g i"
| static_inputs: "i < graph_len g \<Longrightarrow>
     static_rule_of (n_op (g_nodes g ! i)) = AllInputs nonempty \<Longrightarrow>
     nonempty \<longrightarrow> n_inputs (g_nodes g ! i) \<noteq> [] \<Longrightarrow>
     \<forall>j \<in> set (n_inputs (g_nodes g ! i)). static_weight g j \<Longrightarrow> static_weight g i"

inductive_simps static_weight_iff: "static_weight g i"

definition memo_sound :: "graph \<Rightarrow> memo \<Rightarrow> bool" where
  "memo_sound g memo \<longleftrightarrow> (\<forall>i v. memo i = Some v \<longrightarrow> v = static_weight g i)"

lemma memo_sound_empty [simp]: "memo_sound g Map.empty"
  by (simp add: memo_sound_def)

lemma memo_sound_upd: "memo_sound g m \<Longrightarrow> v = static_weight g i \<Longrightarrow> memo_sound g (m(i \<mapsto> v))"
  by (simp add: memo_sound_def)

lemma static_walk_spec:
  shows "wf_nodes (g_nodes g) \<Longrightarrow> memo_sound g memo \<Longrightarrow> i < graph_len g \<Longrightarrow> i < fuel \<Longrightarrow>
      \<exists>memo1. static_walk g fuel i memo = Ok (static_weight g i, memo1) \<and> memo_sound g memo1"
    and "wf_nodes (g_nodes g) \<Longrightarrow> memo_sound g memo \<Longrightarrow>
      \<forall>i \<in> set is. i < graph_len g \<and> i < fuel \<Longrightarrow>
      \<exists>memo1. static_all g fuel is memo = Ok (\<forall>i \<in> set is. static_weight g i, memo1) \<and>
        memo_sound g memo1"
proof (induction g fuel i memo and g fuel "is" memo rule: static_walk_static_all.induct)
  case (2 g fuel i memo)
  let ?n = "g_nodes g ! i"
  show ?case
  proof (cases "memo i")
    case (Some v)
    then show ?thesis using 2(3) by (auto simp: memo_sound_def)
  next
    case None
    have n: "node_of g i = Ok ?n" using 2(4) by simp
    have ins: "\<forall>j \<in> set (n_inputs ?n). j < graph_len g \<and> j < fuel"
      using wf_nodesD(2) [OF 2(2), of i] 2(4,5) by (fastforce simp: graph_len_def)
    obtain v memo1 where v: "(case static_rule_of (n_op ?n) of
        Leaf v \<Rightarrow> Ok (v, memo)
      | AllInputs nonempty \<Rightarrow>
          if nonempty \<and> n_inputs ?n = [] then Ok (False, memo)
          else static_all g fuel (n_inputs ?n) memo) = Ok (v, memo1)"
      "v = static_weight g i" "memo_sound g memo1"
    proof (cases "static_rule_of (n_op ?n)")
      case (Leaf b)
      then show thesis using that 2(3,4) by (auto simp: static_weight_iff [of g i])
    next
      case (AllInputs nonempty)
      show thesis
      proof (cases "nonempty \<and> n_inputs ?n = []")
        case True
        then show thesis
          using that AllInputs 2(3) by (auto simp: static_weight_iff [of g i])
      next
        case False
        obtain memo1 where "static_all g fuel (n_inputs ?n) memo =
            Ok (\<forall>j \<in> set (n_inputs ?n). static_weight g j, memo1)" "memo_sound g memo1"
          using 2(1) [OF None n AllInputs False 2(2,3) ins] by blast
        moreover have "static_weight g i = (\<forall>j \<in> set (n_inputs ?n). static_weight g j)"
          using AllInputs False 2(4) by (subst static_weight_iff) auto
        ultimately show thesis
          by (intro that) (simp_all only: AllInputs static_rule.case if_not_P [OF False])
      qed
    qed
    then show ?thesis using None n memo_sound_upd [of g memo1 v i] by auto
  qed
next
  case (4 g fuel i "is" memo)
  obtain memo1 where w: "static_walk g fuel i memo = Ok (static_weight g i, memo1)"
      "memo_sound g memo1"
    using 4(1) [OF 4(3,4)] 4(5) by auto
  show ?case
  proof (cases "static_weight g i")
    case True
    then show ?thesis
      using 4(2) [OF w(1) refl _ 4(3) w(2)] 4(5) w by auto
  next
    case False
    then show ?thesis using w by simp
  qed
qed auto

lemma static_walk_memo:
  assumes "wf_graph g" and "memo_sound g memo" and "i < graph_len g"
  shows "\<exists>memo1. is_static_weight_tensor g i memo = Ok (static_weight g i, memo1) \<and>
    memo_sound g memo1"
  using static_walk_spec(1) [of g memo i "Suc (graph_len g)"] assms
  by (simp add: is_static_weight_tensor_def wf_graph_def)

text \<open>The memoised recursion computes the predicate: with any table that is right so far
  it ends, answers whether the tensor depends on parameters and constants only, and leaves a
  right table.\<close>

theorem static_weight_memo:
  assumes "wf_graph g" and "memo_sound g memo" and "i < graph_len g"
  shows "\<exists>memo1. is_static_weight_tensor g i memo = Ok (static_weight g i, memo1) \<and>
    memo_sound g memo1"
  using assms by (rule static_walk_memo)

section \<open>What it promises\<close>

text \<open>Kernels of two runs that differ in the uploaded inputs only.\<close>

definition same_but_inputs :: "'v kernels \<Rightarrow> 'v kernels \<Rightarrow> bool" where
  "same_but_inputs sem sem' \<longleftrightarrow>
     (\<forall>opr s vs. (\<forall>nm. opr \<noteq> Input nm) \<longrightarrow> sem opr s vs = sem' opr s vs)"

text \<open>Inputs, parameters and constants read nothing, as the builder makes them.\<close>

definition boundary_closed :: "graph \<Rightarrow> bool" where
  "boundary_closed g \<longleftrightarrow> (\<forall>n \<in> set (g_nodes g). is_boundary (n_op n) \<longrightarrow> n_inputs n = [])"

lemma static_leaf_boundary:
  "static_rule_of opr = Leaf True \<Longrightarrow> is_boundary opr \<and> (\<forall>nm. opr \<noteq> Input nm)"
  by (cases opr) auto

text \<open>A static weight tensor has the same value in two runs that differ in the graph
  inputs only, which is what lets a backend skip computing it again.\<close>

theorem static_weight_value:
  assumes "static_weight g i" and "wf_nodes (g_nodes g)" and "boundary_closed g"
    and "same_but_inputs sem sem'"
  shows "value_at sem g i = value_at sem' g i"
  using assms(1)
proof (induction rule: static_weight.induct)
  case (static_leaf i)
  then have "n_inputs (g_nodes g ! i) = []"
    using static_leaf_boundary assms(3) by (auto simp: boundary_closed_def graph_len_def)
  then show ?case
    using static_leaf_boundary [OF static_leaf(2)] assms(4) static_leaf(1)
    by (simp add: value_at_wf [OF assms(2)] same_but_inputs_def)
next
  case (static_inputs i nonempty)
  then have "\<forall>nm. n_op (g_nodes g ! i) \<noteq> Input nm" by auto
  moreover have "map (value_at sem g) (n_inputs (g_nodes g ! i)) =
      map (value_at sem' g) (n_inputs (g_nodes g ! i))"
    using static_inputs(4) by simp
  ultimately show ?case
    using assms(4) static_inputs(1)
    by (simp add: value_at_wf [OF assms(2)] same_but_inputs_def cong: map_cong)
qed

end
