(* ===== verification/FoldLiveness.thy ===== *)
theory FoldLiveness
  imports StaticWeights
begin

text \<open>
  The remaining extensions of the live ranges: packed query-key-value parents
  (\<open>attention_layout.rs\<close>, lines 238 to 289; \<open>memory.rs\<close>, 1405 to 1427), the folds around a 3-D
  convolution (585 to 755), the planning options (1441 to 1516) and the whole computation of
  the ranges a plan is made from (2061 to 2069).
\<close>

section \<open>Packed attention operands\<close>

text \<open>Upwards through reshapes and casts to a narrow on axis 2.\<close>

fun narrow_on_axis_2 ::
  "graph \<Rightarrow> nat \<Rightarrow> node_id \<Rightarrow> (node_id \<times> nat \<times> nat \<times> node_id) option planned" where
  "narrow_on_axis_2 g 0 cur = Err Diverges"
| "narrow_on_axis_2 g (Suc fuel) cur =
     bind_outcome (node_of g cur) (\<lambda>n.
       case n_op n of
         Reshape _ \<Rightarrow> (case n_inputs n of [] \<Rightarrow> Ok None | p # _ \<Rightarrow> narrow_on_axis_2 g fuel p)
       | Cast _ \<Rightarrow> (case n_inputs n of [] \<Rightarrow> Ok None | p # _ \<Rightarrow> narrow_on_axis_2 g fuel p)
       | Narrow axis start len \<Rightarrow>
           if axis \<noteq> 2 then Ok None
           else (case n_inputs n of [] \<Rightarrow> Ok None | p # _ \<Rightarrow> Ok (Some (p, start, len, cur)))
       | _ \<Rightarrow> Ok None)"

text \<open>\<open>let x = m?;\<close> in a function that returns an option.\<close>

definition bind_some ::
  "'a option planned \<Rightarrow> ('a \<Rightarrow> 'b option planned) \<Rightarrow> 'b option planned" where
  "bind_some m f = bind_outcome m (\<lambda>v. case v of Some x \<Rightarrow> f x | None \<Rightarrow> Ok None)"

definition detect_packed_bshd_qkv_attention ::
  "graph \<Rightarrow> node_id \<Rightarrow> node_id \<Rightarrow> node_id \<Rightarrow>
   (node_id \<times> nat \<times> node_id \<times> node_id \<times> node_id) option planned" where
  "detect_packed_bshd_qkv_attention g q k v =
     (let find = narrow_on_axis_2 g (Suc (graph_len g)) in
      bind_some (find q) (\<lambda>(parent, qs, ql, q_n).
      bind_some (find k) (\<lambda>(parent_k, ks, kl, k_n).
      bind_some (find v) (\<lambda>(parent_v, vs, vl, v_n).
        if parent \<noteq> parent_k \<or> parent \<noteq> parent_v then Ok None
        else if qs \<noteq> 0 \<or> ks \<noteq> 1 \<or> vs \<noteq> 2 then Ok None
        else if ql \<noteq> kl \<or> ql \<noteq> vl then Ok None
        else bind_outcome (node_of g parent) (\<lambda>pn.
          if rank (n_shape pn) \<noteq> 5 then Ok None
          else bind_outcome (unwrap_res (static_at (n_shape pn) 2)) (\<lambda>d2.
            if d2 \<noteq> 3 then Ok None
            else bind_outcome (unwrap_res (static_at (n_shape pn) 3)) (\<lambda>d3.
                 bind_outcome (unwrap_res (static_at (n_shape pn) 4)) (\<lambda>d4.
                   Ok (Some (parent, ql * d3 * d4, q_n, k_n, v_n))))))))))"

fun is_attention :: "op \<Rightarrow> bool" where
  "is_attention (Attention _ _ _ _ _ _) = True"
| "is_attention _ = False"

definition qkv_step :: "graph \<Rightarrow> ranges \<Rightarrow> nat \<times> node \<Rightarrow> ranges planned" where
  "qkv_step g r sn =
     (case sn of (step, n) \<Rightarrow>
        if \<not> is_attention (n_op n) \<or> length (n_inputs n) < 3 then Ok r
        else bind_outcome
          (detect_packed_bshd_qkv_attention g (n_inputs n ! 0) (n_inputs n ! 1) (n_inputs n ! 2))
          (\<lambda>v. case v of
             None \<Rightarrow> Ok r
           | Some (parent, _) \<Rightarrow> read_at g step r parent))"

definition extend_packed_qkv_parent_liveness :: "graph \<Rightarrow> ranges \<Rightarrow> ranges planned" where
  "extend_packed_qkv_parent_liveness g r =
     for_each (qkv_step g) r (enumerate 0 (g_nodes g))"

section \<open>Folds around a 3-D convolution\<close>

record conv3d_folds =
  absorbed :: id_map
  read_through :: id_map

text \<open>\<open>uses.get(&i)\<close>: absent when no slot reads \<open>i\<close>, so \<open>Some 0\<close> does not occur.\<close>

definition slot_uses :: "graph \<Rightarrow> node_id \<Rightarrow> nat" where
  "slot_uses g i = count_list (concat (map n_inputs (g_nodes g))) i"

definition is_conv3d :: "graph \<Rightarrow> node_id \<Rightarrow> bool planned" where
  "is_conv3d g i =
     bind_outcome (node_of g i) (\<lambda>n.
       Ok (case n_op n of
             Conv3d _ _ _ _ \<Rightarrow> True
           | FusedConvBiasAct _ _ _ _ _ act has_residual \<Rightarrow>
               act = None \<and> \<not> has_residual \<and> rank (n_shape n) = 5 \<and> length (n_inputs n) = 3
           | _ \<Rightarrow> False))"

definition scalar_const :: "graph \<Rightarrow> node_id \<Rightarrow> bool planned" where
  "scalar_const g i =
     bind_outcome (node_of g i) (\<lambda>n.
       Ok (case n_op n of Constant data \<Rightarrow> length data = 4 | _ \<Rightarrow> False))"

text \<open>One of the two operand orders of \<open>max(conv, alpha * conv)\<close>: the convolution and the
  product, when the fold applies.\<close>

definition leaky_operands :: "graph \<Rightarrow> node_id \<Rightarrow> node_id \<Rightarrow> bool planned" where
  "leaky_operands g c m =
     bind_outcome (is_conv3d g c) (\<lambda>conv.
       if \<not> conv then Ok False
       else bind_outcome (node_of g m) (\<lambda>mn.
         if n_op mn \<noteq> Binary Mul \<or> length (n_inputs mn) \<noteq> 2 then Ok False
         else if n_inputs mn ! 0 \<noteq> c \<and> n_inputs mn ! 1 \<noteq> c then Ok False
         else
           let k = (if n_inputs mn ! 0 = c then n_inputs mn ! 1 else n_inputs mn ! 0) in
           bind_outcome (scalar_const g k) (\<lambda>sc.
             Ok (sc \<and> slot_uses g c = 2 \<and> slot_uses g m = 1
                 \<and> c \<notin> set (g_outputs g) \<and> m \<notin> set (g_outputs g)))))"

definition absorb_leaky :: "graph \<Rightarrow> conv3d_folds \<Rightarrow> node \<Rightarrow> conv3d_folds planned" where
  "absorb_leaky g out n =
     (if n_op n \<noteq> Binary Max \<or> length (n_inputs n) \<noteq> 2 then Ok out
      else
        let a = n_inputs n ! 0; b = n_inputs n ! 1;
            absorb = (\<lambda>c m. out\<lparr>absorbed := (absorbed out)(n_id n \<mapsto> c, m \<mapsto> c)\<rparr>) in
        bind_outcome (leaky_operands g a b) (\<lambda>first.
          if first then Ok (absorb a b)
          else bind_outcome (leaky_operands g b a) (\<lambda>second.
            Ok (if second then absorb b a else out))))"

text \<open>The tensor before a nearest-neighbour upsample (reshape, expand, reshape).\<close>

definition upsample_source :: "graph \<Rightarrow> node_id \<Rightarrow> node_id option planned" where
  "upsample_source g a =
     bind_outcome (node_of g a) (\<lambda>na.
       case n_op na of
         Reshape _ \<Rightarrow>
           bind_outcome (index_or_panic (n_inputs na) 0) (\<lambda>e.
           bind_outcome (node_of g e) (\<lambda>ne.
             case n_op ne of
               Expand _ \<Rightarrow>
                 bind_outcome (index_or_panic (n_inputs ne) 0) (\<lambda>r.
                 bind_outcome (node_of g r) (\<lambda>nr.
                   case n_op nr of
                     Reshape _ \<Rightarrow>
                       bind_outcome (index_or_panic (n_inputs nr) 0) (\<lambda>s. Ok (Some s))
                   | _ \<Rightarrow> Ok None))
             | _ \<Rightarrow> Ok None))
       | _ \<Rightarrow> Ok None)"

definition read_through_concat :: "graph \<Rightarrow> conv3d_folds \<Rightarrow> node \<Rightarrow> conv3d_folds planned" where
  "read_through_concat g out n =
     bind_outcome (is_conv3d g (n_id n)) (\<lambda>conv.
       if \<not> conv then Ok out
       else bind_outcome (index_or_panic (n_inputs n) 0) (\<lambda>cat_id.
            bind_outcome (node_of g cat_id) (\<lambda>cat.
              if n_op cat = Concat 1 \<and> length (n_inputs cat) = 2 \<and> slot_uses g cat_id = 1
                 \<and> cat_id \<notin> set (g_outputs g)
              then
                let a = n_inputs cat ! 0; b = n_inputs cat ! 1;
                    rt = (read_through out)(a \<mapsto> n_id n, b \<mapsto> n_id n) in
                bind_outcome (upsample_source g a) (\<lambda>src.
                  Ok (out\<lparr>read_through :=
                        (case src of Some s \<Rightarrow> rt(s \<mapsto> n_id n) | None \<Rightarrow> rt)\<rparr>))
              else Ok out)))"

definition conv3d_epilogue_folds :: "graph \<Rightarrow> conv3d_folds planned" where
  "conv3d_epilogue_folds g =
     for_each (\<lambda>out n.
       bind_outcome (absorb_leaky g out n) (\<lambda>out1. read_through_concat g out1 n))
       \<lparr>absorbed = Map.empty, read_through = Map.empty\<rparr> (g_nodes g)"

text \<open>\<open>step_of\<close> is the position of the last node with the id, its own on a built graph.\<close>

definition step_of :: "graph \<Rightarrow> node_id \<Rightarrow> nat option" where
  "step_of g i = map_of (rev (zip (map n_id (g_nodes g)) [0..<graph_len g])) i"

definition absorbed_step :: "graph \<Rightarrow> id_map \<Rightarrow> ranges \<Rightarrow> node_id \<Rightarrow> ranges" where
  "absorbed_step g m r i =
     (case m i of
        None \<Rightarrow> r
      | Some conv \<Rightarrow>
          (case step_of g conv of
             None \<Rightarrow> r
           | Some cs \<Rightarrow> modify r i (\<lambda>(b, d). (min b cs, d))))"

definition read_through_step :: "graph \<Rightarrow> id_map \<Rightarrow> ranges \<Rightarrow> node_id \<Rightarrow> ranges planned" where
  "read_through_step g m r i =
     (case m i of
        None \<Rightarrow> Ok r
      | Some conv \<Rightarrow>
          (case step_of g conv of
             None \<Rightarrow> Ok r
           | Some cs \<Rightarrow> read_at g cs r i))"

definition extend_conv3d_epilogue_fold_liveness :: "graph \<Rightarrow> ranges \<Rightarrow> ranges planned" where
  "extend_conv3d_epilogue_fold_liveness g r =
     bind_outcome (conv3d_epilogue_folds g) (\<lambda>folds.
       for_each (read_through_step g (read_through folds))
         (foldl (absorbed_step g (absorbed folds)) r [0..<graph_len g]) [0..<graph_len g])"

section \<open>The ranges of a plan\<close>

record mem_options =
  allocate_params :: bool
  allocate_inputs :: bool
  allocate_constants :: bool
  arena_no_reuse :: bool
  pin_output_ancestors :: bool
  dequant_host_fallback :: bool
  elide_bank_transposes :: bool
  fold_conv3d_epilogue :: bool
  elide_requires_small_m :: bool

definition inference_options :: "plan_env \<Rightarrow> mem_options" where
  "inference_options env =
     \<lparr>allocate_params = True, allocate_inputs = True, allocate_constants = True,
      arena_no_reuse = env_no_reuse env, pin_output_ancestors = True,
      dequant_host_fallback = True, elide_bank_transposes = False,
      fold_conv3d_epilogue = False, elide_requires_small_m = False\<rparr>"

definition backward_activations_only :: "plan_env \<Rightarrow> mem_options" where
  "backward_activations_only env =
     \<lparr>allocate_params = False, allocate_inputs = True, allocate_constants = True,
      arena_no_reuse = env_no_reuse env, pin_output_ancestors = True,
      dequant_host_fallback = True, elide_bank_transposes = False,
      fold_conv3d_epilogue = False, elide_requires_small_m = False\<rparr>"

definition plan_ranges :: "plan_env \<Rightarrow> graph \<Rightarrow> mem_options \<Rightarrow> ranges planned" where
  "plan_ranges env g opts =
     bind_outcome (compute_live_ranges_opts g (pin_output_ancestors opts)) (\<lambda>r0.
     bind_outcome (extend_packed_qkv_parent_liveness g r0) (\<lambda>r1.
     bind_outcome (extend_custom_op_input_liveness env g (dequant_host_fallback opts) r1) (\<lambda>r2.
     bind_outcome (extend_bert_hidden_liveness g r2) (\<lambda>r3.
     bind_outcome (extend_onnx_duration_epilogue_liveness g r3) (\<lambda>r4.
     bind_outcome (extend_static_weight_pack_liveness g r4) (\<lambda>r5.
       if fold_conv3d_epilogue opts then extend_conv3d_epilogue_fold_liveness g r5
       else Ok r5))))))"

end
