(* ===== verification/MemPlan.thy ===== *)
theory MemPlan
  imports FoldLiveness "HOL-Library.AList" "HOL-Library.List_Lexorder" "HOL-Library.Char_ord"
begin

text \<open>
  Buffer assignment of the memory planner (\<open>memory.rs\<close>, lines 18 to 43, 306 to 345 and 1518
  to 2482): slot widths, the greedy first-fit placement by decreasing size, the in-place
  safety pass, view aliasing, shared weights and the entry points.

  The \<open>HashMap\<close> of assignments is an association list without repeated keys. Offsets and
  sizes are exact: a plan whose arena exceeds \<open>usize\<close> is outside the model.
\<close>

section \<open>Slots and plans\<close>

record buffer_slot =
  slot_offset :: nat
  slot_size :: nat

type_synonym assignments = "(node_id \<times> buffer_slot) list"

record memory_plan =
  plan_arena_size :: nat
  plan_assignments :: assignments
  plan_schedule :: "node_id list"

definition slot_of :: "assignments \<Rightarrow> node_id \<Rightarrow> buffer_slot option" where
  "slot_of al i = map_of al i"

definition assign :: "assignments \<Rightarrow> node_id \<Rightarrow> nat \<Rightarrow> nat \<Rightarrow> assignments" where
  "assign al i off sz = AList.update i \<lparr>slot_offset = off, slot_size = sz\<rparr> al"

definition total_unshared_bytes :: "memory_plan \<Rightarrow> nat" where
  "total_unshared_bytes p = sum_list (map (\<lambda>(i, s). slot_size s) (plan_assignments p))"

definition bytes_saved :: "memory_plan \<Rightarrow> nat" where
  "bytes_saved p = total_unshared_bytes p - plan_arena_size p"

definition boundary_min_slot_bytes :: "op \<Rightarrow> nat \<Rightarrow> nat" where
  "boundary_min_slot_bytes opr alignment = (if is_boundary opr then max alignment 1 else 0)"

definition boundary_tail_guard :: "op \<Rightarrow> nat \<Rightarrow> nat" where
  "boundary_tail_guard opr alignment = (if is_boundary opr then max alignment 128 else 0)"

definition plans_boundary_buffer :: "op \<Rightarrow> mem_options \<Rightarrow> bool" where
  "plans_boundary_buffer opr opts =
     (case opr of
        Param _ \<Rightarrow> allocate_params opts
      | Input _ \<Rightarrow> allocate_inputs opts
      | Constant _ \<Rightarrow> allocate_constants opts
      | _ \<Rightarrow> True)"

section \<open>Widths\<close>

datatype arena_width = F32Uniform | Native | Hybrid | NativeHalfWidened | NativeBf16Widened

datatype fusion_target = Cpu | Metal | Mlx | Cuda | Rocm | Wgpu | Tpu

fun arena_width_policy :: "fusion_target \<Rightarrow> arena_width" where
  "arena_width_policy Cpu = NativeHalfWidened"
| "arena_width_policy Metal = NativeBf16Widened"
| "arena_width_policy Mlx = Native"
| "arena_width_policy Cuda = Native"
| "arena_width_policy Rocm = Native"
| "arena_width_policy Wgpu = F32Uniform"
| "arena_width_policy Tpu = F32Uniform"

fun owns_layout :: "op \<Rightarrow> bool" where
  "owns_layout (Custom _ _ _) = True"
| "owns_layout (KvAppend _ _) = True"
| "owns_layout _ = False"

definition native_width_nodes :: "graph \<Rightarrow> arena_width \<Rightarrow> node_id set planned" where
  "native_width_nodes g policy =
     (if policy \<noteq> NativeHalfWidened \<and> policy \<noteq> NativeBf16Widened then Ok {}
      else
        let seeds = concat (map (\<lambda>n. n_id n # n_inputs n)
              (filter (\<lambda>n. owns_layout (n_op n)) (g_nodes g))) in
        if seeds = [] then Ok {}
        else bind_outcome
          (traverse (\<lambda>n. bind_outcome (resolve_view_root g (n_id n)) (\<lambda>(root, _).
             Ok (root, n_id n))) (g_nodes g)) (\<lambda>family.
          let hot = map fst (filter (\<lambda>(root, m). root \<in> set seeds \<or> m \<in> set seeds) family) in
          Ok (set seeds \<union> set hot
              \<union> set (map snd (filter (\<lambda>(root, m). root \<in> set hot) family)))))"

definition node_slot_bytes :: "node \<Rightarrow> arena_width \<Rightarrow> bool \<Rightarrow> nat" where
  "node_slot_bytes n policy keep_native =
     (let t = shape_dtype (n_shape n);
          native = (case shape_size_bytes (n_shape n) of Some b \<Rightarrow> b | None \<Rightarrow> 0);
          f32_wide = max native
            ((case num_elements (n_shape n) of Some c \<Rightarrow> c | None \<Rightarrow> 0) * 4);
          is_param = (case n_op n of Param _ \<Rightarrow> True | _ \<Rightarrow> False);
          non_f32_param = (is_param \<and> t \<noteq> F32);
          low_prec_act = (\<not> is_param \<and> (t = F16 \<or> t = BF16)) in
      case policy of
        Native \<Rightarrow> native
      | F32Uniform \<Rightarrow> (if non_f32_param \<and> \<not> (is_param \<and> t = F16) then native else f32_wide)
      | Hybrid \<Rightarrow> (if non_f32_param \<or> low_prec_act then native else f32_wide)
      | NativeHalfWidened \<Rightarrow> (if low_prec_act \<and> \<not> keep_native then f32_wide else native)
      | NativeBf16Widened \<Rightarrow>
          (if (\<not> is_param \<and> t = BF16) \<and> \<not> keep_native then f32_wide else native))"

section \<open>Buffers to place\<close>

record buf_info =
  bi_id :: node_id
  bi_size :: nat
  bi_birth :: nat
  bi_death :: nat

definition folded_away :: "graph \<Rightarrow> mem_options \<Rightarrow> reader_index \<Rightarrow> node \<Rightarrow> bool planned" where
  "folded_away g opts readers n =
     (if \<not> elide_bank_transposes opts then Ok False
      else bind_outcome (is_elidable_bank_transpose_gated g n (elide_requires_small_m opts)) (\<lambda>bank.
        if bank then Ok True
        else if elide_requires_small_m opts then Ok False
        else is_elidable_matmul_transpose_indexed g n readers))"

definition buffer_of ::
  "graph \<Rightarrow> nat \<Rightarrow> mem_options \<Rightarrow> arena_width \<Rightarrow> node_id set \<Rightarrow> reader_index \<Rightarrow> ranges \<Rightarrow> node
    \<Rightarrow> buf_info option planned" where
  "buffer_of g alignment opts width keep_native readers r n =
     bind_outcome (pure_view_offset g n) (\<lambda>v.
       if v \<noteq> None then Ok None
       else bind_outcome (folded_away g opts readers n) (\<lambda>folded.
         if folded then Ok None
         else
           let raw_size = node_slot_bytes n width (n_id n \<in> keep_native);
               size = (if raw_size = 0 then boundary_min_slot_bytes (n_op n) alignment
                       else raw_size) in
           Ok (case r (n_id n) of
                 Some (birth, death) \<Rightarrow>
                   if 0 < size \<and> plans_boundary_buffer (n_op n) opts
                   then Some \<lparr>bi_id = n_id n, bi_size = size, bi_birth = birth, bi_death = death\<rparr>
                   else None
               | None \<Rightarrow> None)))"

definition collect_buffers ::
  "graph \<Rightarrow> nat \<Rightarrow> mem_options \<Rightarrow> arena_width \<Rightarrow> node_id set \<Rightarrow> ranges \<Rightarrow> buf_info list planned" where
  "collect_buffers g alignment opts width keep_native r =
     bind_outcome
       (traverse (buffer_of g alignment opts width keep_native (reader_index_new g) r) (g_nodes g))
       (\<lambda>bs. Ok (sort_key (\<lambda>b. - int (bi_size b)) (List.map_filter (\<lambda>b. b) bs)))"

section \<open>Placement\<close>

record region =
  rg_off :: nat
  rg_size :: nat
  rg_birth :: nat
  rg_death :: nat

definition rg_end :: "region \<Rightarrow> nat" where
  "rg_end p = rg_off p + rg_size p"

definition overlaps_time :: "nat \<Rightarrow> nat \<Rightarrow> region \<Rightarrow> bool" where
  "overlaps_time birth death p \<longleftrightarrow> birth \<le> rg_death p \<and> rg_birth p \<le> death"

text \<open>Left to right over the occupied ranges: the first gap that fits, or past them all.\<close>

fun sweep :: "nat \<Rightarrow> nat \<Rightarrow> nat \<Rightarrow> (nat \<times> nat) list \<Rightarrow> nat" where
  "sweep align need cursor [] = align_up align cursor"
| "sweep align need cursor ((start, stop) # occupied) =
     (if align_up align cursor + need \<le> start then align_up align cursor
      else sweep align need (max cursor stop) occupied)"

definition best_offset :: "nat \<Rightarrow> nat \<Rightarrow> region list \<Rightarrow> nat \<Rightarrow> nat \<Rightarrow> nat" where
  "best_offset align need placed birth death =
     sweep align need 0
       (map (\<lambda>p. (rg_off p, rg_end p)) (filter (overlaps_time birth death) placed))"

text \<open>The candidate scan the planner verifies the sweep against (\<open>RLX_PLAN_VERIFY\<close>).\<close>

definition conflicts :: "nat \<Rightarrow> nat \<Rightarrow> nat \<Rightarrow> nat \<Rightarrow> region \<Rightarrow> bool" where
  "conflicts a need birth death p \<longleftrightarrow>
     a < rg_end p \<and> rg_off p < a + need \<and> overlaps_time birth death p"

definition candidate_offsets :: "nat \<Rightarrow> nat \<Rightarrow> region list \<Rightarrow> nat \<Rightarrow> nat \<Rightarrow> nat list" where
  "candidate_offsets align need placed birth death =
     filter (\<lambda>a. \<not> list_ex (conflicts a need birth death) placed)
       (map (align_up align) (remdups_adj (sort (0 # map rg_end placed))))"

definition candidate_scan :: "nat \<Rightarrow> nat \<Rightarrow> nat \<Rightarrow> region list \<Rightarrow> nat \<Rightarrow> nat \<Rightarrow> nat" where
  "candidate_scan align arena_size need placed birth death =
     (case candidate_offsets align need placed birth death of
        [] \<Rightarrow> align_up align arena_size
      | a # rest \<Rightarrow> foldl (\<lambda>w a. if a < w then a else w) a rest)"

record placement =
  pl_assigned :: assignments
  pl_placed :: "region list"
  pl_arena :: nat

definition region_le :: "region \<Rightarrow> nat \<Rightarrow> nat \<Rightarrow> bool" where
  "region_le p off stop \<longleftrightarrow> rg_off p < off \<or> rg_off p = off \<and> rg_end p \<le> stop"

text \<open>\<open>partition_point\<close> on the list kept sorted by \<open>(offset, end)\<close>, then \<open>insert\<close>.\<close>

definition insert_region :: "region \<Rightarrow> region list \<Rightarrow> region list" where
  "insert_region p placed =
     (let at = length (takeWhile (\<lambda>q. region_le q (rg_off p) (rg_end p)) placed) in
      take at placed @ p # drop at placed)"

definition place :: "graph \<Rightarrow> nat \<Rightarrow> bool \<Rightarrow> placement \<Rightarrow> buf_info \<Rightarrow> placement planned" where
  "place g alignment no_reuse st buf =
     bind_outcome (node_of g (bi_id buf)) (\<lambda>n.
       let need = bi_size buf + boundary_tail_guard (n_op n) alignment;
           off = (if no_reuse then align_up alignment (pl_arena st)
                  else best_offset alignment need (pl_placed st) (bi_birth buf) (bi_death buf)) in
       Ok \<lparr>pl_assigned = assign (pl_assigned st) (bi_id buf) off (bi_size buf),
           pl_placed = insert_region
             \<lparr>rg_off = off, rg_size = need, rg_birth = bi_birth buf, rg_death = bi_death buf\<rparr>
             (pl_placed st),
           pl_arena = max (pl_arena st) (off + need)\<rparr>)"

definition placement_start :: placement where
  "placement_start = \<lparr>pl_assigned = [], pl_placed = [], pl_arena = 0\<rparr>"

section \<open>The in-place safety pass\<close>

fun overlaps_input ::
  "graph \<Rightarrow> arena_width \<Rightarrow> node_id set \<Rightarrow> assignments \<Rightarrow> node_id \<Rightarrow> nat \<Rightarrow> nat \<Rightarrow> node_id list
    \<Rightarrow> bool planned" where
  "overlaps_input g width keep_native al i start stop [] = Ok False"
| "overlaps_input g width keep_native al i start stop (inp # inps) =
     bind_outcome (resolve_view_root g inp) (\<lambda>(root, _).
       if root = i then overlaps_input g width keep_native al i start stop inps
       else case slot_of al root of
         None \<Rightarrow> overlaps_input g width keep_native al i start stop inps
       | Some rs \<Rightarrow>
           bind_outcome (node_of g root) (\<lambda>rn.
             let r_size = max (node_slot_bytes rn width (root \<in> keep_native)) 1 in
             if start < slot_offset rs + r_size \<and> slot_offset rs < stop then Ok True
             else overlaps_input g width keep_native al i start stop inps))"

definition relocate ::
  "graph \<Rightarrow> nat \<Rightarrow> arena_width \<Rightarrow> node_id set \<Rightarrow> assignments \<times> nat \<Rightarrow> node_id
    \<Rightarrow> (assignments \<times> nat) planned" where
  "relocate g alignment width keep_native st i =
     (case st of (al, arena) \<Rightarrow>
        bind_outcome (node_of g i) (\<lambda>n.
          case slot_of al i of
            None \<Rightarrow> Ok (al, arena)
          | Some out \<Rightarrow>
              let out_size = max (node_slot_bytes n width (n_id n \<in> keep_native)) 1 in
              bind_outcome
                (overlaps_input g width keep_native al i (slot_offset out)
                   (slot_offset out + out_size) (n_inputs n)) (\<lambda>hit.
                if hit
                then let off = align_up alignment arena in
                     Ok (assign al i off (slot_size out),
                         max arena (off + slot_size out + boundary_tail_guard (n_op n) alignment))
                else Ok (al, arena))))"

section \<open>Views and shared weights\<close>

definition alias_view ::
  "graph \<Rightarrow> arena_width \<Rightarrow> node_id set \<Rightarrow> assignments \<Rightarrow> node \<Rightarrow> assignments planned" where
  "alias_view g width keep_native al n =
     bind_outcome (pure_view_offset g n) (\<lambda>v.
       if v = None then Ok al
       else bind_outcome (resolve_view_root g (n_id n)) (\<lambda>(root, off).
         Ok (case slot_of al root of
               None \<Rightarrow> al
             | Some rs \<Rightarrow> assign al (n_id n) (slot_offset rs + off)
                 (node_slot_bytes n width (n_id n \<in> keep_native)))))"

record weight_slot =
  ws_name :: string
  ws_forward_id :: node_id
  ws_offset :: nat
  ws_size :: nat

record shared_weights =
  sw_arena_size :: nat
  sw_slots :: "weight_slot list"

definition weight_slot_of :: "assignments \<Rightarrow> node \<Rightarrow> weight_slot option" where
  "weight_slot_of al n =
     (case n_op n of
        Param nm \<Rightarrow> map_option (\<lambda>s. \<lparr>ws_name = nm, ws_forward_id = n_id n,
             ws_offset = slot_offset s, ws_size = slot_size s\<rparr>) (slot_of al (n_id n))
      | _ \<Rightarrow> None)"

definition weights_from_forward :: "graph \<Rightarrow> memory_plan \<Rightarrow> shared_weights" where
  "weights_from_forward g p =
     (let slots = sort_key ws_name (List.map_filter (weight_slot_of (plan_assignments p)) (g_nodes g))
      in \<lparr>sw_arena_size = foldl max 0 (map (\<lambda>s. ws_offset s + ws_size s) slots), sw_slots = slots\<rparr>)"

definition apply_weight :: "shared_weights \<Rightarrow> assignments \<Rightarrow> node \<Rightarrow> assignments" where
  "apply_weight w al n =
     (case n_op n of
        Param nm \<Rightarrow>
          (case map_of (rev (map (\<lambda>s. (ws_name s, s)) (sw_slots w))) nm of
             Some s \<Rightarrow> assign al (n_id n) (ws_offset s) (ws_size s)
           | None \<Rightarrow> al)
      | _ \<Rightarrow> al)"

definition apply_to_plan :: "shared_weights \<Rightarrow> graph \<Rightarrow> memory_plan \<Rightarrow> memory_plan" where
  "apply_to_plan w g p =
     p\<lparr>plan_assignments := foldl (apply_weight w) (plan_assignments p) (g_nodes g),
       plan_arena_size := max (plan_arena_size p) (sw_arena_size w)\<rparr>"

section \<open>The planner\<close>

definition plan_memory_aligned_inner ::
  "plan_env \<Rightarrow> graph \<Rightarrow> nat \<Rightarrow> mem_options \<Rightarrow> shared_weights option \<Rightarrow> arena_width
    \<Rightarrow> memory_plan planned" where
  "plan_memory_aligned_inner env g alignment opts weights width =
     bind_outcome (plan_ranges env g opts) (\<lambda>r.
     bind_outcome (graph_exports_onnx_duration g) (\<lambda>exports.
     let no_reuse = (exports \<or> arena_no_reuse opts) in
     bind_outcome (native_width_nodes g width) (\<lambda>keep_native.
     bind_outcome (collect_buffers g alignment opts width keep_native r) (\<lambda>buffers.
     bind_outcome (for_each (place g alignment no_reuse) placement_start buffers) (\<lambda>st.
     bind_outcome
       (if no_reuse then Ok (pl_assigned st, pl_arena st)
        else for_each (relocate g alignment width keep_native) (pl_assigned st, pl_arena st)
               (map bi_id buffers)) (\<lambda>(al, arena).
     bind_outcome (for_each (alias_view g width keep_native) al (g_nodes g)) (\<lambda>al1.
       let p = \<lparr>plan_arena_size = arena, plan_assignments = al1, plan_schedule = topo_order g\<rparr> in
       Ok (case weights of Some w \<Rightarrow> apply_to_plan w g p | None \<Rightarrow> p))))))))"

section \<open>Entry points\<close>

fun host_indexed :: "op \<Rightarrow> bool" where
  "host_indexed (Gather _) = True"
| "host_indexed (ScatterNd _) = True"
| "host_indexed (ScatterElements _ _) = True"
| "host_indexed (GatherNd _) = True"
| "host_indexed (GatherElements _) = True"
| "host_indexed (LayerNormBackwardGamma _ _) = True"
| "host_indexed _ = False"

definition graph_has_host_indexing :: "graph \<Rightarrow> bool" where
  "graph_has_host_indexing g = list_ex (\<lambda>n. host_indexed (n_op n)) (g_nodes g)"

definition plan_memory_with_options_policy ::
  "plan_env \<Rightarrow> graph \<Rightarrow> nat \<Rightarrow> mem_options \<Rightarrow> arena_width \<Rightarrow> memory_plan planned" where
  "plan_memory_with_options_policy env g alignment opts policy =
     plan_memory_aligned_inner env g alignment opts None policy"

definition plan_memory_with_options ::
  "plan_env \<Rightarrow> graph \<Rightarrow> nat \<Rightarrow> mem_options \<Rightarrow> memory_plan planned" where
  "plan_memory_with_options env g alignment opts =
     plan_memory_aligned_inner env g alignment opts None Native"

definition plan_memory_aligned :: "plan_env \<Rightarrow> graph \<Rightarrow> nat \<Rightarrow> memory_plan planned" where
  "plan_memory_aligned env g alignment =
     plan_memory_aligned_inner env g alignment (inference_options env) None Native"

definition plan_memory :: "plan_env \<Rightarrow> graph \<Rightarrow> memory_plan planned" where
  "plan_memory env g = plan_memory_aligned env g 64"

definition plan_memory_f32_uniform :: "plan_env \<Rightarrow> graph \<Rightarrow> nat \<Rightarrow> memory_plan planned" where
  "plan_memory_f32_uniform env g alignment =
     plan_memory_aligned_inner env g alignment
       ((inference_options env)\<lparr>pin_output_ancestors :=
          graph_has_host_indexing g \<or> env_pin_outputs env\<rparr>) None F32Uniform"

definition plan_memory_native :: "plan_env \<Rightarrow> graph \<Rightarrow> nat \<Rightarrow> memory_plan planned" where
  "plan_memory_native env g alignment =
     plan_memory_aligned_inner env g alignment
       ((inference_options env)\<lparr>pin_output_ancestors := graph_has_host_indexing g\<rparr>) None Native"

definition plan_memory_native_in_order_params ::
  "plan_env \<Rightarrow> graph \<Rightarrow> nat \<Rightarrow> bool \<Rightarrow> memory_plan planned" where
  "plan_memory_native_in_order_params env g alignment params =
     plan_memory_aligned_inner env g alignment
       ((inference_options env)\<lparr>allocate_params := params,
          pin_output_ancestors := env_pin_outputs env, dequant_host_fallback := False,
          elide_bank_transposes := True, fold_conv3d_epilogue := False\<rparr>)
       None NativeHalfWidened"

definition plan_memory_native_in_order :: "plan_env \<Rightarrow> graph \<Rightarrow> nat \<Rightarrow> memory_plan planned" where
  "plan_memory_native_in_order env g alignment =
     plan_memory_native_in_order_params env g alignment True"

definition plan_memory_with_policy ::
  "plan_env \<Rightarrow> graph \<Rightarrow> nat \<Rightarrow> arena_width \<Rightarrow> memory_plan planned" where
  "plan_memory_with_policy env g alignment policy =
     plan_memory_aligned_inner env g alignment
       ((inference_options env)\<lparr>pin_output_ancestors := graph_has_host_indexing g\<rparr>) None policy"

definition plan_memory_hybrid :: "plan_env \<Rightarrow> graph \<Rightarrow> nat \<Rightarrow> memory_plan planned" where
  "plan_memory_hybrid env g alignment =
     plan_memory_aligned_inner env g alignment
       ((inference_options env)\<lparr>pin_output_ancestors := graph_has_host_indexing g\<rparr>) None Hybrid"

definition plan_memory_f32_uniform_no_params ::
  "plan_env \<Rightarrow> graph \<Rightarrow> nat \<Rightarrow> memory_plan planned" where
  "plan_memory_f32_uniform_no_params env g alignment =
     plan_memory_aligned_inner env g alignment
       ((inference_options env)\<lparr>allocate_params := False,
          pin_output_ancestors := graph_has_host_indexing g\<rparr>) None F32Uniform"

definition plan_memory_hybrid_no_params ::
  "plan_env \<Rightarrow> graph \<Rightarrow> nat \<Rightarrow> memory_plan planned" where
  "plan_memory_hybrid_no_params env g alignment =
     plan_memory_aligned_inner env g alignment
       ((inference_options env)\<lparr>allocate_params := False,
          pin_output_ancestors := graph_has_host_indexing g\<rparr>) None Hybrid"

definition plan_memory_backward ::
  "plan_env \<Rightarrow> graph \<Rightarrow> nat \<Rightarrow> shared_weights \<Rightarrow> memory_plan planned" where
  "plan_memory_backward env g alignment weights =
     plan_memory_aligned_inner env g alignment (backward_activations_only env) (Some weights) Native"

end
