(* ===== verification/PlanCheck.thy ===== *)
theory PlanCheck
  imports MemPlan
begin

text \<open>
  The schedule gates over a memory plan (\<open>crates/core/rlx-compile/src/plan_check.rs\<close>). The
  check recomputes liveness from the graph and the schedule of the plan alone and reports
  findings. A finding keeps its kind and the nodes it names; its text is left out. The
  iteration over the \<open>HashMap\<close> of assignments follows the list that stands for it.
\<close>

section \<open>Findings\<close>

datatype finding_kind =
    LiveOverlap | ReadAfterOverwrite | OutputClobbered | OutOfArena | OrderViolation
  | DuplicateSchedule | OutputNotScheduled

definition is_program_safety :: "finding_kind \<Rightarrow> bool" where
  "is_program_safety k =
     (k \<in> {LiveOverlap, ReadAfterOverwrite, OutputClobbered, OutOfArena})"

record plan_finding =
  fd_kind :: finding_kind
  fd_node :: node_id
  fd_other :: "node_id option"

record plan_report =
  rp_findings :: "plan_finding list"
  rp_checked_nodes :: nat
  rp_aliased_nodes :: nat

definition is_clean :: "plan_report \<Rightarrow> bool" where
  "is_clean rp \<longleftrightarrow> rp_findings rp = []"

definition program_safety :: "plan_report \<Rightarrow> plan_finding list" where
  "program_safety rp = filter (\<lambda>f. is_program_safety (fd_kind f)) (rp_findings rp)"

definition schedule_semantics :: "plan_report \<Rightarrow> plan_finding list" where
  "schedule_semantics rp = filter (\<lambda>f. \<not> is_program_safety (fd_kind f)) (rp_findings rp)"

definition finding :: "finding_kind \<Rightarrow> node_id \<Rightarrow> node_id option \<Rightarrow> plan_finding" where
  "finding k i other = \<lparr>fd_kind = k, fd_node = i, fd_other = other\<rparr>"

definition slot_overlaps :: "buffer_slot \<Rightarrow> buffer_slot \<Rightarrow> bool" where
  "slot_overlaps a b \<longleftrightarrow>
     slot_offset a < slot_offset b + slot_size b \<and> slot_offset b < slot_offset a + slot_size a"

section \<open>The schedule\<close>

type_synonym positions = "node_id \<rightharpoonup> nat"

definition position_step ::
  "positions \<times> plan_finding list \<Rightarrow> nat \<times> node_id \<Rightarrow> positions \<times> plan_finding list" where
  "position_step st si =
     (case st of (m, fs) \<Rightarrow> case si of (step, i) \<Rightarrow>
        (m(i \<mapsto> step), if m i \<noteq> None then fs @ [finding DuplicateSchedule i None] else fs))"

definition positions_of :: "node_id list \<Rightarrow> positions \<times> plan_finding list" where
  "positions_of schedule = foldl position_step (Map.empty, []) (enumerate 0 schedule)"

definition order_violations ::
  "graph \<Rightarrow> positions \<Rightarrow> node_id list \<Rightarrow> plan_finding list planned" where
  "order_violations g m schedule =
     bind_outcome
       (traverse (\<lambda>(step, i). bind_outcome (node_of g i) (\<lambda>n.
          Ok (map (\<lambda>j. finding OrderViolation i (Some j))
            (filter (\<lambda>j. case m j of Some t \<Rightarrow> step \<le> t | None \<Rightarrow> False) (n_inputs n)))))
         (enumerate 0 schedule))
       (\<lambda>fss. Ok (concat fss))"

definition missing_outputs :: "graph \<Rightarrow> positions \<Rightarrow> plan_finding list planned" where
  "missing_outputs g m =
     bind_outcome
       (traverse (\<lambda>out. bind_outcome (node_of g out) (\<lambda>n.
          Ok (if m out = None \<and> n_inputs n \<noteq> [] then [finding OutputNotScheduled out None]
              else [])))
         (g_outputs g))
       (\<lambda>fss. Ok (concat fss))"

section \<open>Storage and its live ranges\<close>

definition storage_of :: "(node_id \<rightharpoonup> node_id \<times> nat) \<Rightarrow> node_id \<Rightarrow> node_id" where
  "storage_of aliases i = (case aliases i of Some (root, _) \<Rightarrow> root | None \<Rightarrow> i)"

definition out_of_arena :: "memory_plan \<Rightarrow> plan_finding list" where
  "out_of_arena p =
     map (\<lambda>(i, s). finding OutOfArena i None)
       (filter (\<lambda>(i, s). plan_arena_size p < slot_offset s + slot_size s) (plan_assignments p))"

definition touch_input ::
  "(node_id \<Rightarrow> node_id) \<Rightarrow> nat \<Rightarrow> ranges \<Rightarrow> node_id \<Rightarrow> ranges" where
  "touch_input store step live j =
     live(store j \<mapsto>
       (case live (store j) of Some (b, d) \<Rightarrow> (b, max d step) | None \<Rightarrow> (0, step)))"

definition touch_node ::
  "graph \<Rightarrow> (node_id \<Rightarrow> node_id) \<Rightarrow> ranges \<Rightarrow> nat \<times> node_id \<Rightarrow> ranges planned" where
  "touch_node g store live si =
     (case si of (step, i) \<Rightarrow>
        let live1 = live(store i \<mapsto>
          (case live (store i) of Some (b, _) \<Rightarrow> (b, step) | None \<Rightarrow> (step, step))) in
        bind_outcome (node_of g i) (\<lambda>n.
          Ok (foldl (touch_input store step) live1 (n_inputs n))))"

definition checked_live ::
  "graph \<Rightarrow> (node_id \<Rightarrow> node_id) \<Rightarrow> node_id list \<Rightarrow> ranges planned" where
  "checked_live g store schedule =
     bind_outcome (for_each (touch_node g store) Map.empty (enumerate 0 schedule)) (\<lambda>live.
       Ok (foldl (\<lambda>r x. pin_death r x (length schedule)) live
             (remdups (map store (g_outputs g)))))"

section \<open>Overlaps\<close>

record checked_slot =
  cs_node :: node_id
  cs_slot :: buffer_slot
  cs_birth :: nat
  cs_death :: nat

definition checked_slots ::
  "(node_id \<Rightarrow> node_id) \<Rightarrow> ranges \<Rightarrow> assignments \<Rightarrow> checked_slot list" where
  "checked_slots store live al =
     sort_key (\<lambda>c. slot_offset (cs_slot c))
       (List.map_filter (\<lambda>(i, s).
          if store i \<noteq> i then None
          else map_option (\<lambda>(b, d).
            \<lparr>cs_node = i, cs_slot = s, cs_birth = b, cs_death = d\<rparr>) (live i)) al)"

fun clashes_of :: "node_id set \<Rightarrow> checked_slot \<Rightarrow> checked_slot list \<Rightarrow> plan_finding list" where
  "clashes_of outputs a [] = []"
| "clashes_of outputs a (b # bs) =
     (if slot_offset (cs_slot a) + slot_size (cs_slot a) \<le> slot_offset (cs_slot b) then []
      else if \<not> slot_overlaps (cs_slot a) (cs_slot b) then clashes_of outputs a bs
      else if cs_death a < cs_birth b \<or> cs_death b < cs_birth a then clashes_of outputs a bs
      else finding
             (if cs_node a \<in> outputs \<or> cs_node b \<in> outputs then OutputClobbered else LiveOverlap)
             (cs_node a) (Some (cs_node b))
           # clashes_of outputs a bs)"

fun pair_clashes :: "node_id set \<Rightarrow> checked_slot list \<Rightarrow> plan_finding list" where
  "pair_clashes outputs [] = []"
| "pair_clashes outputs (a # as) = clashes_of outputs a as @ pair_clashes outputs as"

text \<open>One read: the writers that ran earlier on bytes of the operand, after its birth.\<close>

definition stale_writers ::
  "(node_id \<Rightarrow> node_id) \<Rightarrow> ranges \<Rightarrow> memory_plan \<Rightarrow> nat \<Rightarrow> node_id \<Rightarrow> node_id list" where
  "stale_writers store live p step j =
     (case slot_of (plan_assignments p) (store j) of
        None \<Rightarrow> []
      | Some in_slot \<Rightarrow>
          map snd (filter (\<lambda>(w, writer).
              store writer \<noteq> store j \<and>
              (case slot_of (plan_assignments p) (store writer) of
                 None \<Rightarrow> False
               | Some w_slot \<Rightarrow> slot_overlaps in_slot w_slot) \<and>
              (case live (store j) of Some (birth, _) \<Rightarrow> birth < w | None \<Rightarrow> False))
            (takeWhile (\<lambda>(w, writer). w < step) (enumerate 0 (plan_schedule p)))))"

definition stale_reads ::
  "graph \<Rightarrow> (node_id \<Rightarrow> node_id) \<Rightarrow> ranges \<Rightarrow> memory_plan \<Rightarrow> plan_finding list planned" where
  "stale_reads g store live p =
     bind_outcome
       (traverse (\<lambda>(step, i). bind_outcome (node_of g i) (\<lambda>n.
          Ok (concat (map (\<lambda>j. map (\<lambda>w. finding ReadAfterOverwrite i (Some w))
            (stale_writers store live p step j)) (n_inputs n)))))
         (enumerate 0 (plan_schedule p)))
       (\<lambda>fss. Ok (concat fss))"

section \<open>The check\<close>

definition check_plan :: "graph \<Rightarrow> memory_plan \<Rightarrow> plan_report planned" where
  "check_plan g p =
     (case positions_of (plan_schedule p) of (m, dups) \<Rightarrow>
      bind_outcome (order_violations g m (plan_schedule p)) (\<lambda>orders.
      bind_outcome (missing_outputs g m) (\<lambda>missing.
      bind_outcome (collect_view_aliases g) (\<lambda>aliases.
      let store = storage_of aliases in
      bind_outcome (checked_live g store (plan_schedule p)) (\<lambda>live.
      bind_outcome (stale_reads g store live p) (\<lambda>stale.
        Ok \<lparr>rp_findings = dups @ orders @ missing @ out_of_arena p
              @ pair_clashes (set (map store (g_outputs g)))
                  (checked_slots store live (plan_assignments p))
              @ stale,
            rp_checked_nodes = length (plan_assignments p),
            rp_aliased_nodes =
              length (filter (\<lambda>(i, s). store i \<noteq> i) (plan_assignments p))\<rparr>))))))"

end
