(* ===== verification/PlaceLaws.thy ===== *)
theory PlaceLaws
  imports MemPlan
begin

text \<open>
  Laws of the placement loop. \<open>placement_policy\<close> is the contract between the loop and the
  way an offset is chosen: the offset is aligned and keeps clear of every placed region the
  new buffer may clash with. The first-fit sweep meets it for regions that are live at the
  same time, appending at the tail (\<open>arena_no_reuse\<close>) for all regions. Inside the locale
  stands, once, what the loop makes of it.
\<close>

section \<open>The sweep\<close>

definition clear_of :: "nat \<Rightarrow> nat \<Rightarrow> nat \<times> nat \<Rightarrow> bool" where
  "clear_of a need r \<longleftrightarrow> snd r \<le> a \<or> a + need \<le> fst r"

lemma sweep_aligned: "2 ^ k dvd sweep (2 ^ k) need cursor occ"
  by (induction "2 ^ k :: nat" need cursor occ rule: sweep.induct) (auto simp: align_up_dvd)

lemma sweep_ge: "cursor \<le> sweep (2 ^ k) need cursor occ"
proof (induction occ arbitrary: cursor)
  case (Cons r occ)
  have "cursor \<le> sweep (2 ^ k) need (max cursor (snd r)) occ"
    using Cons [of "max cursor (snd r)"] by simp
  then show ?case using align_up_ge [of cursor k] by (cases r) simp
qed (simp add: align_up_ge)

lemma sweep_clear:
  "sorted_wrt (\<lambda>r s. fst r \<le> fst s) occ \<Longrightarrow> r \<in> set occ \<Longrightarrow>
   clear_of (sweep (2 ^ k) need cursor occ) need r"
proof (induction occ arbitrary: cursor)
  case (Cons s occ)
  obtain start stop where s: "s = (start, stop)" by (cases s)
  show ?case
  proof (cases "align_up (2 ^ k) cursor + need \<le> start")
    case True
    then have "align_up (2 ^ k) cursor + need \<le> fst r" using Cons.prems s by auto
    then show ?thesis using True s by (simp add: clear_of_def)
  next
    case False
    have "stop \<le> sweep (2 ^ k) need (max cursor stop) occ"
      using sweep_ge [of "max cursor stop" k need occ] by simp
    then show ?thesis using False s Cons by (auto simp: clear_of_def)
  qed
qed simp

lemma sweep_least:
  "2 ^ k dvd a \<Longrightarrow> cursor \<le> a \<Longrightarrow> \<forall>r \<in> set occ. clear_of a need r \<Longrightarrow>
   sweep (2 ^ k) need cursor occ \<le> a"
proof (induction occ arbitrary: cursor)
  case (Cons s occ)
  obtain start stop where s: "s = (start, stop)" by (cases s)
  have "align_up (2 ^ k) cursor \<le> a" using Cons.prems by (simp add: align_up_least)
  then show ?case using Cons s by (auto simp: clear_of_def)
qed (simp add: align_up_least)

section \<open>Placed regions\<close>

definition region_before :: "region \<Rightarrow> region \<Rightarrow> bool" where
  "region_before p q \<longleftrightarrow> region_le p (rg_off q) (rg_end q)"

lemma region_before_trans: "region_before p q \<Longrightarrow> region_before q r \<Longrightarrow> region_before p r"
  by (auto simp: region_before_def region_le_def)

lemma region_before_total: "\<not> region_before p q \<Longrightarrow> region_before q p"
  by (auto simp: region_before_def region_le_def)

lemma set_insert_region [simp]: "set (insert_region p ps) = insert p (set ps)"
proof -
  have "set ps = set (take n ps) \<union> set (drop n ps)" for n
    by (metis append_take_drop_id set_append)
  then show ?thesis unfolding insert_region_def Let_def by auto
qed

lemma sorted_insert_region:
  assumes "sorted_wrt region_before ps"
  shows "sorted_wrt region_before (insert_region p ps)"
proof -
  let ?P = "\<lambda>q. region_before q p"
  have eq: "insert_region p ps = takeWhile ?P ps @ p # dropWhile ?P ps"
    by (simp add: insert_region_def region_before_def Let_def
        flip: takeWhile_eq_take dropWhile_eq_drop)
  have "sorted_wrt region_before (takeWhile ?P ps @ dropWhile ?P ps)" using assms by simp
  then have srt: "sorted_wrt region_before (takeWhile ?P ps)"
    "sorted_wrt region_before (dropWhile ?P ps)"
    "\<forall>q \<in> set (takeWhile ?P ps). \<forall>r \<in> set (dropWhile ?P ps). region_before q r"
    unfolding sorted_wrt_append by blast+
  have "\<forall>r \<in> set (dropWhile ?P ps). region_before p r"
  proof (cases "dropWhile ?P ps")
    case (Cons q qs)
    then have "\<not> region_before q p" using hd_dropWhile [of ?P ps] by simp
    then have "region_before p q" by (rule region_before_total)
    moreover have "\<forall>r \<in> set qs. region_before q r" using srt(2) Cons by simp
    ultimately show ?thesis using Cons region_before_trans [of p q] by auto
  next
    case Nil
    then show ?thesis unfolding Nil by simp
  qed
  moreover have "\<forall>q \<in> set (takeWhile ?P ps). region_before q p"
    by (auto dest: set_takeWhileD)
  ultimately show ?thesis
    using srt unfolding eq sorted_wrt_append sorted_wrt.simps
    by (metis set_ConsD)
qed

lemma best_offset_clear:
  assumes "sorted_wrt region_before placed" and "p \<in> set placed" and "overlaps_time birth death p"
  shows "clear_of (best_offset (2 ^ k) need placed birth death) need (rg_off p, rg_end p)"
  unfolding best_offset_def
proof (rule sweep_clear)
  have "sorted_wrt (\<lambda>p q. rg_off p \<le> rg_off q) placed"
    using assms(1) by (rule sorted_wrt_mono_rel [rotated]) (auto simp: region_before_def region_le_def)
  then show "sorted_wrt (\<lambda>r s. fst r \<le> fst s)
      (map (\<lambda>p. (rg_off p, rg_end p)) (filter (overlaps_time birth death) placed))"
    by (simp add: sorted_wrt_map sorted_wrt_filter)
qed (use assms in auto)

lemma sweep_from:
  "\<exists>c. (c = cursor \<or> c \<in> snd ` set occ) \<and> sweep al need cursor occ = align_up al c"
proof (induction al need cursor occ rule: sweep.induct)
  case (2 al need cursor start stop occ)
  show ?case
  proof (cases "align_up al cursor + need \<le> start")
    case False
    then obtain c where "c = max cursor stop \<or> c \<in> snd ` set occ"
        "sweep al need (max cursor stop) occ = align_up al c"
      using 2 by blast
    then show ?thesis using False by (auto simp: max_def)
  qed auto
qed simp

lemma foldl_min:
  "m \<in> set (a # as) \<Longrightarrow> \<forall>x \<in> set (a # as). m \<le> x \<Longrightarrow>
   foldl (\<lambda>w x. if x < w then x else w) a as = (m :: nat)"
  by (induction as arbitrary: a) auto

lemma best_offset_no_conflict:
  assumes "sorted_wrt region_before placed" and "p \<in> set placed"
  shows "\<not> conflicts (best_offset (2 ^ k) need placed birth death) need birth death p"
  using best_offset_clear [OF assms, of birth death k need]
  by (auto simp: conflicts_def clear_of_def)

text \<open>The sweep and the candidate scan it replaced pick the same offset, for every list
  of placed regions the loop can have: the assertion the planner makes under
  \<open>RLX_PLAN_VERIFY\<close> cannot fail.\<close>

theorem sweep_is_candidate_scan:
  assumes "sorted_wrt region_before placed"
  shows "best_offset (2 ^ k) need placed birth death =
    candidate_scan (2 ^ k) arena need placed birth death"
proof -
  let ?a = "best_offset (2 ^ k) need placed birth death"
  let ?L = "candidate_offsets (2 ^ k) need placed birth death"
  let ?occ = "map (\<lambda>p. (rg_off p, rg_end p)) (filter (overlaps_time birth death) placed)"
  obtain c where c: "c = 0 \<or> c \<in> snd ` set ?occ" "?a = align_up (2 ^ k) c"
    using sweep_from [of 0 ?occ "2 ^ k" need] unfolding best_offset_def by blast
  have "c \<in> set (remdups_adj (sort (0 # map rg_end placed)))" using c(1) by (auto simp: set_insort_key)
  then have "?a \<in> set (map (align_up (2 ^ k)) (remdups_adj (sort (0 # map rg_end placed))))"
    unfolding c(2) set_map by (rule imageI)
  moreover have "\<not> list_ex (conflicts ?a need birth death) placed"
    unfolding list_ex_iff using best_offset_no_conflict [OF assms] by blast
  ultimately have mem: "?a \<in> set ?L" unfolding candidate_offsets_def set_filter by blast
  have least: "?a \<le> a" if "a \<in> set ?L" for a
  proof -
    have "2 ^ k dvd a" using that by (auto simp: candidate_offsets_def align_up_dvd)
    moreover have "\<forall>p \<in> set placed. \<not> conflicts a need birth death p"
      using that by (auto simp: candidate_offsets_def list_ex_iff)
    ultimately show ?thesis
      unfolding best_offset_def
      by (intro sweep_least) (auto simp: conflicts_def clear_of_def)
  qed
  obtain x xs where L: "?L = x # xs" using mem by (cases ?L) auto
  have "foldl (\<lambda>w a. if a < w then a else w) x xs = ?a"
    using mem least unfolding L by (intro foldl_min) auto
  then show ?thesis by (simp add: candidate_scan_def L)
qed

lemma sorted_sample_regions:
  "sorted_wrt region_before
     [\<lparr>rg_off = 0, rg_size = 64, rg_birth = 0, rg_death = 9\<rparr>,
      \<lparr>rg_off = 192, rg_size = 64, rg_birth = 2, rg_death = 4\<rparr>]"
  by (simp add: region_before_def region_le_def)

theorem sweep_is_candidate_scan_witness:
  "best_offset (2 ^ 6) 100
     [\<lparr>rg_off = 0, rg_size = 64, rg_birth = 0, rg_death = 9\<rparr>,
      \<lparr>rg_off = 192, rg_size = 64, rg_birth = 2, rg_death = 4\<rparr>] 3 5 =
   candidate_scan (2 ^ 6) 256 100
     [\<lparr>rg_off = 0, rg_size = 64, rg_birth = 0, rg_death = 9\<rparr>,
      \<lparr>rg_off = 192, rg_size = 64, rg_birth = 2, rg_death = 4\<rparr>] 3 5"
  by (rule sweep_is_candidate_scan [OF sorted_sample_regions])

section \<open>The loop\<close>

type_synonym chooser = "region list \<Rightarrow> nat \<Rightarrow> nat \<Rightarrow> nat \<Rightarrow> nat \<Rightarrow> nat"

definition sweep_choice :: "nat \<Rightarrow> chooser" where
  "sweep_choice k placed arena need birth death = best_offset (2 ^ k) need placed birth death"

definition tail_choice :: "nat \<Rightarrow> chooser" where
  "tail_choice k placed arena need birth death = align_up (2 ^ k) arena"

text \<open>The need of a buffer and the placement loop over a chooser.\<close>

definition guard_of :: "graph \<Rightarrow> nat \<Rightarrow> buf_info \<Rightarrow> nat" where
  "guard_of g k b = boundary_tail_guard (n_op (g_nodes g ! bi_id b)) (2 ^ k)"

definition off_of :: "assignments \<Rightarrow> node_id \<Rightarrow> nat" where
  "off_of al i = (case slot_of al i of Some s \<Rightarrow> slot_offset s | None \<Rightarrow> 0)"

definition buf_region :: "nat \<Rightarrow> nat \<Rightarrow> buf_info \<Rightarrow> region" where
  "buf_region off need b =
     \<lparr>rg_off = off, rg_size = need, rg_birth = bi_birth b, rg_death = bi_death b\<rparr>"

definition put :: "chooser \<Rightarrow> nat \<Rightarrow> placement \<Rightarrow> buf_info \<Rightarrow> placement" where
  "put pick guard st b =
     (let need = bi_size b + guard;
          off = pick (pl_placed st) (pl_arena st) need (bi_birth b) (bi_death b) in
      \<lparr>pl_assigned = assign (pl_assigned st) (bi_id b) off (bi_size b),
       pl_placed = insert_region (buf_region off need b) (pl_placed st),
       pl_arena = max (pl_arena st) (off + need)\<rparr>)"

lemma place_put:
  "bi_id b < graph_len g \<Longrightarrow> place g (2 ^ k) no_reuse st b =
     Ok (put (if no_reuse then tail_choice k else sweep_choice k) (guard_of g k b) st b)"
  by (simp add: place_def put_def guard_of_def buf_region_def Let_def tail_choice_def sweep_choice_def)

lemma place_loop:
  assumes "\<forall>b \<in> set bs. bi_id b < graph_len g"
  shows "for_each (place g (2 ^ k) no_reuse) st bs =
    Ok (foldl (\<lambda>st b. put (if no_reuse then tail_choice k else sweep_choice k) (guard_of g k b) st b) st bs)"
  using assms by (induction bs arbitrary: st) (auto simp: place_put)

lemma slot_of_assign [simp]:
  "slot_of (assign al i off sz) j =
     (if j = i then Some \<lparr>slot_offset = off, slot_size = sz\<rparr> else slot_of al j)"
  by (simp add: slot_of_def assign_def update_conv')

lemma off_of_assign [simp]: "off_of (assign al i off sz) j = (if j = i then off else off_of al j)"
  by (simp add: off_of_def)

text \<open>What the loop maintains for the buffers placed so far.\<close>

definition separated ::
  "(nat \<Rightarrow> nat \<Rightarrow> region \<Rightarrow> bool) \<Rightarrow> (buf_info \<Rightarrow> nat) \<Rightarrow> assignments \<Rightarrow> buf_info \<Rightarrow> buf_info \<Rightarrow> bool" where
  "separated clash guard al b c \<longleftrightarrow>
     clash (bi_birth b) (bi_death b) (buf_region 0 0 c) \<longrightarrow>
     clear_of (off_of al (bi_id b)) (bi_size b + guard b)
       (off_of al (bi_id c), off_of al (bi_id c) + (bi_size c + guard c))"

definition placed_ok ::
  "nat \<Rightarrow> (nat \<Rightarrow> nat \<Rightarrow> region \<Rightarrow> bool) \<Rightarrow> (buf_info \<Rightarrow> nat) \<Rightarrow> buf_info list \<Rightarrow> placement \<Rightarrow> bool" where
  "placed_ok k clash guard bs st \<longleftrightarrow>
     sorted_wrt region_before (pl_placed st) \<and>
     (\<forall>p \<in> set (pl_placed st). rg_end p \<le> pl_arena st) \<and>
     (\<forall>i. i \<notin> bi_id ` set bs \<longrightarrow> slot_of (pl_assigned st) i = None) \<and>
     (\<forall>b \<in> set bs.
        slot_of (pl_assigned st) (bi_id b) =
          Some \<lparr>slot_offset = off_of (pl_assigned st) (bi_id b), slot_size = bi_size b\<rparr> \<and>
        2 ^ k dvd off_of (pl_assigned st) (bi_id b) \<and>
        buf_region (off_of (pl_assigned st) (bi_id b)) (bi_size b + guard b) b \<in> set (pl_placed st)) \<and>
     (\<forall>b \<in> set bs. \<forall>c \<in> set bs. bi_id b \<noteq> bi_id c \<longrightarrow> separated clash guard (pl_assigned st) b c)"

locale placement_policy =
  fixes k :: nat and pick :: chooser and clash :: "nat \<Rightarrow> nat \<Rightarrow> region \<Rightarrow> bool"
  assumes pick_aligned: "2 ^ k dvd pick placed arena need birth death"
    and pick_clear: "sorted_wrt region_before placed \<Longrightarrow> \<forall>p \<in> set placed. rg_end p \<le> arena \<Longrightarrow>
      p \<in> set placed \<Longrightarrow> clash birth death p \<Longrightarrow>
      clear_of (pick placed arena need birth death) need (rg_off p, rg_end p)"
    and clash_sym: "clash (bi_birth b) (bi_death b) (buf_region o1 m1 c) \<Longrightarrow>
      clash (bi_birth c) (bi_death c) (buf_region o2 m2 b)"
begin

lemma clash_geometry:
  "clash (bi_birth (b :: buf_info)) (bi_death b) (buf_region o1 m1 c) \<Longrightarrow>
   clash (bi_birth b) (bi_death b) (buf_region o2 m2 c)"
  by (rule clash_sym [of c 0 0 b], rule clash_sym)

lemma put_ok:
  assumes ok: "placed_ok k clash guard bs st" and new: "bi_id b \<notin> bi_id ` set bs"
  shows "placed_ok k clash guard (bs @ [b]) (put pick (guard b) st b)"
proof -
  let ?need = "bi_size b + guard b"
  let ?off = "pick (pl_placed st) (pl_arena st) ?need (bi_birth b) (bi_death b)"
  let ?st = "put pick (guard b) st b"
  have st: "pl_assigned ?st = assign (pl_assigned st) (bi_id b) ?off (bi_size b)"
    "pl_placed ?st = insert_region (buf_region ?off ?need b) (pl_placed st)"
    "pl_arena ?st = max (pl_arena st) (?off + ?need)"
    by (simp_all add: put_def Let_def)
  have srt: "sorted_wrt region_before (pl_placed st)"
    and ends: "\<forall>p \<in> set (pl_placed st). rg_end p \<le> pl_arena st"
    and old: "\<forall>c \<in> set bs. slot_of (pl_assigned st) (bi_id c) =
          Some \<lparr>slot_offset = off_of (pl_assigned st) (bi_id c), slot_size = bi_size c\<rparr> \<and>
        2 ^ k dvd off_of (pl_assigned st) (bi_id c) \<and>
        buf_region (off_of (pl_assigned st) (bi_id c)) (bi_size c + guard c) c \<in> set (pl_placed st)"
    and none: "\<forall>i. i \<notin> bi_id ` set bs \<longrightarrow> slot_of (pl_assigned st) i = None"
    and sep: "\<forall>c \<in> set bs. \<forall>d \<in> set bs. bi_id c \<noteq> bi_id d \<longrightarrow>
        separated clash guard (pl_assigned st) c d"
    using ok unfolding placed_ok_def by blast+
  have ne: "bi_id c \<noteq> bi_id b" if "c \<in> set bs" for c
  proof
    assume "bi_id c = bi_id b"
    then have "bi_id b \<in> bi_id ` set bs" using that by (metis imageI)
    then show False using new by simp
  qed
  have clear: "clear_of ?off ?need
      (off_of (pl_assigned st) (bi_id c), off_of (pl_assigned st) (bi_id c) + (bi_size c + guard c))"
    if "c \<in> set bs" "clash (bi_birth b) (bi_death b) (buf_region o1 m1 c)" for c o1 m1
  proof -
    let ?p = "buf_region (off_of (pl_assigned st) (bi_id c)) (bi_size c + guard c) c"
    have "?p \<in> set (pl_placed st)" using old that(1) by blast
    then have "clear_of ?off ?need (rg_off ?p, rg_end ?p)"
      by (rule pick_clear [OF srt ends]) (rule clash_geometry [OF that(2)])
    then show ?thesis by (simp add: buf_region_def rg_end_def)
  qed
  have new_b: "separated clash guard (pl_assigned ?st) b c" if "c \<in> set bs" for c
    using clear [OF that] ne [OF that] by (simp add: separated_def st)
  have b_new: "separated clash guard (pl_assigned ?st) c b" if "c \<in> set bs" for c
    using clear [OF that] ne [OF that] clash_sym [of c 0 0 b 0 0]
    by (auto simp: separated_def st clear_of_def)
  have kept: "separated clash guard (pl_assigned ?st) c d"
    if "c \<in> set bs" "d \<in> set bs" "bi_id c \<noteq> bi_id d" for c d
    using sep that ne by (simp add: separated_def st)
  show ?thesis
    unfolding placed_ok_def
  proof (intro conjI)
    show "sorted_wrt region_before (pl_placed ?st)" unfolding st by (rule sorted_insert_region [OF srt])
    show "\<forall>p \<in> set (pl_placed ?st). rg_end p \<le> pl_arena ?st"
      unfolding st using ends by (auto simp: buf_region_def rg_end_def max.coboundedI1)
    show "\<forall>i. i \<notin> bi_id ` set (bs @ [b]) \<longrightarrow> slot_of (pl_assigned ?st) i = None"
      unfolding st using none by auto
    show "\<forall>c \<in> set (bs @ [b]). slot_of (pl_assigned ?st) (bi_id c) =
          Some \<lparr>slot_offset = off_of (pl_assigned ?st) (bi_id c), slot_size = bi_size c\<rparr> \<and>
        2 ^ k dvd off_of (pl_assigned ?st) (bi_id c) \<and>
        buf_region (off_of (pl_assigned ?st) (bi_id c)) (bi_size c + guard c) c \<in> set (pl_placed ?st)"
      unfolding st using old ne pick_aligned by auto
    show "\<forall>c \<in> set (bs @ [b]). \<forall>d \<in> set (bs @ [b]). bi_id c \<noteq> bi_id d \<longrightarrow>
        separated clash guard (pl_assigned ?st) c d"
      using new_b b_new kept by auto
  qed
qed

lemma loop_ok:
  assumes "distinct (map bi_id bs)"
  shows "placed_ok k clash guard bs
    (foldl (\<lambda>st b. put pick (guard b) st b) placement_start bs)"
  using assms
proof (induction bs rule: rev_induct)
  case Nil
  show ?case by (simp add: placed_ok_def placement_start_def slot_of_def)
next
  case (snoc b bs)
  then show ?case by (auto intro: put_ok)
qed

end

interpretation sweep: placement_policy k "sweep_choice k" overlaps_time
proof unfold_locales
  fix placed arena need birth death p
  show "2 ^ k dvd sweep_choice k placed arena need birth death"
    by (simp add: sweep_choice_def best_offset_def sweep_aligned)
  show "clear_of (sweep_choice k placed arena need birth death) need (rg_off p, rg_end p)"
    if "sorted_wrt region_before placed" "p \<in> set placed" "overlaps_time birth death p"
    using best_offset_clear [OF that] by (simp add: sweep_choice_def)
qed (auto simp: overlaps_time_def buf_region_def)

interpretation tail: placement_policy k "tail_choice k" "\<lambda>birth death p. True"
proof unfold_locales
  fix placed arena need birth death p
  show "2 ^ k dvd tail_choice k placed arena need birth death"
    by (simp add: tail_choice_def align_up_dvd)
  show "clear_of (tail_choice k placed arena need birth death) need (rg_off p, rg_end p)"
    if "\<forall>p \<in> set placed. rg_end p \<le> arena" "p \<in> set placed"
    using that align_up_ge [of arena k] by (fastforce simp: tail_choice_def clear_of_def)
qed

text \<open>Two byte ranges given by offset and length without a common byte.\<close>

definition disjoint_ranges :: "nat \<Rightarrow> nat \<Rightarrow> nat \<Rightarrow> nat \<Rightarrow> bool" where
  "disjoint_ranges a m b n \<longleftrightarrow> a + m \<le> b \<or> b + n \<le> a"

end
