(* ===== verification/ViewLaws.thy ===== *)
theory ViewLaws
  imports Views
begin

text \<open>
  Laws of \<open>Views\<close>: the walk to a view's root ends exactly when the source's loop does, on
  the graphs the builder makes it reaches a node that owns its storage, and the reader
  index answers like the scan it replaces.
\<close>

section \<open>Roots of views\<close>

text \<open>Appended nodes whose view metadata can be read: a view has an operand, a narrowed
  parent has the narrowed axis and static inner extents.\<close>

definition plannable :: "graph \<Rightarrow> bool" where
  "plannable g \<longleftrightarrow> wf_graph g \<and> (\<forall>n \<in> set (g_nodes g). returns (pure_view_offset g n))"

lemma plannableD:
  assumes "plannable g"
  shows "wf_graph g" and "wf_nodes (g_nodes g)"
    and "i < graph_len g \<Longrightarrow> returns (pure_view_offset g (g_nodes g ! i))"
    and "i < graph_len g \<Longrightarrow> n_id (g_nodes g ! i) = i"
    and "i < graph_len g \<Longrightarrow> j \<in> set (n_inputs (g_nodes g ! i)) \<Longrightarrow> j < i"
  using assms wf_nodesD [of "g_nodes g" i]
  by (auto simp: plannable_def wf_graph_def graph_len_def)

lemma pure_view_parent:
  "pure_view_offset g n = Ok (Some (p, d)) \<Longrightarrow> n_inputs n \<noteq> [] \<and> p = n_inputs n ! 0"
  by (auto simp: pure_view_offset_def outcome_simps split: op.splits if_splits)

lemma unwrap_res_no_Err [simp]: "unwrap_res m \<noteq> Err e"
  by (cases m) auto

lemma node_of_no_Err [simp]: "node_of g i \<noteq> Err e"
  by (simp add: node_of_def index_or_panic_def)

lemma index_or_panic_no_Err [simp]: "index_or_panic xs i \<noteq> Err e"
  by (simp add: index_or_panic_def)

lemma pure_view_offset_no_Err [simp]: "pure_view_offset g n \<noteq> Err e"
  by (auto simp: pure_view_offset_def outcome_simps dest!: traverse_Err split: op.splits)

lemma view_walk_more:
  "view_walk g k i off \<noteq> Err Diverges \<Longrightarrow> view_walk g (k + m) i off = view_walk g k i off"
proof (induction g k i off rule: view_walk.induct)
  case (2 g k i off)
  show ?case
  proof (cases "node_of g i")
    case (Ok n)
    show ?thesis
    proof (cases "pure_view_offset g n")
      case (Ok v)
      then show ?thesis using 2 \<open>node_of g i = Ok n\<close> by (cases v) auto
    qed (use Ok in auto)
  qed auto
qed simp

lemma view_walk_shift:
  "view_walk g k i (a + b) =
     (case view_walk g k i a of Ok (r, t) \<Rightarrow> Ok (r, t + b) | Err e \<Rightarrow> Err e | Panic \<Rightarrow> Panic)"
proof (induction k arbitrary: i a)
  case (Suc k)
  show ?case
  proof (cases "node_of g i")
    case (Ok n)
    show ?thesis
    proof (cases "pure_view_offset g n")
      case (Ok v)
      then show ?thesis
        using Suc [of _ "a + _"] \<open>node_of g i = Ok n\<close>
        by (auto simp: add.commute add.left_commute split: option.splits)
    qed (use Ok in auto)
  qed auto
qed simp

text \<open>The number of rounds the walk from a node needs; it drops by one with every step, so
  a walk that ends has at most as many rounds as the graph has nodes.\<close>

definition rounds :: "graph \<Rightarrow> node_id \<Rightarrow> nat" where
  "rounds g i = (LEAST k. view_walk g k i 0 \<noteq> Err Diverges)"

lemma view_walk_zero_offset:
  "view_walk g k i off \<noteq> Err Diverges \<longleftrightarrow> view_walk g k i 0 \<noteq> Err Diverges"
  using view_walk_shift [of g k i 0 off] by (auto split: outcome.splits)

lemma rounds_least:
  assumes "view_walk g k i 0 \<noteq> Err Diverges"
  shows "view_walk g (rounds g i) i 0 \<noteq> Err Diverges" and "rounds g i \<le> k"
  unfolding rounds_def by (rule LeastI, rule assms) (rule Least_le, rule assms)

lemma rounds_eqI:
  assumes "view_walk g k i 0 \<noteq> Err Diverges" and "0 < k \<Longrightarrow> view_walk g (k - 1) i 0 = Err Diverges"
  shows "rounds g i = k"
proof (rule antisym)
  show "rounds g i \<le> k" using rounds_least(2) [OF assms(1)] .
  show "k \<le> rounds g i"
  proof (rule ccontr)
    assume "\<not> k \<le> rounds g i"
    then obtain m where m: "k - 1 = rounds g i + m" and "0 < k"
      by (metis Suc_diff_1 diff_Suc_1 le_add_diff_inverse less_Suc_eq_le not_le not_less_zero
          gr0I)
    have "view_walk g (k - 1) i 0 \<noteq> Err Diverges"
      using view_walk_more [OF rounds_least(1) [OF assms(1)], of m] rounds_least(1) [OF assms(1)]
      unfolding m by metis
    then show False using assms(2) \<open>0 < k\<close> by simp
  qed
qed

lemma rounds_path:
  assumes "view_walk g k i 0 \<noteq> Err Diverges" and "0 < k \<Longrightarrow> view_walk g (k - 1) i 0 = Err Diverges"
  shows "{2..k} \<subseteq> rounds g ` {..<graph_len g}"
  using assms
proof (induction k arbitrary: i)
  case (Suc k)
  show ?case
  proof (cases "k = 0")
    case False
    then have "view_walk g k i 0 = Err Diverges" using Suc.prems(2) by simp
    moreover obtain k' where k': "k = Suc k'" using False by (cases k) auto
    ultimately obtain n p d where n: "node_of g i = Ok n" "pure_view_offset g n = Ok (Some (p, d))"
      by (auto simp: outcome_simps split: option.splits)
    have i: "i < graph_len g" using n(1) by (simp add: node_of_Ok)
    have "view_walk g k p 0 \<noteq> Err Diverges"
      using Suc.prems(1) n view_walk_zero_offset [of g k p d] by simp
    moreover have "view_walk g (k - 1) p 0 = Err Diverges"
      using \<open>view_walk g k i 0 = Err Diverges\<close> n k' view_walk_zero_offset [of g k' p d] by auto
    ultimately have "{2..k} \<subseteq> rounds g ` {..<graph_len g}" by (intro Suc.IH)
    moreover have "rounds g i = Suc k" by (rule rounds_eqI) (use Suc.prems in auto)
    then have "Suc k \<in> rounds g ` {..<graph_len g}" using i by (metis imageI lessThan_iff)
    ultimately show ?thesis using atLeastAtMostSuc_conv [of 2 k] False by auto
  qed simp
qed simp

lemma rounds_bound:
  assumes "view_walk g k i 0 \<noteq> Err Diverges"
  shows "rounds g i \<le> Suc (graph_len g)"
proof -
  have "view_walk g (rounds g i - 1) i 0 = Err Diverges" if "0 < rounds g i"
    using that not_less_Least [of "rounds g i - 1" "\<lambda>k. view_walk g k i 0 \<noteq> Err Diverges"]
    by (auto simp: rounds_def)
  then have "{2..rounds g i} \<subseteq> rounds g ` {..<graph_len g}"
    by (rule rounds_path [OF rounds_least(1) [OF assms]])
  then have "card {2..rounds g i} \<le> card {..<graph_len g}"
    by (rule surj_card_le [rotated]) simp
  then show ?thesis by simp
qed

lemma resolve_fuel_enough:
  assumes "view_walk g k i 0 \<noteq> Err Diverges"
  shows "resolve_view_root g i = view_walk g k i 0"
proof -
  define r where "r = rounds g i"
  have r: "view_walk g r i 0 \<noteq> Err Diverges" "r \<le> k" "r \<le> Suc (graph_len g)"
    using rounds_least [OF assms] rounds_bound [OF assms] by (simp_all add: r_def)
  then obtain a b where "k = r + a" "Suc (graph_len g) = r + b" by (metis le_Suc_ex)
  then show ?thesis
    unfolding resolve_view_root_def using view_walk_more [OF r(1)] by metis
qed

text \<open>Following views to their root: the fuel of the model is no restriction, any walk
  that ends in the source, whatever its length, gives the same answer here.\<close>

theorem resolve_view_root_exact:
  assumes "view_walk g k i 0 \<noteq> Err Diverges"
  shows "resolve_view_root g i = view_walk g k i 0"
  using assms by (rule resolve_fuel_enough)

lemma view_walk_owner:
  assumes "plannable g" and "i < graph_len g" and "i < k"
  shows "\<exists>r t. view_walk g k i off = Ok (r, t) \<and> r \<le> i \<and>
    pure_view_offset g (g_nodes g ! r) = Ok None"
  using assms(2,3)
proof (induction k arbitrary: i off)
  case (Suc k)
  obtain v where v: "pure_view_offset g (g_nodes g ! i) = Ok v"
    using plannableD(3) [OF assms(1) Suc.prems(1)] by (auto simp: returns_def)
  show ?case
  proof (cases v)
    case None
    then show ?thesis using v Suc.prems by simp
  next
    case (Some w)
    obtain p d where w: "w = (p, d)" by (cases w)
    have "p \<in> set (n_inputs (g_nodes g ! i))"
      using pure_view_parent [of g "g_nodes g ! i" p d] v Some w by auto
    then have "p < i" using plannableD(5) [OF assms(1) Suc.prems(1)] by simp
    then show ?thesis
      using Suc.IH [of p "off + d"] Suc.prems v Some w by fastforce
  qed
qed simp

text \<open>The node that owns the bytes of \<open>i\<close>, and where they start in its slot.\<close>

definition owner :: "graph \<Rightarrow> node_id \<Rightarrow> node_id" where
  "owner g i = (case resolve_view_root g i of Ok (r, t) \<Rightarrow> r | _ \<Rightarrow> i)"

definition owner_offset :: "graph \<Rightarrow> node_id \<Rightarrow> nat" where
  "owner_offset g i = (case resolve_view_root g i of Ok (r, t) \<Rightarrow> t | _ \<Rightarrow> 0)"

lemma resolve_owner:
  assumes "plannable g" and "i < graph_len g"
  shows "resolve_view_root g i = Ok (owner g i, owner_offset g i)"
    and "owner g i \<le> i" and "pure_view_offset g (g_nodes g ! owner g i) = Ok None"
    and "owner g i < graph_len g"
proof -
  obtain r t where "resolve_view_root g i = Ok (r, t)" "r \<le> i"
      "pure_view_offset g (g_nodes g ! r) = Ok None"
    using view_walk_owner [OF assms, of "Suc (graph_len g)" 0] assms(2)
    unfolding resolve_view_root_def by auto
  then show "resolve_view_root g i = Ok (owner g i, owner_offset g i)" "owner g i \<le> i"
      "pure_view_offset g (g_nodes g ! owner g i) = Ok None" "owner g i < graph_len g"
    using assms(2) by (auto simp: owner_def owner_offset_def)
qed

lemma owner_of_root:
  assumes "i < graph_len g" and "pure_view_offset g (g_nodes g ! i) = Ok None"
  shows "resolve_view_root g i = Ok (i, 0)" and "owner g i = i" and "owner_offset g i = 0"
  using assms by (simp_all add: resolve_view_root_def owner_def owner_offset_def)

lemma owner_of_view:
  assumes "plannable g" and "i < graph_len g"
    and "pure_view_offset g (g_nodes g ! i) = Ok (Some (p, d))"
  shows "owner g i = owner g p" and "owner_offset g i = d + owner_offset g p" and "p < i"
proof -
  have "p \<in> set (n_inputs (g_nodes g ! i))" using pure_view_parent [OF assms(3)] by auto
  then show p: "p < i" using plannableD(5) [OF assms(1,2)] by simp
  then have res: "view_walk g (graph_len g) p 0 = Ok (owner g p, owner_offset g p)"
  proof -
    obtain r t where "view_walk g (graph_len g) p 0 = Ok (r, t)"
      using view_walk_owner [OF assms(1), of p "graph_len g" 0] p assms(2) by auto
    then show ?thesis
      using resolve_fuel_enough [of g "graph_len g" p] by (simp add: owner_def owner_offset_def)
  qed
  have "resolve_view_root g i = view_walk g (graph_len g) p (0 + d)"
    using assms by (simp add: resolve_view_root_def)
  then have "resolve_view_root g i = Ok (owner g p, owner_offset g p + d)"
    by (simp only: view_walk_shift) (simp add: res)
  then show "owner g i = owner g p" "owner_offset g i = d + owner_offset g p"
    by (simp_all add: owner_def owner_offset_def)
qed

lemma owner_idem:
  assumes "plannable g" and "i < graph_len g"
  shows "owner g (owner g i) = owner g i" and "owner_offset g (owner g i) = 0"
  using owner_of_root resolve_owner [OF assms] by simp_all

section \<open>The reader index\<close>

lemma sole_reader_scan_filter:
  "sole_reader_scan i reader slots =
     (case (reader, filter (\<lambda>s. snd s = i) slots) of
        (r, []) \<Rightarrow> Some r
      | (None, [s]) \<Rightarrow> Some (Some (fst s))
      | _ \<Rightarrow> None)"
  by (induction i reader slots rule: sole_reader_scan.induct)
    (auto split: option.splits list.splits)

lemma reader_index_filter:
  "foldl count_read Map.empty slots i =
     (case filter (\<lambda>s. snd s = i) slots of
        [] \<Rightarrow> None
      | s # rest \<Rightarrow> Some (Suc (length rest), n_id (fst s)))"
proof (induction slots rule: rev_induct)
  case (snoc s slots)
  then show ?case by (cases s) (auto simp: count_read_def split: list.splits)
qed simp

lemma input_slots_member: "(n, i) \<in> set (input_slots g) \<longleftrightarrow> n \<in> set (g_nodes g) \<and> i \<in> set (n_inputs n)"
  by (auto simp: input_slots_def)

lemma indexed_scan_eq:
  assumes "wf_nodes (g_nodes g)"
  shows "is_elidable_matmul_transpose_indexed g n (reader_index_new g) =
    is_elidable_matmul_transpose g n"
proof -
  have mem: "node_of g (n_id r) = Ok r" if "(r, i) \<in> set (input_slots g)" for r i
    using wf_nodes_member [OF assms, of r] that
    by (simp add: input_slots_member node_of_Ok graph_len_def)
  show ?thesis
  proof (cases "filter (\<lambda>s. snd s = n_id n) (input_slots g)")
    case Nil
    then show ?thesis
      by (simp add: is_elidable_matmul_transpose_indexed_def is_elidable_matmul_transpose_def
          sole_reader_scan_filter reader_index_new_def reader_index_filter sole_reader_def)
  next
    case (Cons s rest)
    obtain r j where s: "s = (r, j)" by (cases s)
    have "s \<in> set (filter (\<lambda>s. snd s = n_id n) (input_slots g))" unfolding Cons by simp
    then have "s \<in> set (input_slots g)" by simp
    then have "node_of g (n_id r) = Ok r" using mem s by simp
    then show ?thesis
      using Cons s by (cases rest)
        (simp_all add: is_elidable_matmul_transpose_indexed_def is_elidable_matmul_transpose_def
          sole_reader_scan_filter reader_index_new_def reader_index_filter sole_reader_def)
  qed
qed

text \<open>Asking the reader index which transposes fold into a matrix product gives the
  answer of the scan over all nodes, on every graph whose ids are positions.\<close>

theorem elidable_matmul_transpose_indexed:
  assumes "wf_nodes (g_nodes g)"
  shows "is_elidable_matmul_transpose_indexed g n (reader_index_new g) =
    is_elidable_matmul_transpose g n"
  using assms by (rule indexed_scan_eq)

end
