(* ===== verification/LiveLaws.thy ===== *)
theory LiveLaws
  imports FoldLiveness ViewLaws
begin

text \<open>
  Laws of the live ranges. A range table is sound for a graph (\<open>live_sound\<close>) when every
  buffer is live at its own step and at every step that reads it, through views and folded
  transposes, and outputs and boundary buffers live to the end. The base computation
  establishes this; every extension only widens ranges, which the locale
  \<open>widening_pass\<close> states once, and so keeps it.
\<close>

section \<open>Widening\<close>

definition bounded :: "nat \<Rightarrow> ranges \<Rightarrow> bool" where
  "bounded fin r \<longleftrightarrow> (\<forall>i b d. r i = Some (b, d) \<longrightarrow> d \<le> fin)"

definition widens :: "ranges \<Rightarrow> ranges \<Rightarrow> bool" where
  "widens r r' \<longleftrightarrow> (\<forall>i b d. r i = Some (b, d) \<longrightarrow> (\<exists>b' d'. r' i = Some (b', d') \<and> b' \<le> b \<and> d \<le> d'))"

definition steady :: "nat \<Rightarrow> ranges \<Rightarrow> ranges \<Rightarrow> bool" where
  "steady fin r r' \<longleftrightarrow> (bounded fin r \<longrightarrow> bounded fin r' \<and> widens r r')"

named_theorems steady_intros \<open>operations on range tables that only widen\<close>

lemma steady_refl [simp, steady_intros]: "steady fin r r"
  by (auto simp: steady_def widens_def)

lemma widens_trans: "widens r r' \<Longrightarrow> widens r' r'' \<Longrightarrow> widens r r''"
  unfolding widens_def
proof (intro allI impI)
  fix i b d
  assume r: "\<forall>i b d. r i = Some (b, d) \<longrightarrow> (\<exists>b' d'. r' i = Some (b', d') \<and> b' \<le> b \<and> d \<le> d')"
    and r': "\<forall>i b d. r' i = Some (b, d) \<longrightarrow> (\<exists>b' d'. r'' i = Some (b', d') \<and> b' \<le> b \<and> d \<le> d')"
    and i: "r i = Some (b, d)"
  from r i obtain b' d' where 1: "r' i = Some (b', d')" "b' \<le> b" "d \<le> d'" by blast
  from r' 1(1) obtain b'' d'' where "r'' i = Some (b'', d'')" "b'' \<le> b'" "d' \<le> d''" by blast
  with 1 show "\<exists>b'' d''. r'' i = Some (b'', d'') \<and> b'' \<le> b \<and> d \<le> d''" by auto
qed

lemma steady_trans: "steady fin r r' \<Longrightarrow> steady fin r' r'' \<Longrightarrow> steady fin r r''"
  unfolding steady_def using widens_trans by blast

lemma steady_modify:
  assumes "\<And>b d. d \<le> fin \<Longrightarrow> fst (f (b, d)) \<le> b \<and> d \<le> snd (f (b, d)) \<and> snd (f (b, d)) \<le> fin"
  shows "steady fin r (modify r i f)"
  unfolding steady_def
proof (intro impI conjI)
  assume bnd: "bounded fin r"
  show "bounded fin (modify r i f)"
    unfolding bounded_def
  proof (intro allI impI)
    fix j b d assume j: "modify r i f j = Some (b, d)"
    show "d \<le> fin"
    proof (cases "j = i")
      case True
      then obtain b0 d0 where "r i = Some (b0, d0)" "f (b0, d0) = (b, d)"
        using j by (auto simp: modify_def)
      then show ?thesis using assms [of d0 b0] bnd by (auto simp: bounded_def)
    next
      case False
      then show ?thesis using j bnd by (simp add: modify_def bounded_def)
    qed
  qed
  show "widens r (modify r i f)"
    unfolding widens_def
  proof (intro allI impI)
    fix j b d assume j: "r j = Some (b, d)"
    then have "d \<le> fin" using bnd by (auto simp: bounded_def)
    then show "\<exists>b' d'. modify r i f j = Some (b', d') \<and> b' \<le> b \<and> d \<le> d'"
      using assms [of d b] j by (cases "f (b, d)") (auto simp: modify_def)
  qed
qed

lemma steady_raise_death [steady_intros]: "step \<le> fin \<Longrightarrow> steady fin r (raise_death r i step)"
  unfolding raise_death_def by (rule steady_modify) simp

lemma steady_pin_death [steady_intros]: "steady fin r (pin_death r i fin)"
  unfolding pin_death_def by (rule steady_modify) simp

lemma steady_read_at [steady_intros]:
  "read_at g step r i = Ok r' \<Longrightarrow> step \<le> fin \<Longrightarrow> steady fin r r'"
  unfolding read_at_def
  by (auto simp: outcome_simps Let_def split: if_splits
      intro: steady_raise_death steady_trans)

lemma steady_pin_at [steady_intros]: "pin_at g fin r i = Ok r' \<Longrightarrow> steady fin r r'"
  unfolding pin_at_def
  by (auto simp: outcome_simps Let_def split: if_splits intro: steady_pin_death steady_trans)

lemma steady_for_each:
  assumes "for_each f r xs = Ok r'"
    and "\<And>x r r'. x \<in> set xs \<Longrightarrow> f r x = Ok r' \<Longrightarrow> steady fin r r'"
  shows "steady fin r r'"
  using assms
proof (induction xs arbitrary: r)
  case (Cons x xs)
  obtain r1 where "f r x = Ok r1" "for_each f r1 xs = Ok r'"
    using Cons.prems(1) by (auto simp: outcome_simps)
  then show ?case
    using Cons.IH [of r1] Cons.prems(2) by (meson list.set_intros steady_trans)
qed simp

lemma steady_foldl:
  assumes "\<And>x r. x \<in> set xs \<Longrightarrow> steady fin r (f r x)"
  shows "steady fin r (foldl f r xs)"
  using assms
proof (induction xs arbitrary: r)
  case (Cons x xs)
  then have "steady fin r (f r x)" "steady fin (f r x) (foldl f (f r x) xs)" by simp_all
  then show ?case by (simp add: steady_trans)
qed simp

lemma steady_pin_walk: "pin_walk g fin up seen stack r = Ok r' \<Longrightarrow> steady fin r r'"
proof (induction g fin up seen stack r rule: pin_walk.induct)
  case (2 g fin up seen i stack r)
  show ?case
  proof (cases "i \<in> seen")
    case True
    then show ?thesis using 2 by simp
  next
    case False
    then obtain n r1 where "node_of g i = Ok n" "pin_at g fin r i = Ok r1"
        "pin_walk g fin up (insert i seen) ((if up then rev (n_inputs n) else []) @ stack) r1 = Ok r'"
      using 2(3) by (auto simp: outcome_simps)
    then show ?thesis using 2(2) [OF False] steady_pin_at steady_trans by meson
  qed
qed simp

lemma steady_extend_node_chain: "extend_node_chain g fin r i = Ok r' \<Longrightarrow> steady fin r r'"
  unfolding extend_node_chain_def by (rule steady_pin_walk)

lemma steady_pin_views: "pin_views g k fin r i = Ok r' \<Longrightarrow> steady fin r r'"
proof (induction k arbitrary: r i)
  case (Suc k)
  obtain n v where n: "node_of g i = Ok n" "pure_view_offset g n = Ok v"
    using Suc.prems by (auto simp: outcome_simps)
  show ?case
  proof (cases v)
    case None
    then show ?thesis using n Suc.prems by (auto simp: steady_pin_death)
  next
    case (Some w)
    then have "pin_views g k fin (pin_death r i fin) (fst w) = Ok r'"
      using n Suc.prems by (auto split: prod.splits)
    then show ?thesis using Suc.IH steady_pin_death steady_trans by meson
  qed
qed simp

lemma steady_extend_view_chain: "extend_view_chain g fin r i = Ok r' \<Longrightarrow> steady fin r r'"
  unfolding extend_view_chain_def by (rule steady_pin_views)

lemma steady_chains: "for_each (extend_node_chain g fin) r xs = Ok r' \<Longrightarrow> steady fin r r'"
  by (erule steady_for_each) (rule steady_extend_node_chain)

lemma steady_view_chains: "for_each (extend_view_chain g fin) r xs = Ok r' \<Longrightarrow> steady fin r r'"
  by (erule steady_for_each) (rule steady_extend_view_chain)

lemmas steady_dests = steady_chains steady_view_chains steady_extend_node_chain
  steady_extend_view_chain

lemmas steady_compose = steady_trans steady_trans [OF _ steady_pin_death]

section \<open>Sound ranges\<close>

definition live_to :: "ranges \<Rightarrow> node_id \<Rightarrow> nat \<Rightarrow> bool" where
  "live_to r i s \<longleftrightarrow> (\<exists>b d. r i = Some (b, d) \<and> s \<le> d)"

definition born_by :: "ranges \<Rightarrow> node_id \<Rightarrow> nat \<Rightarrow> bool" where
  "born_by r i s \<longleftrightarrow> (\<exists>b d. r i = Some (b, d) \<and> b \<le> s)"

definition folded_source :: "graph \<Rightarrow> node_id \<Rightarrow> node_id \<Rightarrow> bool" where
  "folded_source g i j \<longleftrightarrow>
     is_elidable_folded_transpose g (g_nodes g ! i) = Ok True \<and>
     n_inputs (g_nodes g ! i) \<noteq> [] \<and> j = n_inputs (g_nodes g ! i) ! 0"

definition live_sound :: "graph \<Rightarrow> ranges \<Rightarrow> bool" where
  "live_sound g r \<longleftrightarrow>
     (\<forall>s < graph_len g. born_by r s s \<and> live_to r s s \<and>
        (\<forall>i \<in> set (n_inputs (g_nodes g ! s)).
           live_to r (owner g i) s \<and> (\<forall>j. folded_source g i j \<longrightarrow> live_to r (owner g j) s)) \<and>
        (is_boundary (n_op (g_nodes g ! s)) \<longrightarrow> born_by r s 0 \<and> live_to r s (graph_len g))) \<and>
     (\<forall>i \<in> set (g_outputs g). live_to r (owner g i) (graph_len g))"

lemma live_to_widens: "live_to r i s \<Longrightarrow> widens r r' \<Longrightarrow> live_to r' i s"
  unfolding live_to_def widens_def by (meson order_trans)

lemma born_by_widens: "born_by r i s \<Longrightarrow> widens r r' \<Longrightarrow> born_by r' i s"
  unfolding born_by_def widens_def by (meson order_trans)

lemma live_sound_widens: "live_sound g r \<Longrightarrow> widens r r' \<Longrightarrow> live_sound g r'"
  unfolding live_sound_def using live_to_widens born_by_widens by blast

locale widening_pass =
  fixes fin :: nat and pass :: "ranges \<Rightarrow> ranges planned"
  assumes pass_steady: "pass r = Ok r' \<Longrightarrow> steady fin r r'"
begin

lemma keeps_bound: "pass r = Ok r' \<Longrightarrow> bounded fin r \<Longrightarrow> bounded fin r'"
  using pass_steady by (auto simp: steady_def)

lemma keeps_sound: "pass r = Ok r' \<Longrightarrow> bounded fin r \<Longrightarrow> live_sound g r \<Longrightarrow> live_sound g r'"
  using pass_steady live_sound_widens by (auto simp: steady_def)

end

section \<open>Every extension widens\<close>

lemma nth_enumerate: "(s, n) \<in> set (enumerate 0 xs) \<longleftrightarrow> s < length xs \<and> n = xs ! s"
  by (auto simp: in_set_enumerate_eq)

lemma steady_qkv:
  assumes "extend_packed_qkv_parent_liveness g r = Ok r'"
  shows "steady (graph_len g) r r'"
  using assms unfolding extend_packed_qkv_parent_liveness_def
proof (rule steady_for_each)
  fix sn r r' assume sn: "sn \<in> set (enumerate 0 (g_nodes g))" and r': "qkv_step g r sn = Ok r'"
  obtain s n where "sn = (s, n)" by (cases sn)
  then have "s \<le> graph_len g" using sn by (simp add: nth_enumerate graph_len_def)
  then show "steady (graph_len g) r r'"
    using r' \<open>sn = (s, n)\<close>
    by (auto simp: qkv_step_def outcome_simps split: if_splits option.splits
        intro: steady_read_at)
qed

lemma steady_pin_selected:
  assumes "pin_selected env g r = Ok r'"
  shows "steady (graph_len g) r r'"
proof (cases "env_no_reuse_ops env")
  case None
  then show ?thesis using assms by (simp add: pin_selected_def)
next
  case (Some specs)
  then obtain seen where loop: "for_each (filter_step g specs) (r, Map.empty) (g_nodes g) = Ok (r', seen)"
    using assms by (auto simp: pin_selected_def outcome_simps)
  have "steady (graph_len g) r (fst (r', seen))"
  proof (rule for_each_invariant [OF loop, where P = "\<lambda>st. steady (graph_len g) r (fst st)"])
    fix st n st' assume "steady (graph_len g) r (fst st)" "filter_step g specs st n = Ok st'"
    then show "steady (graph_len g) r (fst st')"
      by (auto simp: filter_step_def outcome_simps Let_def
          split: prod.splits if_splits option.splits dest!: steady_dests intro: steady_compose)
  qed simp
  then show ?thesis by simp
qed

lemma steady_custom:
  assumes "extend_custom_op_input_liveness env g fb r = Ok r'"
  shows "steady (graph_len g) r r'"
proof -
  have c: "steady (graph_len g) r r'" if "custom_step g r n = Ok r'" for n r r'
    using that unfolding custom_step_def
    by (auto split: op.splits if_splits intro: steady_for_each steady_extend_node_chain)
  have h: "steady (graph_len g) r r'" if "host_step g r n = Ok r'" for n r r'
    using that unfolding host_step_def
    by (auto simp: outcome_simps split: if_splits dest!: steady_dests intro: steady_compose)
  have d: "steady (graph_len g) r r'" if "dequant_step g r n = Ok r'" for n r r'
    using that unfolding dequant_step_def
    by (auto split: if_splits list.splits intro: steady_extend_view_chain)
  obtain r1 r2 r3 where "for_each (custom_step g) r (g_nodes g) = Ok r1"
      "(if env_pin_host env then for_each (host_step g) r1 (g_nodes g) else Ok r1) = Ok r2"
      "pin_selected env g r2 = Ok r3"
      "(if fb then for_each (dequant_step g) r3 (g_nodes g) else Ok r3) = Ok r'"
    using assms by (auto simp: extend_custom_op_input_liveness_def outcome_simps)
  then have "steady (graph_len g) r r1" "steady (graph_len g) r1 r2" "steady (graph_len g) r2 r3"
      "steady (graph_len g) r3 r'"
    by (auto split: if_splits intro: steady_for_each [OF _ c] steady_for_each [OF _ h]
        steady_for_each [OF _ d] steady_pin_selected)
  then show ?thesis by (meson steady_trans)
qed

lemma steady_bert:
  assumes "extend_bert_hidden_liveness g r = Ok r'"
  shows "steady (graph_len g) r r'"
proof -
  have "steady (graph_len g) r r'" if "bert_step g r n = Ok r'" for n r r'
    using that unfolding bert_step_def Let_def
    by (auto simp: outcome_simps split: op.splits if_splits dest!: steady_dests
        intro: steady_compose)
  then show ?thesis
    using assms unfolding extend_bert_hidden_liveness_def
    by (auto split: if_splits intro: steady_for_each)
qed

lemma steady_duration:
  assumes "extend_onnx_duration_epilogue_liveness g r = Ok r'"
  shows "steady (graph_len g) r r'"
proof -
  have "steady (graph_len g) r r'" if "duration_step g r n = Ok r'" for n r r'
    using that unfolding duration_step_def
    by (auto simp: outcome_simps split: if_splits dest!: steady_dests intro: steady_compose)
  then have "steady (graph_len g) r r'" if "for_each (duration_step g) r (g_nodes g) = Ok r'" for r r'
    using that by (rule steady_for_each [rotated])
  then show ?thesis
    using assms unfolding extend_onnx_duration_epilogue_liveness_def
    by (auto simp: outcome_simps split: if_splits dest!: steady_dests intro: steady_compose)
qed

lemma steady_static:
  assumes "extend_static_weight_pack_liveness g r = Ok r'"
  shows "steady (graph_len g) r r'"
proof -
  obtain memo where loop: "for_each (static_step g) (r, Map.empty) (g_nodes g) = Ok (r', memo)"
    using assms by (auto simp: extend_static_weight_pack_liveness_def outcome_simps)
  have "steady (graph_len g) r (fst (r', memo))"
  proof (rule for_each_invariant [OF loop, where P = "\<lambda>st. steady (graph_len g) r (fst st)"])
    fix st n st' assume "steady (graph_len g) r (fst st)" "static_step g st n = Ok st'"
    then show "steady (graph_len g) r (fst st')"
      by (auto simp: static_step_def outcome_simps split: prod.splits if_splits
          elim!: steady_trans intro!: steady_modify)
  qed simp
  then show ?thesis by simp
qed

lemma step_of_less: "step_of g i = Some s \<Longrightarrow> s < graph_len g"
  by (auto simp: step_of_def dest!: map_of_SomeD in_set_zipE)

lemma steady_conv3d:
  assumes "extend_conv3d_epilogue_fold_liveness g r = Ok r'"
  shows "steady (graph_len g) r r'"
proof -
  obtain folds :: conv3d_folds where loop: "for_each (read_through_step g (read_through folds))
      (foldl (absorbed_step g (absorbed folds)) r [0..<graph_len g]) [0..<graph_len g] = Ok r'"
    using assms by (auto simp: extend_conv3d_epilogue_fold_liveness_def outcome_simps)
  have "steady (graph_len g) r (absorbed_step g m r i)" for m r i
    by (auto simp: absorbed_step_def split: option.splits intro!: steady_modify)
  then have "steady (graph_len g) r (foldl (absorbed_step g (absorbed folds)) r [0..<graph_len g])"
    by (rule steady_foldl)
  moreover have "steady (graph_len g) r r'" if "read_through_step g m r i = Ok r'" for m r r' i
    using that step_of_less [of g]
    by (auto simp: read_through_step_def split: option.splits
        intro!: steady_read_at intro: order_less_imp_le)
  then have "steady (graph_len g) (foldl (absorbed_step g (absorbed folds)) r [0..<graph_len g]) r'"
    by (rule steady_for_each [OF loop])
  ultimately show ?thesis by (rule steady_trans)
qed

interpretation qkv: widening_pass "graph_len g" "extend_packed_qkv_parent_liveness g"
  by unfold_locales (rule steady_qkv)

interpretation custom: widening_pass "graph_len g" "extend_custom_op_input_liveness env g fb"
  by unfold_locales (rule steady_custom)

interpretation bert: widening_pass "graph_len g" "extend_bert_hidden_liveness g"
  by unfold_locales (rule steady_bert)

interpretation duration: widening_pass "graph_len g" "extend_onnx_duration_epilogue_liveness g"
  by unfold_locales (rule steady_duration)

interpretation static: widening_pass "graph_len g" "extend_static_weight_pack_liveness g"
  by unfold_locales (rule steady_static)

interpretation conv3d: widening_pass "graph_len g" "extend_conv3d_epilogue_fold_liveness g"
  by unfold_locales (rule steady_conv3d)

section \<open>The base ranges are sound\<close>

lemma dom_modify [simp]: "dom (modify r i f) = dom r"
  by (auto simp: modify_def)

lemma dom_death [simp]: "dom (raise_death r i s) = dom r" "dom (pin_death r i s) = dom r"
  by (simp_all add: raise_death_def pin_death_def)

lemma live_to_raise: "i \<in> dom r \<Longrightarrow> live_to (raise_death r i s) i s"
  by (auto simp: live_to_def raise_death_def modify_def)

lemma live_to_raise_other: "live_to r i s \<Longrightarrow> live_to (raise_death r j t) i s"
  by (auto simp: live_to_def raise_death_def modify_def)

lemma live_to_pin: "i \<in> dom r \<Longrightarrow> live_to (pin_death r i fin) i fin"
  by (auto simp: live_to_def pin_death_def modify_def)

lemma live_to_pin_other: "live_to r i fin \<Longrightarrow> live_to (pin_death r j fin) i fin"
  by (auto simp: live_to_def pin_death_def modify_def)

lemma read_at_spec:
  assumes "plannable g" and "i < graph_len g" and "read_at g s r i = Ok r'"
  shows "dom r' = dom r" and "owner g i \<in> dom r \<Longrightarrow> live_to r' (owner g i) s"
proof -
  have "r' = raise_death r (owner g i) s \<or> r' = raise_death (raise_death r (owner g i) s) i s"
    using assms(3) resolve_owner(1) [OF assms(1,2)]
    by (auto simp: read_at_def Let_def split: if_splits)
  then show "dom r' = dom r" "owner g i \<in> dom r \<Longrightarrow> live_to r' (owner g i) s"
    by (elim disjE; simp add: live_to_raise live_to_raise_other)+
qed

lemma pin_at_spec:
  assumes "plannable g" and "i < graph_len g" and "pin_at g fin r i = Ok r'"
  shows "dom r' = dom r" and "owner g i \<in> dom r \<Longrightarrow> live_to r' (owner g i) fin"
proof -
  have "r' = pin_death r (owner g i) fin \<or> r' = pin_death (pin_death r (owner g i) fin) i fin"
    using assms(3) resolve_owner(1) [OF assms(1,2)]
    by (auto simp: pin_at_def Let_def split: if_splits)
  then show "dom r' = dom r" "owner g i \<in> dom r \<Longrightarrow> live_to r' (owner g i) fin"
    by (elim disjE; simp add: live_to_pin live_to_pin_other)+
qed

definition read_by :: "graph \<Rightarrow> nat \<Rightarrow> ranges \<Rightarrow> node_id \<Rightarrow> bool" where
  "read_by g s r i \<longleftrightarrow>
     live_to r (owner g i) s \<and> (\<forall>j. folded_source g i j \<longrightarrow> live_to r (owner g j) s)"

lemma read_by_widens: "read_by g s r i \<Longrightarrow> widens r r' \<Longrightarrow> read_by g s r' i"
  unfolding read_by_def using live_to_widens by blast

lemma live_input_spec:
  assumes g: "plannable g" and i: "i < graph_len g" and r: "live_input g s r i = Ok r'"
    and dom: "{..i} \<subseteq> dom r" and s: "s \<le> graph_len g"
  shows "dom r' = dom r" and "steady (graph_len g) r r'"
    and "bounded (graph_len g) r \<Longrightarrow> read_by g s r' i"
proof -
  obtain r1 folded where r1: "read_at g s r i = Ok r1"
    and folded: "is_elidable_folded_transpose g (g_nodes g ! i) = Ok folded"
    and rest: "(if folded then bind_outcome (index_or_panic (n_inputs (g_nodes g ! i)) 0)
        (read_at g s r1) else Ok r1) = Ok r'"
    using r i by (auto simp: live_input_def outcome_simps)
  note r1_spec = read_at_spec [OF g i r1]
  have own: "owner g i \<in> dom r" using resolve_owner(2) [OF g i] dom by auto
  have st1: "steady (graph_len g) r r1" by (rule steady_read_at [OF r1 s])
  have goals: "dom r' = dom r \<and> steady (graph_len g) r r' \<and>
      (bounded (graph_len g) r \<longrightarrow> read_by g s r' i)"
  proof (cases folded)
    case False
    then have "r' = r1" using rest by simp
    then show ?thesis
      using r1_spec own st1 folded False by (auto simp: read_by_def folded_source_def)
  next
    case True
    let ?j = "n_inputs (g_nodes g ! i) ! 0"
    have j: "n_inputs (g_nodes g ! i) \<noteq> []" and r': "read_at g s r1 ?j = Ok r'"
      using rest True by (auto simp: outcome_simps)
    have "?j < i" using plannableD(5) [OF g i] j by (simp add: nth_mem)
    then have jl: "?j < graph_len g" using i by simp
    note r'_spec = read_at_spec [OF g jl r']
    have st': "steady (graph_len g) r1 r'" by (rule steady_read_at [OF r' s])
    have "owner g ?j \<in> {..i}" using resolve_owner(2) [OF g jl] \<open>?j < i\<close> by simp
    then have "owner g ?j \<in> dom r1" unfolding r1_spec(1) using dom by blast
    then have "live_to r' (owner g ?j) s" by (rule r'_spec(2))
    moreover have "live_to r' (owner g i) s" if "bounded (graph_len g) r"
      using that st1 st' r1_spec(2) [OF own] live_to_widens by (auto simp: steady_def)
    ultimately show ?thesis
      using r1_spec(1) r'_spec(1) steady_trans [OF st1 st']
      by (auto simp: read_by_def folded_source_def)
  qed
  then show "dom r' = dom r" "steady (graph_len g) r r'"
      "bounded (graph_len g) r \<Longrightarrow> read_by g s r' i" by blast+
qed

lemma live_inputs_spec:
  assumes g: "plannable g" and s: "s < graph_len g" and dom: "dom r = {..s}"
    and ins: "\<forall>i \<in> set is. i < s" and bnd: "bounded (graph_len g) r"
    and r: "for_each (live_input g s) r is = Ok r'"
  shows "dom r' = {..s} \<and> steady (graph_len g) r r' \<and> (\<forall>i \<in> set is. read_by g s r' i)"
proof -
  have "dom r' = {..s} \<and> steady (graph_len g) r r' \<and> (\<forall>i \<in> set (take (length is) is). read_by g s r' i)"
  proof (rule for_each_prefix [OF r, where P = "\<lambda>k r'. dom r' = {..s} \<and>
      steady (graph_len g) r r' \<and> (\<forall>i \<in> set (take k is). read_by g s r' i)"])
    fix k r1 r2
    assume k: "k < length is" and r2: "live_input g s r1 (is ! k) = Ok r2"
      and IH: "dom r1 = {..s} \<and> steady (graph_len g) r r1 \<and> (\<forall>i \<in> set (take k is). read_by g s r1 i)"
    have i: "is ! k < s" using ins k by auto
    then have il: "is ! k < graph_len g" and sub: "{..is ! k} \<subseteq> dom r1" using s IH by auto
    note spec = live_input_spec [OF g il r2 sub less_imp_le [OF s]]
    have bnd1: "bounded (graph_len g) r1" using IH bnd by (simp add: steady_def)
    then have "widens r1 r2" using spec(2) by (simp add: steady_def)
    then show "dom r2 = {..s} \<and> steady (graph_len g) r r2 \<and>
        (\<forall>i \<in> set (take (Suc k) is). read_by g s r2 i)"
      using IH spec(1,2) spec(3) [OF bnd1] read_by_widens [of g s r1] steady_trans
      by (auto simp: take_Suc_conv_app_nth [OF k])
  qed (use dom in auto)
  then show ?thesis by simp
qed

definition sound_until :: "graph \<Rightarrow> nat \<Rightarrow> ranges \<Rightarrow> bool" where
  "sound_until g k r \<longleftrightarrow> dom r = {..<k} \<and> bounded (graph_len g) r \<and>
     (\<forall>s < k. born_by r s s \<and> live_to r s s \<and> (\<forall>i \<in> set (n_inputs (g_nodes g ! s)). read_by g s r i))"

lemma live_node_sound:
  assumes g: "plannable g" and k: "k < graph_len g" and r: "sound_until g k r"
    and r': "live_node g r (k, g_nodes g ! k) = Ok r'"
  shows "sound_until g (Suc k) r'"
proof -
  let ?r0 = "r(k \<mapsto> (k, k))" and ?n = "g_nodes g ! k"
  have id: "n_id ?n = k" using plannableD(4) [OF g k] .
  have none: "r k = None" using r by (auto simp: sound_until_def dom_def)
  then have loop: "for_each (live_input g k) ?r0 (n_inputs ?n) = Ok r'"
    using r' id by (simp add: live_node_def)
  have w0: "widens r ?r0" using none by (auto simp: widens_def)
  have b0: "bounded (graph_len g) ?r0" using r k by (auto simp: sound_until_def bounded_def)
  have d0: "dom ?r0 = {..k}" using r by (auto simp: sound_until_def)
  have spec: "dom r' = {..k} \<and> steady (graph_len g) ?r0 r' \<and>
      (\<forall>i \<in> set (n_inputs ?n). read_by g k r' i)"
    by (rule live_inputs_spec [OF g k d0 _ b0 loop]) (use plannableD(5) [OF g k] in auto)
  then have w1: "widens ?r0 r'" and b1: "bounded (graph_len g) r'" using b0 by (auto simp: steady_def)
  have w: "widens r r'" using w0 w1 by (rule widens_trans)
  have "born_by ?r0 k k" "live_to ?r0 k k" by (auto simp: born_by_def live_to_def)
  then have "born_by r' k k" "live_to r' k k" using w1 born_by_widens live_to_widens by blast+
  moreover have "born_by r' s s \<and> live_to r' s s \<and>
      (\<forall>i \<in> set (n_inputs (g_nodes g ! s)). read_by g s r' i)" if "s < k" for s
    using r that w born_by_widens live_to_widens read_by_widens
    unfolding sound_until_def by blast
  ultimately show ?thesis
    using spec b1 by (auto simp: sound_until_def less_Suc_eq)
qed

lemma live_nodes_sound:
  assumes "plannable g" and r: "for_each (live_node g) Map.empty (enumerate 0 (g_nodes g)) = Ok r"
  shows "sound_until g (graph_len g) r"
proof -
  have "sound_until g (length (enumerate 0 (g_nodes g))) r"
  proof (rule for_each_prefix [OF r, where P = "sound_until g"])
    show "sound_until g 0 Map.empty" by (simp add: sound_until_def bounded_def)
    fix k s t
    assume "k < length (enumerate 0 (g_nodes g))" and s: "sound_until g k s"
      and t: "live_node g s (enumerate 0 (g_nodes g) ! k) = Ok t"
    then have "k < graph_len g" by (simp add: graph_len_def)
    then show "sound_until g (Suc k) t"
      using live_node_sound [OF assms(1) _ s] t by (simp add: nth_enumerate_eq graph_len_def)
  qed
  then show ?thesis by (simp add: graph_len_def)
qed

lemma widens_dom: "widens r r' \<Longrightarrow> i \<in> dom r \<Longrightarrow> i \<in> dom r'"
  by (fastforce simp: widens_def)

lemma steadyD:
  assumes "steady fin r r'" and "bounded fin r"
  shows "bounded fin r'" and "widens r r'" and "i \<in> dom r \<Longrightarrow> i \<in> dom r'"
  using assms widens_dom unfolding steady_def by blast+

lemma steady_through:
  assumes "for_each f r xs = Ok r'" and "x \<in> set xs"
    and step: "\<And>x r r'. x \<in> set xs \<Longrightarrow> f r x = Ok r' \<Longrightarrow> steady fin r r'"
  shows "\<exists>r1 r2. steady fin r r1 \<and> f r1 x = Ok r2 \<and> steady fin r2 r'"
proof -
  obtain us vs where xs: "xs = us @ x # vs" using assms(2) by (meson split_list)
  obtain r1 r2 where "for_each f r us = Ok r1" "f r1 x = Ok r2" "for_each f r2 vs = Ok r'"
    using assms(1) by (auto simp: xs for_each_append outcome_simps)
  then show ?thesis using steady_for_each step unfolding xs by (metis Un_iff list.set_intros(2) set_append)
qed

lemma steady_pin_boundary: "steady fin r (pin_boundary fin r n)"
  by (auto simp: pin_boundary_def intro!: steady_modify)

lemma outputs_pinned:
  assumes g: "plannable g" and r: "for_each (pin_at g (graph_len g)) r0 (g_outputs g) = Ok r"
    and dom: "{..<graph_len g} \<subseteq> dom r0" and bnd: "bounded (graph_len g) r0"
    and i: "i \<in> set (g_outputs g)"
  shows "live_to r (owner g i) (graph_len g)"
proof -
  have il: "i < graph_len g" using plannableD(1) [OF g] i by (auto simp: wf_graph_def)
  obtain r1 r2 where r12: "steady (graph_len g) r0 r1" "pin_at g (graph_len g) r1 i = Ok r2"
      "steady (graph_len g) r2 r"
    using steady_through [OF r i] steady_pin_at by blast
  have "owner g i \<in> dom r0" using resolve_owner(4) [OF g il] dom by auto
  then have own: "owner g i \<in> dom r1" by (rule steadyD(3) [OF r12(1) bnd])
  have "bounded (graph_len g) r2"
    using r12(1) steady_pin_at [OF r12(2)] bnd by (auto simp: steady_def)
  then show ?thesis
    using pin_at_spec(2) [OF g il r12(2) own] r12(3) live_to_widens by (auto simp: steady_def)
qed

lemma boundary_pinned:
  assumes bnd: "bounded fin r" and dom: "n_id n \<in> dom r" and n: "n \<in> set ns"
    and b: "is_boundary (n_op n)"
  shows "born_by (foldl (pin_boundary fin) r ns) (n_id n) 0 \<and>
    live_to (foldl (pin_boundary fin) r ns) (n_id n) fin"
proof -
  obtain us vs where ns: "ns = us @ n # vs" using n by (meson split_list)
  let ?r1 = "foldl (pin_boundary fin) r us"
  let ?r2 = "pin_boundary fin ?r1 n"
  have st1: "steady fin r ?r1" by (rule steady_foldl) (rule steady_pin_boundary)
  have b1: "bounded fin ?r1" and d1: "n_id n \<in> dom ?r1"
    by (rule steadyD(1) [OF st1 bnd], rule steadyD(3) [OF st1 bnd dom])
  have r2: "?r2 (n_id n) = Some (0, fin)" using d1 b by (auto simp: pin_boundary_def modify_def)
  have "steady fin ?r1 ?r2" by (rule steady_pin_boundary)
  moreover have "steady fin ?r2 (foldl (pin_boundary fin) ?r2 vs)"
    by (rule steady_foldl) (rule steady_pin_boundary)
  ultimately have "widens ?r2 (foldl (pin_boundary fin) r ns)"
    using b1 by (simp add: ns steady_def)
  moreover have "born_by ?r2 (n_id n) 0" "live_to ?r2 (n_id n) fin"
    using r2 by (auto simp: born_by_def live_to_def)
  ultimately show ?thesis using born_by_widens live_to_widens by blast
qed

lemma base_ranges_sound:
  assumes g: "plannable g" and r: "compute_live_ranges_opts g pin = Ok r"
  shows "bounded (graph_len g) r \<and> live_sound g r"
proof -
  let ?n = "graph_len g"
  obtain r1 r2 r3 where r1: "for_each (live_node g) Map.empty (enumerate 0 (g_nodes g)) = Ok r1"
    and r2: "for_each (pin_at g ?n) r1 (g_outputs g) = Ok r2"
    and r3: "pin_walk g ?n pin {} (rev (g_outputs g)) r2 = Ok r3"
    and r4: "r = foldl (pin_boundary ?n) r3 (g_nodes g)"
    using r by (auto simp: compute_live_ranges_opts_def Let_def outcome_simps)
  have s1: "sound_until g ?n r1" by (rule live_nodes_sound [OF g r1])
  have st2: "steady ?n r1 r2" by (rule steady_for_each [OF r2 steady_pin_at])
  have st3: "steady ?n r2 r3" by (rule steady_pin_walk [OF r3])
  have st4: "steady ?n r3 r" unfolding r4 by (rule steady_foldl) (rule steady_pin_boundary)
  have b: "bounded ?n r1" "bounded ?n r2" "bounded ?n r3" "bounded ?n r"
    and w: "widens r1 r2" "widens r2 r3" "widens r3 r"
    using s1 st2 st3 st4 by (auto simp: sound_until_def steady_def)
  have w1: "widens r1 r" and w2: "widens r2 r" using w widens_trans by blast+
  have dom1: "{..<?n} \<subseteq> dom r1" using s1 by (simp add: sound_until_def)
  have "born_by r s s \<and> live_to r s s \<and> (\<forall>i \<in> set (n_inputs (g_nodes g ! s)). read_by g s r i)"
    if "s < ?n" for s
    using s1 that w1 born_by_widens live_to_widens read_by_widens
    unfolding sound_until_def by blast
  moreover have "born_by r s 0 \<and> live_to r s ?n" if "s < ?n" "is_boundary (n_op (g_nodes g ! s))" for s
  proof -
    have "s \<in> dom r3" using that(1) dom1 w(1,2) widens_dom by blast
    moreover have "n_id (g_nodes g ! s) = s" by (rule plannableD(4) [OF g that(1)])
    ultimately show ?thesis
      using boundary_pinned [OF b(3), of "g_nodes g ! s" "g_nodes g"] that
      by (simp add: r4 graph_len_def)
  qed
  moreover have "live_to r (owner g i) ?n" if "i \<in> set (g_outputs g)" for i
    using outputs_pinned [OF g r2 dom1 b(1) that] w2 live_to_widens by blast
  ultimately show ?thesis using b(4) by (auto simp: live_sound_def read_by_def)
qed

section \<open>The ranges of a plan are sound\<close>

lemma plan_ranges_live:
  assumes "plannable g" and "plan_ranges env g opts = Ok r"
  shows "bounded (graph_len g) r \<and> live_sound g r"
proof -
  obtain r0 r1 r2 r3 r4 r5 where
    "compute_live_ranges_opts g (pin_output_ancestors opts) = Ok r0"
    and r1: "extend_packed_qkv_parent_liveness g r0 = Ok r1"
    and r2: "extend_custom_op_input_liveness env g (dequant_host_fallback opts) r1 = Ok r2"
    and r3: "extend_bert_hidden_liveness g r2 = Ok r3"
    and r4: "extend_onnx_duration_epilogue_liveness g r3 = Ok r4"
    and r5: "extend_static_weight_pack_liveness g r4 = Ok r5"
    and r: "(if fold_conv3d_epilogue opts then extend_conv3d_epilogue_fold_liveness g r5
      else Ok r5) = Ok r"
    using assms(2) by (auto simp: plan_ranges_def outcome_simps)
  then have 0: "bounded (graph_len g) r0" "live_sound g r0"
    using base_ranges_sound [OF assms(1)] by blast+
  have 1: "bounded (graph_len g) r1" "live_sound g r1"
    using qkv.keeps_bound [OF r1] qkv.keeps_sound [OF r1] 0 by blast+
  have 2: "bounded (graph_len g) r2" "live_sound g r2"
    using custom.keeps_bound [OF r2] custom.keeps_sound [OF r2] 1 by blast+
  have 3: "bounded (graph_len g) r3" "live_sound g r3"
    using bert.keeps_bound [OF r3] bert.keeps_sound [OF r3] 2 by blast+
  have 4: "bounded (graph_len g) r4" "live_sound g r4"
    using duration.keeps_bound [OF r4] duration.keeps_sound [OF r4] 3 by blast+
  have 5: "bounded (graph_len g) r5" "live_sound g r5"
    using static.keeps_bound [OF r5] static.keeps_sound [OF r5] 4 by blast+
  show ?thesis
  proof (cases "fold_conv3d_epilogue opts")
    case True
    then have "extend_conv3d_epilogue_fold_liveness g r5 = Ok r" using r by simp
    then show ?thesis using conv3d.keeps_bound conv3d.keeps_sound 5 by blast
  next
    case False
    then show ?thesis using r 5 by simp
  qed
qed

text \<open>C3. Whatever the options, the ranges a plan is made from are sound: every buffer is live
  at its own step, at every step that reads it directly, through a chain of views or through a
  folded transpose, and outputs, inputs, parameters and constants live to the end.\<close>

theorem plan_ranges_sound:
  assumes "plannable g" and "plan_ranges env g opts = Ok r"
  shows "bounded (graph_len g) r \<and> live_sound g r"
  using assms by (rule plan_ranges_live)

end
