(* ===== verification/PlanLaws.thy ===== *)
theory PlanLaws
  imports PlaceLaws LiveLaws
begin

text \<open>
  Laws of whole plans: what buffers are collected, that the in-place safety pass never has
  anything to do, and that a plan keeps buffers which are live at the same time apart, in
  bounds and aligned.
\<close>

section \<open>Collected buffers\<close>

definition slot_bytes_of :: "graph \<Rightarrow> nat \<Rightarrow> arena_width \<Rightarrow> node_id set \<Rightarrow> node_id \<Rightarrow> nat" where
  "slot_bytes_of g alignment width keep_native i =
     (let raw = node_slot_bytes (g_nodes g ! i) width (i \<in> keep_native) in
      if raw = 0 then boundary_min_slot_bytes (n_op (g_nodes g ! i)) alignment else raw)"

lemma buffer_of_Some:
  "buffer_of g alignment opts width keep readers r n = Ok (Some b) \<Longrightarrow> n = g_nodes g ! n_id n \<Longrightarrow>
   pure_view_offset g n = Ok None \<and> folded_away g opts readers n = Ok False \<and> bi_id b = n_id n \<and>
   r (n_id n) = Some (bi_birth b, bi_death b) \<and>
   bi_size b = slot_bytes_of g alignment width keep (n_id n) \<and> 0 < bi_size b \<and>
   plans_boundary_buffer (n_op n) opts"
  by (auto simp: buffer_of_def outcome_simps slot_bytes_of_def Let_def
      split: if_splits option.splits) (metis not_None_eq surj_pair)+

lemma set_map_filter_id: "set (List.map_filter (\<lambda>b. b) bs) = {b. Some b \<in> set bs}"
  by (induction bs) (auto simp: List.map_filter_def)

lemma list_all2_map_filter:
  assumes "list_all2 P ns bs"
  shows "b \<in> set (List.map_filter (\<lambda>b. b) bs) \<longleftrightarrow>
     (\<exists>i < length ns. bs ! i = Some b \<and> P (ns ! i) (Some b))"
proof -
  have "Some b \<in> set bs \<longleftrightarrow> (\<exists>i < length ns. bs ! i = Some b)"
    using list_all2_lengthD [OF assms] by (simp add: in_set_conv_nth)
  moreover have "P (ns ! i) (Some b)" if "i < length ns" "bs ! i = Some b" for i
    using list_all2_nthD [OF assms that(1)] that(2) by simp
  ultimately show ?thesis by (auto simp: set_map_filter_id)
qed

lemma collect_buffers_spec:
  assumes g: "plannable g" and bs: "collect_buffers g alignment opts width keep r = Ok bs"
  shows "distinct (map bi_id bs)"
    and "b \<in> set bs \<Longrightarrow> bi_id b < graph_len g \<and>
      buffer_of g alignment opts width keep (reader_index_new g) r (g_nodes g ! bi_id b) = Ok (Some b)"
    and "i < graph_len g \<Longrightarrow>
      buffer_of g alignment opts width keep (reader_index_new g) r (g_nodes g ! i) = Ok (Some b) \<Longrightarrow>
      b \<in> set bs"
proof -
  let ?f = "buffer_of g alignment opts width keep (reader_index_new g) r"
  obtain os where os: "list_all2 (\<lambda>n y. ?f n = Ok y) (g_nodes g) os"
    and bs': "bs = sort_key (\<lambda>b. - int (bi_size b)) (List.map_filter (\<lambda>b. b) os)"
    using bs by (auto simp: collect_buffers_def outcome_simps)
  have ids: "bi_id b = i" if "i < graph_len g" "?f (g_nodes g ! i) = Ok (Some b)" for i b
    using buffer_of_Some [OF that(2)] plannableD(4) [OF g that(1)] by simp
  have mem: "b \<in> set bs \<longleftrightarrow> (\<exists>i < graph_len g. os ! i = Some b \<and> ?f (g_nodes g ! i) = Ok (Some b))" for b
    using list_all2_map_filter [OF os] by (simp add: bs' graph_len_def)
  show "b \<in> set bs \<Longrightarrow> bi_id b < graph_len g \<and> ?f (g_nodes g ! bi_id b) = Ok (Some b)"
    using ids mem by blast
  show "i < graph_len g \<Longrightarrow> ?f (g_nodes g ! i) = Ok (Some b) \<Longrightarrow> b \<in> set bs"
    using os by (auto simp: mem list_all2_conv_all_nth graph_len_def)
  have "distinct (map bi_id (List.map_filter (\<lambda>b. b) (drop m os))) \<and>
      (\<forall>b \<in> set (List.map_filter (\<lambda>b. b) (drop m os)). m \<le> bi_id b)" for m
  proof (induction "length os - m" arbitrary: m)
    case 0
    then show ?case by (simp add: List.map_filter_def)
  next
    case (Suc l)
    then have m: "m < length os" by simp
    then have ml: "m < graph_len g" using os by (simp add: list_all2_lengthD graph_len_def)
    have IH: "distinct (map bi_id (List.map_filter (\<lambda>b. b) (drop (Suc m) os)))"
        "\<forall>b \<in> set (List.map_filter (\<lambda>b. b) (drop (Suc m) os)). Suc m \<le> bi_id b"
      using Suc by simp_all
    have d: "drop m os = os ! m # drop (Suc m) os" using m by (simp add: Cons_nth_drop_Suc)
    show ?case
    proof (cases "os ! m")
      case None
      then show ?thesis using IH by (auto simp: d List.map_filter_def)
    next
      case (Some b)
      have "?f (g_nodes g ! m) = Ok (Some b)"
        using os m Some by (auto simp: list_all2_conv_all_nth)
      then have b: "bi_id b = m" using ids ml by blast
      let ?rest = "List.map_filter (\<lambda>b. b) (drop (Suc m) os)"
      have mf: "List.map_filter (\<lambda>b. b) (drop m os) = b # ?rest"
        using Some by (simp add: d List.map_filter_def)
      have "bi_id b \<notin> bi_id ` set ?rest" using IH(2) b by (metis imageE not_less_eq_eq order_refl)
      moreover have "\<forall>c \<in> set ?rest. m \<le> bi_id c" using IH(2) Suc_leD by blast
      ultimately show ?thesis unfolding mf using IH(1) b by simp
    qed
  qed
  from this [of 0] have "distinct (map bi_id (List.map_filter (\<lambda>b. b) os))" by simp
  then show "distinct (map bi_id bs)"
    unfolding bs' by (simp add: distinct_map)
qed

section \<open>The placed buffers\<close>

text \<open>Everything the later passes need to know of the state after the placement loop.\<close>

definition clash_of :: "bool \<Rightarrow> nat \<Rightarrow> nat \<Rightarrow> region \<Rightarrow> bool" where
  "clash_of no_reuse birth death p \<longleftrightarrow> no_reuse \<or> overlaps_time birth death p"

lemma placed_loop_ok:
  assumes g: "plannable g" and bs: "collect_buffers g (2 ^ k) opts width keep r = Ok bs"
    and st: "for_each (place g (2 ^ k) no_reuse) placement_start bs = Ok st"
  shows "placed_ok k (clash_of no_reuse) (guard_of g k) bs st"
proof -
  have "\<forall>b \<in> set bs. bi_id b < graph_len g" using collect_buffers_spec(2) [OF g bs] by blast
  then have st': "st = foldl (\<lambda>st b. put (if no_reuse then tail_choice k else sweep_choice k)
      (guard_of g k b) st b) placement_start bs"
    using st place_loop by simp
  note dist = collect_buffers_spec(1) [OF g bs]
  show ?thesis
  proof (cases no_reuse)
    case True
    have "clash_of True = (\<lambda>birth death p. True)" by (simp add: clash_of_def fun_eq_iff)
    then show ?thesis
      using tail.loop_ok [OF dist, of k "guard_of g k"] unfolding st' by (simp add: True)
  next
    case False
    have "clash_of False = overlaps_time" by (simp add: clash_of_def fun_eq_iff)
    then show ?thesis
      using sweep.loop_ok [OF dist, of k "guard_of g k"] unfolding st' by (simp add: False)
  qed
qed

lemma separated_disjoint:
  assumes "placed_ok k (clash_of no_reuse) guard bs st" and "b \<in> set bs" and "c \<in> set bs"
    and "bi_id b \<noteq> bi_id c"
    and "no_reuse \<or> (bi_birth b \<le> bi_death c \<and> bi_birth c \<le> bi_death b)"
  shows "disjoint_ranges (off_of (pl_assigned st) (bi_id b)) (bi_size b)
    (off_of (pl_assigned st) (bi_id c)) (bi_size c)"
proof -
  have "separated (clash_of no_reuse) guard (pl_assigned st) b c"
    using assms(1-4) unfolding placed_ok_def by blast
  then show ?thesis
    using assms(5)
    by (auto simp: separated_def clash_of_def overlaps_time_def buf_region_def clear_of_def
        disjoint_ranges_def)
qed

section \<open>The in-place safety pass is idle\<close>

lemma slot_bytes_ge:
  "0 < slot_bytes_of g alignment width keep i \<Longrightarrow>
   max (node_slot_bytes (g_nodes g ! i) width (i \<in> keep)) 1 \<le> slot_bytes_of g alignment width keep i"
  by (auto simp: slot_bytes_of_def Let_def split: if_splits)

lemma overlaps_input_False:
  assumes "\<forall>inp \<in> set inps. \<exists>root off. resolve_view_root g inp = Ok (root, off) \<and> root < graph_len g \<and>
    (root = i \<or> slot_of al root = None \<or> (\<exists>rs. slot_of al root = Some rs \<and>
       \<not> (start < slot_offset rs + max (node_slot_bytes (g_nodes g ! root) width (root \<in> keep)) 1 \<and>
          slot_offset rs < stop)))"
  shows "overlaps_input g width keep al i start stop inps = Ok False"
  using assms
proof (induction inps)
  case (Cons inp inps)
  then obtain root off where r: "resolve_view_root g inp = Ok (root, off)" "root < graph_len g"
    "root = i \<or> slot_of al root = None \<or> (\<exists>rs. slot_of al root = Some rs \<and>
       \<not> (start < slot_offset rs + max (node_slot_bytes (g_nodes g ! root) width (root \<in> keep)) 1 \<and>
          slot_offset rs < stop))" by auto
  moreover have "overlaps_input g width keep al i start stop inps = Ok False" using Cons by simp
  ultimately show ?case by (auto simp: Let_def)
qed simp

lemma buffer_times:
  assumes "live_sound g r" and "r i = Some (b, d)" and "i < graph_len g"
  shows "b \<le> i" and "i \<le> d" and "live_to r i s \<Longrightarrow> s \<le> d" and "born_by r i s \<Longrightarrow> b \<le> s"
  using assms by (auto simp: live_sound_def born_by_def live_to_def)

lemma relocate_idle:
  assumes g: "plannable g" and live: "live_sound g r"
    and bs: "collect_buffers g (2 ^ k) opts width keep r = Ok bs"
    and ok: "placed_ok k (clash_of no_reuse) (guard_of g k) bs st" and b: "b \<in> set bs"
  shows "relocate g (2 ^ k) width keep (pl_assigned st, arena) (bi_id b) = Ok (pl_assigned st, arena)"
proof -
  let ?al = "pl_assigned st" and ?i = "bi_id b"
  note spec = collect_buffers_spec(2) [OF g bs]
  have i: "?i < graph_len g" and id: "n_id (g_nodes g ! ?i) = ?i"
    using spec [OF b] plannableD(4) [OF g] by blast+
  have self: "g_nodes g ! ?i = g_nodes g ! n_id (g_nodes g ! ?i)" by (simp add: id)
  note bb = buffer_of_Some [OF conjunct2 [OF spec [OF b]] self, unfolded id]
  have slot: "slot_of ?al ?i = Some \<lparr>slot_offset = off_of ?al ?i, slot_size = bi_size b\<rparr>"
    using ok b unfolding placed_ok_def by blast
  let ?size = "max (node_slot_bytes (g_nodes g ! ?i) width (?i \<in> keep)) 1"
  have size: "?size \<le> bi_size b" using bb slot_bytes_ge [of g "2 ^ k" width keep ?i] by simp
  have "overlaps_input g width keep ?al ?i (off_of ?al ?i) (off_of ?al ?i + ?size)
      (n_inputs (g_nodes g ! ?i)) = Ok False"
  proof (rule overlaps_input_False, intro ballI)
    fix inp assume inp: "inp \<in> set (n_inputs (g_nodes g ! ?i))"
    then have inp_i: "inp < ?i" by (rule plannableD(5) [OF g i])
    then have inp_len: "inp < graph_len g" using i by simp
    let ?root = "owner g inp"
    note own = resolve_owner [OF g inp_len]
    have disj: "?root = ?i \<or> slot_of ?al ?root = None \<or> (\<exists>rs. slot_of ?al ?root = Some rs \<and>
       \<not> (off_of ?al ?i < slot_offset rs +
            max (node_slot_bytes (g_nodes g ! ?root) width (?root \<in> keep)) 1 \<and>
          slot_offset rs < off_of ?al ?i + ?size))"
    proof (cases "?root \<in> bi_id ` set bs")
      case False
      then show ?thesis using ok unfolding placed_ok_def by blast
    next
      case True
      then obtain c where c: "c \<in> set bs" "bi_id c = ?root" by auto
      have cl: "bi_id c < graph_len g" and cid: "n_id (g_nodes g ! bi_id c) = bi_id c"
        using spec [OF c(1)] plannableD(4) [OF g] by blast+
      have cself: "g_nodes g ! bi_id c = g_nodes g ! n_id (g_nodes g ! bi_id c)" by (simp add: cid)
      note cb = buffer_of_Some [OF conjunct2 [OF spec [OF c(1)]] cself, unfolded cid]
      have cslot: "slot_of ?al ?root = Some \<lparr>slot_offset = off_of ?al ?root, slot_size = bi_size c\<rparr>"
        using ok c unfolding placed_ok_def by metis
      have csize: "max (node_slot_bytes (g_nodes g ! ?root) width (?root \<in> keep)) 1 \<le> bi_size c"
        using cb slot_bytes_ge [of g "2 ^ k" width keep "bi_id c"] by (simp add: c(2))
      have rb: "r ?i = Some (bi_birth b, bi_death b)" and rc: "r ?root = Some (bi_birth c, bi_death c)"
        using bb cb c(2) by simp_all
      have "live_to r ?root ?i" using live i inp by (auto simp: live_sound_def)
      then have "?i \<le> bi_death c"
        using buffer_times(3) [OF live rc own(4)] by blast
      moreover have "bi_birth b \<le> ?i" "?i \<le> bi_death b" using buffer_times [OF live rb i] by blast+
      moreover have "bi_birth c \<le> ?root" using buffer_times(1) [OF live rc own(4)] .
      moreover have "?root \<le> ?i" using own(2) inp_i by simp
      ultimately have time: "bi_birth b \<le> bi_death c \<and> bi_birth c \<le> bi_death b" by simp
      have "?root \<noteq> ?i" using own(2) inp_i by simp
      then have "disjoint_ranges (off_of ?al ?i) (bi_size b) (off_of ?al ?root) (bi_size c)"
        using separated_disjoint [OF ok b c(1)] time by (simp add: c(2))
      then show ?thesis using cslot csize size by (auto simp: disjoint_ranges_def)
    qed
    show "\<exists>root off. resolve_view_root g inp = Ok (root, off) \<and> root < graph_len g \<and>
       (root = ?i \<or> slot_of ?al root = None \<or> (\<exists>rs. slot_of ?al root = Some rs \<and>
       \<not> (off_of ?al ?i < slot_offset rs +
            max (node_slot_bytes (g_nodes g ! root) width (root \<in> keep)) 1 \<and>
          slot_offset rs < off_of ?al ?i + ?size)))"
      using own(1,4) disj by blast
  qed
  then show ?thesis using i id slot by (simp add: relocate_def Let_def)
qed

lemma safety_pass_noop:
  assumes "plannable g" and "plan_ranges env g opts = Ok r"
    and "collect_buffers g (2 ^ k) opts width keep r = Ok bs"
    and "for_each (place g (2 ^ k) no_reuse) placement_start bs = Ok st"
  shows "for_each (relocate g (2 ^ k) width keep) (pl_assigned st, pl_arena st) (map bi_id bs) =
    Ok (pl_assigned st, pl_arena st)"
proof -
  have live: "live_sound g r" using plan_ranges_live [OF assms(1,2)] by blast
  note ok = placed_loop_ok [OF assms(1,3,4)]
  have fe: "for_each f s xs = Ok s" if "\<forall>x \<in> set xs. f s x = Ok s"
    for f :: "assignments \<times> nat \<Rightarrow> nat \<Rightarrow> (assignments \<times> nat) planned" and s xs
    using that by (induction xs) auto
  show ?thesis
    by (rule fe) (use relocate_idle [OF assms(1) live assms(3) ok] in auto)
qed

text \<open>The in-place safety pass never relocates a buffer: with ranges the planner computes,
  no output overlaps an operand's buffer after the placement loop, whatever the options.\<close>

theorem safety_pass_idle:
  assumes "plannable g" and "plan_ranges env g opts = Ok r"
    and "collect_buffers g (2 ^ k) opts width keep r = Ok bs"
    and "for_each (place g (2 ^ k) no_reuse) placement_start bs = Ok st"
  shows "for_each (relocate g (2 ^ k) width keep) (pl_assigned st, pl_arena st) (map bi_id bs) =
    Ok (pl_assigned st, pl_arena st)"
  using assms by (rule safety_pass_noop)

section \<open>View slots\<close>

definition is_view :: "graph \<Rightarrow> node_id \<Rightarrow> bool" where
  "is_view g i \<longleftrightarrow> i < graph_len g \<and> pure_view_offset g (g_nodes g ! i) \<noteq> Ok None"

text \<open>A view's slot lies in its owner's, when that has one.\<close>

definition view_slot ::
  "graph \<Rightarrow> arena_width \<Rightarrow> node_id set \<Rightarrow> assignments \<Rightarrow> node_id \<Rightarrow> buffer_slot option" where
  "view_slot g width keep al i =
     (case slot_of al (owner g i) of
        None \<Rightarrow> slot_of al i
      | Some rs \<Rightarrow> Some \<lparr>slot_offset = slot_offset rs + owner_offset g i,
                       slot_size = node_slot_bytes (g_nodes g ! i) width (i \<in> keep)\<rparr>)"

lemma owner_not_view: "plannable g \<Longrightarrow> i < graph_len g \<Longrightarrow> \<not> is_view g (owner g i)"
  using resolve_owner by (simp add: is_view_def)

lemma alias_views:
  assumes g: "plannable g" and al: "for_each (alias_view g width keep) al0 (g_nodes g) = Ok al"
  shows "slot_of al i = (if is_view g i then view_slot g width keep al0 i else slot_of al0 i)"
proof -
  let ?P = "\<lambda>k al. \<forall>i. slot_of al i =
    (if is_view g i \<and> i < k then view_slot g width keep al0 i else slot_of al0 i)"
  have "?P (length (g_nodes g)) al"
  proof (rule for_each_prefix [OF al, where P = ?P])
    fix k al1 al2
    assume k: "k < length (g_nodes g)" and IH: "?P k al1"
      and step: "alias_view g width keep al1 (g_nodes g ! k) = Ok al2"
    then have kl: "k < graph_len g" by (simp add: graph_len_def)
    have id: "n_id (g_nodes g ! k) = k" by (rule plannableD(4) [OF g kl])
    obtain v where v: "pure_view_offset g (g_nodes g ! k) = Ok v"
      using plannableD(3) [OF g kl] by (auto simp: returns_def)
    show "?P (Suc k) al2"
    proof (cases v)
      case None
      then have "\<not> is_view g k" using v by (simp add: is_view_def)
      moreover have "al2 = al1" using step v None by (simp add: alias_view_def)
      ultimately show ?thesis using IH by (auto simp: less_Suc_eq)
    next
      case (Some w)
      then have view: "is_view g k" using v kl by (simp add: is_view_def)
      have own: "slot_of al1 (owner g k) = slot_of al0 (owner g k)"
        using IH owner_not_view [OF g kl] by simp
      have here: "slot_of al1 k = slot_of al0 k" using IH by simp
      have "al2 = (case slot_of al1 (owner g k) of None \<Rightarrow> al1
          | Some rs \<Rightarrow> assign al1 k (slot_offset rs + owner_offset g k)
              (node_slot_bytes (g_nodes g ! k) width (k \<in> keep)))"
        using step v Some resolve_owner(1) [OF g kl] unfolding alias_view_def id by simp
      then have "slot_of al2 i = (if i = k then view_slot g width keep al0 k else slot_of al1 i)" for i
        using own here by (auto simp: view_slot_def split: option.splits)
      then show ?thesis using IH view by (auto simp: less_Suc_eq)
    qed
  qed simp
  then show ?thesis by (auto simp: is_view_def graph_len_def)
qed

section \<open>Plans\<close>

text \<open>The intermediate results of a plan: ranges, reuse mode, native nodes, buffers, placement.\<close>

definition plan_made ::
  "plan_env \<Rightarrow> graph \<Rightarrow> nat \<Rightarrow> mem_options \<Rightarrow> arena_width \<Rightarrow> memory_plan \<Rightarrow> ranges \<Rightarrow> bool \<Rightarrow>
   node_id set \<Rightarrow> buf_info list \<Rightarrow> placement \<Rightarrow> bool" where
  "plan_made env g k opts width p r no_reuse keep bs st \<longleftrightarrow>
     plan_ranges env g opts = Ok r \<and> bounded (graph_len g) r \<and> live_sound g r \<and>
     native_width_nodes g width = Ok keep \<and>
     collect_buffers g (2 ^ k) opts width keep r = Ok bs \<and>
     placed_ok k (clash_of no_reuse) (guard_of g k) bs st \<and>
     (arena_no_reuse opts \<longrightarrow> no_reuse) \<and>
     plan_arena_size p = pl_arena st \<and> plan_schedule p = topo_order g \<and>
     (\<forall>i. slot_of (plan_assignments p) i =
        (if is_view g i then view_slot g width keep (pl_assigned st) i
         else slot_of (pl_assigned st) i))"

lemma plan_madeD:
  assumes "plan_made env g k opts width p r no_reuse keep bs st"
  shows "plan_ranges env g opts = Ok r" and "bounded (graph_len g) r" and "live_sound g r"
    and "native_width_nodes g width = Ok keep"
    and "collect_buffers g (2 ^ k) opts width keep r = Ok bs"
    and "placed_ok k (clash_of no_reuse) (guard_of g k) bs st"
    and "arena_no_reuse opts \<Longrightarrow> no_reuse"
    and "plan_arena_size p = pl_arena st" and "plan_schedule p = topo_order g"
    and "slot_of (plan_assignments p) i =
        (if is_view g i then view_slot g width keep (pl_assigned st) i
         else slot_of (pl_assigned st) i)"
  using assms unfolding plan_made_def by blast+

lemma plan_parts:
  assumes g: "plannable g" and p: "plan_memory_aligned_inner env g (2 ^ k) opts None width = Ok p"
  shows "\<exists>r no_reuse keep bs st. plan_made env g k opts width p r no_reuse keep bs st"
proof -
  obtain r exports keep bs st al arena al1 where
    r: "plan_ranges env g opts = Ok r"
    and keep: "native_width_nodes g width = Ok keep"
    and bs: "collect_buffers g (2 ^ k) opts width keep r = Ok bs"
    and st: "for_each (place g (2 ^ k) (exports \<or> arena_no_reuse opts)) placement_start bs = Ok st"
    and reloc: "(if exports \<or> arena_no_reuse opts then Ok (pl_assigned st, pl_arena st)
        else for_each (relocate g (2 ^ k) width keep) (pl_assigned st, pl_arena st)
               (map bi_id bs)) = Ok (al, arena)"
    and al1: "for_each (alias_view g width keep) al (g_nodes g) = Ok al1"
    and p': "p = \<lparr>plan_arena_size = arena, plan_assignments = al1, plan_schedule = topo_order g\<rparr>"
    using p by (auto simp: plan_memory_aligned_inner_def Let_def outcome_simps split: prod.splits)
  have "for_each (relocate g (2 ^ k) width keep) (pl_assigned st, pl_arena st) (map bi_id bs) =
      Ok (pl_assigned st, pl_arena st)"
    by (rule safety_pass_noop [OF g r bs st])
  then have al: "al = pl_assigned st" "arena = pl_arena st"
    using reloc by (auto split: if_splits)
  have "plan_made env g k opts width p r (exports \<or> arena_no_reuse opts) keep bs st"
    unfolding plan_made_def
    using r keep bs placed_loop_ok [OF g bs st] plan_ranges_live [OF g r] alias_views [OF g al1]
    by (simp add: p' al)
  then show ?thesis by blast
qed

end
