(* ===== verification/PlanTotal.thy ===== *)
theory PlanTotal
  imports PlanLaws
begin

text \<open>
  The planner returns a plan: on an appended graph with static shapes, whose operators have
  the operands they read, no step of the planner panics and every loop ends.
\<close>

section \<open>Graphs ready for planning\<close>

fun needs_operand :: "op \<Rightarrow> bool" where
  "needs_operand (Reshape _) = True"
| "needs_operand (KvAppend _ _) = True"
| "needs_operand (DynamicUpdateSlice _) = True"
| "needs_operand (Cast _) = True"
| "needs_operand (Narrow _ _ _) = True"
| "needs_operand (Transpose _) = True"
| "needs_operand (Expand _) = True"
| "needs_operand (Conv3d _ _ _ _) = True"
| "needs_operand (FusedConvBiasAct _ _ _ _ _ _ _) = True"
| "needs_operand _ = False"

fun axis_fits :: "op \<Rightarrow> nat \<Rightarrow> bool" where
  "axis_fits (Narrow axis _ _) rk = (axis \<le> rk)"
| "axis_fits _ rk = True"

definition node_ready :: "graph \<Rightarrow> node \<Rightarrow> bool" where
  "node_ready g n \<longleftrightarrow>
     shape_is_static (n_shape n) \<and>
     (needs_operand (n_op n) \<longrightarrow> n_inputs n \<noteq> [] \<and>
        axis_fits (n_op n) (rank (n_shape (g_nodes g ! (n_inputs n ! 0))))) \<and>
     (n_op n = GroupedMatMul \<longrightarrow> 0 < rank (n_shape n))"

definition plan_ready :: "graph \<Rightarrow> bool" where
  "plan_ready g \<longleftrightarrow> wf_graph g \<and> (\<forall>n \<in> set (g_nodes g). node_ready g n)"

lemma plan_readyD:
  assumes "plan_ready g" and "i < graph_len g"
  shows "wf_graph g" and "shape_is_static (n_shape (g_nodes g ! i))"
    and "needs_operand (n_op (g_nodes g ! i)) \<Longrightarrow> n_inputs (g_nodes g ! i) \<noteq> []"
    and "needs_operand (n_op (g_nodes g ! i)) \<Longrightarrow> axis_fits (n_op (g_nodes g ! i))
      (rank (n_shape (g_nodes g ! (n_inputs (g_nodes g ! i) ! 0))))"
    and "n_op (g_nodes g ! i) = GroupedMatMul \<Longrightarrow> 0 < rank (n_shape (g_nodes g ! i))"
    and "j \<in> set (n_inputs (g_nodes g ! i)) \<Longrightarrow> j < i"
  using assms wf_nodesD(2) [of "g_nodes g" i j]
  by (auto simp: plan_ready_def node_ready_def wf_graph_def graph_len_def)

lemma static_at_returns:
  "shape_is_static s \<Longrightarrow> i < rank s \<Longrightarrow> returns (unwrap_res (static_at s i))"
  by (cases "dims s ! i")
    (auto simp: static_at_def dim_at_def rank_def shape_is_static_def list_all_length)

lemma node_of_returns: "i < graph_len g \<Longrightarrow> returns (node_of g i)"
  by simp

lemma index_returns: "i < length xs \<Longrightarrow> returns (index_or_panic xs i)"
  by simp

lemma ready_view_returns:
  assumes g: "plan_ready g" and i: "i < graph_len g"
  shows "returns (pure_view_offset g (g_nodes g ! i))"
proof -
  let ?n = "g_nodes g ! i"
  note rd = plan_readyD [OF g i]
  have p: "n_inputs ?n ! 0 < graph_len g" if "n_inputs ?n \<noteq> []"
    using rd(6) [of "n_inputs ?n ! 0"] that i by (simp add: order_less_trans)
  show ?thesis
  proof (cases "needs_operand (n_op ?n)")
    case False
    then show ?thesis by (auto simp: pure_view_offset_def split: op.splits)
  next
    case True
    have ne: "n_inputs ?n \<noteq> []" by (rule rd(3) [OF True])
    note static = plan_readyD(2) [OF g p [OF ne]]
    have "returns (bind_outcome (traverse (\<lambda>i. unwrap_res
        (static_at (n_shape (g_nodes g ! (n_inputs ?n ! 0))) i))
        [Suc axis ..< rank (n_shape (g_nodes g ! (n_inputs ?n ! 0)))]) (\<lambda>inner. Ok (h inner)))" for axis h
      by (intro returning static_at_returns [OF static]) simp
    then show ?thesis
      using True ne p [OF ne] rd(4) [OF True]
      by (auto simp: pure_view_offset_def split: op.splits)
  qed
qed

lemma ready_plannable: "plan_ready g \<Longrightarrow> plannable g"
  using ready_view_returns
  by (auto simp: plannable_def plan_ready_def in_set_conv_nth graph_len_def)

section \<open>Ranges\<close>

lemma resolve_returns: "plannable g \<Longrightarrow> i < graph_len g \<Longrightarrow> returns (resolve_view_root g i)"
  using resolve_owner(1) by simp

lemma read_at_returns: "plannable g \<Longrightarrow> i < graph_len g \<Longrightarrow> returns (read_at g s r i)"
  using resolve_owner(1) by (simp add: read_at_def Let_def)

lemma pin_at_returns: "plannable g \<Longrightarrow> i < graph_len g \<Longrightarrow> returns (pin_at g s r i)"
  using resolve_owner(1) by (simp add: pin_at_def Let_def)

lemma folds_into_matmul_returns:
  assumes "wf_nodes (g_nodes g)" and "mm \<in> set (g_nodes g)"
  shows "returns (folds_into_matmul g mm)"
proof -
  have ins: "j < graph_len g" if "j \<in> set (n_inputs mm)" for j
    using wf_nodes_member(3) [OF assms that] by (simp add: graph_len_def)
  have "n_inputs mm ! 0 < graph_len g \<and> n_inputs mm ! 1 < graph_len g" if "2 \<le> length (n_inputs mm)"
  proof -
    have l: "0 < length (n_inputs mm)" "1 < length (n_inputs mm)" using that by linarith+
    show ?thesis using ins [OF nth_mem [OF l(1)]] ins [OF nth_mem [OF l(2)]] by blast
  qed
  then show ?thesis by (auto simp: folds_into_matmul_def)
qed

lemma matmul_transpose_returns:
  assumes "wf_nodes (g_nodes g)"
  shows "returns (is_elidable_matmul_transpose g n)"
proof -
  have "returns (folds_into_matmul g mm)"
    if "sole_reader_scan i None (input_slots g) = Some (Some mm)" for mm i
  proof -
    have "\<exists>s \<in> set (input_slots g). mm = fst s"
      using that filter_set [of "\<lambda>s. snd s = i" "input_slots g"]
      by (auto simp: sole_reader_scan_filter split: list.splits)
        (metis filter_eq_ConsD fst_conv in_set_conv_decomp)
    then have "mm \<in> set (g_nodes g)" by (auto simp: input_slots_def)
    then show ?thesis by (rule folds_into_matmul_returns [OF assms])
  qed
  then show ?thesis by (auto simp: is_elidable_matmul_transpose_def split: option.splits)
qed

lemma folded_transpose_returns:
  assumes "wf_nodes (g_nodes g)"
  shows "returns (is_elidable_folded_transpose g n)"
proof -
  have "returns (is_elidable_bank_transpose_gated g n False)"
    by (simp add: is_elidable_bank_transpose_gated_def Let_def)
  then show ?thesis
    using matmul_transpose_returns [OF assms]
    unfolding is_elidable_folded_transpose_def is_elidable_folded_transpose_gated_def
    by (intro returning) auto
qed

lemma live_input_returns:
  assumes g: "plan_ready g" and i: "i < graph_len g"
  shows "returns (live_input g s r i)"
  unfolding live_input_def
proof (intro returning)
  note pg = ready_plannable [OF g]
  have wf: "wf_nodes (g_nodes g)" using plannableD(2) [OF pg] .
  show "returns (read_at g s r i)" by (rule read_at_returns [OF pg i])
  show "returns (node_of g i)" using i by simp
  fix r1 src folded
  assume src: "node_of g i = Ok src"
  show "returns (is_elidable_folded_transpose g src)" by (rule folded_transpose_returns [OF wf])
  assume f: "is_elidable_folded_transpose g src = Ok folded" "folded"
  have src': "src = g_nodes g ! i" using src by (simp add: node_of_Ok)
  have "\<exists>p. n_op src = Transpose p"
    using f by (auto simp: is_elidable_folded_transpose_def is_elidable_folded_transpose_gated_def
        is_elidable_bank_transpose_gated_def is_elidable_matmul_transpose_def
        is_matmul_fold_transpose_def outcome_simps split: if_splits)
  then have ne: "n_inputs src \<noteq> []" using plan_readyD(3) [OF g i] src' by auto
  then show "returns (index_or_panic (n_inputs src) 0)" by simp
  fix j assume "index_or_panic (n_inputs src) 0 = Ok j"
  then have "j \<in> set (n_inputs (g_nodes g ! i))" using ne src' by (auto simp: outcome_simps)
  then have "j < graph_len g" using plan_readyD(6) [OF g i] i by fastforce
  then show "returns (read_at g s r1 j)" by (rule read_at_returns [OF pg])
qed

lemma pin_walk_returns:
  "plannable g \<Longrightarrow> \<forall>i \<in> set stack. i < graph_len g \<Longrightarrow> returns (pin_walk g fin up seen stack r)"
proof (induction g fin up seen stack r rule: pin_walk.induct)
  case (2 g fin up seen i stack r)
  show ?case
  proof (cases "i \<in> seen")
    case True
    then show ?thesis using 2(1) 2(3,4) by simp
  next
    case False
    have i: "i < graph_len g" using 2(4) by simp
    then have n: "node_of g i = Ok (g_nodes g ! i)" by simp
    obtain r1 where r1: "pin_at g fin r i = Ok r1"
      using pin_at_returns [OF 2(3) i] by (auto simp: returns_def)
    have "\<forall>j \<in> set (n_inputs (g_nodes g ! i)). j < graph_len g"
      using plannableD(5) [OF 2(3) i] i by fastforce
    then have "returns (pin_walk g fin up (insert i seen)
        ((if up then rev (n_inputs (g_nodes g ! i)) else []) @ stack) r1)"
      using 2(2) [OF False n r1 2(3)] 2(4) by (auto simp: ball_Un split: if_splits)
    then show ?thesis using False n r1 by simp
  qed
qed simp

lemma node_id_less: "plannable g \<Longrightarrow> n \<in> set (g_nodes g) \<Longrightarrow> n_id n < graph_len g"
  using wf_nodes_member(1) [OF plannableD(2)] by (simp add: graph_len_def)

lemma node_inputs_less: "plannable g \<Longrightarrow> n \<in> set (g_nodes g) \<Longrightarrow> j \<in> set (n_inputs n) \<Longrightarrow> j < graph_len g"
  using wf_nodes_member(3) [OF plannableD(2)] by (simp add: graph_len_def)

lemma output_less: "plannable g \<Longrightarrow> i \<in> set (g_outputs g) \<Longrightarrow> i < graph_len g"
  by (auto dest: plannableD(1) simp: wf_graph_def)

lemma chain_returns: "plannable g \<Longrightarrow> i < graph_len g \<Longrightarrow> returns (extend_node_chain g fin r i)"
  unfolding extend_node_chain_def by (rule pin_walk_returns) simp_all

lemma pin_views_returns:
  "plannable g \<Longrightarrow> i < graph_len g \<Longrightarrow> i < k \<Longrightarrow> returns (pin_views g k fin r i)"
proof (induction k arbitrary: i r)
  case (Suc k)
  obtain v where v: "pure_view_offset g (g_nodes g ! i) = Ok v"
    using plannableD(3) [OF Suc.prems(1,2)] by (auto simp: returns_def)
  show ?case
  proof (cases v)
    case None
    then show ?thesis using v Suc.prems by simp
  next
    case (Some w)
    obtain p d where w: "w = (p, d)" by (cases w)
    then have "p < i" using owner_of_view(3) [OF Suc.prems(1,2)] v Some by simp
    then have "returns (pin_views g k fin (pin_death r i fin) p)"
      using Suc.prems by (intro Suc.IH) simp_all
    then show ?thesis using v Some w Suc.prems by simp
  qed
qed simp

lemma view_chain_returns: "plannable g \<Longrightarrow> i < graph_len g \<Longrightarrow> returns (extend_view_chain g fin r i)"
  unfolding extend_view_chain_def by (rule pin_views_returns) simp_all

lemma base_ranges_return:
  assumes g: "plan_ready g"
  shows "returns (compute_live_ranges_opts g pin)"
proof -
  note pg = ready_plannable [OF g]
  have "returns (live_node g r sn)" if sn: "sn \<in> set (enumerate 0 (g_nodes g))" for r sn
  proof -
    obtain s n where "sn = (s, n)" by (cases sn)
    then have "n \<in> set (g_nodes g)" using sn by (auto simp: nth_enumerate)
    then have "\<forall>i \<in> set (n_inputs n). i < graph_len g" using node_inputs_less [OF pg] by blast
    then show ?thesis
      unfolding \<open>sn = (s, n)\<close> live_node_def prod.case
      by (intro returns_for_each live_input_returns [OF g]) blast
  qed
  moreover have "returns (pin_at g (graph_len g) r i)" if "i \<in> set (g_outputs g)" for r i
    using pin_at_returns [OF pg output_less [OF pg that]] .
  moreover have "returns (pin_walk g (graph_len g) pin {} (rev (g_outputs g)) r)" for r
    by (rule pin_walk_returns [OF pg]) (use output_less [OF pg] in auto)
  ultimately show ?thesis
    unfolding compute_live_ranges_opts_def Let_def by (intro returning) auto
qed

lemma narrow_on_axis_2_returns:
  "plannable g \<Longrightarrow> i < graph_len g \<Longrightarrow> i < k \<Longrightarrow>
   \<exists>v. narrow_on_axis_2 g k i = Ok v \<and> (\<forall>p s l c. v = Some (p, s, l, c) \<longrightarrow> p < graph_len g)"
proof (induction k arbitrary: i)
  case (Suc k)
  have ins: "p < i" if "n_inputs (g_nodes g ! i) = p # ps" for p ps
    using plannableD(5) [OF Suc.prems(1,2)] that by simp
  have IH: "\<exists>v. narrow_on_axis_2 g k p = Ok v \<and> (\<forall>p s l c. v = Some (p, s, l, c) \<longrightarrow> p < graph_len g)"
    if "n_inputs (g_nodes g ! i) = p # ps" for p ps
    using ins [OF that] Suc.prems by (intro Suc.IH) simp_all
  have len: "p < graph_len g" if "n_inputs (g_nodes g ! i) = p # ps" for p ps
    using ins [OF that] Suc.prems(2) by simp
  show ?case
    using Suc.prems(2) IH len by (auto split: op.splits list.splits)
qed simp

lemma detect_returns:
  assumes g: "plan_ready g" and "q < graph_len g" "k < graph_len g" "v < graph_len g"
  shows "\<exists>w. detect_packed_bshd_qkv_attention g q k v = Ok w \<and>
    (\<forall>p rest. w = Some (p, rest) \<longrightarrow> p < graph_len g)"
proof -
  note pg = ready_plannable [OF g]
  let ?find = "narrow_on_axis_2 g (Suc (graph_len g))"
  have find: "\<exists>v. ?find i = Ok v \<and> (\<forall>p s l c. v = Some (p, s, l, c) \<longrightarrow> p < graph_len g)"
    if "i < graph_len g" for i
    by (rule narrow_on_axis_2_returns [OF pg that]) (use that in simp)
  obtain fq fk fv where f: "?find q = Ok fq" "?find k = Ok fk" "?find v = Ok fv"
    and p: "\<And>p s l c. fq = Some (p, s, l, c) \<Longrightarrow> p < graph_len g"
    using find [OF assms(2)] find [OF assms(3)] find [OF assms(4)] by blast
  have dims: "returns (unwrap_res (static_at (n_shape (g_nodes g ! p)) i))"
    if "p < graph_len g" "rank (n_shape (g_nodes g ! p)) = 5" "i < 5" for p i
    using static_at_returns plan_readyD(2) [OF g that(1)] that(2,3) by simp
  show ?thesis
  proof (cases fq)
    case None
    then show ?thesis using f by (simp add: detect_packed_bshd_qkv_attention_def bind_some_def)
  next
    case (Some t)
    obtain p s l c where t: "t = (p, s, l, c)" by (cases t) auto
    have pl: "p < graph_len g" using p Some t by blast
    show ?thesis
      using f Some t pl dims [OF pl, of 2] dims [OF pl, of 3] dims [OF pl, of 4]
      by (auto simp: detect_packed_bshd_qkv_attention_def bind_some_def returns_def
          split: option.splits)
  qed
qed

lemma qkv_returns:
  assumes g: "plan_ready g"
  shows "returns (extend_packed_qkv_parent_liveness g r)"
  unfolding extend_packed_qkv_parent_liveness_def
proof (rule returns_for_each)
  note pg = ready_plannable [OF g]
  fix r sn assume mem: "sn \<in> set (enumerate 0 (g_nodes g))"
  obtain s n where sn: "sn = (s, n)" by (cases sn)
  then have n: "n \<in> set (g_nodes g)" using mem by (simp add: nth_enumerate)
  have ins: "n_inputs n ! i < graph_len g" if "i < length (n_inputs n)" for i
    using node_inputs_less [OF pg n] that by simp
  show "returns (qkv_step g r sn)"
  proof (cases "\<not> is_attention (n_op n) \<or> length (n_inputs n) < 3")
    case True
    then show ?thesis by (simp add: qkv_step_def sn)
  next
    case False
    then have l: "3 \<le> length (n_inputs n)" by simp
    have "n_inputs n ! 0 < graph_len g" "n_inputs n ! 1 < graph_len g" "n_inputs n ! 2 < graph_len g"
      by (rule ins, use l in linarith)+
    then obtain w where "detect_packed_bshd_qkv_attention g (n_inputs n ! 0) (n_inputs n ! 1)
        (n_inputs n ! 2) = Ok w" "\<And>p rest. w = Some (p, rest) \<Longrightarrow> p < graph_len g"
      using detect_returns [OF g, of "n_inputs n ! 0" "n_inputs n ! 1" "n_inputs n ! 2"] by blast
    then show ?thesis
      using False read_at_returns [OF pg] by (auto simp: qkv_step_def sn split: option.splits)
  qed
qed

lemma pin_selected_returns:
  assumes pg: "plannable g"
  shows "returns (pin_selected env g r)"
proof -
  have "returns (filter_step g specs st n)" if n: "n \<in> set (g_nodes g)" for specs st n
    unfolding filter_step_def Let_def
    by (cases st) (auto split: option.splits
        intro!: returning chain_returns [OF pg] node_inputs_less [OF pg n] node_id_less [OF pg n])
  then have "returns (for_each (filter_step g specs) st (g_nodes g))" for specs st
    by (rule returns_for_each)
  then show ?thesis
    by (auto simp: pin_selected_def split: option.splits intro!: returns_bind)
qed

lemma custom_returns:
  assumes pg: "plannable g"
  shows "returns (extend_custom_op_input_liveness env g fb r)"
proof -
  have c: "returns (custom_step g r n)" if n: "n \<in> set (g_nodes g)" for r n
  proof -
    have "returns (for_each (extend_node_chain g (graph_len g)) r (take m (n_inputs n)))" for m
      by (intro returns_for_each chain_returns [OF pg]) (metis in_set_takeD node_inputs_less [OF pg n])
    then show ?thesis by (simp add: custom_step_def split: op.splits)
  qed
  have h: "returns (host_step g r n)" if n: "n \<in> set (g_nodes g)" for r n
    unfolding host_step_def
    by (intro returning view_chain_returns [OF pg])
      (use node_inputs_less [OF pg n] node_id_less [OF pg n] in auto)
  have d: "returns (dequant_step g r n)" if n: "n \<in> set (g_nodes g)" for r n
    using view_chain_returns [OF pg] node_inputs_less [OF pg n]
    by (auto simp: dequant_step_def split: list.splits)
  show ?thesis
    unfolding extend_custom_op_input_liveness_def
    by (intro returning c h d pin_selected_returns [OF pg])
qed

lemma bert_returns:
  assumes pg: "plannable g"
  shows "returns (extend_bert_hidden_liveness g r)"
proof -
  have "returns (bert_step g r n)" if n: "n \<in> set (g_nodes g)" for r n
  proof -
    have "returns (for_each (extend_node_chain g (graph_len g)) r xs)" if "set xs \<subseteq> set (n_inputs n)" for xs
      by (intro returns_for_each chain_returns [OF pg]) (use that node_inputs_less [OF pg n] in blast)
    from this [of "n_inputs n"] this [of "take (Suc 0) (n_inputs n)"] show ?thesis
      by (auto simp: bert_step_def Let_def set_take_subset split: op.splits intro!: returns_bind)
  qed
  then show ?thesis
    unfolding extend_bert_hidden_liveness_def by (intro returning)
qed

lemma any_i64_returns: "\<forall>i \<in> set is. i < graph_len g \<Longrightarrow> returns (any_i64 g is)"
  by (induction "is") auto

lemma duration_exports_returns: "plannable g \<Longrightarrow> returns (graph_exports_onnx_duration g)"
  unfolding graph_exports_onnx_duration_def by (rule any_i64_returns) (simp add: output_less)

lemma duration_returns:
  assumes pg: "plannable g"
  shows "returns (extend_onnx_duration_epilogue_liveness g r)"
proof -
  have "returns (duration_step g r n)" if n: "n \<in> set (g_nodes g)" for r n
    unfolding duration_step_def
    by (intro returning chain_returns [OF pg] node_id_less [OF pg n])
  then show ?thesis
    unfolding extend_onnx_duration_epilogue_liveness_def
    by (intro returning duration_exports_returns [OF pg] chain_returns [OF pg] output_less [OF pg])
qed

lemma static_returns:
  assumes pg: "plannable g"
  shows "returns (extend_static_weight_pack_liveness g r)"
proof -
  have "\<exists>st. for_each (static_step g) (r, Map.empty) (g_nodes g) = Ok st \<and> memo_sound g (snd st)"
  proof (rule returns_for_each_invariant [where P = "\<lambda>st. memo_sound g (snd st)"])
    fix st :: "ranges \<times> memo" and n assume n: "n \<in> set (g_nodes g)" and st: "memo_sound g (snd st)"
    obtain r1 memo where "st = (r1, memo)" by (cases st)
    moreover obtain memo1 where "is_static_weight_tensor g (n_id n) memo = Ok (static_weight g (n_id n), memo1)"
        "memo_sound g memo1"
      using static_walk_memo [OF plannableD(1) [OF pg], of memo "n_id n"] node_id_less [OF pg n] st
        \<open>st = (r1, memo)\<close> by auto
    ultimately show "\<exists>t. static_step g st n = Ok t \<and> memo_sound g (snd t)"
      by (auto simp: static_step_def)
  qed simp
  then show ?thesis by (auto simp: extend_static_weight_pack_liveness_def)
qed

lemma conv3d_returns:
  assumes g: "plan_ready g"
  shows "returns (extend_conv3d_epilogue_fold_liveness g r)"
proof -
  note pg = ready_plannable [OF g]
  have conv: "returns (is_conv3d g i)" if "i < graph_len g" for i using that by (simp add: is_conv3d_def)
  have const: "returns (scalar_const g i)" if "i < graph_len g" for i
    using that by (simp add: scalar_const_def)
  have leaky: "returns (leaky_operands g c m)" if "c < graph_len g" "m < graph_len g" for c m
  proof -
    let ?mn = "g_nodes g ! m"
    have "n_inputs ?mn ! i < graph_len g" if "length (n_inputs ?mn) = 2" "i < 2" for i
      using plannableD(5) [OF pg \<open>m < graph_len g\<close>, of "n_inputs ?mn ! i"] \<open>m < graph_len g\<close> that
      by simp
    from this [of 0] this [of 1] show ?thesis
      using that conv [OF that(1)] const
      unfolding leaky_operands_def Let_def by (intro returning) auto
  qed
  have absorb: "returns (absorb_leaky g out n)" if n: "n \<in> set (g_nodes g)" for out n
  proof -
    have "n_inputs n ! i < graph_len g" if "length (n_inputs n) = 2" "i < 2" for i
      using node_inputs_less [OF pg n] that by simp
    from this [of 0] this [of 1] show ?thesis
      unfolding absorb_leaky_def Let_def by (intro returning leaky) auto
  qed
  have operand: "\<exists>p. (index_or_panic (n_inputs (g_nodes g ! i)) 0 :: node_id planned) = Ok p \<and> p < graph_len g"
    if i: "i < graph_len g" and nd: "needs_operand (n_op (g_nodes g ! i))" for i
  proof -
    have ne: "n_inputs (g_nodes g ! i) \<noteq> []" by (rule plan_readyD(3) [OF g i nd])
    then have "n_inputs (g_nodes g ! i) ! 0 < i" using plannableD(5) [OF pg i] by simp
    then show ?thesis using ne i by simp
  qed
  have ups: "\<exists>v. upsample_source g a = Ok v" if al: "a < graph_len g" for a
  proof (cases "\<exists>t. n_op (g_nodes g ! a) = Reshape t")
    case True
    then obtain t where t: "n_op (g_nodes g ! a) = Reshape t" by blast
    obtain e where e: "(index_or_panic (n_inputs (g_nodes g ! a)) 0 :: node_id planned) = Ok e" "e < graph_len g"
      using operand [OF al] t by auto
    show ?thesis
    proof (cases "\<exists>t. n_op (g_nodes g ! e) = Expand t")
      case True
      then obtain t' where t': "n_op (g_nodes g ! e) = Expand t'" by blast
      obtain b where b: "(index_or_panic (n_inputs (g_nodes g ! e)) 0 :: node_id planned) = Ok b" "b < graph_len g"
        using operand [OF e(2)] t' by auto
      have "\<exists>v. (case n_op (g_nodes g ! b) of
          Reshape _ \<Rightarrow> bind_outcome (index_or_panic (n_inputs (g_nodes g ! b)) 0) (\<lambda>s. Ok (Some s))
        | _ \<Rightarrow> Ok None) = (Ok v :: node_id option planned)"
      proof (cases "needs_operand (n_op (g_nodes g ! b))")
        case True
        then obtain s where "(index_or_panic (n_inputs (g_nodes g ! b)) 0 :: node_id planned) = Ok s"
          using operand [OF b(2)] by blast
        then show ?thesis by (cases "n_op (g_nodes g ! b)") simp_all
      next
        case False
        then show ?thesis by (cases "n_op (g_nodes g ! b)") simp_all
      qed
      then show ?thesis using b e al by (simp add: upsample_source_def t t')
    next
      case False
      then show ?thesis using al t e by (auto simp: upsample_source_def split: op.splits)
    qed
  next
    case False
    then show ?thesis using al by (auto simp: upsample_source_def split: op.splits)
  qed
  have rt: "returns (read_through_concat g out n)" if n: "n \<in> set (g_nodes g)" for out n
  proof -
    have id: "n_id n < graph_len g" "g_nodes g ! n_id n = n"
      using node_id_less [OF pg n] wf_nodes_member(2) [OF plannableD(2) [OF pg] n] by simp_all
    show ?thesis
    proof (cases "is_conv3d g (n_id n) = Ok True")
      case False
      then show ?thesis
        using conv [OF id(1)] by (auto simp: read_through_concat_def returns_def)
    next
      case True
      then have "needs_operand (n_op n)"
        using id by (auto simp: is_conv3d_def split: op.splits)
      then obtain c where c: "(index_or_panic (n_inputs n) 0 :: node_id planned) = Ok c" "c < graph_len g"
        using operand [OF id(1)] id(2) by auto
      have "returns (upsample_source g (n_inputs (g_nodes g ! c) ! 0))"
        if "length (n_inputs (g_nodes g ! c)) = 2"
      proof -
        have "n_inputs (g_nodes g ! c) ! 0 < c"
          by (rule plannableD(5) [OF pg c(2)], rule nth_mem) (simp add: that)
        then show ?thesis using ups [of "n_inputs (g_nodes g ! c) ! 0"] c(2) by (auto simp: returns_def)
      qed
      then show ?thesis
        using True c by (auto simp: read_through_concat_def Let_def intro!: returns_bind)
    qed
  qed
  have "returns (conv3d_epilogue_folds g)"
    unfolding conv3d_epilogue_folds_def by (intro returning absorb rt)
  moreover have "returns (read_through_step g m r i)" if "i < graph_len g" for m r i
    using read_at_returns [OF pg that] by (simp add: read_through_step_def split: option.splits)
  ultimately show ?thesis
    unfolding extend_conv3d_epilogue_fold_liveness_def by (intro returns_bind returns_for_each) auto
qed

lemma plan_ranges_return:
  assumes g: "plan_ready g"
  shows "returns (plan_ranges env g opts)"
  unfolding plan_ranges_def
  by (intro returning base_ranges_return [OF g] qkv_returns [OF g] conv3d_returns [OF g]
      custom_returns bert_returns duration_returns static_returns ready_plannable [OF g])

section \<open>Plans\<close>

lemma native_width_returns:
  assumes pg: "plannable g"
  shows "returns (native_width_nodes g width)"
proof -
  have family: "returns (traverse (\<lambda>n. bind_outcome (resolve_view_root g (n_id n)) (\<lambda>(root, _).
     Ok (root, n_id n))) (g_nodes g))"
    by (intro returns_traverse returns_bind resolve_returns [OF pg] node_id_less [OF pg]) auto
  show ?thesis
    unfolding native_width_nodes_def Let_def
    by (intro returns_bind [OF family] returns_if returns_Ok)
qed

lemma grouped_dims_no_panic:
  "0 < rank o_s \<Longrightarrow> grouped_matmul_dims a b (Some o_s) \<noteq> Panic"
proof -
  have st: "bind_outcome (dim_at s i) statics \<noteq> Panic" if "i < rank s" for s i
    using that by (cases "dims s ! i") (auto simp: dim_at_def rank_def)
  assume "0 < rank o_s"
  then show ?thesis
    using st by (auto simp: grouped_matmul_dims_def outcome_simps Let_def split: if_splits)
qed

lemma bank_transpose_returns:
  assumes g: "plan_ready g"
  shows "returns (is_elidable_bank_transpose_gated g n small)"
proof -
  note pg = ready_plannable [OF g]
  have wf: "wf_nodes (g_nodes g)" using plannableD(2) [OF pg] .
  have small_ok: "returns (all_small g i ns)"
    if "\<forall>r \<in> set ns. i \<in> set (n_inputs r) \<longrightarrow> returns (small_reader g r)" for i ns
    using that by (induction ns) (auto intro: returns_bind)
  have reader: "returns (small_reader g r)"
    if rs: "list_all (\<lambda>(r, slot). slot = 1 \<and> n_op r = GroupedMatMul
        \<and> shape_dtype (n_shape r) = F32) (reads_of g i)"
      and r: "r \<in> set (g_nodes g)" "i \<in> set (n_inputs r)" for r i
  proof -
    obtain slot where slot: "slot < length (n_inputs r)" "n_inputs r ! slot = i"
      using r(2) by (auto simp: in_set_conv_nth)
    then have "(r, slot) \<in> set (reads_of g i)" using r(1) by (auto simp: reads_of_def)
    then have "slot = 1" "n_op r = GroupedMatMul" using rs by (auto simp: list_all_iff)
    moreover have "node_ready g r" using g r(1) by (simp add: plan_ready_def)
    ultimately have rk: "0 < rank (n_shape r)" and len: "1 < length (n_inputs r)"
      using slot by (auto simp: node_ready_def)
    have l0: "0 < length (n_inputs r)" using len by linarith
    have "n_inputs r ! 0 < graph_len g" "n_inputs r ! 1 < graph_len g"
      using node_inputs_less [OF pg r(1) nth_mem [OF l0]] node_inputs_less [OF pg r(1) nth_mem [OF len]]
      by blast+
    moreover note l0
    ultimately show ?thesis
      using grouped_dims_no_panic [OF rk] len
      by (auto simp: small_reader_def split: outcome.splits)
  qed
  show ?thesis
    unfolding is_elidable_bank_transpose_gated_def Let_def
    by (intro returning small_ok ballI impI reader) auto
qed

lemma matmul_transpose_indexed_returns:
  "wf_nodes (g_nodes g) \<Longrightarrow> returns (is_elidable_matmul_transpose_indexed g n (reader_index_new g))"
  by (simp add: indexed_scan_eq matmul_transpose_returns)

lemma collect_returns:
  assumes g: "plan_ready g"
  shows "returns (collect_buffers g al opts width keep r)"
proof -
  note pg = ready_plannable [OF g]
  have "returns (folded_away g opts (reader_index_new g) n)" for n
    unfolding folded_away_def
    by (intro returning bank_transpose_returns [OF g] matmul_transpose_indexed_returns plannableD(2) [OF pg])
  moreover have "returns (pure_view_offset g n)" if "n \<in> set (g_nodes g)" for n
    using pg that by (simp add: plannable_def)
  ultimately show ?thesis
    unfolding collect_buffers_def buffer_of_def Let_def by (intro returning)
qed

lemma plan_exists:
  assumes g: "plan_ready g"
  shows "\<exists>p. plan_memory_aligned_inner env g (2 ^ k) opts weights width = Ok p"
proof -
  note pg = ready_plannable [OF g]
  obtain r where r: "plan_ranges env g opts = Ok r"
    using plan_ranges_return [OF g] by (auto simp: returns_def)
  obtain exports where ex: "graph_exports_onnx_duration g = Ok exports"
    using duration_exports_returns [OF pg] by (auto simp: returns_def)
  obtain keep where keep: "native_width_nodes g width = Ok keep"
    using native_width_returns [OF pg] by (auto simp: returns_def)
  obtain bs where bs: "collect_buffers g (2 ^ k) opts width keep r = Ok bs"
    using collect_returns [OF g, of "2 ^ k" opts width keep r] by (auto simp: returns_def)
  have "\<forall>b \<in> set bs. bi_id b < graph_len g" using collect_buffers_spec(2) [OF pg bs] by blast
  then obtain st where st: "for_each (place g (2 ^ k) (exports \<or> arena_no_reuse opts)) placement_start bs = Ok st"
    using place_loop by blast
  have reloc: "(if exports \<or> arena_no_reuse opts then Ok (pl_assigned st, pl_arena st)
      else for_each (relocate g (2 ^ k) width keep) (pl_assigned st, pl_arena st) (map bi_id bs)) =
      Ok (pl_assigned st, pl_arena st)"
    using safety_pass_noop [OF pg r bs st] by simp
  have "returns (for_each (alias_view g width keep) (pl_assigned st) (g_nodes g))"
    unfolding alias_view_def
    by (intro returning resolve_returns [OF pg] node_id_less [OF pg])
      (use pg in \<open>auto simp: plannable_def\<close>)
  then obtain al where "for_each (alias_view g width keep) (pl_assigned st) (g_nodes g) = Ok al"
    by (auto simp: returns_def)
  then show ?thesis
    unfolding plan_memory_aligned_inner_def Let_def
    using r ex keep bs st reloc by simp
qed

text \<open>C31. Planning ends with a plan, under all options, widths and power-of-two alignments: no
  step panics and no walk goes on for ever.\<close>

theorem plan_returns:
  assumes "plan_ready g"
  shows "\<exists>p. plan_memory_aligned_inner env g (2 ^ k) opts weights width = Ok p"
  using assms by (rule plan_exists)

end
