(* ===== verification/PlanSafety.thy ===== *)
theory PlanSafety
  imports PlanTotal
begin

text \<open>
  What a plan guarantees: buffers that are live together do not share bytes, slots are
  aligned and lie in the arena, static weight packs have a slot to themselves.
\<close>

section \<open>Buffers of a plan\<close>

definition live_together :: "ranges \<Rightarrow> node_id \<Rightarrow> node_id \<Rightarrow> bool" where
  "live_together r i j \<longleftrightarrow>
     (\<exists>b d b' d'. r i = Some (b, d) \<and> r j = Some (b', d') \<and> b \<le> d' \<and> b' \<le> d)"

definition slots_disjoint :: "memory_plan \<Rightarrow> node_id \<Rightarrow> node_id \<Rightarrow> bool" where
  "slots_disjoint p i j \<longleftrightarrow>
     (case (slot_of (plan_assignments p) i, slot_of (plan_assignments p) j) of
        (Some s, Some t) \<Rightarrow>
          disjoint_ranges (slot_offset s) (slot_size s) (slot_offset t) (slot_size t)
      | _ \<Rightarrow> True)"

definition owns_slot :: "graph \<Rightarrow> node_id \<Rightarrow> bool" where
  "owns_slot g i \<longleftrightarrow> i < graph_len g \<and> \<not> is_view g i"

text \<open>A slot of a node that owns its storage comes from the buffer the loop placed.\<close>

lemma slot_buffer:
  assumes g: "plannable g" and bs: "collect_buffers g (2 ^ k) opts width keep r = Ok bs"
    and ok: "placed_ok k clash guard bs st" and s: "slot_of (pl_assigned st) i = Some s"
  obtains b where "b \<in> set bs" and "bi_id b = i" and "r i = Some (bi_birth b, bi_death b)"
    and "bi_size b = slot_bytes_of g (2 ^ k) width keep i"
    and "s = \<lparr>slot_offset = off_of (pl_assigned st) i, slot_size = bi_size b\<rparr>"
proof -
  have "i \<in> bi_id ` set bs" using ok s unfolding placed_ok_def by (metis option.distinct(1))
  then obtain b where b: "b \<in> set bs" "bi_id b = i" by auto
  have i: "i < graph_len g" and of: "buffer_of g (2 ^ k) opts width keep (reader_index_new g) r
      (g_nodes g ! i) = Ok (Some b)"
    using collect_buffers_spec(2) [OF g bs b(1)] b(2) by blast+
  have id: "n_id (g_nodes g ! i) = i" by (rule plannableD(4) [OF g i])
  have self: "g_nodes g ! i = g_nodes g ! n_id (g_nodes g ! i)" by (simp add: id)
  note bb = buffer_of_Some [OF of self, unfolded id]
  have "slot_of (pl_assigned st) (bi_id b) =
      Some \<lparr>slot_offset = off_of (pl_assigned st) (bi_id b), slot_size = bi_size b\<rparr>"
    using ok b(1) unfolding placed_ok_def by blast
  then have "s = \<lparr>slot_offset = off_of (pl_assigned st) i, slot_size = bi_size b\<rparr>"
    using s b(2) by simp
  then show thesis using that b bb by blast
qed

lemma plan_apart:
  assumes g: "plannable g" and p: "plan_memory_aligned_inner env g (2 ^ k) opts None width = Ok p"
  shows "\<exists>r. plan_ranges env g opts = Ok r \<and>
    (\<forall>i j. owns_slot g i \<and> owns_slot g j \<and> i \<noteq> j \<and> (arena_no_reuse opts \<or> live_together r i j) \<longrightarrow>
       slots_disjoint p i j)"
proof -
  obtain r no_reuse keep bs st where m: "plan_made env g k opts width p r no_reuse keep bs st"
    using plan_parts [OF g p] by blast
  note r = plan_madeD(1) [OF m] and bs = plan_madeD(5) [OF m] and ok = plan_madeD(6) [OF m]
    and nr = plan_madeD(7) [OF m] and slots = plan_madeD(10) [OF m]
  have "slots_disjoint p i j"
    if i: "owns_slot g i" and j: "owns_slot g j" and ij: "i \<noteq> j"
      and t: "arena_no_reuse opts \<or> live_together r i j" for i j
  proof (cases "slot_of (pl_assigned st) i = None \<or> slot_of (pl_assigned st) j = None")
    case True
    then show ?thesis
      using i j by (auto simp: slots_disjoint_def slots owns_slot_def split: option.splits)
  next
    case False
    then obtain si sj where s: "slot_of (pl_assigned st) i = Some si"
        "slot_of (pl_assigned st) j = Some sj" by auto
    obtain b where b: "b \<in> set bs" "bi_id b = i" "r i = Some (bi_birth b, bi_death b)"
        "si = \<lparr>slot_offset = off_of (pl_assigned st) i, slot_size = bi_size b\<rparr>"
      by (rule slot_buffer [OF g bs ok s(1)])
    obtain c where c: "c \<in> set bs" "bi_id c = j" "r j = Some (bi_birth c, bi_death c)"
        "sj = \<lparr>slot_offset = off_of (pl_assigned st) j, slot_size = bi_size c\<rparr>"
      by (rule slot_buffer [OF g bs ok s(2)])
    have "no_reuse \<or> (bi_birth b \<le> bi_death c \<and> bi_birth c \<le> bi_death b)"
      using t nr b(3) c(3) by (auto simp: live_together_def)
    then have "disjoint_ranges (off_of (pl_assigned st) i) (bi_size b)
        (off_of (pl_assigned st) j) (bi_size c)"
      using separated_disjoint [OF ok b(1) c(1)] ij b(2) c(2) by simp
    then show ?thesis
      using i j s b(4) c(4) by (simp add: slots_disjoint_def slots owns_slot_def)
  qed
  then show ?thesis using r by blast
qed

text \<open>C2. Buffers that are live at the same time never share a byte of the arena; under
  \<open>arena_no_reuse\<close> no two buffers do.\<close>

theorem plan_keeps_live_apart:
  assumes "plannable g" and "plan_memory_aligned_inner env g (2 ^ k) opts None width = Ok p"
  shows "\<exists>r. plan_ranges env g opts = Ok r \<and>
    (\<forall>i j. owns_slot g i \<and> owns_slot g j \<and> i \<noteq> j \<and> (arena_no_reuse opts \<or> live_together r i j) \<longrightarrow>
       slots_disjoint p i j)"
  using assms by (rule plan_apart)

lemma slots_in_arena:
  assumes g: "plannable g" and p: "plan_memory_aligned_inner env g (2 ^ k) opts None width = Ok p"
    and i: "owns_slot g i" and s: "slot_of (plan_assignments p) i = Some s"
  shows "2 ^ k dvd slot_offset s \<and>
    (\<exists>keep. native_width_nodes g width = Ok keep \<and> slot_size s = slot_bytes_of g (2 ^ k) width keep i) \<and>
    slot_offset s + slot_size s + boundary_tail_guard (n_op (g_nodes g ! i)) (2 ^ k) \<le> plan_arena_size p"
proof -
  obtain r no_reuse keep bs st where m: "plan_made env g k opts width p r no_reuse keep bs st"
    using plan_parts [OF g p] by blast
  note keep = plan_madeD(4) [OF m] and bs = plan_madeD(5) [OF m] and ok = plan_madeD(6) [OF m]
    and arena = plan_madeD(8) [OF m] and slots = plan_madeD(10) [OF m]
  have "slot_of (pl_assigned st) i = Some s" using s i by (simp add: slots owns_slot_def)
  then obtain b where b: "b \<in> set bs" "bi_id b = i" "bi_size b = slot_bytes_of g (2 ^ k) width keep i"
      "s = \<lparr>slot_offset = off_of (pl_assigned st) i, slot_size = bi_size b\<rparr>"
    using slot_buffer [OF g bs ok] by metis
  let ?p = "buf_region (off_of (pl_assigned st) i) (bi_size b + guard_of g k b) b"
  have al: "2 ^ k dvd off_of (pl_assigned st) i" and "?p \<in> set (pl_placed st)"
    using ok b(1,2) unfolding placed_ok_def by metis+
  moreover have "\<forall>q \<in> set (pl_placed st). rg_end q \<le> pl_arena st"
    using ok unfolding placed_ok_def by blast
  ultimately have "rg_end ?p \<le> pl_arena st" by blast
  then show ?thesis
    using al b keep by (simp add: rg_end_def buf_region_def guard_of_def arena)
qed


section \<open>Static weight packs\<close>

lemma static_loop:
  assumes g: "plannable g" and dom: "{..<graph_len g} \<subseteq> dom r0"
    and r: "extend_static_weight_pack_liveness g r0 = Ok r"
    and i: "static_weight g i" "\<not> is_boundary (n_op (g_nodes g ! i))" "i < graph_len g"
  shows "r i = Some (0, graph_len g)"
proof -
  obtain memo where loop: "for_each (static_step g) (r0, Map.empty) (g_nodes g) = Ok (r, memo)"
    using r by (auto simp: extend_static_weight_pack_liveness_def outcome_simps)
  let ?P = "\<lambda>k (st :: ranges \<times> memo). memo_sound g (snd st) \<and> dom (fst st) = dom r0 \<and>
    (\<forall>i < k. static_weight g i \<and> \<not> is_boundary (n_op (g_nodes g ! i)) \<longrightarrow>
       fst st i = Some (0, graph_len g))"
  have "?P (length (g_nodes g)) (r, memo)"
  proof (rule for_each_prefix [OF loop, where P = ?P])
    fix k and st st' :: "ranges \<times> memo"
    assume k: "k < length (g_nodes g)" and P: "?P k st"
      and step: "static_step g st (g_nodes g ! k) = Ok st'"
    have kl: "k < graph_len g" using k by (simp add: graph_len_def)
    have id: "n_id (g_nodes g ! k) = k" by (rule plannableD(4) [OF g kl])
    obtain r1 m1 where st: "st = (r1, m1)" by (cases st)
    obtain m2 where "is_static_weight_tensor g k m1 = Ok (static_weight g k, m2)" "memo_sound g m2"
      using static_walk_memo [OF plannableD(1) [OF g] _ kl, of m1] P st by auto
    then have st': "st' = (if static_weight g k \<and> \<not> is_boundary (n_op (g_nodes g ! k))
        then (modify r1 k (\<lambda>_. (0, graph_len g)), m2) else (r1, m2))" and "memo_sound g m2"
      using step unfolding st static_step_def prod.case id by (auto split: if_splits)
    have "k \<in> dom r1" using P dom kl st by auto
    then show "?P (Suc k) st'"
      using P \<open>memo_sound g m2\<close> unfolding st' st
      by (auto simp: less_Suc_eq modify_def)
  qed simp
  then show ?thesis using i by (simp add: graph_len_def)
qed

lemma static_ranges:
  assumes g: "plannable g" and r: "plan_ranges env g opts = Ok r" and i: "static_weight g i"
  shows "born_by r i 0 \<and> live_to r i (graph_len g)"
proof -
  have il: "i < graph_len g" using i by (cases rule: static_weight.cases) auto
  show ?thesis
  proof (cases "is_boundary (n_op (g_nodes g ! i))")
    case True
    then show ?thesis using plan_ranges_live [OF g r] il by (auto simp: live_sound_def)
  next
    case False
    obtain r0 r1 r2 r3 r4 r5 where
      r0: "compute_live_ranges_opts g (pin_output_ancestors opts) = Ok r0"
      and r1: "extend_packed_qkv_parent_liveness g r0 = Ok r1"
      and r2: "extend_custom_op_input_liveness env g (dequant_host_fallback opts) r1 = Ok r2"
      and r3: "extend_bert_hidden_liveness g r2 = Ok r3"
      and r4: "extend_onnx_duration_epilogue_liveness g r3 = Ok r4"
      and r5: "extend_static_weight_pack_liveness g r4 = Ok r5"
      and r: "(if fold_conv3d_epilogue opts then extend_conv3d_epilogue_fold_liveness g r5
        else Ok r5) = Ok r"
      using r by (auto simp: plan_ranges_def outcome_simps)
    let ?n = "graph_len g"
    have b0: "bounded ?n r0" "live_sound g r0" using base_ranges_sound [OF g r0] by blast+
    have st4: "steady ?n r0 r4"
      using qkv.pass_steady [OF r1] custom.pass_steady [OF r2] bert.pass_steady [OF r3]
        duration.pass_steady [OF r4] by (meson steady_trans)
    have "j \<in> dom r0" if "j < ?n" for j
      using b0(2) that by (auto simp: live_sound_def born_by_def)
    then have dom: "{..<?n} \<subseteq> dom r4" using steadyD(3) [OF st4 b0(1)] by blast
    have r5i: "r5 i = Some (0, ?n)" by (rule static_loop [OF g dom r5 i False il])
    have b5: "bounded ?n r5"
      using steadyD(1) [OF static.pass_steady [OF r5] steadyD(1) [OF st4 b0(1)]] .
    have "widens r5 r"
    proof (cases "fold_conv3d_epilogue opts")
      case True
      then have "extend_conv3d_epilogue_fold_liveness g r5 = Ok r" using r by simp
      then show ?thesis using steadyD(2) [OF conv3d.pass_steady b5] by blast
    qed (use r in \<open>auto simp: widens_def\<close>)
    moreover have "born_by r5 i 0" "live_to r5 i ?n" using r5i by (auto simp: born_by_def live_to_def)
    ultimately show ?thesis using born_by_widens live_to_widens by blast
  qed
qed

text \<open>A static weight pack, like a parameter or a constant, shares its bytes with no other
  buffer, so a later run finds it as the first one left it.\<close>

theorem static_pack_private:
  assumes g: "plannable g" and p: "plan_memory_aligned_inner env g (2 ^ k) opts None width = Ok p"
    and i: "static_weight g i" and "owns_slot g i" and "owns_slot g j" and "i \<noteq> j"
  shows "slots_disjoint p i j"
proof -
  obtain r where r: "plan_ranges env g opts = Ok r"
    and apart: "\<forall>i j. owns_slot g i \<and> owns_slot g j \<and> i \<noteq> j \<and>
      (arena_no_reuse opts \<or> live_together r i j) \<longrightarrow> slots_disjoint p i j"
    using plan_apart [OF g p] by blast
  have sound: "bounded (graph_len g) r" "live_sound g r" using plan_ranges_live [OF g r] by blast+
  obtain b d where rj: "r j = Some (b, d)" "d \<le> graph_len g"
    using sound assms(5) by (auto simp: live_sound_def born_by_def bounded_def owns_slot_def)
  have "b \<le> j" using buffer_times(1) [OF sound(2) rj(1)] assms(5) by (simp add: owns_slot_def)
  then have "b \<le> graph_len g" using assms(5) by (simp add: owns_slot_def)
  moreover obtain b' d' where "r i = Some (b', d')" "b' \<le> 0" "graph_len g \<le> d'"
    using static_ranges [OF g r i] by (auto simp: born_by_def live_to_def)
  ultimately have "live_together r i j" using rj by (auto simp: live_together_def)
  then show ?thesis using apart assms by blast
qed

end
