(* ===== verification/Arena.thy ===== *)
theory Arena
  imports PlanSafety
begin

text \<open>
  Running a graph in the planned arena. A backend keeps all tensors in one byte array and
  executes the schedule in order: a kernel reads its operands' slots and writes its own
  slot, views execute nothing. The main theorem says that with the planner's slots this
  computes the values of the graph, however much the slots are shared.
\<close>

section \<open>The machine\<close>

type_synonym 'b arena = "nat \<Rightarrow> 'b"

definition tensor_bytes :: "graph \<Rightarrow> arena_width \<Rightarrow> node_id \<Rightarrow> nat" where
  "tensor_bytes g width i =
     (case native_width_nodes g width of
        Ok keep \<Rightarrow> node_slot_bytes (g_nodes g ! i) width (i \<in> keep)
      | _ \<Rightarrow> 0)"

definition read_bytes :: "'b arena \<Rightarrow> nat \<Rightarrow> nat \<Rightarrow> 'b list" where
  "read_bytes a off n = map (\<lambda>j. a (off + j)) [0..<n]"

definition write_bytes :: "'b arena \<Rightarrow> nat \<Rightarrow> 'b list \<Rightarrow> 'b arena" where
  "write_bytes a off bs =
     (\<lambda>x. if off \<le> x \<and> x < off + length bs then bs ! (x - off) else a x)"

definition read_tensor :: "graph \<Rightarrow> arena_width \<Rightarrow> memory_plan \<Rightarrow> 'b arena \<Rightarrow> node_id \<Rightarrow> 'b list" where
  "read_tensor g width p a i =
     read_bytes a (off_of (plan_assignments p) i) (tensor_bytes g width i)"

definition run_step ::
  "'b list kernels \<Rightarrow> graph \<Rightarrow> arena_width \<Rightarrow> memory_plan \<Rightarrow> 'b arena \<Rightarrow> node_id \<Rightarrow> 'b arena" where
  "run_step sem g width p a i =
     (let n = g_nodes g ! i in
      if is_boundary (n_op n) \<or> is_view g i then a
      else write_bytes a (off_of (plan_assignments p) i)
             (sem (n_op n) (n_shape n) (map (read_tensor g width p a) (n_inputs n))))"

definition run_schedule ::
  "'b list kernels \<Rightarrow> graph \<Rightarrow> arena_width \<Rightarrow> memory_plan \<Rightarrow> 'b arena \<Rightarrow> 'b arena" where
  "run_schedule sem g width p a = foldl (run_step sem g width p) a (plan_schedule p)"

section \<open>What is asked of kernels, graph and options\<close>

text \<open>The kernel of a node that owns its storage fills the tensor; a view's value is the slice of its parent the planner takes it
  for, inside the parent.\<close>

definition kernels_fit :: "'b list kernels \<Rightarrow> graph \<Rightarrow> arena_width \<Rightarrow> bool" where
  "kernels_fit sem g width \<longleftrightarrow>
     (\<forall>i. owns_slot g i \<longrightarrow> (\<forall>vs.
        length (sem (n_op (g_nodes g ! i)) (n_shape (g_nodes g ! i)) vs) = tensor_bytes g width i))"

definition views_slice :: "'b list kernels \<Rightarrow> graph \<Rightarrow> arena_width \<Rightarrow> bool" where
  "views_slice sem g width \<longleftrightarrow>
     (\<forall>i < graph_len g. \<forall>q d. pure_view_offset g (g_nodes g ! i) = Ok (Some (q, d)) \<longrightarrow>
        d + tensor_bytes g width i \<le> tensor_bytes g width q \<and>
        (\<forall>v vs. sem (n_op (g_nodes g ! i)) (n_shape (g_nodes g ! i)) (v # vs) =
           take (tensor_bytes g width i) (drop d v)))"

text \<open>Nothing updates an operand in place, and the plan has a slot for every buffer.\<close>

definition plain_plan :: "graph \<Rightarrow> mem_options \<Rightarrow> bool" where
  "plain_plan g opts \<longleftrightarrow>
     (\<forall>n \<in> set (g_nodes g). \<not> writes_in_place (n_op n)) \<and>
     allocate_params opts \<and> allocate_inputs opts \<and> allocate_constants opts \<and>
     \<not> elide_bank_transposes opts"

definition uploaded ::
  "'b list kernels \<Rightarrow> graph \<Rightarrow> arena_width \<Rightarrow> memory_plan \<Rightarrow> 'b arena \<Rightarrow> bool" where
  "uploaded sem g width p a \<longleftrightarrow>
     (\<forall>i < graph_len g. is_boundary (n_op (g_nodes g ! i)) \<longrightarrow>
        read_tensor g width p a i = value_at sem g i)"

lemma length_read_bytes [simp]: "length (read_bytes a off n) = n"
  by (simp add: read_bytes_def)

lemma read_bytes_sub:
  "d + m \<le> n \<Longrightarrow> take m (drop d (read_bytes a off n)) = read_bytes a (off + d) m"
  by (rule nth_equalityI) (auto simp: read_bytes_def add.assoc)

lemma read_write_same: "read_bytes (write_bytes a off bs) off (length bs) = bs"
  by (rule nth_equalityI) (simp_all add: read_bytes_def write_bytes_def)

lemma write_bytes_Nil [simp]: "write_bytes a off [] = a"
  by (rule ext) (auto simp: write_bytes_def)

lemma read_bytes_0 [simp]: "read_bytes a off 0 = []"
  by (simp add: read_bytes_def)

lemma read_write_disjoint:
  "disjoint_ranges off (length bs) o2 n \<Longrightarrow> read_bytes (write_bytes a off bs) o2 n = read_bytes a o2 n"
  by (auto simp: read_bytes_def write_bytes_def disjoint_ranges_def)

section \<open>Views in the arena\<close>

lemma view_value:
  assumes g: "plannable g" and v: "views_slice sem g width" and "i < graph_len g"
  shows "value_at sem g i =
      take (tensor_bytes g width i) (drop (owner_offset g i) (value_at sem g (owner g i))) \<or>
      owner g i = i \<and> owner_offset g i = 0"
    and "owner_offset g i + tensor_bytes g width i \<le> tensor_bytes g width (owner g i)"
proof -
  have "(value_at sem g i =
      take (tensor_bytes g width i) (drop (owner_offset g i) (value_at sem g (owner g i))) \<or>
      owner g i = i \<and> owner_offset g i = 0) \<and>
    owner_offset g i + tensor_bytes g width i \<le> tensor_bytes g width (owner g i)"
    using assms(3)
  proof (induction i rule: less_induct)
    case (less i)
    obtain w where w: "pure_view_offset g (g_nodes g ! i) = Ok w"
      using plannableD(3) [OF g less.prems] by (auto simp: returns_def)
    show ?case
    proof (cases w)
      case None
      then show ?thesis using owner_of_root [OF less.prems] w by simp
    next
      case (Some qd)
      obtain q d where qd: "qd = (q, d)" by (cases qd)
      have pv: "pure_view_offset g (g_nodes g ! i) = Ok (Some (q, d))" using w Some qd by simp
      note own = owner_of_view [OF g less.prems pv]
      have ql: "q < graph_len g" using own(3) less.prems by simp
      have ins: "n_inputs (g_nodes g ! i) \<noteq> []" "q = n_inputs (g_nodes g ! i) ! 0"
        using pure_view_parent [OF pv] by auto
      then obtain rest where rest: "n_inputs (g_nodes g ! i) = q # rest"
        by (cases "n_inputs (g_nodes g ! i)") auto
      have fit: "d + tensor_bytes g width i \<le> tensor_bytes g width q"
        and val: "value_at sem g i = take (tensor_bytes g width i) (drop d (value_at sem g q))"
        using v less.prems pv
        by (auto simp: views_slice_def value_at_wf [OF plannableD(2) [OF g] less.prems] rest)
      have IH: "value_at sem g q = take (tensor_bytes g width q)
            (drop (owner_offset g q) (value_at sem g (owner g q))) \<or>
          owner g q = q \<and> owner_offset g q = 0"
        "owner_offset g q + tensor_bytes g width q \<le> tensor_bytes g width (owner g q)"
        using less.IH [OF own(3) ql] by blast+
      have "value_at sem g i =
          take (tensor_bytes g width i) (drop (owner_offset g i) (value_at sem g (owner g i)))"
        using IH(1)
      proof
        assume "value_at sem g q = take (tensor_bytes g width q)
            (drop (owner_offset g q) (value_at sem g (owner g q)))"
        then show ?thesis
          using val fit own by (simp add: drop_take add.commute min_def)
      next
        assume "owner g q = q \<and> owner_offset g q = 0"
        then show ?thesis using val own by simp
      qed
      then show ?thesis using IH(2) fit own by simp
    qed
  qed
  then show "value_at sem g i =
      take (tensor_bytes g width i) (drop (owner_offset g i) (value_at sem g (owner g i))) \<or>
      owner g i = i \<and> owner_offset g i = 0"
    "owner_offset g i + tensor_bytes g width i \<le> tensor_bytes g width (owner g i)" by blast+
qed

lemma value_length:
  assumes g: "plannable g" and v: "views_slice sem g width" and fit: "kernels_fit sem g width"
    and i: "i < graph_len g"
  shows "length (value_at sem g i) = tensor_bytes g width i"
proof -
  have owned: "length (value_at sem g j) = tensor_bytes g width j" if "owns_slot g j" for j
    using fit that by (simp add: owns_slot_def kernels_fit_def value_at_wf [OF plannableD(2) [OF g]])
  have root: "owns_slot g (owner g i)"
    using owner_not_view [OF g i] resolve_owner(4) [OF g i] by (simp add: owns_slot_def)
  show ?thesis
    using view_value(1) [OF g v i]
  proof
    assume "value_at sem g i =
      take (tensor_bytes g width i) (drop (owner_offset g i) (value_at sem g (owner g i)))"
    then show ?thesis using view_value(2) [OF g v i] owned [OF root] by simp
  next
    assume "owner g i = i \<and> owner_offset g i = 0"
    then show ?thesis using owned [OF root] by simp
  qed
qed

section \<open>Slots of a plain plan\<close>

definition arena_plan ::
  "plan_env \<Rightarrow> graph \<Rightarrow> nat \<Rightarrow> mem_options \<Rightarrow> arena_width \<Rightarrow> memory_plan \<Rightarrow> ranges \<Rightarrow> bool \<Rightarrow>
   node_id set \<Rightarrow> buf_info list \<Rightarrow> placement \<Rightarrow> bool" where
  "arena_plan env g k opts width p r no_reuse keep bs st \<longleftrightarrow>
     plannable g \<and> plan_made env g k opts width p r no_reuse keep bs st \<and> plain_plan g opts"

lemma arena_planD:
  assumes "arena_plan env g k opts width p r no_reuse keep bs st"
  shows "plannable g" and "plan_made env g k opts width p r no_reuse keep bs st"
    and "plain_plan g opts"
  using assms by (simp_all add: arena_plan_def)

lemma slot_exists:
  assumes P: "arena_plan env g k opts width p r no_reuse keep bs st"
    and i: "owns_slot g i" and pos: "0 < tensor_bytes g width i"
  shows "\<exists>s. slot_of (pl_assigned st) i = Some s"
proof -
  note g = arena_planD(1) [OF P] and made = arena_planD(2) [OF P] and plain = arena_planD(3) [OF P]
  have il: "i < graph_len g" and nv: "pure_view_offset g (g_nodes g ! i) = Ok None"
    using i by (auto simp: owns_slot_def is_view_def)
  have id: "n_id (g_nodes g ! i) = i" by (rule plannableD(4) [OF g il])
  obtain b d where ri: "r i = Some (b, d)"
    using plan_madeD(3) [OF made] il by (auto simp: live_sound_def born_by_def)
  have raw: "tensor_bytes g width i = node_slot_bytes (g_nodes g ! i) width (i \<in> keep)"
    using plan_madeD(4) [OF made] by (simp add: tensor_bytes_def)
  have "plans_boundary_buffer (n_op (g_nodes g ! i)) opts"
    using plain by (auto simp: plain_plan_def plans_boundary_buffer_def split: op.splits)
  moreover have "folded_away g opts (reader_index_new g) (g_nodes g ! i) = Ok False"
    using plain by (simp add: plain_plan_def folded_away_def)
  ultimately have "buffer_of g (2 ^ k) opts width keep (reader_index_new g) r (g_nodes g ! i) =
      Ok (Some \<lparr>bi_id = i, bi_size = tensor_bytes g width i, bi_birth = b, bi_death = d\<rparr>)"
    using pos ri nv by (simp add: buffer_of_def id raw Let_def)
  then have "\<lparr>bi_id = i, bi_size = tensor_bytes g width i, bi_birth = b, bi_death = d\<rparr> \<in> set bs"
    by (rule collect_buffers_spec(3) [OF g plan_madeD(5) [OF made] il])
  then show ?thesis
    using plan_madeD(6) [OF made] unfolding placed_ok_def by fastforce
qed

lemma off_of_owned:
  assumes P: "arena_plan env g k opts width p r no_reuse keep bs st"
    and "owns_slot g i"
  shows "off_of (plan_assignments p) i = off_of (pl_assigned st) i"
  using plan_madeD(10) [OF arena_planD(2) [OF P], of i] assms by (simp add: off_of_def owns_slot_def)

lemma off_of_view:
  assumes P: "arena_plan env g k opts width p r no_reuse keep bs st"
    and "is_view g i" and "slot_of (pl_assigned st) (owner g i) = Some s"
  shows "off_of (plan_assignments p) i = off_of (pl_assigned st) (owner g i) + owner_offset g i"
  using plan_madeD(10) [OF arena_planD(2) [OF P], of i] assms
  by (simp add: off_of_def view_slot_def)

lemma apart_bytes:
  assumes P: "arena_plan env g k opts width p r no_reuse keep bs st"
    and i: "owns_slot g i" and j: "owns_slot g j" and ij: "i \<noteq> j" and t: "live_together r i j"
    and pos: "0 < tensor_bytes g width i" "0 < tensor_bytes g width j"
  shows "disjoint_ranges (off_of (plan_assignments p) i) (tensor_bytes g width i)
    (off_of (plan_assignments p) j) (tensor_bytes g width j)"
proof -
  note g = arena_planD(1) [OF P] and made = arena_planD(2) [OF P] and plain = arena_planD(3) [OF P]
  note bs = plan_madeD(5) [OF made] and ok = plan_madeD(6) [OF made]
  obtain si sj where s: "slot_of (pl_assigned st) i = Some si" "slot_of (pl_assigned st) j = Some sj"
    using slot_exists [OF P i pos(1)] slot_exists [OF P j pos(2)] by blast
  obtain b where b: "b \<in> set bs" "bi_id b = i" "r i = Some (bi_birth b, bi_death b)"
      "bi_size b = slot_bytes_of g (2 ^ k) width keep i"
    by (rule slot_buffer [OF g bs ok s(1)])
  obtain c where c: "c \<in> set bs" "bi_id c = j" "r j = Some (bi_birth c, bi_death c)"
      "bi_size c = slot_bytes_of g (2 ^ k) width keep j"
    by (rule slot_buffer [OF g bs ok s(2)])
  have size: "bi_size b = tensor_bytes g width i" "bi_size c = tensor_bytes g width j"
    using pos b(4) c(4) plan_madeD(4) [OF made]
    by (simp_all add: tensor_bytes_def slot_bytes_of_def Let_def)
  have "bi_birth b \<le> bi_death c \<and> bi_birth c \<le> bi_death b"
    using t b(3) c(3) by (simp add: live_together_def)
  then have "disjoint_ranges (off_of (pl_assigned st) i) (bi_size b)
      (off_of (pl_assigned st) j) (bi_size c)"
    using separated_disjoint [OF ok b(1) c(1)] ij b(2) c(2) by simp
  then show ?thesis by (simp add: size off_of_owned [OF P i] off_of_owned [OF P j])
qed

lemma read_through_owner:
  assumes P: "arena_plan env g k opts width p r no_reuse keep bs st"
    and v: "views_slice sem g width" and fit: "kernels_fit sem g width" and i: "i < graph_len g"
    and own: "read_tensor g width p a (owner g i) = value_at sem g (owner g i)"
  shows "read_tensor g width p a i = value_at sem g i"
proof -
  note g = arena_planD(1) [OF P] and made = arena_planD(2) [OF P] and plain = arena_planD(3) [OF P]
  show ?thesis
  proof (cases "is_view g i")
  case False
  then have "owner g i = i"
    using owner_of_root(2) [OF i] i by (simp add: is_view_def)
  then show ?thesis using own by simp
next
  case view: True
  note vv = view_value [OF g v i]
  have osl: "owns_slot g (owner g i)"
    using owner_not_view [OF g i] resolve_owner(4) [OF g i] by (simp add: owns_slot_def)
  show ?thesis
  proof (cases "tensor_bytes g width i = 0")
    case True
    then have "value_at sem g i = []"
      using value_length [OF g v fit i] by simp
    then show ?thesis using True by (simp add: read_tensor_def read_bytes_def)
  next
    case False
    then have "0 < tensor_bytes g width (owner g i)" using vv(2) by linarith
    then obtain s where s: "slot_of (pl_assigned st) (owner g i) = Some s"
      using slot_exists [OF P osl] by blast
    have "owner g i \<noteq> i" using view owner_not_view [OF g i] by metis
    then have "value_at sem g i = take (tensor_bytes g width i)
        (drop (owner_offset g i) (read_tensor g width p a (owner g i)))"
      using vv(1) own by simp
    also have "\<dots> = read_bytes a (off_of (plan_assignments p) (owner g i) + owner_offset g i)
        (tensor_bytes g width i)"
      unfolding read_tensor_def by (rule read_bytes_sub [OF vv(2)])
    finally show ?thesis
      by (simp add: read_tensor_def off_of_view [OF P view s] off_of_owned [OF P osl])
  qed
qed
qed

text \<open>Before step \<open>s\<close>, every live buffer that has been produced or uploaded holds its value.\<close>

definition holds_values ::
  "graph \<Rightarrow> arena_width \<Rightarrow> memory_plan \<Rightarrow> ranges \<Rightarrow> 'b list kernels \<Rightarrow> nat \<Rightarrow> 'b arena \<Rightarrow> bool" where
  "holds_values g width p r sem s a \<longleftrightarrow>
     (\<forall>i. owns_slot g i \<and> (i < s \<or> is_boundary (n_op (g_nodes g ! i))) \<and> live_to r i s \<longrightarrow>
        read_tensor g width p a i = value_at sem g i)"

lemma run_step_holds:
  assumes P: "arena_plan env g k opts width p r no_reuse keep bs st"
    and v: "views_slice sem g width" and fit: "kernels_fit sem g width"
    and s: "s < graph_len g" and a: "holds_values g width p r sem s a"
  shows "holds_values g width p r sem (Suc s) (run_step sem g width p a s)"
proof -
  note g = arena_planD(1) [OF P] and made = arena_planD(2) [OF P] and plain = arena_planD(3) [OF P]
  note sound = plan_madeD(3) [OF made]
  let ?n = "g_nodes g ! s"
  have later: "live_to r i (Suc s) \<Longrightarrow> live_to r i s" for i by (auto simp: live_to_def)
  show ?thesis
  proof (cases "is_boundary (n_op ?n) \<or> is_view g s")
    case True
    then show ?thesis
      using a later by (auto simp: holds_values_def run_step_def less_Suc_eq owns_slot_def)
  next
    case False
    have osl: "owns_slot g s" using False s by (simp add: owns_slot_def)
    let ?vs = "map (read_tensor g width p a) (n_inputs ?n)"
    let ?out = "sem (n_op ?n) (n_shape ?n) ?vs"
    let ?a = "write_bytes a (off_of (plan_assignments p) s) ?out"
    have step: "run_step sem g width p a s = ?a" using False by (simp add: run_step_def Let_def)
    have "read_tensor g width p a i = value_at sem g i" if i: "i \<in> set (n_inputs ?n)" for i
    proof -
      have lt: "i < s" by (rule plannableD(5) [OF g s i])
      then have il: "i < graph_len g" using s by simp
      have "owns_slot g (owner g i)"
        using owner_not_view [OF g il] resolve_owner(4) [OF g il] by (simp add: owns_slot_def)
      moreover have "owner g i < s" using resolve_owner(2) [OF g il] lt by simp
      moreover have "live_to r (owner g i) s" using sound s i by (auto simp: live_sound_def)
      ultimately have "read_tensor g width p a (owner g i) = value_at sem g (owner g i)"
        using a by (simp add: holds_values_def)
      then show ?thesis by (rule read_through_owner [OF P v fit il])
    qed
    then have out: "?out = value_at sem g s"
      by (simp add: value_at_wf [OF plannableD(2) [OF g] s] cong: map_cong)
    have len: "length ?out = tensor_bytes g width s" using fit osl by (simp add: kernels_fit_def)
    have "read_tensor g width p ?a i = value_at sem g i"
      if i: "owns_slot g i" "i < Suc s \<or> is_boundary (n_op (g_nodes g ! i))" "live_to r i (Suc s)" for i
    proof (cases "i = s")
      case True
      have "read_tensor g width p ?a s = ?out"
        unfolding read_tensor_def [of g width p ?a s] len [symmetric] by (rule read_write_same)
      then show ?thesis by (simp only: True out)
    next
      case ne: False
      have il: "i < graph_len g" using i(1) by (simp add: owns_slot_def)
      have old: "read_tensor g width p a i = value_at sem g i"
        using a i later ne by (auto simp: holds_values_def less_Suc_eq)
      obtain b d where rs: "r s = Some (b, d)" "b \<le> s" "s \<le> d"
        using sound s by (auto simp: live_sound_def born_by_def live_to_def)
      obtain b' d' where ri: "r i = Some (b', d')" "s \<le> d'"
        using later [OF i(3)] by (auto simp: live_to_def)
      have "b' \<le> s"
        using i(2) ne ri(1) sound il buffer_times(1,4) [OF sound ri(1) il]
        by (fastforce simp: live_sound_def less_Suc_eq)
      then have t: "live_together r s i" using rs ri by (auto simp: live_together_def)
      show ?thesis
      proof (cases "tensor_bytes g width s = 0 \<or> tensor_bytes g width i = 0")
        case True
        then have "?out = [] \<or> tensor_bytes g width i = 0" using len by auto
        then show ?thesis
        proof
          assume "?out = []"
          then show ?thesis using old by (simp only: write_bytes_Nil)
        next
          assume "tensor_bytes g width i = 0"
          then show ?thesis using old by (simp add: read_tensor_def)
        qed
      next
        case False
        then have "disjoint_ranges (off_of (plan_assignments p) s) (length ?out)
            (off_of (plan_assignments p) i) (tensor_bytes g width i)"
          using apart_bytes [OF P osl i(1) _ t] ne by (simp add: len)
        then show ?thesis using old by (simp add: read_tensor_def read_write_disjoint)
      qed
    qed
    then show ?thesis by (simp add: holds_values_def step)
  qed
qed

lemma run_holds:
  assumes P: "arena_plan env g k opts width p r no_reuse keep bs st"
    and v: "views_slice sem g width" and fit: "kernels_fit sem g width"
    and up: "uploaded sem g width p a" and s: "s \<le> graph_len g"
  shows "holds_values g width p r sem s (foldl (run_step sem g width p) a [0..<s])"
  using s
proof (induction s)
  case 0
  then show ?case using up by (simp add: holds_values_def uploaded_def owns_slot_def)
next
  case (Suc s)
  then show ?case using run_step_holds [OF P v fit, of s] by simp
qed

lemma outputs_hold:
  assumes P: "arena_plan env g k opts width p r no_reuse keep bs st"
    and v: "views_slice sem g width" and fit: "kernels_fit sem g width"
    and up: "uploaded sem g width p a"
  shows "map (read_tensor g width p (run_schedule sem g width p a)) (g_outputs g) =
    output_values sem g"
proof -
  note g = arena_planD(1) [OF P] and made = arena_planD(2) [OF P] and plain = arena_planD(3) [OF P]
  let ?a = "run_schedule sem g width p a"
  have "?a = foldl (run_step sem g width p) a [0..<graph_len g]"
    using plan_madeD(9) [OF made] by (simp add: run_schedule_def topo_order_def graph_len_def)
  then have final: "holds_values g width p r sem (graph_len g) ?a" using run_holds [OF P v fit up] by simp
  have "read_tensor g width p ?a i = value_at sem g i" if i: "i \<in> set (g_outputs g)" for i
  proof -
    have il: "i < graph_len g" by (rule output_less [OF g i])
    have "owns_slot g (owner g i)"
      using owner_not_view [OF g il] resolve_owner(4) [OF g il] by (simp add: owns_slot_def)
    moreover have "live_to r (owner g i) (graph_len g)"
      using plan_madeD(3) [OF made] i by (simp add: live_sound_def)
    ultimately have "read_tensor g width p ?a (owner g i) = value_at sem g (owner g i)"
      using final resolve_owner(4) [OF g il] by (simp add: holds_values_def)
    then show ?thesis by (rule read_through_owner [OF P v fit il])
  qed
  then show ?thesis by (simp add: output_values_def)
qed

text \<open>Uploading is possible: the slots of inputs, parameters and constants are disjoint.\<close>

definition upload_step ::
  "'b list kernels \<Rightarrow> graph \<Rightarrow> memory_plan \<Rightarrow> 'b arena \<Rightarrow> node_id \<Rightarrow> 'b arena" where
  "upload_step sem g p a i =
     (if is_boundary (n_op (g_nodes g ! i))
      then write_bytes a (off_of (plan_assignments p) i) (value_at sem g i) else a)"

definition upload :: "'b list kernels \<Rightarrow> graph \<Rightarrow> memory_plan \<Rightarrow> 'b arena \<Rightarrow> 'b arena" where
  "upload sem g p a = foldl (upload_step sem g p) a [0..<graph_len g]"

lemma upload_uploaded:
  assumes P: "arena_plan env g k opts width p r no_reuse keep bs st"
    and v: "views_slice sem g width" and fit: "kernels_fit sem g width"
  shows "uploaded sem g width p (upload sem g p a)"
proof -
  note g = arena_planD(1) [OF P] and made = arena_planD(2) [OF P]
  note sound = plan_madeD(3) [OF made]
  have owns: "owns_slot g i" if "i < graph_len g" "is_boundary (n_op (g_nodes g ! i))" for i
    using that by (cases "n_op (g_nodes g ! i)") (auto simp: owns_slot_def is_view_def pure_view_offset_def)
  have "\<forall>i < m. is_boundary (n_op (g_nodes g ! i)) \<longrightarrow>
      read_tensor g width p (foldl (upload_step sem g p) a [0..<m]) i = value_at sem g i"
    if "m \<le> graph_len g" for m
    using that
  proof (induction m)
    case (Suc m)
    let ?a = "foldl (upload_step sem g p) a [0..<m]" and ?v = "value_at sem g m"
    have ml: "m < graph_len g" using Suc.prems by simp
    have len: "length ?v = tensor_bytes g width m" by (rule value_length [OF g v fit ml])
    show ?case
    proof (cases "is_boundary (n_op (g_nodes g ! m))")
      case False
      then show ?thesis using Suc by (simp add: upload_step_def less_Suc_eq)
    next
      case True
      let ?b = "write_bytes ?a (off_of (plan_assignments p) m) ?v"
      have step: "foldl (upload_step sem g p) a [0..<Suc m] = ?b"
        using True by (simp add: upload_step_def)
      have here: "read_tensor g width p ?b m = ?v"
        unfolding read_tensor_def len [symmetric] by (rule read_write_same)
      have "read_tensor g width p ?b i = value_at sem g i"
        if i: "i < m" "is_boundary (n_op (g_nodes g ! i))" for i
      proof -
        have il: "i < graph_len g" using i(1) ml by simp
        have old: "read_tensor g width p ?a i = value_at sem g i" using Suc i by simp
        have whole: "\<exists>d. r j = Some (0, d)" if "j < graph_len g" "is_boundary (n_op (g_nodes g ! j))" for j
          using sound that by (auto simp: live_sound_def born_by_def)
        have "live_together r m i"
          using whole [OF ml True] whole [OF il i(2)] by (auto simp: live_together_def)
        then have "tensor_bytes g width m = 0 \<or> tensor_bytes g width i = 0 \<or>
            disjoint_ranges (off_of (plan_assignments p) m) (length ?v)
              (off_of (plan_assignments p) i) (tensor_bytes g width i)"
          using apart_bytes [OF P owns [OF ml True] owns [OF il i(2)]] i(1) by (auto simp: len)
        then show ?thesis
          using old len by (auto simp: read_tensor_def read_write_disjoint)
      qed
      then show ?thesis using here unfolding step by (auto simp: less_Suc_eq)
    qed
  qed simp
  then show ?thesis by (simp add: uploaded_def upload_def)
qed

section \<open>Correctness\<close>


end
