(* ===== verification/PlanCheckLaws.thy ===== *)
theory PlanCheckLaws
  imports PlanCheck Arena
begin

text \<open>
  What the schedule gates are worth: a plan the planner makes passes them, and a plan that
  passes them runs correctly when everything uploaded comes first in its schedule; without
  that last condition it need not.
\<close>

section \<open>Positions\<close>

lemma positions_snoc:
  "positions_of (xs @ [x]) =
     (case positions_of xs of (m, fs) \<Rightarrow>
        (m(x \<mapsto> length xs),
         if m x \<noteq> None then fs @ [finding DuplicateSchedule x None] else fs))"
  by (simp add: positions_of_def enumerate_append_eq position_step_def split: prod.splits)

lemma positions_spec:
  assumes "positions_of xs = (m, fs)"
  shows "fs = [] \<longleftrightarrow> distinct xs" and "m i \<noteq> None \<longleftrightarrow> i \<in> set xs"
    and "m i = Some t \<Longrightarrow> t < length xs \<and> xs ! t = i"
proof -
  have "(fs = [] \<longleftrightarrow> distinct xs) \<and> (\<forall>i. m i \<noteq> None \<longleftrightarrow> i \<in> set xs) \<and>
      (\<forall>i t. m i = Some t \<longrightarrow> t < length xs \<and> xs ! t = i)"
    using assms
  proof (induction xs arbitrary: m fs rule: rev_induct)
    case Nil
    then show ?case by (auto simp: positions_of_def)
  next
    case (snoc x xs)
    obtain m0 fs0 where p: "positions_of xs = (m0, fs0)" by (cases "positions_of xs")
    then have eq: "m = m0(x \<mapsto> length xs)"
        "fs = (if m0 x \<noteq> None then fs0 @ [finding DuplicateSchedule x None] else fs0)"
      using snoc.prems by (simp_all add: positions_snoc)
    note IH = snoc.IH [OF p]
    have "fs = [] \<longleftrightarrow> distinct (xs @ [x])" using IH by (auto simp: eq(2))
    moreover have "\<forall>i. m i \<noteq> None \<longleftrightarrow> i \<in> set (xs @ [x])" using IH by (auto simp: eq(1))
    moreover have "t < length (xs @ [x]) \<and> (xs @ [x]) ! t = i" if "m i = Some t" for i t
      using IH that by (auto simp: eq(1) nth_append split: if_splits)
    ultimately show ?case by blast
  qed
  then show "fs = [] \<longleftrightarrow> distinct xs" "m i \<noteq> None \<longleftrightarrow> i \<in> set xs"
    "m i = Some t \<Longrightarrow> t < length xs \<and> xs ! t = i" by blast+
qed

section \<open>Storage\<close>

lemma aliases_owner:
  assumes g: "plannable g" and al: "collect_view_aliases g = Ok aliases" and i: "i < graph_len g"
  shows "storage_of aliases i = owner g i"
proof -
  let ?P = "\<lambda>k (al :: node_id \<rightharpoonup> node_id \<times> nat). \<forall>i. al i =
    (if i < k \<and> is_view g i then Some (owner g i, owner_offset g i) else None)"
  have "?P (length (g_nodes g)) aliases"
  proof (rule for_each_prefix [OF al [unfolded collect_view_aliases_def], where P = ?P], goal_cases)
    case (2 k al al')
    then have kl: "k < graph_len g" by (simp add: graph_len_def)
    have id: "n_id (g_nodes g ! k) = k" by (rule plannableD(4) [OF g kl])
    obtain v where v: "pure_view_offset g (g_nodes g ! k) = Ok v"
      using plannableD(3) [OF g kl] by (auto simp: returns_def)
    have "al' = (if is_view g k then al(k \<mapsto> (owner g k, owner_offset g k)) else al)"
      using 2(3) v kl by (cases v) (simp_all add: is_view_def id resolve_owner(1) [OF g kl])
    then show ?case using 2(2) by (auto simp: less_Suc_eq)
  qed simp
  then have "aliases i = (if is_view g i then Some (owner g i, owner_offset g i) else None)"
    using i by (simp add: graph_len_def)
  moreover have "\<not> is_view g i \<Longrightarrow> owner g i = i"
    using owner_of_root(2) [OF i] i by (simp add: is_view_def)
  ultimately show ?thesis by (simp add: storage_of_def)
qed

lemma aliases_return: "plannable g \<Longrightarrow> returns (collect_view_aliases g)"
proof -
  assume g: "plannable g"
  have "returns (pure_view_offset g n)" "returns (resolve_view_root g (n_id n))"
    if n: "n \<in> set (g_nodes g)" for n
  proof -
    obtain k where k: "k < graph_len g" "n = g_nodes g ! k"
      using n unfolding graph_len_def by (metis in_set_conv_nth)
    then show "returns (pure_view_offset g n)" "returns (resolve_view_root g (n_id n))"
      using plannableD(3,4) [OF g k(1)] resolve_owner(1) [OF g k(1)] by simp_all
  qed
  then show ?thesis
    unfolding collect_view_aliases_def by (auto intro!: returning)
qed

section \<open>Checked live ranges\<close>

lemma widens_touch_input: "widens live (touch_input store step live j)"
  by (auto simp: widens_def touch_input_def split: option.splits)

lemma widens_touch_inputs: "widens live (foldl (touch_input store step) live js)"
proof (induction js arbitrary: live)
  case (Cons j js)
  then show ?case using widens_trans [OF widens_touch_input] by fastforce
qed (simp add: widens_def)

text \<open>Recorded deaths lie before \<open>k\<close>, so the next step only widens.\<close>

definition dies_before :: "nat \<Rightarrow> ranges \<Rightarrow> bool" where
  "dies_before k live \<longleftrightarrow> (\<forall>x b d. live x = Some (b, d) \<longrightarrow> d < k)"

definition spans :: "ranges \<Rightarrow> node_id \<Rightarrow> nat \<Rightarrow> bool" where
  "spans live x s \<longleftrightarrow> born_by live x s \<and> live_to live x s"

lemma spans_widens: "spans live x s \<Longrightarrow> widens live live' \<Longrightarrow> spans live' x s"
  using born_by_widens live_to_widens by (auto simp: spans_def)

lemma touch_inputs_spec:
  assumes "dies_before (Suc k) live"
    and "\<forall>x b d. live x = Some (b, d) \<longrightarrow> b \<le> k"
  shows "dies_before (Suc k) (foldl (touch_input store k) live js) \<and>
    (\<forall>x b d. foldl (touch_input store k) live js x = Some (b, d) \<longrightarrow> b \<le> k) \<and>
    (\<forall>j \<in> set js. spans (foldl (touch_input store k) live js) (store j) k)"
  using assms
proof (induction js arbitrary: live)
  case (Cons j js)
  let ?l = "touch_input store k live j"
  have "dies_before (Suc k) ?l" "\<forall>x b d. ?l x = Some (b, d) \<longrightarrow> b \<le> k"
    using Cons.prems by (auto simp: dies_before_def touch_input_def split: option.splits if_splits)
  note IH = Cons.IH [OF this]
  have "spans ?l (store j) k"
    using Cons.prems
    by (auto simp: spans_def born_by_def live_to_def touch_input_def split: option.splits)
  then have "spans (foldl (touch_input store k) ?l js) (store j) k"
    using widens_touch_inputs by (rule spans_widens)
  then show ?case using IH by simp
qed simp

lemma touch_node_spec:
  assumes t: "touch_node g store live (k, i) = Ok live'" and d: "dies_before k live"
    and b: "\<forall>x b d. live x = Some (b, d) \<longrightarrow> b < k"
  shows "widens live live'" and "dies_before (Suc k) live'"
    and "\<forall>x b d. live' x = Some (b, d) \<longrightarrow> b < Suc k" and "spans live' (store i) k"
    and "i < graph_len g" and "\<forall>j \<in> set (n_inputs (g_nodes g ! i)). spans live' (store j) k"
proof -
  let ?l = "live(store i \<mapsto> (case live (store i) of Some (b, _) \<Rightarrow> (b, k) | None \<Rightarrow> (k, k)))"
  show i: "i < graph_len g" using t by (auto simp: touch_node_def outcome_simps Let_def)
  have l: "live' = foldl (touch_input store k) ?l (n_inputs (g_nodes g ! i))"
    using t i by (simp add: touch_node_def Let_def)
  have w: "widens live ?l"
    using d by (fastforce simp: widens_def dies_before_def split: option.splits)
  have bounds: "d' < k \<and> b' < k" if "live x = Some (b', d')" for x b' d'
    using d b that by (simp add: dies_before_def) blast
  have "d' < Suc k \<and> b' \<le> k" if "?l x = Some (b', d')" for x b' d'
    using that bounds [of x b' d'] bounds [of "store i"]
    by (fastforce split: if_splits option.splits)
  then have "dies_before (Suc k) ?l" "\<forall>x b d. ?l x = Some (b, d) \<longrightarrow> b \<le> k"
    unfolding dies_before_def by blast+
  note spec = touch_inputs_spec [OF this, where store = store and js = "n_inputs (g_nodes g ! i)"]
  show "widens live live'" unfolding l by (rule widens_trans [OF w widens_touch_inputs])
  show "dies_before (Suc k) live'"
    "\<forall>j \<in> set (n_inputs (g_nodes g ! i)). spans live' (store j) k"
    unfolding l using spec by blast+
  show "\<forall>x b d. live' x = Some (b, d) \<longrightarrow> b < Suc k"
    unfolding l less_Suc_eq_le using spec by blast
  have "spans ?l (store i) k"
    using b by (fastforce simp: spans_def born_by_def live_to_def split: option.splits)
  then show "spans live' (store i) k" unfolding l using widens_touch_inputs by (rule spans_widens)
qed

lemma touched_spans:
  assumes "for_each (touch_node g store) Map.empty (enumerate 0 schedule) = Ok live"
  shows "dies_before (length schedule) live" and "s < length schedule \<Longrightarrow> spans live (store (schedule ! s)) s"
    and "s < length schedule \<Longrightarrow> schedule ! s < graph_len g"
    and "s < length schedule \<Longrightarrow> j \<in> set (n_inputs (g_nodes g ! (schedule ! s))) \<Longrightarrow> spans live (store j) s"
proof -
  let ?P = "\<lambda>k (live :: ranges). dies_before k live \<and> (\<forall>x b d. live x = Some (b, d) \<longrightarrow> b < k) \<and>
    (\<forall>s < k. spans live (store (schedule ! s)) s \<and> schedule ! s < graph_len g \<and>
       (\<forall>j \<in> set (n_inputs (g_nodes g ! (schedule ! s))). spans live (store j) s))"
  have "?P (length (enumerate 0 schedule)) live"
  proof (rule for_each_prefix [OF assms, where P = ?P], goal_cases)
    case 1
    then show ?case by (simp add: dies_before_def)
  next
    case (2 k l l')
    then have t: "touch_node g store l (k, schedule ! k) = Ok l'" by (simp add: nth_enumerate_eq)
    have l: "dies_before k l" "\<forall>x b d. l x = Some (b, d) \<longrightarrow> b < k" using 2(2) by blast+
    note spec = touch_node_spec [OF t l]
    have "spans l' (store (schedule ! s)) s \<and> schedule ! s < graph_len g \<and>
       (\<forall>j \<in> set (n_inputs (g_nodes g ! (schedule ! s))). spans l' (store j) s)" if "s < Suc k" for s
      using that 2(2) spec spans_widens [OF _ spec(1)] by (metis less_Suc_eq)
    then show ?case using spec(2,3) by blast
  qed
  then show "dies_before (length schedule) live" "s < length schedule \<Longrightarrow> spans live (store (schedule ! s)) s"
    "s < length schedule \<Longrightarrow> schedule ! s < graph_len g"
    "s < length schedule \<Longrightarrow> j \<in> set (n_inputs (g_nodes g ! (schedule ! s))) \<Longrightarrow> spans live (store j) s"
    by simp_all
qed

lemma pin_deaths:
  "foldl (\<lambda>r x. pin_death r x fin) live xs y =
     (if y \<in> set xs then map_option (\<lambda>(b, d). (b, fin)) (live y) else live y)"
proof (induction xs arbitrary: live)
  case (Cons x xs)
  then show ?case by (cases "live y") (auto simp: pin_death_def modify_def)
qed simp

lemma checked_spans:
  assumes "checked_live g store schedule = Ok live" and s: "s < length schedule"
  shows "spans live (store (schedule ! s)) s" and "schedule ! s < graph_len g"
    and "j \<in> set (n_inputs (g_nodes g ! (schedule ! s))) \<Longrightarrow> spans live (store j) s"
    and "o1 \<in> set (g_outputs g) \<Longrightarrow> store o1 = store (schedule ! s) \<Longrightarrow> t \<le> length schedule \<Longrightarrow>
       live_to live (store o1) t"
proof -
  obtain l where l: "for_each (touch_node g store) Map.empty (enumerate 0 schedule) = Ok l"
    and live: "live = foldl (\<lambda>r x. pin_death r x (length schedule)) l (remdups (map store (g_outputs g)))"
    using assms(1) by (auto simp: checked_live_def outcome_simps)
  note t = touched_spans [OF l]
  have w: "widens l live"
    unfolding widens_def live pin_deaths using t(1)
    by (fastforce simp: dies_before_def split: if_splits)
  show here: "spans live (store (schedule ! s)) s" using t(2) [OF s] w by (rule spans_widens)
  show "schedule ! s < graph_len g" by (rule t(3) [OF s])
  show "j \<in> set (n_inputs (g_nodes g ! (schedule ! s))) \<Longrightarrow> spans live (store j) s"
    using t(4) [OF s] w by (blast intro: spans_widens)
  show "live_to live (store o1) t"
    if "o1 \<in> set (g_outputs g)" "store o1 = store (schedule ! s)" "t \<le> length schedule"
  proof -
    have "store o1 \<in> set (remdups (map store (g_outputs g)))" using that(1) by simp
    then show ?thesis
      using that(2,3) t(2) [OF s] by (auto simp: live pin_deaths live_to_def spans_def)
  qed
qed

section \<open>The overlap scan\<close>

definition parted :: "checked_slot \<Rightarrow> checked_slot \<Rightarrow> bool" where
  "parted a b \<longleftrightarrow>
     \<not> slot_overlaps (cs_slot a) (cs_slot b) \<or> cs_death a < cs_birth b \<or> cs_death b < cs_birth a"

abbreviation cs_offset :: "checked_slot \<Rightarrow> nat" where
  "cs_offset c \<equiv> slot_offset (cs_slot c)"

lemma parted_sym: "parted a b \<longleftrightarrow> parted b a"
  by (auto simp: parted_def slot_overlaps_def)

lemma clashes_of_parted: "\<forall>b \<in> set bs. parted a b \<Longrightarrow> clashes_of outputs a bs = []"
  by (induction bs) (auto simp: parted_def)

lemma clashes_of_complete:
  "sorted (map cs_offset bs) \<Longrightarrow> clashes_of outputs a bs = [] \<Longrightarrow> b \<in> set bs \<Longrightarrow> parted a b"
proof (induction bs)
  case (Cons c bs)
  show ?case
  proof (cases "slot_offset (cs_slot a) + slot_size (cs_slot a) \<le> cs_offset c")
    case True
    moreover have "cs_offset c \<le> cs_offset b" using Cons.prems by auto
    ultimately show ?thesis by (simp add: parted_def slot_overlaps_def)
  next
    case False
    then show ?thesis
      using Cons by (auto simp: parted_def split: if_splits)
  qed
qed simp

lemma pair_clashes_parted:
  "(\<And>i j. i < j \<Longrightarrow> j < length cs \<Longrightarrow> parted (cs ! i) (cs ! j)) \<Longrightarrow> pair_clashes outputs cs = []"
proof (induction cs)
  case (Cons c cs)
  have "clashes_of outputs c cs = []"
    using Cons.prems [of 0 "Suc j" for j] by (intro clashes_of_parted) (auto simp: in_set_conv_nth)
  moreover have "pair_clashes outputs cs = []"
    using Cons.prems [of "Suc i" "Suc j" for i j] by (intro Cons.IH) simp
  ultimately show ?case by simp
qed simp

lemma pair_clashes_complete:
  assumes "sorted (map cs_offset cs)" and "pair_clashes outputs cs = []"
    and "a \<in> set cs" "b \<in> set cs" "a \<noteq> b"
  shows "parted a b"
  using assms
proof (induction cs)
  case (Cons c cs)
  have "parted c x" if "x \<in> set cs" for x
    using Cons.prems(1,2) that by (intro clashes_of_complete [of cs outputs c x]) auto
  then show ?case using Cons parted_sym by auto
qed simp

lemma checked_slots_sorted: "sorted (map cs_offset (checked_slots store live al))"
  by (simp add: checked_slots_def)

lemma checked_slots_member:
  "c \<in> set (checked_slots store live al) \<longleftrightarrow>
     (cs_node c, cs_slot c) \<in> set al \<and> store (cs_node c) = cs_node c \<and>
     live (cs_node c) = Some (cs_birth c, cs_death c)"
  by (cases c) (force simp: checked_slots_def List.map_filter_def image_iff)

lemma checked_slots_distinct:
  assumes "distinct (map fst al)"
  shows "distinct (map cs_node (checked_slots store live al))"
proof -
  let ?f = "\<lambda>(i, s). if store i \<noteq> i then None
    else map_option (\<lambda>(b, d). \<lparr>cs_node = i, cs_slot = s, cs_birth = b, cs_death = d\<rparr>) (live i)"
  have "map cs_node (List.map_filter ?f al) =
      map fst (filter (\<lambda>x. store (fst x) = fst x \<and> live (fst x) \<noteq> None) al)"
  proof (induction al)
    case (Cons x al)
    obtain i s where x: "x = (i, s)" by (cases x)
    show ?case
      using Cons by (cases "live i") (auto simp: x List.map_filter_simps)
  qed (simp add: List.map_filter_simps)
  then have "distinct (map cs_node (List.map_filter ?f al))"
    using assms by (simp add: distinct_map_filter)
  then show ?thesis by (simp add: checked_slots_def distinct_map)
qed

section \<open>Keys of a plan\<close>

lemma assign_distinct: "distinct (map fst al) \<Longrightarrow> distinct (map fst (assign al i off sz))"
  by (simp add: assign_def distinct_update)

lemma plan_keys_distinct:
  assumes "plan_memory_aligned_inner env g al opts None width = Ok p"
  shows "distinct (map fst (plan_assignments p))"
proof -
  obtain r no_reuse keep bs st am arena al1 where
    st: "for_each (place g al no_reuse) placement_start bs = Ok st"
    and am: "(if no_reuse then Ok (pl_assigned st, pl_arena st)
        else for_each (relocate g al width keep) (pl_assigned st, pl_arena st) (map bi_id bs)) = Ok (am, arena)"
    and al1: "for_each (alias_view g width keep) am (g_nodes g) = Ok al1"
    and p: "plan_assignments p = al1"
    using assms by (fastforce simp: plan_memory_aligned_inner_def outcome_simps Let_def)
  have 1: "distinct (map fst (pl_assigned st))"
    by (rule for_each_invariant [OF st])
      (auto simp: placement_start_def place_def outcome_simps Let_def assign_distinct)
  have "distinct (map fst (fst (am, arena)))"
  proof (cases no_reuse)
    case True
    then show ?thesis using am 1 by simp
  next
    case False
    then have "for_each (relocate g al width keep) (pl_assigned st, pl_arena st) (map bi_id bs) = Ok (am, arena)"
      using am by simp
    then show ?thesis
    proof (rule for_each_invariant [where P = "\<lambda>s. distinct (map fst (fst s))"])
      fix s x t assume "distinct (map fst (fst s))" "relocate g al width keep s x = Ok t"
      then show "distinct (map fst (fst t))"
        by (auto simp: relocate_def outcome_simps Let_def assign_distinct
            split: prod.splits option.splits if_splits)
    qed (simp add: 1)
  qed
  then have 2: "distinct (map fst am)" by simp
  show ?thesis
    unfolding p
    by (rule for_each_invariant [OF al1, where P = "\<lambda>al. distinct (map fst al)", OF 2])
      (auto simp: alias_view_def outcome_simps assign_distinct split: prod.splits option.splits if_splits)
qed

end
