(* ===== verification/PlanWitnesses.thy ===== *)
theory PlanWitnesses
  imports Arena
begin

text \<open>
  A concrete graph on which the claims about the planner apply: an input, a parameter, a
  pack computed from the parameter alone, a reshape that is a view of it, and two nodes that
  read through the view.
\<close>

section \<open>The graph\<close>

definition plan_node :: "node_id \<Rightarrow> op \<Rightarrow> node_id list \<Rightarrow> nat list \<Rightarrow> node" where
  "plan_node i opr ins ds = \<lparr>n_id = i, n_op = opr, n_inputs = ins,
     n_shape = \<lparr>dims = map Static ds, shape_dtype = F32\<rparr>, n_name = None, n_origin = None\<rparr>"

definition plan_sample :: graph where
  "plan_sample = (graph_new ''g'')\<lparr>g_nodes :=
     [plan_node 0 (Input ''x'') [] [2], plan_node 1 (Param ''w'') [] [2],
      plan_node 2 (Activation Exp) [1] [2], plan_node 3 (Reshape [1, 2]) [2] [1, 2],
      plan_node 4 (Binary Mul) [0, 3] [1, 2], plan_node 5 (Activation Relu) [4] [1, 2]],
     g_outputs := [5]\<rparr>"

definition plan_env0 :: plan_env where
  "plan_env0 = \<lparr>env_no_reuse = False, env_pin_outputs = False, env_pin_host = False,
     env_no_reuse_ops = None\<rparr>"

lemma sample_len: "graph_len plan_sample = 6"
  by (simp add: plan_sample_def graph_len_def)

lemma sample_nodes:
  "g_nodes plan_sample ! 0 = plan_node 0 (Input ''x'') [] [2]"
  "g_nodes plan_sample ! 1 = plan_node 1 (Param ''w'') [] [2]"
  "g_nodes plan_sample ! Suc 0 = plan_node 1 (Param ''w'') [] [2]"
  "g_nodes plan_sample ! 2 = plan_node 2 (Activation Exp) [1] [2]"
  "g_nodes plan_sample ! 3 = plan_node 3 (Reshape [1, 2]) [2] [1, 2]"
  "g_nodes plan_sample ! 4 = plan_node 4 (Binary Mul) [0, 3] [1, 2]"
  "g_nodes plan_sample ! 5 = plan_node 5 (Activation Relu) [4] [1, 2]"
  by (simp_all add: plan_sample_def numeral_eq_Suc)

lemma less_6: "i < (6 :: nat) \<longleftrightarrow> i = 0 \<or> i = 1 \<or> i = 2 \<or> i = 3 \<or> i = 4 \<or> i = 5"
  by auto

lemma ready_plan_sample: "plan_ready plan_sample"
proof -
  have "wf_nodes (g_nodes plan_sample)"
    unfolding wf_nodes_def
    using sample_nodes by (auto simp: sample_len [unfolded graph_len_def] less_6 plan_node_def)
  then have "wf_graph plan_sample"
    by (simp add: wf_graph_def sample_len) (simp add: plan_sample_def)
  moreover have "node_ready plan_sample n" if "n \<in> set (g_nodes plan_sample)" for n
    using that
    by (auto simp: plan_sample_def node_ready_def plan_node_def shape_is_static_def)
  ultimately show ?thesis by (simp add: plan_ready_def)
qed

lemmas plannable_plan_sample = ready_plannable [OF ready_plan_sample]

lemma sample_views: "i < 6 \<Longrightarrow> pure_view_offset plan_sample (g_nodes plan_sample ! i) =
    Ok (if i = 3 then Some (2, 0) else None)"
  by (auto simp: less_6 sample_nodes plan_node_def pure_view_offset_def)

lemma sample_owns: "owns_slot plan_sample i \<longleftrightarrow> i < 6 \<and> i \<noteq> 3"
  using sample_views by (auto simp: owns_slot_def is_view_def sample_len)

lemma sample_static: "static_weight plan_sample 2"
proof -
  have "static_weight plan_sample 1"
    by (rule static_leaf) (simp_all add: sample_len sample_nodes plan_node_def)
  then show ?thesis
    by (intro static_inputs [where nonempty = True])
      (simp_all add: sample_len sample_nodes plan_node_def)
qed

section \<open>Ranges and plans\<close>

theorem resolve_view_root_exact_witness:
  "resolve_view_root plan_sample 3 = view_walk plan_sample 9 3 0"
proof (rule resolve_view_root_exact)
  have walk: "view_walk plan_sample (Suc (Suc 7)) 3 0 = Ok (2, 0)"
    using sample_views [of 3] sample_views [of 2] by (simp add: sample_len del: Suc_numeral)
  have nine: "(9 :: nat) = Suc (Suc 7)" by simp
  show "view_walk plan_sample 9 3 0 \<noteq> Err Diverges" unfolding nine walk by simp
qed

theorem elidable_matmul_transpose_indexed_witness:
  "is_elidable_matmul_transpose_indexed plan_sample (g_nodes plan_sample ! 4)
     (reader_index_new plan_sample) =
   is_elidable_matmul_transpose plan_sample (g_nodes plan_sample ! 4)"
  by (rule elidable_matmul_transpose_indexed [OF plannableD(2) [OF plannable_plan_sample]])

theorem static_weight_memo_witness:
  "\<exists>memo. is_static_weight_tensor plan_sample 2 Map.empty = Ok (True, memo)"
  using static_weight_memo [OF plannableD(1) [OF plannable_plan_sample], of Map.empty 2]
    sample_static
  by (auto simp: sample_len)

theorem static_weight_value_witness:
  "value_at (\<lambda>opr s vs. if opr = Input ''x'' then 7 else sum_list vs + 1) plan_sample 2 =
   value_at (\<lambda>opr s vs. if opr = Input ''x'' then 9 else sum_list vs + 1 :: nat) plan_sample 2"
proof (rule static_weight_value [OF sample_static plannableD(2) [OF plannable_plan_sample]])
  show "boundary_closed plan_sample"
    by (auto simp: boundary_closed_def plan_sample_def plan_node_def)
qed (simp add: same_but_inputs_def)

theorem plan_ranges_sound_witness:
  "\<exists>r. plan_ranges plan_env0 plan_sample (inference_options plan_env0) = Ok r \<and>
     live_sound plan_sample r"
proof -
  obtain r where "plan_ranges plan_env0 plan_sample (inference_options plan_env0) = Ok r"
    using plan_ranges_return [OF ready_plan_sample, of plan_env0 "inference_options plan_env0"]
    by (auto simp: returns_def)
  then show ?thesis using plan_ranges_sound [OF plannable_plan_sample] by blast
qed

theorem plan_returns_witness:
  "\<exists>p. plan_memory_aligned_inner plan_env0 plan_sample (2 ^ 6) (inference_options plan_env0)
     None Native = Ok p"
  by (rule plan_returns [OF ready_plan_sample])

lemma sample_planned:
  "\<exists>p. plan_memory_aligned_inner plan_env0 plan_sample (2 ^ 6) (inference_options plan_env0)
     None Native = Ok p"
  by (rule plan_exists [OF ready_plan_sample])

theorem safety_pass_idle_witness:
  "\<exists>r bs st. collect_buffers plan_sample (2 ^ 6) (inference_options plan_env0) Native {} r = Ok bs \<and>
     for_each (relocate plan_sample (2 ^ 6) Native {}) (pl_assigned st, pl_arena st) (map bi_id bs) =
       Ok (pl_assigned st, pl_arena st) \<and>
     for_each (place plan_sample (2 ^ 6) False) placement_start bs = Ok st"
proof -
  let ?o = "inference_options plan_env0"
  obtain r where r: "plan_ranges plan_env0 plan_sample ?o = Ok r"
    using plan_ranges_return [OF ready_plan_sample, of plan_env0 ?o] by (auto simp: returns_def)
  obtain bs where bs: "collect_buffers plan_sample (2 ^ 6) ?o Native {} r = Ok bs"
    using collect_returns [OF ready_plan_sample, of "2 ^ 6" ?o Native "{}" r]
    by (auto simp: returns_def)
  have "\<forall>b \<in> set bs. bi_id b < graph_len plan_sample"
    using collect_buffers_spec(2) [OF plannable_plan_sample bs] by blast
  then obtain st where st: "for_each (place plan_sample (2 ^ 6) False) placement_start bs = Ok st"
    using place_loop by blast
  show ?thesis using safety_pass_idle [OF plannable_plan_sample r bs st] bs st by blast
qed

theorem plan_keeps_live_apart_witness:
  "\<exists>p r. plan_memory_aligned_inner plan_env0 plan_sample (2 ^ 6) (inference_options plan_env0)
     None Native = Ok p \<and> live_together r 0 2 \<and> slots_disjoint p 0 2"
proof -
  obtain p where p: "plan_memory_aligned_inner plan_env0 plan_sample (2 ^ 6)
      (inference_options plan_env0) None Native = Ok p"
    using sample_planned by blast
  obtain r where r: "plan_ranges plan_env0 plan_sample (inference_options plan_env0) = Ok r"
    and apart: "\<forall>i j. owns_slot plan_sample i \<and> owns_slot plan_sample j \<and> i \<noteq> j \<and>
      (arena_no_reuse (inference_options plan_env0) \<or> live_together r i j) \<longrightarrow> slots_disjoint p i j"
    using plan_keeps_live_apart [OF plannable_plan_sample p] by blast
  have sound: "live_sound plan_sample r" using plan_ranges_live [OF plannable_plan_sample r] by blast
  have b: "is_boundary (n_op (g_nodes plan_sample ! 0))" by (simp add: sample_nodes plan_node_def)
  have "\<forall>s < 6. born_by r s s \<and>
      (is_boundary (n_op (g_nodes plan_sample ! s)) \<longrightarrow> born_by r s 0 \<and> live_to r s 6)"
    using sound by (simp add: live_sound_def sample_len)
  with b have "born_by r 0 0" "live_to r 0 6" "born_by r 2 2" by simp_all
  then obtain d c e where "r 0 = Some (0, d)" "6 \<le> d" "r 2 = Some (c, e)" "c \<le> 2"
    by (auto simp: born_by_def live_to_def)
  then have "live_together r 0 2" by (auto simp: live_together_def)
  then show ?thesis using p apart by (auto simp: sample_owns)
qed

lemma sample_native: "native_width_nodes plan_sample Native = Ok {}"
  by (simp add: native_width_nodes_def)

lemma sample_bytes: "i < 6 \<Longrightarrow> node_slot_bytes (g_nodes plan_sample ! i) Native b = 8"
  by (auto simp: less_6 sample_nodes plan_node_def node_slot_bytes_def Let_def shape_size_bytes_def
      num_elements_def checked_mul_def usize_max_def)

lemma sample_has_slot:
  assumes p: "plan_memory_aligned_inner plan_env0 plan_sample (2 ^ 6) (inference_options plan_env0)
      None Native = Ok p"
    and i: "owns_slot plan_sample i"
  shows "\<exists>s. slot_of (plan_assignments p) i = Some s"
proof -
  obtain r no_reuse keep bs st where
    "plan_made plan_env0 plan_sample 6 (inference_options plan_env0) Native p r no_reuse keep bs st"
    using plan_parts [OF plannable_plan_sample p] by blast
  moreover from this have
    "arena_plan plan_env0 plan_sample 6 (inference_options plan_env0) Native p r no_reuse keep bs st"
    using plannable_plan_sample
    by (auto simp: arena_plan_def plain_plan_def inference_options_def plan_sample_def plan_node_def)
  moreover have "0 < tensor_bytes plan_sample Native i"
    using i sample_bytes by (simp add: tensor_bytes_def sample_native sample_owns)
  ultimately show ?thesis
    using slot_exists [OF _ i] plan_madeD(10) i by (metis owns_slot_def)
qed


theorem static_pack_private_witness:
  "\<exists>p. plan_memory_aligned_inner plan_env0 plan_sample (2 ^ 6) (inference_options plan_env0)
     None Native = Ok p \<and> slots_disjoint p 2 5"
proof -
  obtain p where p: "plan_memory_aligned_inner plan_env0 plan_sample (2 ^ 6)
      (inference_options plan_env0) None Native = Ok p"
    using sample_planned by blast
  then show ?thesis
    using static_pack_private [OF plannable_plan_sample p sample_static] by (simp add: sample_owns)
qed

section \<open>Execution\<close>

text \<open>Byte kernels: a view passes its bytes on, any other operator mixes its operands'.\<close>

definition byte_kernels :: "nat list kernels" where
  "byte_kernels opr s vs =
     (let n = (case shape_size_bytes s of Some b \<Rightarrow> b | None \<Rightarrow> 0) in
      case opr of
        Reshape _ \<Rightarrow> take n (hd vs)
      | _ \<Rightarrow> map (\<lambda>j. 1 + sum_list (map (\<lambda>v. if j < length v then v ! j else 0) vs)) [0..<n])"

lemma byte_kernels_length:
  assumes "shape_size_bytes s = Some b" "\<nexists>ds. opr = Reshape ds"
  shows "length (byte_kernels opr s vs) = b"
  using assms by (cases opr) (simp_all add: byte_kernels_def Let_def)

lemma sample_not_reshape: "i < 6 \<Longrightarrow> i \<noteq> 3 \<Longrightarrow> \<nexists>ds. n_op (g_nodes plan_sample ! i) = Reshape ds"
  by (auto simp: less_6 sample_nodes plan_node_def)


end
