(* ===== verification/PlanGate.thy ===== *)
theory PlanGate
  imports PlanCheckLaws PlanWitnesses
begin

text \<open>
  The planner against its gates: every plan passes them. For any other plan, passing them
  means correct execution when uploads come first in the schedule, and may not otherwise.
\<close>

section \<open>The planner's plans pass\<close>

lemma owner_live:
  assumes g: "plannable g" and sound: "live_sound g r" and i: "i < graph_len g"
  shows "live_to r (owner g i) i" and "born_by r (owner g i) i"
proof -
  show "live_to r (owner g i) i"
  proof (cases "is_view g i")
    case False
    then have "owner g i = i" using owner_of_root(2) [OF i] i by (simp add: is_view_def)
    then show ?thesis using sound i by (simp add: live_sound_def)
  next
    case True
    then obtain q d where pv: "pure_view_offset g (g_nodes g ! i) = Ok (Some (q, d))"
      using plannableD(3) [OF g i] by (auto simp: is_view_def returns_def)
    have "q \<in> set (n_inputs (g_nodes g ! i))" using pure_view_parent [OF pv] by auto
    then show ?thesis
      using sound i owner_of_view(1) [OF g i pv] by (simp add: live_sound_def)
  qed
  have "born_by r (owner g i) (owner g i)"
    using sound resolve_owner(4) [OF g i] by (simp add: live_sound_def)
  then show "born_by r (owner g i) i"
    using resolve_owner(2) [OF g i] by (auto simp: born_by_def intro: order_trans)
qed

definition within :: "ranges \<Rightarrow> ranges \<Rightarrow> bool" where
  "within r live \<longleftrightarrow> (\<forall>x b d. live x = Some (b, d) \<longrightarrow> born_by r x b \<and> live_to r x d)"

lemma withinI: "(\<And>x b d. live x = Some (b, d) \<Longrightarrow> born_by r x b \<and> live_to r x d) \<Longrightarrow> within r live"
  by (simp add: within_def)

lemma within_upd:
  "within r live \<Longrightarrow> born_by r x b \<Longrightarrow> live_to r x d \<Longrightarrow> within r (live(x \<mapsto> (b, d)))"
  by (simp add: within_def)

lemma within_touch_inputs:
  assumes "within r live" and "\<forall>j \<in> set js. live (store j) \<noteq> None \<and> live_to r (store j) k"
  shows "within r (foldl (touch_input store k) live js)"
  using assms
proof (induction js arbitrary: live)
  case (Cons j js)
  obtain b d where bd: "live (store j) = Some (b, d)" using Cons.prems(2) by auto
  then have "live_to r (store j) (max d k)" "born_by r (store j) b"
    using Cons.prems by (auto simp: within_def max_def)
  then have "within r (touch_input store k live j)"
    unfolding touch_input_def using Cons.prems(1) bd by (simp add: within_upd)
  moreover have "touch_input store k live j x \<noteq> None" if "live x \<noteq> None" for x
    using that by (simp add: touch_input_def)
  ultimately show ?case using Cons by simp
qed simp

lemma checked_live_within:
  assumes g: "plannable g" and sound: "live_sound g r"
    and store: "\<And>i. i < graph_len g \<Longrightarrow> store i = owner g i"
    and l: "checked_live g store [0..<graph_len g] = Ok live"
  shows "within r live"
proof -
  let ?n = "graph_len g"
  let ?P = "\<lambda>k (l :: ranges). within r l \<and> (\<forall>s < k. l (owner g s) \<noteq> None)"
  obtain l0 where l0: "for_each (touch_node g store) Map.empty (enumerate 0 [0..<?n]) = Ok l0"
    and live: "live = foldl (\<lambda>r x. pin_death r x ?n) l0 (remdups (map store (g_outputs g)))"
    using l by (auto simp: checked_live_def outcome_simps)
  have "?P (length (enumerate 0 [0..<?n])) l0"
  proof (rule for_each_prefix [OF l0, where P = ?P], goal_cases)
    case 1
    then show ?case by (simp add: within_def)
  next
    case (2 k l l')
    then have k: "k < ?n" by simp
    let ?x = "owner g k"
    let ?l1 = "l(?x \<mapsto> (case l ?x of Some (b, _) \<Rightarrow> (b, k) | None \<Rightarrow> (k, k)))"
    have l': "l' = foldl (touch_input store k) ?l1 (n_inputs (g_nodes g ! k))"
      using 2(3) k by (simp add: nth_enumerate_eq touch_node_def Let_def store)
    have "within r ?l1"
      using 2(2) owner_live [OF g sound k] by (cases "l ?x") (auto simp: within_def)
    moreover have "?l1 (store j) \<noteq> None \<and> live_to r (store j) k"
      if j: "j \<in> set (n_inputs (g_nodes g ! k))" for j
    proof -
      have "j < k" by (rule plannableD(5) [OF g k j])
      then show ?thesis using 2(2) sound k j store [of j] by (auto simp: live_sound_def)
    qed
    ultimately have "within r l'" unfolding l' by (intro within_touch_inputs) auto
    moreover have "\<forall>s < Suc k. l' (owner g s) \<noteq> None"
    proof (intro allI impI)
      fix s assume "s < Suc k"
      then have "?l1 (owner g s) \<noteq> None" using 2(2) by (auto simp: less_Suc_eq)
      then obtain b d where "?l1 (owner g s) = Some (b, d)" by auto
      then show "l' (owner g s) \<noteq> None"
        using widens_touch_inputs [of ?l1 store k "n_inputs (g_nodes g ! k)"]
        unfolding l' widens_def by (metis option.distinct(1))
    qed
    ultimately show ?case by blast
  qed
  then have w: "within r l0" by blast
  show ?thesis
  proof (rule withinI)
    fix x b d assume x: "live x = Some (b, d)"
    show "born_by r x b \<and> live_to r x d"
    proof (cases "x \<in> set (remdups (map store (g_outputs g)))")
      case False
      then show ?thesis using x w by (simp add: live pin_deaths within_def)
    next
      case True
      then obtain o1 where o1: "o1 \<in> set (g_outputs g)" "x = store o1" by auto
      obtain d0 where "l0 x = Some (b, d0)" "d = ?n"
        using True x by (auto simp: live pin_deaths)
      moreover have "live_to r x ?n"
        using sound o1 store [OF output_less [OF g o1(1)]] by (simp add: live_sound_def)
      ultimately show ?thesis using w by (auto simp: within_def)
    qed
  qed
qed

definition views_fit :: "graph \<Rightarrow> arena_width \<Rightarrow> bool" where
  "views_fit g width \<longleftrightarrow>
     (\<forall>i < graph_len g.
        owner_offset g i + tensor_bytes g width i \<le> tensor_bytes g width (owner g i))"

lemma traverse_singletons:
  "(\<And>x. x \<in> set xs \<Longrightarrow> f x = Ok []) \<Longrightarrow> bind_outcome (traverse f xs) (\<lambda>fss. Ok (concat fss)) = Ok []"
  using traverse_total [of xs f "\<lambda>_. []"] by (simp add: map_replicate_const)

lemma checked_live_returns:
  assumes "\<And>i. i \<in> set schedule \<Longrightarrow> i < graph_len g"
  shows "returns (checked_live g store schedule)"
  unfolding checked_live_def
  by (intro returning) (use assms in \<open>auto simp: touch_node_def Let_def in_set_enumerate_eq\<close>)

lemma any_slot_in_arena:
  assumes g: "plannable g" and p: "plan_memory_aligned_inner env g (2 ^ k) opts None width = Ok p"
    and fit: "views_fit g width" and s: "slot_of (plan_assignments p) i = Some s"
  shows "i < graph_len g" and "slot_offset s + slot_size s \<le> plan_arena_size p"
proof -
  obtain r no_reuse keep bs st where m: "plan_made env g k opts width p r no_reuse keep bs st"
    using plan_parts [OF g p] by blast
  note keep = plan_madeD(4) [OF m] and bs = plan_madeD(5) [OF m] and ok = plan_madeD(6) [OF m]
    and slots = plan_madeD(10) [OF m]
  have placed: "j < graph_len g \<and> \<not> is_view g j" if j: "slot_of (pl_assigned st) j = Some t" for j t
  proof -
    obtain b where b: "b \<in> set bs" "bi_id b = j" by (rule slot_buffer [OF g bs ok j])
    then have jl: "j < graph_len g" and "buffer_of g (2 ^ k) opts width keep (reader_index_new g) r
        (g_nodes g ! j) = Ok (Some b)"
      using collect_buffers_spec(2) [OF g bs b(1)] by blast+
    then show ?thesis
      by (auto simp: is_view_def buffer_of_def outcome_simps simp del: not_None_eq split: if_splits)
  qed
  show il: "i < graph_len g"
    using s placed by (auto simp: slots is_view_def split: if_splits)
  show "slot_offset s + slot_size s \<le> plan_arena_size p"
  proof (cases "is_view g i")
    case False
    then have "owns_slot g i" using il by (simp add: owns_slot_def)
    then show ?thesis using slots_in_arena [OF g p _ s] by simp
  next
    case True
    obtain t where t: "slot_of (pl_assigned st) (owner g i) = Some t"
      and st: "s = \<lparr>slot_offset = slot_offset t + owner_offset g i,
        slot_size = node_slot_bytes (g_nodes g ! i) width (i \<in> keep)\<rparr>"
      using s True placed by (auto simp: slots view_slot_def split: option.splits)
    have own: "owns_slot g (owner g i)"
      using owner_not_view [OF g il] resolve_owner(4) [OF g il] by (simp add: owns_slot_def)
    then have pt: "slot_of (plan_assignments p) (owner g i) = Some t"
      using t by (simp add: slots owns_slot_def)
    obtain keep' where "native_width_nodes g width = Ok keep'"
      "slot_size t = slot_bytes_of g (2 ^ k) width keep' (owner g i)"
      and arena: "slot_offset t + slot_size t \<le> plan_arena_size p"
      using slots_in_arena [OF g p own pt] by auto
    then have "tensor_bytes g width (owner g i) \<le> slot_size t"
      by (simp add: tensor_bytes_def slot_bytes_of_def Let_def)
    moreover have "owner_offset g i + slot_size s \<le> tensor_bytes g width (owner g i)"
      using fit il keep by (simp add: views_fit_def tensor_bytes_def st)
    ultimately show ?thesis using arena by (simp add: st)
  qed
qed

lemma overlap_not_disjoint:
  "slot_overlaps s t \<Longrightarrow>
   \<not> disjoint_ranges (slot_offset s) (slot_size s) (slot_offset t) (slot_size t)"
  by (auto simp: slot_overlaps_def disjoint_ranges_def)

lemma enumerate_upt: "si \<in> set (enumerate 0 [0..<n]) \<Longrightarrow> \<exists>s. si = (s, s) \<and> s < n"
  by (cases si) (auto simp: in_set_enumerate_eq)

lemma planner_passes:
  assumes g: "plannable g" and p: "plan_memory_aligned_inner env g (2 ^ k) opts None width = Ok p"
    and fit: "views_fit g width"
  shows "\<exists>rp. check_plan g p = Ok rp \<and> is_clean rp"
proof -
  let ?n = "graph_len g" and ?al = "plan_assignments p"
  obtain r where r: "plan_ranges env g opts = Ok r"
    and apart: "\<forall>i j. owns_slot g i \<and> owns_slot g j \<and> i \<noteq> j \<and>
      (arena_no_reuse opts \<or> live_together r i j) \<longrightarrow> slots_disjoint p i j"
    using plan_apart [OF g p] by blast
  have sound: "live_sound g r" using plan_ranges_live [OF g r] by blast
  have sched: "plan_schedule p = [0..<?n]"
    using plan_parts [OF g p] plan_madeD(9) by (metis topo_order_def graph_len_def)
  obtain m dups where m: "positions_of (plan_schedule p) = (m, dups)"
    by (cases "positions_of (plan_schedule p)")
  note pos = positions_spec [OF m]
  have dups: "dups = []" using pos(1) by (simp add: sched)
  have at: "m i = Some i" if "i < ?n" for i
    using pos(2) [of i] pos(3) [of i] that by (auto simp: sched)
  have ins: "j < i" if "i < ?n" "j \<in> set (n_inputs (g_nodes g ! i))" for i j
    by (rule plannableD(5) [OF g that])
  have orders: "order_violations g m (plan_schedule p) = Ok []"
    unfolding order_violations_def
  proof (rule traverse_singletons)
    fix si assume "si \<in> set (enumerate 0 (plan_schedule p))"
    then obtain s where si: "si = (s, s)" "s < ?n" unfolding sched using enumerate_upt by blast
    have "\<not> s \<le> t" if "j \<in> set (n_inputs (g_nodes g ! s))" "m j = Some t" for j t
      using at [of j] ins [OF si(2) that(1)] si(2) that(2) by simp
    then show "(case si of (step, i) \<Rightarrow> bind_outcome (node_of g i) (\<lambda>n.
        Ok (map (\<lambda>j. finding OrderViolation i (Some j))
          (filter (\<lambda>j. case m j of Some t \<Rightarrow> step \<le> t | None \<Rightarrow> False) (n_inputs n))))) = Ok []"
      using si by (auto simp: filter_empty_conv split: option.splits)
  qed
  have missing: "missing_outputs g m = Ok []"
    unfolding missing_outputs_def
    by (rule traverse_singletons) (simp add: output_less [OF g] at)
  obtain aliases where al: "collect_view_aliases g = Ok aliases"
    using aliases_return [OF g] by (auto simp: returns_def)
  define store where "store = storage_of aliases"
  have store: "store i = owner g i" if "i < ?n" for i
    unfolding store_def by (rule aliases_owner [OF g al that])
  obtain live where live: "checked_live g store (plan_schedule p) = Ok live"
    using checked_live_returns [of "plan_schedule p" g store] by (auto simp: sched returns_def)
  have within: "within r live"
    by (rule checked_live_within [OF g sound]) (use store live sched in auto)
  have arena: "out_of_arena p = []"
    using any_slot_in_arena(2) [OF g p fit] plan_keys_distinct [OF p]
    by (fastforce simp: out_of_arena_def filter_empty_conv slot_of_def not_less)
  have own: "owns_slot g (owner g i)" if "i < ?n" for i
    using owner_not_view [OF g that] resolve_owner(4) [OF g that] by (simp add: owns_slot_def)
  have clash: "\<not> slot_overlaps s t"
    if "owns_slot g i" "owns_slot g j" "i \<noteq> j" "slot_of ?al i = Some s" "slot_of ?al j = Some t"
      "live_together r i j" for i j s t
    using apart that overlap_not_disjoint by (fastforce simp: slots_disjoint_def)
  let ?cs = "checked_slots store live ?al"
  have "pair_clashes outs ?cs = []" for outs
  proof (rule pair_clashes_parted)
    fix i j assume ij: "i < j" "j < length ?cs"
    let ?a = "?cs ! i" and ?b = "?cs ! j"
    have mem: "?a \<in> set ?cs" "?b \<in> set ?cs" using ij by simp_all
    note ma = mem [unfolded checked_slots_member]
    have ne: "cs_node ?a \<noteq> cs_node ?b"
      using checked_slots_distinct [OF plan_keys_distinct [OF p], of store live] ij
      by (auto simp: distinct_conv_nth)
    have so: "slot_of ?al (cs_node ?a) = Some (cs_slot ?a)" "slot_of ?al (cs_node ?b) = Some (cs_slot ?b)"
      using ma plan_keys_distinct [OF p] by (simp_all add: slot_of_def)
    have lt: "cs_node ?a < ?n" "cs_node ?b < ?n"
      using any_slot_in_arena(1) [OF g p fit] so by blast+
    have ow: "owns_slot g (cs_node ?a)" "owns_slot g (cs_node ?b)"
      using own lt ma store by metis+
    show "parted ?a ?b"
    proof (rule ccontr)
      assume "\<not> parted ?a ?b"
      then have ov: "slot_overlaps (cs_slot ?a) (cs_slot ?b)" "cs_birth ?b \<le> cs_death ?a"
        "cs_birth ?a \<le> cs_death ?b" by (auto simp: parted_def)
      have "born_by r (cs_node ?a) (cs_birth ?a) \<and> live_to r (cs_node ?a) (cs_death ?a)"
        "born_by r (cs_node ?b) (cs_birth ?b) \<and> live_to r (cs_node ?b) (cs_death ?b)"
        using within ma by (simp_all add: within_def)
      then have "live_together r (cs_node ?a) (cs_node ?b)"
        using ov(2,3) by (auto simp: born_by_def live_to_def live_together_def)
      then show False using clash [OF ow ne so] ov(1) by simp
    qed
  qed
  moreover have "stale_reads g store live p = Ok []"
    unfolding stale_reads_def
  proof (rule traverse_singletons)
    fix si assume "si \<in> set (enumerate 0 (plan_schedule p))"
    then obtain s where si: "si = (s, s)" "s < ?n" unfolding sched using enumerate_upt by blast
    have "stale_writers store live p s j = []" if j: "j \<in> set (n_inputs (g_nodes g ! s))" for j
    proof (rule ccontr)
      assume "stale_writers store live p s j \<noteq> []"
      then obtain w t u b d where w: "w < s" "store w \<noteq> store j" "slot_of ?al (store j) = Some t"
          "slot_of ?al (store w) = Some u" "slot_overlaps t u" "live (store j) = Some (b, d)" "b < w"
        by (auto simp: stale_writers_def filter_empty_conv sched in_set_enumerate_eq
            split: option.splits dest!: set_takeWhileD)
      have lt: "j < ?n" "w < ?n" using ins [OF si(2) j] w(1) si(2) by simp_all
      have "live_to r (owner g j) s" using sound si(2) j by (simp add: live_sound_def)
      moreover have "born_by r (owner g j) b"
        using within w(6) store [OF lt(1)] by (simp add: within_def)
      moreover note owner_live [OF g sound lt(2)]
      ultimately have "live_together r (owner g j) (owner g w)"
        using w(1,7) by (fastforce simp: born_by_def live_to_def live_together_def)
      then have "\<not> slot_overlaps t u"
        using clash [OF own [OF lt(1)] own [OF lt(2)]] w store [OF lt(1)] store [OF lt(2)] by metis
      then show False using w(5) by simp
    qed
    then show "(case si of (step, i) \<Rightarrow> bind_outcome (node_of g i) (\<lambda>n.
        Ok (concat (map (\<lambda>j. map (\<lambda>w. finding ReadAfterOverwrite i (Some w))
          (stale_writers store live p step j)) (n_inputs n))))) = Ok []"
      using si by simp
  qed
  ultimately show ?thesis
    using dups orders missing al live arena
    by (simp add: check_plan_def m store_def [symmetric] is_clean_def Let_def)
qed


section \<open>Plans that pass run correctly\<close>

text \<open>The plan has room for every tensor, views lie at their offset in their owner.\<close>

definition slots_hold :: "graph \<Rightarrow> arena_width \<Rightarrow> memory_plan \<Rightarrow> bool" where
  "slots_hold g width p \<longleftrightarrow>
     (\<forall>i < graph_len g. \<exists>s t. slot_of (plan_assignments p) i = Some s \<and>
        slot_of (plan_assignments p) (owner g i) = Some t \<and>
        slot_offset s = slot_offset t + owner_offset g i \<and>
        tensor_bytes g width (owner g i) \<le> slot_size t)"

text \<open>Inputs, parameters and constants come before every node that computes.\<close>

definition uploads_first :: "graph \<Rightarrow> node_id list \<Rightarrow> bool" where
  "uploads_first g schedule \<longleftrightarrow>
     (\<forall>s t. s < t \<and> t < length schedule \<and> is_boundary (n_op (g_nodes g ! (schedule ! t))) \<longrightarrow>
        is_boundary (n_op (g_nodes g ! (schedule ! s))))"

lemma off_of_slots:
  assumes "slots_hold g width p" and "i < graph_len g"
  shows "off_of (plan_assignments p) i = off_of (plan_assignments p) (owner g i) + owner_offset g i"
  using assms by (fastforce simp: slots_hold_def off_of_def)

lemma read_via_owner:
  assumes g: "plannable g" and v: "views_slice sem g width" and i: "i < graph_len g"
    and off: "off_of (plan_assignments p) i = off_of (plan_assignments p) (owner g i) + owner_offset g i"
    and own: "read_tensor g width p a (owner g i) = value_at sem g (owner g i)"
  shows "read_tensor g width p a i = value_at sem g i"
  using view_value(1) [OF g v i]
proof
  assume "value_at sem g i =
      take (tensor_bytes g width i) (drop (owner_offset g i) (value_at sem g (owner g i)))"
  also have "\<dots> = take (tensor_bytes g width i)
      (drop (owner_offset g i) (read_tensor g width p a (owner g i)))" by (simp only: own)
  also have "\<dots> = read_tensor g width p a i"
    unfolding read_tensor_def off by (rule read_bytes_sub [OF view_value(2) [OF g v i]])
  finally show ?thesis ..
next
  assume "owner g i = i \<and> owner_offset g i = 0"
  then show ?thesis using own by simp
qed

text \<open>What a clean report gives.\<close>

definition gated ::
  "graph \<Rightarrow> memory_plan \<Rightarrow> ranges \<Rightarrow> bool" where
  "gated g p live \<longleftrightarrow>
     distinct (plan_schedule p) \<and>
     (\<forall>s t. s < length (plan_schedule p) \<and> t < length (plan_schedule p) \<and>
        plan_schedule p ! t \<in> set (n_inputs (g_nodes g ! (plan_schedule p ! s))) \<longrightarrow> t < s) \<and>
     (\<forall>s < length (plan_schedule p). spans live (owner g (plan_schedule p ! s)) s \<and>
        (\<forall>j \<in> set (n_inputs (g_nodes g ! (plan_schedule p ! s))). spans live (owner g j) s)) \<and>
     (\<forall>i \<in> set (g_outputs g). live_to live (owner g i) (length (plan_schedule p))) \<and>
     (\<forall>i j s t. owns_slot g i \<and> owns_slot g j \<and> i \<noteq> j \<and> live_together live i j \<and>
        slot_of (plan_assignments p) i = Some s \<and> slot_of (plan_assignments p) j = Some t \<longrightarrow>
        \<not> slot_overlaps s t)"

lemma gated_apart:
  assumes "gated g p live" and "owns_slot g i" "owns_slot g j" "i \<noteq> j" "live_together live i j"
    and "slot_of (plan_assignments p) i = Some s" "slot_of (plan_assignments p) j = Some t"
  shows "\<not> slot_overlaps s t"
  using assms unfolding gated_def by blast

lemma clean_gated:
  assumes g: "plannable g" and rp: "check_plan g p = Ok rp" and clean: "is_clean rp"
    and all: "set (plan_schedule p) = {..<graph_len g}"
  shows "\<exists>live. gated g p live"
proof -
  let ?sched = "plan_schedule p" and ?al = "plan_assignments p"
  obtain m dups where m: "positions_of ?sched = (m, dups)" by (cases "positions_of ?sched")
  note pos = positions_spec [OF m]
  obtain orders missing aliases live stale where
    orders: "order_violations g m ?sched = Ok orders" and al: "collect_view_aliases g = Ok aliases"
    and live: "checked_live g (storage_of aliases) ?sched = Ok live"
    and rps: "rp_findings rp = dups @ orders @ missing @ out_of_arena p
        @ pair_clashes (set (map (storage_of aliases) (g_outputs g)))
            (checked_slots (storage_of aliases) live ?al) @ stale"
    using rp by (auto simp: check_plan_def m outcome_simps Let_def)
  define store where "store = storage_of aliases"
  note live = live [folded store_def]
  have none: "dups = []" "orders = []"
    "pair_clashes (set (map store (g_outputs g))) (checked_slots store live ?al) = []"
    using clean rps by (simp_all add: is_clean_def store_def)
  have store: "store i = owner g i" if "i < graph_len g" for i
    unfolding store_def by (rule aliases_owner [OF g al that])
  have dist: "distinct ?sched" using pos(1) none(1) by simp
  have node: "?sched ! s < graph_len g" if "s < length ?sched" for s
    using all nth_mem [OF that] by blast
  have input: "j < graph_len g" if "s < length ?sched" "j \<in> set (n_inputs (g_nodes g ! (?sched ! s)))" for s j
    using plannableD(5) [OF g node [OF that(1)] that(2)] node [OF that(1)] by simp
  have order: "t < s" if st: "s < length ?sched" "t < length ?sched"
      "?sched ! t \<in> set (n_inputs (g_nodes g ! (?sched ! s)))" for s t
  proof -
    obtain fss where fss: "list_all2 (\<lambda>(step, i) y. bind_outcome (node_of g i) (\<lambda>n.
          Ok (map (\<lambda>j. finding OrderViolation i (Some j))
            (filter (\<lambda>j. case m j of Some t \<Rightarrow> step \<le> t | None \<Rightarrow> False) (n_inputs n)))) =
          (Ok y :: plan_finding list planned)) (enumerate 0 ?sched) fss" and "concat fss = []"
      using orders none(2) by (auto simp: order_violations_def outcome_simps case_prod_unfold)
    then have "length fss = length ?sched" "fss ! s = []"
      using st(1) list_all2_lengthD [OF fss] by (auto simp: concat_eq_Nil_conv)
    then have "\<not> (case m (?sched ! t) of Some t \<Rightarrow> s \<le> t | None \<Rightarrow> False)"
      using list_all2_nthD [OF fss, of s] st node [OF st(1)]
      by (auto simp: nth_enumerate_eq filter_empty_conv)
    moreover have "m (?sched ! t) = Some t"
    proof -
      obtain u where u: "m (?sched ! t) = Some u" using pos(2) [of "?sched ! t"] st(2) by auto
      then have "u = t" using pos(3) [OF u] dist st(2) by (metis nth_eq_iff_index_eq)
      then show ?thesis using u by simp
    qed
    ultimately show ?thesis by simp
  qed
  have apart: "\<not> slot_overlaps s t"
    if ov: "owns_slot g i" "owns_slot g j" "i \<noteq> j" "live_together live i j"
      "slot_of ?al i = Some s" "slot_of ?al j = Some t" for i j s t
  proof -
    obtain b d b' d' where l: "live i = Some (b, d)" "live j = Some (b', d')" "b \<le> d'" "b' \<le> d"
      using ov(4) by (auto simp: live_together_def)
    let ?a = "\<lparr>cs_node = i, cs_slot = s, cs_birth = b, cs_death = d\<rparr>"
      and ?b = "\<lparr>cs_node = j, cs_slot = t, cs_birth = b', cs_death = d'\<rparr>"
    have "store i = i" "store j = j"
      using ov(1,2) store owner_of_root(2) [of i g] owner_of_root(2) [of j g]
      by (auto simp: owns_slot_def is_view_def)
    then have "?a \<in> set (checked_slots store live ?al)" "?b \<in> set (checked_slots store live ?al)"
      using ov(5,6) l by (auto simp: checked_slots_member slot_of_def dest: map_of_SomeD)
    then have "parted ?a ?b"
      using pair_clashes_complete [OF checked_slots_sorted none(3)] ov(3) by auto
    then show ?thesis using l by (auto simp: parted_def)
  qed
  have spans: "spans live (owner g (?sched ! s)) s" "j \<in> set (n_inputs (g_nodes g ! (?sched ! s))) \<Longrightarrow>
      spans live (owner g j) s" if "s < length ?sched" for s j
    using checked_spans(1) [OF live that] checked_spans(3) [OF live that]
      store [OF node [OF that]] input [OF that] store by simp_all
  have out: "live_to live (owner g i) (length ?sched)" if o1: "i \<in> set (g_outputs g)" for i
  proof -
    have il: "i < graph_len g" by (rule output_less [OF g o1])
    obtain s where s: "s < length ?sched" "?sched ! s = i"
      using all il by (metis in_set_conv_nth lessThan_iff)
    have "live_to live (store i) (length ?sched)"
      by (rule checked_spans(4) [OF live s(1) o1]) (simp_all add: s(2))
    then show ?thesis using store [OF il] by simp
  qed
  have "gated g p live"
    unfolding gated_def using dist order spans out apart by blast
  then show ?thesis by blast
qed

text \<open>Before step \<open>s\<close>, the buffers written or uploaded so far and read from \<open>s\<close> on hold
  their values.\<close>

definition holds_scheduled ::
  "graph \<Rightarrow> arena_width \<Rightarrow> memory_plan \<Rightarrow> ranges \<Rightarrow> 'b list kernels \<Rightarrow> nat \<Rightarrow> 'b arena \<Rightarrow> bool" where
  "holds_scheduled g width p live sem s a \<longleftrightarrow>
     (\<forall>i. owns_slot g i \<and> (i \<in> set (take s (plan_schedule p)) \<or> is_boundary (n_op (g_nodes g ! i))) \<and>
        live_to live i s \<longrightarrow> read_tensor g width p a i = value_at sem g i)"

lemma owner_scheduled:
  assumes g: "plannable g" and G: "gated g p live" and all: "set (plan_schedule p) = {..<graph_len g}"
    and s: "s < length (plan_schedule p)"
  shows "owner g (plan_schedule p ! s) \<in> set (take (Suc s) (plan_schedule p))"
  using s
proof (induction "plan_schedule p ! s" arbitrary: s rule: less_induct)
  case less
  let ?i = "plan_schedule p ! s"
  have i: "?i < graph_len g" using all nth_mem [OF less.prems] by blast
  have here: "?i \<in> set (take (Suc s) (plan_schedule p))"
    using less.prems by (simp add: take_Suc_conv_app_nth)
  show ?case
  proof (cases "is_view g ?i")
    case False
    then show ?thesis using here owner_of_root(2) [OF i] i by (simp add: is_view_def)
  next
    case True
    then obtain q d where pv: "pure_view_offset g (g_nodes g ! ?i) = Ok (Some (q, d))"
      using plannableD(3) [OF g i] by (auto simp: is_view_def returns_def)
    note own = owner_of_view [OF g i pv]
    have q: "q \<in> set (n_inputs (g_nodes g ! ?i))" using pure_view_parent [OF pv] by auto
    obtain t where t: "t < length (plan_schedule p)" "plan_schedule p ! t = q"
      using all own(3) i by (metis in_set_conv_nth lessThan_iff order_less_trans)
    have "t < s" using G less.prems t q by (auto simp: gated_def)
    moreover have "owner g q \<in> set (take (Suc t) (plan_schedule p))"
      using less.hyps [of t] t own(3) by simp
    ultimately show ?thesis
      using set_take_subset_set_take [of "Suc t" "Suc s" "plan_schedule p"] own(1) by auto
  qed
qed

lemma scheduled_step:
  assumes g: "plannable g" and G: "gated g p live" and all: "set (plan_schedule p) = {..<graph_len g}"
    and first: "uploads_first g (plan_schedule p)" and room: "slots_hold g width p"
    and v: "views_slice sem g width" and fit: "kernels_fit sem g width"
    and s: "s < length (plan_schedule p)" and a: "holds_scheduled g width p live sem s a"
  shows "holds_scheduled g width p live sem (Suc s) (run_step sem g width p a (plan_schedule p ! s))"
proof -
  let ?sched = "plan_schedule p"
  let ?i = "?sched ! s"
  let ?n = "g_nodes g ! ?i"
  have il: "?i < graph_len g" using all nth_mem [OF s] by blast
  have later: "live_to live x (Suc s) \<Longrightarrow> live_to live x s" for x by (auto simp: live_to_def)
  have taken: "x \<in> set (take (Suc s) ?sched) \<longleftrightarrow> x = ?i \<or> x \<in> set (take s ?sched)" for x
    using s by (auto simp: take_Suc_conv_app_nth)
  show ?thesis
  proof (cases "is_boundary (n_op ?n) \<or> is_view g ?i")
    case True
    then show ?thesis
      using a later by (auto simp: holds_scheduled_def run_step_def taken owns_slot_def)
  next
    case False
    have osl: "owns_slot g ?i" using False il by (simp add: owns_slot_def)
    have oi: "owner g ?i = ?i"
      using osl owner_of_root(2) [OF il] by (simp add: owns_slot_def is_view_def)
    let ?out = "sem (n_op ?n) (n_shape ?n) (map (read_tensor g width p a) (n_inputs ?n))"
    let ?a = "write_bytes a (off_of (plan_assignments p) ?i) ?out"
    have step: "run_step sem g width p a ?i = ?a" using False by (simp add: run_step_def Let_def)
    have "read_tensor g width p a j = value_at sem g j" if j: "j \<in> set (n_inputs ?n)" for j
    proof -
      have jl: "j < graph_len g" using plannableD(5) [OF g il j] il by simp
      obtain t where t: "t < length ?sched" "?sched ! t = j"
        using all jl by (metis in_set_conv_nth lessThan_iff)
      then have "t < s" using G s j by (auto simp: gated_def)
      then have "owner g j \<in> set (take s ?sched)"
        using owner_scheduled [OF g G all t(1)] set_take_subset_set_take [of "Suc t" s ?sched] t(2)
        by auto
      moreover have "live_to live (owner g j) s" using G s j by (auto simp: gated_def spans_def)
      moreover have "owns_slot g (owner g j)"
        using owner_not_view [OF g jl] resolve_owner(4) [OF g jl] by (simp add: owns_slot_def)
      ultimately have "read_tensor g width p a (owner g j) = value_at sem g (owner g j)"
        using a by (simp add: holds_scheduled_def)
      then show ?thesis by (rule read_via_owner [OF g v jl off_of_slots [OF room jl]])
    qed
    then have out: "?out = value_at sem g ?i"
      by (simp add: value_at_wf [OF plannableD(2) [OF g] il] cong: map_cong)
    have len: "length ?out = tensor_bytes g width ?i" using fit osl by (simp add: kernels_fit_def)
    have "read_tensor g width p ?a x = value_at sem g x"
      if x: "owns_slot g x" "x \<in> set (take (Suc s) ?sched) \<or> is_boundary (n_op (g_nodes g ! x))"
        "live_to live x (Suc s)" for x
    proof (cases "x = ?i")
      case True
      have "read_tensor g width p ?a ?i = ?out"
        unfolding read_tensor_def [of g width p ?a ?i] len [symmetric] by (rule read_write_same)
      then show ?thesis by (simp only: True out)
    next
      case ne: False
      have xl: "x < graph_len g" using x(1) by (simp add: owns_slot_def)
      have old: "read_tensor g width p a x = value_at sem g x"
        using a x later ne by (auto simp: holds_scheduled_def taken)
      obtain u where u: "u < length ?sched" "?sched ! u = x"
        using all xl by (metis in_set_conv_nth lessThan_iff)
      have "u < s"
      proof (cases "x \<in> set (take s ?sched)")
        case True
        then obtain w where "w < s" "?sched ! w = x" using s by (auto simp: in_set_conv_nth)
        moreover have "distinct ?sched" using G by (simp add: gated_def)
        ultimately show ?thesis using u s by (metis nth_eq_iff_index_eq order_less_trans)
      next
        case out: False
        then have "is_boundary (n_op (g_nodes g ! x))" using x(2) ne taken by blast
        then have "\<not> s < u" using first u False by (auto simp: uploads_first_def)
        then show ?thesis using ne u by (metis linorder_neqE_nat)
      qed
      then have "born_by live x s"
        using G u owner_of_root(2) [OF xl] x(1)
        by (fastforce simp: gated_def spans_def born_by_def owns_slot_def is_view_def)
      moreover have "spans live ?i s" using G s oi by (fastforce simp: gated_def)
      ultimately have together: "live_together live ?i x"
        using later [OF x(3)] by (auto simp: spans_def born_by_def live_to_def live_together_def)
      obtain si sx where slots: "slot_of (plan_assignments p) ?i = Some si"
          "slot_of (plan_assignments p) x = Some sx"
          "tensor_bytes g width ?i \<le> slot_size si" "tensor_bytes g width x \<le> slot_size sx"
      proof -
        have ox: "owner g x = x"
          using x(1) owner_of_root(2) [OF xl] by (simp add: owns_slot_def is_view_def)
        have hold: "\<exists>t. slot_of (plan_assignments p) y = Some t \<and> tensor_bytes g width y \<le> slot_size t"
          if "y < graph_len g" "owner g y = y" for y
          using room that by (fastforce simp: slots_hold_def)
        show thesis using that hold [OF il oi] hold [OF xl ox] by blast
      qed
      have "\<not> slot_overlaps si sx"
        by (rule gated_apart [OF G osl x(1) _ together slots(1,2)]) (use ne in simp)
      then have "disjoint_ranges (off_of (plan_assignments p) ?i) (length ?out)
          (off_of (plan_assignments p) x) (tensor_bytes g width x)"
        using slots by (auto simp: len off_of_def slot_overlaps_def disjoint_ranges_def)
      then show ?thesis using old by (simp add: read_tensor_def read_write_disjoint)
    qed
    then show ?thesis by (simp add: holds_scheduled_def step)
  qed
qed

lemma clean_runs:
  assumes g: "plannable g" and rp: "check_plan g p = Ok rp" and clean: "is_clean rp"
    and all: "set (plan_schedule p) = {..<graph_len g}"
    and first: "uploads_first g (plan_schedule p)" and room: "slots_hold g width p"
    and v: "views_slice sem g width" and fit: "kernels_fit sem g width"
    and up: "uploaded sem g width p a"
  shows "map (read_tensor g width p (run_schedule sem g width p a)) (g_outputs g) =
    output_values sem g"
proof -
  let ?sched = "plan_schedule p"
  obtain live where G: "gated g p live" using clean_gated [OF g rp clean all] by blast
  have "holds_scheduled g width p live sem s (foldl (run_step sem g width p) a (take s ?sched))"
    if "s \<le> length ?sched" for s
    using that
  proof (induction s)
    case 0
    then show ?case using up by (simp add: holds_scheduled_def uploaded_def owns_slot_def)
  next
    case (Suc s)
    then show ?case
      using scheduled_step [OF g G all first room v fit, of s] by (simp add: take_Suc_conv_app_nth)
  qed
  then have final: "holds_scheduled g width p live sem (length ?sched) (run_schedule sem g width p a)"
    by (fastforce simp: run_schedule_def)
  have "read_tensor g width p (run_schedule sem g width p a) i = value_at sem g i"
    if i: "i \<in> set (g_outputs g)" for i
  proof -
    have il: "i < graph_len g" by (rule output_less [OF g i])
    have own: "owner g i < graph_len g" by (rule resolve_owner(4) [OF g il])
    then have "owns_slot g (owner g i)" "owner g i \<in> set ?sched"
      using owner_not_view [OF g il] all by (simp_all add: owns_slot_def)
    moreover have "live_to live (owner g i) (length ?sched)" using G i by (simp add: gated_def)
    ultimately have "read_tensor g width p (run_schedule sem g width p a) (owner g i) =
        value_at sem g (owner g i)"
      using final by (simp add: holds_scheduled_def)
    then show ?thesis by (rule read_via_owner [OF g v il off_of_slots [OF room il]])
  qed
  then show ?thesis by (simp add: output_values_def)
qed


section \<open>Uploads that come late are not seen\<close>

text \<open>A parameter first reached at step 3 shares its byte with a buffer of steps 1 and 2. Its
  upload happens before the run, so step 1 overwrites it.\<close>

definition late_node :: "node_id \<Rightarrow> op \<Rightarrow> node_id list \<Rightarrow> node" where
  "late_node i opr ins = \<lparr>n_id = i, n_op = opr, n_inputs = ins,
     n_shape = \<lparr>dims = [Static 1], shape_dtype = U8\<rparr>, n_name = None, n_origin = None\<rparr>"

definition late_sample :: graph where
  "late_sample = (graph_new ''late'')\<lparr>g_nodes :=
     [late_node 0 (Input ''x'') [], late_node 1 (Activation Relu) [0],
      late_node 2 (Activation Exp) [1], late_node 3 (Param ''w'') [],
      late_node 4 (Binary Mul) [2, 3]],
     g_outputs := [4]\<rparr>"

definition late_plan :: memory_plan where
  "late_plan = \<lparr>plan_arena_size = 4,
     plan_assignments = map (\<lambda>(i, off). (i, \<lparr>slot_offset = off, slot_size = 1\<rparr>))
       [(0, 0), (1, 1), (2, 2), (3, 1), (4, 3)],
     plan_schedule = [0, 1, 2, 3, 4]\<rparr>"

lemma late_len: "graph_len late_sample = 5"
  by (simp add: late_sample_def graph_len_def)

lemma late_nodes:
  "g_nodes late_sample ! 0 = late_node 0 (Input ''x'') []"
  "g_nodes late_sample ! Suc 0 = late_node 1 (Activation Relu) [0]"
  "g_nodes late_sample ! 2 = late_node 2 (Activation Exp) [1]"
  "g_nodes late_sample ! 3 = late_node 3 (Param ''w'') []"
  "g_nodes late_sample ! 4 = late_node 4 (Binary Mul) [2, 3]"
  by (simp_all add: late_sample_def numeral_eq_Suc)

lemma less_5: "i < (5 :: nat) \<longleftrightarrow> i = 0 \<or> i = 1 \<or> i = 2 \<or> i = 3 \<or> i = 4"
  by auto

lemma late_plannable: "plannable late_sample"
proof -
  have "wf_nodes (g_nodes late_sample)"
    unfolding wf_nodes_def
    using late_nodes by (auto simp: late_len [unfolded graph_len_def] less_5 late_node_def)
  then have "wf_graph late_sample"
    by (simp add: wf_graph_def late_len) (simp add: late_sample_def)
  moreover have "returns (pure_view_offset late_sample n)" if "n \<in> set (g_nodes late_sample)" for n
    using that by (auto simp: late_sample_def late_node_def pure_view_offset_def)
  ultimately show ?thesis by (simp add: plannable_def)
qed

lemma late_views: "i < 5 \<Longrightarrow> pure_view_offset late_sample (g_nodes late_sample ! i) = Ok None"
  by (auto simp: less_5 late_nodes late_node_def pure_view_offset_def)

lemma late_owner: "i < 5 \<Longrightarrow> owner late_sample i = i \<and> owner_offset late_sample i = 0"
  using owner_of_root [of i late_sample] late_views late_len by simp

lemma late_owns: "owns_slot late_sample i \<longleftrightarrow> i < 5"
  using late_views by (auto simp: owns_slot_def is_view_def late_len)

lemma late_bytes: "i < 5 \<Longrightarrow> tensor_bytes late_sample Native i = 1"
  by (auto simp: tensor_bytes_def native_width_nodes_def less_5 late_nodes late_node_def
      node_slot_bytes_def Let_def shape_size_bytes_def num_elements_def checked_mul_def usize_max_def)

lemma late_size: "i < 5 \<Longrightarrow> shape_size_bytes (n_shape (g_nodes late_sample ! i)) = Some 1"
  by (auto simp: less_5 late_nodes late_node_def shape_size_bytes_def num_elements_def
      checked_mul_def usize_max_def)

lemma late_clean: "\<exists>rp. check_plan late_sample late_plan = Ok rp \<and> is_clean rp"
proof -
  have "(case check_plan late_sample late_plan of Ok rp \<Rightarrow> is_clean rp | _ \<Rightarrow> False)" by code_simp
  then show ?thesis by (cases "check_plan late_sample late_plan") auto
qed

lemma late_slots: "slots_hold late_sample Native late_plan"
  unfolding slots_hold_def late_len
  using late_owner late_bytes by (auto simp: less_5 late_plan_def slot_of_def)

lemma late_slices: "views_slice byte_kernels late_sample Native"
  unfolding views_slice_def late_len using late_views by simp

lemma late_off:
  "off_of (plan_assignments late_plan) 0 = 0" "off_of (plan_assignments late_plan) (Suc 0) = 1"
  "off_of (plan_assignments late_plan) 2 = 2" "off_of (plan_assignments late_plan) 3 = 1"
  "off_of (plan_assignments late_plan) 4 = 3"
  by (simp_all add: off_of_def slot_of_def late_plan_def)

lemma late_kernel:
  assumes "i < 5"
  shows "byte_kernels (n_op (g_nodes late_sample ! i)) (n_shape (g_nodes late_sample ! i)) vs =
    [1 + sum_list (map (\<lambda>v. if 0 < length v then v ! 0 else 0) vs)]"
  using assms late_size [OF assms]
  by (auto simp: byte_kernels_def less_5 late_nodes late_node_def)

lemma late_fit: "kernels_fit byte_kernels late_sample Native"
  unfolding kernels_fit_def late_owns using late_kernel late_bytes by simp

lemma late_value:
  assumes "i < 5"
  shows "value_at byte_kernels late_sample i =
    [1 + sum_list (map (\<lambda>j. if 0 < length (value_at byte_kernels late_sample j)
       then value_at byte_kernels late_sample j ! 0 else 0) (n_inputs (g_nodes late_sample ! i)))]"
  using late_kernel [OF assms] assms
  by (simp add: value_at_wf [OF plannableD(2) [OF late_plannable]] late_len comp_def)

lemma late_values:
  "value_at byte_kernels late_sample 0 = [1]" "value_at byte_kernels late_sample (Suc 0) = [2]"
  "value_at byte_kernels late_sample 2 = [3]" "value_at byte_kernels late_sample 3 = [1]"
  "value_at byte_kernels late_sample 4 = [5]"
  by (simp_all add: late_value late_nodes late_node_def)

lemma late_step:
  assumes "i < 5" and "\<not> is_boundary (n_op (g_nodes late_sample ! i))"
  shows "run_step byte_kernels late_sample Native late_plan a i =
    a(off_of (plan_assignments late_plan) i := 1 + sum_list (map (\<lambda>j.
        read_tensor late_sample Native late_plan a j ! 0) (n_inputs (g_nodes late_sample ! i))))"
proof -
  have "read_tensor late_sample Native late_plan a j \<noteq> []"
    if "j \<in> set (n_inputs (g_nodes late_sample ! i))" for j
    using that assms(1) plannableD(5) [OF late_plannable, of i j] late_bytes [of j]
    by (simp add: read_tensor_def late_len read_bytes_def)
  then have "map (\<lambda>v. if 0 < length v then v ! 0 else 0)
      (map (read_tensor late_sample Native late_plan a) (n_inputs (g_nodes late_sample ! i))) =
    map (\<lambda>j. read_tensor late_sample Native late_plan a j ! 0) (n_inputs (g_nodes late_sample ! i))"
    by simp
  then show ?thesis
    using assms late_views [OF assms(1)] late_kernel [OF assms(1)]
    by (auto simp: run_step_def Let_def is_view_def write_bytes_def fun_eq_iff late_len
        simp del: map_map)
qed

lemma late_run:
  "read_tensor late_sample Native late_plan
     (run_schedule byte_kernels late_sample Native late_plan (\<lambda>_. 1)) 4 = [6]"
proof -
  have b: "\<And>i a. i < 5 \<Longrightarrow> read_tensor late_sample Native late_plan a i =
      [a (off_of (plan_assignments late_plan) i)]"
    using late_bytes by (simp add: read_tensor_def read_bytes_def)
  have s: "plan_schedule late_plan = [0, Suc 0, 2, 3, 4]" by (simp add: late_plan_def)
  have skip: "run_step byte_kernels late_sample Native late_plan a i = a"
    if "i = 0 \<or> i = 3" for a i
    using that by (auto simp: run_step_def late_nodes late_node_def)
  show ?thesis
    unfolding run_schedule_def s
    by (simp add: skip late_step b late_off late_nodes) (simp add: late_node_def b late_off late_nodes late_step)
qed

text \<open>C37. The gates miss late uploads: there is a plan with a clean report, every node scheduled
  after its inputs and room for every tensor, whose execution from correctly uploaded inputs
  and parameters gives a wrong output.\<close>

theorem check_plan_misses_late_uploads:
  "\<exists>g p rp a. plannable g \<and> check_plan g p = Ok rp \<and> is_clean rp \<and>
     set (plan_schedule p) = {..<graph_len g} \<and> slots_hold g Native p \<and>
     views_slice byte_kernels g Native \<and> kernels_fit byte_kernels g Native \<and>
     uploaded byte_kernels g Native p a \<and>
     map (read_tensor g Native p (run_schedule byte_kernels g Native p a)) (g_outputs g) \<noteq>
       output_values byte_kernels g"
proof -
  obtain rp where rp: "check_plan late_sample late_plan = Ok rp" "is_clean rp"
    using late_clean by blast
  have sched: "set (plan_schedule late_plan) = {..<graph_len late_sample}"
    by (auto simp: late_plan_def late_len)
  have up: "uploaded byte_kernels late_sample Native late_plan (\<lambda>_. 1)"
    unfolding uploaded_def late_len
  proof (intro allI impI)
    fix i :: nat assume i: "i < 5" "is_boundary (n_op (g_nodes late_sample ! i))"
    then have "i = 0 \<or> i = 3" by (auto simp: less_5 late_nodes late_node_def)
    then show "read_tensor late_sample Native late_plan (\<lambda>_. 1) i = value_at byte_kernels late_sample i"
      using late_bytes [OF i(1)] by (auto simp: read_tensor_def read_bytes_def late_values)
  qed
  have "map (read_tensor late_sample Native late_plan
      (run_schedule byte_kernels late_sample Native late_plan (\<lambda>_. 1))) (g_outputs late_sample) \<noteq>
      output_values byte_kernels late_sample"
    by (simp add: output_values_def late_run late_values late_sample_def [THEN arg_cong, of g_outputs]
        del: One_nat_def)
  then show ?thesis
    using late_plannable rp sched late_slots late_slices late_fit up by blast
qed

text \<open>With the parameter first and the bytes of dead buffers reused, the same graph runs.\<close>

definition early_plan :: memory_plan where
  "early_plan = \<lparr>plan_arena_size = 3,
     plan_assignments = map (\<lambda>(i, off). (i, \<lparr>slot_offset = off, slot_size = 1\<rparr>))
       [(0, 0), (1, 2), (2, 0), (3, 1), (4, 2)],
     plan_schedule = [0, 3, 1, 2, 4]\<rparr>"


text \<open>The sample of the planner's witnesses: uploads come first in it.\<close>

lemma sample_owner_bytes: "i < 6 \<Longrightarrow> tensor_bytes plan_sample Native i = 8"
  using sample_bytes by (simp add: tensor_bytes_def sample_native)

lemma sample_owner: "i < 6 \<Longrightarrow> owner plan_sample i = (if i = 3 then 2 else i) \<and>
    owner_offset plan_sample i = 0"
proof -
  assume i: "i < 6"
  have two: "owner plan_sample 2 = 2" "owner_offset plan_sample 2 = 0"
    using owner_of_root [of 2 plan_sample] sample_views [of 2] by (simp_all add: sample_len)
  show ?thesis
  proof (cases "i = 3")
    case True
    then show ?thesis
      using owner_of_view [OF plannable_plan_sample, of 3 2 0] sample_views [of 3] two
      by (simp add: sample_len)
  next
    case False
    then show ?thesis
      using owner_of_root [of i plan_sample] sample_views [OF i] i by (simp add: sample_len)
  qed
qed

lemma sample_views_fit: "views_fit plan_sample Native"
  using sample_owner sample_owner_bytes by (simp add: views_fit_def sample_len)


end
