(* ===== verification/Hazards.thy ===== *)
theory Hazards
  imports RlxPrelude
begin

text \<open>
  Byte ranges (\<open>crates/core/rlx-ir/src/arena_range.rs\<close>) and the hazard scan over an executed
  schedule (\<open>memory.rs\<close>, lines 380 to 556). Backends reorder and fuse the planned steps; the
  scan checks that between the step producing a value and the step reading it nothing writes
  its bytes. It finds exactly these hazards, and a schedule without any delivers to every
  read the bytes its producer left.
\<close>

section \<open>Byte ranges\<close>

datatype byte_range = ByteRange (br_off: nat) (br_len: nat)

text \<open>The derived order: by offset, then by length.\<close>

instantiation byte_range :: linorder
begin

definition less_eq_byte_range :: "byte_range \<Rightarrow> byte_range \<Rightarrow> bool" where
  "a \<le> b \<longleftrightarrow> br_off a < br_off b \<or> br_off a = br_off b \<and> br_len a \<le> br_len b"

definition less_byte_range :: "byte_range \<Rightarrow> byte_range \<Rightarrow> bool" where
  "a < b \<longleftrightarrow> br_off a < br_off b \<or> br_off a = br_off b \<and> br_len a < br_len b"

instance
  by standard (auto simp: less_eq_byte_range_def less_byte_range_def byte_range.expand)

end

definition range_new :: "nat \<Rightarrow> nat \<Rightarrow> byte_range" where
  "range_new off n = ByteRange off n"

definition f32_elems :: "nat \<Rightarrow> nat \<Rightarrow> byte_range" where
  "f32_elems off elems = ByteRange off (elems * 4)"

definition range_end :: "byte_range \<Rightarrow> nat" where
  "range_end r = saturating_add (br_off r) (br_len r)"

definition range_overlaps :: "byte_range \<Rightarrow> byte_range \<Rightarrow> bool" where
  "range_overlaps a b \<longleftrightarrow>
     br_len a \<noteq> 0 \<and> br_len b \<noteq> 0 \<and> br_off a < range_end b \<and> br_off b < range_end a"

definition range_bytes :: "byte_range \<Rightarrow> nat set" where
  "range_bytes r = {br_off r ..< br_off r + br_len r}"

definition addressable :: "byte_range \<Rightarrow> bool" where
  "addressable r \<longleftrightarrow> br_off r + br_len r \<le> usize_max"

lemma range_overlaps_bytes:
  assumes "addressable a" and "addressable b"
  shows "range_overlaps a b \<longleftrightarrow> range_bytes a \<inter> range_bytes b \<noteq> {}"
proof
  assume "range_overlaps a b"
  then have "max (br_off a) (br_off b) \<in> range_bytes a \<inter> range_bytes b"
    using assms
    by (auto simp: range_overlaps_def range_bytes_def range_end_def addressable_def
        saturating_add_exact)
  then show "range_bytes a \<inter> range_bytes b \<noteq> {}" by blast
next
  assume "range_bytes a \<inter> range_bytes b \<noteq> {}"
  then show "range_overlaps a b"
    using assms
    by (auto simp: range_overlaps_def range_bytes_def range_end_def addressable_def
        saturating_add_exact)
qed

lemma range_overlaps_sym: "range_overlaps a b \<longleftrightarrow> range_overlaps b a"
  by (auto simp: range_overlaps_def)

section \<open>The scan\<close>

record schedule_read =
  sr_range :: byte_range
  sr_produced_at :: nat

record step_io =
  io_label :: string
  io_writes :: "byte_range list"
  io_reads :: "schedule_read list"
  io_opaque :: bool

datatype hazard =
    Clobbered (hz_read_step: nat) (hz_produced_at: nat) (hz_clobber_step: nat) string byte_range
  | InPlace nat string byte_range
  | AliasedWrites nat string byte_range
  | Unverifiable nat string

fun aliased_writes :: "nat \<Rightarrow> string \<Rightarrow> byte_range list \<Rightarrow> hazard list" where
  "aliased_writes c label [] = []"
| "aliased_writes c label (a # ws) =
     map (\<lambda>_. AliasedWrites c label a) (filter (range_overlaps a) ws) @ aliased_writes c label ws"

definition in_place :: "nat \<Rightarrow> step_io \<Rightarrow> hazard list" where
  "in_place c step =
     concat (map (\<lambda>r. map (InPlace c (io_label step))
         (filter (range_overlaps (sr_range r)) (io_writes step)))
       (io_reads step))"

text \<open>The state of the scan: the opaque steps reported so far (the flags) and the findings.\<close>

type_synonym scan = "nat set \<times> hazard list"

definition scan_mid :: "nat \<Rightarrow> schedule_read \<Rightarrow> scan \<Rightarrow> nat \<times> step_io \<Rightarrow> scan" where
  "scan_mid c r st mm =
     (case st of (reported, out) \<Rightarrow> case mm of (m, mid) \<Rightarrow>
        if io_opaque mid
        then if m \<in> reported then (reported, out)
             else (insert m reported, out @ [Unverifiable m (io_label mid)])
        else (reported, out @ map (Clobbered c (sr_produced_at r) m (io_label mid))
               (filter (\<lambda>w. range_overlaps w (sr_range r)) (io_writes mid))))"

definition between :: "step_io list \<Rightarrow> nat \<Rightarrow> nat \<Rightarrow> (nat \<times> step_io) list" where
  "between steps lo c = drop lo (take c (enumerate 0 steps))"

definition scan_read :: "step_io list \<Rightarrow> nat \<Rightarrow> scan \<Rightarrow> schedule_read \<Rightarrow> scan" where
  "scan_read steps c st r =
     foldl (scan_mid c r) st (between steps (saturating_add (sr_produced_at r) 1) c)"

definition scan_step :: "step_io list \<Rightarrow> scan \<Rightarrow> nat \<times> step_io \<Rightarrow> scan" where
  "scan_step steps st cs =
     (case st of (reported, out) \<Rightarrow> case cs of (c, step) \<Rightarrow>
        foldl (scan_read steps c)
          (reported, out @ aliased_writes c (io_label step) (io_writes step) @ in_place c step)
          (io_reads step))"

definition schedule_hazards :: "step_io list \<Rightarrow> hazard list" where
  "schedule_hazards steps = snd (foldl (scan_step steps) ({}, []) (enumerate 0 steps))"

section \<open>What the scan finds\<close>

text \<open>A write of step \<open>m\<close> lands between the production and the read of \<open>r\<close> in step \<open>c\<close>.\<close>

definition lands_between :: "nat \<Rightarrow> schedule_read \<Rightarrow> nat \<Rightarrow> bool" where
  "lands_between c r m \<longleftrightarrow> saturating_add (sr_produced_at r) 1 \<le> m \<and> m < c"

fun is_hazard :: "step_io list \<Rightarrow> hazard \<Rightarrow> bool" where
  "is_hazard steps (Clobbered c p m label w) \<longleftrightarrow>
     c < length steps \<and> label = io_label (steps ! m) \<and> \<not> io_opaque (steps ! m) \<and>
     w \<in> set (io_writes (steps ! m)) \<and>
     (\<exists>r \<in> set (io_reads (steps ! c)). sr_produced_at r = p \<and> lands_between c r m \<and>
        range_overlaps w (sr_range r))"
| "is_hazard steps (InPlace c label w) \<longleftrightarrow>
     c < length steps \<and> label = io_label (steps ! c) \<and> w \<in> set (io_writes (steps ! c)) \<and>
     (\<exists>r \<in> set (io_reads (steps ! c)). range_overlaps (sr_range r) w)"
| "is_hazard steps (AliasedWrites c label a) \<longleftrightarrow>
     c < length steps \<and> label = io_label (steps ! c) \<and>
     (\<exists>i j. i < j \<and> j < length (io_writes (steps ! c)) \<and> io_writes (steps ! c) ! i = a \<and>
        range_overlaps a (io_writes (steps ! c) ! j))"
| "is_hazard steps (Unverifiable m label) \<longleftrightarrow>
     m < length steps \<and> label = io_label (steps ! m) \<and> io_opaque (steps ! m) \<and>
     (\<exists>c < length steps. \<exists>r \<in> set (io_reads (steps ! c)). lands_between c r m)"

lemma between_eq: "c \<le> length steps \<Longrightarrow> between steps lo c = map (\<lambda>m. (m, steps ! m)) [lo..<c]"
proof -
  assume c: "c \<le> length steps"
  then have "take c (enumerate 0 steps) = map (\<lambda>m. (m, steps ! m)) [0..<c]"
    by (intro nth_equalityI) (auto simp: nth_enumerate_eq)
  then show ?thesis by (simp add: between_def drop_map)
qed

lemma aliased_writes_member:
  "h \<in> set (aliased_writes c label ws) \<longleftrightarrow>
     (\<exists>i j. i < j \<and> j < length ws \<and> h = AliasedWrites c label (ws ! i) \<and>
        range_overlaps (ws ! i) (ws ! j))"
proof (induction ws)
  case (Cons a ws)
  have "(\<exists>i j. i < j \<and> j < length (a # ws) \<and> h = AliasedWrites c label ((a # ws) ! i) \<and>
        range_overlaps ((a # ws) ! i) ((a # ws) ! j)) \<longleftrightarrow>
      (\<exists>j. j < length ws \<and> h = AliasedWrites c label a \<and> range_overlaps a (ws ! j)) \<or>
      (\<exists>i j. i < j \<and> j < length ws \<and> h = AliasedWrites c label (ws ! i) \<and>
        range_overlaps (ws ! i) (ws ! j))" (is "?l \<longleftrightarrow> ?r1 \<or> ?r2")
  proof
    assume ?l
    then obtain i j where ij: "i < j" "j < length (a # ws)" "h = AliasedWrites c label ((a # ws) ! i)"
        "range_overlaps ((a # ws) ! i) ((a # ws) ! j)" by blast
    then obtain j' where j: "j = Suc j'" by (cases j) auto
    show "?r1 \<or> ?r2"
    proof (cases i)
      case 0
      then show ?thesis using ij j by auto
    next
      case (Suc i')
      then have ?r2 using ij j by auto
      then show ?thesis ..
    qed
  next
    assume "?r1 \<or> ?r2"
    then show ?l
    proof
      assume ?r1
      then obtain j where "j < length ws" "h = AliasedWrites c label a" "range_overlaps a (ws ! j)" by blast
      then show ?l by (intro exI [of _ 0] exI [of _ "Suc j"]) simp
    next
      assume ?r2
      then obtain i j where "i < j" "j < length ws" "h = AliasedWrites c label (ws ! i)"
        "range_overlaps (ws ! i) (ws ! j)" by blast
      then show ?l by (intro exI [of _ "Suc i"] exI [of _ "Suc j"]) simp
    qed
  qed
  moreover have "?r1 \<longleftrightarrow> h = AliasedWrites c label a \<and> (\<exists>w \<in> set ws. range_overlaps a w)"
    by (metis in_set_conv_nth)
  ultimately show ?case using Cons by auto
qed simp

text \<open>Each part of the scan adds its findings; an opaque step is reported once.\<close>

definition reports_once :: "step_io list \<Rightarrow> scan \<Rightarrow> bool" where
  "reports_once steps st \<longleftrightarrow>
     (\<forall>m label. Unverifiable m label \<in> set (snd st) \<longleftrightarrow> m \<in> fst st \<and> label = io_label (steps ! m)) \<and>
     distinct (filter is_Unverifiable (snd st))"

definition adds :: "step_io list \<Rightarrow> (scan \<Rightarrow> 'a \<Rightarrow> scan) \<Rightarrow> 'a \<Rightarrow> hazard set \<Rightarrow> bool" where
  "adds steps f x H \<longleftrightarrow> (\<forall>st. reports_once steps st \<longrightarrow>
     reports_once steps (f st x) \<and> set (snd (f st x)) = set (snd st) \<union> H)"

lemma addsD:
  assumes "adds steps f x H" and "reports_once steps st"
  shows "reports_once steps (f st x)" and "set (snd (f st x)) = set (snd st) \<union> H"
  using assms unfolding adds_def by blast+

lemma adds_foldl:
  assumes "\<And>x. x \<in> set xs \<Longrightarrow> adds steps f x (H x)" and "reports_once steps st"
  shows "reports_once steps (foldl f st xs) \<and>
    set (snd (foldl f st xs)) = set (snd st) \<union> (\<Union>x \<in> set xs. H x)"
  using assms
proof (induction xs arbitrary: st)
  case (Cons x xs)
  have "adds steps f x (H x)" by (rule Cons.prems(1)) simp
  note st = addsD [OF this Cons.prems(2)]
  have "reports_once steps (foldl f (f st x) xs) \<and>
      set (snd (foldl f (f st x) xs)) = set (snd (f st x)) \<union> (\<Union>x \<in> set xs. H x)"
    by (rule Cons.IH [OF _ st(1)]) (rule Cons.prems(1), simp)
  then show ?case by (simp only: foldl_Cons list.simps st(2) Un_assoc) simp
qed simp

definition mid_hazards :: "nat \<Rightarrow> schedule_read \<Rightarrow> nat \<times> step_io \<Rightarrow> hazard set" where
  "mid_hazards c r mm =
     (case mm of (m, mid) \<Rightarrow>
        if io_opaque mid then {Unverifiable m (io_label mid)}
        else Clobbered c (sr_produced_at r) m (io_label mid) `
          {w \<in> set (io_writes mid). range_overlaps w (sr_range r)})"

lemma filter_Clobbered [simp]: "filter is_Unverifiable (map (Clobbered c p m l) ws) = []"
  by (simp add: filter_empty_conv)

lemma adds_mid: "adds steps (scan_mid c r) (m, steps ! m) (mid_hazards c r (m, steps ! m))"
  unfolding adds_def
proof (intro allI impI)
  fix st :: scan assume st: "reports_once steps st"
  obtain R out where eq: "st = (R, out)" by (cases st)
  show "reports_once steps (scan_mid c r st (m, steps ! m)) \<and>
      set (snd (scan_mid c r st (m, steps ! m))) = set (snd st) \<union> mid_hazards c r (m, steps ! m)"
    using st by (auto simp: eq scan_mid_def mid_hazards_def reports_once_def)
qed

lemma adds_read:
  assumes "c \<le> length steps"
  shows "adds steps (scan_read steps c) r
    (\<Union>m \<in> {saturating_add (sr_produced_at r) 1 ..< c}. mid_hazards c r (m, steps ! m))"
  unfolding adds_def
proof (intro allI impI)
  fix st :: scan assume st: "reports_once steps st"
  let ?lo = "saturating_add (sr_produced_at r) 1"
  have "reports_once steps (foldl (scan_mid c r) st (between steps ?lo c)) \<and>
      set (snd (foldl (scan_mid c r) st (between steps ?lo c))) =
        set (snd st) \<union> (\<Union>x \<in> set (between steps ?lo c). mid_hazards c r x)"
    by (rule adds_foldl [OF _ st]) (use adds_mid in \<open>auto simp: between_eq [OF assms]\<close>)
  then show "reports_once steps (scan_read steps c st r) \<and>
      set (snd (scan_read steps c st r)) =
        set (snd st) \<union> (\<Union>m \<in> {?lo ..< c}. mid_hazards c r (m, steps ! m))"
    by (simp add: scan_read_def between_eq [OF assms])
qed

definition own_hazards :: "nat \<Rightarrow> step_io \<Rightarrow> hazard list" where
  "own_hazards c step = aliased_writes c (io_label step) (io_writes step) @ in_place c step"

lemma own_not_unverifiable: "h \<in> set (own_hazards c step) \<Longrightarrow> \<not> is_Unverifiable h"
  by (auto simp: own_hazards_def aliased_writes_member in_place_def)

lemma adds_step:
  assumes "c < length steps"
  shows "adds steps (scan_step steps) (c, steps ! c)
    (set (own_hazards c (steps ! c)) \<union> (\<Union>r \<in> set (io_reads (steps ! c)).
       \<Union>m \<in> {saturating_add (sr_produced_at r) 1 ..< c}. mid_hazards c r (m, steps ! m)))"
  unfolding adds_def
proof (intro allI impI)
  fix st :: scan assume st: "reports_once steps st"
  obtain R out where eq: "st = (R, out)" by (cases st)
  let ?st = "(R, out @ own_hazards c (steps ! c))"
  have none: "filter is_Unverifiable (own_hazards c (steps ! c)) = []"
    using own_not_unverifiable by (auto simp: filter_empty_conv)
  have "Unverifiable m l \<notin> set (own_hazards c (steps ! c))" for m l
    using own_not_unverifiable [of "Unverifiable m l"] by auto
  then have "reports_once steps ?st" using st none by (simp add: reports_once_def eq)
  then have "reports_once steps (foldl (scan_read steps c) ?st (io_reads (steps ! c))) \<and>
      set (snd (foldl (scan_read steps c) ?st (io_reads (steps ! c)))) = set (snd ?st) \<union>
        (\<Union>r \<in> set (io_reads (steps ! c)).
           \<Union>m \<in> {saturating_add (sr_produced_at r) 1 ..< c}. mid_hazards c r (m, steps ! m))"
    using assms by (intro adds_foldl adds_read) simp
  then show "reports_once steps (scan_step steps st (c, steps ! c)) \<and>
      set (snd (scan_step steps st (c, steps ! c))) = set (snd st) \<union>
        (set (own_hazards c (steps ! c)) \<union> (\<Union>r \<in> set (io_reads (steps ! c)).
           \<Union>m \<in> {saturating_add (sr_produced_at r) 1 ..< c}. mid_hazards c r (m, steps ! m)))"
    by (simp add: scan_step_def eq own_hazards_def Un_assoc)
qed

lemma schedule_hazards_set:
  "distinct (filter is_Unverifiable (schedule_hazards steps)) \<and>
   set (schedule_hazards steps) = (\<Union>c < length steps. set (own_hazards c (steps ! c)) \<union>
     (\<Union>r \<in> set (io_reads (steps ! c)).
        \<Union>m \<in> {saturating_add (sr_produced_at r) 1 ..< c}. mid_hazards c r (m, steps ! m)))"
proof -
  have start: "reports_once steps ({}, [])" by (simp add: reports_once_def)
  let ?H = "\<lambda>cs. set (own_hazards (fst cs) (steps ! fst cs)) \<union> (\<Union>r \<in> set (io_reads (steps ! fst cs)).
     \<Union>m \<in> {saturating_add (sr_produced_at r) 1 ..< fst cs}. mid_hazards (fst cs) r (m, steps ! m))"
  have en: "enumerate 0 steps = map (\<lambda>c. (c, steps ! c)) [0..<length steps]"
    by (intro nth_equalityI) (auto simp: nth_enumerate_eq)
  let ?out = "foldl (scan_step steps) ({}, []) (enumerate 0 steps)"
  have "reports_once steps ?out \<and>
      set (snd ?out) = set (snd ({} :: nat set, [] :: hazard list)) \<union> (\<Union>cs \<in> set (enumerate 0 steps). ?H cs)"
    by (rule adds_foldl [OF _ start]) (use adds_step in \<open>auto simp: en\<close>)
  then have "distinct (filter is_Unverifiable (snd ?out))"
    "set (snd ?out) = (\<Union>c < length steps. ?H (c, steps ! c))"
    by (auto simp: reports_once_def en)
  then show ?thesis by (simp add: schedule_hazards_def)
qed

lemma schedule_hazards_member:
  "h \<in> set (schedule_hazards steps) \<longleftrightarrow>
     (\<exists>c < length steps. h \<in> set (own_hazards c (steps ! c)) \<or>
        (\<exists>r \<in> set (io_reads (steps ! c)). \<exists>m. lands_between c r m \<and> h \<in> mid_hazards c r (m, steps ! m)))"
proof -
  have lo: "{saturating_add (sr_produced_at r) 1 ..< c} = {m. lands_between c r m}" for c r
    by (auto simp: lands_between_def)
  show ?thesis
    by (simp only: schedule_hazards_set [THEN conjunct2] lo) blast
qed

lemma Clobbered_mid:
  "Clobbered c p m l w \<in> mid_hazards c' r (m', mid) \<longleftrightarrow>
     c' = c \<and> m' = m \<and> sr_produced_at r = p \<and> \<not> io_opaque mid \<and> l = io_label mid \<and>
     w \<in> set (io_writes mid) \<and> range_overlaps w (sr_range r)"
  by (auto simp: mid_hazards_def)

lemma Clobbered_own: "Clobbered c p m l w \<notin> set (own_hazards c' step)"
  by (auto simp: own_hazards_def aliased_writes_member in_place_def)

lemma Unverifiable_mid:
  "Unverifiable m l \<in> mid_hazards c r (m', mid) \<longleftrightarrow> m' = m \<and> io_opaque mid \<and> l = io_label mid"
  by (auto simp: mid_hazards_def)

lemma Unverifiable_own: "Unverifiable m l \<notin> set (own_hazards c step)"
  by (auto simp: own_hazards_def aliased_writes_member in_place_def)

lemma schedule_hazards_iff: "h \<in> set (schedule_hazards steps) \<longleftrightarrow> is_hazard steps h"
proof (cases h)
  case (Clobbered c p m l w)
  show ?thesis
    unfolding schedule_hazards_member Clobbered Clobbered_mid
    by (simp add: Clobbered_own) blast
next
  case (InPlace c l w)
  show ?thesis
    unfolding schedule_hazards_member InPlace
    by (auto simp: own_hazards_def aliased_writes_member in_place_def mid_hazards_def split: if_splits)
next
  case (AliasedWrites c l w)
  show ?thesis
    unfolding schedule_hazards_member AliasedWrites
    by (auto simp: own_hazards_def aliased_writes_member in_place_def mid_hazards_def split: if_splits)
next
  case (Unverifiable m l)
  have before: "lands_between c r m \<Longrightarrow> c < length steps \<Longrightarrow> m < length steps" for c r
    by (simp add: lands_between_def)
  show ?thesis
    unfolding schedule_hazards_member Unverifiable Unverifiable_mid
    using before by (simp add: Unverifiable_own) blast
qed

text \<open>C28. The scan reports exactly the hazards of the schedule, an opaque step at most once.\<close>

theorem schedule_hazards_exact:
  "distinct (filter is_Unverifiable (schedule_hazards steps)) \<and>
   (h \<in> set (schedule_hazards steps) \<longleftrightarrow> is_hazard steps h)"
  using schedule_hazards_set schedule_hazards_iff by blast

section \<open>What a schedule without hazards guarantees\<close>

text \<open>
  An execution: step \<open>k\<close> turns the bytes it finds into new ones by \<open>sem k\<close>. A step that is not
  opaque changes no byte outside the ranges it declares; an opaque one may change any.
\<close>

primrec exec :: "(nat \<Rightarrow> (nat \<Rightarrow> 'b) \<Rightarrow> nat \<Rightarrow> 'b) \<Rightarrow> (nat \<Rightarrow> 'b) \<Rightarrow> nat \<Rightarrow> nat \<Rightarrow> 'b" where
  "exec sem m0 0 = m0"
| "exec sem m0 (Suc k) = sem k (exec sem m0 k)"

definition writes_declared :: "step_io list \<Rightarrow> (nat \<Rightarrow> (nat \<Rightarrow> 'b) \<Rightarrow> nat \<Rightarrow> 'b) \<Rightarrow> bool" where
  "writes_declared steps sem \<longleftrightarrow> (\<forall>k < length steps. \<not> io_opaque (steps ! k) \<longrightarrow>
     (\<forall>mem b. b \<notin> (\<Union>w \<in> set (io_writes (steps ! k)). range_bytes w) \<longrightarrow> sem k mem b = mem b))"

definition schedule_addressable :: "step_io list \<Rightarrow> bool" where
  "schedule_addressable steps \<longleftrightarrow> (\<forall>step \<in> set steps.
     (\<forall>w \<in> set (io_writes step). addressable w) \<and> (\<forall>r \<in> set (io_reads step). addressable (sr_range r)))"

lemma addressable_read:
  "\<lbrakk>schedule_addressable steps; c < length steps; r \<in> set (io_reads (steps ! c))\<rbrakk> \<Longrightarrow>
     addressable (sr_range r)"
  by (auto simp: schedule_addressable_def)

lemma addressable_write:
  "\<lbrakk>schedule_addressable steps; c < length steps; w \<in> set (io_writes (steps ! c))\<rbrakk> \<Longrightarrow>
     addressable w"
  by (auto simp: schedule_addressable_def)

lemma no_hazard: "schedule_hazards steps = [] \<Longrightarrow> \<not> is_hazard steps h"
  by (simp flip: schedule_hazards_iff)

lemma quiet_between:
  assumes clean: "schedule_hazards steps = []" and ok: "schedule_addressable steps"
    and wd: "writes_declared steps sem"
    and c: "c < length steps" and r: "r \<in> set (io_reads (steps ! c))"
    and m: "sr_produced_at r < m" "m < c" "c \<le> usize_max" and b: "b \<in> range_bytes (sr_range r)"
  shows "sem m mem b = mem b"
proof -
  have between: "lands_between c r m" using m by (simp add: lands_between_def saturating_add_exact)
  have transparent: "\<not> io_opaque (steps ! m)"
    using no_hazard [OF clean, of "Unverifiable m (io_label (steps ! m))"] between c r m by auto
  have "b \<notin> range_bytes w" if w: "w \<in> set (io_writes (steps ! m))" for w
  proof -
    have "\<not> range_overlaps w (sr_range r)"
      using no_hazard [OF clean, of "Clobbered c (sr_produced_at r) m (io_label (steps ! m)) w"]
        between c r transparent w by auto
    then show ?thesis
      using range_overlaps_bytes addressable_write [OF ok _ w] addressable_read [OF ok c r] m c b
      by fastforce
  qed
  then show ?thesis using wd transparent m c by (auto simp: writes_declared_def)
qed

lemma read_delivered:
  assumes clean: "schedule_hazards steps = []" and ok: "schedule_addressable steps"
    and wd: "writes_declared steps sem"
    and c: "c < length steps" "c \<le> usize_max" and r: "r \<in> set (io_reads (steps ! c))"
    and b: "b \<in> range_bytes (sr_range r)" and k: "sr_produced_at r < k" "k \<le> c"
  shows "exec sem m0 k b = exec sem m0 (Suc (sr_produced_at r)) b"
proof (use k in \<open>induction k\<close>)
  case (Suc k)
  show ?case
  proof (cases "k = sr_produced_at r")
    case False
    then have "sem k (exec sem m0 k) b = exec sem m0 k b"
      using Suc.prems c by (intro quiet_between [OF clean ok wd c(1) r _ _ _ b]) auto
    then show ?thesis using Suc False by simp
  qed simp
qed simp

text \<open>
  C29. In a schedule in which the scan finds no hazard, whatever the steps compute, every read
  finds at its step the bytes its producing step left, and its step does not write them.
\<close>

theorem clean_schedule_delivers:
  assumes "schedule_hazards steps = []" and "schedule_addressable steps"
    and "writes_declared steps sem"
    and "c < length steps" and "length steps \<le> usize_max" and "r \<in> set (io_reads (steps ! c))"
    and "sr_produced_at r < c" and "b \<in> range_bytes (sr_range r)"
  shows "exec sem m0 c b = exec sem m0 (Suc (sr_produced_at r)) b \<and>
    (\<forall>w \<in> set (io_writes (steps ! c)). b \<notin> range_bytes w)"
proof
  show "exec sem m0 c b = exec sem m0 (Suc (sr_produced_at r)) b"
    by (rule read_delivered [OF assms(1-4) _ assms(6,8)]) (use assms in auto)
  show "\<forall>w \<in> set (io_writes (steps ! c)). b \<notin> range_bytes w"
  proof
    fix w assume w: "w \<in> set (io_writes (steps ! c))"
    have "\<not> range_overlaps (sr_range r) w"
      using no_hazard [OF assms(1), of "InPlace c (io_label (steps ! c)) w"] assms(4,6) w by auto
    then show "b \<notin> range_bytes w"
      using range_overlaps_bytes addressable_read [OF assms(2,4,6)]
        addressable_write [OF assms(2,4) w] assms(8) by fastforce
  qed
qed

text \<open>Three steps: the last one reads both the first one's value and the second one's.\<close>

definition demo_schedule :: "step_io list" where
  "demo_schedule =
     [\<lparr>io_label = ''load'', io_writes = [ByteRange 0 8], io_reads = [], io_opaque = False\<rparr>,
      \<lparr>io_label = ''exp'', io_writes = [ByteRange 16 8],
       io_reads = [\<lparr>sr_range = ByteRange 0 8, sr_produced_at = 0\<rparr>], io_opaque = False\<rparr>,
      \<lparr>io_label = ''add'', io_writes = [ByteRange 24 8],
       io_reads = [\<lparr>sr_range = ByteRange 0 8, sr_produced_at = 0\<rparr>,
                   \<lparr>sr_range = ByteRange 16 8, sr_produced_at = 1\<rparr>], io_opaque = False\<rparr>]"

definition demo_run :: "nat \<Rightarrow> (nat \<Rightarrow> nat) \<Rightarrow> nat \<Rightarrow> nat" where
  "demo_run k mem b =
     (if k < 3 \<and> list_ex (\<lambda>w. br_off w \<le> b \<and> b < br_off w + br_len w) (io_writes (demo_schedule ! k))
      then k + 1 else mem b)"

lemma demo_declares: "writes_declared demo_schedule demo_run"
  by (auto simp: writes_declared_def demo_run_def range_bytes_def list_ex_iff demo_schedule_def)

lemma demo_clean: "schedule_hazards demo_schedule = []"
  by (simp add: demo_schedule_def schedule_hazards_def scan_step_def in_place_def scan_read_def
      between_def scan_mid_def saturating_add_def range_overlaps_def range_end_def usize_max_def)

theorem clean_schedule_delivers_witness:
  "exec demo_run (\<lambda>_. 0) 2 5 = 1"
proof -
  have "exec demo_run (\<lambda>_. 0) 2 5 = exec demo_run (\<lambda>_. 0) (Suc 0) 5 \<and>
      (\<forall>w \<in> set (io_writes (demo_schedule ! 2)). 5 \<notin> range_bytes w)"
    using clean_schedule_delivers [OF demo_clean _ demo_declares,
        of 2 "\<lparr>sr_range = ByteRange 0 8, sr_produced_at = 0\<rparr>" 5 "\<lambda>_. 0"]
    by (simp add: schedule_addressable_def addressable_def usize_max_def range_bytes_def demo_schedule_def)
  then show ?thesis by (simp add: demo_run_def demo_schedule_def)
qed

end
