(* ===== verification/JobSlots.thy ===== *)
theory JobSlots
  imports RlxPrelude "HOL-Library.Multiset"
begin

text \<open>
  The pool that bounds concurrent jobs (\<open>crates/core/rlx-runtime/src/job_slots.rs\<close>): a mutex
  around four counters and a condition variable. The pool with its threads is a transition
  system: a critical section of \<open>take\<close> or of the drop is one step, the \<open>notify_all\<close> that
  follows it outside the lock is another, and a sleeping thread may also wake for no reason.
  Starts follow arrivals, no wake-up is lost, and without new arrivals every run ends with all
  jobs done.
\<close>

section \<open>The counters\<close>

record job_slots =
  js_running :: nat
  js_next :: nat
  js_serving :: nat
  js_idle :: nat

definition job_slots_new :: job_slots where
  "job_slots_new = \<lparr>js_running = 0, js_next = 0, js_serving = 0, js_idle = 0\<rparr>"

definition memory_admits :: "nat \<Rightarrow> nat option \<Rightarrow> nat \<Rightarrow> nat option \<Rightarrow> bool" where
  "memory_admits n rss idle_rss budget =
     (case (rss, budget) of
        (Some rss, Some budget) \<Rightarrow>
          n = 0 \<or> saturating_add rss ((rss - idle_rss) div n) \<le> budget
      | _ \<Rightarrow> True)"

text \<open>What one evaluation of the loop measures: the RSS when idle, the RSS, the budget.\<close>

record measured =
  rss_idle :: "nat option"
  rss_now :: "nat option"
  soft_budget :: "nat option"

definition draw_ticket :: "job_slots \<Rightarrow> nat \<times> job_slots" where
  "draw_ticket st = (js_next st, st\<lparr>js_next := js_next st + 1\<rparr>)"

definition attempt :: "nat \<Rightarrow> bool \<Rightarrow> nat \<Rightarrow> measured \<Rightarrow> job_slots \<Rightarrow> bool \<times> job_slots" where
  "attempt cap gate ticket ms st =
     (if js_running st < cap \<and> js_serving st = ticket
      then let st = (if js_running st = 0
                     then st\<lparr>js_idle := case rss_idle ms of Some r \<Rightarrow> r | None \<Rightarrow> 0\<rparr> else st)
           in (\<not> gate \<or> memory_admits (js_running st) (rss_now ms) (js_idle st) (soft_budget ms), st)
      else (False, st))"

definition occupy :: "job_slots \<Rightarrow> job_slots" where
  "occupy st = st\<lparr>js_running := js_running st + 1, js_serving := js_serving st + 1\<rparr>"

text \<open>\<open>None\<close> is the underflow of the counter.\<close>

definition release :: "job_slots \<Rightarrow> job_slots option" where
  "release st = (if js_running st = 0 then None else Some (st\<lparr>js_running := js_running st - 1\<rparr>))"

section \<open>The threads\<close>

text \<open>
  Where a thread is: outside of the pool, waiting in \<open>take\<close> (asleep on the condition variable,
  or awake and about to evaluate its condition), past the loop with the notification still to
  send, holding its slot, or past the drop's decrement with the notification still to send.
\<close>

datatype phase =
    Away
  | Asleep nat nat bool
  | Awake nat nat bool
  | Admitted
  | Holding
  | Released

fun wake :: "phase \<Rightarrow> phase" where
  "wake (Asleep ticket cap gate) = Awake ticket cap gate"
| "wake ph = ph"

text \<open>A thread asks for one of \<open>cap\<close> slots; a thread gets its slot; one wakes for no reason.\<close>

datatype event = Arrived nat nat | Started nat | Woken nat

type_synonym pool = "job_slots \<times> phase list"

text \<open>The rest of the critical section after an evaluation of the loop condition.\<close>

definition settle :: "nat \<Rightarrow> nat \<Rightarrow> nat \<Rightarrow> bool \<Rightarrow> bool \<times> job_slots \<Rightarrow> phase list \<Rightarrow> event list \<times> pool" where
  "settle i ticket cap gate res ph =
     (case res of
        (True, st) \<Rightarrow> ([Started i], occupy st, ph[i := Admitted])
      | (False, st) \<Rightarrow> ([], st, ph[i := Asleep ticket cap gate]))"

text \<open>
  A call of \<open>take\<close> up to its first wait or its admission; \<open>None\<close> when the pool is serial and
  the call returns at once.
\<close>

definition take_enter :: "nat \<Rightarrow> nat \<Rightarrow> bool \<Rightarrow> measured \<Rightarrow> pool \<Rightarrow> (event list \<times> pool) option" where
  "take_enter i cap gate ms p =
     (if cap \<le> 1 then None
      else case p of (st, ph) \<Rightarrow> case draw_ticket st of (ticket, st) \<Rightarrow>
        Some (settle i ticket cap gate (attempt cap gate ticket ms st) ph))"

inductive step :: "pool \<Rightarrow> event list \<Rightarrow> pool \<Rightarrow> bool" where
  Enter: "\<lbrakk>i < length ph; ph ! i = Away; take_enter i cap gate ms (st, ph) = Some (evs, p)\<rbrakk> \<Longrightarrow>
    step (st, ph) (Arrived i cap # evs) p"
| Retry: "\<lbrakk>i < length ph; ph ! i = Awake ticket cap gate;
      settle i ticket cap gate (attempt cap gate ticket ms st) ph = (evs, p)\<rbrakk> \<Longrightarrow>
    step (st, ph) evs p"
| Spurious: "\<lbrakk>i < length ph; ph ! i = Asleep ticket cap gate\<rbrakk> \<Longrightarrow>
    step (st, ph) [Woken i] (st, ph[i := wake (ph ! i)])"
| Announce: "\<lbrakk>i < length ph; ph ! i = Admitted\<rbrakk> \<Longrightarrow>
    step (st, ph) [] (st, (map wake ph)[i := Holding])"
| Finish: "\<lbrakk>i < length ph; ph ! i = Holding; release st = Some st'\<rbrakk> \<Longrightarrow>
    step (st, ph) [] (st', ph[i := Released])"
| Leave: "\<lbrakk>i < length ph; ph ! i = Released\<rbrakk> \<Longrightarrow>
    step (st, ph) [] (st, (map wake ph)[i := Away])"

inductive_cases step_cases [consumes 1, case_names Enter Retry Spurious Announce Finish Leave]:
  "step p evs q"

text \<open>A history from the new pool with \<open>n\<close> threads, its events oldest first.\<close>

inductive history :: "nat \<Rightarrow> event list \<Rightarrow> pool \<Rightarrow> bool" for n where
  Start: "history n [] (job_slots_new, replicate n Away)"
| More: "\<lbrakk>history n evs p; step p new q\<rbrakk> \<Longrightarrow> history n (evs @ new) q"

section \<open>The invariant\<close>

fun ticket_of :: "phase \<Rightarrow> nat option" where
  "ticket_of (Asleep ticket cap gate) = Some ticket"
| "ticket_of (Awake ticket cap gate) = Some ticket"
| "ticket_of _ = None"

fun patient :: "phase \<Rightarrow> bool" where
  "patient (Asleep ticket cap gate) = (1 < cap)"
| "patient (Awake ticket cap gate) = (1 < cap)"
| "patient _ = True"

fun occupies :: "phase \<Rightarrow> bool" where
  "occupies Admitted = True"
| "occupies Holding = True"
| "occupies _ = False"

fun notifies :: "phase \<Rightarrow> bool" where
  "notifies Admitted = True"
| "notifies Released = True"
| "notifies _ = False"

text \<open>The caller at the front could start now, whatever the memory measured.\<close>

definition startable :: "job_slots \<Rightarrow> nat \<Rightarrow> bool \<Rightarrow> bool" where
  "startable st cap gate \<longleftrightarrow> js_running st = 0 \<or> \<not> gate \<and> js_running st < cap"

text \<open>How many threads hold a slot, and the tickets drawn but not yet served.\<close>

definition holders :: "phase list \<Rightarrow> nat" where
  "holders ph = (\<Sum>x \<leftarrow> ph. if occupies x then 1 else 0)"

definition tickets :: "phase list \<Rightarrow> nat multiset" where
  "tickets ph = (\<Sum>x \<leftarrow> ph. case ticket_of x of Some t \<Rightarrow> {#t#} | None \<Rightarrow> {#})"

definition books :: "pool \<Rightarrow> bool" where
  "books p \<longleftrightarrow> (case p of (st, ph) \<Rightarrow>
     js_running st = holders ph \<and> js_serving st \<le> js_next st \<and>
     tickets ph = mset_set {js_serving st ..< js_next st})"

definition no_lost_wake :: "pool \<Rightarrow> bool" where
  "no_lost_wake p \<longleftrightarrow> (case p of (st, ph) \<Rightarrow>
     \<forall>i < length ph. \<forall>cap gate. ph ! i = Asleep (js_serving st) cap gate \<longrightarrow>
       startable st cap gate \<longrightarrow> (\<exists>j < length ph. notifies (ph ! j)))"

definition caps_ok :: "pool \<Rightarrow> bool" where
  "caps_ok p \<longleftrightarrow> (\<forall>x \<in> set (snd p). patient x)"

definition pool_ok :: "pool \<Rightarrow> bool" where
  "pool_ok p \<longleftrightarrow> books p \<and> no_lost_wake p \<and> caps_ok p"

lemma wake_simps [simp]:
  "ticket_of (wake x) = ticket_of x" "patient (wake x) = patient x" "occupies (wake x) = occupies x"
  "notifies (wake x) = notifies x" "wake x \<noteq> Asleep t cap gate"
  by (cases x; simp)+

lemma sum_list_map_update:
  "i < length xs \<Longrightarrow>
     sum_list (map f (xs[i := x])) + f (xs ! i) = sum_list (map f xs) + (f x :: 'a :: comm_monoid_add)"
proof (induction xs arbitrary: i)
  case (Cons a xs)
  then show ?case by (cases i) (auto simp: ac_simps)
qed simp

lemma holders_update:
  "i < length ph \<Longrightarrow> holders (ph[i := x]) + (if occupies (ph ! i) then 1 else 0) =
     holders ph + (if occupies x then 1 else 0)"
  unfolding holders_def by (rule sum_list_map_update)

lemma tickets_update:
  "i < length ph \<Longrightarrow>
     tickets (ph[i := x]) + (case ticket_of (ph ! i) of Some t \<Rightarrow> {#t#} | None \<Rightarrow> {#}) =
     tickets ph + (case ticket_of x of Some t \<Rightarrow> {#t#} | None \<Rightarrow> {#})"
  unfolding tickets_def by (rule sum_list_map_update)

lemma map_wake [simp]: "holders (map wake ph) = holders ph" "tickets (map wake ph) = tickets ph"
  by (simp_all add: holders_def tickets_def comp_def)

lemma books_draw:
  assumes ok: "books (st, ph)" and i: "i < length ph" "ph ! i = Away"
    and st': "draw_ticket st = (ticket, st')"
  shows "books (st', ph[i := Awake ticket cap gate])"
  using ok i st' holders_update [OF i(1), of "Awake ticket cap gate"]
    tickets_update [OF i(1), of "Awake ticket cap gate"]
  by (auto simp: books_def draw_ticket_def atLeastLessThanSuc)

lemma books_start:
  assumes ok: "books (st, ph)" and i: "i < length ph" "ticket_of (ph ! i) = Some (js_serving st)"
  shows "books (occupy st, ph[i := Admitted])"
proof -
  have "\<not> occupies (ph ! i)" using i by (cases "ph ! i") auto
  then have "holders (ph[i := Admitted]) = js_running st + 1"
    using holders_update [OF i(1), of Admitted] ok by (simp add: books_def)
  moreover have t: "tickets (ph[i := Admitted]) + {#js_serving st#} = tickets ph"
    using tickets_update [OF i(1), of Admitted] i by simp
  then have "js_serving st \<in># tickets ph" by (metis union_single_eq_member add_mset_add_single)
  then have "js_serving st < js_next st" using ok by (auto simp: books_def)
  moreover from this have "{js_serving st ..< js_next st} = insert (js_serving st) {Suc (js_serving st) ..< js_next st}"
    by auto
  ultimately show ?thesis using ok t by (simp add: books_def occupy_def)
qed

lemma books_wait:
  assumes ok: "books (st, ph)" and i: "i < length ph" "ticket_of (ph ! i) = ticket_of x"
    and x: "\<not> occupies x" "\<not> occupies (ph ! i)"
    and st': "js_running st' = js_running st" "js_serving st' = js_serving st" "js_next st' = js_next st"
  shows "books (st', ph[i := x])"
  using ok i x st' holders_update [OF i(1), of x] tickets_update [OF i(1), of x]
  by (simp add: books_def)

lemma attempt_cases:
  assumes "attempt cap gate ticket ms st = (ok, st')"
  shows "js_running st' = js_running st" "js_serving st' = js_serving st" "js_next st' = js_next st"
    and "ok \<Longrightarrow> js_running st < cap \<and> js_serving st = ticket"
    and "\<lbrakk>\<not> ok; 1 < cap; js_serving st = ticket\<rbrakk> \<Longrightarrow> \<not> startable st cap gate"
  using assms
  by (auto simp: attempt_def Let_def startable_def memory_admits_def split: if_splits option.splits)

lemma caps_ok_update: "\<lbrakk>caps_ok (st, ph); patient x\<rbrakk> \<Longrightarrow> caps_ok (st', ph[i := x])"
  unfolding caps_ok_def snd_conv by (auto dest!: set_update_subset_insert [THEN subsetD])

lemma caps_ok_wake: "caps_ok (st, ph) \<Longrightarrow> caps_ok (st, map wake ph)"
  by (auto simp: caps_ok_def)

lemma no_lost_wakeD:
  "\<lbrakk>no_lost_wake (st, ph); j < length ph; ph ! j = Asleep (js_serving st) cap gate;
     startable st cap gate\<rbrakk> \<Longrightarrow> \<exists>k < length ph. notifies (ph ! k)"
  by (auto simp: no_lost_wake_def)

lemma no_lost_wake_awake:
  assumes ok: "no_lost_wake (st, ph)" and i: "i < length ph" "ph ! i = Asleep t c g"
  shows "no_lost_wake (st, ph[i := wake (ph ! i)])"
  unfolding no_lost_wake_def prod.case
proof (intro allI impI)
  fix j cap gate
  assume j: "j < length (ph[i := wake (ph ! i)])" and s: "startable st cap gate"
    and asleep: "ph[i := wake (ph ! i)] ! j = Asleep (js_serving st) cap gate"
  have "j \<noteq> i" using asleep j by auto
  then obtain k where k: "k < length ph" "notifies (ph ! k)"
    using no_lost_wakeD [OF ok _ _ s, of j] asleep j by auto
  then have "k \<noteq> i" using i by auto
  then show "\<exists>k < length (ph[i := wake (ph ! i)]). notifies (ph[i := wake (ph ! i)] ! k)"
    using k by (intro exI [of _ k]) simp
qed

lemma settle_ok:
  assumes ok: "books (st, ph)" "caps_ok (st, ph)"
    and quiet: "\<And>j cap gate. \<lbrakk>j < length ph; j \<noteq> i; ph ! j = Asleep (js_serving st) cap gate;
        startable st cap gate\<rbrakk> \<Longrightarrow> \<exists>k < length ph. k \<noteq> i \<and> notifies (ph ! k)"
    and i: "i < length ph" "ph ! i = Awake ticket cap gate"
    and res: "settle i ticket cap gate (attempt cap gate ticket ms st) ph = (evs, p)"
  shows "pool_ok p"
proof -
  obtain adm st' where a: "attempt cap gate ticket ms st = (adm, st')" by fastforce
  note st' = attempt_cases [OF a]
  have cap: "1 < cap" using ok(2) i nth_mem [OF i(1)] by (auto simp: caps_ok_def)
  have b': "books (st', ph)" using ok(1) st' by (simp add: books_def)
  show ?thesis
  proof (cases adm)
    case True
    then have p: "p = (occupy st', ph[i := Admitted])" using res a by (simp add: settle_def)
    have "books p" unfolding p using b' True st' i by (intro books_start) auto
    moreover have "no_lost_wake p" using i by (auto simp: p no_lost_wake_def intro!: exI [of _ i])
    moreover have "caps_ok p" unfolding p using ok(2) by (rule caps_ok_update) simp
    ultimately show ?thesis by (simp add: pool_ok_def)
  next
    case False
    then have p: "p = (st', ph[i := Asleep ticket cap gate])" using res a by (simp add: settle_def)
    have "books p" unfolding p by (rule books_wait [OF ok(1) i(1)]) (simp_all add: i st')
    moreover have "no_lost_wake p"
      unfolding no_lost_wake_def p prod.case
    proof (intro allI impI)
      fix j c g
      assume j: "j < length (ph[i := Asleep ticket cap gate])"
        and head: "ph[i := Asleep ticket cap gate] ! j = Asleep (js_serving st') c g"
        and s: "startable st' c g"
      have s': "startable st c g" using s st' by (simp add: startable_def)
      have "j \<noteq> i" using head i s' st' False cap by (auto simp: nth_list_update)
      then obtain k where "k < length ph" "k \<noteq> i" "notifies (ph ! k)"
        using quiet [of j c g] j head s' st' by (auto simp: nth_list_update)
      then show "\<exists>k < length (ph[i := Asleep ticket cap gate]). notifies (ph[i := Asleep ticket cap gate] ! k)"
        by (intro exI [of _ k]) simp
    qed
    moreover have "caps_ok p" unfolding p using ok(2) by (rule caps_ok_update) (use cap in simp)
    ultimately show ?thesis by (simp add: pool_ok_def)
  qed
qed

lemma step_pool_ok:
  assumes "step p evs q" and "pool_ok p"
  shows "pool_ok q"
  using assms
proof (cases rule: step_cases)
  case (Enter i ph cap gate ms st evs')
  obtain ticket st1 where d: "draw_ticket st = (ticket, st1)" by fastforce
  have d': "js_serving st1 = js_serving st" "js_running st1 = js_running st"
    using d by (auto simp: draw_ticket_def)
  have cap: "1 < cap" and res:
      "settle i ticket cap gate (attempt cap gate ticket ms st1) (ph[i := Awake ticket cap gate]) = (evs', q)"
    using Enter d by (auto simp: take_enter_def settle_def split: if_splits bool.splits prod.splits)
  show ?thesis
  proof (rule settle_ok [OF _ _ _ _ _ res])
    show "books (st1, ph[i := Awake ticket cap gate])"
      using assms(2) Enter d by (intro books_draw) (simp_all add: pool_ok_def)
    show "caps_ok (st1, ph[i := Awake ticket cap gate])"
      by (rule caps_ok_update [of st]) (use assms(2) Enter cap in \<open>simp_all add: pool_ok_def\<close>)
    show "\<exists>k < length (ph[i := Awake ticket cap gate]). k \<noteq> i \<and>
        notifies (ph[i := Awake ticket cap gate] ! k)"
      if "j < length (ph[i := Awake ticket cap gate])" "j \<noteq> i"
        "ph[i := Awake ticket cap gate] ! j = Asleep (js_serving st1) c g" "startable st1 c g" for j c g
    proof -
      have "\<exists>k < length ph. notifies (ph ! k)"
        using assms(2) Enter that d' by (auto simp: pool_ok_def no_lost_wake_def startable_def)
      then obtain k where k: "k < length ph" "notifies (ph ! k)" by blast
      then have "k \<noteq> i" using Enter by auto
      then show ?thesis using k by (intro exI [of _ k]) simp
    qed
  qed (use Enter in simp_all)
next
  case (Retry i ph ticket cap gate ms st)
  show ?thesis
  proof (rule settle_ok [OF _ _ _ Retry(2,3,4)])
    show "\<exists>k < length ph. k \<noteq> i \<and> notifies (ph ! k)"
      if head: "j < length ph" "j \<noteq> i" "ph ! j = Asleep (js_serving st) c g" "startable st c g" for j c g
    proof -
      have "no_lost_wake (st, ph)" using assms(2) Retry by (simp add: pool_ok_def)
      then obtain k where k: "k < length ph" "notifies (ph ! k)"
        using no_lost_wakeD head(1,3,4) by blast
      then have "k \<noteq> i" using Retry by auto
      then show ?thesis using k by blast
    qed
  qed (use assms(2) Retry in \<open>simp_all add: pool_ok_def\<close>)
next
  case (Spurious i ph ticket cap gate st)
  have "books (st, ph)" using assms(2) Spurious by (simp add: pool_ok_def)
  then have "books q" unfolding Spurious(3)
    by (rule books_wait) (simp_all add: Spurious(4,5))
  moreover have "no_lost_wake q"
    unfolding Spurious(3)
    using no_lost_wake_awake [of st ph i] assms(2) Spurious by (simp add: pool_ok_def)
  moreover have "caps_ok q" unfolding Spurious
    by (rule caps_ok_update [of st])
      (use assms(2) Spurious nth_mem [of i ph] in \<open>auto simp: pool_ok_def caps_ok_def\<close>)
  ultimately show ?thesis by (simp add: pool_ok_def)
next
  case (Announce i ph st)
  have "books q" using assms(2) Announce holders_update [of i "map wake ph" Holding]
      tickets_update [of i "map wake ph" Holding] by (auto simp: pool_ok_def books_def)
  moreover have "no_lost_wake q" using Announce by (auto simp: no_lost_wake_def nth_list_update)
  moreover have "caps_ok q" unfolding Announce
    by (rule caps_ok_update [OF caps_ok_wake [of st]]) (use assms(2) Announce in \<open>auto simp: pool_ok_def\<close>)
  ultimately show ?thesis by (simp add: pool_ok_def)
next
  case (Finish i ph st st')
  have "books q" using assms(2) Finish holders_update [of i ph Released]
      tickets_update [of i ph Released]
    by (auto simp: pool_ok_def books_def release_def split: if_splits)
  moreover have "no_lost_wake q" using Finish by (auto simp: no_lost_wake_def intro!: exI [of _ i])
  moreover have "caps_ok q" unfolding Finish
    by (rule caps_ok_update [of st]) (use assms(2) Finish in \<open>auto simp: pool_ok_def\<close>)
  ultimately show ?thesis by (simp add: pool_ok_def)
next
  case (Leave i ph st)
  have "books q" using assms(2) Leave holders_update [of i "map wake ph" Away]
      tickets_update [of i "map wake ph" Away] by (auto simp: pool_ok_def books_def)
  moreover have "no_lost_wake q" using Leave by (auto simp: no_lost_wake_def nth_list_update)
  moreover have "caps_ok q" unfolding Leave
    by (rule caps_ok_update [OF caps_ok_wake [of st]]) (use assms(2) Leave in \<open>auto simp: pool_ok_def\<close>)
  ultimately show ?thesis by (simp add: pool_ok_def)
qed

section \<open>Every history\<close>

lemma step_length: "step (st, ph) evs (st', ph') \<Longrightarrow> length ph' = length ph"
  by (cases rule: step_cases, assumption)
    (auto simp: take_enter_def settle_def split: if_splits bool.splits prod.splits)

lemma new_ok: "pool_ok (job_slots_new, replicate n Away)"
proof -
  have "holders (replicate n Away) = 0" "tickets (replicate n Away) = {#}"
    by (induction n) (simp_all add: holders_def tickets_def)
  then show ?thesis
    by (auto simp: pool_ok_def books_def no_lost_wake_def caps_ok_def job_slots_new_def)
qed

lemma history_ok: "history n evs p \<Longrightarrow> pool_ok p"
  by (induction rule: history.induct) (auto intro: new_ok step_pool_ok)

lemma job_slots_books_lemma:
  assumes "history n evs (st, ph)"
  shows "js_running st = length (filter occupies ph) \<and> js_serving st \<le> js_next st \<and>
    mset_set {js_serving st ..< js_next st} = mset (List.map_filter ticket_of ph) \<and>
    (\<forall>i < length ph. ph ! i = Holding \<longrightarrow> release st \<noteq> None)"
proof -
  have ok: "books (st, ph)" using history_ok [OF assms] by (simp add: pool_ok_def)
  have h: "holders ph = length (filter occupies ph)" for ph
    by (induction ph) (auto simp: holders_def)
  have "tickets ph = mset (List.map_filter ticket_of ph)" for ph
    by (induction ph) (auto simp: tickets_def List.map_filter_simps split: option.splits)
  moreover have "release st \<noteq> None" if "i < length ph" "ph ! i = Holding" for i
    using ok h [of ph] that nth_mem [OF that(1)]
    by (auto simp: books_def release_def filter_empty_conv intro!: bexI [of _ Holding])
  ultimately show ?thesis using ok h by (auto simp: books_def)
qed

text \<open>
  In every history the running counter is the number of threads holding a slot, so that
  the decrement of a drop never underflows, and the tickets drawn and not yet served are each
  held by exactly one waiting thread.
\<close>

theorem job_slots_books:
  assumes "history n evs (st, ph)"
  shows "js_running st = length (filter occupies ph) \<and> js_serving st \<le> js_next st \<and>
    mset_set {js_serving st ..< js_next st} = mset (List.map_filter ticket_of ph) \<and>
    (\<forall>i < length ph. ph ! i = Holding \<longrightarrow> release st \<noteq> None)"
  using job_slots_books_lemma [OF assms] .

text \<open>The threads that drew tickets and the threads started, in order.\<close>

definition arrivals :: "event list \<Rightarrow> nat list" where
  "arrivals evs = concat (map (\<lambda>e. case e of Arrived i cap \<Rightarrow> [i] | _ \<Rightarrow> []) evs)"

definition starts :: "event list \<Rightarrow> nat list" where
  "starts evs = concat (map (\<lambda>e. case e of Started i \<Rightarrow> [i] | _ \<Rightarrow> []) evs)"

lemma events_simps [simp]:
  "arrivals [] = []" "arrivals (Arrived i cap # evs) = i # arrivals evs" "arrivals (Started i # evs) = arrivals evs"
  "starts [] = []" "starts (Arrived i cap # evs) = starts evs" "starts (Started i # evs) = i # starts evs"
  "arrivals (Woken i # evs) = arrivals evs" "starts (Woken i # evs) = starts evs"
  "arrivals (evs @ evs') = arrivals evs @ arrivals evs'" "starts (evs @ evs') = starts evs @ starts evs'"
  by (simp_all add: arrivals_def starts_def)

text \<open>Ticket \<open>k\<close> belongs to the \<open>k\<close>-th arrival, and the first \<open>js_serving\<close> of them started.\<close>

definition in_order :: "event list \<Rightarrow> pool \<Rightarrow> bool" where
  "in_order evs p \<longleftrightarrow> (case p of (st, ph) \<Rightarrow>
     length (arrivals evs) = js_next st \<and> js_serving st \<le> js_next st \<and> starts evs = take (js_serving st) (arrivals evs) \<and>
     (\<forall>i < length ph. \<forall>t. ticket_of (ph ! i) = Some t \<longrightarrow> t < js_next st \<and> arrivals evs ! t = i))"

lemma in_order_same:
  assumes "in_order evs (st, ph)" and "map ticket_of ph' = map ticket_of ph"
    and "js_next st' = js_next st" "js_serving st' = js_serving st"
  shows "in_order evs (st', ph')"
proof -
  have len: "length ph' = length ph" using assms(2) by (rule map_eq_imp_length_eq)
  have "ticket_of (ph' ! i) = ticket_of (ph ! i)" if "i < length ph" for i
    using assms(2) that len by (metis nth_map)
  then show ?thesis using assms(1,3,4) by (simp add: in_order_def len)
qed

lemma in_order_update:
  assumes ok: "in_order evs (st, ph)" and x: "ticket_of x = None \<or> ticket_of x = ticket_of (ph ! i)"
  shows "\<forall>j < length (ph[i := x]). \<forall>t. ticket_of (ph[i := x] ! j) = Some t \<longrightarrow>
    t < js_next st \<and> arrivals evs ! t = j"
proof (intro allI impI)
  fix j t assume j: "j < length (ph[i := x])" and t: "ticket_of (ph[i := x] ! j) = Some t"
  have "ticket_of (ph ! j) = Some t" using j t x by (cases "j = i") auto
  then show "t < js_next st \<and> arrivals evs ! t = j" using ok j by (simp add: in_order_def)
qed

lemma in_order_settle:
  assumes ok: "in_order evs (st, ph)" and i: "i < length ph" "ph ! i = Awake ticket cap gate"
    and res: "settle i ticket cap gate (attempt cap gate ticket ms st) ph = (new, p)"
  shows "in_order (evs @ new) p"
proof -
  obtain adm st' where a: "attempt cap gate ticket ms st = (adm, st')" by fastforce
  note st' = attempt_cases [OF a]
  have own: "ticket < js_next st" "arrivals evs ! ticket = i" using ok i by (auto simp: in_order_def)
  show ?thesis
  proof (cases adm)
    case True
    then have eq: "new = [Started i]" "p = (occupy st', ph[i := Admitted])"
      using res a by (auto simp: settle_def)
    have "starts evs @ [i] = take (Suc (js_serving st')) (arrivals evs)"
      using ok st' True own by (auto simp: in_order_def take_Suc_conv_app_nth)
    then show ?thesis
      using ok st' True own in_order_update [OF ok, of Admitted i]
      by (simp add: in_order_def eq occupy_def del: length_list_update)
  next
    case False
    then have eq: "new = []" "p = (st', ph[i := Asleep ticket cap gate])"
      using res a by (auto simp: settle_def)
    show ?thesis
      using ok st' i in_order_update [OF ok, of "Asleep ticket cap gate" i]
      by (simp add: in_order_def eq del: length_list_update)
  qed
qed

lemma step_in_order:
  assumes "step p new q" and "in_order evs p"
  shows "in_order (evs @ new) q"
  using assms
proof (cases rule: step_cases)
  case (Enter i ph cap gate ms st new')
  obtain ticket st1 where d: "draw_ticket st = (ticket, st1)" by fastforce
  have res: "settle i ticket cap gate (attempt cap gate ticket ms st1) (ph[i := Awake ticket cap gate]) = (new', q)"
    using Enter d by (auto simp: take_enter_def settle_def split: if_splits bool.splits prod.splits)
  have ok: "in_order evs (st, ph)" using assms(2) Enter by simp
  have "in_order (evs @ [Arrived i cap]) (st1, ph[i := Awake ticket cap gate])"
    unfolding in_order_def prod.case
  proof (intro conjI allI impI)
    show "length (arrivals (evs @ [Arrived i cap])) = js_next st1" 
      using ok d by (auto simp: in_order_def draw_ticket_def)
    show "starts (evs @ [Arrived i cap]) = take (js_serving st1) (arrivals (evs @ [Arrived i cap]))"
      using ok d Enter assms(2) by (auto simp: in_order_def draw_ticket_def)
    show "js_serving st1 \<le> js_next st1"
      using ok d by (auto simp: in_order_def draw_ticket_def)
    fix j t
    assume j: "j < length (ph[i := Awake ticket cap gate])"
      and t: "ticket_of (ph[i := Awake ticket cap gate] ! j) = Some t"
    have old: "j \<noteq> i \<Longrightarrow> t < js_next st \<and> arrivals evs ! t = j"
      using ok j t by (simp add: in_order_def)
    then show "t < js_next st1" "arrivals (evs @ [Arrived i cap]) ! t = j"
      using ok j t d by (cases "j = i"; auto simp: draw_ticket_def in_order_def nth_append)+
  qed
  from in_order_settle [OF this _ _ res] show ?thesis using Enter by simp
next
  case (Retry i ph ticket cap gate ms st)
  then show ?thesis using assms(2) by (auto intro: in_order_settle)
next
  case (Spurious i ph ticket cap gate st)
  have "map ticket_of (ph[i := wake (ph ! i)]) = map ticket_of ph"
    by (simp add: map_update list_update_same_conv [THEN iffD2] Spurious)
  moreover have "in_order (evs @ [Woken i]) (st, ph)" using assms(2) Spurious by (simp add: in_order_def)
  ultimately have "in_order (evs @ [Woken i]) (st, ph[i := wake (ph ! i)])" by (auto intro: in_order_same)
  then show ?thesis using Spurious by simp
next
  case (Announce i ph st)
  then have "map ticket_of ((map wake ph)[i := Holding]) = map ticket_of ph"
    by (auto simp: map_update comp_def list_update_same_conv)
  then show ?thesis using assms(2) Announce by (auto intro: in_order_same)
next
  case (Finish i ph st st')
  then have "map ticket_of (ph[i := Released]) = map ticket_of ph"
    by (auto simp: map_update list_update_same_conv)
  then show ?thesis using assms(2) Finish by (auto intro: in_order_same simp: release_def split: if_splits)
next
  case (Leave i ph st)
  then have "map ticket_of ((map wake ph)[i := Away]) = map ticket_of ph"
    by (auto simp: map_update comp_def list_update_same_conv)
  then show ?thesis using assms(2) Leave by (auto intro: in_order_same)
qed

lemma history_in_order: "history n evs p \<Longrightarrow> in_order evs p"
proof (induction rule: history.induct)
  case Start
  show ?case by (auto simp: in_order_def job_slots_new_def)
next
  case (More evs p new q)
  then show ?case by (auto intro: step_in_order)
qed

text \<open>C36. First come, first served: in every history the threads start in the order they asked.\<close>

theorem job_slots_fifo:
  assumes "history n evs (st, ph)"
  shows "starts evs = take (js_serving st) (arrivals evs) \<and>
    (\<forall>i < length ph. \<forall>t cap gate. ph ! i = Asleep t cap gate \<or> ph ! i = Awake t cap gate \<longrightarrow>
       js_serving st \<le> t \<and> t < length (arrivals evs) \<and> arrivals evs ! t = i)"
proof -
  have ord: "in_order evs (st, ph)" using assms by (rule history_in_order)
  have ok: "books (st, ph)" using history_ok [OF assms] by (simp add: pool_ok_def)
  have "js_serving st \<le> t" if i: "i < length ph" and t: "ticket_of (ph ! i) = Some t" for i t
  proof -
    have "t \<in># tickets (ph[i := ph ! i])"
      using tickets_update [OF i, of Away] t by (simp add: union_iff) (metis add_mset_add_single union_single_eq_member)
    then show ?thesis using ok by (auto simp: books_def)
  qed
  then show ?thesis using ord by (auto simp: in_order_def)
qed

section \<open>The bound and the end of a run\<close>

definition caps_asked :: "event list \<Rightarrow> nat set" where
  "caps_asked evs = {cap. \<exists>i. Arrived i cap \<in> set evs}"

fun cap_in :: "nat set \<Rightarrow> phase \<Rightarrow> bool" where
  "cap_in C (Asleep ticket cap gate) = (cap \<in> C)"
| "cap_in C (Awake ticket cap gate) = (cap \<in> C)"
| "cap_in C _ = True"

lemma cap_in_wake [simp]: "cap_in C (wake x) = cap_in C x"
  by (cases x) auto

definition bounded :: "nat set \<Rightarrow> pool \<Rightarrow> bool" where
  "bounded C p \<longleftrightarrow> (case p of (st, ph) \<Rightarrow>
     (js_running st = 0 \<or> (\<exists>cap \<in> C. js_running st \<le> cap)) \<and> (\<forall>x \<in> set ph. cap_in C x))"

lemma cap_in_update:
  "\<lbrakk>\<forall>x \<in> set ph. cap_in C x; cap_in C y\<rbrakk> \<Longrightarrow> \<forall>x \<in> set (ph[i := y]). cap_in C x"
  by (auto dest!: set_update_subset_insert [THEN subsetD])

lemma bounded_mono:
  assumes "bounded C p" and "C \<subseteq> C'"
  shows "bounded C' p"
proof -
  have "cap_in C x \<Longrightarrow> cap_in C' x" for x using assms(2) by (cases x) auto
  then show ?thesis using assms by (auto simp: bounded_def)
qed

lemma bounded_settle:
  assumes ok: "bounded C (st, ph)" and cap: "cap \<in> C"
    and res: "settle i ticket cap gate (attempt cap gate ticket ms st) ph = (new, p)"
  shows "bounded C p"
proof -
  obtain adm st' where a: "attempt cap gate ticket ms st = (adm, st')" by fastforce
  note st' = attempt_cases [OF a]
  have ph: "\<forall>x \<in> set (ph[i := y]). cap_in C x" if "cap_in C y" for y
    using ok that by (intro cap_in_update) (auto simp: bounded_def)
  show ?thesis
  proof (cases adm)
    case True
    then have "p = (occupy st', ph[i := Admitted])" using res a by (auto simp: settle_def)
    then show ?thesis using st' True cap ph [of Admitted]
      by (auto simp: bounded_def occupy_def Suc_le_eq)
  next
    case False
    then have "p = (st', ph[i := Asleep ticket cap gate])" using res a by (auto simp: settle_def)
    then show ?thesis using ok st' cap ph [of "Asleep ticket cap gate"] by (simp add: bounded_def)
  qed
qed

lemma bounded_update:
  assumes "bounded C (st, ph)" and "js_running st' \<le> js_running st" and "cap_in C x"
  shows "bounded C (st', ph[i := x])"
proof -
  have "js_running st = 0 \<or> (\<exists>cap \<in> C. js_running st \<le> cap)" "\<forall>x \<in> set ph. cap_in C x"
    using assms(1) by (simp_all add: bounded_def)
  moreover from this(2) have "\<forall>y \<in> set (ph[i := x]). cap_in C y" by (rule cap_in_update [OF _ assms(3)])
  ultimately show ?thesis unfolding bounded_def prod.case using assms(2) le_trans by fastforce
qed

lemma bounded_wake: "bounded C (st, ph) \<Longrightarrow> bounded C (st, map wake ph)"
  by (simp add: bounded_def)

lemma step_bounded:
  assumes "step p new q" and "bounded C p"
  shows "bounded (C \<union> caps_asked new) q"
proof -
  have "bounded C q" if quiet: "\<nexists>i cap. Arrived i cap \<in> set new"
    using assms(1)
  proof (cases rule: step_cases)
    case (Retry i ph ticket cap gate ms st)
    have "cap \<in> C" using assms(2) Retry nth_mem [of i ph] by (auto simp: bounded_def)
    then show ?thesis using assms(2) bounded_settle Retry by blast
  next
    case (Spurious i ph ticket cap gate st)
    have "cap_in C (Awake ticket cap gate)"
      using assms(2) Spurious nth_mem [of i ph] by (auto simp: bounded_def)
    then show ?thesis using assms(2) Spurious by (simp add: bounded_update)
  next
    case (Finish i ph st st')
    then have "js_running st' \<le> js_running st" by (auto simp: release_def split: if_splits)
    then show ?thesis using assms(2) Finish by (simp add: bounded_update)
  next
    case (Announce i ph st)
    then show ?thesis using assms(2) bounded_update [OF bounded_wake] by simp
  next
    case (Leave i ph st)
    then show ?thesis using assms(2) bounded_update [OF bounded_wake] by simp
  qed (use quiet in auto)
  moreover have "bounded (C \<union> caps_asked new) q" if hd: "Arrived i cap \<in> set new" for i cap
    using assms(1)
  proof (cases rule: step_cases)
    case (Enter i ph cap gate ms st new')
    obtain ticket st1 where d: "draw_ticket st = (ticket, st1)" by fastforce
    have res: "settle i ticket cap gate (attempt cap gate ticket ms st1) ph = (new', q)"
      using Enter d by (auto simp: take_enter_def split: if_splits)
    have "bounded C (st1, ph)" using assms(2) Enter d by (auto simp: bounded_def draw_ticket_def)
    then have "bounded (C \<union> caps_asked new) (st1, ph)" by (rule bounded_mono) simp
    then show ?thesis by (rule bounded_settle [OF _ _ res]) (auto simp: Enter caps_asked_def)
  next
    case (Retry i ph ticket cap gate ms st)
    then show ?thesis using hd by (auto simp: settle_def split: prod.splits bool.splits)
  qed (use hd in auto)
  ultimately show ?thesis using bounded_mono by blast
qed

lemma history_bounded: "history n evs p \<Longrightarrow> bounded (caps_asked evs) p"
proof (induction rule: history.induct)
  case Start
  show ?case by (simp add: bounded_def job_slots_new_def)
next
  case (More evs p new q)
  have "caps_asked (evs @ new) = caps_asked evs \<union> caps_asked new" by (auto simp: caps_asked_def)
  then show ?case using step_bounded [OF More(2,3)] by simp
qed

text \<open>No more threads hold a slot than the largest cap a call has asked for.\<close>

theorem job_slots_bound:
  assumes "history n evs (st, ph)" and "\<forall>cap \<in> caps_asked evs. cap \<le> most"
  shows "length (filter occupies ph) \<le> most"
proof -
  have "bounded (caps_asked evs) (st, ph)" using assms(1) by (rule history_bounded)
  moreover have "length (filter occupies ph) = js_running st"
    using job_slots_books_lemma [OF assms(1)] by simp
  ultimately show ?thesis using assms(2) by (fastforce simp: bounded_def)
qed

text \<open>Runs in which nobody arrives and nobody wakes without being notified.\<close>

definition closed :: "event list \<Rightarrow> bool" where
  "closed evs \<longleftrightarrow> (\<forall>e \<in> set evs. \<exists>i. e = Started i)"

inductive closed_run :: "pool \<Rightarrow> nat \<Rightarrow> event list \<Rightarrow> pool \<Rightarrow> bool" where
  Done: "closed_run p 0 [] p"
| Then: "\<lbrakk>closed_run p k evs q; step q new r; closed new\<rbrakk> \<Longrightarrow> closed_run p (Suc k) (evs @ new) r"

fun weight :: "phase \<Rightarrow> nat" where
  "weight Away = 0"
| "weight Released = 1"
| "weight Holding = 2"
| "weight Admitted = 3"
| "weight _ = 4"

fun awake :: "phase \<Rightarrow> nat" where
  "awake (Awake ticket cap gate) = 1"
| "awake _ = 0"

definition work :: "phase list \<Rightarrow> nat" where
  "work ph = Suc (length ph) * sum_list (map weight ph) + sum_list (map awake ph)"

lemma awake_le: "sum_list (map awake ph) \<le> length ph"
proof (induction ph)
  case (Cons x ph)
  have "awake x \<le> 1" by (cases x) auto
  then show ?case using Cons by simp
qed simp

lemma work_le: "work ph \<le> Suc (length ph) * (4 * length ph) + length ph"
proof -
  have "weight x \<le> 4" for x by (cases x) auto
  then have "sum_list (map weight ph) \<le> 4 * length ph"
    by (induction ph) (auto intro: add_mono)
  then show ?thesis unfolding work_def by (intro add_mono mult_le_mono awake_le order_refl)
qed

lemma weight_wake [simp]: "weight (wake x) = weight x"
  by (cases x) auto

lemma work_update:
  assumes "i < length ph"
    and "weight x < weight (ph ! i) \<and> awake x = 0 \<or> weight x = weight (ph ! i) \<and> awake x < awake (ph ! i)"
  shows "work (ph[i := x]) < work ph"
proof -
  have w: "sum_list (map weight (ph[i := x])) + weight (ph ! i) = sum_list (map weight ph) + weight x"
    and a: "sum_list (map awake (ph[i := x])) + awake (ph ! i) = sum_list (map awake ph) + awake x"
    by (rule sum_list_map_update [OF assms(1)])+
  show ?thesis
  proof (cases "weight x < weight (ph ! i)")
    case True
    then have "Suc (sum_list (map weight (ph[i := x]))) \<le> sum_list (map weight ph)" using w by linarith
    from mult_le_mono2 [OF this, of "Suc (length ph)"]
    show ?thesis using awake_le [of "ph[i := x]"] by (simp add: work_def)
  next
    case False
    then show ?thesis using assms(2) w a by (simp add: work_def)
  qed
qed

lemma work_notify:
  assumes i: "i < length ph" and w: "weight x < weight (ph ! i)" and a: "awake x = 0"
  shows "work ((map wake ph)[i := x]) < work ph"
proof -
  have "sum_list (map weight ((map wake ph)[i := x])) + weight (ph ! i) = sum_list (map weight ph) + weight x"
    using sum_list_map_update [of i "map wake ph" weight x] i by (simp add: comp_def)
  then have "Suc (sum_list (map weight ((map wake ph)[i := x]))) \<le> sum_list (map weight ph)" using w by linarith
  from mult_le_mono2 [OF this, of "Suc (length ph)"]
  show ?thesis using awake_le [of "(map wake ph)[i := x]"] by (simp add: work_def)
qed

lemma step_work:
  assumes "step p new q" and "closed new"
  shows "work (snd q) < work (snd p)"
  using assms
proof (cases rule: step_cases)
  case (Retry i ph ticket cap gate ms st)
  obtain adm st' where a: "attempt cap gate ticket ms st = (adm, st')" by fastforce
  then have "snd q = ph[i := Admitted] \<or> snd q = ph[i := Asleep ticket cap gate]"
    using Retry by (cases adm) (auto simp: settle_def)
  then show ?thesis using Retry work_update [of i ph Admitted] work_update [of i ph "Asleep ticket cap gate"]
    by auto
qed (use assms(2) work_notify work_update in \<open>auto simp: closed_def\<close>)

lemma closed_run_work:
  "closed_run p k evs q \<Longrightarrow> work (snd q) + k \<le> work (snd p)"
proof (induction rule: closed_run.induct)
  case (Then p k evs q new r)
  then show ?case using step_work [OF Then(2,3)] by linarith
qed simp

lemma closed_run_history: "\<lbrakk>closed_run p k evs' q; history n evs p\<rbrakk> \<Longrightarrow> history n (evs @ evs') q"
proof (induction rule: closed_run.induct)
  case (Then p k evs' q new r)
  then show ?case using history.More [of n "evs @ evs'" q new r] by simp
qed simp

lemma history_length: "history n evs p \<Longrightarrow> length (snd p) = n"
proof (induction rule: history.induct)
  case (More evs p new q)
  then show ?case using step_length by (metis prod.collapse)
qed simp

lemma stuck_away:
  assumes h: "history n evs (st, ph)" and stuck: "\<nexists>new r. step (st, ph) new r \<and> closed new"
  shows "ph = replicate n Away"
proof -
  note books = job_slots_books_lemma [OF h]
  have kinds: "\<exists>t cap gate. ph ! i = Asleep t cap gate" if i: "i < length ph" and away: "ph ! i \<noteq> Away" for i
  proof (cases "ph ! i")
    case (Awake ticket cap gate)
    obtain evs' p where r: "settle i ticket cap gate
        (attempt cap gate ticket \<lparr>rss_idle = None, rss_now = None, soft_budget = None\<rparr> st) ph = (evs', p)"
      by (rule prod.exhaust)
    then have "closed evs'" by (auto simp: settle_def closed_def split: prod.splits bool.splits)
    then show ?thesis using stuck step.Retry [OF i Awake r] by blast
  next
    case Admitted
    then have "step (st, ph) [] (st, (map wake ph)[i := Holding])" using i by (intro step.Announce)
    then show ?thesis using stuck by (fastforce simp: closed_def)
  next
    case Holding
    then obtain st' where "release st = Some st'" using books i by blast
    then have "step (st, ph) [] (st', ph[i := Released])" using i Holding by (intro step.Finish)
    then show ?thesis using stuck by (fastforce simp: closed_def)
  next
    case Released
    then have "step (st, ph) [] (st, (map wake ph)[i := Away])" using i by (intro step.Leave)
    then show ?thesis using stuck by (fastforce simp: closed_def)
  qed (use away in auto)
  have "\<not> occupies (ph ! k)" if "k < length ph" for k
    using kinds [OF that] by (cases "ph ! k = Away") auto
  then have "\<not> occupies x" if "x \<in> set ph" for x using that by (auto simp: in_set_conv_nth)
  then have idle: "js_running st = 0" using books by (simp add: filter_empty_conv)
  have quiet: "\<not> notifies (ph ! k)" if "k < length ph" for k
    using kinds [OF that] by (cases "ph ! k = Away") auto
  have "\<not> js_serving st < js_next st"
  proof
    assume "js_serving st < js_next st"
    then have "js_serving st \<in># mset_set {js_serving st ..< js_next st}" by simp
    then have "js_serving st \<in> set (List.map_filter ticket_of ph)" using books by (metis set_mset_mset)
    then obtain i where i: "i < length ph" "ticket_of (ph ! i) = Some (js_serving st)"
      by (auto simp: map_filter_def in_set_conv_nth)
    then obtain cap gate where head: "ph ! i = Asleep (js_serving st) cap gate"
      using kinds [OF i(1)] by fastforce
    have "no_lost_wake (st, ph)" using history_ok [OF h] by (simp add: pool_ok_def)
    then show False using no_lost_wakeD [OF _ i(1) head] idle quiet by (auto simp: startable_def)
  qed
  then have "List.map_filter ticket_of ph = []" using books by simp
  then have "ticket_of (ph ! i) = None" if "i < length ph" for i
    using that nth_mem [OF that] by (auto simp: map_filter_def filter_empty_conv)
  then have "ph ! i = Away" if "i < length ph" for i using kinds [OF that] that by fastforce
  then show ?thesis using history_length [OF h] by (auto intro: nth_equalityI)
qed

lemma run_served:
  assumes h: "history n evs p" and run: "closed_run p k evs' q"
    and stuck: "\<nexists>new r. step q new r \<and> closed new"
  shows "snd q = replicate n Away \<and> starts (evs @ evs') = arrivals (evs @ evs')"
proof -
  obtain st ph where q: "q = (st, ph)" by fastforce
  have h': "history n (evs @ evs') (st, ph)" using closed_run_history [OF run h] q by simp
  have ph: "ph = replicate n Away" using stuck_away [OF h'] stuck q by simp
  have "List.map_filter ticket_of ph = []" by (auto simp: ph map_filter_def filter_empty_conv)
  then have "js_next st \<le> js_serving st" using job_slots_books_lemma [OF h']
    by (metis finite_atLeastLessThan mset.simps(1) mset_set_empty_iff atLeastLessThan_empty_iff not_le)
  then show ?thesis using history_in_order [OF h'] ph q by (auto simp: in_order_def)
qed

text \<open>
  C10. Without new arrivals and spurious wake-ups every run is finite, whoever goes next and
  whatever memory measures, and when nothing can move any more every job has started, in the
  order of the arrivals, and every thread has left the pool: no wake-up is lost.
\<close>

theorem job_slots_all_served:
  assumes "history n evs p" and "closed_run p k evs' q"
  shows "k \<le> 4 * n * (n + 1) + n \<and>
    ((\<nexists>new r. step q new r \<and> closed new) \<longrightarrow>
       snd q = replicate n Away \<and> starts (evs @ evs') = arrivals (evs @ evs'))"
proof -
  have "k \<le> work (snd p)" using closed_run_work [OF assms(2)] by simp
  then have "k \<le> 4 * n * (n + 1) + n"
    using work_le [of "snd p"] history_length [OF assms(1)] by (simp add: algebra_simps)
  then show ?thesis using run_served [OF assms] by blast
qed

section \<open>A concrete history\<close>

text \<open>Three threads and two slots: the third waits until the first job is done.\<close>

definition no_memory :: measured where
  "no_memory = \<lparr>rss_idle = None, rss_now = None, soft_budget = None\<rparr>"

definition demo_state :: "nat \<Rightarrow> nat \<Rightarrow> nat \<Rightarrow> job_slots" where
  "demo_state running nxt serving =
     \<lparr>js_running = running, js_next = nxt, js_serving = serving, js_idle = 0\<rparr>"

lemma demo_enter:
  assumes "history 3 evs (st, ph)" and "i < length ph" "ph ! i = Away"
    and "take_enter i 2 False no_memory (st, ph) = Some (new, q)" and "evs' = evs @ Arrived i 2 # new"
  shows "history 3 evs' q"
  using history.More [OF assms(1) step.Enter [OF assms(2-4)]] assms(5) by simp

lemma demo_waiting:
  "history 3 [Arrived 0 2, Started 0, Arrived 1 2, Started 1, Arrived 2 2]
     (demo_state 2 3 2, [Admitted, Admitted, Asleep 2 2 False])"
proof -
  note ev = take_enter_def draw_ticket_def attempt_def settle_def occupy_def demo_state_def no_memory_def
  have "history 3 [] (job_slots_new, replicate 3 Away)" by (rule history.Start)
  then have "history 3 [Arrived 0 2, Started 0] (demo_state 1 1 1, [Admitted, Away, Away])"
    by (rule demo_enter [of _ _ _ 0]) (simp_all add: ev job_slots_new_def numeral_3_eq_3)
  then have "history 3 [Arrived 0 2, Started 0, Arrived 1 2, Started 1] (demo_state 2 2 2, [Admitted, Admitted, Away])"
    by (rule demo_enter [of _ _ _ 1]) (simp_all add: ev numeral_2_eq_2)
  then show ?thesis
    by (rule demo_enter [of _ _ _ 2]) (simp_all add: ev numeral_3_eq_3)
qed

theorem job_slots_books_witness:
  "js_running (demo_state 2 3 2) = 2 \<and>
   mset_set {2 ..< 3} = mset (List.map_filter ticket_of [Admitted, Admitted, Asleep 2 2 False])"
  using job_slots_books [OF demo_waiting] by (simp add: demo_state_def)

theorem job_slots_fifo_witness:
  "starts [Arrived 0 2, Started 0, Arrived 1 2, Started 1, Arrived 2 2] = [0, 1]"
  using job_slots_fifo [OF demo_waiting] by (simp add: demo_state_def)

theorem job_slots_bound_witness:
  "length (filter occupies [Admitted, Admitted, Asleep 2 2 False]) \<le> 2"
  using job_slots_bound [OF demo_waiting, of 2] by (simp add: caps_asked_def)

text \<open>One thread alone: it starts at once, and after the notification and the drop all is quiet.\<close>

lemma demo_alone: "history 1 [Arrived 0 2, Started 0] (demo_state 1 1 1, [Admitted])"
proof -
  have "history 1 [] (job_slots_new, [Away])" using history.Start [of 1] by simp
  from history.More [OF this step.Enter [of 0 _ 2 False no_memory]] show ?thesis
    by (simp add: take_enter_def draw_ticket_def attempt_def settle_def occupy_def demo_state_def
        job_slots_new_def no_memory_def)
qed

lemma demo_run: "closed_run (demo_state 1 1 1, [Admitted]) 3 [] (demo_state 0 1 1, [Away])"
proof -
  have "step (demo_state 1 1 1, [Admitted]) [] (demo_state 1 1 1, [Holding])"
    using step.Announce [of 0 "[Admitted]" "demo_state 1 1 1"] by simp
  moreover have "step (demo_state 1 1 1, [Holding]) [] (demo_state 0 1 1, [Released])"
    using step.Finish [of 0 "[Holding]" "demo_state 1 1 1" "demo_state 0 1 1"]
    by (simp add: release_def demo_state_def)
  moreover have "step (demo_state 0 1 1, [Released]) [] (demo_state 0 1 1, [Away])"
    using step.Leave [of 0 "[Released]" "demo_state 0 1 1"] by simp
  ultimately show ?thesis
    using closed_run.Then [OF closed_run.Then [OF closed_run.Then [OF closed_run.Done]]]
    by (fastforce simp: closed_def numeral_3_eq_3)
qed

lemma demo_stuck: "\<nexists>new r. step (demo_state 0 1 1, [Away]) new r \<and> closed new"
  by (auto simp: closed_def elim!: step_cases)

theorem job_slots_all_served_witness:
  "starts ([Arrived 0 2, Started 0] @ []) = arrivals ([Arrived 0 2, Started 0] @ [])"
  using job_slots_all_served [OF demo_alone demo_run] demo_stuck by blast

end
