(* ===== verification/ExpertPool.thy ===== *)
theory ExpertPool
  imports RlxPrelude Complex_Main "HOL-Library.Multiset" "HOL-Library.Product_Lexorder"
begin

text \<open>
  The residency pool of a mixture-of-experts layer (\<open>crates/core/rlx-runtime/src/expert_pool.rs\<close>):
  which experts are kept on the device. Placement is refreshed from hit counts, either as a
  paired swap towards the most used experts or, with hysteresis, one challenger at a time.
  A hash set iterates in an order nobody promises: \<open>iter\<close>. The comparison of hit counts in
  double precision is the parameter \<open>beats\<close>, given the margin and the two counts; margins are
  rationals (an \<open>f32\<close> that is not NaN or infinite is one).
\<close>

section \<open>Configuration\<close>

datatype refresh_policy = EveryForward | EveryDecodeSteps nat | EveryDenoiseSteps nat

definition refresh_policy_default :: refresh_policy where
  "refresh_policy_default = EveryDenoiseSteps 1"

datatype exec_mode = Reuse | Refresh

record hysteresis_config =
  hy_margin :: rat
  hy_min_dwell :: nat

definition hysteresis_default :: hysteresis_config where
  "hysteresis_default = \<lparr>hy_margin = 0, hy_min_dwell = 0\<rparr>"

definition hysteresis_active :: "hysteresis_config \<Rightarrow> bool" where
  "hysteresis_active h \<longleftrightarrow> hy_margin h > 0 \<or> hy_min_dwell h > 0"

record pool_config =
  pc_num_experts :: nat
  pc_gpu_budget :: nat
  pc_refresh :: refresh_policy
  pc_hysteresis :: hysteresis_config

definition pool_config_new :: "nat \<Rightarrow> nat \<Rightarrow> refresh_policy \<Rightarrow> pool_config" where
  "pool_config_new n budget policy =
     \<lparr>pc_num_experts = n, pc_gpu_budget = min budget n, pc_refresh = policy,
      pc_hysteresis = hysteresis_default\<rparr>"

definition with_hysteresis :: "pool_config \<Rightarrow> hysteresis_config \<Rightarrow> pool_config" where
  "with_hysteresis config h = config\<lparr>pc_hysteresis := h\<rparr>"

definition all_resident :: "nat \<Rightarrow> pool_config" where
  "all_resident n = pool_config_new n n EveryForward"

section \<open>The pool\<close>

record refresh_result =
  rr_target :: "nat list"
  rr_promotions :: nat
  rr_demotions :: nat

record pool_stats =
  ps_refreshes :: nat
  ps_promotions :: nat
  ps_demotions :: nat

definition pool_stats_default :: pool_stats where
  "pool_stats_default = \<lparr>ps_refreshes = 0, ps_promotions = 0, ps_demotions = 0\<rparr>"

record expert_pool =
  xp_num_experts :: nat
  xp_gpu_budget :: nat
  xp_refresh :: refresh_policy
  xp_resident :: "nat set"
  xp_steps :: nat
  xp_stats :: pool_stats
  xp_hysteresis :: hysteresis_config
  xp_clock :: nat
  xp_since :: "nat \<rightharpoonup> nat"

definition expert_pool_new :: "pool_config \<Rightarrow> expert_pool" where
  "expert_pool_new config =
     (let budget = min (pc_gpu_budget config) (pc_num_experts config) in
      \<lparr>xp_num_experts = pc_num_experts config, xp_gpu_budget = budget,
       xp_refresh = pc_refresh config, xp_resident = set [0..<budget], xp_steps = 0,
       xp_stats = pool_stats_default, xp_hysteresis = pc_hysteresis config, xp_clock = 0,
       xp_since = map_of (map (\<lambda>e. (e, 0)) [0..<budget])\<rparr>)"

definition reset_step_stats :: "expert_pool \<Rightarrow> expert_pool" where
  "reset_step_stats p = p\<lparr>xp_stats := pool_stats_default\<rparr>"

definition resident_mask :: "expert_pool \<Rightarrow> bool list" where
  "resident_mask p = map (\<lambda>e. e \<in> xp_resident p) [0..<xp_num_experts p]"

definition is_gpu_resident :: "expert_pool \<Rightarrow> nat \<Rightarrow> bool" where
  "is_gpu_resident p e \<longleftrightarrow> e \<in> xp_resident p"

definition offload_enabled :: "expert_pool \<Rightarrow> bool" where
  "offload_enabled p \<longleftrightarrow> xp_gpu_budget p < xp_num_experts p"

definition should_refresh :: "expert_pool \<Rightarrow> exec_mode \<Rightarrow> nat \<Rightarrow> bool \<Rightarrow> bool" where
  "should_refresh p mode denoise_step prefill =
     (if \<not> offload_enabled p then False
      else case mode of
        Refresh \<Rightarrow> True
      | Reuse \<Rightarrow>
          if prefill then True
          else case xp_refresh p of
            EveryForward \<Rightarrow> True
          | EveryDecodeSteps n \<Rightarrow> max n 1 dvd denoise_step
          | EveryDenoiseSteps n \<Rightarrow> max n 1 dvd denoise_step)"

definition on_forward_step :: "expert_pool \<Rightarrow> exec_mode \<Rightarrow> nat \<Rightarrow> bool \<Rightarrow> bool \<times> expert_pool" where
  "on_forward_step p mode denoise_step prefill =
     (let refresh = should_refresh p mode denoise_step prefill
      in (refresh, p\<lparr>xp_steps := if refresh then 0 else saturating_add (xp_steps p) 1\<rparr>))"

section \<open>Hit counts\<close>

definition count_hits :: "nat list \<Rightarrow> nat \<Rightarrow> nat list" where
  "count_hits idx n =
     foldl (\<lambda>counts e. if e < n then counts[e := counts ! e + 1] else counts) (replicate n 0) idx"

text \<open>Experts with hits, most used first, the lower id first among equals.\<close>

definition target_gpu_from_counts :: "nat list \<Rightarrow> nat \<Rightarrow> nat list" where
  "target_gpu_from_counts counts budget =
     (let ranked = map (\<lambda>(e, c). (c, e)) (filter (\<lambda>(e, c). c > 0) (enumerate 0 counts))
      in map snd (take budget (sort_key (\<lambda>(c, e). (- int c, e)) ranked)))"

definition hits_of :: "nat list \<Rightarrow> nat \<Rightarrow> nat" where
  "hits_of counts e = (if e < length counts then counts ! e else 0)"

section \<open>Placement\<close>

definition since_of :: "(nat \<rightharpoonup> nat) \<Rightarrow> nat \<Rightarrow> nat" where
  "since_of since e = (case since e of Some t \<Rightarrow> t | None \<Rightarrow> 0)"

definition resident_since :: "expert_pool \<Rightarrow> nat \<Rightarrow> nat" where
  "resident_since p e = since_of (xp_since p) e"

definition record_refresh :: "nat \<Rightarrow> nat \<Rightarrow> pool_stats \<Rightarrow> pool_stats" where
  "record_refresh promotions demotions s =
     \<lparr>ps_refreshes = ps_refreshes s + 1, ps_promotions = ps_promotions s + promotions,
      ps_demotions = ps_demotions s + demotions\<rparr>"

definition apply_target_placement ::
    "(nat set \<Rightarrow> nat list) \<Rightarrow> expert_pool \<Rightarrow> nat list \<Rightarrow> refresh_result \<times> expert_pool" where
  "apply_target_placement iter p target =
     (let clock = xp_clock p + 1;
          to_promote = filter (\<lambda>e. e \<notin> xp_resident p) target;
          can_demote = filter (\<lambda>e. e \<notin> set target) (iter (xp_resident p));
          to_demote = take (length to_promote) can_demote;
          resident = set target \<union> set (drop (length to_promote) can_demote);
          since = foldl (\<lambda>m e. m(e \<mapsto> clock)) (xp_since p) to_promote |` resident
      in (\<lparr>rr_target = target, rr_promotions = length to_promote, rr_demotions = length to_demote\<rparr>,
          p\<lparr>xp_clock := clock, xp_since := since, xp_resident := resident,
            xp_stats := record_refresh (length to_promote) (length to_demote) (xp_stats p)\<rparr>))"

text \<open>The weakest incumbent whose hold is over, if the challenger beats it; the rest to try.\<close>

fun displaced ::
    "(nat \<Rightarrow> nat \<Rightarrow> bool) \<Rightarrow> (nat \<Rightarrow> nat) \<Rightarrow> (nat \<rightharpoonup> nat) \<Rightarrow> nat \<Rightarrow> nat \<Rightarrow> nat \<Rightarrow> nat list \<Rightarrow>
       nat option \<times> nat list" where
  "displaced wins hits since clock dwell c [] = (None, [])"
| "displaced wins hits since clock dwell c (i # ev) =
     (if clock - since_of since i < dwell then displaced wins hits since clock dwell c ev
      else if wins (hits c) (hits i) then (Some i, ev)
      else (None, i # ev))"

text \<open>Resident experts, their timestamps, the promotions and the demotions so far.\<close>

type_synonym swaps = "nat set \<times> (nat \<rightharpoonup> nat) \<times> nat \<times> nat"

fun challenge ::
    "(nat \<Rightarrow> nat \<Rightarrow> bool) \<Rightarrow> (nat \<Rightarrow> nat) \<Rightarrow> nat \<Rightarrow> nat \<Rightarrow> nat \<Rightarrow> nat list \<Rightarrow> nat list \<Rightarrow> swaps \<Rightarrow> swaps" where
  "challenge wins hits budget clock dwell [] ev s = s"
| "challenge wins hits budget clock dwell (c # cs) ev (resident, since, pro, dem) =
     (if card resident < budget
      then challenge wins hits budget clock dwell cs ev
             (insert c resident, since(c \<mapsto> clock), pro + 1, dem)
      else case displaced wins hits since clock dwell c ev of
        (Some i, ev') \<Rightarrow>
          challenge wins hits budget clock dwell cs ev'
            (insert c (resident - {i}), (since(i := None))(c \<mapsto> clock), pro + 1, dem + 1)
      | (None, _) \<Rightarrow> (resident, since, pro, dem))"

definition apply_hysteresis_placement ::
    "(rat \<Rightarrow> nat \<Rightarrow> nat \<Rightarrow> bool) \<Rightarrow> (nat set \<Rightarrow> nat list) \<Rightarrow> expert_pool \<Rightarrow> nat list \<Rightarrow>
       refresh_result \<times> expert_pool" where
  "apply_hysteresis_placement beats iter p counts =
     (let clock = xp_clock p + 1;
          wins = beats (max (hy_margin (xp_hysteresis p)) 0);
          desired = target_gpu_from_counts counts (xp_gpu_budget p);
          to_add = filter (\<lambda>e. e \<notin> xp_resident p) desired;
          evictable = sort_key (\<lambda>e. (hits_of counts e, resident_since p e, e))
                        (filter (\<lambda>e. e \<notin> set desired) (iter (xp_resident p)))
      in case challenge wins (hits_of counts) (xp_gpu_budget p) clock
                (hy_min_dwell (xp_hysteresis p)) to_add evictable
                (xp_resident p, xp_since p, 0, 0) of
           (resident, since, promotions, demotions) \<Rightarrow>
             (\<lparr>rr_target = desired, rr_promotions = promotions, rr_demotions = demotions\<rparr>,
              p\<lparr>xp_clock := clock, xp_since := since, xp_resident := resident,
                xp_stats := record_refresh promotions demotions (xp_stats p)\<rparr>))"

definition refresh_from_counts ::
    "(rat \<Rightarrow> nat \<Rightarrow> nat \<Rightarrow> bool) \<Rightarrow> (nat set \<Rightarrow> nat list) \<Rightarrow> expert_pool \<Rightarrow> nat list \<Rightarrow>
       refresh_result \<times> expert_pool" where
  "refresh_from_counts beats iter p counts =
     (if hysteresis_active (xp_hysteresis p) then apply_hysteresis_placement beats iter p counts
      else apply_target_placement iter p (target_gpu_from_counts counts (xp_gpu_budget p)))"

definition refresh_from_indices ::
    "(rat \<Rightarrow> nat \<Rightarrow> nat \<Rightarrow> bool) \<Rightarrow> (nat set \<Rightarrow> nat list) \<Rightarrow> expert_pool \<Rightarrow> nat list \<Rightarrow>
       refresh_result \<times> expert_pool" where
  "refresh_from_indices beats iter p idx =
     refresh_from_counts beats iter p (count_hits idx (xp_num_experts p))"

section \<open>Several layers\<close>

definition per_layer_resident_masks :: "expert_pool list \<Rightarrow> bool list list" where
  "per_layer_resident_masks pools = map resident_mask pools"

definition merged_resident_mask :: "expert_pool list \<Rightarrow> bool list" where
  "merged_resident_mask pools =
     (case pools of [] \<Rightarrow> []
      | first # _ \<Rightarrow> map (\<lambda>e. \<exists>p \<in> set pools. is_gpu_resident p e) [0..<xp_num_experts first])"

definition gpu_expert_budget_from_vram :: "nat \<Rightarrow> nat \<Rightarrow> nat \<Rightarrow> nat \<Rightarrow> nat \<Rightarrow> nat \<Rightarrow> nat" where
  "gpu_expert_budget_from_vram free reserve param_bytes layers most n =
     (if param_bytes = 0 \<or> layers = 0 then min most n
      else min (min ((free - reserve) div saturating_mul param_bytes layers) most) n)"

section \<open>The ranking\<close>

lemma ranked_props:
  fixes counts :: "nat list"
  defines "ranked \<equiv> map (\<lambda>(e, c). (c, e)) (filter (\<lambda>(e, c). c > 0) (enumerate 0 counts))"
  shows "set ranked = {(counts ! e, e) | e. e < length counts \<and> counts ! e > 0}"
    and "distinct (map snd ranked)"
proof -
  show "set ranked = {(counts ! e, e) | e. e < length counts \<and> counts ! e > 0}"
    by (force simp: ranked_def in_set_enumerate_eq)
  have "map snd ranked = map fst (filter (\<lambda>(e, c). c > 0) (enumerate 0 counts))"
    by (auto simp: ranked_def)
  moreover have "distinct (map fst (filter (\<lambda>(e, c). c > 0) (enumerate 0 counts)))"
    by (rule distinct_map_filter) simp
  ultimately show "distinct (map snd ranked)" by simp
qed

lemma target_distinct: "distinct (target_gpu_from_counts counts budget)"
proof -
  let ?r = "map (\<lambda>(e, c). (c, e)) (filter (\<lambda>(e, c). c > 0) (enumerate 0 counts))"
  have "mset (map snd (sort_key (\<lambda>(c, e). (- int c, e)) ?r)) = mset (map snd ?r)"
    by (simp only: mset_map mset_sort)
  then have "distinct (map snd (sort_key (\<lambda>(c, e). (- int c, e)) ?r))"
    using ranked_props(2) mset_eq_imp_distinct_iff by metis
  then show ?thesis
    by (simp add: target_gpu_from_counts_def Let_def take_map [symmetric])
qed

lemma target_length: "length (target_gpu_from_counts counts budget) \<le> budget"
  by (simp add: target_gpu_from_counts_def Let_def)

lemma target_member:
  "e \<in> set (target_gpu_from_counts counts budget) \<Longrightarrow> e < length counts \<and> counts ! e > 0"
proof -
  assume "e \<in> set (target_gpu_from_counts counts budget)"
  then obtain c where "(c, e) \<in> set (map (\<lambda>(e, c). (c, e)) (filter (\<lambda>(e, c). c > 0) (enumerate 0 counts)))"
    unfolding target_gpu_from_counts_def Let_def by (auto dest!: in_set_takeD)
  then show ?thesis unfolding ranked_props(1) by auto
qed

text \<open>No expert outside of the target is used more than one inside, once the target is full.\<close>

lemma target_best:
  assumes t: "e \<in> set (target_gpu_from_counts counts budget)"
    and x: "x < length counts" "counts ! x > 0" "x \<notin> set (target_gpu_from_counts counts budget)"
  shows "counts ! x < counts ! e \<or> counts ! x = counts ! e \<and> e < x"
proof -
  let ?r = "map (\<lambda>(e, c). (c, e)) (filter (\<lambda>(e, c). c > 0) (enumerate 0 counts))"
  let ?k = "\<lambda>(c, e). (- int c, e :: nat)"
  let ?s = "sort_key ?k ?r"
  have tgt: "target_gpu_from_counts counts budget = map snd (take budget ?s)"
    by (simp add: target_gpu_from_counts_def Let_def)
  obtain c where c: "(c, e) \<in> set (take budget ?s)" using t tgt by auto
  have "(c, e) \<in> set ?r" using in_set_takeD [OF c] by simp
  then have ce: "c = counts ! e" unfolding ranked_props(1) by auto
  have "(counts ! x, x) \<in> set ?r" unfolding ranked_props(1) using x by auto
  then have "(counts ! x, x) \<in> set (take budget ?s @ drop budget ?s)" by simp
  moreover have "(counts ! x, x) \<notin> set (take budget ?s)" using x(3) tgt by force
  ultimately have "(counts ! x, x) \<in> set (drop budget ?s)" by (metis Un_iff set_append)
  moreover have "sorted (map ?k (take budget ?s) @ map ?k (drop budget ?s))"
    unfolding map_append [symmetric] append_take_drop_id by (rule sorted_sort_key)
  ultimately have "?k (c, e) \<le> ?k (counts ! x, x)"
    using c by (fastforce simp: sorted_append)
  moreover have "e \<noteq> x" using t x by auto
  ultimately show ?thesis using ce by (auto simp: less_eq_prod_def)
qed

lemma target_full:
  assumes "x < length counts" "counts ! x > 0" "x \<notin> set (target_gpu_from_counts counts budget)"
  shows "length (target_gpu_from_counts counts budget) = budget"
proof (rule ccontr)
  let ?r = "map (\<lambda>(e, c). (c, e)) (filter (\<lambda>(e, c). c > 0) (enumerate 0 counts))"
  let ?s = "sort_key (\<lambda>(c, e). (- int c, e)) ?r"
  have tgt: "target_gpu_from_counts counts budget = map snd (take budget ?s)"
    by (simp add: target_gpu_from_counts_def Let_def)
  assume "length (target_gpu_from_counts counts budget) \<noteq> budget"
  then have "take budget ?s = ?s" using tgt by (auto simp: min_def split: if_splits)
  then have "set (target_gpu_from_counts counts budget) = snd ` set ?r" unfolding tgt by simp
  moreover have "(counts ! x, x) \<in> set ?r" unfolding ranked_props(1) using assms by auto
  ultimately show False using assms(3) by force
qed

lemma count_hits_length: "length (count_hits idx n) = n"
proof -
  have "length (foldl (\<lambda>counts e. if e < n then counts[e := counts ! e + 1] else counts) cs idx) = length cs"
    for cs :: "nat list" by (induction idx arbitrary: cs) auto
  then show ?thesis by (simp add: count_hits_def)
qed

lemma count_hits_nth:
  assumes "e < n"
  shows "count_hits idx n ! e = count_list idx e"
proof -
  have "foldl (\<lambda>counts e. if e < n then counts[e := counts ! e + 1] else counts) cs idx ! e =
      cs ! e + count_list idx e" if "length cs = n" for cs :: "nat list"
    using that assms by (induction idx arbitrary: cs) (auto simp: nth_list_update)
  then show ?thesis using assms by (simp add: count_hits_def)
qed

section \<open>What the placement loop computes\<close>

text \<open>
  The closed form of the hysteresis loop: free slots go to the first challengers; the others
  meet the incumbents whose hold is over in their order, pair by pair, as long as they win.
\<close>

definition hold_over :: "(nat \<rightharpoonup> nat) \<Rightarrow> nat \<Rightarrow> nat \<Rightarrow> nat \<Rightarrow> bool" where
  "hold_over since clock dwell e \<longleftrightarrow> dwell \<le> clock - since_of since e"

definition duels :: "(nat \<Rightarrow> nat \<Rightarrow> bool) \<Rightarrow> (nat \<Rightarrow> nat) \<Rightarrow> nat list \<Rightarrow> nat list \<Rightarrow> (nat \<times> nat) list" where
  "duels wins hits cs incumbents = takeWhile (\<lambda>(c, i). wins (hits c) (hits i)) (zip cs incumbents)"

definition swapped :: "nat \<Rightarrow> (nat \<rightharpoonup> nat) \<Rightarrow> nat set \<Rightarrow> nat set \<Rightarrow> nat \<rightharpoonup> nat" where
  "swapped clock since promoted evicted e =
     (if e \<in> promoted then Some clock else if e \<in> evicted then None else since e)"

lemma displaced_cases:
  assumes "distinct ev"
  shows "displaced wins hits since clock dwell c ev =
     (case filter (hold_over since clock dwell) ev of
        [] \<Rightarrow> (None, [])
      | i # U \<Rightarrow> if wins (hits c) (hits i) then (Some i, tl (dropWhile (\<lambda>x. x \<noteq> i) ev))
          else (None, dropWhile (\<lambda>x. x \<noteq> i) ev))"
  using assms
proof (induction ev)
  case (Cons a ev)
  show ?case
  proof (cases "hold_over since clock dwell a")
    case True
    then show ?thesis by (simp add: hold_over_def)
  next
    case False
    have a: "a \<notin> set (filter (hold_over since clock dwell) ev)" using False by simp
    have skip: "displaced wins hits since clock dwell c (a # ev) = displaced wins hits since clock dwell c ev"
      using False by (simp add: hold_over_def)
    have IH: "displaced wins hits since clock dwell c ev =
       (case filter (hold_over since clock dwell) ev of
          [] \<Rightarrow> (None, [])
        | i # U \<Rightarrow> if wins (hits c) (hits i) then (Some i, tl (dropWhile (\<lambda>x. x \<noteq> i) ev))
            else (None, dropWhile (\<lambda>x. x \<noteq> i) ev))"
      using Cons by simp
    show ?thesis unfolding skip IH using False by (auto split: list.splits dest: filter_eq_ConsD)
  qed
qed simp

lemma filter_rest:
  "\<lbrakk>filter P ev = i # U; distinct ev\<rbrakk> \<Longrightarrow> filter P (tl (dropWhile (\<lambda>x. x \<noteq> i) ev)) = U \<and>
     distinct (tl (dropWhile (\<lambda>x. x \<noteq> i) ev)) \<and>
     set (tl (dropWhile (\<lambda>x. x \<noteq> i) ev)) \<subseteq> set ev - {i} \<and> i \<in> set ev"
proof (induction ev)
  case (Cons a ev)
  show ?case
  proof (cases "P a")
    case True
    then show ?thesis using Cons.prems by auto
  next
    case False
    then have "filter P ev = i # U" using Cons.prems by simp
    moreover from this have "i \<in> set (filter P ev)" by simp
    then have "a \<noteq> i" using False by auto
    ultimately show ?thesis using Cons by auto
  qed
qed simp

lemma challenge_full:
  assumes "budget \<le> card res" "finite res" "distinct cs" "distinct ev" "set cs \<inter> res = {}" "set ev \<subseteq> res"
  shows "challenge wins hits budget clock dwell cs ev (res, since, pro, dem) =
    (let D = duels wins hits cs (filter (hold_over since clock dwell) ev) in
      (res - set (map snd D) \<union> set (map fst D), swapped clock since (set (map fst D)) (set (map snd D)),
       pro + length D, dem + length D))"
  using assms
proof (induction cs arbitrary: ev res since pro dem)
  case Nil
  show ?case by (simp add: duels_def swapped_def fun_eq_iff)
next
  case (Cons c cs)
  let ?U = "filter (hold_over since clock dwell) ev"
  show ?case
  proof (cases ?U)
    case Nil
    then show ?thesis using Cons.prems
      by (simp add: displaced_cases duels_def swapped_def fun_eq_iff)
  next
    case U: (Cons i U)
    note rest = filter_rest [OF U \<open>distinct ev\<close>]
    show ?thesis
    proof (cases "wins (hits c) (hits i)")
      case False
      then show ?thesis using Cons.prems U
        by (simp add: displaced_cases duels_def swapped_def fun_eq_iff)
    next
      case True
      let ?ev = "tl (dropWhile (\<lambda>x. x \<noteq> i) ev)"
      let ?since = "(since(i := None))(c \<mapsto> clock)" and ?res = "insert c (res - {i})"
      have i: "i \<in> res" "c \<noteq> i" "c \<notin> res" using rest Cons.prems by auto
      have "set ?ev \<subseteq> res - {i}" using rest Cons.prems by auto
      then have same: "filter (hold_over ?since clock dwell) ?ev = U"
        using rest i by (subst filter_cong [of ?ev ?ev _ "hold_over since clock dwell"])
          (auto simp: hold_over_def since_of_def)
      have "challenge wins hits budget clock dwell (c # cs) ev (res, since, pro, dem) =
          challenge wins hits budget clock dwell cs ?ev (?res, ?since, pro + 1, dem + 1)"
        using Cons.prems U True by (simp add: displaced_cases)
      also have "\<dots> = (let D = duels wins hits cs U in
          (?res - set (map snd D) \<union> set (map fst D), swapped clock ?since (set (map fst D)) (set (map snd D)),
           pro + 1 + length D, dem + 1 + length D))"
        unfolding same [symmetric]
        by (rule Cons.IH) (use Cons.prems i rest in \<open>auto simp: card_insert_if card_Diff_singleton\<close>)
      also have "\<dots> = (let D = duels wins hits (c # cs) ?U in
          (res - set (map snd D) \<union> set (map fst D), swapped clock since (set (map fst D)) (set (map snd D)),
           pro + length D, dem + length D))"
      proof -
        define D where "D = duels wins hits cs U"
        have D: "duels wins hits (c # cs) ?U = (c, i) # D" using U True by (simp add: duels_def D_def)
        have "set D \<subseteq> set (zip cs U)" unfolding D_def duels_def by (auto dest: set_takeWhileD)
        then have "set (map snd D) \<subseteq> set U" by (fastforce dest: set_zip_rightD)
        moreover have "set U \<subseteq> res" using U Cons.prems by (metis filter_is_subset set_subset_Cons subset_trans)
        ultimately have "c \<notin> set (map snd D)" using i by blast
        then show ?thesis using i
          unfolding D Let_def D_def [symmetric] by (auto simp: swapped_def fun_eq_iff)
      qed
      finally show ?thesis .
    qed
  qed
qed

lemma duels_sub:
  "set (map fst (duels wins hits cs U)) \<subseteq> set cs" "set (map snd (duels wins hits cs U)) \<subseteq> set U"
  unfolding duels_def by (auto dest!: set_takeWhileD dest: set_zip_leftD set_zip_rightD)

lemma duels_prefix:
  "map fst (duels wins hits cs U) = take (length (duels wins hits cs U)) cs"
  "map snd (duels wins hits cs U) = take (length (duels wins hits cs U)) U"
proof -
  let ?n = "length (duels wins hits cs U)"
  have eq: "duels wins hits cs U = take ?n (zip cs U)" unfolding duels_def by (rule takeWhile_eq_take)
  have "?n \<le> length (zip cs U)" unfolding duels_def by (rule length_takeWhile_le)
  then show "map fst (duels wins hits cs U) = take ?n cs" "map snd (duels wins hits cs U) = take ?n U"
    by (subst eq, simp add: take_zip)+
qed

definition placed ::
    "(nat \<Rightarrow> nat \<Rightarrow> bool) \<Rightarrow> (nat \<Rightarrow> nat) \<Rightarrow> nat \<Rightarrow> nat \<Rightarrow> nat \<Rightarrow> nat list \<Rightarrow> nat list \<Rightarrow> swaps \<Rightarrow> swaps" where
  "placed wins hits budget clock dwell cs ev s =
     (case s of (res, since, pro, dem) \<Rightarrow>
        let free = budget - card res;
            D = duels wins hits (drop free cs) (filter (hold_over since clock dwell) ev);
            promoted = set (take free cs) \<union> set (map fst D);
            evicted = set (map snd D)
        in (res - evicted \<union> promoted, swapped clock since promoted evicted,
            pro + length (take free cs) + length D, dem + length D))"

lemma challenge_placed_aux:
  assumes "finite res" "distinct cs" "distinct ev" "set cs \<inter> res = {}" "set ev \<subseteq> res"
  shows "challenge wins hits budget clock dwell cs ev (res, since, pro, dem) =
    placed wins hits budget clock dwell cs ev (res, since, pro, dem)"
  using assms
proof (induction cs arbitrary: res since pro)
  case Nil
  show ?case by (simp add: placed_def duels_def swapped_def fun_eq_iff)
next
  case (Cons c cs)
  show ?case
  proof (cases "card res < budget")
    case False
    then show ?thesis using challenge_full [of budget res "c # cs" ev] Cons.prems
      by (simp add: placed_def Let_def)
  next
    case True
    let ?U = "filter (hold_over since clock dwell) ev"
    have c: "c \<notin> res" using Cons.prems by auto
    have same: "filter (hold_over (since(c \<mapsto> clock)) clock dwell) ev = ?U"
      using c Cons.prems(5) by (intro filter_cong refl) (auto simp: hold_over_def since_of_def)
    have free: "budget - card res = Suc (budget - card (insert c res))"
      using True c Cons.prems(1) by simp
    have "challenge wins hits budget clock dwell (c # cs) ev (res, since, pro, dem) =
        challenge wins hits budget clock dwell cs ev (insert c res, since(c \<mapsto> clock), pro + 1, dem)"
      using True by simp
    also have "\<dots> = placed wins hits budget clock dwell cs ev (insert c res, since(c \<mapsto> clock), pro + 1, dem)"
      by (rule Cons.IH) (use Cons.prems c in auto)
    also have "\<dots> = placed wins hits budget clock dwell (c # cs) ev (res, since, pro, dem)"
    proof -
      define D where "D = duels wins hits (drop (budget - card (insert c res)) cs) ?U"
      have "set (map snd D) \<subseteq> set ?U" unfolding D_def by (rule duels_sub)
      moreover have "set ?U \<subseteq> res" using Cons.prems(5) by auto
      ultimately have "c \<notin> set (map snd D)" using c by blast
      then show ?thesis
        unfolding placed_def prod.case same free drop_Suc_Cons take_Suc_Cons Let_def D_def [symmetric]
        by (auto simp: swapped_def fun_eq_iff)
    qed
    finally show ?thesis .
  qed
qed

section \<open>The invariant\<close>

definition iterates :: "(nat set \<Rightarrow> nat list) \<Rightarrow> bool" where
  "iterates iter \<longleftrightarrow> (\<forall>S. finite S \<longrightarrow> set (iter S) = S \<and> distinct (iter S))"

definition residency_ok :: "expert_pool \<Rightarrow> bool" where
  "residency_ok p \<longleftrightarrow>
     finite (xp_resident p) \<and> card (xp_resident p) \<le> xp_gpu_budget p \<and>
     xp_gpu_budget p \<le> xp_num_experts p \<and> xp_resident p \<subseteq> {..<xp_num_experts p} \<and>
     dom (xp_since p) = xp_resident p \<and> (\<forall>e t. xp_since p e = Some t \<longrightarrow> t \<le> xp_clock p)"

text \<open>What a refresh does to the residents; the books of promotions and demotions are exact.\<close>

definition swaps_ok :: "expert_pool \<Rightarrow> refresh_result \<Rightarrow> expert_pool \<Rightarrow> bool" where
  "swaps_ok p r q \<longleftrightarrow>
     rr_promotions r = card (xp_resident q - xp_resident p) \<and>
     rr_demotions r = card (xp_resident p - xp_resident q) \<and>
     rr_demotions r \<le> rr_promotions r \<and>
     xp_resident q - xp_resident p \<subseteq> set (rr_target r) \<and>
     (xp_resident p - xp_resident q) \<inter> set (rr_target r) = {} \<and>
     (\<forall>e \<in> xp_resident q. xp_since q e =
        (if e \<in> xp_resident p then xp_since p e else Some (xp_clock q))) \<and>
     xp_clock q = xp_clock p + 1 \<and> xp_num_experts q = xp_num_experts p \<and>
     xp_gpu_budget q = xp_gpu_budget p \<and> xp_hysteresis q = xp_hysteresis p"

lemma new_residency_ok: "residency_ok (expert_pool_new config)"
proof -
  have "xp_since (expert_pool_new config) = (\<lambda>_. Some 0) |` xp_resident (expert_pool_new config)"
    by (simp add: expert_pool_new_def Let_def map_of_map_restrict comp_def)
  then show ?thesis
    by (auto simp: residency_ok_def restrict_map_def dom_def)
      (auto simp: expert_pool_new_def Let_def)
qed

lemma target_in_range:
  "length counts \<le> n \<Longrightarrow> set (target_gpu_from_counts counts budget) \<subseteq> {..<n}"
  using target_member by force

lemma foldl_upd: "foldl (\<lambda>m e. m(e \<mapsto> t)) m es e = (if e \<in> set es then Some t else m e)"
  by (induction es arbitrary: m) auto

lemma filter_notin_swap:
  assumes "distinct xs" "finite S"
  shows "card (S - set xs) + length xs = card S + length (filter (\<lambda>e. e \<notin> S) xs)"
proof -
  have "length (filter (\<lambda>e. e \<notin> S) xs) = card (set xs - S)"
    using assms(1) by (simp add: distinct_card [symmetric] set_diff_eq)
  moreover have "card (S - set xs) + card (S \<inter> set xs) = card S"
    using assms(2) by (metis card_Int_Diff add.commute)
  moreover have "card (set xs - S) + card (S \<inter> set xs) = length xs"
    using assms(1) by (metis card_Int_Diff List.finite_set distinct_card Int_commute add.commute)
  ultimately show ?thesis by linarith
qed

lemma apply_target_ok:
  assumes ok: "residency_ok p" and it: "iterates iter" and d: "distinct target"
    and len: "length target \<le> xp_gpu_budget p" and range: "set target \<subseteq> {..<xp_num_experts p}"
    and res: "apply_target_placement iter p target = (r, q)"
  shows "residency_ok q" and "swaps_ok p r q" and "set target \<subseteq> xp_resident q"
    and "rr_target r = target"
proof -
  let ?R = "xp_resident p"
  define pro where "pro = filter (\<lambda>e. e \<notin> ?R) target"
  define can where "can = filter (\<lambda>e. e \<notin> set target) (iter ?R)"
  define out where "out = take (length pro) can"
  define keep where "keep = drop (length pro) can"
  have fin: "finite ?R" and card: "card ?R \<le> xp_gpu_budget p" using ok by (auto simp: residency_ok_def)
  have it': "set (iter ?R) = ?R" "distinct (iter ?R)" using it fin by (auto simp: iterates_def)
  have can: "set can = ?R - set target" "distinct can" using it' by (auto simp: can_def)
  have pro: "set pro = set target - ?R" "distinct pro" using d by (auto simp: pro_def)
  have split: "set can = set out \<union> set keep" "set out \<inter> set keep = {}" "distinct out" "distinct keep"
    using can(2) by (auto simp: out_def keep_def set_append [symmetric] set_take_disj_set_drop_if_distinct
        simp del: set_append)
  have q: "xp_resident q = set target \<union> set keep" "rr_promotions r = length pro"
    "rr_demotions r = length out" "rr_target r = target" "xp_clock q = xp_clock p + 1"
    "xp_num_experts q = xp_num_experts p" "xp_gpu_budget q = xp_gpu_budget p"
    "xp_hysteresis q = xp_hysteresis p"
    "xp_since q = foldl (\<lambda>m e. m(e \<mapsto> xp_clock p + 1)) (xp_since p) pro |` (set target \<union> set keep)"
    using res by (auto simp: apply_target_placement_def Let_def pro_def can_def out_def keep_def)
  have new: "xp_resident q - ?R = set pro" and old: "?R - xp_resident q = set out"
    using q can pro split by auto
  show "set target \<subseteq> xp_resident q" and "rr_target r = target" using q by auto
  have "length can = length out + length keep" by (simp add: out_def keep_def)
  moreover have "length can + length target = card ?R + length pro"
    using filter_notin_swap [OF d fin] can by (simp add: pro_def distinct_card [symmetric])
  moreover have "length out = min (length pro) (length can)" by (simp add: out_def)
  ultimately have "length target + length keep \<le> xp_gpu_budget p" using card len by linarith
  moreover have "card (xp_resident q) \<le> length target + length keep"
    unfolding q by (metis card_Un_le card_length add_mono order_trans)
  ultimately have "card (xp_resident q) \<le> xp_gpu_budget q" using q by linarith
  moreover have since: "xp_since q e = (if e \<in> set target \<union> set keep
      then (if e \<in> set pro then Some (xp_clock p + 1) else xp_since p e) else None)" for e
    by (simp add: q foldl_upd restrict_map_def)
  moreover have keepR: "set keep \<subseteq> ?R" using split can by auto
  moreover have "e \<in> ?R \<Longrightarrow> xp_since p e \<noteq> None" for e using ok by (auto simp: residency_ok_def)
  moreover have "set keep \<subseteq> {..<xp_num_experts p}" using keepR ok by (auto simp: residency_ok_def)
  moreover have "xp_since q e \<noteq> None \<longleftrightarrow> e \<in> xp_resident q" for e
  proof (cases "e \<in> set target \<union> set keep")
    case True
    then have "e \<in> set pro \<or> e \<in> ?R" using pro keepR by auto
    then show ?thesis using since [of e] True \<open>e \<in> ?R \<Longrightarrow> xp_since p e \<noteq> None\<close> q by auto
  qed (simp add: since q)
  then have "dom (xp_since q) = xp_resident q" by (auto simp: dom_def)
  moreover have "t \<le> xp_clock q" if "xp_since q e = Some t" for e t
  proof -
    have "xp_since p e = Some t \<or> t = xp_clock p + 1" using that by (auto simp: since split: if_splits)
    then show ?thesis using ok q by (auto simp: residency_ok_def intro: le_SucI)
  qed
  ultimately show "residency_ok q" using q ok range by (simp add: residency_ok_def)
  have "rr_promotions r = card (set pro)" "rr_demotions r = card (set out)"
    using distinct_card [OF pro(2)] distinct_card [OF split(3)] q by simp_all
  moreover have "rr_demotions r \<le> rr_promotions r" using q by (simp add: out_def)
  moreover have "set pro \<subseteq> set (rr_target r)" "set out \<inter> set (rr_target r) = {}"
    using pro can split q by auto
  moreover have "xp_since q e = (if e \<in> ?R then xp_since p e else Some (xp_clock q))"
    if "e \<in> xp_resident q" for e
    using that since [of e] q(1,5) pro keepR by auto
  ultimately show "swaps_ok p r q"
    unfolding swaps_ok_def new old using q(5-8) by blast
qed

lemma sorted_evictable:
  assumes "iterates iter" "finite R"
  shows "set (sort_key k (filter (\<lambda>e. e \<notin> T) (iter R))) = R - T"
    and "distinct (sort_key k (filter (\<lambda>e. e \<notin> T) (iter R)))"
  using assms by (auto simp: iterates_def)

text \<open>The swaps of the loop on a pool: promoted and evicted experts, in the closed form.\<close>

definition hysteresis_duels ::
    "(rat \<Rightarrow> nat \<Rightarrow> nat \<Rightarrow> bool) \<Rightarrow> (nat set \<Rightarrow> nat list) \<Rightarrow> expert_pool \<Rightarrow> nat list \<Rightarrow>
       nat list \<times> (nat \<times> nat) list" where
  "hysteresis_duels beats iter p counts =
     (let desired = target_gpu_from_counts counts (xp_gpu_budget p);
          challengers = filter (\<lambda>e. e \<notin> xp_resident p) desired;
          free = xp_gpu_budget p - card (xp_resident p);
          incumbents = filter (hold_over (xp_since p) (xp_clock p + 1) (hy_min_dwell (xp_hysteresis p)))
            (sort_key (\<lambda>e. (hits_of counts e, resident_since p e, e))
               (filter (\<lambda>e. e \<notin> set desired) (iter (xp_resident p))))
      in (take free challengers,
          duels (beats (max (hy_margin (xp_hysteresis p)) 0)) (hits_of counts)
            (drop free challengers) incumbents))"

lemma apply_hysteresis_closed:
  assumes ok: "residency_ok p" and it: "iterates iter"
    and res: "apply_hysteresis_placement beats iter p counts = (r, q)"
    and D: "hysteresis_duels beats iter p counts = (fill, D)"
  shows "xp_resident q = xp_resident p - set (map snd D) \<union> (set fill \<union> set (map fst D))"
    and "xp_since q = swapped (xp_clock p + 1) (xp_since p) (set fill \<union> set (map fst D)) (set (map snd D))"
    and "rr_promotions r = length fill + length D" and "rr_demotions r = length D"
    and "rr_target r = target_gpu_from_counts counts (xp_gpu_budget p)"
    and "xp_clock q = xp_clock p + 1" "xp_num_experts q = xp_num_experts p"
      "xp_gpu_budget q = xp_gpu_budget p" "xp_hysteresis q = xp_hysteresis p"
proof -
  have fin: "finite (xp_resident p)" using ok by (simp add: residency_ok_def)
  note ev = sorted_evictable [OF it fin]
  let ?T = "target_gpu_from_counts counts (xp_gpu_budget p)"
  let ?ev = "sort_key (\<lambda>e. (hits_of counts e, resident_since p e, e))
    (filter (\<lambda>e. e \<notin> set ?T) (iter (xp_resident p)))"
  have "challenge (beats (max (hy_margin (xp_hysteresis p)) 0)) (hits_of counts) (xp_gpu_budget p)
      (xp_clock p + 1) (hy_min_dwell (xp_hysteresis p)) (filter (\<lambda>e. e \<notin> xp_resident p) ?T) ?ev
      (xp_resident p, xp_since p, 0, 0) =
    placed (beats (max (hy_margin (xp_hysteresis p)) 0)) (hits_of counts) (xp_gpu_budget p)
      (xp_clock p + 1) (hy_min_dwell (xp_hysteresis p)) (filter (\<lambda>e. e \<notin> xp_resident p) ?T) ?ev
      (xp_resident p, xp_since p, 0, 0)"
    by (rule challenge_placed_aux [OF fin _ ev(2)]) (use ev(1) target_distinct in auto)
  also have "\<dots> = (xp_resident p - set (map snd D) \<union> (set fill \<union> set (map fst D)),
      swapped (xp_clock p + 1) (xp_since p) (set fill \<union> set (map fst D)) (set (map snd D)),
      length fill + length D, length D)"
    using D by (auto simp: placed_def hysteresis_duels_def Let_def)
  finally have
    "apply_hysteresis_placement beats iter p counts =
       (\<lparr>rr_target = ?T, rr_promotions = length fill + length D, rr_demotions = length D\<rparr>,
        p\<lparr>xp_clock := xp_clock p + 1,
          xp_since := swapped (xp_clock p + 1) (xp_since p) (set fill \<union> set (map fst D)) (set (map snd D)),
          xp_resident := xp_resident p - set (map snd D) \<union> (set fill \<union> set (map fst D)),
          xp_stats := record_refresh (length fill + length D) (length D) (xp_stats p)\<rparr>)"
    unfolding apply_hysteresis_placement_def Let_def by simp
  then have rq: "r = \<lparr>rr_target = ?T, rr_promotions = length fill + length D, rr_demotions = length D\<rparr>"
    "q = p\<lparr>xp_clock := xp_clock p + 1,
          xp_since := swapped (xp_clock p + 1) (xp_since p) (set fill \<union> set (map fst D)) (set (map snd D)),
          xp_resident := xp_resident p - set (map snd D) \<union> (set fill \<union> set (map fst D)),
          xp_stats := record_refresh (length fill + length D) (length D) (xp_stats p)\<rparr>"
    unfolding res by simp_all
  show "xp_resident q = xp_resident p - set (map snd D) \<union> (set fill \<union> set (map fst D))"
    and "xp_since q = swapped (xp_clock p + 1) (xp_since p) (set fill \<union> set (map fst D)) (set (map snd D))"
    and "rr_promotions r = length fill + length D" and "rr_demotions r = length D"
    and "rr_target r = ?T"
    and "xp_clock q = xp_clock p + 1" "xp_num_experts q = xp_num_experts p"
      "xp_gpu_budget q = xp_gpu_budget p" "xp_hysteresis q = xp_hysteresis p"
    by (simp_all add: rq)
qed

lemma hysteresis_duels_props:
  assumes ok: "residency_ok p" and it: "iterates iter"
    and D: "hysteresis_duels beats iter p counts = (fill, D)"
  defines "T \<equiv> target_gpu_from_counts counts (xp_gpu_budget p)"
  shows "set fill \<union> set (map fst D) \<subseteq> set T - xp_resident p"
    and "set (map snd D) \<subseteq> xp_resident p - set T"
    and "distinct (fill @ map fst D)" and "distinct (map snd D)"
    and "length fill \<le> xp_gpu_budget p - card (xp_resident p)"
    and "(c, i) \<in> set D \<Longrightarrow> hold_over (xp_since p) (xp_clock p + 1) (hy_min_dwell (xp_hysteresis p)) i \<and>
       beats (max (hy_margin (xp_hysteresis p)) 0) (hits_of counts c) (hits_of counts i)"
proof -
  have fin: "finite (xp_resident p)" using ok by (simp add: residency_ok_def)
  note ev = sorted_evictable [OF it fin]
  define cs where "cs = filter (\<lambda>e. e \<notin> xp_resident p) T"
  define free where "free = xp_gpu_budget p - card (xp_resident p)"
  define inc where "inc = filter (hold_over (xp_since p) (xp_clock p + 1) (hy_min_dwell (xp_hysteresis p)))
    (sort_key (\<lambda>e. (hits_of counts e, resident_since p e, e)) (filter (\<lambda>e. e \<notin> set T) (iter (xp_resident p))))"
  let ?d = "duels (beats (max (hy_margin (xp_hysteresis p)) 0)) (hits_of counts) (drop free cs) inc"
  have eq: "fill = take free cs" "D = ?d"
    using D by (auto simp: hysteresis_duels_def Let_def cs_def free_def inc_def T_def)
  have cs: "set cs = set T - xp_resident p" "distinct cs"
    using target_distinct by (auto simp: cs_def T_def)
  have inc: "set inc \<subseteq> xp_resident p - set T" "distinct inc"
    unfolding inc_def using ev [of _ "set T"] by auto
  show "set fill \<union> set (map fst D) \<subseteq> set T - xp_resident p"
    unfolding eq using duels_sub(1) set_take_subset set_drop_subset cs(1) by (metis Un_least order_trans)
  show "set (map snd D) \<subseteq> xp_resident p - set T"
    unfolding eq using duels_sub(2) inc(1) by (metis order_trans)
  have "fill @ map fst D = take (length fill + length D) cs"
    using duels_prefix(1) [of _ _ "drop free cs" inc] unfolding eq
    by (cases "free \<le> length cs") (auto simp: take_add duels_def)
  then show "distinct (fill @ map fst D)" using cs(2) by simp
  have "map snd D = take (length D) inc" unfolding eq by (rule duels_prefix)
  then show "distinct (map snd D)" using inc(2) by simp
  show "length fill \<le> xp_gpu_budget p - card (xp_resident p)" by (simp add: eq free_def)
  show "hold_over (xp_since p) (xp_clock p + 1) (hy_min_dwell (xp_hysteresis p)) i \<and>
       beats (max (hy_margin (xp_hysteresis p)) 0) (hits_of counts c) (hits_of counts i)"
    if ci: "(c, i) \<in> set D"
  proof -
    have "(c, i) \<in> set ?d" using ci eq by simp
    then show ?thesis unfolding duels_def inc_def
      by (auto dest!: set_takeWhileD dest: set_zip_rightD)
  qed
qed

lemma apply_hysteresis_ok:
  assumes ok: "residency_ok p" and it: "iterates iter" and len: "length counts \<le> xp_num_experts p"
    and res: "apply_hysteresis_placement beats iter p counts = (r, q)"
  shows "residency_ok q" and "swaps_ok p r q"
proof -
  obtain fill D where D: "hysteresis_duels beats iter p counts = (fill, D)" by fastforce
  note q = apply_hysteresis_closed [OF ok it res D] and d = hysteresis_duels_props [OF ok it D]
  let ?R = "xp_resident p" and ?out = "set (map snd D)" and ?new = "set fill \<union> set (map fst D)"
  have fin: "finite ?R" and card: "card ?R \<le> xp_gpu_budget p" and dom: "dom (xp_since p) = ?R"
    and clock: "\<And>e t. xp_since p e = Some t \<Longrightarrow> t \<le> xp_clock p" using ok by (auto simp: residency_ok_def)
  have new: "xp_resident q - ?R = ?new" using q(1) d(1,2) by blast
  have old: "?R - xp_resident q = ?out" using q(1) d(1,2) by blast
  have sizes: "card ?out = length D" "card ?new = length fill + length D"
    using distinct_card [OF d(4)] distinct_card [OF d(3)] by simp_all
  have "card (xp_resident q) \<le> card (?R - ?out) + card ?new" unfolding q(1) by (rule card_Un_le)
  also have "\<dots> = card ?R - length D + (length fill + length D)"
    using d(2) sizes card_Diff_subset [of ?out ?R] by fastforce
  also have "\<dots> \<le> xp_gpu_budget p"
    using d(2,5) card sizes card_mono [OF fin, of ?out] by fastforce
  finally have "card (xp_resident q) \<le> xp_gpu_budget q" using q by simp
  moreover have since: "xp_since q e =
      (if e \<in> ?new then Some (xp_clock q) else if e \<in> ?out then None else xp_since p e)" for e
    unfolding q(2,6) swapped_def ..
  moreover have "dom (xp_since q) = xp_resident q"
    unfolding dom_def since q(1) using dom by (auto simp: dom_def)
  moreover have "t \<le> xp_clock q" if "xp_since q e = Some t" for e t
    using that clock [of e t] q(6) by (auto simp: since split: if_splits)
  moreover have "?new \<subseteq> {..<xp_num_experts p}"
    using d(1) target_in_range [OF len] by blast
  ultimately show "residency_ok q" using ok q(1,7,8) fin by (auto simp: residency_ok_def)
  have "xp_since q e = (if e \<in> ?R then xp_since p e else Some (xp_clock q))" if e: "e \<in> xp_resident q" for e
  proof -
    have "e \<in> ?new \<longleftrightarrow> e \<notin> ?R" "e \<notin> ?out \<or> e \<in> ?new" using e q(1) d(1) by blast+
    then show ?thesis unfolding since by auto
  qed
  then show "swaps_ok p r q"
    unfolding swaps_ok_def new old sizes q(3,4,5) using d(1,2) q(6-9) by auto
qed

lemma refresh_ok:
  assumes "residency_ok p" and "iterates iter" and "length counts \<le> xp_num_experts p"
    and "refresh_from_counts beats iter p counts = (r, q)"
  shows "residency_ok q" and "swaps_ok p r q"
proof -
  have "residency_ok q \<and> swaps_ok p r q"
  proof (cases "hysteresis_active (xp_hysteresis p)")
    case True
    then show ?thesis using apply_hysteresis_ok assms by (auto simp: refresh_from_counts_def)
  next
    case False
    then have "apply_target_placement iter p (target_gpu_from_counts counts (xp_gpu_budget p)) = (r, q)"
      using assms(4) by (simp add: refresh_from_counts_def)
    from apply_target_ok(1,2) [OF assms(1,2) target_distinct target_length target_in_range [OF assms(3)] this]
    show ?thesis by blast
  qed
  then show "residency_ok q" and "swaps_ok p r q" by blast+
qed

text \<open>Everything a pool goes through: created, stepped, refreshed, its statistics reset.\<close>

inductive pool_history :: "(rat \<Rightarrow> nat \<Rightarrow> nat \<Rightarrow> bool) \<Rightarrow> (nat set \<Rightarrow> nat list) \<Rightarrow> expert_pool \<Rightarrow> bool"
  for beats iter where
  Created: "pool_history beats iter (expert_pool_new config)"
| Stepped: "\<lbrakk>pool_history beats iter p; on_forward_step p mode denoise_step prefill = (go, q)\<rbrakk> \<Longrightarrow>
    pool_history beats iter q"
| Refreshed: "\<lbrakk>pool_history beats iter p; length counts \<le> xp_num_experts p;
      refresh_from_counts beats iter p counts = (r, q)\<rbrakk> \<Longrightarrow> pool_history beats iter q"
| Routed: "\<lbrakk>pool_history beats iter p; refresh_from_indices beats iter p idx = (r, q)\<rbrakk> \<Longrightarrow>
    pool_history beats iter q"
| Reset: "pool_history beats iter p \<Longrightarrow> pool_history beats iter (reset_step_stats p)"

lemma pool_history_ok: "\<lbrakk>pool_history beats iter p; iterates iter\<rbrakk> \<Longrightarrow> residency_ok p"
proof (induction rule: pool_history.induct)
  case (Stepped p mode denoise_step prefill go q)
  then obtain k where "q = p\<lparr>xp_steps := k\<rparr>" by (auto simp: on_forward_step_def Let_def)
  then show ?case using Stepped by (simp add: residency_ok_def)
next
  case (Refreshed p counts r q)
  then show ?case using refresh_ok(1) by blast
next
  case (Routed p idx r q)
  then show ?case using refresh_ok(1) [of p iter "count_hits idx (xp_num_experts p)"]
    by (simp add: refresh_from_indices_def count_hits_length)
next
  case (Reset p)
  then show ?case by (simp add: reset_step_stats_def residency_ok_def)
qed (rule new_residency_ok)

text \<open>
  Through every history the pool keeps at most its budget of experts, all of them existing
  ones, and a time stamp for exactly the residents, none in the future.
\<close>

theorem expert_pool_invariant:
  assumes "pool_history beats iter p" and "iterates iter"
  shows "card (xp_resident p) \<le> xp_gpu_budget p \<and> xp_gpu_budget p \<le> xp_num_experts p \<and>
    xp_resident p \<subseteq> {..<xp_num_experts p} \<and> dom (xp_since p) = xp_resident p \<and>
    (\<forall>e t. xp_since p e = Some t \<longrightarrow> t \<le> xp_clock p)"
  using pool_history_ok [OF assms] by (simp add: residency_ok_def)

text \<open>
  A refresh reports exactly the experts it moved in and out, never evicts more than it
  promotes, promotes only and evicts none of the target, and keeps the time stamps of those
  that stay; with hysteresis an evicted expert had its minimum hold and lost to a promoted one,
  without it the whole target is resident afterwards.
\<close>

theorem expert_refresh_swaps:
  assumes "residency_ok p" and "iterates iter" and "length counts \<le> xp_num_experts p"
    and "refresh_from_counts beats iter p counts = (r, q)"
  shows "swaps_ok p r q \<and> rr_target r = target_gpu_from_counts counts (xp_gpu_budget p) \<and>
    (if hysteresis_active (xp_hysteresis p)
     then \<forall>e \<in> xp_resident p - xp_resident q.
       hy_min_dwell (xp_hysteresis p) \<le> xp_clock q - resident_since p e \<and>
       (\<exists>c \<in> xp_resident q - xp_resident p.
          beats (max (hy_margin (xp_hysteresis p)) 0) (hits_of counts c) (hits_of counts e))
     else set (rr_target r) \<subseteq> xp_resident q)"
proof (cases "hysteresis_active (xp_hysteresis p)")
  case True
  then have res: "apply_hysteresis_placement beats iter p counts = (r, q)"
    using assms(4) by (simp add: refresh_from_counts_def)
  obtain fill D where D: "hysteresis_duels beats iter p counts = (fill, D)" by fastforce
  note q = apply_hysteresis_closed [OF assms(1,2) res D]
    and d = hysteresis_duels_props [OF assms(1,2) D]
  have "hy_min_dwell (xp_hysteresis p) \<le> xp_clock q - resident_since p e \<and>
      (\<exists>c \<in> xp_resident q - xp_resident p.
        beats (max (hy_margin (xp_hysteresis p)) 0) (hits_of counts c) (hits_of counts e))"
    if e: "e \<in> xp_resident p - xp_resident q" for e
  proof -
    have "e \<in> set (map snd D)" using e unfolding q(1) by blast
    then obtain c where c: "(c, e) \<in> set D" by auto
    then have "c \<in> set (map fst D)" by force
    then have "c \<in> xp_resident q - xp_resident p" using d(1) unfolding q(1) by blast
    moreover have "hy_min_dwell (xp_hysteresis p) \<le> xp_clock q - resident_since p e"
      using d(6) [OF c] q(6) by (simp add: hold_over_def resident_since_def)
    ultimately show ?thesis using d(6) [OF c] by blast
  qed
  then show ?thesis using refresh_ok(2) [OF assms] q(5) by (simp only: True if_True) blast
next
  case False
  then have "apply_target_placement iter p (target_gpu_from_counts counts (xp_gpu_budget p)) = (r, q)"
    using assms(4) by (simp add: refresh_from_counts_def)
  from apply_target_ok(3,4) [OF assms(1,2) target_distinct target_length target_in_range [OF assms(3)] this]
  show ?thesis using refresh_ok(2) [OF assms] False by simp
qed

text \<open>
  The loop of challengers and incumbents is the pairing it stands for: free slots go to the
  most used newcomers, and each further one evicts the weakest incumbent whose hold is over
  and which it beats, until one does not.
\<close>

theorem hysteresis_placement_exact:
  assumes "residency_ok p" and "iterates iter"
    and "apply_hysteresis_placement beats iter p counts = (r, q)"
    and "hysteresis_duels beats iter p counts = (fill, D)"
  shows "xp_resident q = xp_resident p - set (map snd D) \<union> (set fill \<union> set (map fst D)) \<and>
    rr_promotions r = length fill + length D \<and> rr_demotions r = length D"
  using apply_hysteresis_closed(1,3,4) [OF assms] by blast

text \<open>
  The target of a refresh lists distinct experts, at most as many as fit, each of them used,
  and a used expert left out is used less than every one listed, or as much with a higher id;
  if one is left out, the target is full.
\<close>

theorem target_gpu_top:
  "distinct (target_gpu_from_counts counts budget) \<and>
   length (target_gpu_from_counts counts budget) \<le> budget \<and>
   (\<forall>e \<in> set (target_gpu_from_counts counts budget). hits_of counts e > 0 \<and>
      (\<forall>x. hits_of counts x > 0 \<longrightarrow> x \<notin> set (target_gpu_from_counts counts budget) \<longrightarrow>
         hits_of counts x < hits_of counts e \<or> hits_of counts x = hits_of counts e \<and> e < x)) \<and>
   (\<forall>x. hits_of counts x > 0 \<longrightarrow> x \<notin> set (target_gpu_from_counts counts budget) \<longrightarrow>
      length (target_gpu_from_counts counts budget) = budget)"
proof -
  have hits: "hits_of counts x > 0 \<longleftrightarrow> x < length counts \<and> counts ! x > 0" for x
    by (simp add: hits_of_def)
  have full: "length (target_gpu_from_counts counts budget) = budget"
    if "hits_of counts x > 0" "x \<notin> set (target_gpu_from_counts counts budget)" for x
    using target_full that hits by blast
  show ?thesis
    using target_distinct target_length full target_best target_member hits
    by (auto simp: hits_of_def)
qed

section \<open>Concrete pools\<close>

text \<open>Exact comparison of the counts, and a hash set that iterates in order.\<close>

definition exact_beats :: "rat \<Rightarrow> nat \<Rightarrow> nat \<Rightarrow> bool" where
  "exact_beats margin c i \<longleftrightarrow> of_nat c \<ge> of_nat i * (1 + margin)"

abbreviation in_id_order :: "nat set \<Rightarrow> nat list" where
  "in_id_order \<equiv> sorted_list_of_set"

lemma iterates_sorted: "iterates in_id_order"
  by (simp add: iterates_def)

definition demo_pool :: expert_pool where
  "demo_pool = expert_pool_new (with_hysteresis (pool_config_new 4 2 EveryForward)
     \<lparr>hy_margin = 0, hy_min_dwell = 1\<rparr>)"

lemma demo_pool_eq:
  "demo_pool = \<lparr>xp_num_experts = 4, xp_gpu_budget = 2, xp_refresh = EveryForward,
     xp_resident = {0, 1}, xp_steps = 0, xp_stats = pool_stats_default,
     xp_hysteresis = \<lparr>hy_margin = 0, hy_min_dwell = 1\<rparr>, xp_clock = 0, xp_since = [0 \<mapsto> 0, 1 \<mapsto> 0]\<rparr>"
  by (auto simp: demo_pool_def expert_pool_new_def with_hysteresis_def pool_config_new_def numeral_2_eq_2)

lemma demo_target: "target_gpu_from_counts [0, 1, 5, 2] 2 = [2, 3]"
  by (simp add: target_gpu_from_counts_def less_eq_prod_def)

lemma demo_order: "in_id_order {0, 1 :: nat} = [0, 1]"
  by (simp add: sorted_list_of_set_insert_remove)

lemma demo_duels:
  "hysteresis_duels exact_beats in_id_order demo_pool [0, 1, 5, 2] = ([], [(2, 0), (3, 1)])"
  using demo_order
  by (simp add: hysteresis_duels_def demo_pool_eq demo_target [simplified] Let_def resident_since_def
      since_of_def hits_of_def less_eq_prod_def hold_over_def duels_def exact_beats_def)

lemma demo_refresh:
  "refresh_from_counts exact_beats in_id_order demo_pool [0, 1, 5, 2] =
     apply_hysteresis_placement exact_beats in_id_order demo_pool [0, 1, 5, 2]"
  by (simp add: refresh_from_counts_def hysteresis_active_def demo_pool_eq)

lemma demo_pool_ok: "residency_ok demo_pool"
  unfolding demo_pool_def by (rule new_residency_ok)

lemma demo_pool_history: "pool_history exact_beats in_id_order demo_pool"
  unfolding demo_pool_def by (rule pool_history.Created)

theorem expert_pool_invariant_witness: "card (xp_resident demo_pool) \<le> 2"
  using expert_pool_invariant [OF demo_pool_history iterates_sorted] by (simp add: demo_pool_eq)

theorem hysteresis_placement_exact_witness:
  "xp_resident (snd (apply_hysteresis_placement exact_beats in_id_order demo_pool [0, 1, 5, 2])) = {2, 3}"
  using hysteresis_placement_exact [OF demo_pool_ok iterates_sorted _ demo_duels,
      of "fst (apply_hysteresis_placement exact_beats in_id_order demo_pool [0, 1, 5, 2])"
         "snd (apply_hysteresis_placement exact_beats in_id_order demo_pool [0, 1, 5, 2])"]
  by (auto simp: demo_pool_eq)

theorem expert_refresh_swaps_witness:
  "\<exists>r q. refresh_from_counts exact_beats in_id_order demo_pool [0, 1, 5, 2] = (r, q) \<and>
     swaps_ok demo_pool r q \<and> rr_target r = [2, 3]"
proof -
  obtain r q where rq: "refresh_from_counts exact_beats in_id_order demo_pool [0, 1, 5, 2] = (r, q)"
    by fastforce
  moreover have "swaps_ok demo_pool r q \<and> rr_target r = target_gpu_from_counts [0, 1, 5, 2] 2"
    using expert_refresh_swaps [OF demo_pool_ok iterates_sorted _ rq] by (simp add: demo_pool_eq)
  ultimately show ?thesis unfolding demo_target by blast
qed

text \<open>
  With a margin of zero a challenger as used as the incumbent already wins: the pool with
  expert 1 resident gives its place to expert 0 although both were used three times.
\<close>

lemma equal_hits_displace:
  "hysteresis_duels exact_beats in_id_order
     (demo_pool\<lparr>xp_gpu_budget := 1, xp_resident := {1}, xp_since := [1 \<mapsto> 0]\<rparr>) [3, 3, 0, 0] = ([], [(0, 1)])"
  by (simp add: hysteresis_duels_def demo_pool_eq target_gpu_from_counts_def resident_since_def
      since_of_def hits_of_def less_eq_prod_def hold_over_def duels_def exact_beats_def)

end
