(* ===== verification/HotExpertCache.thy ===== *)
theory HotExpertCache
  imports ExpertPool
begin

text \<open>
  The device slots of one mixture-of-experts layer
  (\<open>crates/core/rlx-runtime/src/hot_expert_cache.rs\<close>): two tables, from slots to experts and
  back, which \<open>reconcile\<close> brings in line with a residency mask, naming the copies the device
  needs. The tables stay inverse to each other, exactly the masked experts get slots, and a
  device that performs the named copies always holds the weights the routing points to. With
  the pool of \<open>ExpertPool\<close> the two never disagree.
\<close>

section \<open>The cache\<close>

record slot_load =
  sl_slot :: nat
  sl_expert :: nat
  sl_evicted :: "nat option"

record slot_route =
  rt_slot_idx :: "32 word list"
  rt_cold :: "(nat \<times> nat) list"

record hot_cache =
  hc_num_experts :: nat
  hc_num_slots :: nat
  hc_slots :: "nat option list"
  hc_where :: "nat option list"

definition hot_cache_new :: "nat \<Rightarrow> nat \<Rightarrow> hot_cache" where
  "hot_cache_new num_experts num_slots =
     (let n = min num_slots num_experts;
          tables = foldl (\<lambda>(slots, places) s. (slots[s := Some s], places[s := Some s]))
                     (replicate n None, replicate num_experts None) [0..<n]
      in \<lparr>hc_num_experts = num_experts, hc_num_slots = n, hc_slots = fst tables, hc_where = snd tables\<rparr>)"

definition hot_slot_of :: "hot_cache \<Rightarrow> nat \<Rightarrow> nat option" where
  "hot_slot_of c e = (if e < length (hc_where c) then hc_where c ! e else None)"

definition is_resident :: "hot_cache \<Rightarrow> nat \<Rightarrow> bool" where
  "is_resident c e \<longleftrightarrow> hot_slot_of c e \<noteq> None"

definition mask_hot :: "bool list \<Rightarrow> nat \<Rightarrow> bool" where
  "mask_hot hots e \<longleftrightarrow> e < length hots \<and> hots ! e"

text \<open>The first pass at a slot: both tables and the free slots with their former expert.\<close>

type_synonym tables = "nat option list \<times> nat option list"

definition free_slot :: "(nat \<Rightarrow> bool) \<Rightarrow> tables \<times> (nat \<times> nat option) list \<Rightarrow> nat \<Rightarrow>
    tables \<times> (nat \<times> nat option) list" where
  "free_slot hot st s =
     (case st of ((slots, places), free) \<Rightarrow>
        case slots ! s of
          Some e \<Rightarrow> if hot e then st else ((slots[s := None], places[e := None]), free @ [(s, Some e)])
        | None \<Rightarrow> ((slots, places), free @ [(s, None)]))"

text \<open>The second pass at a newly hot expert and its free slot.\<close>

definition fill_slot :: "tables \<times> slot_load list \<Rightarrow> nat \<times> nat \<times> nat option \<Rightarrow> tables \<times> slot_load list" where
  "fill_slot st x =
     (case st of ((slots, places), loads) \<Rightarrow> case x of (e, s, evicted) \<Rightarrow>
        ((slots[s := Some e], places[e := Some s]),
         loads @ [\<lparr>sl_slot = s, sl_expert = e, sl_evicted = evicted\<rparr>]))"

definition reconcile :: "hot_cache \<Rightarrow> bool list \<Rightarrow> slot_load list \<times> hot_cache" where
  "reconcile c hots =
     (let hot = mask_hot hots;
          ((slots, places), free) =
            foldl (free_slot hot) ((hc_slots c, hc_where c), []) [0..<hc_num_slots c];
          newly = filter (\<lambda>e. hot e \<and> places ! e = None) [0..<hc_num_experts c];
          ((slots, places), loads) = foldl fill_slot ((slots, places), []) (zip newly free)
      in (loads, c\<lparr>hc_slots := slots, hc_where := places\<rparr>))"

definition route_token :: "hot_cache \<Rightarrow> 32 word \<Rightarrow> slot_route \<Rightarrow> nat \<times> 32 word \<Rightarrow> slot_route" where
  "route_token c sentinel r te =
     (case te of (t, e) \<Rightarrow>
        case hot_slot_of c (unat e) of
          Some s \<Rightarrow> r\<lparr>rt_slot_idx := rt_slot_idx r @ [of_nat s]\<rparr>
        | None \<Rightarrow> r\<lparr>rt_slot_idx := rt_slot_idx r @ [sentinel], rt_cold := rt_cold r @ [(t, unat e)]\<rparr>)"

definition route :: "hot_cache \<Rightarrow> 32 word list \<Rightarrow> 32 word \<Rightarrow> slot_route" where
  "route c idx sentinel =
     foldl (route_token c sentinel) \<lparr>rt_slot_idx = [], rt_cold = []\<rparr> (enumerate 0 idx)"

definition reconcile_layers ::
    "hot_cache list \<Rightarrow> bool list list \<Rightarrow> slot_load list list \<times> hot_cache list" where
  "reconcile_layers caches masks =
     (let rs = map (\<lambda>(c, hots). reconcile c hots) (zip caches masks)
      in (map fst rs, map snd rs @ drop (length masks) caches))"

section \<open>The tables stay inverse\<close>

definition inverse_tables :: "nat option list \<Rightarrow> nat option list \<Rightarrow> bool" where
  "inverse_tables slots places \<longleftrightarrow>
     (\<forall>s < length slots. \<forall>e. slots ! s = Some e \<longrightarrow> e < length places \<and> places ! e = Some s) \<and>
     (\<forall>e < length places. \<forall>s. places ! e = Some s \<longrightarrow> s < length slots \<and> slots ! s = Some e)"

definition cache_ok :: "hot_cache \<Rightarrow> bool" where
  "cache_ok c \<longleftrightarrow> length (hc_slots c) = hc_num_slots c \<and> length (hc_where c) = hc_num_experts c \<and>
     hc_num_slots c \<le> hc_num_experts c \<and> inverse_tables (hc_slots c) (hc_where c)"

lemma inverse_slots:
  "\<lbrakk>inverse_tables slots places; s < length slots; slots ! s = Some e\<rbrakk> \<Longrightarrow>
     e < length places \<and> places ! e = Some s"
  unfolding inverse_tables_def by blast

lemma inverse_places:
  "\<lbrakk>inverse_tables slots places; e < length places; places ! e = Some s\<rbrakk> \<Longrightarrow>
     s < length slots \<and> slots ! s = Some e"
  unfolding inverse_tables_def by blast

lemma foldl_pair: "foldl (\<lambda>(a, b) x. (g a x, h b x)) (a, b) xs = (foldl g a xs, foldl h b xs)"
  by (induction xs arbitrary: a b) auto

text \<open>Writing a table at the positions of a list.\<close>

lemma foldl_update_length [simp]: "length (foldl (\<lambda>T x. T[p x := f x]) T xs) = length T"
  by (induction xs arbitrary: T) auto

lemma foldl_update_nth:
  "\<lbrakk>i < length T; \<forall>x \<in> set xs. p x = i \<longrightarrow> f x = v\<rbrakk> \<Longrightarrow>
     foldl (\<lambda>T x. T[p x := f x]) T xs ! i = (if i \<in> p ` set xs then v else T ! i)"
  by (induction xs arbitrary: T) (auto simp: nth_list_update)

lemma foldl_update_same:
  "i < length T \<Longrightarrow> foldl (\<lambda>T x. T[x := f x]) T xs ! i = (if i \<in> set xs then f i else T ! i)"
  using foldl_update_nth [of i T xs "\<lambda>x. x" f "f i"] by auto

lemma new_tables:
  fixes slots places :: "nat option list" and xs :: "nat list"
  defines "tables \<equiv> foldl (\<lambda>(slots, places) s. (slots[s := Some s], places[s := Some s])) (slots, places) xs"
  shows "length (fst tables) = length slots" "length (snd tables) = length places"
    and "i < length slots \<Longrightarrow> fst tables ! i = (if i \<in> set xs then Some i else slots ! i)"
    and "i < length places \<Longrightarrow> snd tables ! i = (if i \<in> set xs then Some i else places ! i)"
  unfolding tables_def foldl_pair
  using foldl_update_length [of "\<lambda>x. x" Some] by (simp_all add: foldl_update_same)

lemma hot_cache_new_ok: "cache_ok (hot_cache_new num_experts num_slots)"
  by (auto simp: cache_ok_def hot_cache_new_def Let_def new_tables inverse_tables_def split: if_splits)

lemma hot_cache_new_resident:
  "is_resident (hot_cache_new num_experts num_slots) e \<longleftrightarrow> e < min num_slots num_experts"
  by (auto simp: is_resident_def hot_slot_of_def hot_cache_new_def Let_def new_tables)

section \<open>What the two passes do\<close>

fun goes_cold :: "(nat \<Rightarrow> bool) \<Rightarrow> nat option \<Rightarrow> bool" where
  "goes_cold hot (Some e) \<longleftrightarrow> \<not> hot e"
| "goes_cold hot None \<longleftrightarrow> True"

lemma free_slot_simps:
  "S ! s = None \<Longrightarrow> free_slot hot ((S, W), free) s = ((S, W), free @ [(s, None)])"
  "\<lbrakk>S ! s = Some e; hot e\<rbrakk> \<Longrightarrow> free_slot hot ((S, W), free) s = ((S, W), free)"
  "\<lbrakk>S ! s = Some e; \<not> hot e\<rbrakk> \<Longrightarrow>
     free_slot hot ((S, W), free) s = ((S[s := None], W[e := None]), free @ [(s, Some e)])"
  by (simp_all add: free_slot_def)

lemma free_pass:
  fixes ss :: "nat list" and S S0 :: "nat option list" and hot :: "nat \<Rightarrow> bool"
  assumes "distinct ss" "\<forall>s \<in> set ss. S ! s = S0 ! s"
  defines "cold \<equiv> filter (\<lambda>s. goes_cold hot (S0 ! s)) ss"
  shows "foldl (free_slot hot) ((S, W), free) ss =
    ((foldl (\<lambda>T s. T[s := None]) S cold, foldl (\<lambda>T e. T[e := None]) W (List.map_filter (\<lambda>s. S0 ! s) cold)),
     free @ map (\<lambda>s. (s, S0 ! s)) cold)"
  using assms(1,2) unfolding cold_def
proof (induction ss arbitrary: S W free)
  case (Cons s ss)
  show ?case
  proof (cases "S0 ! s")
    case None
    then have "S[s := None] = S" using Cons.prems by (metis list.set_intros(1) list_update_id)
    then show ?thesis using Cons None by (simp add: free_slot_simps List.map_filter_simps)
  next
    case (Some e)
    then have "S ! s = Some e" using Cons.prems by simp
    moreover have "\<forall>t \<in> set ss. S[s := None] ! t = S0 ! t"
    proof
      fix t assume t: "t \<in> set ss"
      then have "t \<noteq> s" using Cons.prems by auto
      then show "S[s := None] ! t = S0 ! t" using Cons.prems t by simp
    qed
    moreover have "distinct ss" "\<forall>t \<in> set ss. S ! t = S0 ! t" using Cons.prems by auto
    ultimately show ?thesis using Cons.IH Some
      by (cases "hot e") (simp_all add: free_slot_simps List.map_filter_simps)
  qed
qed (simp add: List.map_filter_simps)

lemma fill_pass:
  "foldl fill_slot ((S, W), loads) xs =
     ((foldl (\<lambda>T x. T[fst (snd x) := Some (fst x)]) S xs, foldl (\<lambda>T x. T[fst x := Some (fst (snd x))]) W xs),
      loads @ map (\<lambda>(e, s, ev). \<lparr>sl_slot = s, sl_expert = e, sl_evicted = ev\<rparr>) xs)"
  by (induction xs arbitrary: S W loads) (auto simp: fill_slot_def)

section \<open>Reconciliation\<close>

text \<open>
  The tables after a reconciliation, in closed form: the experts that stay keep their slot, and
  the newly hot ones, in ascending order, get the freed slots, in ascending order.
\<close>

definition stays :: "hot_cache \<Rightarrow> bool list \<Rightarrow> nat set" where
  "stays c hots = {e. mask_hot hots e \<and> is_resident c e}"

definition cold_slots :: "hot_cache \<Rightarrow> bool list \<Rightarrow> nat list" where
  "cold_slots c hots = filter (\<lambda>s. goes_cold (mask_hot hots) (hc_slots c ! s)) [0..<hc_num_slots c]"

definition newly_hot :: "hot_cache \<Rightarrow> bool list \<Rightarrow> nat list" where
  "newly_hot c hots = filter (\<lambda>e. mask_hot hots e \<and> \<not> is_resident c e) [0..<hc_num_experts c]"

definition planned_loads :: "hot_cache \<Rightarrow> bool list \<Rightarrow> slot_load list" where
  "planned_loads c hots = map (\<lambda>(e, s). \<lparr>sl_slot = s, sl_expert = e, sl_evicted = hc_slots c ! s\<rparr>)
     (zip (newly_hot c hots) (cold_slots c hots))"

lemma pair_props:
  fixes c :: hot_cache and hots :: "bool list"
  assumes ok: "cache_ok c"
  defines "P \<equiv> set (zip (newly_hot c hots) (cold_slots c hots))"
  shows "(e, s) \<in> P \<Longrightarrow> e < hc_num_experts c \<and> s < hc_num_slots c \<and> mask_hot hots e \<and>
      \<not> is_resident c e \<and> goes_cold (mask_hot hots) (hc_slots c ! s)"
    and "\<lbrakk>(e, s) \<in> P; (e, t) \<in> P\<rbrakk> \<Longrightarrow> s = t" and "\<lbrakk>(e, s) \<in> P; (d, s) \<in> P\<rbrakk> \<Longrightarrow> e = d"
proof -
  have d: "distinct (newly_hot c hots)" "distinct (cold_slots c hots)"
    by (simp_all add: newly_hot_def cold_slots_def)
  show "(e, s) \<in> P \<Longrightarrow> e < hc_num_experts c \<and> s < hc_num_slots c \<and> mask_hot hots e \<and>
      \<not> is_resident c e \<and> goes_cold (mask_hot hots) (hc_slots c ! s)"
    unfolding P_def using set_zip_leftD [of e s] set_zip_rightD [of e s]
    by (fastforce simp: newly_hot_def cold_slots_def)
  show "\<lbrakk>(e, s) \<in> P; (e, t) \<in> P\<rbrakk> \<Longrightarrow> s = t" "\<lbrakk>(e, s) \<in> P; (d, s) \<in> P\<rbrakk> \<Longrightarrow> e = d"
    unfolding P_def in_set_zip using d by (auto simp: nth_eq_iff_index_eq)
qed

lemma slots_where:
  assumes "cache_ok c" "s < hc_num_slots c" "hc_slots c ! s = Some e"
  shows "e < hc_num_experts c \<and> hc_where c ! e = Some s \<and> hot_slot_of c e = Some s"
  using assms inverse_slots [of "hc_slots c" "hc_where c" s e] by (simp add: cache_ok_def hot_slot_of_def)

lemma slot_of_slots:
  assumes "cache_ok c" "hot_slot_of c e = Some s"
  shows "e < hc_num_experts c \<and> s < hc_num_slots c \<and> hc_slots c ! s = Some e \<and> hc_where c ! e = Some s"
  using assms inverse_places [of "hc_slots c" "hc_where c" e s]
  by (auto simp: cache_ok_def hot_slot_of_def split: if_splits)

lemma first_pass_where:
  assumes ok: "cache_ok c" and e: "e < hc_num_experts c"
  shows "foldl (\<lambda>T e. T[e := None]) (hc_where c)
      (List.map_filter (\<lambda>s. hc_slots c ! s) (cold_slots c hots)) ! e =
    (if mask_hot hots e then hc_where c ! e else None)"
proof -
  have len: "e < length (hc_where c)" using ok e by (simp add: cache_ok_def)
  have "e \<in> set (List.map_filter (\<lambda>s. hc_slots c ! s) (cold_slots c hots)) \<longleftrightarrow>
      \<not> mask_hot hots e \<and> hc_where c ! e \<noteq> None"
  proof
    assume "e \<in> set (List.map_filter (\<lambda>s. hc_slots c ! s) (cold_slots c hots))"
    then obtain s where s: "s \<in> set (cold_slots c hots)" "hc_slots c ! s = Some e"
      by (auto simp: map_filter_def)
    then show "\<not> mask_hot hots e \<and> hc_where c ! e \<noteq> None"
      using slots_where [OF ok, of s e] by (auto simp: cold_slots_def)
  next
    assume r: "\<not> mask_hot hots e \<and> hc_where c ! e \<noteq> None"
    then obtain s where s: "hot_slot_of c e = Some s" using len by (auto simp: hot_slot_of_def)
    have "s \<in> set (cold_slots c hots)" "hc_slots c ! s = Some e"
      using slot_of_slots [OF ok s] r by (auto simp: cold_slots_def)
    then show "e \<in> set (List.map_filter (\<lambda>s. hc_slots c ! s) (cold_slots c hots))"
      by (force simp: map_filter_def)
  qed
  then show ?thesis using foldl_update_same [of e "hc_where c" "\<lambda>_. None"] len by auto
qed

lemma reconcile_tables:
  fixes c :: hot_cache and hots :: "bool list"
  assumes ok: "cache_ok c" and res: "reconcile c hots = (loads, d)"
  defines "P \<equiv> set (zip (newly_hot c hots) (cold_slots c hots))"
  shows "loads = planned_loads c hots"
    and "hc_num_experts d = hc_num_experts c" "hc_num_slots d = hc_num_slots c"
    and "length (hc_slots d) = hc_num_slots c" "length (hc_where d) = hc_num_experts c"
    and "(e, s) \<in> P \<Longrightarrow> hc_slots d ! s = Some e \<and> hc_where d ! e = Some s"
    and "\<lbrakk>s < hc_num_slots c; s \<notin> snd ` P\<rbrakk> \<Longrightarrow>
      hc_slots d ! s = (if goes_cold (mask_hot hots) (hc_slots c ! s) then None else hc_slots c ! s)"
    and "\<lbrakk>e < hc_num_experts c; e \<notin> fst ` P\<rbrakk> \<Longrightarrow>
      hc_where d ! e = (if mask_hot hots e then hc_where c ! e else None)"
proof -
  let ?cold = "cold_slots c hots" and ?S = "hc_slots c" and ?W = "hc_where c"
  let ?S1 = "foldl (\<lambda>T s. T[s := None]) ?S ?cold"
  let ?W1 = "foldl (\<lambda>T e. T[e := None]) ?W (List.map_filter (\<lambda>s. ?S ! s) ?cold)"
  define xs where "xs = zip (newly_hot c hots) (map (\<lambda>s. (s, ?S ! s)) ?cold)"
  have len: "length ?S1 = hc_num_slots c" "length ?W1 = hc_num_experts c"
    using ok foldl_update_length [of "\<lambda>x. x" "\<lambda>_. None"] by (simp_all add: cache_ok_def)
  have pass1: "foldl (free_slot (mask_hot hots)) ((?S, ?W), []) [0..<hc_num_slots c] =
      ((?S1, ?W1), map (\<lambda>s. (s, ?S ! s)) ?cold)"
    using free_pass [of "[0..<hc_num_slots c]" ?S ?S "mask_hot hots" ?W "[]"] by (simp add: cold_slots_def)
  have newly: "filter (\<lambda>e. mask_hot hots e \<and> ?W1 ! e = None) [0..<hc_num_experts c] = newly_hot c hots"
    unfolding newly_hot_def using ok
    by (intro filter_cong refl) (auto simp: first_pass_where is_resident_def hot_slot_of_def cache_ok_def)
  have xs: "(e, s, ev) \<in> set xs \<longleftrightarrow> (e, s) \<in> P \<and> ev = ?S ! s" for e s ev
    unfolding xs_def P_def zip_map2 by auto
  have "reconcile c hots =
      (map (\<lambda>(e, s, ev). \<lparr>sl_slot = s, sl_expert = e, sl_evicted = ev\<rparr>) xs,
       c\<lparr>hc_slots := foldl (\<lambda>T x. T[fst (snd x) := Some (fst x)]) ?S1 xs,
         hc_where := foldl (\<lambda>T x. T[fst x := Some (fst (snd x))]) ?W1 xs\<rparr>)"
    unfolding reconcile_def Let_def pass1 prod.case newly fill_pass xs_def by simp
  then have d: "hc_slots d = foldl (\<lambda>T x. T[fst (snd x) := Some (fst x)]) ?S1 xs"
    "hc_where d = foldl (\<lambda>T x. T[fst x := Some (fst (snd x))]) ?W1 xs"
    "hc_num_experts d = hc_num_experts c" "hc_num_slots d = hc_num_slots c"
    and loads: "loads = map (\<lambda>(e, s, ev). \<lparr>sl_slot = s, sl_expert = e, sl_evicted = ev\<rparr>) xs"
    using res by auto
  show "loads = planned_loads c hots"
    unfolding loads xs_def planned_loads_def zip_map2 by auto
  show "hc_num_experts d = hc_num_experts c" "hc_num_slots d = hc_num_slots c" by (fact d)+
  show "length (hc_slots d) = hc_num_slots c" "length (hc_where d) = hc_num_experts c"
    unfolding d foldl_update_length using ok by (simp_all add: cache_ok_def)
  note pp = pair_props [OF ok, where hots = hots, folded P_def]
  show "hc_slots d ! s = Some e \<and> hc_where d ! e = Some s" if es: "(e, s) \<in> P"
  proof
    have "(e, s, ?S ! s) \<in> set xs" using es xs by simp
    then have m: "s \<in> (fst \<circ> snd) ` set xs" "e \<in> fst ` set xs" by force+
    have "\<forall>x \<in> set xs. (fst \<circ> snd) x = s \<longrightarrow> (Some \<circ> fst) x = Some e"
      using pp(3) [OF _ es] xs by auto
    from foldl_update_nth [OF _ this, of ?S1] show "hc_slots d ! s = Some e"
      using pp(1) [OF es] m(1) len unfolding d by (simp add: comp_def)
    have "\<forall>x \<in> set xs. fst x = e \<longrightarrow> (Some \<circ> fst \<circ> snd) x = Some s"
      using pp(2) [OF _ es] xs by auto
    from foldl_update_nth [OF _ this, of ?W1] show "hc_where d ! e = Some s"
      using pp(1) [OF es] m(2) len unfolding d by (simp add: comp_def)
  qed
  show "hc_slots d ! s = (if goes_cold (mask_hot hots) (?S ! s) then None else ?S ! s)"
    if s: "s < hc_num_slots c" "s \<notin> snd ` P"
  proof -
    have "s \<notin> (fst \<circ> snd) ` set xs" using s xs by force
    then have "hc_slots d ! s = ?S1 ! s"
      unfolding d using foldl_update_nth [of s ?S1 xs "fst \<circ> snd" "Some \<circ> fst" None] s len by (auto simp: comp_def)
    also have "\<dots> = (if s \<in> set ?cold then None else ?S ! s)"
      using s ok by (intro foldl_update_same) (simp add: cache_ok_def)
    finally show ?thesis using s by (simp add: cold_slots_def)
  qed
  show "hc_where d ! e = (if mask_hot hots e then ?W ! e else None)"
    if e: "e < hc_num_experts c" "e \<notin> fst ` P"
  proof -
    have "e \<notin> fst ` set xs" using e xs by force
    then have "hc_where d ! e = ?W1 ! e"
      unfolding d using foldl_update_nth [of e ?W1 xs fst "Some \<circ> fst \<circ> snd" None] e len by (auto simp: comp_def)
    then show ?thesis using first_pass_where [OF ok e(1)] by simp
  qed
qed

lemma reconcile_ok:
  assumes ok: "cache_ok c" and res: "reconcile c hots = (loads, d)"
  shows "cache_ok d"
proof -
  let ?P = "set (zip (newly_hot c hots) (cold_slots c hots))"
  note t = reconcile_tables [OF ok res] and pp = pair_props [OF ok, where hots = hots]
  have "e < hc_num_experts c \<and> hc_where d ! e = Some s"
    if s: "s < hc_num_slots c" "hc_slots d ! s = Some e" for s e
  proof (cases "s \<in> snd ` ?P")
    case True
    then obtain e' where "(e', s) \<in> ?P" by auto
    then show ?thesis using t(6) [of e' s] s pp(1) [of e' s] by auto
  next
    case False
    then have "\<not> goes_cold (mask_hot hots) (hc_slots c ! s)" and h: "hc_slots c ! s = Some e"
      using t(7) [of s] s by (auto split: if_splits)
    then have hot: "mask_hot hots e" by simp
    have w: "e < hc_num_experts c" "hc_where c ! e = Some s" "hot_slot_of c e = Some s"
      using slots_where [OF ok s(1) h] by auto
    then have "e \<notin> fst ` ?P" using pp(1) by (fastforce simp: is_resident_def)
    then show ?thesis using t(8) [of e] w hot by simp
  qed
  moreover have "s < hc_num_slots c \<and> hc_slots d ! s = Some e"
    if e: "e < hc_num_experts c" "hc_where d ! e = Some s" for s e
  proof (cases "e \<in> fst ` ?P")
    case True
    then obtain s' where "(e, s') \<in> ?P" by auto
    then show ?thesis using t(6) [of e s'] e pp(1) [of e s'] by auto
  next
    case False
    then have h: "mask_hot hots e" "hc_where c ! e = Some s" using t(8) [of e] e by (auto split: if_splits)
    then have "hot_slot_of c e = Some s" using ok e by (simp add: hot_slot_of_def cache_ok_def)
    then have w: "s < hc_num_slots c" "hc_slots c ! s = Some e" using slot_of_slots [OF ok] by auto
    then have "s \<notin> snd ` ?P" using pp(1) h by fastforce
    then show ?thesis using t(7) [of s] w h by simp
  qed
  ultimately have "inverse_tables (hc_slots d) (hc_where d)"
    unfolding inverse_tables_def t(4,5) by blast
  then show ?thesis using ok t(2-5) by (simp add: cache_ok_def)
qed

text \<open>There is a freed slot for every newly hot expert, if all hot ones fit.\<close>

definition hot_set :: "hot_cache \<Rightarrow> bool list \<Rightarrow> nat set" where
  "hot_set c hots = {e. e < hc_num_experts c \<and> mask_hot hots e}"

lemma enough_slots:
  assumes ok: "cache_ok c" and room: "card (hot_set c hots) \<le> hc_num_slots c"
  shows "length (newly_hot c hots) \<le> length (cold_slots c hots)"
proof -
  let ?kept = "{e \<in> hot_set c hots. is_resident c e}" and ?warm = "{..<hc_num_slots c} - set (cold_slots c hots)"
  have fin: "finite (hot_set c hots)" by (simp add: hot_set_def)
  have "?warm \<subseteq> (\<lambda>e. the (hot_slot_of c e)) ` ?kept"
  proof
    fix s assume s: "s \<in> ?warm"
    then obtain e where e: "hc_slots c ! s = Some e" "mask_hot hots e"
      by (cases "hc_slots c ! s") (auto simp: cold_slots_def)
    then have w: "e < hc_num_experts c" "hot_slot_of c e = Some s" using slots_where [OF ok _ e(1)] s by auto
    then have "e \<in> ?kept" using e by (simp add: hot_set_def is_resident_def)
    then show "s \<in> (\<lambda>e. the (hot_slot_of c e)) ` ?kept" using w by (intro image_eqI [of _ _ e]) simp_all
  qed
  moreover have finK: "finite ?kept" using fin by simp
  ultimately have "card ?warm \<le> card ?kept" by (meson card_image_le card_mono finite_imageI le_trans)
  moreover have "length (newly_hot c hots) = card (hot_set c hots - ?kept)"
  proof -
    have "set (newly_hot c hots) = hot_set c hots - ?kept" by (auto simp: newly_hot_def hot_set_def)
    moreover have "distinct (newly_hot c hots)" by (simp add: newly_hot_def)
    ultimately show ?thesis by (metis distinct_card)
  qed
  moreover have "card (hot_set c hots - ?kept) + card ?kept = card (hot_set c hots)"
    using card_Diff_subset [OF finK, of "hot_set c hots"] card_mono [OF fin, of ?kept] by force
  moreover have "card ?warm + length (cold_slots c hots) = hc_num_slots c"
  proof -
    have "set (cold_slots c hots) \<subseteq> {..<hc_num_slots c}" "distinct (cold_slots c hots)"
      by (auto simp: cold_slots_def)
    then show ?thesis using card_Diff_subset [of "set (cold_slots c hots)" "{..<hc_num_slots c}"]
        card_mono [of "{..<hc_num_slots c}" "set (cold_slots c hots)"] by (simp add: distinct_card)
  qed
  ultimately show ?thesis using room by linarith
qed

lemma newly_hot_set: "set (newly_hot c hots) = {e \<in> hot_set c hots. \<not> is_resident c e}"
  by (auto simp: newly_hot_def hot_set_def)

lemma reconcile_slots:
  assumes ok: "cache_ok c" and res: "reconcile c hots = (loads, d)"
    and room: "card (hot_set c hots) \<le> hc_num_slots c"
  shows "is_resident d e \<longleftrightarrow> e \<in> hot_set c hots"
    and "\<lbrakk>mask_hot hots e; is_resident c e\<rbrakk> \<Longrightarrow> hot_slot_of d e = hot_slot_of c e"
    and "set (map sl_expert loads) = {e \<in> hot_set c hots. \<not> is_resident c e}"
    and "l \<in> set loads \<Longrightarrow> hot_slot_of d (sl_expert l) = Some (sl_slot l) \<and> sl_slot l < hc_num_slots c \<and>
      sl_evicted l = hc_slots c ! sl_slot l \<and> (\<forall>x. sl_evicted l = Some x \<longrightarrow> \<not> mask_hot hots x)"
    and "distinct (map sl_expert loads)" "distinct (map sl_slot loads)"
proof -
  let ?zs = "zip (newly_hot c hots) (cold_slots c hots)"
  note t = reconcile_tables [OF ok res] and pp = pair_props [OF ok, where hots = hots]
  have fst: "map fst ?zs = newly_hot c hots"
    using enough_slots [OF ok room] by (simp add: map_fst_zip_take)
  then have new: "fst ` set ?zs = {e \<in> hot_set c hots. \<not> is_resident c e}"
    by (metis (no_types, lifting) list.set_map newly_hot_set)
  have slot_d: "e < hc_num_experts c \<Longrightarrow> hot_slot_of d e = hc_where d ! e" for e using t(5) by (simp add: hot_slot_of_def)
  have keep: "hot_slot_of d e = (if mask_hot hots e then hot_slot_of c e else None)"
    if "e \<notin> fst ` set ?zs" for e
    using t(5) t(8) [of e] that ok by (auto simp: hot_slot_of_def cache_ok_def)
  show "is_resident d e \<longleftrightarrow> e \<in> hot_set c hots"
  proof (cases "e \<in> fst ` set ?zs")
    case True
    then obtain s where "(e, s) \<in> set ?zs" by auto
    then show ?thesis using t(6) [of e s] pp(1) [of e s] slot_d [of e] by (auto simp: is_resident_def hot_set_def)
  next
    case False
    then have "e \<in> hot_set c hots \<Longrightarrow> is_resident c e" using new by blast
    moreover have "is_resident c e \<Longrightarrow> e < hc_num_experts c"
      using slot_of_slots [OF ok] by (auto simp: is_resident_def)
    ultimately show ?thesis using keep [OF False] by (auto simp: is_resident_def hot_set_def)
  qed
  show "hot_slot_of d e = hot_slot_of c e" if "mask_hot hots e" "is_resident c e"
    using keep [of e] new that by auto
  show "set (map sl_expert loads) = {e \<in> hot_set c hots. \<not> is_resident c e}"
    unfolding t(1) planned_loads_def new [symmetric] by force
  show "hot_slot_of d (sl_expert l) = Some (sl_slot l) \<and> sl_slot l < hc_num_slots c \<and>
      sl_evicted l = hc_slots c ! sl_slot l \<and> (\<forall>x. sl_evicted l = Some x \<longrightarrow> \<not> mask_hot hots x)"
    if "l \<in> set loads"
  proof -
    obtain e s where es: "(e, s) \<in> set ?zs" "l = \<lparr>sl_slot = s, sl_expert = e, sl_evicted = hc_slots c ! s\<rparr>"
      using \<open>l \<in> set loads\<close> unfolding t(1) planned_loads_def by auto
    then show ?thesis using t(6) [OF es(1)] pp(1) [OF es(1)] slot_d [of e] by auto
  qed
  have m: "map sl_expert loads = map fst ?zs" "map sl_slot loads = map snd ?zs"
    unfolding t(1) planned_loads_def by auto
  show "distinct (map sl_expert loads)" unfolding m fst by (simp add: newly_hot_def)
  show "distinct (map sl_slot loads)" unfolding m by (simp add: map_snd_zip_take cold_slots_def)
qed

text \<open>
  C27. Reconciling with a mask that fits leaves exactly the masked experts with a slot, keeps
  the slot of every expert that stays, and names one copy for each newly hot expert, into a
  slot of its own whose former expert is no longer hot; the two tables stay inverse.
\<close>

theorem reconcile_exact:
  assumes "cache_ok c" and "reconcile c hots = (loads, d)"
    and "card (hot_set c hots) \<le> hc_num_slots c"
  shows "cache_ok d \<and> {e. is_resident d e} = hot_set c hots \<and>
    (\<forall>e \<in> stays c hots. hot_slot_of d e = hot_slot_of c e) \<and>
    set (map sl_expert loads) = hot_set c hots - stays c hots \<and>
    distinct (map sl_expert loads) \<and> distinct (map sl_slot loads) \<and>
    (\<forall>l \<in> set loads. hot_slot_of d (sl_expert l) = Some (sl_slot l) \<and>
       sl_evicted l = hc_slots c ! sl_slot l \<and>
       (\<forall>x. sl_evicted l = Some x \<longrightarrow> is_resident c x \<and> \<not> is_resident d x))"
proof -
  note r = reconcile_slots [OF assms]
  have "is_resident c x \<and> \<not> is_resident d x" if l: "l \<in> set loads" "sl_evicted l = Some x" for l x
  proof -
    have "sl_slot l < hc_num_slots c" "hc_slots c ! sl_slot l = Some x" "\<not> mask_hot hots x"
      using r(4) [OF l(1)] l(2) by auto
    then show ?thesis using slots_where [OF assms(1)] r(1) [of x] by (auto simp: is_resident_def hot_set_def)
  qed
  moreover have "set (map sl_expert loads) = hot_set c hots - stays c hots"
    unfolding r(3) by (auto simp: stays_def hot_set_def)
  moreover have "{e. is_resident d e} = hot_set c hots" using r(1) by blast
  moreover have "\<forall>e \<in> stays c hots. hot_slot_of d e = hot_slot_of c e" using r(2) by (simp add: stays_def)
  ultimately show ?thesis using r(4-6) reconcile_ok [OF assms(1,2)] by blast
qed

section \<open>The device behind the cache\<close>

text \<open>The copies a backend performs; the slots hold the weights the table says they hold.\<close>

definition apply_loads :: "(nat \<Rightarrow> 'w) \<Rightarrow> slot_load list \<Rightarrow> (nat \<Rightarrow> 'w) \<Rightarrow> nat \<Rightarrow> 'w" where
  "apply_loads store loads dev = foldl (\<lambda>dev l. dev(sl_slot l := store (sl_expert l))) dev loads"

definition device_holds :: "hot_cache \<Rightarrow> (nat \<Rightarrow> 'w) \<Rightarrow> (nat \<Rightarrow> 'w) \<Rightarrow> bool" where
  "device_holds c store dev \<longleftrightarrow> (\<forall>e s. hot_slot_of c e = Some s \<longrightarrow> dev s = store e)"

lemma apply_loads_other: "s \<notin> set (map sl_slot loads) \<Longrightarrow> apply_loads store loads dev s = dev s"
  unfolding apply_loads_def by (induction loads arbitrary: dev) auto

lemma apply_loads_slot:
  "\<lbrakk>distinct (map sl_slot loads); l \<in> set loads\<rbrakk> \<Longrightarrow>
     apply_loads store loads dev (sl_slot l) = store (sl_expert l)"
proof (induction loads arbitrary: dev)
  case (Cons a loads)
  have "apply_loads store (a # loads) dev = apply_loads store loads (dev(sl_slot a := store (sl_expert a)))"
    by (simp add: apply_loads_def)
  then show ?case using Cons apply_loads_other [of "sl_slot a" loads store "dev(sl_slot a := store (sl_expert a))"]
    by auto
qed simp

lemma device_follows:
  assumes ok: "cache_ok c" and res: "reconcile c hots = (loads, d)"
    and room: "card (hot_set c hots) \<le> hc_num_slots c" and dev: "device_holds c store dev"
  shows "device_holds d store (apply_loads store loads dev)"
  unfolding device_holds_def
proof (intro allI impI)
  fix e s assume e: "hot_slot_of d e = Some s"
  note r = reconcile_slots [OF ok res room] and okd = reconcile_ok [OF ok res]
  show "apply_loads store loads dev s = store e"
  proof (cases "e \<in> set (map sl_expert loads)")
    case True
    then obtain l where l: "l \<in> set loads" "sl_expert l = e" by auto
    then have "sl_slot l = s" using r(4) [OF l(1)] e by simp
    then show ?thesis using apply_loads_slot [OF r(6) l(1), of store dev] l by simp
  next
    case False
    have hot: "e \<in> hot_set c hots" using r(1) [of e] e by (simp add: is_resident_def)
    then have c: "is_resident c e" using False unfolding r(3) by blast
    have "s \<noteq> sl_slot l" if l: "l \<in> set loads" for l
    proof
      assume "s = sl_slot l"
      then have "hot_slot_of d (sl_expert l) = Some s" using r(4) [OF l] by simp
      then have "sl_expert l = e" using slot_of_slots [OF okd, of "sl_expert l" s] slot_of_slots [OF okd e] by simp
      then show False using False l by auto
    qed
    then have "apply_loads store loads dev s = dev s" by (intro apply_loads_other) auto
    moreover have "hot_slot_of c e = Some s" using r(2) [of e] hot c e by (simp add: hot_set_def)
    ultimately show ?thesis using dev by (simp add: device_holds_def)
  qed
qed

section \<open>Routing\<close>

lemma route_closed:
  "rt_slot_idx (route c idx sentinel) =
     map (\<lambda>e. case hot_slot_of c (unat e) of Some s \<Rightarrow> of_nat s | None \<Rightarrow> sentinel) idx"
  "rt_cold (route c idx sentinel) =
     map (\<lambda>(t, e). (t, unat e)) (filter (\<lambda>(t, e). \<not> is_resident c (unat e)) (enumerate 0 idx))"
proof -
  have "rt_slot_idx (foldl (route_token c sentinel) r xs) = rt_slot_idx r @
      map (\<lambda>(t, e). case hot_slot_of c (unat e) of Some s \<Rightarrow> of_nat s | None \<Rightarrow> sentinel) xs \<and>
    rt_cold (foldl (route_token c sentinel) r xs) = rt_cold r @
      map (\<lambda>(t, e). (t, unat e)) (filter (\<lambda>(t, e). \<not> is_resident c (unat e)) xs)" for r xs
    by (induction xs arbitrary: r) (auto simp: route_token_def is_resident_def split: option.splits)
  moreover have "map (\<lambda>(t, e). f e) (enumerate n xs) = map f xs" for f :: "32 word \<Rightarrow> 32 word" and n xs
    by (induction xs arbitrary: n) auto
  ultimately show "rt_slot_idx (route c idx sentinel) =
      map (\<lambda>e. case hot_slot_of c (unat e) of Some s \<Rightarrow> of_nat s | None \<Rightarrow> sentinel) idx"
    "rt_cold (route c idx sentinel) =
      map (\<lambda>(t, e). (t, unat e)) (filter (\<lambda>(t, e). \<not> is_resident c (unat e)) (enumerate 0 idx))"
    by (simp_all add: route_def)
qed

text \<open>A token's expert is read from its slot, or it is on the list for the host.\<close>

lemma route_serves:
  assumes ok: "cache_ok c" and dev: "device_holds c store dev" and small: "hc_num_slots c \<le> unat sentinel"
    and t: "t < length idx"
  shows "(t, e) \<in> set (rt_cold (route c idx sentinel)) \<longleftrightarrow> e = unat (idx ! t) \<and> \<not> is_resident c e"
    and "rt_slot_idx (route c idx sentinel) ! t = sentinel \<longleftrightarrow> \<not> is_resident c (unat (idx ! t))"
    and "is_resident c (unat (idx ! t)) \<Longrightarrow>
      dev (unat (rt_slot_idx (route c idx sentinel) ! t)) = store (unat (idx ! t))"
proof -
  show "(t, e) \<in> set (rt_cold (route c idx sentinel)) \<longleftrightarrow> e = unat (idx ! t) \<and> \<not> is_resident c e"
    using t unfolding route_closed by (force simp: in_set_enumerate_eq)
  have slot: "unat (of_nat s :: 32 word) = s \<and> (of_nat s :: 32 word) \<noteq> sentinel" if "hot_slot_of c e = Some s" for e s
  proof -
    have "s < hc_num_slots c" using slot_of_slots [OF ok that] by simp
    then have s: "s < unat sentinel" using small by simp
    moreover have "unat sentinel < 2 ^ 32" by (rule order.strict_trans2 [OF unsigned_less]) simp
    ultimately have "s < 2 ^ 32" by linarith
    then have "unat (of_nat s :: 32 word) = s" by (simp add: unsigned_of_nat take_bit_nat_eq_self)
    then show ?thesis using s by auto
  qed
  show "rt_slot_idx (route c idx sentinel) ! t = sentinel \<longleftrightarrow> \<not> is_resident c (unat (idx ! t))"
    using t slot unfolding route_closed by (auto simp: is_resident_def split: option.splits)
  show "dev (unat (rt_slot_idx (route c idx sentinel) ! t)) = store (unat (idx ! t))"
    if r: "is_resident c (unat (idx ! t))"
  proof -
    obtain s where s: "hot_slot_of c (unat (idx ! t)) = Some s" using r by (auto simp: is_resident_def)
    then show ?thesis using t slot [OF s] dev unfolding route_closed by (simp add: device_holds_def)
  qed
qed

section \<open>The pool as provider of masks\<close>

text \<open>What the cache relies on: masks over its experts that never exceed the budget.\<close>

locale mask_provider =
  fixes sound :: "'p \<Rightarrow> bool" and wants :: "'p \<Rightarrow> bool list" and budget :: "'p \<Rightarrow> nat" and experts :: "'p \<Rightarrow> nat"
  assumes wants_length: "sound p \<Longrightarrow> length (wants p) = experts p"
    and wants_fit: "sound p \<Longrightarrow> card {e. mask_hot (wants p) e} \<le> budget p"
begin

text \<open>A cache built for the provider has room, and follows it exactly.\<close>

definition suits :: "'p \<Rightarrow> hot_cache \<Rightarrow> bool" where
  "suits p c \<longleftrightarrow> cache_ok c \<and> hc_num_experts c = experts p \<and> hc_num_slots c = budget p"

lemma wanted: "\<lbrakk>sound p; suits p c\<rbrakk> \<Longrightarrow> hot_set c (wants p) = {e. mask_hot (wants p) e}"
  using wants_length by (auto simp: hot_set_def mask_hot_def suits_def)

lemma room: "\<lbrakk>sound p; suits p c\<rbrakk> \<Longrightarrow> card (hot_set c (wants p)) \<le> hc_num_slots c"
  using wants_fit wanted by (simp add: suits_def)

lemma follows:
  assumes "sound p" "suits p c" "reconcile c (wants p) = (loads, d)"
  shows "suits p d \<and> (is_resident d e \<longleftrightarrow> mask_hot (wants p) e) \<and>
    (device_holds c store dev \<longrightarrow> device_holds d store (apply_loads store loads dev))"
proof -
  have ok: "cache_ok c" using assms(2) by (simp add: suits_def)
  have "suits p d"
    using reconcile_ok [OF ok assms(3)] reconcile_tables(2,3) [OF ok assms(3)] assms(2)
    by (simp add: suits_def)
  then show ?thesis
    using reconcile_slots(1) [OF ok assms(3) room] device_follows [OF ok assms(3) room] wanted assms(1,2)
    by auto
qed

lemma settled:
  assumes "sound p" "suits p c" "\<And>e. is_resident c e \<longleftrightarrow> mask_hot (wants p) e"
    and "reconcile c (wants p) = (loads, d)"
  shows "loads = []"
proof -
  have ok: "cache_ok c" using assms(2) by (simp add: suits_def)
  have "set (map sl_expert loads) = {}"
    using reconcile_slots(3) [OF ok assms(4) room] assms(1-3) by (auto simp: hot_set_def)
  then show ?thesis by simp
qed

end

lemma mask_hot_resident: "residency_ok p \<Longrightarrow> mask_hot (resident_mask p) e \<longleftrightarrow> e \<in> xp_resident p"
  by (auto simp: mask_hot_def resident_mask_def residency_ok_def)

interpretation pool: mask_provider residency_ok resident_mask xp_gpu_budget xp_num_experts
proof
  show "length (resident_mask p) = xp_num_experts p" if "residency_ok p" for p
    by (simp add: resident_mask_def)
  show "card {e. mask_hot (resident_mask p) e} \<le> xp_gpu_budget p" if "residency_ok p" for p
    using that by (simp add: mask_hot_resident) (simp add: residency_ok_def)
qed

section \<open>A layer at run time\<close>

text \<open>
  A layer starts with the first experts of the budget loaded; then it refreshes its pool, by
  counts or by routed indices, and reconciles its cache, the device doing the copies, in any order.
\<close>

inductive layer_history ::
    "(rat \<Rightarrow> nat \<Rightarrow> nat \<Rightarrow> bool) \<Rightarrow> (nat set \<Rightarrow> nat list) \<Rightarrow> (nat \<Rightarrow> 'w) \<Rightarrow> expert_pool \<Rightarrow> hot_cache \<Rightarrow> (nat \<Rightarrow> 'w) \<Rightarrow> bool"
  for beats iter store where
  Launched: "\<lbrakk>p = expert_pool_new config; \<forall>s < xp_gpu_budget p. dev s = store s\<rbrakk> \<Longrightarrow>
    layer_history beats iter store p (hot_cache_new (xp_num_experts p) (xp_gpu_budget p)) dev"
| Counted: "\<lbrakk>layer_history beats iter store p c dev; length counts \<le> xp_num_experts p;
      refresh_from_counts beats iter p counts = (r, q)\<rbrakk> \<Longrightarrow> layer_history beats iter store q c dev"
| Routed: "\<lbrakk>layer_history beats iter store p c dev; refresh_from_indices beats iter p idx = (r, q)\<rbrakk> \<Longrightarrow>
    layer_history beats iter store q c dev"
| Loaded: "\<lbrakk>layer_history beats iter store p c dev; reconcile c (resident_mask p) = (loads, d)\<rbrakk> \<Longrightarrow>
    layer_history beats iter store p d (apply_loads store loads dev)"

definition layer_ok :: "(nat \<Rightarrow> 'w) \<Rightarrow> expert_pool \<Rightarrow> hot_cache \<Rightarrow> (nat \<Rightarrow> 'w) \<Rightarrow> bool" where
  "layer_ok store p c dev \<longleftrightarrow> residency_ok p \<and> pool.suits p c \<and> device_holds c store dev"

lemma swaps_suits: "\<lbrakk>swaps_ok p r q; pool.suits p c\<rbrakk> \<Longrightarrow> pool.suits q c"
  by (simp add: swaps_ok_def pool.suits_def)

lemma new_suits:
  "pool.suits (expert_pool_new config)
     (hot_cache_new (xp_num_experts (expert_pool_new config)) (xp_gpu_budget (expert_pool_new config)))"
  using hot_cache_new_ok by (auto simp: pool.suits_def hot_cache_new_def expert_pool_new_def Let_def)

lemma new_slot: "hot_slot_of (hot_cache_new n k) e = Some s \<Longrightarrow> s = e \<and> s < min k n"
  by (auto simp: hot_slot_of_def hot_cache_new_def Let_def new_tables split: if_splits)

lemma layer_history_ok: "\<lbrakk>layer_history beats iter store p c dev; iterates iter\<rbrakk> \<Longrightarrow> layer_ok store p c dev"
proof (induction rule: layer_history.induct)
  case (Launched p config dev)
  then show ?case using new_residency_ok new_suits new_slot by (fastforce simp: layer_ok_def device_holds_def)
next
  case (Counted p c dev counts r q)
  then show ?case using refresh_ok swaps_suits unfolding layer_ok_def by metis
next
  case (Routed p c dev idx r q)
  then show ?case
    using refresh_ok [of p iter "count_hits idx (xp_num_experts p)" beats r q] swaps_suits
    by (simp add: layer_ok_def refresh_from_indices_def count_hits_length)
next
  case (Loaded p c dev loads d)
  then show ?case using pool.follows [of p c loads d] unfolding layer_ok_def by blast
qed

text \<open>
  C13. However a layer was refreshed and reconciled before, after a reconciliation the cache
  holds exactly the residents of the pool, and a token is routed either to a device slot that
  contains the weights of its expert or, if its expert is not resident, to the host.
\<close>

theorem expert_layer_serves:
  assumes "layer_history beats iter store p c dev" and "iterates iter"
    and "reconcile c (resident_mask p) = (loads, d)" and "xp_gpu_budget p \<le> unat sentinel"
    and "t < length idx"
  shows "{e. is_resident d e} = xp_resident p \<and>
    (let r = route d idx sentinel; e = unat (idx ! t) in
       if e \<in> xp_resident p
       then rt_slot_idx r ! t \<noteq> sentinel \<and> apply_loads store loads dev (unat (rt_slot_idx r ! t)) = store e
       else rt_slot_idx r ! t = sentinel \<and> (t, e) \<in> set (rt_cold r))"
proof -
  have l: "residency_ok p" "pool.suits p c" "device_holds c store dev"
    using layer_history_ok [OF assms(1,2)] by (auto simp: layer_ok_def)
  have d: "pool.suits p d" "\<And>e. is_resident d e \<longleftrightarrow> e \<in> xp_resident p"
    "device_holds d store (apply_loads store loads dev)"
    using pool.follows [OF l(1,2) assms(3)] l(3) mask_hot_resident [OF l(1)] by auto
  have "cache_ok d" "hc_num_slots d \<le> unat sentinel" using d(1) assms(4) by (auto simp: pool.suits_def)
  note r = route_serves [OF this(1) d(3) this(2) assms(5)]
  show ?thesis using r d(2) by (auto simp: Let_def)
qed

text \<open>A fresh layer needs no copy before its first refresh.\<close>

lemma fresh_layer_loads_nothing:
  assumes "reconcile (hot_cache_new (xp_num_experts p) (xp_gpu_budget p)) (resident_mask p) = (loads, d)"
    and "p = expert_pool_new config"
  shows "loads = []"
proof (rule pool.settled [OF _ _ _ assms(1)])
  show ok: "residency_ok p" using assms(2) by (simp add: new_residency_ok)
  show "pool.suits p (hot_cache_new (xp_num_experts p) (xp_gpu_budget p))" using assms(2) new_suits by simp
  show "is_resident (hot_cache_new (xp_num_experts p) (xp_gpu_budget p)) e \<longleftrightarrow> mask_hot (resident_mask p) e" for e
    unfolding mask_hot_resident [OF ok] hot_cache_new_resident
    using assms(2) by (auto simp: expert_pool_new_def Let_def)
qed

section \<open>A concrete layer\<close>

definition demo_cache :: hot_cache where
  "demo_cache = hot_cache_new 4 2"

lemma demo_cache_eq:
  "demo_cache = \<lparr>hc_num_experts = 4, hc_num_slots = 2, hc_slots = [Some 0, Some 1],
     hc_where = [Some 0, Some 1, None, None]\<rparr>"
  by (simp add: demo_cache_def hot_cache_new_def numeral_2_eq_2 numeral_eq_Suc)

theorem reconcile_exact_witness:
  "set (map sl_expert (fst (reconcile demo_cache [False, True, True, False]))) = {2} \<and>
   {e. is_resident (snd (reconcile demo_cache [False, True, True, False])) e} = {1, 2}"
proof -
  let ?m = "[False, True, True, False]"
  have hot: "hot_set demo_cache ?m = {1, 2}"
    by (auto simp: hot_set_def mask_hot_def demo_cache_eq less_Suc_eq numeral_eq_Suc)
  have st: "stays demo_cache ?m = {1}"
    by (auto simp: stays_def mask_hot_def is_resident_def hot_slot_of_def demo_cache_eq less_Suc_eq numeral_eq_Suc
        split: if_splits)
  have "cache_ok demo_cache" unfolding demo_cache_def by (rule hot_cache_new_ok)
  from reconcile_exact [OF this prod.collapse [symmetric], of ?m] show ?thesis
    unfolding hot st by (simp add: demo_cache_eq)
qed

theorem expert_layer_serves_witness:
  "\<exists>loads d. reconcile demo_cache (resident_mask demo_pool) = (loads, d) \<and>
     apply_loads (\<lambda>e. 10 * e) loads (\<lambda>s. 10 * s) (unat (rt_slot_idx (route d [1, 3] 7) ! 0)) = (10 :: nat) \<and>
     (1, 3) \<in> set (rt_cold (route d [1, 3] 7))"
proof -
  obtain loads d where r: "reconcile demo_cache (resident_mask demo_pool) = (loads, d)" by fastforce
  have h: "layer_history exact_beats in_id_order (\<lambda>e. 10 * e) demo_pool demo_cache (\<lambda>s. 10 * s :: nat)"
    using layer_history.Launched [OF demo_pool_def, of "\<lambda>s. 10 * s" "\<lambda>e. 10 * e"]
    by (simp add: demo_cache_def demo_pool_eq)
  have "apply_loads (\<lambda>e. 10 * e) loads (\<lambda>s. 10 * s) (unat (rt_slot_idx (route d [1, 3] 7) ! 0)) = (10 :: nat)"
    using expert_layer_serves [OF h iterates_sorted r, of 7 0 "[1, 3]"] by (simp add: demo_pool_eq Let_def)
  moreover have "(1, 3) \<in> set (rt_cold (route d [1, 3] 7))"
    using expert_layer_serves [OF h iterates_sorted r, of 7 1 "[1, 3]"] by (simp add: demo_pool_eq Let_def)
  ultimately show ?thesis using r by blast
qed

end
