(* ===== verification/Collectives.thy ===== *)
theory Collectives
  imports DTypes
begin

text \<open>
  Collective operations over a symmetric heap (\<open>crates/core/rlx-driver/src/symmetric.rs\<close> and
  \<open>collective.rs\<close>). Every rank runs a program of one-sided transfers and barriers; the programs
  run interleaved in any order, a barrier letting all ranks pass at once when all wait.
  An \<open>f32\<close> is its bit pattern, and its arithmetic is the parameter \<open>float_ops\<close>.
\<close>

type_synonym f32 = "32 word"

section \<open>The symmetric heap\<close>

record sym_buffer =
  sb_rank :: nat
  sb_offset :: nat
  sb_len :: nat

datatype collective_error =
    OutOfBounds nat nat nat nat
  | LengthMismatch nat nat
  | UnknownRank nat nat
  | TransportError

record sym_heap =
  sh_storage :: "bytes list"
  sh_size :: nat

definition sym_heap_new :: "nat \<Rightarrow> nat \<Rightarrow> sym_heap" where
  "sym_heap_new n sz = \<lparr>sh_storage = replicate n (replicate sz 0), sh_size = sz\<rparr>"

definition num_ranks :: "sym_heap \<Rightarrow> nat" where
  "num_ranks h = length (sh_storage h)"

definition check_buf :: "sym_heap \<Rightarrow> sym_buffer \<Rightarrow> (collective_error, unit) outcome" where
  "check_buf h buf =
     (if sb_rank buf \<ge> num_ranks h then Err (UnknownRank (sb_rank buf) (num_ranks h))
      else if sb_offset buf + sb_len buf > sh_size h
      then Err (OutOfBounds (sb_rank buf) (sb_offset buf) (sb_len buf) (sh_size h))
      else Ok ())"

text \<open>\<open>copy_from_slice\<close> into the bytes from an offset on.\<close>

definition splice :: "nat \<Rightarrow> 'a list \<Rightarrow> 'a list \<Rightarrow> 'a list" where
  "splice off src xs = take off xs @ src @ drop (off + length src) xs"

definition sym_put :: "sym_heap \<Rightarrow> sym_buffer \<Rightarrow> bytes \<Rightarrow> (collective_error, sym_heap) outcome" where
  "sym_put h buf src =
     bind_outcome (check_buf h buf) (\<lambda>_.
       if length src \<noteq> sb_len buf then Err (LengthMismatch (sb_len buf) (length src))
       else Ok (h\<lparr>sh_storage := (sh_storage h)[sb_rank buf :=
              splice (sb_offset buf) src (sh_storage h ! sb_rank buf)]\<rparr>))"

definition sym_get :: "sym_heap \<Rightarrow> sym_buffer \<Rightarrow> nat \<Rightarrow> (collective_error, bytes) outcome" where
  "sym_get h buf dst_len =
     bind_outcome (check_buf h buf) (\<lambda>_.
       if dst_len \<noteq> sb_len buf then Err (LengthMismatch (sb_len buf) dst_len)
       else Ok (take (sb_len buf) (drop (sb_offset buf) (sh_storage h ! sb_rank buf))))"

section \<open>Reductions\<close>

datatype reduce_kind = ReduceSum | ReduceMean | ReduceMax | ReduceMin

record float_ops =
  fo_add :: "f32 \<Rightarrow> f32 \<Rightarrow> f32"
  fo_max :: "f32 \<Rightarrow> f32 \<Rightarrow> f32"
  fo_min :: "f32 \<Rightarrow> f32 \<Rightarrow> f32"
  fo_div :: "f32 \<Rightarrow> f32 \<Rightarrow> f32"
  fo_of_nat :: "nat \<Rightarrow> f32"

fun rk_fold :: "float_ops \<Rightarrow> reduce_kind \<Rightarrow> f32 \<Rightarrow> f32 \<Rightarrow> f32" where
  "rk_fold ops ReduceSum acc x = fo_add ops acc x"
| "rk_fold ops ReduceMean acc x = fo_add ops acc x"
| "rk_fold ops ReduceMax acc x = fo_max ops acc x"
| "rk_fold ops ReduceMin acc x = fo_min ops acc x"

definition rk_finalize :: "float_ops \<Rightarrow> reduce_kind \<Rightarrow> f32 \<Rightarrow> nat \<Rightarrow> f32" where
  "rk_finalize ops k acc n = (case k of ReduceMean \<Rightarrow> fo_div ops acc (fo_of_nat ops n) | _ \<Rightarrow> acc)"

text \<open>Zero, minus infinity and infinity.\<close>

definition rk_identity :: "reduce_kind \<Rightarrow> f32" where
  "rk_identity k =
     (case k of ReduceSum \<Rightarrow> 0 | ReduceMean \<Rightarrow> 0 | ReduceMax \<Rightarrow> 0xFF800000 | ReduceMin \<Rightarrow> 0x7F800000)"

text \<open>
  The bytes of a slice of floats, read raw: \<open>None\<close> when the length asked for runs past the
  slice. And back, as \<open>decode_le\<close> does.
\<close>

definition float_bytes :: "f32 list \<Rightarrow> bytes" where
  "float_bytes xs = concat (map (\<lambda>x. le_bytes 4 (uint x)) xs)"

definition raw_bytes :: "f32 list \<Rightarrow> nat \<Rightarrow> bytes option" where
  "raw_bytes xs n = (if n \<le> 4 * length xs then Some (take n (float_bytes xs)) else None)"

definition decode_le :: "bytes \<Rightarrow> f32 list" where
  "decode_le bs = map (\<lambda>i. word_of_int (le_value (take 4 (drop (4 * i) bs)))) [0..<length bs div 4]"

section \<open>Programs of ranks\<close>

text \<open>
  The memory of a rank: its slice, the accumulator, the output. A transfer out computes the
  bytes to send, a transfer in says what is done with the bytes.
\<close>

record rank_mem =
  rm_local :: "f32 list"
  rm_acc :: "f32 list"
  rm_output :: "f32 list"

datatype instr =
    Put sym_buffer "rank_mem \<Rightarrow> bytes option"
  | Get sym_buffer nat "rank_mem \<Rightarrow> bytes \<Rightarrow> rank_mem"
  | Compute "rank_mem \<Rightarrow> rank_mem"
  | Barrier

definition all_reduce ::
    "float_ops \<Rightarrow> nat \<Rightarrow> nat \<Rightarrow> sym_buffer \<Rightarrow> nat \<Rightarrow> reduce_kind \<Rightarrow> (collective_error, instr list) outcome" where
  "all_reduce ops n me buf local_len k =
     (let elems = sb_len buf div 4 in
      if local_len \<noteq> elems then Err (LengthMismatch elems local_len)
      else Ok ([Put (buf\<lparr>sb_rank := me\<rparr>) (\<lambda>m. raw_bytes (rm_local m) (sb_len buf)),
                Barrier,
                Compute (\<lambda>m. m\<lparr>rm_acc := replicate elems (rk_identity k)\<rparr>)] @
               map (\<lambda>r. Get (buf\<lparr>sb_rank := r\<rparr>) (sb_len buf)
                    (\<lambda>m bs. m\<lparr>rm_acc := map2 (rk_fold ops k) (rm_acc m) (decode_le (take (elems * 4) bs))\<rparr>))
                 [0..<n] @
               [Compute (\<lambda>m. m\<lparr>rm_local := map (\<lambda>v. rk_finalize ops k v n) (rm_acc m)\<rparr>)]))"

definition all_gather ::
    "nat \<Rightarrow> nat \<Rightarrow> sym_buffer \<Rightarrow> nat \<Rightarrow> nat \<Rightarrow> (collective_error, instr list) outcome" where
  "all_gather n me buf local_len output_len =
     (let per_rank = sb_len buf div 4 in
      if local_len \<noteq> per_rank then Err (LengthMismatch per_rank local_len)
      else if output_len \<noteq> n * per_rank then Err (LengthMismatch (n * per_rank) output_len)
      else Ok ([Put (buf\<lparr>sb_rank := me\<rparr>) (\<lambda>m. raw_bytes (rm_local m) (sb_len buf)), Barrier] @
               map (\<lambda>r. Get (buf\<lparr>sb_rank := r\<rparr>) (sb_len buf)
                    (\<lambda>m bs. m\<lparr>rm_output := splice (r * per_rank) (decode_le (take (per_rank * 4) bs)) (rm_output m)\<rparr>))
                 [0..<n]))"

definition reduce_scatter ::
    "float_ops \<Rightarrow> nat \<Rightarrow> nat \<Rightarrow> sym_buffer \<Rightarrow> nat \<Rightarrow> nat \<Rightarrow> reduce_kind \<Rightarrow> (collective_error, instr list) outcome" where
  "reduce_scatter ops n me buf local_len output_len k =
     (let total = sb_len buf div 4; chunk = total div n in
      if \<not> n dvd total then Err TransportError
      else if local_len \<noteq> total then Err (LengthMismatch total local_len)
      else if output_len \<noteq> chunk then Err (LengthMismatch chunk output_len)
      else bind_outcome (all_reduce ops n me buf local_len k) (\<lambda>is.
        Ok (is @ [Compute (\<lambda>m. m\<lparr>rm_output := take chunk (drop (me * chunk) (rm_local m))\<rparr>)])))"

text \<open>One round of each half of the ring.\<close>

definition mailbox :: "nat \<Rightarrow> nat \<Rightarrow> nat \<Rightarrow> sym_buffer" where
  "mailbox off chunk_bytes rank = \<lparr>sb_rank = rank, sb_offset = off, sb_len = chunk_bytes\<rparr>"

definition send_chunk :: "nat \<Rightarrow> nat \<Rightarrow> rank_mem \<Rightarrow> bytes option" where
  "send_chunk chunk idx m = raw_bytes (take chunk (drop (idx * chunk) (rm_local m))) (chunk * 4)"

definition fold_chunk :: "(f32 \<Rightarrow> f32 \<Rightarrow> f32) \<Rightarrow> nat \<Rightarrow> nat \<Rightarrow> rank_mem \<Rightarrow> bytes \<Rightarrow> rank_mem" where
  "fold_chunk f chunk idx m bs =
     m\<lparr>rm_local := foldl (\<lambda>l i. l[idx * chunk + i := f (l ! (idx * chunk + i)) (decode_le (take (chunk * 4) bs) ! i)])
        (rm_local m) [0..<chunk]\<rparr>"

definition copy_chunk :: "nat \<Rightarrow> nat \<Rightarrow> rank_mem \<Rightarrow> bytes \<Rightarrow> rank_mem" where
  "copy_chunk chunk idx m bs =
     m\<lparr>rm_local := splice (idx * chunk) (decode_le (take (chunk * 4) bs)) (rm_local m)\<rparr>"

definition reduce_round ::
    "float_ops \<Rightarrow> reduce_kind \<Rightarrow> nat \<Rightarrow> nat \<Rightarrow> nat \<Rightarrow> nat \<Rightarrow> nat \<Rightarrow> instr list" where
  "reduce_round ops k n me off chunk s =
     [Put (mailbox off (chunk * 4) ((me + 1) mod n)) (send_chunk chunk ((me + n - s) mod n)),
      Barrier,
      Get (mailbox off (chunk * 4) me) (chunk * 4) (fold_chunk (rk_fold ops k) chunk ((me + n - s - 1) mod n)),
      Barrier]"

definition gather_round :: "nat \<Rightarrow> nat \<Rightarrow> nat \<Rightarrow> nat \<Rightarrow> nat \<Rightarrow> instr list" where
  "gather_round n me off chunk s =
     [Put (mailbox off (chunk * 4) ((me + 1) mod n)) (send_chunk chunk ((me + n + 1 - s) mod n)),
      Barrier,
      Get (mailbox off (chunk * 4) me) (chunk * 4) (copy_chunk chunk ((me + n - s) mod n)),
      Barrier]"

definition ring_all_reduce ::
    "float_ops \<Rightarrow> nat \<Rightarrow> nat \<Rightarrow> nat \<Rightarrow> nat \<Rightarrow> reduce_kind \<Rightarrow> (collective_error, instr list) outcome" where
  "ring_all_reduce ops n me off len k =
     (if n \<le> 1 then Ok []
      else if \<not> n dvd len then Err TransportError
      else let chunk = len div n in
        Ok (concat (map (reduce_round ops k n me off chunk) [0..<n - 1]) @
            concat (map (gather_round n me off chunk) [0..<n - 1]) @
            [Compute (\<lambda>m. if k = ReduceMean
               then m\<lparr>rm_local := map (\<lambda>v. fo_div ops v (fo_of_nat ops n)) (rm_local m)\<rparr> else m)]))"

section \<open>Interleaved execution\<close>

text \<open>
  A rank has instructions left and a memory, or stopped with an error or with a read past a
  slice. The heap is shared.
\<close>

datatype rank_state =
    Running "instr list" rank_mem
  | Failed collective_error
  | Undefined

type_synonym world = "sym_heap \<times> rank_state list"

fun own_step :: "sym_heap \<Rightarrow> instr \<Rightarrow> instr list \<Rightarrow> rank_mem \<Rightarrow> sym_heap \<times> rank_state" where
  "own_step h (Put buf src) is m =
     (case src m of
        None \<Rightarrow> (h, Undefined)
      | Some bs \<Rightarrow> (case sym_put h buf bs of
          Ok h' \<Rightarrow> (h', Running is m) | Err e \<Rightarrow> (h, Failed e) | Panic \<Rightarrow> (h, Undefined)))"
| "own_step h (Get buf n f) is m =
     (case sym_get h buf n of
        Ok bs \<Rightarrow> (h, Running is (f m bs)) | Err e \<Rightarrow> (h, Failed e) | Panic \<Rightarrow> (h, Undefined))"
| "own_step h (Compute f) is m = (h, Running is (f m))"
| "own_step h Barrier is m = (h, Running (Barrier # is) m)"

definition at_barrier :: "rank_state \<Rightarrow> bool" where
  "at_barrier st \<longleftrightarrow> (case st of Running (Barrier # _) _ \<Rightarrow> True | _ \<Rightarrow> False)"

fun pass_barrier :: "rank_state \<Rightarrow> rank_state" where
  "pass_barrier (Running is m) = Running (tl is) m"
| "pass_barrier st = st"

inductive world_step :: "world \<Rightarrow> world \<Rightarrow> bool" where
  Own: "\<lbrakk>r < length rs; rs ! r = Running (i # is) m; i \<noteq> Barrier; own_step h i is m = (h', st)\<rbrakk> \<Longrightarrow>
    world_step (h, rs) (h', rs[r := st])"
| Meet: "\<lbrakk>rs \<noteq> []; \<forall>st \<in> set rs. at_barrier st\<rbrakk> \<Longrightarrow> world_step (h, rs) (h, map pass_barrier rs)"

inductive_cases world_stepE [consumes 1, case_names Own Meet]: "world_step w w'"

text \<open>Runs and their lengths.\<close>

inductive world_run :: "world \<Rightarrow> nat \<Rightarrow> world \<Rightarrow> bool" for start where
  Stop: "world_run start 0 start"
| Go: "\<lbrakk>world_run start k w; world_step w w'\<rbrakk> \<Longrightarrow> world_run start (Suc k) w'"

definition finished :: "rank_state \<Rightarrow> bool" where
  "finished st \<longleftrightarrow> (\<exists>m. st = Running [] m)"

fun mem_of :: "rank_state \<Rightarrow> rank_mem option" where
  "mem_of (Running _ m) = Some m"
| "mem_of _ = None"

end
