(* ===== verification/CollectiveLaws.thy ===== *)
theory CollectiveLaws
  imports Collectives
begin

text \<open>
  What the collectives of \<open>Collectives\<close> compute, under every interleaving: the ring and the
  direct reduction end on every rank with the reduction of all contributions, no rank fails or
  waits for ever, and the two agree when the reduction does not depend on the order. Two direct
  reductions in a row race.
\<close>

section \<open>Bytes\<close>

lemma length_float_bytes [simp]: "length (float_bytes xs) = 4 * length xs"
  by (induction xs) (auto simp: float_bytes_def)

lemma float_bytes_chunk:
  "i < length xs \<Longrightarrow> take 4 (drop (4 * i) (float_bytes xs)) = le_bytes 4 (uint (xs ! i))"
proof (induction xs arbitrary: i)
  case (Cons x xs)
  have eq: "float_bytes (x # xs) = le_bytes 4 (uint x) @ float_bytes xs" by (simp add: float_bytes_def)
  show ?case
  proof (cases i)
    case (Suc i')
    then show ?thesis using Cons unfolding eq by (simp add: drop_append)
  qed (simp add: eq)
qed simp

lemma decode_float_bytes [simp]: "decode_le (float_bytes xs) = xs"
proof (rule nth_equalityI)
  fix i assume "i < length (decode_le (float_bytes xs))"
  then have i: "i < length xs" by (simp add: decode_le_def)
  have "word_of_int (uint (xs ! i) mod 256 ^ 4) = xs ! i"
    using uint_lt2p [of "xs ! i"] by (simp add: word_of_int_uint)
  then show "decode_le (float_bytes xs) ! i = xs ! i"
    using i by (simp add: decode_le_def float_bytes_chunk le_value_le_bytes)
qed (simp add: decode_le_def)

lemma raw_bytes_whole: "n = 4 * length xs \<Longrightarrow> raw_bytes xs n = Some (float_bytes xs)"
  by (simp add: raw_bytes_def)

lemma length_splice: "off + length src \<le> length xs \<Longrightarrow> length (splice off src xs) = length xs"
  by (simp add: splice_def)

lemma splice_read: "off + length src \<le> length xs \<Longrightarrow> take (length src) (drop off (splice off src xs)) = src"
  by (simp add: splice_def)

lemma splice_nth:
  "off + length src \<le> length xs \<Longrightarrow> i < length xs \<Longrightarrow>
     splice off src xs ! i = (if off \<le> i \<and> i < off + length src then src ! (i - off) else xs ! i)"
  by (auto simp: splice_def nth_append min_def)

section \<open>Transfers\<close>

definition heap_ok :: "sym_heap \<Rightarrow> bool" where
  "heap_ok h \<longleftrightarrow> (\<forall>s \<in> set (sh_storage h). length s = sh_size h)"

definition heap_region :: "sym_heap \<Rightarrow> sym_buffer \<Rightarrow> bytes" where
  "heap_region h buf = take (sb_len buf) (drop (sb_offset buf) (sh_storage h ! sb_rank buf))"

definition fits :: "sym_heap \<Rightarrow> sym_buffer \<Rightarrow> bool" where
  "fits h buf \<longleftrightarrow> sb_rank buf < num_ranks h \<and> sb_offset buf + sb_len buf \<le> sh_size h"

lemma sym_get_fits: "fits h buf \<Longrightarrow> n = sb_len buf \<Longrightarrow> sym_get h buf n = Ok (heap_region h buf)"
  by (simp add: sym_get_def check_buf_def fits_def heap_region_def)

lemma sym_put_fits:
  assumes "heap_ok h" "fits h buf" "length src = sb_len buf"
  obtains h' where "sym_put h buf src = Ok h'" "heap_ok h'" "heap_region h' buf = src"
    "\<And>buf'. sb_rank buf' \<noteq> sb_rank buf \<Longrightarrow> heap_region h' buf' = heap_region h buf'"
    "\<And>buf'. fits h' buf' = fits h buf'"
proof -
  let ?s = "sh_storage h ! sb_rank buf"
  let ?h = "h\<lparr>sh_storage := (sh_storage h)[sb_rank buf := splice (sb_offset buf) src ?s]\<rparr>"
  have r: "sb_rank buf < length (sh_storage h)" "sb_offset buf + length src \<le> length ?s"
    using assms nth_mem [of "sb_rank buf" "sh_storage h"]
    by (auto simp: fits_def num_ranks_def heap_ok_def)
  have "sym_put h buf src = Ok ?h"
    using assms by (simp add: sym_put_def check_buf_def fits_def)
  moreover have "heap_ok ?h"
    using assms(1) r length_splice [OF r(2)] nth_mem [OF r(1)]
    by (auto simp: heap_ok_def dest!: set_update_subset_insert [THEN subsetD])
  moreover have "heap_region ?h buf = src" using r splice_read [OF r(2)] assms(3) by (simp add: heap_region_def)
  moreover have "\<And>buf'. sb_rank buf' \<noteq> sb_rank buf \<Longrightarrow> heap_region ?h buf' = heap_region h buf'"
    by (simp add: heap_region_def)
  moreover have "\<And>buf'. fits ?h buf' = fits h buf'" by (simp add: fits_def num_ranks_def)
  ultimately show ?thesis by (rule that)
qed

section \<open>Positions on the ring\<close>

text \<open>How far rank \<open>r\<close> is behind rank \<open>j\<close>.\<close>

definition ahead :: "nat \<Rightarrow> nat \<Rightarrow> nat \<Rightarrow> nat" where
  "ahead n j r = (r + n - j) mod n"

lemma mod_two: "(x :: nat) < 2 * n \<Longrightarrow> x mod n = (if x < n then x else x - n)"
  by (auto simp: mod_if le_mod_geq)

lemma ahead_eq: "\<lbrakk>j < n; r < n\<rbrakk> \<Longrightarrow> ahead n j r = (if j \<le> r then r - j else r + n - j)"
  by (auto simp: ahead_def mod_two)

lemma recv_ahead:
  "\<lbrakk>j < n; r < n; t + 1 < n\<rbrakk> \<Longrightarrow> (r + n - t - 1) mod n = j \<longleftrightarrow> ahead n j r = t + 1"
  by (auto simp: ahead_eq mod_two split: if_splits)

lemma ahead_left: "\<lbrakk>j < n; r < n; ahead n j ((r + 1) mod n) = Suc t\<rbrakk> \<Longrightarrow> ahead n j r = t"
  by (auto simp: ahead_eq mod_two split: if_splits)

lemma ahead_add: "\<lbrakk>j < n; r < n\<rbrakk> \<Longrightarrow> (j + ahead n j r) mod n = r"
  by (auto simp: ahead_eq mod_two)

lemma ahead_less: "0 < n \<Longrightarrow> ahead n j r < n"
  by (simp add: ahead_def)

section \<open>The ring, round by round\<close>

text \<open>
  The contributions \<open>x\<close>, by rank and index. The value of chunk \<open>j\<close> at index \<open>i\<close> after it went
  through \<open>d\<close> more ranks, and what rank \<open>r\<close> holds after \<open>t\<close> rounds.
\<close>

primrec partial :: "(f32 \<Rightarrow> f32 \<Rightarrow> f32) \<Rightarrow> nat \<Rightarrow> (nat \<Rightarrow> nat \<Rightarrow> f32) \<Rightarrow> nat \<Rightarrow> nat \<Rightarrow> nat \<Rightarrow> f32" where
  "partial f n x j i 0 = x j i"
| "partial f n x j i (Suc d) = f (x ((j + Suc d) mod n) i) (partial f n x j i d)"

definition ring_val ::
    "(f32 \<Rightarrow> f32 \<Rightarrow> f32) \<Rightarrow> nat \<Rightarrow> nat \<Rightarrow> (nat \<Rightarrow> nat \<Rightarrow> f32) \<Rightarrow> nat \<Rightarrow> nat \<Rightarrow> nat \<Rightarrow> f32" where
  "ring_val f n chunk x t r i =
     (let j = i div chunk in
      if t < n then (if ahead n j r \<le> t then partial f n x j i (ahead n j r) else x r i)
      else if ahead n j ((r + 1) mod n) \<le> t - (n - 1) then partial f n x j i (n - 1)
      else partial f n x j i (ahead n j r))"

definition ring_vals ::
    "(f32 \<Rightarrow> f32 \<Rightarrow> f32) \<Rightarrow> nat \<Rightarrow> nat \<Rightarrow> (nat \<Rightarrow> nat \<Rightarrow> f32) \<Rightarrow> nat \<Rightarrow> nat \<Rightarrow> f32 list" where
  "ring_vals f n chunk x t r = map (ring_val f n chunk x t r) [0..<n * chunk]"

definition ring_round ::
    "float_ops \<Rightarrow> reduce_kind \<Rightarrow> nat \<Rightarrow> nat \<Rightarrow> nat \<Rightarrow> nat \<Rightarrow> nat \<Rightarrow> instr list" where
  "ring_round ops k n off chunk me t =
     (if t < n - 1 then reduce_round ops k n me off chunk t else gather_round n me off chunk (t - (n - 1)))"

definition ring_send :: "nat \<Rightarrow> nat \<Rightarrow> nat \<Rightarrow> nat" where
  "ring_send n t me = (if t < n - 1 then (me + n - t) mod n else (me + n + 1 - (t - (n - 1))) mod n)"

definition ring_recv :: "nat \<Rightarrow> nat \<Rightarrow> nat \<Rightarrow> nat" where
  "ring_recv n t me = (if t < n - 1 then (me + n - t - 1) mod n else (me + n - (t - (n - 1))) mod n)"

definition ring_take :: "float_ops \<Rightarrow> reduce_kind \<Rightarrow> nat \<Rightarrow> nat \<Rightarrow> nat \<Rightarrow> nat \<Rightarrow> rank_mem \<Rightarrow> bytes \<Rightarrow> rank_mem" where
  "ring_take ops k n chunk t me =
     (if t < n - 1 then fold_chunk (rk_fold ops k) chunk (ring_recv n t me) else copy_chunk chunk (ring_recv n t me))"

definition ring_finish :: "float_ops \<Rightarrow> reduce_kind \<Rightarrow> nat \<Rightarrow> rank_mem \<Rightarrow> rank_mem" where
  "ring_finish ops k n m =
     (if k = ReduceMean then m\<lparr>rm_local := map (\<lambda>v. fo_div ops v (fo_of_nat ops n)) (rm_local m)\<rparr> else m)"

definition ring_rest :: "float_ops \<Rightarrow> reduce_kind \<Rightarrow> nat \<Rightarrow> nat \<Rightarrow> nat \<Rightarrow> nat \<Rightarrow> nat \<Rightarrow> instr list" where
  "ring_rest ops k n off chunk me t =
     concat (map (ring_round ops k n off chunk me) [t..<2 * (n - 1)]) @ [Compute (ring_finish ops k n)]"

lemma ring_all_reduce_prog:
  assumes "2 \<le> n"
  shows "ring_all_reduce ops n me off (n * chunk) k = Ok (ring_rest ops k n off chunk me 0)"
proof -
  have "[0..<2 * (n - 1)] = [0..<n - 1] @ map (\<lambda>s. (n - 1) + s) [0..<n - 1]"
    using upt_add_eq_append [of 0 "n - 1" "n - 1"] by (simp add: mult_2 map_add_upt add.commute)
  then have "concat (map (ring_round ops k n off chunk me) [0..<2 * (n - 1)]) =
      concat (map (reduce_round ops k n me off chunk) [0..<n - 1]) @
      concat (map (gather_round n me off chunk) [0..<n - 1])"
    by (auto simp: ring_round_def comp_def intro!: arg_cong [of _ _ concat] map_cong arg_cong2 [of _ _ _ _ append])
  moreover have "Compute (ring_finish ops k n) = Compute (\<lambda>m. if k = ReduceMean
      then m\<lparr>rm_local := map (\<lambda>v. fo_div ops v (fo_of_nat ops n)) (rm_local m)\<rparr> else m)"
    by (simp add: ring_finish_def [abs_def])
  ultimately show ?thesis using assms by (simp add: ring_all_reduce_def ring_rest_def)
qed

lemma ring_rest_unfold:
  assumes "t < 2 * (n - 1)"
  shows "ring_rest ops k n off chunk me t =
    Put (mailbox off (chunk * 4) ((me + 1) mod n)) (send_chunk chunk (ring_send n t me)) # Barrier #
    Get (mailbox off (chunk * 4) me) (chunk * 4) (ring_take ops k n chunk t me) # Barrier #
    ring_rest ops k n off chunk me (Suc t)"
  using assms
  by (simp add: ring_rest_def upt_conv_Cons ring_round_def reduce_round_def gather_round_def ring_send_def
      ring_recv_def ring_take_def)

lemma ring_rest_last: "ring_rest ops k n off chunk me (2 * (n - 1)) = [Compute (ring_finish ops k n)]"
  by (simp add: ring_rest_def)

lemma length_ring_vals [simp]: "length (ring_vals f n chunk x t r) = n * chunk"
  by (simp add: ring_vals_def)

lemma div_chunk: "(i :: nat) < n * chunk \<Longrightarrow> i div chunk < n"
  by (metis less_mult_imp_div_less)

text \<open>The chunk that arrives is the one the left neighbour sends.\<close>

lemma mod_wrap: "\<lbrakk>(l :: nat) < n; s < n\<rbrakk> \<Longrightarrow> ((l + 1) mod n + n - s) mod n = (l + n + 1 - s) mod n"
proof (cases "l + 1 < n")
  case False
  assume a: "l < n" "s < n"
  then have l: "l + 1 = n" using False by simp
  then have "l + n + 1 - s = (n - s) + n" using a by simp
  then have "(l + n + 1 - s) mod n = (n - s) mod n" by simp
  then show ?thesis using l by simp
qed simp

lemma send_recv:
  assumes "2 \<le> n" "l < n" "t < 2 * (n - 1)"
  shows "ring_recv n t ((l + 1) mod n) = ring_send n t l" and "ring_recv n t r < n"
proof -
  show "ring_recv n t ((l + 1) mod n) = ring_send n t l"
  proof (cases "t < n - 1")
    case True
    have "((l + 1) mod n + n - Suc t) mod n = (l + n + 1 - Suc t) mod n"
      using assms True by (intro mod_wrap) auto
    then show ?thesis using True by (simp add: ring_recv_def ring_send_def)
  next
    case False
    then show ?thesis using assms mod_wrap [of l n "t - (n - 1)"] by (simp add: ring_recv_def ring_send_def)
  qed
  show "ring_recv n t r < n" using assms by (simp add: ring_recv_def)
qed

lemma recv_iff:
  assumes "2 \<le> n" "r < n" "j < n" "t < 2 * (n - 1)"
  shows "ring_recv n t r = j \<longleftrightarrow>
    (if t < n - 1 then ahead n j r = t + 1 else ahead n j ((r + 1) mod n) = t - (n - 1) + 1)"
proof (cases "t < n - 1")
  case True
  then show ?thesis using assms recv_ahead [of j n r t] by (simp add: ring_recv_def)
next
  case False
  define s where "s = t - (n - 1)"
  have s: "s + 1 < n" using False assms by (auto simp: s_def)
  have "((r + 1) mod n + n - s - 1) mod n = (r + n - s) mod n"
    using mod_wrap [of r n "Suc s"] assms s by simp
  then show ?thesis
    using False assms recv_ahead [of j n "(r + 1) mod n" s] s by (simp add: ring_recv_def s_def)
qed

text \<open>One round of the ring on the values.\<close>

lemma ring_val_step:
  assumes n: "2 \<le> n" and l: "l < n" and t: "t < 2 * (n - 1)" and i: "i < n * chunk"
  defines "r \<equiv> (l + 1) mod n"
  shows "ring_val f n chunk x (Suc t) r i =
    (if i div chunk = ring_recv n t r
     then (if t < n - 1 then f (ring_val f n chunk x t r i) (ring_val f n chunk x t l i)
           else ring_val f n chunk x t l i)
     else ring_val f n chunk x t r i)"
proof -
  define j where "j = i div chunk"
  have j: "j < n" and r: "r < n" using div_chunk [OF i] n by (auto simp: j_def r_def)
  note recv = recv_iff [OF n r j t] and left = ahead_left [OF j l, folded r_def]
  have le: "ahead n j q \<le> n - 1" for q using ahead_less [of n j q] n by simp
  show ?thesis
  proof (cases "t < n - 1")
    case True
    then have st: "t < n" "Suc t < n" by auto
    show ?thesis
    proof (cases "j = ring_recv n t r")
      case hit: True
      then have r': "ahead n j r = Suc t" using recv True by auto
      then have l': "ahead n j l = t" by (rule left)
      have "(j + Suc t) mod n = r" using ahead_add [OF j r] r' by simp
      then show ?thesis using hit True st r' l' by (simp add: ring_val_def Let_def flip: j_def)
    next
      case False
      then have "ahead n j r \<noteq> Suc t" using recv True by auto
      then show ?thesis using False True st by (auto simp: ring_val_def Let_def le_Suc_eq simp flip: j_def)
    qed
  next
    case False
    define s where "s = t - (n - 1)"
    have s: "t = n - 1 + s" "Suc t - (n - 1) = Suc s" using False by (auto simp: s_def)
    let ?e = "\<lambda>q. ahead n j ((q + 1) mod n)"
    have late: "ring_val f n chunk x t q i =
        (if ?e q \<le> s then partial f n x j i (n - 1) else partial f n x j i (ahead n j q))" if "q < n" for q
    proof (cases "s = 0")
      case True
      then have t: "t = n - 1" using s by simp
      have "?e q = 0 \<Longrightarrow> ahead n j q = n - 1"
        using j that n by (auto simp: ahead_eq mod_two split: if_splits)
      then show ?thesis using True t n le [of q] by (auto simp: ring_val_def Let_def simp flip: j_def)
    next
      case False
      then have "\<not> t < n" "t - (n - 1) = s" using s n by auto
      then show ?thesis by (simp add: ring_val_def Let_def flip: j_def)
    qed
    have next_val: "ring_val f n chunk x (Suc t) q i =
        (if ?e q \<le> Suc s then partial f n x j i (n - 1) else partial f n x j i (ahead n j q))" for q
    proof -
      have "\<not> Suc t < n" using False by auto
      then show ?thesis using s(2) by (simp add: ring_val_def Let_def flip: j_def)
    qed
    show ?thesis
    proof (cases "j = ring_recv n t r")
      case hit: True
      then have r': "?e r = Suc s" using recv False s by auto
      then have "?e l = s" using ahead_left [OF j r] by (simp add: r_def)
      then show ?thesis using hit False r' late [OF l] next_val [of r] by (simp flip: j_def)
    next
      case miss: False
      then have "?e r \<noteq> Suc s" using recv False s by auto
      then show ?thesis using miss late [OF r] next_val [of r] by (auto simp: le_Suc_eq simp flip: j_def)
    qed
  qed
qed

lemma foldl_update_range:
  "b + c \<le> length l \<Longrightarrow>
     length (foldl (\<lambda>l i. l[b + i := f (l ! (b + i)) (xs ! i)]) l [0..<c]) = length l \<and>
     (\<forall>q < length l. foldl (\<lambda>l i. l[b + i := f (l ! (b + i)) (xs ! i)]) l [0..<c] ! q =
        (if b \<le> q \<and> q < b + c then f (l ! q) (xs ! (q - b)) else l ! q))"
proof (induction c)
  case (Suc c)
  then have IH: "length (foldl (\<lambda>l i. l[b + i := f (l ! (b + i)) (xs ! i)]) l [0..<c]) = length l"
    "\<And>q. q < length l \<Longrightarrow> foldl (\<lambda>l i. l[b + i := f (l ! (b + i)) (xs ! i)]) l [0..<c] ! q =
        (if b \<le> q \<and> q < b + c then f (l ! q) (xs ! (q - b)) else l ! q)" by auto
  show ?case using Suc.prems by (auto simp: IH nth_list_update less_Suc_eq)
qed auto

lemma in_chunk: "0 < chunk \<Longrightarrow> (q :: nat) div chunk = j \<longleftrightarrow> j * chunk \<le> q \<and> q < j * chunk + chunk"
  by (metis add.commute div_nat_eqI dividend_less_times_div less_eq_div_iff_mult_less_eq
      mult.commute mult_Suc order_refl)

lemma chunk_fits: "(j :: nat) < n \<Longrightarrow> j * chunk + chunk \<le> n * chunk"
  by (metis Suc_leI add.commute mult_Suc mult_le_mono1)

definition ring_sent ::
    "(f32 \<Rightarrow> f32 \<Rightarrow> f32) \<Rightarrow> nat \<Rightarrow> nat \<Rightarrow> (nat \<Rightarrow> nat \<Rightarrow> f32) \<Rightarrow> nat \<Rightarrow> nat \<Rightarrow> f32 list" where
  "ring_sent f n chunk x t l = take chunk (drop (ring_send n t l * chunk) (ring_vals f n chunk x t l))"

lemma ring_send_less: "\<lbrakk>2 \<le> n; t < 2 * (n - 1); l < n\<rbrakk> \<Longrightarrow> ring_send n t l < n"
  by (simp add: ring_send_def)

lemma ring_sent_nth:
  assumes "2 \<le> n" "l < n" "t < 2 * (n - 1)"
  shows "length (ring_sent f n chunk x t l) = chunk"
    and "i < chunk \<Longrightarrow> ring_sent f n chunk x t l ! i = ring_val f n chunk x t l (ring_send n t l * chunk + i)"
proof -
  let ?a = "ring_send n t l * chunk" and ?vs = "ring_vals f n chunk x t l"
  have fits: "?a + chunk \<le> length ?vs"
    using chunk_fits [OF ring_send_less [OF assms(1,3,2)], of chunk] by simp
  then show "length (ring_sent f n chunk x t l) = chunk" by (simp add: ring_sent_def)
  assume i: "i < chunk"
  then have "ring_sent f n chunk x t l ! i = ?vs ! (?a + i)"
    unfolding ring_sent_def using fits by (simp del: length_ring_vals)
  then show "ring_sent f n chunk x t l ! i = ring_val f n chunk x t l (?a + i)"
    using fits i by (simp add: ring_vals_def)
qed

lemma ring_take_step:
  fixes ops :: float_ops and k :: reduce_kind
  assumes n: "2 \<le> n" and l: "l < n" and t: "t < 2 * (n - 1)" and c: "0 < chunk"
  defines "r \<equiv> (l + 1) mod n" and "f \<equiv> rk_fold ops k"
  assumes m: "rm_local m = ring_vals f n chunk x t r"
  shows "rm_local (ring_take ops k n chunk t r m (float_bytes (ring_sent f n chunk x t l))) =
    ring_vals f n chunk x (Suc t) r"
proof (rule nth_equalityI)
  let ?i = "ring_recv n t r"
  have recv: "?i = ring_send n t l" "?i < n" unfolding r_def using send_recv(1) [OF n l t] send_recv(2) [OF n l t] by blast+
  have fits: "?i * chunk + chunk \<le> n * chunk" using recv(2) by (rule chunk_fits)
  note sent = ring_sent_nth [OF n l t, where f = f and chunk = chunk and x = x]
  have dec: "decode_le (take (chunk * 4) (float_bytes (ring_sent f n chunk x t l))) = ring_sent f n chunk x t l"
    using sent(1) by simp
  note range = foldl_update_range [where b = "?i * chunk" and c = chunk and l = "rm_local m" and f = f and
    xs = "ring_sent f n chunk x t l"]
  have bound: "?i * chunk + chunk \<le> length (rm_local m)" using fits m by simp
  show len: "length (rm_local (ring_take ops k n chunk t r m (float_bytes (ring_sent f n chunk x t l)))) =
      length (ring_vals f n chunk x (Suc t) r)"
    using range [OF bound] m bound sent(1) length_splice [of "?i * chunk" "ring_sent f n chunk x t l" "rm_local m"]
    by (simp add: ring_take_def fold_chunk_def copy_chunk_def dec f_def)
  fix q assume "q < length (rm_local (ring_take ops k n chunk t r m (float_bytes (ring_sent f n chunk x t l))))"
  then have q: "q < n * chunk" using len by simp
  have lq: "rm_local m ! q = ring_val f n chunk x t r q" using q m by (simp add: ring_vals_def)
  have hit: "ring_sent f n chunk x t l ! (q - ?i * chunk) = ring_val f n chunk x t l q" if "q div chunk = ?i"
  proof -
    have b: "?i * chunk \<le> q" "q < ?i * chunk + chunk" using that in_chunk [OF c, of q ?i] by auto
    then have "q - ?i * chunk < chunk" by simp
    from sent(2) [OF this] show ?thesis using b recv(1) by simp
  qed
  have "rm_local (ring_take ops k n chunk t r m (float_bytes (ring_sent f n chunk x t l))) ! q =
      (if q div chunk = ?i
       then (if t < n - 1 then f (ring_val f n chunk x t r q) (ring_val f n chunk x t l q)
             else ring_val f n chunk x t l q)
       else ring_val f n chunk x t r q)"
  proof (cases "t < n - 1")
    case True
    then show ?thesis
      using range [OF bound] q m in_chunk [OF c, of q ?i] hit lq
      by (auto simp: ring_take_def fold_chunk_def dec simp flip: f_def)
  next
    case False
    have "splice (?i * chunk) (ring_sent f n chunk x t l) (rm_local m) ! q =
        (if q div chunk = ?i then ring_val f n chunk x t l q else ring_val f n chunk x t r q)"
      using splice_nth [of "?i * chunk" "ring_sent f n chunk x t l" "rm_local m" q] bound sent(1) q m
        in_chunk [OF c, of q ?i] hit lq by auto
    then show ?thesis using False by (simp add: ring_take_def copy_chunk_def dec)
  qed
  also have "\<dots> = ring_val f n chunk x (Suc t) r q"
    unfolding r_def using ring_val_step [OF n l t q, where f = f and x = x] by simp
  finally show "rm_local (ring_take ops k n chunk t r m (float_bytes (ring_sent f n chunk x t l))) ! q =
      ring_vals f n chunk x (Suc t) r ! q"
    using q by (simp add: ring_vals_def)
qed

section \<open>The ring under every interleaving\<close>

text \<open>The parameters of one call, and where a rank can be in round \<open>t\<close>.\<close>

record ring_call =
  rc_ops :: float_ops
  rc_kind :: reduce_kind
  rc_ranks :: nat
  rc_offset :: nat
  rc_chunk :: nat
  rc_input :: "nat \<Rightarrow> nat \<Rightarrow> f32"

abbreviation rc_fold :: "ring_call \<Rightarrow> f32 \<Rightarrow> f32 \<Rightarrow> f32" where
  "rc_fold c \<equiv> rk_fold (rc_ops c) (rc_kind c)"

definition rc_box :: "ring_call \<Rightarrow> nat \<Rightarrow> sym_buffer" where
  "rc_box c r = mailbox (rc_offset c) (rc_chunk c * 4) r"

definition rc_rest :: "ring_call \<Rightarrow> nat \<Rightarrow> nat \<Rightarrow> instr list" where
  "rc_rest c r t = ring_rest (rc_ops c) (rc_kind c) (rc_ranks c) (rc_offset c) (rc_chunk c) r t"

definition rc_vals :: "ring_call \<Rightarrow> nat \<Rightarrow> nat \<Rightarrow> f32 list" where
  "rc_vals c t r = ring_vals (rc_fold c) (rc_ranks c) (rc_chunk c) (rc_input c) t r"

definition rc_sent :: "ring_call \<Rightarrow> nat \<Rightarrow> nat \<Rightarrow> bytes" where
  "rc_sent c t l = float_bytes (ring_sent (rc_fold c) (rc_ranks c) (rc_chunk c) (rc_input c) t l)"

abbreviation rc_right :: "ring_call \<Rightarrow> nat \<Rightarrow> nat" where
  "rc_right c r \<equiv> (r + 1) mod rc_ranks c"

abbreviation rc_rounds :: "ring_call \<Rightarrow> nat" where
  "rc_rounds c \<equiv> 2 * (rc_ranks c - 1)"

definition rc_result :: "ring_call \<Rightarrow> nat \<Rightarrow> f32 list" where
  "rc_result c r = rm_local (ring_finish (rc_ops c) (rc_kind c) (rc_ranks c)
     \<lparr>rm_local = rc_vals c (rc_rounds c) r, rm_acc = [], rm_output = []\<rparr>)"

definition at :: "rank_state \<Rightarrow> instr list \<Rightarrow> f32 list \<Rightarrow> bool" where
  "at st is vals \<longleftrightarrow> (\<exists>m. st = Running is m \<and> rm_local m = vals)"

definition in_send :: "ring_call \<Rightarrow> nat \<Rightarrow> sym_heap \<Rightarrow> nat \<Rightarrow> rank_state \<Rightarrow> bool" where
  "in_send c t h r st \<longleftrightarrow> at st (rc_rest c r t) (rc_vals c t r) \<or>
     at st (drop 1 (rc_rest c r t)) (rc_vals c t r) \<and> heap_region h (rc_box c (rc_right c r)) = rc_sent c t r"

definition in_take :: "ring_call \<Rightarrow> nat \<Rightarrow> sym_heap \<Rightarrow> nat \<Rightarrow> rank_state \<Rightarrow> bool" where
  "in_take c t h r st \<longleftrightarrow> heap_region h (rc_box c (rc_right c r)) = rc_sent c t r \<and>
     (at st (drop 2 (rc_rest c r t)) (rc_vals c t r) \<or> at st (drop 3 (rc_rest c r t)) (rc_vals c (Suc t) r))"

definition in_end :: "ring_call \<Rightarrow> nat \<Rightarrow> rank_state \<Rightarrow> bool" where
  "in_end c r st \<longleftrightarrow> at st (rc_rest c r (rc_rounds c)) (rc_vals c (rc_rounds c) r) \<or> at st [] (rc_result c r)"

definition ring_ok :: "ring_call \<Rightarrow> world \<Rightarrow> bool" where
  "ring_ok c w \<longleftrightarrow> (case w of (h, rs) \<Rightarrow>
     2 \<le> rc_ranks c \<and> 0 < rc_chunk c \<and> heap_ok h \<and> length rs = rc_ranks c \<and>
     (\<forall>r < rc_ranks c. fits h (rc_box c r)) \<and>
     ((\<exists>t < rc_rounds c. (\<forall>r < rc_ranks c. in_send c t h r (rs ! r)) \<or>
         (\<forall>r < rc_ranks c. in_take c t h r (rs ! r))) \<or>
      (\<forall>r < rc_ranks c. in_end c r (rs ! r))))"

lemma rc_rest_unfold:
  "t < rc_rounds c \<Longrightarrow> rc_rest c r t =
    Put (rc_box c (rc_right c r)) (send_chunk (rc_chunk c) (ring_send (rc_ranks c) t r)) # Barrier #
    Get (rc_box c r) (rc_chunk c * 4) (ring_take (rc_ops c) (rc_kind c) (rc_ranks c) (rc_chunk c) t r) # Barrier #
    rc_rest c r (Suc t)"
  by (simp add: rc_rest_def rc_box_def ring_rest_unfold)

lemma rc_rest_last:
  "rc_rest c r (rc_rounds c) = [Compute (ring_finish (rc_ops c) (rc_kind c) (rc_ranks c))]"
  unfolding rc_rest_def by (rule ring_rest_last)

lemma atE: "\<lbrakk>at st is vals; st = Running js m\<rbrakk> \<Longrightarrow> js = is \<and> rm_local m = vals"
  by (auto simp: at_def)

lemma atI: "rm_local m = vals \<Longrightarrow> at (Running is m) is vals"
  by (auto simp: at_def)

lemma send_bytes:
  assumes "2 \<le> rc_ranks c" "r < rc_ranks c" "t < rc_rounds c" "rm_local m = rc_vals c t r"
  shows "send_chunk (rc_chunk c) (ring_send (rc_ranks c) t r) m = Some (rc_sent c t r)"
    and "length (rc_sent c t r) = rc_chunk c * 4"
  using assms ring_sent_nth(1) [OF assms(1-3), of "rc_fold c" "rc_chunk c" "rc_input c"]
  by (auto simp: send_chunk_def rc_sent_def rc_vals_def ring_sent_def raw_bytes_whole)

lemma box_len [simp]: "sb_len (rc_box c r) = rc_chunk c * 4" "sb_rank (rc_box c r) = r"
  by (simp_all add: rc_box_def mailbox_def)

lemma right_inj: "\<lbrakk>r < n; q < n; (r + 1) mod n = (q + 1) mod n\<rbrakk> \<Longrightarrow> r = (q :: nat)"
  by (auto simp: mod_two split: if_splits)

text \<open>Each kind of step keeps the invariant.\<close>

lemma own_in_send:
  assumes ok: "2 \<le> rc_ranks c" "heap_ok h" "\<forall>r < rc_ranks c. fits h (rc_box c r)" "length rs = rc_ranks c"
    and t: "t < rc_rounds c" and all: "\<forall>r < rc_ranks c. in_send c t h r (rs ! r)"
    and r: "r < length rs" "rs ! r = Running (i # is) m" "i \<noteq> Barrier" "own_step h i is m = (h', st)"
  shows "heap_ok h' \<and> (\<forall>r < rc_ranks c. fits h' (rc_box c r)) \<and>
    (\<forall>q < rc_ranks c. in_send c t h' q (rs[r := st] ! q))"
proof -
  have rn: "r < rc_ranks c" using r ok by simp
  note unf = rc_rest_unfold [OF t]
  have "\<not> at (rs ! r) (drop 1 (rc_rest c r t)) (rc_vals c t r)"
    using r(2,3) unfolding unf by (auto simp: at_def)
  then have "at (rs ! r) (rc_rest c r t) (rc_vals c t r)" using all rn by (auto simp: in_send_def)
  then have eq: "i # is = rc_rest c r t" "rm_local m = rc_vals c t r" using r(2) by (auto dest: atE)
  then have i: "i = Put (rc_box c (rc_right c r)) (send_chunk (rc_chunk c) (ring_send (rc_ranks c) t r))"
    and "is": "is = drop 1 (rc_rest c r t)" unfolding unf by auto
  note sb = send_bytes [OF ok(1) rn t eq(2)]
  have right: "rc_right c r < rc_ranks c" using ok(1) by simp
  obtain h2 where put: "sym_put h (rc_box c (rc_right c r)) (rc_sent c t r) = Ok h2" "heap_ok h2"
    "heap_region h2 (rc_box c (rc_right c r)) = rc_sent c t r"
    "\<And>buf. sb_rank buf \<noteq> sb_rank (rc_box c (rc_right c r)) \<Longrightarrow> heap_region h2 buf = heap_region h buf"
    "\<And>buf. fits h2 buf = fits h buf"
    using ok(3) right by (elim allE [of _ "rc_right c r"]) (rule sym_put_fits [OF ok(2), of "rc_box c (rc_right c r)" "rc_sent c t r"];
      simp add: sb(2))
  have st: "h' = h2" "st = Running is m" using r(4) unfolding i own_step.simps sb(1) option.case put(1) outcome.case by simp_all
  have "in_send c t h2 q (rs[r := st] ! q)" if q: "q < rc_ranks c" for q
  proof (cases "q = r")
    case True
    have "at st (drop 1 (rc_rest c r t)) (rc_vals c t r)" unfolding st "is" by (rule atI [OF eq(2)])
    then show ?thesis using True r(1) put(3) by (simp add: in_send_def)
  next
    case False
    then have "rc_right c q \<noteq> rc_right c r" using right_inj [OF q rn] by blast
    then have "heap_region h2 (rc_box c (rc_right c q)) = heap_region h (rc_box c (rc_right c q))"
      by (intro put(4)) simp
    then show ?thesis using all q False by (simp add: in_send_def)
  qed
  then show ?thesis using put(2,5) ok(3) st(1) by simp
qed

lemma own_in_take:
  assumes ok: "2 \<le> rc_ranks c" "0 < rc_chunk c" "\<forall>r < rc_ranks c. fits h (rc_box c r)" "length rs = rc_ranks c"
    and t: "t < rc_rounds c" and all: "\<forall>r < rc_ranks c. in_take c t h r (rs ! r)"
    and r: "r < length rs" "rs ! r = Running (i # is) m" "i \<noteq> Barrier" "own_step h i is m = (h', st)"
  shows "h' = h \<and> (\<forall>q < rc_ranks c. in_take c t h q (rs[r := st] ! q))"
proof -
  have rn: "r < rc_ranks c" using r ok by simp
  note unf = rc_rest_unfold [OF t]
  have "\<not> at (rs ! r) (drop 3 (rc_rest c r t)) (rc_vals c (Suc t) r)"
    using r(2,3) unfolding unf by (auto simp: at_def numeral_3_eq_3)
  then have "at (rs ! r) (drop 2 (rc_rest c r t)) (rc_vals c t r)" using all rn by (auto simp: in_take_def)
  then have eq: "i # is = drop 2 (rc_rest c r t)" "rm_local m = rc_vals c t r" using r(2) by (auto dest: atE)
  then have i: "i = Get (rc_box c r) (rc_chunk c * 4) (ring_take (rc_ops c) (rc_kind c) (rc_ranks c) (rc_chunk c) t r)"
    and "is": "is = drop 3 (rc_rest c r t)" unfolding unf by (auto simp: numeral_2_eq_2 numeral_3_eq_3)
  define l where "l = (if r = 0 then rc_ranks c - 1 else r - 1)"
  have l: "l < rc_ranks c" "rc_right c l = r" using rn ok(1) by (auto simp: l_def)
  have "heap_region h (rc_box c r) = rc_sent c t l" using all l by (auto simp: in_take_def)
  then have get: "sym_get h (rc_box c r) (rc_chunk c * 4) = Ok (rc_sent c t l)"
    using sym_get_fits [of h "rc_box c r" "rc_chunk c * 4"] ok(3) rn by simp
  let ?m = "ring_take (rc_ops c) (rc_kind c) (rc_ranks c) (rc_chunk c) t r m (rc_sent c t l)"
  have st: "h' = h" "st = Running is ?m" using r(4) by (simp_all add: i get)
  have "rm_local ?m = rc_vals c (Suc t) r"
    using ring_take_step [OF ok(1) l(1) t ok(2), of m "rc_ops c" "rc_kind c" "rc_input c"] eq(2) l(2)
    by (simp add: rc_vals_def rc_sent_def)
  then have "at st (drop 3 (rc_rest c r t)) (rc_vals c (Suc t) r)" unfolding st "is" by (rule atI)
  then show ?thesis using all st(1) r(1) by (auto simp: in_take_def nth_list_update)
qed

lemma own_in_end:
  assumes "length rs = rc_ranks c" and all: "\<forall>r < rc_ranks c. in_end c r (rs ! r)"
    and r: "r < length rs" "rs ! r = Running (i # is) m" "own_step h i is m = (h', st)"
  shows "h' = h \<and> (\<forall>q < rc_ranks c. in_end c q (rs[r := st] ! q))"
proof -
  have rn: "r < rc_ranks c" using r assms(1) by simp
  have "\<not> at (rs ! r) [] (rc_result c r)" using r(2) by (auto simp: at_def)
  then have "at (rs ! r) (rc_rest c r (rc_rounds c)) (rc_vals c (rc_rounds c) r)"
    using all rn by (auto simp: in_end_def)
  then have "i # is = [Compute (ring_finish (rc_ops c) (rc_kind c) (rc_ranks c))]"
    and m: "rm_local m = rc_vals c (rc_rounds c) r"
    using r(2) unfolding rc_rest_last by (auto dest: atE)
  then have st: "h' = h" "st = Running [] (ring_finish (rc_ops c) (rc_kind c) (rc_ranks c) m)" using r(3) by auto
  have "rm_local (ring_finish (rc_ops c) (rc_kind c) (rc_ranks c) m) = rc_result c r"
    using m by (simp add: rc_result_def ring_finish_def)
  then have "at st [] (rc_result c r)" unfolding st by (rule atI)
  then show ?thesis using all st(1) r(1) by (auto simp: in_end_def nth_list_update)
qed

lemma at_barrier_at: "at st is vals \<Longrightarrow> at_barrier st \<longleftrightarrow> (\<exists>js. is = Barrier # js)"
  by (auto simp: at_def at_barrier_def split: list.splits instr.splits)

lemma at_pass: "at st is vals \<Longrightarrow> at (pass_barrier st) (tl is) vals"
  by (auto simp: at_def)

lemma meet_in_send:
  assumes t: "t < rc_rounds c" and "in_send c t h r st" "at_barrier st"
  shows "in_take c t h r (pass_barrier st)"
proof -
  note unf = rc_rest_unfold [OF t, of r]
  have "\<not> at st (rc_rest c r t) (rc_vals c t r)"
    using assms(3) at_barrier_at unfolding unf by fastforce
  then have "at st (drop 1 (rc_rest c r t)) (rc_vals c t r)" "heap_region h (rc_box c (rc_right c r)) = rc_sent c t r"
    using assms(2) by (auto simp: in_send_def)
  moreover from at_pass [OF this(1)] have "at (pass_barrier st) (drop 2 (rc_rest c r t)) (rc_vals c t r)"
    by (simp add: numeral_2_eq_2 drop_Suc tl_drop [symmetric])
  ultimately show ?thesis by (simp add: in_take_def)
qed

lemma meet_in_take:
  assumes t: "t < rc_rounds c" and "in_take c t h r st" "at_barrier st"
  shows "at (pass_barrier st) (rc_rest c r (Suc t)) (rc_vals c (Suc t) r)"
proof -
  note unf = rc_rest_unfold [OF t, of r]
  have "\<not> at st (drop 2 (rc_rest c r t)) (rc_vals c t r)"
    using assms(3) at_barrier_at unfolding unf by (fastforce simp: numeral_2_eq_2)
  then have "at st (drop 3 (rc_rest c r t)) (rc_vals c (Suc t) r)" using assms(2) by (auto simp: in_take_def)
  from at_pass [OF this] show ?thesis unfolding unf by (simp add: numeral_3_eq_3)
qed

lemma end_no_barrier:
  assumes "in_end c r st"
  shows "\<not> at_barrier st"
  using assms at_barrier_at unfolding in_end_def rc_rest_last by fastforce

lemma ring_ok_meet:
  assumes ok: "ring_ok c (h, rs)" and all: "\<forall>st \<in> set rs. at_barrier st"
  shows "ring_ok c (h, map pass_barrier rs)"
proof -
  have len: "length rs = rc_ranks c" "2 \<le> rc_ranks c" using ok by (auto simp: ring_ok_def)
  have bar: "at_barrier (rs ! r)" if "r < rc_ranks c" for r using all len that by simp
  have pass: "map pass_barrier rs ! r = pass_barrier (rs ! r)" if "r < rc_ranks c" for r
    using len that by simp
  have "\<not> (\<forall>r < rc_ranks c. in_end c r (rs ! r))" using end_no_barrier bar len(2) by force
  then obtain t where t: "t < rc_rounds c" and "(\<forall>r < rc_ranks c. in_send c t h r (rs ! r)) \<or>
      (\<forall>r < rc_ranks c. in_take c t h r (rs ! r))"
    using ok by (auto simp: ring_ok_def)
  then show ?thesis
  proof (elim disjE)
    assume "\<forall>r < rc_ranks c. in_send c t h r (rs ! r)"
    then have "\<forall>r < rc_ranks c. in_take c t h r (map pass_barrier rs ! r)"
      using meet_in_send [OF t] bar pass by simp
    then show ?thesis using ok t by (auto simp: ring_ok_def)
  next
    assume "\<forall>r < rc_ranks c. in_take c t h r (rs ! r)"
    then have next_round: "\<forall>r < rc_ranks c. at (map pass_barrier rs ! r) (rc_rest c r (Suc t)) (rc_vals c (Suc t) r)"
      by (metis meet_in_take [OF t] bar pass)
    show ?thesis
    proof (cases "Suc t < rc_rounds c")
      case True
      then show ?thesis using ok next_round by (auto simp: ring_ok_def in_send_def)
    next
      case False
      then have "Suc t = rc_rounds c" using t by simp
      then show ?thesis using ok next_round by (auto simp: ring_ok_def in_end_def)
    qed
  qed
qed

lemma ring_ok_own:
  assumes ok: "ring_ok c (h, rs)"
    and r: "r < length rs" "rs ! r = Running (i # is) m" "i \<noteq> Barrier" "own_step h i is m = (h', st)"
  shows "ring_ok c (h', rs[r := st])"
proof -
  have b: "2 \<le> rc_ranks c" "0 < rc_chunk c" "heap_ok h" "length rs = rc_ranks c"
    "\<forall>r < rc_ranks c. fits h (rc_box c r)" using ok by (auto simp: ring_ok_def)
  consider (send) t where "t < rc_rounds c" "\<forall>r < rc_ranks c. in_send c t h r (rs ! r)"
    | (recv) t where "t < rc_rounds c" "\<forall>r < rc_ranks c. in_take c t h r (rs ! r)"
    | (over) "\<forall>r < rc_ranks c. in_end c r (rs ! r)"
    using ok unfolding ring_ok_def by blast
  then show ?thesis
  proof cases
    case send
    then show ?thesis using own_in_send [OF b(1,3,5,4) send r] b by (auto simp: ring_ok_def)
  next
    case recv
    then show ?thesis using own_in_take [OF b(1,2,5,4) recv r] b by (auto simp: ring_ok_def)
  next
    case over
    then show ?thesis using own_in_end [OF b(4) over r(1,2,4)] b by (simp add: ring_ok_def)
  qed
qed

lemma ring_ok_step: "\<lbrakk>world_step w w'; ring_ok c w\<rbrakk> \<Longrightarrow> ring_ok c w'"
  by (erule world_stepE) (auto intro: ring_ok_own ring_ok_meet)

lemma ring_ok_run: "\<lbrakk>world_run w k w'; ring_ok c w\<rbrakk> \<Longrightarrow> ring_ok c w'"
  by (induction rule: world_run.induct) (auto intro: ring_ok_step)

text \<open>Where the invariant holds nobody failed, and somebody can move unless all are done.\<close>

lemma ring_ok_running:
  assumes "ring_ok c (h, rs)" "r < rc_ranks c"
  shows "\<exists>is m. rs ! r = Running is m"
  using assms unfolding ring_ok_def in_send_def in_take_def in_end_def at_def by fastforce

lemma ring_ok_progress:
  assumes ok: "ring_ok c (h, rs)" and stuck: "\<nexists>w. world_step (h, rs) w"
  shows "\<forall>r < rc_ranks c. at (rs ! r) [] (rc_result c r)"
proof -
  have len: "length rs = rc_ranks c" "2 \<le> rc_ranks c" using ok by (auto simp: ring_ok_def)
  have idle: "\<exists>js. is = Barrier # js" if r: "r < rc_ranks c" "at (rs ! r) is v" "is \<noteq> []" for r "is" v
  proof (rule ccontr)
    assume no: "\<nexists>js. is = Barrier # js"
    obtain i js where js: "is = i # js" using r(3) by (cases "is") auto
    obtain m where m: "rs ! r = Running (i # js) m" using r(2) js by (auto simp: at_def)
    obtain h' st where "own_step h i js m = (h', st)" by fastforce
    then have "world_step (h, rs) (h', rs[r := st])" using r len m no js by (intro world_step.Own) auto
    then show False using stuck by blast
  qed
  have meet: "\<not> (\<forall>r < rc_ranks c. at_barrier (rs ! r))"
  proof
    assume a: "\<forall>r < rc_ranks c. at_barrier (rs ! r)"
    have "rs \<noteq> []" using len by auto
    moreover have "\<forall>st \<in> set rs. at_barrier st" using a len by (auto simp: in_set_conv_nth)
    ultimately have "world_step (h, rs) (h, map pass_barrier rs)" by (rule world_step.Meet)
    then show False using stuck by blast
  qed
  have "at_barrier (rs ! r)" if t: "t < rc_rounds c" and r: "r < rc_ranks c"
    and s: "in_send c t h r (rs ! r) \<or> in_take c t h r (rs ! r)" for t r
  proof -
    note unf = rc_rest_unfold [OF t, of r]
    from s obtain "is" v where a: "at (rs ! r) is v" and "is \<noteq> []"
      unfolding in_send_def in_take_def unf by (auto simp: numeral_2_eq_2 numeral_3_eq_3)
    then show ?thesis using idle [OF r a] at_barrier_at [OF a] by blast
  qed
  then have e: "\<forall>r < rc_ranks c. in_end c r (rs ! r)" using ok meet unfolding ring_ok_def by auto
  then show ?thesis using idle unfolding in_end_def rc_rest_last by fastforce
qed

section \<open>The length of a run\<close>

fun to_do :: "rank_state \<Rightarrow> nat" where
  "to_do (Running is m) = length is"
| "to_do _ = 0"

lemma own_step_to_do: "\<lbrakk>own_step h i is m = (h', st); i \<noteq> Barrier\<rbrakk> \<Longrightarrow> to_do st \<le> length is"
  by (cases i) (auto split: option.splits outcome.splits)

lemma sum_list_less:
  fixes f g :: "'a \<Rightarrow> nat"
  shows "\<lbrakk>xs \<noteq> []; \<forall>x \<in> set xs. f x < g x\<rbrakk> \<Longrightarrow> (\<Sum>x \<leftarrow> xs. f x) < (\<Sum>x \<leftarrow> xs. g x)"
proof (induction xs)
  case (Cons x xs)
  then show ?case by (cases xs) (auto intro: add_less_mono)
qed simp

lemma world_step_to_do:
  "world_step (h, rs) (h', rs') \<Longrightarrow> sum_list (map to_do rs') < sum_list (map to_do rs)"
proof (erule world_stepE; clarsimp)
  fix r i "is" m st
  assume r: "r < length rs" "rs ! r = Running (i # is) m" "i \<noteq> Barrier" "own_step h i is m = (h', st)"
  have "sum_list (map to_do (rs[r := st])) + to_do (rs ! r) = sum_list (map to_do rs) + to_do st"
    using r(1) by (induction rs arbitrary: r) (auto simp: nth_Cons split: nat.splits)
  then show "sum_list (map to_do (rs[r := st])) < sum_list (map to_do rs)"
    using own_step_to_do [OF r(4,3)] r(2) by simp
next
  assume "rs \<noteq> []" "\<forall>st \<in> set rs. at_barrier st"
  moreover have "at_barrier st \<Longrightarrow> to_do (pass_barrier st) < to_do st" for st
    by (auto simp: at_barrier_def split: rank_state.splits list.splits)
  ultimately show "sum_list (map (to_do \<circ> pass_barrier) rs) < sum_list (map to_do rs)"
    using sum_list_less [of rs "to_do \<circ> pass_barrier" to_do] by (simp add: comp_def)
qed

lemma world_run_to_do: "world_run w k w' \<Longrightarrow> sum_list (map to_do (snd w')) + k \<le> sum_list (map to_do (snd w))"
proof (induction rule: world_run.induct)
  case (Go k w w')
  then show ?case using world_step_to_do [of "fst w" "snd w" "fst w'" "snd w'"] by simp
qed simp

section \<open>What the ring computes\<close>

text \<open>
  The reduction of index \<open>i\<close> as the ring computes it: from the rank whose number is that of
  the chunk, once around.
\<close>

definition ring_value :: "(f32 \<Rightarrow> f32 \<Rightarrow> f32) \<Rightarrow> nat \<Rightarrow> nat \<Rightarrow> (nat \<Rightarrow> nat \<Rightarrow> f32) \<Rightarrow> nat \<Rightarrow> f32" where
  "ring_value f n chunk x i =
     (let j = i div chunk in foldl (\<lambda>acc r. f (x (r mod n) i) acc) (x j i) [j + 1..<j + n])"

lemma partial_foldl:
  "partial f n x j i d = foldl (\<lambda>acc r. f (x (r mod n) i) acc) (x j i) [Suc j..<Suc (j + d)]"
  by (induction d) auto

lemma rc_vals_last:
  assumes "2 \<le> rc_ranks c"
  shows "rc_vals c (rc_rounds c) r =
    map (ring_value (rc_fold c) (rc_ranks c) (rc_chunk c) (rc_input c)) [0..<rc_ranks c * rc_chunk c]"
proof -
  let ?n = "rc_ranks c"
  have "ahead ?n j q \<le> ?n - 1" for j q using ahead_less [of ?n j q] assms by simp
  then have "ring_val f ?n (rc_chunk c) x (rc_rounds c) r i = partial f ?n x (i div rc_chunk c) i (?n - 1)" for f x i
  proof -
    have "\<not> rc_rounds c < ?n" "rc_rounds c - (?n - 1) = ?n - 1" using assms by auto
    then show ?thesis unfolding ring_val_def Let_def using \<open>\<And>j q. ahead ?n j q \<le> ?n - 1\<close> by simp
  qed
  moreover have "partial f ?n x (i div rc_chunk c) i (?n - 1) = ring_value f ?n (rc_chunk c) x i" for f x i
  proof -
    have "Suc (i div rc_chunk c + (?n - 1)) = i div rc_chunk c + ?n" using assms by simp
    then show ?thesis by (simp only: partial_foldl ring_value_def Let_def Suc_eq_plus1)
  qed
  ultimately show ?thesis by (simp add: rc_vals_def ring_vals_def)
qed

lemma rc_result_eq:
  assumes "2 \<le> rc_ranks c"
  shows "rc_result c r = map (\<lambda>i. rk_finalize (rc_ops c) (rc_kind c)
      (ring_value (rc_fold c) (rc_ranks c) (rc_chunk c) (rc_input c) i) (rc_ranks c)) [0..<rc_ranks c * rc_chunk c]"
  using rc_vals_last [OF assms, of r]
  by (cases "rc_kind c") (simp_all add: rc_result_def ring_finish_def rk_finalize_def comp_def)

lemma length_rc_rest: "length (rc_rest c r 0) = 8 * (rc_ranks c - 1) + 1"
proof -
  have "length (ring_round ops k n off chunk me t) = 4" for ops k n off chunk me t
    by (simp add: ring_round_def reduce_round_def gather_round_def)
  then show ?thesis by (simp add: rc_rest_def ring_rest_def length_concat comp_def sum_list_triv)
qed

lemma rc_vals_first: "1 < rc_ranks c \<Longrightarrow> r < rc_ranks c \<Longrightarrow>
    rc_vals c 0 r = map (rc_input c r) [0..<rc_ranks c * rc_chunk c]"
proof -
  assume n: "1 < rc_ranks c" "r < rc_ranks c"
  have "ring_val f (rc_ranks c) (rc_chunk c) x 0 r i = x r i" if "i < rc_ranks c * rc_chunk c" for f x i
  proof -
    have "ahead (rc_ranks c) (i div rc_chunk c) r = 0 \<Longrightarrow> i div rc_chunk c = r"
      using div_chunk [OF that] n by (auto simp: ahead_eq split: if_splits)
    then show ?thesis using n by (auto simp: ring_val_def Let_def)
  qed
  then show "rc_vals c 0 r = map (rc_input c r) [0..<rc_ranks c * rc_chunk c]"
    by (auto simp: rc_vals_def ring_vals_def intro: map_cong)
qed

text \<open>The ranks with their programs and contributions.\<close>

definition launched ::
    "nat \<Rightarrow> (nat \<Rightarrow> (collective_error, instr list) outcome) \<Rightarrow> (nat \<Rightarrow> nat \<Rightarrow> f32) \<Rightarrow> nat \<Rightarrow> rank_state list \<Rightarrow> bool" where
  "launched n prog x len rs \<longleftrightarrow> length rs = n \<and>
     (\<forall>r < n. \<exists>is m. prog r = Ok is \<and> rs ! r = Running is m \<and> rm_local m = map (x r) [0..<len])"

lemma ring_all_reduce_outcome:
  assumes "2 \<le> n" "0 < chunk" and "heap_ok h" "num_ranks h = n" "off + chunk * 4 \<le> sh_size h"
    and "launched n (\<lambda>r. ring_all_reduce ops n r off (n * chunk) k) x (n * chunk) rs"
    and "world_run (h, rs) steps w"
  shows "steps \<le> n * (8 * (n - 1) + 1) \<and> (\<forall>r < n. \<exists>is m. snd w ! r = Running is m) \<and>
    ((\<nexists>w'. world_step w w') \<longrightarrow> (\<forall>r < n. \<exists>m. snd w ! r = Running [] m \<and> rm_local m =
       map (\<lambda>i. rk_finalize ops k (ring_value (rk_fold ops k) n chunk x i) n) [0..<n * chunk]))"
proof -
  define c where "c = \<lparr>rc_ops = ops, rc_kind = k, rc_ranks = n, rc_offset = off, rc_chunk = chunk, rc_input = x\<rparr>"
  have c: "rc_ranks c = n" "rc_chunk c = chunk" "rc_ops c = ops" "rc_kind c = k" "rc_input c = x"
    by (simp_all add: c_def)
  have start: "at (rs ! r) (rc_rest c r 0) (rc_vals c 0 r)" if "r < n" for r
    using assms(1,6) that rc_vals_first [of c r]
    by (auto simp: launched_def ring_all_reduce_prog at_def rc_rest_def c_def)
  have len: "length rs = n" using assms(6) by (simp add: launched_def)
  have "ring_ok c (h, rs)"
    using assms(1-5) start len
    by (auto simp: ring_ok_def c fits_def in_send_def rc_box_def mailbox_def c_def intro!: exI [of _ 0])
  then have ok: "ring_ok c (fst w, snd w)" using ring_ok_run [OF assms(7)] by simp
  have "to_do (rs ! r) = 8 * (n - 1) + 1" if "r < n" for r
    using start [OF that] length_rc_rest [of c r] by (auto simp: at_def c)
  then have "map to_do rs = replicate n (8 * (n - 1) + 1)"
    using len by (auto intro: nth_equalityI)
  then have "steps \<le> n * (8 * (n - 1) + 1)"
    using world_run_to_do [OF assms(7)] by (simp add: sum_list_replicate)
  moreover have "\<exists>is m. snd w ! r = Running is m" if "r < n" for r
    using ring_ok_running [OF ok, of r] that c by simp
  moreover have "\<exists>m. snd w ! r = Running [] m \<and> rm_local m =
      map (\<lambda>i. rk_finalize ops k (ring_value (rk_fold ops k) n chunk x i) n) [0..<n * chunk]"
    if "\<nexists>w'. world_step w w'" "r < n" for r
  proof -
    have "at (snd w ! r) [] (rc_result c r)" using ring_ok_progress [OF ok] that c by simp
    then show ?thesis using rc_result_eq [of c r] assms(1) by (simp add: c at_def)
  qed
  ultimately show ?thesis by blast
qed

text \<open>
  C11. However the ranks of a ring all-reduce are interleaved, none fails and none reads past its
  slice, the run ends, and when nothing can move any more every rank is done and holds the
  same reduction of all contributions.
\<close>

theorem ring_all_reduce_correct:
  assumes "2 \<le> n" "0 < chunk" and "heap_ok h" "num_ranks h = n" "off + chunk * 4 \<le> sh_size h"
    and "launched n (\<lambda>r. ring_all_reduce ops n r off (n * chunk) k) x (n * chunk) rs"
    and "world_run (h, rs) steps w"
  shows "steps \<le> n * (8 * (n - 1) + 1) \<and> (\<forall>r < n. \<exists>is m. snd w ! r = Running is m) \<and>
    ((\<nexists>w'. world_step w w') \<longrightarrow> (\<forall>r < n. \<exists>m. snd w ! r = Running [] m \<and> rm_local m =
       map (\<lambda>i. rk_finalize ops k (ring_value (rk_fold ops k) n chunk x i) n) [0..<n * chunk]))"
  using ring_all_reduce_outcome [OF assms] .

end
