(* ===== verification/Exchange.thy ===== *)
theory Exchange
  imports CollectiveLaws "HOL-Library.Multiset"
begin

text \<open>
  The direct collectives: every rank puts its contribution into its own slot, all meet at a
  barrier, and then each rank reads the slots. Under every interleaving of one call each rank
  ends with the reduction, the concatenation or its part of the reduction, and where the order
  of a reduction does not matter the ring agrees with the direct one. Two calls in a row race:
  nothing keeps a fast rank from overwriting its slot while a slow one still reads.
\<close>

section \<open>One exchange\<close>

text \<open>What follows the barrier: reads of slots and computation, nothing shared is written.\<close>

definition private_instr :: "nat \<Rightarrow> sym_buffer \<Rightarrow> instr \<Rightarrow> bool" where
  "private_instr n buf i \<longleftrightarrow>
     (case i of Get b len f \<Rightarrow> (\<exists>q < n. b = buf\<lparr>sb_rank := q\<rparr>) \<and> len = sb_len buf
      | Compute f \<Rightarrow> True | _ \<Rightarrow> False)"

definition private_effect :: "(nat \<Rightarrow> bytes) \<Rightarrow> rank_mem \<Rightarrow> instr \<Rightarrow> rank_mem" where
  "private_effect inbox m i =
     (case i of Get b len f \<Rightarrow> f m (inbox (sb_rank b)) | Compute f \<Rightarrow> f m | _ \<Rightarrow> m)"

definition private_run :: "(nat \<Rightarrow> bytes) \<Rightarrow> instr list \<Rightarrow> rank_mem \<Rightarrow> rank_mem" where
  "private_run inbox is m = foldl (private_effect inbox) m is"

text \<open>One exchange: the slots, what each rank puts, does afterwards, and starts from.\<close>

record exchange =
  ex_ranks :: nat
  ex_slot :: sym_buffer
  ex_bytes :: "nat \<Rightarrow> bytes"
  ex_source :: "nat \<Rightarrow> rank_mem \<Rightarrow> bytes option"
  ex_after :: "nat \<Rightarrow> instr list"
  ex_start :: "nat \<Rightarrow> rank_mem"

abbreviation ex_box :: "exchange \<Rightarrow> nat \<Rightarrow> sym_buffer" where
  "ex_box e r \<equiv> (ex_slot e)\<lparr>sb_rank := r\<rparr>"

definition ex_put :: "exchange \<Rightarrow> sym_heap \<Rightarrow> nat \<Rightarrow> rank_state \<Rightarrow> bool" where
  "ex_put e h r st \<longleftrightarrow>
     st = Running (Put (ex_box e r) (ex_source e r) # Barrier # ex_after e r) (ex_start e r) \<or>
     st = Running (Barrier # ex_after e r) (ex_start e r) \<and> heap_region h (ex_box e r) = ex_bytes e r"

definition ex_read :: "exchange \<Rightarrow> sym_heap \<Rightarrow> nat \<Rightarrow> rank_state \<Rightarrow> bool" where
  "ex_read e h r st \<longleftrightarrow> heap_region h (ex_box e r) = ex_bytes e r \<and>
     (\<exists>js m. st = Running js m \<and> (\<forall>i \<in> set js. private_instr (ex_ranks e) (ex_slot e) i) \<and>
        private_run (ex_bytes e) js m = private_run (ex_bytes e) (ex_after e r) (ex_start e r))"

definition exchange_ok :: "exchange \<Rightarrow> world \<Rightarrow> bool" where
  "exchange_ok e w \<longleftrightarrow> (case w of (h, rs) \<Rightarrow>
     0 < ex_ranks e \<and> heap_ok h \<and> length rs = ex_ranks e \<and>
     (\<forall>r < ex_ranks e. fits h (ex_box e r) \<and> ex_source e r (ex_start e r) = Some (ex_bytes e r) \<and>
        length (ex_bytes e r) = sb_len (ex_slot e) \<and>
        (\<forall>i \<in> set (ex_after e r). private_instr (ex_ranks e) (ex_slot e) i)) \<and>
     ((\<forall>r < ex_ranks e. ex_put e h r (rs ! r)) \<or> (\<forall>r < ex_ranks e. ex_read e h r (rs ! r))))"

lemma exchange_okD:
  assumes "exchange_ok e (h, rs)"
  shows "0 < ex_ranks e" "heap_ok h" "length rs = ex_ranks e"
    and "r < ex_ranks e \<Longrightarrow> fits h (ex_box e r)"
    and "r < ex_ranks e \<Longrightarrow> ex_source e r (ex_start e r) = Some (ex_bytes e r)"
    and "r < ex_ranks e \<Longrightarrow> length (ex_bytes e r) = sb_len (ex_slot e)"
    and "\<lbrakk>r < ex_ranks e; i \<in> set (ex_after e r)\<rbrakk> \<Longrightarrow> private_instr (ex_ranks e) (ex_slot e) i"
    and "(\<forall>r < ex_ranks e. ex_put e h r (rs ! r)) \<or> (\<forall>r < ex_ranks e. ex_read e h r (rs ! r))"
  using assms unfolding exchange_ok_def prod.case by blast+

lemma own_ex_put:
  assumes ok: "exchange_ok e (h, rs)" and all: "\<forall>r < ex_ranks e. ex_put e h r (rs ! r)"
    and r: "r < length rs" "rs ! r = Running (i # is) m" "i \<noteq> Barrier" "own_step h i is m = (h', st)"
  shows "exchange_ok e (h', rs[r := st])"
proof -
  note d = exchange_okD [OF ok]
  have rn: "r < ex_ranks e" using r(1) d(3) by simp
  have eq: "i = Put (ex_box e r) (ex_source e r)" "is = Barrier # ex_after e r" "m = ex_start e r"
    using all rn r(2,3) by (auto simp: ex_put_def)
  have len: "length (ex_bytes e r) = sb_len (ex_box e r)" using d(6) [OF rn] by simp
  obtain h2 where put: "sym_put h (ex_box e r) (ex_bytes e r) = Ok h2" "heap_ok h2"
    "heap_region h2 (ex_box e r) = ex_bytes e r"
    "\<And>buf. sb_rank buf \<noteq> sb_rank (ex_box e r) \<Longrightarrow> heap_region h2 buf = heap_region h buf"
    "\<And>buf. fits h2 buf = fits h buf"
    by (rule sym_put_fits [OF d(2) d(4) [OF rn] len]) (rule that)
  have st: "h' = h2" "st = Running (Barrier # ex_after e r) (ex_start e r)"
    using r(4) unfolding eq own_step.simps d(5) [OF rn] option.case put(1) outcome.case by simp_all
  have "ex_put e h2 q (rs[r := st] ! q)" if q: "q < ex_ranks e" for q
  proof (cases "q = r")
    case True
    then show ?thesis using st(2) r(1) put(3) by (simp add: ex_put_def)
  next
    case False
    then have "heap_region h2 (ex_box e q) = heap_region h (ex_box e q)" by (intro put(4)) simp
    then show ?thesis using all q False by (simp add: ex_put_def)
  qed
  then show ?thesis using d put(2,5) st(1) by (simp add: exchange_ok_def)
qed

lemma own_ex_read:
  assumes ok: "exchange_ok e (h, rs)" and all: "\<forall>r < ex_ranks e. ex_read e h r (rs ! r)"
    and r: "r < length rs" "rs ! r = Running (i # is) m" "own_step h i is m = (h', st)"
  shows "exchange_ok e (h', rs[r := st])"
proof -
  note d = exchange_okD [OF ok]
  have rn: "r < ex_ranks e" using r(1) d(3) by simp
  have p: "\<forall>i \<in> set (i # is). private_instr (ex_ranks e) (ex_slot e) i"
    and run: "private_run (ex_bytes e) (i # is) m = private_run (ex_bytes e) (ex_after e r) (ex_start e r)"
    using all rn r(2) by (auto simp: ex_read_def)
  have "own_step h i is m = (h, Running is (private_effect (ex_bytes e) m i))"
  proof (cases i)
    case (Get b len f)
    then obtain q where q: "q < ex_ranks e" "b = ex_box e q" "len = sb_len (ex_slot e)"
      using p by (auto simp: private_instr_def)
    have "heap_region h (ex_box e q) = ex_bytes e q" using all q(1) by (auto simp: ex_read_def)
    then show ?thesis using sym_get_fits [OF d(4) [OF q(1)], of len] Get q by (simp add: private_effect_def)
  qed (use p in \<open>auto simp: private_instr_def private_effect_def\<close>)
  then have st: "h' = h" "st = Running is (private_effect (ex_bytes e) m i)" using r(3) by simp_all
  have "ex_read e h r st"
    using all rn p run by (auto simp: ex_read_def st private_run_def)
  then have "\<forall>q < ex_ranks e. ex_read e h q (rs[r := st] ! q)"
    using all r(1) by (simp add: nth_list_update)
  then show ?thesis using d st(1) by (simp add: exchange_ok_def)
qed

lemma ex_read_no_barrier: "ex_read e h r st \<Longrightarrow> \<not> at_barrier st"
  by (auto simp: ex_read_def at_barrier_def private_instr_def split: list.splits instr.splits)

lemma exchange_ok_step:
  assumes "world_step w w'" and ok: "exchange_ok e w"
  shows "exchange_ok e w'"
  using assms(1)
proof (cases rule: world_stepE)
  case (Own r rs i "is" m h h' st)
  then show ?thesis using exchange_okD(8) [of e h rs] own_ex_put own_ex_read ok by blast
next
  case (Meet rs h)
  note d = exchange_okD [OF ok [unfolded Meet(1)]]
  have bar: "at_barrier (rs ! r)" if "r < ex_ranks e" for r using Meet(4) d(3) that by simp
  then have "\<not> (\<forall>r < ex_ranks e. ex_read e h r (rs ! r))" using ex_read_no_barrier d(1) by blast
  then have put: "\<forall>r < ex_ranks e. ex_put e h r (rs ! r)" using d(8) by blast
  have "ex_read e h r (map pass_barrier rs ! r)" if r: "r < ex_ranks e" for r
  proof -
    have "rs ! r = Running (Barrier # ex_after e r) (ex_start e r) \<and> heap_region h (ex_box e r) = ex_bytes e r"
      using put r bar [OF r] by (auto simp: ex_put_def at_barrier_def)
    then show ?thesis using r d(3,7) by (simp add: ex_read_def)
  qed
  then show ?thesis using d Meet by (simp add: exchange_ok_def)
qed

lemma exchange_ok_run: "\<lbrakk>world_run w k w'; exchange_ok e w\<rbrakk> \<Longrightarrow> exchange_ok e w'"
  by (induction rule: world_run.induct) (auto intro: exchange_ok_step)

lemma exchange_end:
  assumes ok: "exchange_ok e (h, rs)" and r: "r < ex_ranks e"
  shows "\<exists>is m. rs ! r = Running is m"
    and "\<nexists>w. world_step (h, rs) w \<Longrightarrow>
      rs ! r = Running [] (private_run (ex_bytes e) (ex_after e r) (ex_start e r))"
proof -
  note d = exchange_okD [OF ok]
  show "\<exists>is m. rs ! r = Running is m" using d(8) r by (auto simp: ex_put_def ex_read_def)
  assume stuck: "\<nexists>w. world_step (h, rs) w"
  have idle: "i = Barrier" if q: "q < ex_ranks e" "rs ! q = Running (i # is) m" for q i "is" m
  proof (rule ccontr)
    assume "i \<noteq> Barrier"
    moreover obtain h' st where "own_step h i is m = (h', st)" by fastforce
    ultimately have "world_step (h, rs) (h', rs[q := st])" using q d(3) by (intro world_step.Own) auto
    then show False using stuck by blast
  qed
  have "\<not> (\<forall>r < ex_ranks e. ex_put e h r (rs ! r))"
  proof
    assume put: "\<forall>r < ex_ranks e. ex_put e h r (rs ! r)"
    then have "\<forall>r < ex_ranks e. at_barrier (rs ! r)" using idle by (fastforce simp: ex_put_def at_barrier_def)
    then have "\<forall>st \<in> set rs. at_barrier st" using d(3) by (auto simp: in_set_conv_nth)
    moreover have "rs \<noteq> []" using d(1,3) by auto
    ultimately have "world_step (h, rs) (h, map pass_barrier rs)" by (intro world_step.Meet)
    then show False using stuck by blast
  qed
  then have "ex_read e h r (rs ! r)" using d(8) r by blast
  then obtain js m where js: "rs ! r = Running js m" "\<forall>i \<in> set js. private_instr (ex_ranks e) (ex_slot e) i"
    "private_run (ex_bytes e) js m = private_run (ex_bytes e) (ex_after e r) (ex_start e r)"
    by (auto simp: ex_read_def)
  have "js = []"
  proof (cases js)
    case (Cons i "is")
    then show ?thesis using idle [OF r, of i "is" m] js by (auto simp: private_instr_def)
  qed
  then show "rs ! r = Running [] (private_run (ex_bytes e) (ex_after e r) (ex_start e r))"
    using js by (simp add: private_run_def)
qed

section \<open>The direct collectives\<close>

definition fold_get :: "float_ops \<Rightarrow> reduce_kind \<Rightarrow> sym_buffer \<Rightarrow> nat \<Rightarrow> instr" where
  "fold_get ops k buf r = Get (buf\<lparr>sb_rank := r\<rparr>) (sb_len buf)
     (\<lambda>m bs. m\<lparr>rm_acc := map2 (rk_fold ops k) (rm_acc m) (decode_le (take (sb_len buf div 4 * 4) bs))\<rparr>)"

definition reduce_after :: "float_ops \<Rightarrow> reduce_kind \<Rightarrow> nat \<Rightarrow> sym_buffer \<Rightarrow> instr list" where
  "reduce_after ops k n buf =
     Compute (\<lambda>m. m\<lparr>rm_acc := replicate (sb_len buf div 4) (rk_identity k)\<rparr>) #
     map (fold_get ops k buf) [0..<n] @
     [Compute (\<lambda>m. m\<lparr>rm_local := map (\<lambda>v. rk_finalize ops k v n) (rm_acc m)\<rparr>)]"

definition put_own :: "sym_buffer \<Rightarrow> nat \<Rightarrow> instr" where
  "put_own buf me = Put (buf\<lparr>sb_rank := me\<rparr>) (\<lambda>m. raw_bytes (rm_local m) (sb_len buf))"

lemma all_reduce_Ok:
  "all_reduce ops n me buf len k = Ok is \<longleftrightarrow>
     len = sb_len buf div 4 \<and> is = put_own buf me # Barrier # reduce_after ops k n buf"
  by (auto simp: all_reduce_def Let_def put_own_def reduce_after_def fold_get_def comp_def)

text \<open>The reduction in rank order.\<close>

definition direct_value :: "(f32 \<Rightarrow> f32 \<Rightarrow> f32) \<Rightarrow> f32 \<Rightarrow> nat \<Rightarrow> (nat \<Rightarrow> nat \<Rightarrow> f32) \<Rightarrow> nat \<Rightarrow> f32" where
  "direct_value f e n x i = foldl f e (map (\<lambda>r. x r i) [0..<n])"

definition reduced :: "float_ops \<Rightarrow> reduce_kind \<Rightarrow> nat \<Rightarrow> (nat \<Rightarrow> nat \<Rightarrow> f32) \<Rightarrow> nat \<Rightarrow> f32 list" where
  "reduced ops k n x len =
     map (\<lambda>i. rk_finalize ops k (direct_value (rk_fold ops k) (rk_identity k) n x i) n) [0..<len]"

lemma private_run_append: "private_run inbox (is @ js) m = private_run inbox js (private_run inbox is m)"
  by (simp add: private_run_def)

lemma fold_gets:
  assumes "sb_len buf = 4 * len" and "\<And>r. r < q \<Longrightarrow> inbox r = float_bytes (map (x r) [0..<len])"
    and "rm_acc m = replicate len e"
  shows "private_run inbox (map (fold_get ops k buf) [0..<q]) m =
    m\<lparr>rm_acc := map (direct_value (rk_fold ops k) e q x) [0..<len]\<rparr>"
  using assms(2)
proof (induction q)
  case 0
  show ?case using assms(3) by (simp add: private_run_def direct_value_def map_replicate_const)
next
  case (Suc q)
  let ?acc = "map (direct_value (rk_fold ops k) e q x) [0..<len]"
  have "private_run inbox (map (fold_get ops k buf) [0..<Suc q]) m =
      private_effect inbox (m\<lparr>rm_acc := ?acc\<rparr>) (fold_get ops k buf q)"
    using Suc by (simp add: private_run_append) (simp add: private_run_def)
  also have "\<dots> = m\<lparr>rm_acc := map2 (rk_fold ops k) ?acc (map (x q) [0..<len])\<rparr>"
    using Suc.prems [of q] assms(1) by (simp add: private_effect_def fold_get_def)
  also have "map2 (rk_fold ops k) ?acc (map (x q) [0..<len]) =
      map (direct_value (rk_fold ops k) e (Suc q) x) [0..<len]"
    by (auto simp: direct_value_def intro: nth_equalityI)
  finally show ?case .
qed

lemma reduce_after_run:
  assumes "sb_len buf = 4 * len" and "\<And>r. r < n \<Longrightarrow> inbox r = float_bytes (map (x r) [0..<len])"
  shows "rm_local (private_run inbox (reduce_after ops k n buf) m) = reduced ops k n x len"
    and "rm_output (private_run inbox (reduce_after ops k n buf) m) = rm_output m"
proof -
  let ?m = "m\<lparr>rm_acc := replicate len (rk_identity k)\<rparr>"
  have "private_run inbox (reduce_after ops k n buf) m =
      private_run inbox [Compute (\<lambda>m. m\<lparr>rm_local := map (\<lambda>v. rk_finalize ops k v n) (rm_acc m)\<rparr>)]
        (private_run inbox (map (fold_get ops k buf) [0..<n]) ?m)"
    using assms(1) by (simp add: reduce_after_def private_run_def private_effect_def)
  also have "private_run inbox (map (fold_get ops k buf) [0..<n]) ?m =
      ?m\<lparr>rm_acc := map (direct_value (rk_fold ops k) (rk_identity k) n x) [0..<len]\<rparr>"
    by (rule fold_gets [OF assms]) simp_all
  finally show "rm_local (private_run inbox (reduce_after ops k n buf) m) = reduced ops k n x len"
    "rm_output (private_run inbox (reduce_after ops k n buf) m) = rm_output m"
    by (simp_all add: private_run_def private_effect_def reduced_def comp_def)
qed

lemma reduce_after_private: "i \<in> set (reduce_after ops k n buf) \<Longrightarrow> private_instr n buf i"
  by (auto simp: reduce_after_def fold_get_def private_instr_def)

text \<open>The exchange a collective performs, and that its ranks are set up for it.\<close>

definition exchange_of ::
    "nat \<Rightarrow> sym_buffer \<Rightarrow> (nat \<Rightarrow> nat \<Rightarrow> f32) \<Rightarrow> nat \<Rightarrow> (nat \<Rightarrow> instr list) \<Rightarrow> (nat \<Rightarrow> rank_mem) \<Rightarrow> exchange" where
  "exchange_of n buf x len after start =
     \<lparr>ex_ranks = n, ex_slot = buf, ex_bytes = (\<lambda>r. float_bytes (map (x r) [0..<len])),
      ex_source = (\<lambda>_ m. raw_bytes (rm_local m) (sb_len buf)), ex_after = after, ex_start = start\<rparr>"

lemma exchange_of_ok:
  assumes "0 < n" "heap_ok h" "\<forall>r < n. fits h (buf\<lparr>sb_rank := r\<rparr>)" "sb_len buf = 4 * len" "length rs = n"
    and "\<And>r. r < n \<Longrightarrow> rs ! r = Running (put_own buf r # Barrier # after r) (start r) \<and>
      rm_local (start r) = map (x r) [0..<len]"
    and "\<And>r i. \<lbrakk>r < n; i \<in> set (after r)\<rbrakk> \<Longrightarrow> private_instr n buf i"
  shows "exchange_ok (exchange_of n buf x len after start) (h, rs)"
  using assms by (auto simp: exchange_ok_def exchange_of_def ex_put_def put_own_def raw_bytes_whole)

lemma exchange_outcome:
  assumes "exchange_ok (exchange_of n buf x len after start) (h, rs)" "world_run (h, rs) steps w" "r < n"
  shows "\<exists>is m. snd w ! r = Running is m"
    and "\<nexists>w'. world_step w w' \<Longrightarrow> snd w ! r =
      Running [] (private_run (\<lambda>r. float_bytes (map (x r) [0..<len])) (after r) (start r))"
proof -
  have "exchange_ok (exchange_of n buf x len after start) (fst w, snd w)"
    using exchange_ok_run [OF assms(2,1)] by simp
  note e = exchange_end [OF this]
  show "\<exists>is m. snd w ! r = Running is m" using e(1) assms(3) by (simp add: exchange_of_def)
  show "\<nexists>w'. world_step w w' \<Longrightarrow> snd w ! r =
      Running [] (private_run (\<lambda>r. float_bytes (map (x r) [0..<len])) (after r) (start r))"
    using e(2) assms(3) by (simp add: exchange_of_def)
qed

lemma all_reduce_outcome:
  assumes "0 < n" "heap_ok h" "\<forall>r < n. fits h (buf\<lparr>sb_rank := r\<rparr>)" "sb_len buf = 4 * len"
    and l: "launched n (\<lambda>r. all_reduce ops n r buf len k) x len rs" and run: "world_run (h, rs) steps w"
  shows "(\<forall>r < n. \<exists>is m. snd w ! r = Running is m) \<and>
    ((\<nexists>w'. world_step w w') \<longrightarrow>
       (\<forall>r < n. \<exists>m. snd w ! r = Running [] m \<and> rm_local m = reduced ops k n x len))"
proof -
  define start where "start r = the (mem_of (rs ! r))" for r
  have "exchange_ok (exchange_of n buf x len (\<lambda>r. reduce_after ops k n buf) start) (h, rs)"
  proof (rule exchange_of_ok [OF assms(1-4)])
    show "length rs = n" using l by (simp add: launched_def)
    show "rs ! r = Running (put_own buf r # Barrier # reduce_after ops k n buf) (start r) \<and>
        rm_local (start r) = map (x r) [0..<len]" if "r < n" for r
      using l that by (auto simp: launched_def all_reduce_Ok start_def)
  qed (rule reduce_after_private)
  note e = exchange_outcome [OF this run]
  show ?thesis
  proof (intro conjI allI impI)
    show "\<exists>is m. snd w ! r = Running is m" if "r < n" for r using e(1) that .
    show "\<exists>m. snd w ! r = Running [] m \<and> rm_local m = reduced ops k n x len"
      if "\<nexists>w'. world_step w w'" "r < n" for r
      using e(2) [OF that(2,1)] reduce_after_run(1) [OF assms(4), of n _ x] by auto
  qed
qed

text \<open>
  However the ranks of one direct all-reduce are interleaved, none fails, and when nothing
  can move any more every rank holds the reduction of all contributions in rank order.
\<close>

theorem all_reduce_correct:
  assumes "0 < n" "heap_ok h" "\<forall>r < n. fits h (buf\<lparr>sb_rank := r\<rparr>)" "sb_len buf = 4 * len"
    and "launched n (\<lambda>r. all_reduce ops n r buf len k) x len rs" and "world_run (h, rs) steps w"
  shows "(\<forall>r < n. \<exists>is m. snd w ! r = Running is m) \<and>
    ((\<nexists>w'. world_step w w') \<longrightarrow>
       (\<forall>r < n. \<exists>m. snd w ! r = Running [] m \<and> rm_local m = reduced ops k n x len))"
  using all_reduce_outcome [OF assms] by blast

lemma reduce_scatter_Ok:
  "reduce_scatter ops n me buf len out_len k = Ok is \<longleftrightarrow>
     n dvd sb_len buf div 4 \<and> len = sb_len buf div 4 \<and> out_len = len div n \<and>
     is = put_own buf me # Barrier # reduce_after ops k n buf @
       [Compute (\<lambda>m. m\<lparr>rm_output := take (len div n) (drop (me * (len div n)) (rm_local m))\<rparr>)]"
  by (auto simp: reduce_scatter_def Let_def outcome_simps all_reduce_Ok)

text \<open>
  A reduce-scatter, however interleaved, ends on every rank with the rank's part of the
  reduction of all contributions.
\<close>

theorem reduce_scatter_correct:
  assumes "0 < n" "heap_ok h" "\<forall>r < n. fits h (buf\<lparr>sb_rank := r\<rparr>)" "sb_len buf = 4 * len"
    and "launched n (\<lambda>r. reduce_scatter ops n r buf len out_len k) x len rs"
    and "world_run (h, rs) steps w" and "\<nexists>w'. world_step w w'" and "r < n"
  shows "\<exists>m. snd w ! r = Running [] m \<and>
    rm_output m = take (len div n) (drop (r * (len div n)) (reduced ops k n x len))"
proof -
  define start where "start r = the (mem_of (rs ! r))" for r
  define after where "after r = reduce_after ops k n buf @
    [Compute (\<lambda>m. m\<lparr>rm_output := take (len div n) (drop (r * (len div n)) (rm_local m))\<rparr>)]" for r
  have "exchange_ok (exchange_of n buf x len after start) (h, rs)"
  proof (rule exchange_of_ok [OF assms(1-4)])
    show "length rs = n" using assms(5) by (simp add: launched_def)
    show "rs ! r = Running (put_own buf r # Barrier # after r) (start r) \<and>
        rm_local (start r) = map (x r) [0..<len]" if "r < n" for r
      using assms(5) that by (auto simp: launched_def reduce_scatter_Ok start_def after_def)
    show "private_instr n buf i" if "r < n" "i \<in> set (after r)" for r i
      using that reduce_after_private by (auto simp: after_def private_instr_def)
  qed
  from exchange_outcome(2) [OF this assms(6,8,7)] show ?thesis
    using reduce_after_run(1) [OF assms(4), of n "\<lambda>r. float_bytes (map (x r) [0..<len])" x ops k "start r"]
    by (simp add: after_def private_run_append) (simp add: private_run_def private_effect_def)
qed

definition gather_get :: "sym_buffer \<Rightarrow> nat \<Rightarrow> instr" where
  "gather_get buf r = Get (buf\<lparr>sb_rank := r\<rparr>) (sb_len buf)
     (\<lambda>m bs. m\<lparr>rm_output := splice (r * (sb_len buf div 4)) (decode_le (take (sb_len buf div 4 * 4) bs)) (rm_output m)\<rparr>)"

lemma all_gather_Ok:
  "all_gather n me buf len out_len = Ok is \<longleftrightarrow>
     len = sb_len buf div 4 \<and> out_len = n * len \<and>
     is = put_own buf me # Barrier # map (gather_get buf) [0..<n]"
  by (auto simp: all_gather_def Let_def put_own_def gather_get_def comp_def)

lemma gather_gets:
  assumes "sb_len buf = 4 * len" and "\<And>r. r < n \<Longrightarrow> inbox r = float_bytes (map (x r) [0..<len])"
    and "length (rm_output m) = n * len" and "q \<le> n"
  shows "rm_output (private_run inbox (map (gather_get buf) [0..<q]) m) =
    concat (map (\<lambda>r. map (x r) [0..<len]) [0..<q]) @ drop (q * len) (rm_output m)"
  using assms(4)
proof (induction q)
  case (Suc q)
  let ?m = "private_run inbox (map (gather_get buf) [0..<q]) m"
  have len: "length (concat (map (\<lambda>r. map (x r) [0..<len]) [0..<q])) = q * len"
    by (simp add: length_concat comp_def sum_list_triv)
  have "rm_output (private_run inbox (map (gather_get buf) [0..<Suc q]) m) =
      splice (q * len) (map (x q) [0..<len]) (rm_output ?m)"
    using Suc.prems assms(1,2) by (simp add: private_run_append) (simp add: private_run_def private_effect_def gather_get_def)
  also have "\<dots> = splice (q * len) (map (x q) [0..<len])
      (concat (map (\<lambda>r. map (x r) [0..<len]) [0..<q]) @ drop (q * len) (rm_output m))"
    using Suc by simp
  also have "\<dots> = concat (map (\<lambda>r. map (x r) [0..<len]) [0..<q]) @ map (x q) [0..<len] @
      drop (q * len + len) (rm_output m)"
    by (simp add: splice_def len add.commute)
  finally show ?case by (simp add: add.commute)
qed (simp add: private_run_def)

lemma all_gather_correct:
  assumes "0 < n" "heap_ok h" "\<forall>r < n. fits h (buf\<lparr>sb_rank := r\<rparr>)" "sb_len buf = 4 * len"
    and "launched n (\<lambda>r. all_gather n r buf len (n * len)) x len rs"
    and "\<And>r is m. \<lbrakk>r < n; rs ! r = Running is m\<rbrakk> \<Longrightarrow> length (rm_output m) = n * len"
    and "world_run (h, rs) steps w" and "\<nexists>w'. world_step w w'" and "r < n"
  shows "\<exists>m. snd w ! r = Running [] m \<and> rm_output m = concat (map (\<lambda>q. map (x q) [0..<len]) [0..<n])"
proof -
  define start where "start r = the (mem_of (rs ! r))" for r
  have prog: "rs ! r = Running (put_own buf r # Barrier # map (gather_get buf) [0..<n]) (start r) \<and>
      rm_local (start r) = map (x r) [0..<len]" if "r < n" for r
    using assms(5) that by (auto simp: launched_def all_gather_Ok start_def)
  have "exchange_ok (exchange_of n buf x len (\<lambda>r. map (gather_get buf) [0..<n]) start) (h, rs)"
  proof (rule exchange_of_ok [OF assms(1-4) _ prog])
    show "length rs = n" using assms(5) by (simp add: launched_def)
    show "private_instr n buf i" if "r < n" "i \<in> set (map (gather_get buf) [0..<n])" for r i
      using that by (auto simp: gather_get_def private_instr_def)
  qed
  note e = exchange_outcome(2) [OF this assms(7,9,8)]
  have "length (rm_output (start r)) = n * len" using assms(6,9) prog by blast
  then show ?thesis
    unfolding e using gather_gets [OF assms(4), of n "\<lambda>r. float_bytes (map (x r) [0..<len])" x "start r" n] by simp
qed

section \<open>The ring and the direct reduction agree\<close>

lemma foldl_commutes:
  assumes assoc: "\<And>a b c. f (f a b) c = f a (f b c)" and comm: "\<And>a b. f a b = f b a"
    and unit: "\<And>a. f e a = a" and same: "mset xs = mset ys"
  shows "foldl f e xs = foldl f e ys"
proof -
  have "fold (\<lambda>x acc. f acc x) xs = fold (\<lambda>x acc. f acc x) ys"
  proof (rule fold_multiset_equiv [OF _ same])
    show "(\<lambda>acc. f acc x) \<circ> (\<lambda>acc. f acc y) = (\<lambda>acc. f acc y) \<circ> (\<lambda>acc. f acc x)" for x y
    proof
      fix a
      have "f (f a y) x = f a (f y x)" by (rule assoc)
      also have "\<dots> = f a (f x y)" by (simp only: comm [of y x])
      also have "\<dots> = f (f a x) y" by (simp only: assoc)
      finally show "((\<lambda>acc. f acc x) \<circ> (\<lambda>acc. f acc y)) a = ((\<lambda>acc. f acc y) \<circ> (\<lambda>acc. f acc x)) a" by simp
    qed
  qed
  then show ?thesis by (simp add: foldl_conv_fold)
qed

lemma ring_order:
  assumes "j < n"
  shows "mset (map (\<lambda>r. r mod n) [j..<j + n]) = mset [0..<n]"
proof -
  have "[j..<j + n] = [j..<n] @ [n..<n + j]" using assms upt_add_eq_append [of j n j] by (simp add: add.commute)
  moreover have "map (\<lambda>r. r mod n) [j..<n] = [j..<n]" by (intro map_idI) simp
  moreover have "map (\<lambda>r. r mod n) [n..<n + j] = [0..<j]"
    using assms by (intro nth_equalityI) simp_all
  moreover have "[0..<n] = [0..<j] @ [j..<n]" using assms upt_add_eq_append [of 0 j "n - j"] by simp
  ultimately show ?thesis by simp
qed

lemma ring_value_direct:
  assumes assoc: "\<And>a b c. f (f a b) c = f a (f b c)" and comm: "\<And>a b. f a b = f b a"
    and unit: "\<And>a. f e a = a" and i: "i < n * chunk" and n: "0 < n"
  shows "ring_value f n chunk x i = direct_value f e n x i"
proof -
  define j where "j = i div chunk"
  have j: "j < n" using div_chunk [OF i] by (simp add: j_def)
  have swap: "(\<lambda>acc r. f (x (r mod n) i) acc) = (\<lambda>acc r. f acc (x (r mod n) i))"
    using comm by (intro ext)
  have "ring_value f n chunk x i = foldl (\<lambda>acc r. f acc (x (r mod n) i)) (x j i) [j + 1..<j + n]"
    by (simp only: ring_value_def Let_def j_def swap)
  also have "\<dots> = foldl (\<lambda>acc r. f acc (x (r mod n) i)) e (j # [j + 1..<j + n])"
    using unit j by simp
  also have "j # [j + 1..<j + n] = [j..<j + n]" using n by (simp add: upt_conv_Cons)
  also have "foldl (\<lambda>acc r. f acc (x (r mod n) i)) e [j..<j + n] =
      foldl f e (map (\<lambda>r. x r i) (map (\<lambda>r. r mod n) [j..<j + n]))"
    by (simp add: foldl_map)
  also have "\<dots> = foldl f e (map (\<lambda>r. x r i) [0..<n])"
    by (rule foldl_commutes [OF assoc comm unit]) (metis mset_map ring_order [OF j])
  finally show ?thesis by (simp add: direct_value_def)
qed

text \<open>
  Where the reduction is associative and commutative with its starting value as unit, a
  ring all-reduce and a direct one of the same contributions end with the same slices.
\<close>

theorem ring_agrees_with_direct:
  assumes "2 \<le> n" "0 < chunk"
    and "\<forall>a b c. rk_fold ops k (rk_fold ops k a b) c = rk_fold ops k a (rk_fold ops k b c)"
    and "\<forall>a b. rk_fold ops k a b = rk_fold ops k b a" and "\<forall>a. rk_fold ops k (rk_identity k) a = a"
    and "heap_ok h" "num_ranks h = n" "off + chunk * 4 \<le> sh_size h"
    and "launched n (\<lambda>r. ring_all_reduce ops n r off (n * chunk) k) x (n * chunk) rs"
    and "world_run (h, rs) steps w" "\<nexists>w'. world_step w w'"
    and "heap_ok h2" "\<forall>r < n. fits h2 (buf\<lparr>sb_rank := r\<rparr>)" "sb_len buf = 4 * (n * chunk)"
    and "launched n (\<lambda>r. all_reduce ops n r buf (n * chunk) k) x (n * chunk) rs2"
    and "world_run (h2, rs2) steps2 w2" "\<nexists>w'. world_step w2 w'"
    and "r < n"
  shows "\<exists>m m2. snd w ! r = Running [] m \<and> snd w2 ! r = Running [] m2 \<and> rm_local m = rm_local m2"
proof -
  have n: "0 < n" using assms(1) by simp
  have "ring_value (rk_fold ops k) n chunk x i = direct_value (rk_fold ops k) (rk_identity k) n x i"
    if "i < n * chunk" for i
    using ring_value_direct [OF _ _ _ that n, of "rk_fold ops k" "rk_identity k"] assms(3-5) by blast
  then have "map (\<lambda>i. rk_finalize ops k (ring_value (rk_fold ops k) n chunk x i) n) [0..<n * chunk] =
      reduced ops k n x (n * chunk)"
    by (simp add: reduced_def)
  then show ?thesis
    using ring_all_reduce_outcome [OF assms(1,2,6-10)] all_reduce_outcome [OF n assms(12-16)] assms(11,17,18)
    by (metis (no_types, lifting))
qed

section \<open>Concrete runs\<close>

text \<open>A schedule: whose turn it is, or all pass the barrier.\<close>

datatype move = Turn nat | Together

fun do_move :: "move \<Rightarrow> world \<Rightarrow> world option" where
  "do_move (Turn r) (h, rs) =
     (if r < length rs
      then case rs ! r of
          Running (i # is) m \<Rightarrow>
            (case i of Barrier \<Rightarrow> None
             | _ \<Rightarrow> (case own_step h i is m of (h', st) \<Rightarrow> Some (h', rs[r := st])))
        | _ \<Rightarrow> None
      else None)"
| "do_move Together (h, rs) =
     (if rs \<noteq> [] \<and> list_all at_barrier rs then Some (h, map pass_barrier rs) else None)"

fun play :: "move list \<Rightarrow> world \<Rightarrow> world option" where
  "play [] w = Some w"
| "play (x # xs) w = (case do_move x w of Some w' \<Rightarrow> play xs w' | None \<Rightarrow> None)"

lemma do_move_step: "do_move x w = Some w' \<Longrightarrow> world_step w w'"
proof (induction x w rule: do_move.induct)
  case (1 r h rs)
  then obtain i "is" m where r: "r < length rs" "rs ! r = Running (i # is) m" "i \<noteq> Barrier"
    and w': "w' = (fst (own_step h i is m), rs[r := snd (own_step h i is m)])"
    by (auto split: if_splits rank_state.splits list.splits instr.splits prod.splits)
  then show ?case by (auto intro: world_step.Own)
next
  case (2 h rs)
  then show ?case by (auto split: if_splits simp: list_all_iff intro: world_step.Meet)
qed

lemma world_run_first: "\<lbrakk>world_run w' k w''; world_step w w'\<rbrakk> \<Longrightarrow> world_run w (Suc k) w''"
proof (induction rule: world_run.induct)
  case Stop
  then show ?case using world_run.Go [OF world_run.Stop] by blast
next
  case (Go k v v')
  then show ?case by (blast intro: world_run.Go)
qed

lemma play_run: "play xs w = Some w' \<Longrightarrow> world_run w (length xs) w'"
  by (induction xs arbitrary: w)
    (auto split: option.splits intro: world_run.Stop world_run_first do_move_step)

text \<open>Two ranks, one float each, and addition modulo a power of two in the place of floats.\<close>

definition word_ops :: float_ops where
  "word_ops = \<lparr>fo_add = (+), fo_max = max, fo_min = min, fo_div = (div), fo_of_nat = of_nat\<rparr>"

definition demo_mem :: "f32 \<Rightarrow> rank_mem" where
  "demo_mem v = \<lparr>rm_local = [v], rm_acc = [], rm_output = []\<rparr>"

definition demo_slot :: sym_buffer where
  "demo_slot = \<lparr>sb_rank = 0, sb_offset = 0, sb_len = 4\<rparr>"

definition demo_call :: "nat \<Rightarrow> instr list" where
  "demo_call me = put_own demo_slot me # Barrier # reduce_after word_ops ReduceSum 2 demo_slot"

lemma demo_call_Ok: "all_reduce word_ops 2 me demo_slot 1 ReduceSum = Ok (demo_call me)"
  by (simp add: all_reduce_Ok demo_call_def demo_slot_def)

text \<open>The heap whose slots hold two floats, and the instructions of a call on it.\<close>

definition two_slots :: "f32 \<Rightarrow> f32 \<Rightarrow> sym_heap" where
  "two_slots a b = \<lparr>sh_storage = [float_bytes [a], float_bytes [b]], sh_size = 4\<rparr>"

definition two_mem :: "f32 list \<Rightarrow> f32 list \<Rightarrow> rank_mem" where
  "two_mem xs acc = \<lparr>rm_local = xs, rm_acc = acc, rm_output = []\<rparr>"

definition demo_init :: instr where
  "demo_init = Compute (\<lambda>m. m\<lparr>rm_acc := [0]\<rparr>)"

definition demo_get :: "nat \<Rightarrow> instr" where
  "demo_get r = fold_get word_ops ReduceSum demo_slot r"

definition demo_fin :: instr where
  "demo_fin = Compute (\<lambda>m. m\<lparr>rm_local := map (\<lambda>v. rk_finalize word_ops ReduceSum v 2) (rm_acc m)\<rparr>)"

lemma demo_call_eq:
  "demo_call me = [put_own demo_slot me, Barrier, demo_init, demo_get 0, demo_get 1, demo_fin]"
  by (simp add: demo_call_def reduce_after_def demo_init_def demo_get_def demo_fin_def demo_slot_def
      rk_identity_def upt_rec)

lemma two_slots_ok: "heap_ok (two_slots a b)" "num_ranks (two_slots a b) = 2"
  by (simp_all add: heap_ok_def num_ranks_def two_slots_def)

lemma demo_put:
  "own_step (two_slots a b) (put_own demo_slot 0) is (two_mem [v] acc) = (two_slots v b, Running is (two_mem [v] acc))"
  "own_step (two_slots a b) (put_own demo_slot 1) is (two_mem [v] acc) = (two_slots a v, Running is (two_mem [v] acc))"
  by (simp_all add: put_own_def demo_slot_def two_mem_def raw_bytes_def sym_put_def check_buf_def num_ranks_def
      two_slots_def splice_def)

lemma demo_gets:
  "own_step (two_slots a b) (demo_get 0) is (two_mem xs [s]) = (two_slots a b, Running is (two_mem xs [s + a]))"
  "own_step (two_slots a b) (demo_get 1) is (two_mem xs [s]) = (two_slots a b, Running is (two_mem xs [s + b]))"
  by (simp_all add: demo_get_def fold_get_def demo_slot_def two_mem_def sym_get_def check_buf_def num_ranks_def
      two_slots_def word_ops_def)

lemma demo_compute:
  "own_step h demo_init is (two_mem xs acc) = (h, Running is (two_mem xs [0]))"
  "own_step h demo_fin is (two_mem xs [s]) = (h, Running is (two_mem [s] [s]))"
  by (simp_all add: demo_init_def demo_fin_def two_mem_def rk_finalize_def)

lemma demo_turn:
  assumes "r < length rs" "rs ! r = Running (i # is) m" "own_step h i is m = (h', st)" "i \<noteq> Barrier"
  shows "do_move (Turn r) (h, rs) = Some (h', rs[r := st])"
  using assms by (auto split: instr.splits)

lemma demo_not_barrier:
  "put_own buf r \<noteq> Barrier" "demo_init \<noteq> Barrier" "demo_get r \<noteq> Barrier" "demo_fin \<noteq> Barrier"
  by (simp_all add: put_own_def demo_init_def demo_get_def fold_get_def demo_fin_def)

lemma play_turn:
  "\<lbrakk>i \<noteq> Barrier; own_step h i is m = (h', st)\<rbrakk> \<Longrightarrow> play (Turn 0 # xs) (h, [Running (i # is) m, q]) = play xs (h', [st, q])"
  "\<lbrakk>i \<noteq> Barrier; own_step h i is m = (h', st)\<rbrakk> \<Longrightarrow> play (Turn 1 # xs) (h, [q, Running (i # is) m]) = play xs (h', [q, st])"
  using demo_turn [of 0 "[Running (i # is) m, q]" i "is" m h h' st]
    demo_turn [of 1 "[q, Running (i # is) m]" i "is" m h h' st] by simp_all

lemma play_meet:
  "play (Together # xs) (h, [Running (Barrier # is) m, Running (Barrier # js) n]) =
     play xs (h, [Running is m, Running js n])"
  by (simp add: at_barrier_def)

lemmas play_steps = play_turn [OF demo_not_barrier(1) demo_put(1)] play_turn(2) [OF demo_not_barrier(1) demo_put(2)]
  play_turn [OF demo_not_barrier(2) demo_compute(1)] play_turn [OF demo_not_barrier(4) demo_compute(2)]
  play_turn [OF demo_not_barrier(3) demo_gets(1)] play_turn [OF demo_not_barrier(3) demo_gets(2)] play_meet

definition demo_once :: "rank_state list" where
  "demo_once = [Running (demo_call 0) (two_mem [1] []), Running (demo_call 1) (two_mem [2] [])]"

lemma demo_once_runs:
  "play ([Turn 1, Turn 0, Together] @ replicate 4 (Turn 0) @ replicate 4 (Turn 1)) (two_slots 0 0, demo_once) =
     Some (two_slots 1 2, [Running [] (two_mem [3] [3]), Running [] (two_mem [3] [3])])"
  unfolding demo_once_def demo_call_eq
  by (simp add: numeral_eq_Suc del: play.simps(2) One_nat_def)
     (simp add: play_steps del: play.simps(2) One_nat_def)

text \<open>
  C38. Two direct all-reduces in a row race: a run exists in which rank 1 ends its first call
  with a wrong sum, because rank 0 has put its second contribution into the slot rank 1 still
  had to read. Nothing but the barrier before the reads orders the two calls.
\<close>

theorem consecutive_all_reduces_race:
  "\<exists>p0 p1 k h st m.
     all_reduce word_ops 2 0 demo_slot 1 ReduceSum = Ok p0 \<and>
     all_reduce word_ops 2 1 demo_slot 1 ReduceSum = Ok p1 \<and>
     world_run (two_slots 0 0, [Running (p0 @ p0) (two_mem [1] []), Running (p1 @ p1) (two_mem [2] [])]) k
       (h, [st, Running p1 m]) \<and>
     rm_local m = [5] \<and> reduced word_ops ReduceSum 2 (\<lambda>r i. [1, 2] ! r) 1 = [3]"
proof -
  have "play ([Turn 0, Turn 1, Together] @ replicate 5 (Turn 0) @ replicate 4 (Turn 1))
      (two_slots 0 0, [Running (demo_call 0 @ demo_call 0) (two_mem [1] []),
                       Running (demo_call 1 @ demo_call 1) (two_mem [2] [])]) =
    Some (two_slots 3 2, [Running (tl (demo_call 0)) (two_mem [3] [3]), Running (demo_call 1) (two_mem [5] [5])])"
    unfolding demo_call_eq
    by (simp add: numeral_eq_Suc del: play.simps(2) One_nat_def)
       (simp add: play_steps del: play.simps(2) One_nat_def)
  from play_run [OF this] show ?thesis
    using demo_call_Ok [of 0] demo_call_Ok [of 1]
    by (fastforce simp: two_mem_def reduced_def direct_value_def word_ops_def rk_identity_def rk_finalize_def
        numeral_2_eq_2)
qed

text \<open>A slot whose length is no multiple of four: the raw view runs past the slice.\<close>

lemma all_reduce_reads_past_slice:
  assumes "sb_len buf = 4 * len + 2" and "rm_local m = xs" "length xs = len"
  shows "all_reduce ops n me buf len k = Ok (put_own buf me # Barrier # reduce_after ops k n buf)"
    and "own_step h (put_own buf me) is m = (h, Undefined)"
  using assms by (simp_all add: all_reduce_Ok put_own_def raw_bytes_def)

text \<open>Every world has a run to its end.\<close>

lemma world_run_append: "\<lbrakk>world_run w' k w''; world_run w j w'\<rbrakk> \<Longrightarrow> \<exists>i. world_run w i w''"
  by (induction rule: world_run.induct) (auto intro: world_run.Go)

lemma world_run_ends: "\<exists>k w'. world_run w k w' \<and> (\<nexists>v. world_step w' v)"
proof (induction "sum_list (map to_do (snd w))" arbitrary: w rule: less_induct)
  case less
  show ?case
  proof (cases "\<exists>v. world_step w v")
    case True
    then obtain v where v: "world_step w v" by blast
    then have "sum_list (map to_do (snd v)) < sum_list (map to_do (snd w))"
      using world_step_to_do [of "fst w" "snd w" "fst v" "snd v"] by simp
    then obtain k w' where "world_run v k w'" "\<nexists>u. world_step w' u" using less by blast
    then show ?thesis using world_run_first [OF _ v] by blast
  qed (blast intro: world_run.Stop)
qed

definition demo_input :: "nat \<Rightarrow> nat \<Rightarrow> f32" where
  "demo_input r i = of_nat (10 * r + i + 1)"

definition demo_rank :: "(collective_error, instr list) outcome \<Rightarrow> nat \<Rightarrow> nat \<Rightarrow> rank_state" where
  "demo_rank prog len r = (case prog of
     Ok is \<Rightarrow> Running is \<lparr>rm_local = map (demo_input r) [0..<len], rm_acc = [], rm_output = replicate len 0\<rparr>
   | Err e \<Rightarrow> Failed e | Panic \<Rightarrow> Undefined)"

definition demo_world :: "(nat \<Rightarrow> (collective_error, instr list) outcome) \<Rightarrow> nat \<Rightarrow> rank_state list" where
  "demo_world prog len = [demo_rank (prog 0) len 0, demo_rank (prog 1) len 1]"

lemma demo_launched:
  assumes "prog 0 = Ok p0" "prog 1 = Ok p1"
  shows "launched 2 prog demo_input len (demo_world prog len)"
  using assms by (simp add: launched_def demo_world_def demo_rank_def less_2_cases_iff)

definition demo_heap :: sym_heap where
  "demo_heap = sym_heap_new 2 8"

lemma demo_heap_ok: "heap_ok demo_heap" "num_ranks demo_heap = 2" "sh_size demo_heap = 8"
  by (simp_all add: demo_heap_def sym_heap_new_def heap_ok_def num_ranks_def)

definition wide_slot :: sym_buffer where
  "wide_slot = \<lparr>sb_rank = 0, sb_offset = 0, sb_len = 8\<rparr>"

lemma wide_fits: "\<forall>r < 2. fits demo_heap (wide_slot\<lparr>sb_rank := r\<rparr>)" "sb_len wide_slot = 4 * 2"
  by (simp_all add: fits_def demo_heap_ok wide_slot_def)

lemma demo_ring_launched:
  "launched 2 (\<lambda>r. ring_all_reduce word_ops 2 r 0 (2 * 1) ReduceSum) demo_input (2 * 1)
     (demo_world (\<lambda>r. ring_all_reduce word_ops 2 r 0 (2 * 1) ReduceSum) (2 * 1))"
  by (rule demo_launched; rule ring_all_reduce_prog) simp_all

lemma demo_direct_launched:
  "launched 2 (\<lambda>r. all_reduce word_ops 2 r wide_slot 2 ReduceSum) demo_input 2
     (demo_world (\<lambda>r. all_reduce word_ops 2 r wide_slot 2 ReduceSum) 2)"
  by (rule demo_launched) (simp_all add: all_reduce_Ok wide_slot_def)

abbreviation demo_ring :: "nat \<Rightarrow> (collective_error, instr list) outcome" where
  "demo_ring r \<equiv> ring_all_reduce word_ops 2 r 0 (2 * 1) ReduceSum"

abbreviation demo_direct :: "nat \<Rightarrow> (collective_error, instr list) outcome" where
  "demo_direct r \<equiv> all_reduce word_ops 2 r wide_slot 2 ReduceSum"

abbreviation demo_scatter :: "nat \<Rightarrow> (collective_error, instr list) outcome" where
  "demo_scatter r \<equiv> reduce_scatter word_ops 2 r wide_slot 2 1 ReduceSum"

lemma demo_ring_value:
  "map (\<lambda>i. rk_finalize word_ops ReduceSum (ring_value (rk_fold word_ops ReduceSum) 2 1 demo_input i) 2)
     [0..<2 * 1] = [12, 14]"
  by (simp add: rk_finalize_def ring_value_def word_ops_def demo_input_def upt_rec)

lemma demo_reduced: "reduced word_ops ReduceSum 2 demo_input 2 = [12, 14]"
  by (simp add: reduced_def direct_value_def rk_identity_def rk_finalize_def word_ops_def demo_input_def upt_rec)

lemma demo_run_end:
  obtains k w where "world_run (demo_heap, demo_world prog len) k w" "\<nexists>v. world_step w v"
  using world_run_ends by blast

lemma demo_box: "0 + 1 * 4 \<le> sh_size demo_heap"
  by (simp add: demo_heap_ok)

theorem ring_all_reduce_correct_witness:
  "\<exists>k w. world_run (demo_heap, demo_world demo_ring (2 * 1)) k w \<and>
     (\<exists>m. snd w ! 1 = Running [] m \<and> rm_local m = [12, 14])"
proof -
  obtain k w where w: "world_run (demo_heap, demo_world demo_ring (2 * 1)) k w" "\<nexists>v. world_step w v"
    by (rule demo_run_end)
  have all: "\<forall>r < 2. \<exists>m. snd w ! r = Running [] m \<and> rm_local m = [12, 14]"
    using ring_all_reduce_correct [OF _ _ demo_heap_ok(1,2) demo_box demo_ring_launched w(1),
        unfolded demo_ring_value, THEN conjunct2, THEN conjunct2, THEN mp, OF _ _ w(2)] by simp
  have "\<exists>m. snd w ! 1 = Running [] m \<and> rm_local m = [12, 14]" by (rule all [rule_format]) simp
  with w(1) show ?thesis by (intro exI [of _ k] exI [of _ w] conjI)
qed

theorem all_reduce_correct_witness:
  "\<exists>k w. world_run (demo_heap, demo_world demo_direct 2) k w \<and>
     (\<exists>m. snd w ! 1 = Running [] m \<and> rm_local m = [12, 14])"
proof -
  obtain k w where w: "world_run (demo_heap, demo_world demo_direct 2) k w" "\<nexists>v. world_step w v"
    by (rule demo_run_end)
  have all: "\<forall>r < 2. \<exists>m. snd w ! r = Running [] m \<and> rm_local m = [12, 14]"
    using all_reduce_correct [OF _ demo_heap_ok(1) wide_fits demo_direct_launched w(1),
        unfolded demo_reduced, THEN conjunct2, THEN mp, OF _ w(2)] by simp
  have "\<exists>m. snd w ! 1 = Running [] m \<and> rm_local m = [12, 14]" by (rule all [rule_format]) simp
  with w(1) show ?thesis by (intro exI [of _ k] exI [of _ w] conjI)
qed

theorem reduce_scatter_correct_witness:
  "\<exists>k w. world_run (demo_heap, demo_world demo_scatter 2) k w \<and>
     (\<exists>m. snd w ! 1 = Running [] m \<and> rm_output m = [14])"
proof -
  obtain k w where w: "world_run (demo_heap, demo_world demo_scatter 2) k w" "\<nexists>v. world_step w v"
    by (rule demo_run_end)
  have l: "launched 2 demo_scatter demo_input 2 (demo_world demo_scatter 2)"
    by (rule demo_launched) (simp_all add: reduce_scatter_Ok wide_slot_def)
  have "\<exists>m. snd w ! 1 = Running [] m \<and> rm_output m = take (2 div 2) (drop (1 * (2 div 2)) [12, 14])"
    by (rule reduce_scatter_correct [OF _ demo_heap_ok(1) wide_fits l w, of 1, unfolded demo_reduced]) simp_all
  moreover have "take (2 div 2) (drop (1 * (2 div 2)) [12, 14 :: f32]) = [14]" by simp
  ultimately have "\<exists>m. snd w ! 1 = Running [] m \<and> rm_output m = [14]" by (simp only:)
  with w(1) show ?thesis by (intro exI [of _ k] exI [of _ w] conjI)
qed

lemma word_sum_laws:
  "\<forall>a b c. rk_fold word_ops ReduceSum (rk_fold word_ops ReduceSum a b) c =
     rk_fold word_ops ReduceSum a (rk_fold word_ops ReduceSum b c)"
  "\<forall>a b. rk_fold word_ops ReduceSum a b = rk_fold word_ops ReduceSum b a"
  "\<forall>a. rk_fold word_ops ReduceSum (rk_identity ReduceSum) a = a"
  by (simp_all add: word_ops_def rk_identity_def ac_simps)

theorem ring_agrees_with_direct_witness:
  "\<exists>w w2 m m2. snd w ! 0 = Running [] m \<and> snd w2 ! 0 = Running [] m2 \<and> rm_local m = rm_local m2 \<and>
     (\<exists>k. world_run (demo_heap, demo_world demo_ring (2 * 1)) k w) \<and>
     (\<exists>k. world_run (demo_heap, demo_world demo_direct (2 * 1)) k w2)"
proof -
  obtain k w where w: "world_run (demo_heap, demo_world demo_ring (2 * 1)) k w" "\<nexists>v. world_step w v"
    by (rule demo_run_end)
  have d: "launched 2 (\<lambda>r. all_reduce word_ops 2 r wide_slot (2 * 1) ReduceSum) demo_input (2 * 1)
     (demo_world (\<lambda>r. all_reduce word_ops 2 r wide_slot (2 * 1) ReduceSum) (2 * 1))"
    using demo_direct_launched by simp
  obtain k2 w2 where w2: "world_run (demo_heap, demo_world (\<lambda>r. all_reduce word_ops 2 r wide_slot (2 * 1) ReduceSum) (2 * 1)) k2 w2"
    "\<nexists>v. world_step w2 v" by (rule demo_run_end)
  have "\<exists>m m2. snd w ! 0 = Running [] m \<and> snd w2 ! 0 = Running [] m2 \<and> rm_local m = rm_local m2"
    by (rule ring_agrees_with_direct [OF _ _ word_sum_laws demo_heap_ok(1,2) demo_box demo_ring_launched w
        demo_heap_ok(1) wide_fits(1) _ d w2]) (simp_all add: wide_slot_def)
  moreover have "world_run (demo_heap, demo_world demo_direct (2 * 1)) k2 w2" using w2(1) by simp
  ultimately show ?thesis using w(1) by blast
qed

end
