(* ===== verification/Partition.thy ===== *)
theory Partition
  imports DTypes Complex_Main "HOL-Library.Multiset" "HOL-Library.Product_Lexorder"
begin

unbundle bit_operations_syntax

text \<open>
  Which rank runs which layers (\<open>crates/core/rlx-distributed/src/partition.rs\<close>). Counts are
  \<open>u32\<close> and kept as naturals below \<open>2 ^ 32\<close>, the casts written out. The proportional split
  computes its shares in double precision; what it uses of them, the whole part and a key of
  the fraction, is the parameter \<open>share\<close>.
\<close>

section \<open>Roles\<close>

datatype block_role_kind = SingleBlock | FirstBlock | MiddleBlock | LastBlock

definition block_role :: "nat \<Rightarrow> nat \<Rightarrow> block_role_kind" where
  "block_role rank world =
     (if world \<le> 1 then SingleBlock
      else if rank = world - 1 then FirstBlock
      else if rank = 0 then LastBlock
      else MiddleBlock)"

section \<open>Splits\<close>

definition cast_u32 :: "nat \<Rightarrow> nat" where
  "cast_u32 n = n mod 2 ^ 32"

type_synonym layer_split = "nat list"

definition split_even :: "nat \<Rightarrow> nat \<Rightarrow> layer_split" where
  "split_even layers world =
     (let world = max world 1; base = layers div world; extra = layers mod world
      in map (\<lambda>r. cast_u32 (base + (if world - 1 - r < extra then 1 else 0))) [0..<world])"

text \<open>\<open>None\<close> is the underflow of the layers left over, when the shares exceed the spare layers.\<close>

definition split_weighted :: "(nat \<Rightarrow> nat \<Rightarrow> nat \<Rightarrow> nat \<times> rat) \<Rightarrow> nat \<Rightarrow> nat list \<Rightarrow> layer_split option" where
  "split_weighted share layers weights =
     (let world = length weights in
      if world = 0 \<or> layers = 0 then Some []
      else if world > layers then Some (split_even layers world)
      else let total = sum_list weights in
        if total = 0 then Some (split_even layers world)
        else let spare = layers - world;
                 parts = map (share spare total) weights;
                 counts = map (\<lambda>p. 1 + cast_u32 (fst p)) parts;
                 given = sum_list (map fst parts);
                 order = map fst (sort_key (\<lambda>(r, frac). (- frac, r)) (enumerate 0 (map snd parts)))
             in if given > spare then None
                else Some (foldl (\<lambda>cs r. cs[r := cs ! r + 1]) counts (take (spare - given) order)))"

definition split_total :: "layer_split \<Rightarrow> nat" where
  "split_total counts = sum_list counts"

definition split_range :: "layer_split \<Rightarrow> nat \<Rightarrow> (nat \<times> nat) option" where
  "split_range counts rank =
     (if rank \<ge> length counts then None
      else let start = sum_list (drop (rank + 1) counts) in Some (start, start + counts ! rank))"

definition fingerprint :: "layer_split \<Rightarrow> 32 word" where
  "fingerprint counts =
     foldl (\<lambda>h c. foldl (\<lambda>h b. (h XOR ucast b) * 0x01000193) h (le_bytes 4 (int c)))
       0x811c9dc5 counts AND 0x00ffffff"

datatype split_error = WrongRanks nat nat | NoLayers nat | WrongLayers nat nat

definition split_validate :: "layer_split \<Rightarrow> nat \<Rightarrow> nat \<Rightarrow> (split_error, unit) outcome" where
  "split_validate counts layers world =
     (if cast_u32 (length counts) \<noteq> world then Err (WrongRanks (length counts) world)
      else case find (\<lambda>r. counts ! r = 0) [0..<length counts] of
        Some r \<Rightarrow> Err (NoLayers r)
      | None \<Rightarrow> if split_total counts \<noteq> layers then Err (WrongLayers (split_total counts) layers)
                else Ok ())"

definition pipeline_layer_range :: "nat \<Rightarrow> nat \<Rightarrow> nat \<Rightarrow> (split_error, nat \<times> nat) outcome" where
  "pipeline_layer_range num_layers rank world =
     (let world = max world 1 in
      if \<not> rank < world then Panic
      else let per = num_layers div world; extra = num_layers mod world; j = world - 1 - rank;
               size_of = (\<lambda>i. per + (if i < extra then 1 else 0));
               start = sum_list (map size_of [0..<j]); len = size_of j
           in Ok (start, start + len))"

section \<open>A valid split covers the model\<close>

text \<open>Every layer belongs to exactly one rank, and the blocks stack upward from the last rank.\<close>

definition covers :: "layer_split \<Rightarrow> nat \<Rightarrow> bool" where
  "covers counts layers \<longleftrightarrow>
     (\<forall>l < layers. \<exists>!r. \<exists>a b. split_range counts r = Some (a, b) \<and> a \<le> l \<and> l < b) \<and>
     (\<forall>r a b. split_range counts r = Some (a, b) \<longrightarrow> b \<le> layers) \<and>
     (\<forall>r a b c d. split_range counts (Suc r) = Some (a, b) \<longrightarrow> split_range counts r = Some (c, d) \<longrightarrow> b = c)"

lemma split_range_eq:
  "r < length counts \<Longrightarrow>
     split_range counts r = Some (sum_list (drop (Suc r) counts), sum_list (drop r counts))"
  by (simp add: split_range_def Let_def Cons_nth_drop_Suc [symmetric] add.commute)

lemma split_range_None: "\<not> r < length counts \<Longrightarrow> split_range counts r = None"
  by (simp add: split_range_def)

lemma sum_list_drop_mono: "i \<le> j \<Longrightarrow> sum_list (drop j (xs :: nat list)) \<le> sum_list (drop i xs)"
proof -
  assume "i \<le> j"
  then have "drop j xs = drop (j - i) (drop i xs)" by simp
  then have "sum_list (drop i xs) = sum_list (take (j - i) (drop i xs)) + sum_list (drop j xs)"
    by (metis append_take_drop_id sum_list_append)
  then show ?thesis by simp
qed

lemma total_covers: "covers counts (sum_list counts)"
  unfolding covers_def
proof (intro conjI allI impI)
  fix l assume l: "l < sum_list counts"
  have "\<exists>r < length counts. sum_list (drop (Suc r) counts) \<le> l \<and> l < sum_list (drop r counts)"
    using l
  proof (induction counts)
    case (Cons c cs)
    show ?case
    proof (cases "l < sum_list cs")
      case True
      then obtain r where "r < length cs" "sum_list (drop (Suc r) cs) \<le> l" "l < sum_list (drop r cs)"
        using Cons by auto
      then show ?thesis by (intro exI [of _ "Suc r"]) simp
    next
      case False
      then show ?thesis using Cons.prems by (intro exI [of _ 0]) simp
    qed
  qed simp
  then obtain r where r: "r < length counts" "sum_list (drop (Suc r) counts) \<le> l" "l < sum_list (drop r counts)"
    by blast
  show "\<exists>!r. \<exists>a b. split_range counts r = Some (a, b) \<and> a \<le> l \<and> l < b"
  proof (rule ex1I [of _ r])
    show "\<exists>a b. split_range counts r = Some (a, b) \<and> a \<le> l \<and> l < b"
      using r by (simp add: split_range_eq)
    fix q assume "\<exists>a b. split_range counts q = Some (a, b) \<and> a \<le> l \<and> l < b"
    then have q: "q < length counts" "sum_list (drop (Suc q) counts) \<le> l" "l < sum_list (drop q counts)"
      using split_range_None [of q counts] split_range_eq [of q counts] by (cases "q < length counts"; auto)+
    show "q = r"
    proof (rule ccontr)
      assume "q \<noteq> r"
      then consider "Suc q \<le> r" | "Suc r \<le> q" by linarith
      then show False
        by cases (use sum_list_drop_mono [of "Suc q" r counts] sum_list_drop_mono [of "Suc r" q counts] r q in linarith)+
    qed
  qed
next
  fix r a b assume s: "split_range counts r = Some (a, b)"
  then have "r < length counts" using split_range_None [of r counts] by fastforce
  then show "b \<le> sum_list counts" using s sum_list_drop_mono [of 0 r counts] by (simp add: split_range_eq)
next
  fix r a b c d
  assume s: "split_range counts (Suc r) = Some (a, b)" "split_range counts r = Some (c, d)"
  then have "Suc r < length counts" using split_range_None [of "Suc r" counts] by fastforce
  then show "b = c" using s by (simp add: split_range_eq)
qed

lemma split_validate_Ok:
  "split_validate counts layers world = Ok () \<longleftrightarrow>
     cast_u32 (length counts) = world \<and> 0 \<notin> set counts \<and> sum_list counts = layers"
  by (auto simp: split_validate_def split_total_def find_None_iff find_Some_iff in_set_conv_nth
      split: option.splits if_splits)

lemma range_nonempty: "\<lbrakk>0 \<notin> set counts; split_range counts r = Some (a, b)\<rbrakk> \<Longrightarrow> a < b"
proof -
  assume nz: "0 \<notin> set counts" and s: "split_range counts r = Some (a, b)"
  then have r: "r < length counts" by (simp add: split_range_def split: if_splits)
  then have "counts ! r \<noteq> 0" using nz nth_mem [OF r] by metis
  then show "a < b" using s r by (auto simp: split_range_def Let_def)
qed

text \<open>
  C39. A split the check accepts gives every layer to exactly one rank, in blocks that follow one
  another from the last rank to rank 0, and no rank an empty block.
\<close>

theorem valid_split_covers:
  assumes "split_validate counts layers world = Ok ()"
  shows "covers counts layers \<and> (\<forall>r a b. split_range counts r = Some (a, b) \<longrightarrow> a < b)"
  using assms total_covers [of counts] range_nonempty [of counts] by (auto simp: split_validate_Ok)

section \<open>The even split\<close>

definition even_size :: "nat \<Rightarrow> nat \<Rightarrow> nat \<Rightarrow> nat" where
  "even_size layers world i = layers div world + (if i < layers mod world then 1 else 0)"

lemma sum_even_size: "sum_list (map (even_size layers world) [0..<k]) = layers div world * k + min k (layers mod world)"
  by (induction k) (auto simp: even_size_def)

lemma even_size_total: "0 < world \<Longrightarrow> sum_list (map (even_size layers world) [0..<world]) = layers"
  by (simp add: sum_even_size min_absorb2 less_imp_le)

lemma reversed_sizes:
  assumes "r \<le> w"
  shows "map (\<lambda>r. f (w - 1 - r)) [r..<w] = rev (map f [0..<w - r])"
proof (rule nth_equalityI)
  fix i assume "i < length (map (\<lambda>r. f (w - 1 - r)) [r..<w])"
  then have i: "i < w - r" by simp
  then have "w - 1 - (r + i) = w - r - Suc i" by simp
  then show "map (\<lambda>r. f (w - 1 - r)) [r..<w] ! i = rev (map f [0..<w - r]) ! i"
    using i by (simp add: rev_nth)
qed simp

lemma split_even_eq:
  assumes "layers < 2 ^ 32"
  shows "split_even layers world = rev (map (even_size layers (max world 1)) [0..<max world 1])"
proof -
  have "even_size layers (max world 1) i < 2 ^ 32" for i
  proof (cases "i < layers mod max world 1")
    case True
    have "1 < max world 1" using True by (cases "world \<le> 1") (auto simp: max_def)
    moreover have "layers \<noteq> 0" using True by (cases layers) auto
    ultimately have "1 < max world 1" "0 < layers" by simp_all
    then have "layers div max world 1 < layers" by (rule div_less_dividend)
    then show ?thesis using True assms by (simp add: even_size_def)
  next
    case False
    moreover have "layers div max world 1 < 2 ^ 32" by (rule le_less_trans [OF div_le_dividend assms])
    ultimately show ?thesis by (simp add: even_size_def)
  qed
  then have "cast_u32 (even_size layers (max world 1) i) = even_size layers (max world 1) i" for i
    by (simp add: cast_u32_def)
  then have "split_even layers world =
      map (\<lambda>r. even_size layers (max world 1) (max world 1 - 1 - r)) [0..<max world 1]"
    by (simp add: split_even_def Let_def even_size_def)
  also have "\<dots> = rev (map (even_size layers (max world 1)) [0..<max world 1 - 0])"
    by (rule reversed_sizes) simp
  finally show ?thesis by simp
qed

text \<open>
  The even split and the range function agree on every rank, and together their ranges
  cover the model.
\<close>

theorem even_split_is_pipeline_range:
  assumes "layers < 2 ^ 32" and "rank < max world 1"
  shows "\<exists>range. pipeline_layer_range layers rank world = Ok range \<and>
    split_range (split_even layers world) rank = Some range \<and> covers (split_even layers world) layers"
proof -
  let ?w = "max world 1" and ?f = "even_size layers (max world 1)"
  have even: "split_even layers world = map (\<lambda>r. ?f (?w - 1 - r)) [0..<?w]"
    using split_even_eq [OF assms(1), of world] reversed_sizes [of 0 ?w ?f] by simp
  have "drop (rank + 1) (split_even layers world) = map (\<lambda>r. ?f (?w - 1 - r)) [rank + 1..<?w]"
    unfolding even by (simp add: drop_map)
  also have "\<dots> = rev (map ?f [0..<?w - 1 - rank])"
    using reversed_sizes [of "rank + 1" ?w ?f] assms(2) by simp
  finally have start: "sum_list (drop (rank + 1) (split_even layers world)) = sum_list (map ?f [0..<?w - 1 - rank])"
    by simp
  have "length (split_even layers world) = ?w" "split_even layers world ! rank = ?f (?w - 1 - rank)"
    using assms(2) unfolding even by simp_all
  then have "split_range (split_even layers world) rank =
      Some (sum_list (map ?f [0..<?w - 1 - rank]), sum_list (map ?f [0..<?w - 1 - rank]) + ?f (?w - 1 - rank))"
    using assms(2) start by (simp only: split_range_def Let_def not_le [symmetric] if_False)
  moreover have "pipeline_layer_range layers rank world =
      Ok (sum_list (map ?f [0..<?w - 1 - rank]), sum_list (map ?f [0..<?w - 1 - rank]) + ?f (?w - 1 - rank))"
    using assms(2) by (simp add: pipeline_layer_range_def Let_def even_size_def [abs_def])
  moreover have "covers (split_even layers world) layers"
  proof -
    have "sum_list (split_even layers world) = layers"
      using split_even_eq [OF assms(1), of world] even_size_total [of ?w layers] by simp
    then show ?thesis using total_covers by metis
  qed
  ultimately show ?thesis by blast
qed

section \<open>The proportional split\<close>

lemma foldl_increment:
  assumes "distinct xs" "set xs \<subseteq> {..<length cs}"
  shows "sum_list (foldl (\<lambda>cs r. cs[r := cs ! r + 1]) cs xs) = sum_list cs + length xs \<and>
    length (foldl (\<lambda>cs r. cs[r := cs ! r + 1]) cs xs) = length cs \<and>
    (\<forall>i < length cs. cs ! i \<le> foldl (\<lambda>cs r. cs[r := cs ! r + 1]) cs xs ! i)"
  using assms
proof (induction xs arbitrary: cs)
  case (Cons x xs)
  let ?cs = "cs[x := cs ! x + 1]"
  have x: "x < length cs" using Cons.prems by simp
  have "sum_list ?cs = sum_list cs + 1"
    using x by (simp add: sum_list_update elem_le_sum_list)
  moreover have "\<forall>i < length cs. cs ! i \<le> ?cs ! i" using x by (simp add: nth_list_update)
  ultimately show ?case using Cons.IH [of ?cs] Cons.prems by (auto intro: order_trans)
qed simp

text \<open>
  The proportional split gives every rank at least one layer and all layers away, so the
  check accepts it, as long as the shares neither exceed the spare layers nor leave out more
  of them than there are ranks.
\<close>

theorem weighted_split_valid:
  assumes "0 < length weights" "length weights \<le> layers" "layers < 2 ^ 32" "0 < sum_list weights"
    and "given = sum_list (map (\<lambda>w. fst (share (layers - length weights) (sum_list weights) w)) weights)"
    and "given \<le> layers - length weights" "layers - length weights - given \<le> length weights"
  shows "\<exists>counts. split_weighted share layers weights = Some counts \<and>
    split_validate counts layers (length weights) = Ok ()"
proof -
  define spare where "spare = layers - length weights"
  define parts where "parts = map (share spare (sum_list weights)) weights"
  define counts where "counts = map (\<lambda>p. 1 + cast_u32 (fst p)) parts"
  define order where "order = map fst (sort_key (\<lambda>(r, frac). (- frac, r)) (enumerate 0 (map snd parts)))"
  define result where "result = foldl (\<lambda>cs r. cs[r := cs ! r + 1]) counts (take (spare - given) order)"
  have given: "given = sum_list (map fst parts)" using assms(5) by (simp add: parts_def spare_def comp_def)
  have res: "split_weighted share layers weights = Some result"
  proof -
    have c: "\<not> (length weights = 0 \<or> layers = 0)" "\<not> length weights > layers" "sum_list weights \<noteq> 0"
      "\<not> given > spare"
      using assms(1,2) assms(4) [THEN less_imp_neq, symmetric] assms(6) unfolding spare_def by linarith+
    show ?thesis
      by (simp only: split_weighted_def Let_def c if_False spare_def [symmetric] parts_def [symmetric]
          given [symmetric] counts_def [symmetric] order_def [symmetric] result_def [symmetric])
  qed
  have len: "length counts = length weights" by (simp add: counts_def parts_def)
  have "cast_u32 (fst p) = fst p" if "p \<in> set parts" for p
  proof -
    have "fst p \<le> given" unfolding given using that by (intro member_le_sum_list) auto
    then show ?thesis using assms(3,6) by (simp add: cast_u32_def)
  qed
  then have "counts = map (\<lambda>p. 1 + fst p) parts" unfolding counts_def by (intro map_cong refl) simp
  then have sum: "sum_list counts = length weights + given"
    unfolding given by (simp add: sum_list_Suc parts_def comp_def)
  have mset: "mset order = mset [0..<length weights]"
  proof -
    have "mset order = mset (map fst (enumerate 0 (map snd parts)))"
      unfolding order_def by (simp only: mset_map mset_sort)
    then show ?thesis by (simp only: map_fst_enumerate) (simp add: parts_def)
  qed
  then have ord: "distinct order" "set order = {..<length weights}" "length order = length weights"
    using mset_eq_imp_distinct_iff [OF mset] mset_eq_setD [OF mset] mset_eq_length [OF mset]
    by (simp_all add: lessThan_atLeast0)
  have "set (take (spare - given) order) \<subseteq> {..<length counts}" "distinct (take (spare - given) order)"
    using ord len set_take_subset [of "spare - given" order] by auto
  note inc = foldl_increment [OF this(2,1), folded result_def]
  have "length (take (spare - given) order) = spare - given" using ord(3) assms(7) by (simp add: spare_def)
  then have "sum_list result = layers" using inc sum assms(2,6) by (simp add: spare_def)
  moreover have "0 \<notin> set result"
  proof
    assume "0 \<in> set result"
    then obtain i where i: "i < length counts" "result ! i = 0" using inc by (auto simp: in_set_conv_nth)
    then have "counts ! i \<le> 0" using inc by metis
    then show False using i by (simp add: counts_def)
  qed
  moreover have "cast_u32 (length result) = length weights"
    using inc len assms(2,3) by (simp add: cast_u32_def)
  ultimately show ?thesis using res by (auto simp: split_validate_Ok)
qed

text \<open>A fingerprint travels exactly through a float: it has 24 bits.\<close>

lemma fingerprint_bound: "unat (fingerprint counts) < 2 ^ 24"
proof -
  have m: "(0x00ffffff :: 32 word) = mask 24" by (simp add: mask_eq_exp_minus_1)
  have "unat (take_bit 24 h) < 2 ^ 24" for h :: "32 word"
    using take_bit_nat_less_exp [of 24 "unat h"] by (simp only: unsigned_take_bit_eq)
  then show ?thesis unfolding fingerprint_def m take_bit_eq_mask [symmetric] .
qed

section \<open>Concrete splits\<close>

theorem valid_split_covers_witness: "covers [10, 18] 28"
  using valid_split_covers [of "[10, 18]" 28 2] by (simp add: split_validate_Ok cast_u32_def)

theorem even_split_is_pipeline_range_witness:
  "pipeline_layer_range 7 0 3 = Ok (5, 7) \<and> split_range (split_even 7 3) 0 = Some (5, 7)"
proof -
  have "pipeline_layer_range 7 0 3 = Ok (5, 7)"
    by (simp add: pipeline_layer_range_def Let_def upt_rec)
  then show ?thesis using even_split_is_pipeline_range [of 7 0 3] by auto
qed

text \<open>Exact shares: the whole part and the fraction of the quotient.\<close>

definition exact_share :: "nat \<Rightarrow> nat \<Rightarrow> nat \<Rightarrow> nat \<times> rat" where
  "exact_share spare all w = (spare * w div all, of_nat (spare * w mod all) / of_nat all)"

theorem weighted_split_valid_witness:
  "\<exists>counts. split_weighted exact_share 28 [16, 64] = Some counts \<and> split_validate counts 28 2 = Ok ()"
proof -
  have len: "length [16, 64::nat] = 2" by simp
  show ?thesis
    using weighted_split_valid [of "[16, 64]" 28 25 exact_share, unfolded len]
    by (simp add: exact_share_def)
qed

end
