(* ===== verification/Layouts.thy ===== *)
theory Layouts
  imports LegalizeBroadcast
begin

text \<open>
  Row-major layouts: the linear index of a multi-index, and which element of a tensor the
  element of its transpose is. The kernels the layout passes are correct for: a transpose
  permutes its operand, a constant holds its decoded bytes, an elementwise operator combines
  broadcast reads of its operands element by element, and anything else is arbitrary. Extents
  of symbolic dimensions are given by an environment.
\<close>

section \<open>Linear and multi-indices\<close>

fun strides :: "nat list \<Rightarrow> nat list" where
  "strides [] = []"
| "strides (d # ds) = prod_list ds # strides ds"

fun unravel :: "nat list \<Rightarrow> nat \<Rightarrow> nat list" where
  "unravel [] k = []"
| "unravel (d # ds) k = k div prod_list ds # unravel ds (k mod prod_list ds)"

definition offset_of :: "nat list \<Rightarrow> nat list \<Rightarrow> nat" where
  "offset_of st idx = (\<Sum>i < length idx. idx ! i * st ! i)"

abbreviation in_bounds :: "nat list \<Rightarrow> nat list \<Rightarrow> bool" where
  "in_bounds \<equiv> list_all2 (<)"

lemma length_strides [simp]: "length (strides ds) = length ds"
  by (induction ds) auto

lemma length_unravel [simp]: "length (unravel ds k) = length ds"
  by (induction ds arbitrary: k) auto

lemma offset_Nil [simp]: "offset_of st [] = 0"
  by (simp add: offset_of_def)

lemma offset_Cons [simp]: "offset_of (s # st) (i # idx) = i * s + offset_of st idx"
  unfolding offset_of_def by (simp add: lessThan_Suc_eq_insert_0 sum.reindex comp_def)

lemma offset_unravel: "k < prod_list ds \<Longrightarrow> offset_of (strides ds) (unravel ds k) = k"
proof (induction ds arbitrary: k)
  case (Cons d ds)
  have "prod_list ds \<noteq> 0" using Cons.prems by (intro notI) simp
  then show ?case using Cons.IH [of "k mod prod_list ds"] by simp
qed simp

lemma unravel_bounds: "k < prod_list ds \<Longrightarrow> in_bounds (unravel ds k) ds"
proof (induction ds arbitrary: k)
  case (Cons d ds)
  have "prod_list ds \<noteq> 0" using Cons.prems by (intro notI) simp
  then show ?case using Cons by (simp add: less_mult_imp_div_less)
qed simp

lemma offset_bound: "in_bounds idx ds \<Longrightarrow> offset_of (strides ds) idx < prod_list ds"
proof (induction idx ds rule: list_all2_induct)
  case (Cons i idx d ds)
  then have "i * prod_list ds + offset_of (strides ds) idx < Suc i * prod_list ds" by simp
  also have "\<dots> \<le> d * prod_list ds" using Cons.hyps(1) by (intro mult_le_mono1) simp
  finally show ?case by simp
qed simp

lemma unravel_offset: "in_bounds idx ds \<Longrightarrow> unravel ds (offset_of (strides ds) idx) = idx"
proof (induction idx ds rule: list_all2_induct)
  case (Cons i idx d ds)
  then show ?case using offset_bound [OF Cons.hyps(2)] by simp
qed simp

section \<open>Permuted reads\<close>

definition is_perm :: "nat list \<Rightarrow> nat \<Rightarrow> bool" where
  "is_perm p r \<longleftrightarrow> length p = r \<and> distinct p \<and> set p = {..<r}"

lemma is_permD: "is_perm p r \<Longrightarrow> i < r \<Longrightarrow> p ! i < r"
  unfolding is_perm_def using nth_mem by (metis lessThan_iff)

lemma is_perm_bij: "is_perm p r \<Longrightarrow> bij_betw ((!) p) {..<r} {..<r}"
  unfolding is_perm_def by (intro bij_betw_nth) auto

lemma is_perm_id: "is_perm [0..<r] r"
  by (auto simp: is_perm_def)

lemma is_perm_compose:
  assumes "is_perm p r" and "is_perm q r"
  shows "is_perm (map ((!) p) q) r"
proof -
  have inj: "inj_on ((!) p) {..<r}" and img: "(!) p ` {..<r} = {..<r}"
    using is_perm_bij [OF assms(1)] by (simp_all add: bij_betw_def)
  show ?thesis using assms(2) inj img by (simp add: is_perm_def distinct_map)
qed

definition src_index :: "nat list \<Rightarrow> nat list \<Rightarrow> nat \<Rightarrow> nat" where
  "src_index ds p k = offset_of (map ((!) (strides ds)) p) (unravel (map ((!) ds) p) k)"

text \<open>The multi-index of the source element, from that of the result element.\<close>

definition pull_back :: "nat list \<Rightarrow> nat list \<Rightarrow> nat list" where
  "pull_back p idx = map (\<lambda>j. idx ! the_inv_into {..<length p} ((!) p) j) [0..<length p]"

lemma pull_back_nth:
  assumes "is_perm p r" and "i < r"
  shows "pull_back p idx ! (p ! i) = idx ! i"
proof -
  have "length p = r" using assms(1) by (simp add: is_perm_def)
  moreover have "the_inv_into {..<r} ((!) p) (p ! i) = i"
    using is_perm_bij [OF assms(1)] assms(2) by (intro the_inv_into_f_f) (auto simp: bij_betw_def)
  ultimately show ?thesis using is_permD [OF assms] by (simp add: pull_back_def)
qed

lemma offset_pull_back:
  assumes "is_perm p r" and "length idx = r" and "length st = r"
  shows "offset_of (map ((!) st) p) idx = offset_of st (pull_back p idx)"
proof -
  have len: "length p = r" using assms(1) by (simp add: is_perm_def)
  have "offset_of st (pull_back p idx) = (\<Sum>j < r. pull_back p idx ! j * st ! j)"
    using len by (simp add: offset_of_def pull_back_def)
  also have "\<dots> = (\<Sum>i < r. pull_back p idx ! (p ! i) * st ! (p ! i))"
    by (rule sum.reindex_bij_betw [OF is_perm_bij [OF assms(1)], symmetric])
  also have "\<dots> = (\<Sum>i < r. idx ! i * st ! (p ! i))"
    using pull_back_nth [OF assms(1)] by (intro sum.cong) auto
  finally show ?thesis using assms len by (simp add: offset_of_def)
qed

lemma pull_back_bounds:
  assumes "is_perm p (length ds)" and "in_bounds idx (map ((!) ds) p)"
  shows "in_bounds (pull_back p idx) ds"
proof -
  have len: "length p = length ds" using assms(1) by (simp add: is_perm_def)
  show ?thesis unfolding list_all2_conv_all_nth
  proof (intro conjI allI impI)
    fix j assume "j < length (pull_back p idx)"
    then have j: "j < length ds" using len by (simp add: pull_back_def)
    then have "j \<in> (!) p ` {..<length ds}" using is_perm_bij [OF assms(1)] by (simp add: bij_betw_def)
    then obtain i where i: "i < length ds" "p ! i = j" by auto
    then show "pull_back p idx ! j < ds ! j"
      using pull_back_nth [OF assms(1) i(1)] assms(2) len by (auto simp: list_all2_conv_all_nth)
  qed (simp add: pull_back_def len)
qed

lemma prod_perm: "is_perm p (length ds) \<Longrightarrow> prod_list (map ((!) ds) p) = prod_list (ds :: nat list)"
proof -
  assume p: "is_perm p (length ds)"
  then have "mset p = mset [0..<length ds]"
    using set_eq_iff_mset_eq_distinct [of p "[0..<length ds]"] by (simp add: is_perm_def lessThan_atLeast0)
  then have "mset (map ((!) ds) p) = mset (map ((!) ds) [0..<length ds])" by (simp only: mset_map)
  then have "mset (map ((!) ds) p) = mset ds" by (simp only: map_nth)
  then show ?thesis by (simp only: prod_mset_prod_list [symmetric])
qed

lemma src_index_bound:
  assumes "is_perm p (length ds)" and "k < prod_list ds"
  shows "src_index ds p k < prod_list ds" and
    "unravel ds (src_index ds p k) = pull_back p (unravel (map ((!) ds) p) k)"
proof -
  let ?u = "unravel (map ((!) ds) p) k"
  have len: "length ?u = length ds" using assms(1) by (simp add: is_perm_def)
  have "in_bounds ?u (map ((!) ds) p)" using prod_perm [OF assms(1)] assms(2) by (intro unravel_bounds) simp
  note b = pull_back_bounds [OF assms(1) this]
  have "src_index ds p k = offset_of (strides ds) (pull_back p ?u)"
    unfolding src_index_def by (rule offset_pull_back [OF assms(1) len]) simp
  then show "src_index ds p k < prod_list ds" "unravel ds (src_index ds p k) = pull_back p ?u"
    using offset_bound [OF b] unravel_offset [OF b] by simp_all
qed

lemma map_nth_perm: "is_perm q (length p) \<Longrightarrow> map ((!) (map f p)) q = map f (map ((!) p) q)"
  using is_permD [of q "length p"] by (auto simp: is_perm_def)

text \<open>Transposing twice is transposing once by the composed permutation.\<close>

lemma src_index_compose:
  assumes p: "is_perm p (length ds)" and q: "is_perm q (length ds)" and k: "k < prod_list ds"
  shows "src_index ds p (src_index (map ((!) ds) p) q k) = src_index ds (map ((!) p) q) k"
proof -
  have len: "length p = length ds" "length q = length ds" using p q by (simp_all add: is_perm_def)
  let ?d = "map ((!) ds) p" and ?u = "unravel (map ((!) (map ((!) ds) p)) q) k"
  have q': "is_perm q (length ?d)" using q len by simp
  have "unravel ?d (src_index ?d q k) = pull_back q ?u"
    using src_index_bound(2) [OF q'] prod_perm [OF p] k by simp
  then have "src_index ds p (src_index ?d q k) = offset_of (map ((!) (strides ds)) p) (pull_back q ?u)"
    by (simp add: src_index_def)
  also have "\<dots> = offset_of (map ((!) (map ((!) (strides ds)) p)) q) ?u"
    by (rule offset_pull_back [OF q, symmetric]) (use len in simp_all)
  also have "\<dots> = src_index ds (map ((!) p) q) k"
    using q len by (simp only: src_index_def map_nth_perm)
  finally show ?thesis .
qed

lemma src_index_id: "k < prod_list ds \<Longrightarrow> src_index ds [0..<length ds] k = k"
proof -
  assume "k < prod_list ds"
  moreover have "map ((!) (strides ds)) [0..<length ds] = strides ds"
    using map_nth [of "strides ds"] by simp
  ultimately show ?thesis by (simp only: src_index_def map_nth offset_unravel)
qed

definition permute_data :: "nat list \<Rightarrow> nat list \<Rightarrow> 'a list \<Rightarrow> 'a list" where
  "permute_data ds p xs = map (\<lambda>k. xs ! src_index ds p k) [0..<prod_list ds]"

lemma permute_data_id:
  "length xs = prod_list ds \<Longrightarrow> permute_data ds [0..<length ds] xs = xs"
  by (rule nth_equalityI) (simp_all add: permute_data_def src_index_id)

lemma permute_data_compose:
  assumes "is_perm p (length ds)" and "is_perm q (length ds)"
  shows "permute_data (map ((!) ds) p) q (permute_data ds p xs) = permute_data ds (map ((!) p) q) xs"
proof -
  have len: "length p = length ds" using assms(1) by (simp add: is_perm_def)
  have "src_index (map ((!) ds) p) q k < prod_list ds" if "k < prod_list ds" for k
    using src_index_bound(1) [of q "map ((!) ds) p" k] assms that prod_perm [OF assms(1)] len by simp
  then show ?thesis unfolding permute_data_def
    using assms by (auto simp: prod_perm src_index_compose)
qed

section \<open>Kernels\<close>

definition extents_in :: "(nat \<Rightarrow> nat) \<Rightarrow> shape \<Rightarrow> nat list" where
  "extents_in env s = map (\<lambda>d. case d of Static n \<Rightarrow> n | Dynamic y \<Rightarrow> env y) (dims s)"

fun is_elementwise :: "op \<Rightarrow> bool" where
  "is_elementwise (Activation a) = True"
| "is_elementwise (Binary b) = True"
| "is_elementwise (Compare c) = True"
| "is_elementwise Where = True"
| "is_elementwise (Cast d) = True"
| "is_elementwise _ = False"

fun transpose_perm :: "op \<Rightarrow> nat list option" where
  "transpose_perm (Transpose p) = Some p"
| "transpose_perm _ = None"

fun constant_data :: "op \<Rightarrow> bytes option" where
  "constant_data (Constant b) = Some b"
| "constant_data _ = None"

definition decoded :: "(dtype \<Rightarrow> bytes \<Rightarrow> 'a) \<Rightarrow> dtype \<Rightarrow> nat \<Rightarrow> bytes \<Rightarrow> 'a list" where
  "decoded dec t n b =
     (let e = dtype_size_bytes t in map (\<lambda>k. dec t (take e (drop (k * e) b))) [0..<n])"

definition pointwise :: "('a list \<Rightarrow> 'a) \<Rightarrow> nat list \<Rightarrow> 'a tensor list \<Rightarrow> 'a list" where
  "pointwise f ds vs = map (\<lambda>k. f (map (\<lambda>x. bcast_read x ds k) vs)) [0..<prod_list ds]"

definition layout_kernels ::
  "(nat \<Rightarrow> nat) \<Rightarrow> (op \<Rightarrow> dtype \<Rightarrow> 'a list \<Rightarrow> 'a) \<Rightarrow> (dtype \<Rightarrow> bytes \<Rightarrow> 'a) \<Rightarrow>
   (op \<Rightarrow> shape \<Rightarrow> 'a tensor list \<Rightarrow> 'a list) \<Rightarrow> 'a tensor kernels" where
  "layout_kernels env f dec other opr s vs =
     (let ds = extents_in env s in
      \<lparr>t_dims = ds, t_data =
         (case transpose_perm opr of
            Some p \<Rightarrow> permute_data (t_dims (vs ! 0)) p (t_data (vs ! 0))
          | None \<Rightarrow>
            if is_elementwise opr then pointwise (f opr (shape_dtype s)) ds vs
            else case constant_data opr of
              Some b \<Rightarrow> decoded dec (shape_dtype s) (prod_list ds) b
            | None \<Rightarrow> other opr s vs)\<rparr>)"

text \<open>The arbitrary kernels fill their output.\<close>

definition sized_in :: "(nat \<Rightarrow> nat) \<Rightarrow> (op \<Rightarrow> shape \<Rightarrow> 'a tensor list \<Rightarrow> 'a list) \<Rightarrow> bool" where
  "sized_in env other \<longleftrightarrow> (\<forall>opr s vs. length (other opr s vs) = prod_list (extents_in env s))"

lemma bcast_read_same:
  "t_dims x = ds \<Longrightarrow> k < prod_list ds \<Longrightarrow> bcast_read x ds k = t_data x ! k"
  using bcast_index_clean [of "rev ds" "[]" k] by (simp add: bcast_read_def)

lemma bcast_read_ones: "\<forall>n \<in> set (t_dims x). n = 1 \<Longrightarrow> bcast_read x ds k = t_data x ! 0"
  by (simp add: bcast_read_def bcast_index_ones)

lemma one_element:
  assumes "num_elements s = Some 1"
  shows "\<forall>n \<in> set (extents_in env s). n = 1"
proof -
  obtain ns where ns: "dims s = map Static ns" "prod_list ns = 1"
    using num_elements_Some [OF assms] by metis
  have "extents_in env s = ns" by (simp add: extents_in_def ns(1) comp_def)
  then show ?thesis using ns(2) by (simp only: prod_list_nat_1)
qed

text \<open>Permuting the result of an elementwise operator is permuting its operands, except for
  those of one element.\<close>

lemma permute_pointwise:
  assumes p: "is_perm p (length ds)" and "length xs = length ys"
    and args: "\<And>i. i < length xs \<Longrightarrow>
      (\<forall>n \<in> set (t_dims (xs ! i)). n = 1) \<and> ys ! i = xs ! i \<or>
      t_dims (xs ! i) = ds \<and> t_dims (ys ! i) = map ((!) ds) p \<and>
        t_data (ys ! i) = permute_data ds p (t_data (xs ! i))"
  shows "permute_data ds p (pointwise f ds xs) = pointwise f (map ((!) ds) p) ys"
proof (rule nth_equalityI)
  fix k assume "k < length (permute_data ds p (pointwise f ds xs))"
  then have k: "k < prod_list ds" by (simp add: permute_data_def)
  note src = src_index_bound(1) [OF p k]
  have "bcast_read (xs ! i) ds (src_index ds p k) = bcast_read (ys ! i) (map ((!) ds) p) k"
    if "i < length xs" for i
    using args [OF that]
  proof
    assume "(\<forall>n \<in> set (t_dims (xs ! i)). n = 1) \<and> ys ! i = xs ! i"
    then show ?thesis by (simp add: bcast_read_ones)
  next
    assume "t_dims (xs ! i) = ds \<and> t_dims (ys ! i) = map ((!) ds) p \<and>
        t_data (ys ! i) = permute_data ds p (t_data (xs ! i))"
    then show ?thesis using bcast_read_same [of "xs ! i" ds, OF _ src]
        bcast_read_same [of "ys ! i" "map ((!) ds) p" k] k prod_perm [OF p]
      by (simp add: permute_data_def)
  qed
  then have "map (\<lambda>x. bcast_read x ds (src_index ds p k)) xs = map (\<lambda>x. bcast_read x (map ((!) ds) p) k) ys"
    using assms(2) by (intro nth_equalityI) auto
  then show "permute_data ds p (pointwise f ds xs) ! k = pointwise f (map ((!) ds) p) ys ! k"
    using k src prod_perm [OF p] by (simp add: permute_data_def pointwise_def)
qed (simp add: permute_data_def pointwise_def prod_perm [OF p])

section \<open>Evaluating passes\<close>

text \<open>Congruences that leave the rest of a computation alone until its input is a value.\<close>

lemma bind_outcome_weak: "m = m' \<Longrightarrow> bind_outcome m f = bind_outcome m' f"
  by simp

lemma for_each_weak: "s = s' \<Longrightarrow> xs = xs' \<Longrightarrow> for_each f s xs = for_each f s' xs'"
  by simp

end
