(* ===== verification/SimplifyTransposes.thy ===== *)
theory SimplifyTransposes
  imports Layouts DCE
begin

text \<open>
  Removal of transposes that cancel (\<open>crates/core/rlx-compile/src/simplify_transposes.rs\<close>): up
  to eight rounds that rebuild the graph, in which a transpose of a transpose is composed, one of
  a constant is computed, and one of an elementwise operator whose operands are transposes moves
  below it. The recursions over the new graph go to smaller node ids; the fuel of the two that
  have no bound of their own is the id they start from.
\<close>

section \<open>Permutations, shapes and constants\<close>

definition compose :: "nat list \<Rightarrow> nat list \<Rightarrow> nat list res" where
  "compose inner outer = traverse (index_or_panic inner) outer"

definition is_identity :: "nat list \<Rightarrow> bool" where
  "is_identity p = list_all (\<lambda>(i, d). i = d) (enumerate 0 p)"

definition one_elem :: "shape \<Rightarrow> bool" where
  "one_elem s \<longleftrightarrow> num_elements s = Some 1"

definition permuted_shape :: "shape \<Rightarrow> nat list \<Rightarrow> shape res" where
  "permuted_shape s perm =
     bind_outcome (traverse (index_or_panic (dims s)) perm) (\<lambda>new. Ok (shape_from_dims new (shape_dtype s)))"

definition in_strides :: "nat list \<Rightarrow> nat list" where
  "in_strides ds =
     foldl (\<lambda>st i. st[i := st ! (i + 1) * ds ! (i + 1)]) (replicate (length ds) 1)
       (rev [0..<length ds - 1])"

text \<open>One step of the odometer over the first \<open>i\<close> digits, the last of them fastest.\<close>

primrec bump :: "nat list \<Rightarrow> nat list \<Rightarrow> nat \<Rightarrow> nat list" where
  "bump od idx 0 = idx"
| "bump od idx (Suc i) =
     (let idx' = idx[i := idx ! i + 1] in
      if idx' ! i < od ! i then idx' else bump od (idx'[i := 0]) i)"

text \<open>Copying element \<open>o\<close> of the result; a slice out of range panics.\<close>

definition copy_element :: "nat list \<Rightarrow> nat list \<Rightarrow> nat \<Rightarrow> nat \<Rightarrow> bytes \<Rightarrow> nat list \<Rightarrow> bytes res" where
  "copy_element st perm r esz b idx =
     (let src = sum_list (map (\<lambda>i. idx ! i * st ! (perm ! i)) [0..<r]) in
      if (src + 1) * esz \<le> length b then Ok (take esz (drop (src * esz) b)) else Panic)"

definition permute_bytes :: "bytes \<Rightarrow> shape \<Rightarrow> nat list \<Rightarrow> bytes option res" where
  "permute_bytes b s perm =
     (if \<not> list_all is_static (dims s) then Ok None
      else let ds = map (\<lambda>d. case d of Static n \<Rightarrow> n | Dynamic _ \<Rightarrow> 0) (dims s);
               n = prod_list ds; esz = dtype_size_bytes (shape_dtype s); r = length ds
        in if n = 0 \<or> length b \<noteq> n * esz then Ok None
           else bind_outcome (traverse (index_or_panic ds) perm) (\<lambda>od.
             if length perm < r then Panic
             else bind_outcome (traverse (copy_element (in_strides ds) perm r esz b)
                      (map (\<lambda>k. ((\<lambda>idx. bump od idx r) ^^ k) (replicate r 0)) [0..<n]))
                    (\<lambda>parts. Ok (Some (concat parts)))))"

section \<open>Moving a transpose\<close>

primrec transpose_onto :: "nat \<Rightarrow> graph \<Rightarrow> node_id \<Rightarrow> nat list \<Rightarrow> (graph \<times> node_id) res" where
  "transpose_onto 0 out src perm = Panic"
| "transpose_onto (Suc fuel) out src perm =
     bind_outcome (node_at out src) (\<lambda>s.
       if is_identity perm then Ok (out, src)
       else case transpose_perm (n_op s) of
         Some inner \<Rightarrow>
           bind_outcome (compose inner perm) (\<lambda>p.
           bind_outcome (index_or_panic (n_inputs s) 0) (\<lambda>base. transpose_onto fuel out base p))
       | None \<Rightarrow>
           bind_outcome (permuted_shape (n_shape s) perm) (\<lambda>sh. Ok (add_node out (Transpose perm) [src] sh)))"

definition uses_of :: "graph \<Rightarrow> node_id \<Rightarrow> nat" where
  "uses_of g i = count_list (concat (map n_inputs (g_nodes g)) @ g_outputs g) i"

text \<open>
  The loop over the operands keeps the permutation they share so far; \<open>None\<close> is the early
  return.
\<close>

function sink_perm ::
  "nat \<Rightarrow> graph \<Rightarrow> graph \<Rightarrow> (node_id \<Rightarrow> nat) \<Rightarrow> id_map \<Rightarrow> node_id \<Rightarrow> nat list option res" where
  "sink_perm depth out g uses rv i =
     bind_outcome (node_at out i) (\<lambda>n.
       case transpose_perm (n_op n) of
         Some p \<Rightarrow> Ok (Some p)
       | None \<Rightarrow>
         if depth \<ge> 8 \<or> \<not> is_elementwise (n_op n) then Ok None
         else case rv i of
           None \<Rightarrow> Ok None
         | Some old \<Rightarrow>
           if uses old \<noteq> 1 \<or> old \<in> set (g_outputs g) then Ok None
           else bind_outcome
             (for_each (\<lambda>st j. case st of
                None \<Rightarrow> Ok None
              | Some shared \<Rightarrow>
                bind_outcome (node_at out j) (\<lambda>opnd.
                  if one_elem (n_shape opnd) then Ok (Some shared)
                  else if dims (n_shape opnd) \<noteq> dims (n_shape n) then Ok None
                  else bind_outcome (sink_perm (depth + 1) out g uses rv j) (\<lambda>r. case r of
                      None \<Rightarrow> Ok None
                    | Some p \<Rightarrow> (case shared of
                        None \<Rightarrow> Ok (Some (Some p))
                      | Some q \<Rightarrow> Ok (if q = p then Some shared else None)))))
                (Some None) (n_inputs n))
             (\<lambda>st. Ok (case st of None \<Rightarrow> None | Some shared \<Rightarrow> shared)))"
  by pat_completeness auto

termination
  by (relation "measure (\<lambda>(depth, _). 8 - depth)") auto

declare sink_perm.simps [simp del]

primrec sink :: "nat \<Rightarrow> graph \<Rightarrow> node_id \<Rightarrow> nat list \<Rightarrow> (graph \<times> node_id) res" where
  "sink 0 out i perm = Panic"
| "sink (Suc fuel) out i perm =
     bind_outcome (node_at out i) (\<lambda>n.
       if transpose_perm (n_op n) \<noteq> None then transpose_onto (Suc i) out i perm
       else bind_outcome
         (for_each (\<lambda>(out, ins) j.
            bind_outcome (node_at out j) (\<lambda>opnd.
              if one_elem (n_shape opnd) then Ok (out, ins @ [j])
              else bind_outcome (sink fuel out j perm) (\<lambda>(out, j'). Ok (out, ins @ [j']))))
            (out, []) (n_inputs n))
         (\<lambda>(out, ins).
            bind_outcome (permuted_shape (n_shape n) perm) (\<lambda>sh. Ok (add_node out (n_op n) ins sh))))"

definition simplify ::
  "graph \<Rightarrow> graph \<Rightarrow> (node_id \<Rightarrow> nat) \<Rightarrow> id_map \<Rightarrow> node_id \<Rightarrow> node \<Rightarrow> nat list \<Rightarrow>
   (graph \<times> node_id) option res" where
  "simplify out g uses rv src src_node perm =
     (if is_identity perm then Ok (Some (out, src))
      else if transpose_perm (n_op src_node) \<noteq> None then
        bind_outcome (transpose_onto (Suc src) out src perm) (\<lambda>r. Ok (Some r))
      else case constant_data (n_op src_node) of
        Some b \<Rightarrow>
          bind_outcome (permute_bytes b (n_shape src_node) perm) (\<lambda>r. case r of
            None \<Rightarrow> Ok None
          | Some b' \<Rightarrow>
              bind_outcome (permuted_shape (n_shape src_node) perm) (\<lambda>sh.
                Ok (Some (add_node out (Constant b') [] sh))))
      | None \<Rightarrow>
          if is_elementwise (n_op src_node) then
            bind_outcome (sink_perm 0 out g uses rv src) (\<lambda>r. case r of
              None \<Rightarrow> Ok None
            | Some _ \<Rightarrow> bind_outcome (sink (Suc src) out src perm) (\<lambda>r. Ok (Some r)))
          else Ok None)"

section \<open>Rounds\<close>

definition copy_named :: "graph \<Rightarrow> node \<Rightarrow> node_id list \<Rightarrow> graph \<times> node_id" where
  "copy_named out n inputs =
     (case add_node out (n_op n) inputs (n_shape n) of (out', i) \<Rightarrow>
        (out'\<lparr>g_nodes := (g_nodes out')[i :=
           (g_nodes out' ! i)\<lparr>n_name := n_name n, n_origin := n_origin n\<rparr>]\<rparr>, i))"

text \<open>The new graph, the new id of an old node, the first old node of a new id, and whether a
  rule fired.\<close>

type_synonym round_state = "graph \<times> id_map \<times> id_map \<times> bool"

definition round_step :: "graph \<Rightarrow> round_state \<Rightarrow> node \<Rightarrow> round_state res" where
  "round_step g st n =
     (case st of (out, m, rv, fired) \<Rightarrow>
        let record_id = (\<lambda>(out', i) fired'.
              (out', m(n_id n \<mapsto> i), if rv i = None then rv(i \<mapsto> n_id n) else rv, fired'))
        in bind_outcome (map_ids m (n_inputs n)) (\<lambda>inputs.
          case transpose_perm (n_op n) of
            Some perm \<Rightarrow>
              bind_outcome (index_or_panic inputs 0) (\<lambda>src.
              bind_outcome (node_at out src) (\<lambda>src_node.
              bind_outcome (simplify out g (uses_of g) rv src src_node perm) (\<lambda>r. Ok (case r of
                Some res \<Rightarrow> record_id res True
              | None \<Rightarrow> record_id (copy_named out n inputs) fired))))
          | None \<Rightarrow> Ok (record_id (copy_named out n inputs) fired)))"

definition one_round :: "graph \<Rightarrow> (graph \<times> bool) res" where
  "one_round g =
     bind_outcome (for_each (round_step g) (graph_new (g_name g), Map.empty, Map.empty, False) (g_nodes g))
       (\<lambda>(out, m, rv, fired). bind_outcome (rebuild_outputs g out m) (\<lambda>out'. Ok (out', fired)))"

primrec rounds :: "nat \<Rightarrow> graph \<Rightarrow> bool \<Rightarrow> (graph \<times> bool) res" where
  "rounds 0 g changed = Ok (g, changed)"
| "rounds (Suc k) g changed =
     bind_outcome (one_round g) (\<lambda>(g', fired). if \<not> fired then Ok (g', changed) else rounds k g' True)"

text \<open>The graph and whether the pass reports a change.\<close>

definition simplify_transposes :: "graph \<Rightarrow> (graph \<times> bool) res" where
  "simplify_transposes g =
     (if \<not> list_ex (\<lambda>n. transpose_perm (n_op n) \<noteq> None) (g_nodes g) then Ok (g, False)
      else bind_outcome (rounds 8 g False) (\<lambda>(g', changed).
        if \<not> changed then Ok (g', False)
        else bind_outcome (dce_run g') (\<lambda>g''. Ok (g'', True))))"

end
