(* ===== verification/TransposeLaws.thy ===== *)
theory TransposeLaws
  imports SimplifyTransposes
begin

text \<open>
  Correctness of the removal of transposes: on graphs whose transposes have the shapes
  inference gives them, the pass returns and keeps the output values under any layout kernels.
\<close>

section \<open>The odometer\<close>

definition carries :: "nat list \<Rightarrow> nat list \<Rightarrow> nat \<Rightarrow> bool" where
  "carries ds xs n \<longleftrightarrow> (\<forall>i < n. ds ! i \<le> xs ! i + 1)"

lemma bump_Cons:
  "n \<le> length xs \<Longrightarrow> bump (d # ds) (x # xs) (Suc n) =
     (if carries ds xs n then bump (d # ds) (x # bump ds xs n) 1 else x # bump ds xs n)"
proof (induction n arbitrary: xs)
  case (Suc n)
  have c: "carries ds (xs[n := 0]) n \<longleftrightarrow> carries ds xs n" by (simp add: carries_def)
  have "carries ds xs (Suc n) \<longleftrightarrow> ds ! n \<le> xs ! n + 1 \<and> carries ds xs n"
    by (auto simp: carries_def less_Suc_eq)
  then show ?case using Suc.IH [of "xs[n := 0]"] Suc.prems c
    by (simp add: Let_def not_less)
qed (simp add: carries_def)

lemma bump_bounds:
  "in_bounds xs ds \<Longrightarrow>
     (carries ds xs (length ds) \<longleftrightarrow> offset_of (strides ds) xs + 1 = prod_list ds) \<and>
     (if carries ds xs (length ds) then bump ds xs (length ds) = replicate (length ds) 0
      else in_bounds (bump ds xs (length ds)) ds \<and>
        offset_of (strides ds) (bump ds xs (length ds)) = offset_of (strides ds) xs + 1)"
proof (induction xs ds rule: list_all2_induct)
  case (Cons x xs d ds)
  have len: "length xs = length ds" using Cons.hyps(2) by (rule list_all2_lengthD)
  have zero: "offset_of (strides ds) (replicate (length ds) 0) = 0"
    by (simp add: offset_of_def)
  have bd: "offset_of (strides ds) xs < prod_list ds" by (rule offset_bound [OF Cons.hyps(2)])
  have cc: "carries (d # ds) (x # xs) (Suc (length ds)) \<longleftrightarrow> d \<le> x + 1 \<and> carries ds xs (length ds)"
    by (simp add: carries_def All_less_Suc2)
  show ?case
  proof (cases "carries ds xs (length ds)")
    case True
    then have ih: "offset_of (strides ds) xs + 1 = prod_list ds" "bump ds xs (length ds) = replicate (length ds) 0"
      using Cons.IH by simp_all
    have b: "bump (d # ds) (x # xs) (Suc (length ds)) =
        (if x + 1 < d then (x + 1) # replicate (length ds) 0 else 0 # replicate (length ds) 0)"
      using bump_Cons [of "length ds" xs d ds x] True ih(2) len by (simp add: Let_def)
    have z: "in_bounds (replicate (length ds) 0) ds"
      using Cons.hyps(2) by (auto simp: list_all2_conv_all_nth)
    show ?thesis
    proof (cases "x + 1 < d")
      case True
      have "x * prod_list ds + offset_of (strides ds) xs + 1 = (x + 1) * prod_list ds" using ih(1) by simp
      moreover have "(x + 1) * prod_list ds < d * prod_list ds"
        by (rule mult_strict_right_mono [OF True]) (use bd in linarith)
      ultimately show ?thesis using True b z zero cc by simp
    next
      case False
      then have "d = x + 1" using Cons.hyps(1) by simp
      then show ?thesis using b cc \<open>carries ds xs (length ds)\<close> ih(1) by simp
    qed
  next
    case False
    then have ih: "offset_of (strides ds) xs + 1 \<noteq> prod_list ds" "in_bounds (bump ds xs (length ds)) ds"
      "offset_of (strides ds) (bump ds xs (length ds)) = offset_of (strides ds) xs + 1"
      using Cons.IH by simp_all
    have "x * prod_list ds + offset_of (strides ds) xs + 1 < (x + 1) * prod_list ds" using ih(1) bd by simp
    also have "\<dots> \<le> d * prod_list ds" using Cons.hyps(1) by (intro mult_le_mono1) simp
    finally show ?thesis
      using bump_Cons [of "length ds" xs d ds x] False ih Cons.hyps(1) cc len by simp
  qed
qed (simp add: carries_def)

lemma odometer:
  "k < prod_list ds \<Longrightarrow> ((\<lambda>idx. bump ds idx (length ds)) ^^ k) (replicate (length ds) 0) = unravel ds k"
proof (induction k)
  case 0
  have "unravel ds 0 = replicate (length ds) 0" by (induction ds) auto
  then show ?case by simp
next
  case (Suc k)
  then have k: "k < prod_list ds" by simp
  let ?u = "unravel ds k"
  note b = bump_bounds [OF unravel_bounds [OF k]]
  have "in_bounds (bump ds ?u (length ds)) ds \<and> offset_of (strides ds) (bump ds ?u (length ds)) = k + 1"
    using b offset_unravel [OF k] Suc.prems by (auto split: if_splits)
  then have "bump ds ?u (length ds) = unravel ds (k + 1)" using unravel_offset by metis
  then show ?case using Suc.IH k by simp
qed

lemma in_strides_eq: "in_strides ds = strides ds"
proof -
  let ?f = "\<lambda>st i. st[i := st ! (i + 1) * ds ! (i + 1)]"
  have "strides ds ! i = strides ds ! (i + 1) * ds ! (i + 1)" if "i + 1 < length ds" for i
    using that
  proof (induction ds arbitrary: i)
    case (Cons d ds)
    show ?case
    proof (cases i)
      case 0
      then show ?thesis using Cons.prems by (cases ds) (simp_all add: mult.commute)
    next
      case (Suc j)
      then show ?thesis using Cons.IH [of j] Cons.prems by simp
    qed
  qed simp
  note step = this
  have "foldl ?f (replicate (length ds) 1) (rev [length ds - 1 - m..<length ds - 1]) =
      replicate (length ds - 1 - m) 1 @ drop (length ds - 1 - m) (strides ds)"
    if "m \<le> length ds - 1" for m
    using that
  proof (induction m)
    case 0
    have "drop (length ds - 1) (strides ds) = replicate (length ds - (length ds - 1)) 1"
    proof (cases ds rule: rev_cases)
      case (snoc es e)
      have "drop (length es) (strides (es @ [e])) = [1]" for es by (induction es) auto
      then show ?thesis using snoc by simp
    qed simp
    then show ?case by (simp flip: replicate_add)
  next
    case (Suc m)
    let ?i = "length ds - 1 - Suc m"
    have i: "?i + 1 < length ds" "length ds - 1 - m = Suc ?i" using Suc.prems by auto
    have "[?i..<length ds - 1] = ?i # [Suc ?i..<length ds - 1]" using Suc.prems by (intro upt_conv_Cons) auto
    then have "foldl ?f (replicate (length ds) 1) (rev [?i..<length ds - 1]) =
        ?f (replicate (Suc ?i) 1 @ drop (Suc ?i) (strides ds)) ?i"
      using Suc i by simp
    also have "\<dots> = replicate ?i 1 @ (strides ds ! (?i + 1) * ds ! (?i + 1)) # drop (Suc ?i) (strides ds)"
      using i by (simp add: nth_append replicate_append_same [symmetric] list_update_append)
    also have "\<dots> = replicate ?i 1 @ drop ?i (strides ds)"
      using i step [of ?i] by (simp add: Cons_nth_drop_Suc [symmetric])
    finally show ?case .
  qed
  from this [of "length ds - 1"] show ?thesis by (simp add: in_strides_def)
qed

section \<open>Typed graphs and permuted values\<close>

text \<open>Every transpose has the shape inference gives it, for a permutation without repetition.\<close>

definition transposes_typed :: "graph \<Rightarrow> bool" where
  "transposes_typed g \<longleftrightarrow> (\<forall>n \<in> set (g_nodes g). \<forall>p. transpose_perm (n_op n) = Some p \<longrightarrow>
     n_inputs n \<noteq> [] \<and> distinct p \<and>
     transpose_shape (n_shape (g_nodes g ! (n_inputs n ! 0))) p = Ok (n_shape n))"

definition shape_permute :: "nat list \<Rightarrow> shape \<Rightarrow> shape" where
  "shape_permute p s = \<lparr>dims = map ((!) (dims s)) p, shape_dtype = shape_dtype s\<rparr>"

definition tensor_permute :: "nat list \<Rightarrow> 'a tensor \<Rightarrow> 'a tensor" where
  "tensor_permute p x =
     \<lparr>t_dims = map ((!) (t_dims x)) p, t_data = permute_data (t_dims x) p (t_data x)\<rparr>"

lemma traverse_index:
  "traverse (index_or_panic xs) is = Ok ys \<longleftrightarrow> (\<forall>i \<in> set is. i < length xs) \<and> ys = map ((!) xs) is"
  by (induction "is" arbitrary: ys) (auto simp: outcome_simps)

lemma transpose_shape_Ok:
  "distinct p \<Longrightarrow> transpose_shape s p = Ok t \<longleftrightarrow> is_perm p (rank s) \<and> t = shape_permute p s"
proof -
  assume d: "distinct p"
  have "dim_at s = index_or_panic (dims s)" by (rule ext) (simp add: dim_at_def)
  then have "transpose_shape s p = Ok t \<longleftrightarrow>
      length p = rank s \<and> (\<forall>i \<in> set p. i < rank s) \<and> t = shape_permute p s"
    by (auto simp: transpose_shape_def bind_outcome_Ok traverse_index shape_permute_def rank_def)
  moreover have "length p = rank s \<Longrightarrow> \<forall>i \<in> set p. i < rank s \<Longrightarrow> set p = {..<rank s}"
    using d by (intro card_subset_eq) (auto simp: distinct_card)
  ultimately show ?thesis using d by (auto simp: is_perm_def)
qed

lemma permuted_shape_Ok: "is_perm p (rank s) \<Longrightarrow> permuted_shape s p = Ok (shape_permute p s)"
  by (simp add: permuted_shape_def shape_from_dims_def shape_permute_def bind_outcome_Ok traverse_index
      is_perm_def rank_def)

lemma compose_Ok: "is_perm p r \<Longrightarrow> is_perm q r \<Longrightarrow> compose p q = Ok (map ((!) p) q)"
  by (simp add: compose_def traverse_index is_perm_def)

lemma rank_shape_permute [simp]: "rank (shape_permute p s) = length p"
  by (simp add: rank_def shape_permute_def)

lemma extents_rank: "length (extents_in env s) = rank s"
  by (simp add: extents_in_def rank_def)

lemma extents_permute:
  "is_perm p (rank s) \<Longrightarrow> extents_in env (shape_permute p s) = map ((!) (extents_in env s)) p"
  by (auto simp: extents_in_def shape_permute_def is_perm_def rank_def)

lemma is_identityD: "is_identity p \<Longrightarrow> p = [0..<length p]"
  by (rule nth_equalityI) (auto simp: is_identity_def list_all_iff in_set_enumerate_eq)

lemma shape_permute_id: "shape_permute [0..<rank s] s = s"
  by (simp add: shape_permute_def rank_def map_nth)

lemma shape_permute_compose:
  "is_perm p (rank s) \<Longrightarrow> is_perm q (rank s) \<Longrightarrow>
     shape_permute q (shape_permute p s) = shape_permute (map ((!) p) q) s"
  by (simp add: shape_permute_def map_nth_perm is_perm_def)

lemma tensor_permute_id:
  "length (t_data x) = prod_list (t_dims x) \<Longrightarrow> tensor_permute [0..<length (t_dims x)] x = x"
  by (simp add: tensor_permute_def permute_data_id map_nth)

lemma tensor_permute_compose:
  assumes "is_perm p (length (t_dims x))" and "is_perm q (length (t_dims x))"
  shows "tensor_permute q (tensor_permute p x) = tensor_permute (map ((!) p) q) x"
proof -
  have "is_perm q (length p)" using assms by (simp add: is_perm_def)
  then show ?thesis using permute_data_compose [OF assms]
    by (simp add: tensor_permute_def map_nth_perm)
qed

section \<open>Values of typed graphs\<close>

lemma layout_dims [simp]: "t_dims (layout_kernels env f dec other opr s vs) = extents_in env s"
  by (simp add: layout_kernels_def Let_def)

lemma layout_transpose:
  "transpose_perm opr = Some p \<Longrightarrow> extents_in env s = map ((!) (t_dims (vs ! 0))) p \<Longrightarrow>
     layout_kernels env f dec other opr s vs = tensor_permute p (vs ! 0)"
  by (simp add: layout_kernels_def tensor_permute_def Let_def)

definition typed_graph :: "graph \<Rightarrow> bool" where
  "typed_graph g \<longleftrightarrow> wf_nodes (g_nodes g) \<and> transposes_typed g"

lemma typed_transpose:
  assumes "typed_graph g" and "i < graph_len g" and "transpose_perm (n_op (g_nodes g ! i)) = Some p"
  obtains b where "0 < length (n_inputs (g_nodes g ! i))" "n_inputs (g_nodes g ! i) ! 0 = b" "b < i"
    "is_perm p (rank (n_shape (g_nodes g ! b)))" "n_shape (g_nodes g ! i) = shape_permute p (n_shape (g_nodes g ! b))"
proof -
  let ?n = "g_nodes g ! i"
  have t: "n_inputs ?n \<noteq> []" "distinct p"
    "transpose_shape (n_shape (g_nodes g ! (n_inputs ?n ! 0))) p = Ok (n_shape ?n)"
    using assms by (auto simp: typed_graph_def transposes_typed_def graph_len_def)
  then have "n_inputs ?n ! 0 \<in> set (n_inputs ?n)" by (cases "n_inputs ?n") auto
  then have "n_inputs ?n ! 0 < i"
    using assms(1,2) by (auto simp: typed_graph_def graph_len_def dest: wf_nodesD(2))
  then show thesis using that t transpose_shape_Ok [OF t(2)] by auto
qed

lemma layout_value:
  assumes K: "K = layout_kernels env f dec other" and sz: "sized_in env other"
    and g: "typed_graph g" and i: "i < graph_len g"
  shows "t_dims (value_at K g i) = extents_in env (n_shape (g_nodes g ! i))"
    and "length (t_data (value_at K g i)) = prod_list (extents_in env (n_shape (g_nodes g ! i)))"
proof -
  let ?n = "g_nodes g ! i"
  have wf: "wf_nodes (g_nodes g)" using g by (simp add: typed_graph_def)
  note val = value_at_wf [OF wf i, of K]
  show dims: "t_dims (value_at K g i) = extents_in env (n_shape ?n)" unfolding val unfolding K by simp
  show "length (t_data (value_at K g i)) = prod_list (extents_in env (n_shape ?n))"
  proof (cases "transpose_perm (n_op ?n)")
    case None
    then show ?thesis unfolding val unfolding K layout_kernels_def using sz
      by (simp add: Let_def pointwise_def decoded_def sized_in_def split: option.split)
  next
    case (Some p)
    then obtain b where b: "0 < length (n_inputs ?n)" "n_inputs ?n ! 0 = b" "b < i"
      "is_perm p (rank (n_shape (g_nodes g ! b)))" "n_shape ?n = shape_permute p (n_shape (g_nodes g ! b))"
      using typed_transpose [OF g i] by metis
    have "t_dims (value_at K g b) = extents_in env (n_shape (g_nodes g ! b))"
      using value_at_wf [OF wf, of b K] b(3) i by (simp add: K)
    moreover have "prod_list (extents_in env (n_shape ?n)) = prod_list (extents_in env (n_shape (g_nodes g ! b)))"
      using b(4,5) by (simp add: extents_permute prod_perm extents_rank)
    ultimately show ?thesis unfolding val using b(1,2) Some
      by (simp add: K layout_kernels_def Let_def permute_data_def)
  qed
qed

section \<open>Moving a transpose keeps its value\<close>

text \<open>\<open>j\<close> of the extended graph is node \<open>i\<close> transposed.\<close>

definition moved :: "'a tensor kernels \<Rightarrow> graph \<Rightarrow> node_id \<Rightarrow> nat list \<Rightarrow> graph \<times> node_id \<Rightarrow> bool" where
  "moved K out i p r \<longleftrightarrow> typed_graph (fst r) \<and> extends out (fst r) \<and> snd r < graph_len (fst r) \<and>
     n_shape (g_nodes (fst r) ! snd r) = shape_permute p (n_shape (g_nodes out ! i)) \<and>
     value_at K (fst r) (snd r) = tensor_permute p (value_at K out i)"

lemma moved_extends:
  assumes "moved K out1 i p r" and "extends out out1" and "i < graph_len out"
  shows "moved K out i p r"
  using assms extends_trans extends_node [OF assms(2,3)] extends_value [OF assms(2,3), of K]
  by (auto simp: moved_def)

lemma snd_add_node: "snd (add_node g opr ins s) = graph_len g"
  by (simp add: add_node_def push_def push_ext_def Let_def graph_len_def)

lemma typed_snoc:
  assumes g: "typed_graph g" and h: "g_nodes h = g_nodes g @ [n]" and "n_id n = graph_len g"
    and ins: "\<forall>j \<in> set (n_inputs n). j < graph_len g"
    and t: "\<And>p. transpose_perm (n_op n) = Some p \<Longrightarrow> n_inputs n \<noteq> [] \<and> distinct p \<and>
      transpose_shape (n_shape (g_nodes g ! (n_inputs n ! 0))) p = Ok (n_shape n)"
  shows "typed_graph h"
proof -
  have wf: "wf_nodes (g_nodes g)" using g by (simp add: typed_graph_def)
  have old: "n_inputs m ! 0 < length (g_nodes g)" if "m \<in> set (g_nodes g)" "n_inputs m \<noteq> []" for m
    using wf_nodes_member(3) [OF wf that(1)] that(2) by (meson length_greater_0_conv nth_mem)
  have new: "n_inputs n ! 0 < length (g_nodes g)" if "n_inputs n \<noteq> []"
    using ins that by (simp add: graph_len_def)
  have "wf_nodes (g_nodes h)" using wf assms(3) ins by (simp add: h wf_nodes_snoc graph_len_def)
  moreover have "transposes_typed h"
    using g t old new unfolding typed_graph_def transposes_typed_def h
    by (auto simp: nth_append)
  ultimately show ?thesis by (simp add: typed_graph_def)
qed

lemma typed_add:
  assumes "typed_graph g" and "\<forall>j \<in> set ins. j < graph_len g"
    and "\<And>p. transpose_perm opr = Some p \<Longrightarrow> ins \<noteq> [] \<and> distinct p \<and>
      transpose_shape (n_shape (g_nodes g ! (ins ! 0))) p = Ok s"
  shows "typed_graph (fst (add_node g opr ins s))"
  by (rule typed_snoc [OF assms(1) add_node_simps(1)]) (use assms(2,3) in simp_all)

lemma moved_add:
  assumes "typed_graph (fst (add_node out opr ins s))" and "extends out0 out"
    and "s = shape_permute p (n_shape (g_nodes out0 ! i))"
    and "K opr s (map (value_at K out) ins) = tensor_permute p (value_at K out0 i)"
  shows "moved K out0 i p (add_node out opr ins s)"
proof -
  have "n_shape (g_nodes (fst (add_node out opr ins s)) ! graph_len out) = s"
    by (simp add: graph_len_def)
  then show ?thesis using assms extends_trans [OF assms(2) extends_add_node]
    by (simp add: moved_def snd_add_node value_at_add_node del: add_node_simps(1))
qed

lemma transpose_onto_moved:
  assumes K: "K = layout_kernels env f dec other" and sz: "sized_in env other"
  shows "typed_graph out \<Longrightarrow> src < graph_len out \<Longrightarrow> src < fuel \<Longrightarrow>
    is_perm perm (rank (n_shape (g_nodes out ! src))) \<Longrightarrow>
    \<exists>r. transpose_onto fuel out src perm = Ok r \<and> moved K out src perm r"
proof (induction fuel arbitrary: src perm)
  case (Suc fuel)
  let ?n = "g_nodes out ! src" and ?v = "value_at K out src"
  have wf: "wf_nodes (g_nodes out)" using Suc.prems(1) by (simp add: typed_graph_def)
  note val = layout_value [OF K sz Suc.prems(1,2)]
  have len: "length (t_dims ?v) = rank (n_shape ?n)" by (simp add: val(1) extents_rank)
  show ?case
  proof (cases "is_identity perm")
    case True
    then have "perm = [0..<rank (n_shape ?n)]"
      using is_identityD [OF True] Suc.prems(4) by (simp add: is_perm_def)
    moreover have "tensor_permute [0..<length (t_dims ?v)] ?v = ?v"
      by (rule tensor_permute_id) (simp add: val)
    ultimately have "moved K out src perm (out, src)"
      using Suc.prems len by (simp add: moved_def shape_permute_id)
    then show ?thesis using True Suc.prems(2) by auto
  next
    case False
    show ?thesis
    proof (cases "transpose_perm (n_op ?n)")
      case None
      note sh = permuted_shape_Ok [OF Suc.prems(4)]
      let ?r = "add_node out (Transpose perm) [src] (shape_permute perm (n_shape ?n))"
      have "distinct perm" using Suc.prems(4) by (simp add: is_perm_def)
      then have "typed_graph (fst ?r)"
        by (intro typed_add) (use Suc.prems transpose_shape_Ok in auto)
      moreover have "K (Transpose perm) (shape_permute perm (n_shape ?n)) (map (value_at K out) [src]) =
          tensor_permute perm ?v"
        unfolding K by (subst layout_transpose)
          (use Suc.prems(4) val(1) in \<open>simp_all add: extents_permute K\<close>)
      ultimately have "moved K out src perm ?r" by (intro moved_add) simp_all
      then show ?thesis using None False Suc.prems(2) sh by simp
    next
      case (Some inner)
      then obtain b where b: "0 < length (n_inputs ?n)" "n_inputs ?n ! 0 = b" "b < src"
          "is_perm inner (rank (n_shape (g_nodes out ! b)))"
          "n_shape ?n = shape_permute inner (n_shape (g_nodes out ! b))"
        using typed_transpose [OF Suc.prems(1,2)] by metis
      let ?w = "value_at K out b"
      have bl: "b < graph_len out" using b(3) Suc.prems(2) by simp
      have wd: "t_dims ?w = extents_in env (n_shape (g_nodes out ! b))"
        by (rule layout_value(1) [OF K sz Suc.prems(1) bl])
      have perm: "is_perm perm (rank (n_shape (g_nodes out ! b)))"
        using Suc.prems(4) b(4,5) by (simp add: is_perm_def)
      have v: "?v = tensor_permute inner ?w"
        unfolding value_at_wf [OF wf Suc.prems(2), of K] using b(1,2,4,5) wd Some
        by (subst K, subst layout_transpose) (simp_all add: extents_permute K)
      have "tensor_permute perm ?v = tensor_permute (map ((!) inner) perm) ?w"
        unfolding v by (rule tensor_permute_compose) (simp_all add: wd extents_rank b(4) perm)
      moreover have "shape_permute perm (n_shape ?n) =
          shape_permute (map ((!) inner) perm) (n_shape (g_nodes out ! b))"
        unfolding b(5) by (rule shape_permute_compose [OF b(4) perm])
      moreover obtain r where "transpose_onto fuel out b (map ((!) inner) perm) = Ok r"
          "moved K out b (map ((!) inner) perm) r"
        using Suc.IH [OF Suc.prems(1) bl _ is_perm_compose [OF b(4) perm]] b(3) Suc.prems(3) by auto
      ultimately show ?thesis
        using Some False Suc.prems(2) compose_Ok [OF b(4) perm] b(1,2) by (simp add: moved_def)
    qed
  qed
qed simp

section \<open>Sinking a transpose\<close>

text \<open>What the accepted subtree looks like at one operand.\<close>

definition absorbs :: "graph \<Rightarrow> graph \<Rightarrow> (node_id \<Rightarrow> nat) \<Rightarrow> id_map \<Rightarrow> nat \<Rightarrow> node \<Rightarrow> node_id \<Rightarrow> bool" where
  "absorbs out g uses rv depth n j \<longleftrightarrow> j < graph_len out \<and>
     (one_elem (n_shape (g_nodes out ! j)) \<or>
      dims (n_shape (g_nodes out ! j)) = dims (n_shape n) \<and>
      (\<exists>q. sink_perm (depth + 1) out g uses rv j = Ok (Some q)))"

lemma sink_loop_absorbs:
  assumes "for_each (\<lambda>st j. case st of
        None \<Rightarrow> Ok None
      | Some shared \<Rightarrow>
        bind_outcome (node_at out j) (\<lambda>opnd.
          if one_elem (n_shape opnd) then Ok (Some shared)
          else if dims (n_shape opnd) \<noteq> dims (n_shape n) then Ok None
          else bind_outcome (sink_perm (depth + 1) out g uses rv j) (\<lambda>r. case r of
              None \<Rightarrow> Ok None
            | Some p \<Rightarrow> (case shared of
                None \<Rightarrow> Ok (Some (Some p))
              | Some q \<Rightarrow> Ok (if q = p then Some shared else None))))) st js = Ok (Some sh)"
    (is "for_each ?f st js = _")
  shows "\<forall>j \<in> set js. absorbs out g uses rv depth n j"
  using assms
proof (induction js arbitrary: st)
  case (Cons j js)
  have stuck: "for_each ?f None js = Ok None" for js by (induction js) auto
  obtain st' where st': "?f st j = Ok st'" "for_each ?f st' js = Ok (Some sh)"
    using Cons.prems by (auto simp: bind_outcome_Ok)
  then have "st' \<noteq> None" using stuck [of js] by (metis option.distinct(1) outcome.inject(1))
  moreover have "st \<noteq> None" using Cons.prems stuck [of "j # js"] by (metis option.distinct(1) outcome.inject(1))
  ultimately have "absorbs out g uses rv depth n j"
    using st'(1) by (auto simp: absorbs_def outcome_simps split: if_splits option.splits)
  then show ?case using Cons.IH [OF st'(2)] by simp
qed simp

lemma sink_perm_Some:
  assumes "sink_perm depth out g uses rv i = Ok (Some q)"
  shows "i < graph_len out" and
    "transpose_perm (n_op (g_nodes out ! i)) \<noteq> None \<or>
     is_elementwise (n_op (g_nodes out ! i)) \<and> transpose_perm (n_op (g_nodes out ! i)) = None \<and>
     (\<forall>j \<in> set (n_inputs (g_nodes out ! i)). absorbs out g uses rv depth (g_nodes out ! i) j)"
proof -
  show i: "i < graph_len out"
    using assms by (subst (asm) sink_perm.simps) (auto simp: outcome_simps)
  show "transpose_perm (n_op (g_nodes out ! i)) \<noteq> None \<or>
     is_elementwise (n_op (g_nodes out ! i)) \<and> transpose_perm (n_op (g_nodes out ! i)) = None \<and>
     (\<forall>j \<in> set (n_inputs (g_nodes out ! i)). absorbs out g uses rv depth (g_nodes out ! i) j)"
    using assms i
    by (subst (asm) sink_perm.simps)
      (auto simp: bind_outcome_Ok split: if_splits option.splits dest!: sink_loop_absorbs)
qed

text \<open>The new operand of a sunk node for operand \<open>j\<close>: itself if it has one element, or moved.\<close>

definition sunk_arg :: "'a tensor kernels \<Rightarrow> graph \<Rightarrow> nat list \<Rightarrow> graph \<Rightarrow> node_id \<Rightarrow> node_id \<Rightarrow> bool" where
  "sunk_arg K out p out' j j' \<longleftrightarrow> j' < graph_len out' \<and>
     (if one_elem (n_shape (g_nodes out ! j)) then j' = j
      else value_at K out' j' = tensor_permute p (value_at K out j))"

lemma sunk_arg_extends:
  "sunk_arg K out p out1 j j' \<Longrightarrow> extends out1 out2 \<Longrightarrow> sunk_arg K out p out2 j j'"
  using extends_len [of out1 out2] extends_value [of out1 out2 j' K] by (auto simp: sunk_arg_def)

lemma layout_elementwise:
  "is_elementwise opr \<Longrightarrow> layout_kernels env f dec other opr s vs =
     \<lparr>t_dims = extents_in env s, t_data = pointwise (f opr (shape_dtype s)) (extents_in env s) vs\<rparr>"
  by (cases opr) (simp_all add: layout_kernels_def Let_def)

lemma sunk_node_value:
  assumes K: "K = layout_kernels env f dec other" and sz: "sized_in env other"
    and out: "typed_graph out" and i: "i < graph_len out"
    and el: "is_elementwise (n_op (g_nodes out ! i))" and ext: "extends out out'"
    and p: "is_perm p (rank (n_shape (g_nodes out ! i)))"
    and args: "list_all2 (sunk_arg K out p out') (n_inputs (g_nodes out ! i)) ins"
    and same: "\<forall>j \<in> set (n_inputs (g_nodes out ! i)). one_elem (n_shape (g_nodes out ! j)) \<or>
      dims (n_shape (g_nodes out ! j)) = dims (n_shape (g_nodes out ! i))"
  shows "K (n_op (g_nodes out ! i)) (shape_permute p (n_shape (g_nodes out ! i))) (map (value_at K out') ins) =
    tensor_permute p (value_at K out i)"
proof -
  let ?n = "g_nodes out ! i" and ?ds = "extents_in env (n_shape (g_nodes out ! i))"
  let ?xs = "map (value_at K out) (n_inputs ?n)" and ?ys = "map (value_at K out') ins"
  have wf: "wf_nodes (g_nodes out)" using out by (simp add: typed_graph_def)
  have p': "is_perm p (length ?ds)" using p by (simp add: extents_rank)
  have len: "length (n_inputs ?n) = length ins" using args by (rule list_all2_lengthD)
  have "(\<forall>m \<in> set (t_dims (?xs ! k)). m = 1) \<and> ?ys ! k = ?xs ! k \<or>
      t_dims (?xs ! k) = ?ds \<and> t_dims (?ys ! k) = map ((!) ?ds) p \<and>
        t_data (?ys ! k) = permute_data ?ds p (t_data (?xs ! k))" if "k < length ?xs" for k
  proof -
    let ?j = "n_inputs ?n ! k"
    have k: "k < length (n_inputs ?n)" using that by simp
    have "?j < i" using wf_nodesD(2) [OF wf] i k by (simp add: graph_len_def)
    then have j: "?j < graph_len out" using i by simp
    note jd = layout_value(1) [OF K sz out j]
    have arg: "sunk_arg K out p out' ?j (ins ! k)" using args k by (simp add: list_all2_conv_all_nth)
    show ?thesis
    proof (cases "one_elem (n_shape (g_nodes out ! ?j))")
      case True
      then have "\<forall>m \<in> set (extents_in env (n_shape (g_nodes out ! ?j))). m = 1"
        by (intro one_element) (simp add: one_elem_def)
      moreover have "value_at K out' (ins ! k) = value_at K out ?j"
        using True arg extends_value [OF ext j] by (simp add: sunk_arg_def)
      ultimately show ?thesis using k len jd by simp
    next
      case False
      then have "dims (n_shape (g_nodes out ! ?j)) = dims (n_shape ?n)"
        using same nth_mem [OF k] by blast
      then have "extents_in env (n_shape (g_nodes out ! ?j)) = ?ds" by (simp add: extents_in_def)
      then show ?thesis using False arg k len jd by (simp add: sunk_arg_def tensor_permute_def)
    qed
  qed
  then have "permute_data ?ds p (pointwise (f (n_op ?n) (shape_dtype (n_shape ?n))) ?ds ?xs) =
      pointwise (f (n_op ?n) (shape_dtype (n_shape ?n))) (map ((!) ?ds) p) ?ys"
    by (intro permute_pointwise [OF p']) (simp_all add: len)
  moreover have "value_at K out i = K (n_op ?n) (n_shape ?n) ?xs" by (rule value_at_wf [OF wf i])
  moreover have "shape_dtype (shape_permute p (n_shape ?n)) = shape_dtype (n_shape ?n)"
    by (simp add: shape_permute_def)
  ultimately show ?thesis
    by (simp add: K layout_elementwise [OF el] tensor_permute_def extents_permute [OF p])
qed

lemma typed_add_plain:
  "typed_graph g \<Longrightarrow> \<forall>j \<in> set ins. j < graph_len g \<Longrightarrow> transpose_perm opr = None \<Longrightarrow>
     typed_graph (fst (add_node g opr ins s))"
  by (rule typed_add) simp_all

lemma sink_moved:
  assumes K: "K = layout_kernels env f dec other" and sz: "sized_in env other"
    and out0: "typed_graph out0"
  shows "sink_perm depth out0 g uses rv i = Ok (Some q) \<Longrightarrow> typed_graph out \<Longrightarrow> extends out0 out \<Longrightarrow>
    is_perm p (rank (n_shape (g_nodes out0 ! i))) \<Longrightarrow> i < fuel \<Longrightarrow>
    \<exists>r. sink fuel out i p = Ok r \<and> extends out (fst r) \<and> moved K out0 i p r"
proof (induction fuel arbitrary: depth i q out)
  case (Suc fuel)
  note sp = sink_perm_Some [OF Suc.prems(1)]
  have i: "i < graph_len out" using sp(1) extends_len [OF Suc.prems(3)] by simp
  have n: "g_nodes out ! i = g_nodes out0 ! i" by (rule extends_node [OF Suc.prems(3) sp(1)])
  let ?n = "g_nodes out0 ! i"
  show ?case
  proof (cases "transpose_perm (n_op ?n)")
    case Some
    obtain r where r: "transpose_onto (Suc i) out i p = Ok r" "moved K out i p r"
      using transpose_onto_moved [OF K sz Suc.prems(2) i, of "Suc i" p] Suc.prems(4) n by auto
    then have "moved K out0 i p r" by (intro moved_extends [OF _ Suc.prems(3) sp(1)])
    then show ?thesis using Some r n i by (simp add: moved_def)
  next
    case None
    then have el: "is_elementwise (n_op ?n)" and abs: "\<forall>j \<in> set (n_inputs ?n). absorbs out0 g uses rv depth ?n j"
      using sp(2) by auto
    have wf: "wf_nodes (g_nodes out0)" using out0 by (simp add: typed_graph_def)
    let ?f = "\<lambda>(out, ins) j.
            bind_outcome (node_at out j) (\<lambda>opnd.
              if one_elem (n_shape opnd) then Ok (out, ins @ [j])
              else bind_outcome (sink fuel out j p) (\<lambda>(out, j'). Ok (out, ins @ [j'])))"
    let ?P = "\<lambda>k (h, ins). typed_graph h \<and> extends out h \<and>
      list_all2 (sunk_arg K out0 p h) (take k (n_inputs ?n)) ins"
    have "\<exists>t. for_each ?f (out, []) (n_inputs ?n) = Ok t \<and> ?P (length (n_inputs ?n)) t"
    proof (rule for_each_prefix_ok)
      show "?P 0 (out, [])" using Suc.prems(2) by simp
    next
      fix k s assume k: "k < length (n_inputs ?n)" and "?P k s"
      then obtain h ins where s: "s = (h, ins)" "typed_graph h" "extends out h"
        "list_all2 (sunk_arg K out0 p h) (take k (n_inputs ?n)) ins" by (cases s) auto
      let ?j = "n_inputs ?n ! k"
      have j: "absorbs out0 g uses rv depth ?n ?j" using abs k by simp
      then have jl: "?j < graph_len out0" by (simp add: absorbs_def)
      have ext: "extends out0 h" using extends_trans Suc.prems(3) s(3) by blast
      have jn: "?j < graph_len h" "g_nodes h ! ?j = g_nodes out0 ! ?j"
        using jl extends_len [OF ext] extends_node [OF ext jl] by simp_all
      show "\<exists>t. ?f s ?j = Ok t \<and> ?P (Suc k) t"
      proof (cases "one_elem (n_shape (g_nodes out0 ! ?j))")
        case True
        then have "sunk_arg K out0 p h ?j ?j" using jn by (simp add: sunk_arg_def)
        then show ?thesis using s jn True k by (simp add: take_Suc_conv_app_nth list_all2_appendI)
      next
        case False
        then obtain q' where q': "sink_perm (depth + 1) out0 g uses rv ?j = Ok (Some q')"
            and d: "dims (n_shape (g_nodes out0 ! ?j)) = dims (n_shape ?n)"
          using j by (auto simp: absorbs_def)
        have "?j < i" using wf_nodesD(2) [OF wf] sp(1) k by (simp add: graph_len_def)
        moreover have "is_perm p (rank (n_shape (g_nodes out0 ! ?j)))"
          using Suc.prems(4) d by (simp add: rank_def)
        ultimately obtain r where r: "sink fuel h ?j p = Ok r" "extends h (fst r)" "moved K out0 ?j p r"
          using Suc.IH [OF q' s(2) ext] Suc.prems(5) by auto
        have "sunk_arg K out0 p (fst r) ?j (snd r)" using r(3) False by (simp add: moved_def sunk_arg_def)
        moreover have "list_all2 (sunk_arg K out0 p (fst r)) (take k (n_inputs ?n)) ins"
          using s(4) by (rule list_all2_mono) (rule sunk_arg_extends [OF _ r(2)])
        ultimately have "?P (Suc k) (fst r, ins @ [snd r])"
          using r(3) extends_trans [OF s(3) r(2)] k
          by (simp add: moved_def take_Suc_conv_app_nth list_all2_appendI)
        moreover have "?f s ?j = Ok (fst r, ins @ [snd r])"
          using s(1) jn False r(1) by (simp add: split_beta)
        ultimately show ?thesis by blast
      qed
    qed
    then obtain h ins where h: "for_each ?f (out, []) (n_inputs ?n) = Ok (h, ins)"
      "typed_graph h" "extends out h" "list_all2 (sunk_arg K out0 p h) (n_inputs ?n) ins"
      by (auto simp: split_beta)
    have ext: "extends out0 h" using extends_trans Suc.prems(3) h(3) by blast
    let ?r = "add_node h (n_op ?n) ins (shape_permute p (n_shape ?n))"
    have insl: "\<forall>j \<in> set ins. j < graph_len h"
      using h(4) by (auto simp: list_all2_conv_all_nth in_set_conv_nth sunk_arg_def)
    have "moved K out0 i p ?r"
    proof (rule moved_add)
      show "typed_graph (fst ?r)" by (rule typed_add_plain [OF h(2) insl None])
      show "K (n_op ?n) (shape_permute p (n_shape ?n)) (map (value_at K h) ins) = tensor_permute p (value_at K out0 i)"
        by (rule sunk_node_value [OF K sz out0 sp(1) el ext Suc.prems(4) h(4)])
          (use abs in \<open>auto simp: absorbs_def\<close>)
    qed (simp_all add: ext)
    moreover have "sink (Suc fuel) out i p = Ok ?r"
      using i n None h(1) permuted_shape_Ok [OF Suc.prems(4)] by simp
    ultimately show ?thesis using extends_trans [OF h(3) extends_add_node] by blast
  qed
qed simp

section \<open>Constants\<close>

lemma chunk_concat:
  "\<forall>p \<in> set ps. length p = e \<Longrightarrow> k < length ps \<Longrightarrow> take e (drop (k * e) (concat ps)) = ps ! k"
proof (induction ps arbitrary: k)
  case (Cons p ps)
  then show ?case by (cases k) simp_all
qed simp

lemma decoded_concat:
  assumes "length ps = n" and "\<forall>p \<in> set ps. length p = dtype_size_bytes t"
  shows "decoded dec t n (concat ps) = map (dec t) ps"
  using assms chunk_concat [OF assms(2)] by (intro nth_equalityI) (simp_all add: decoded_def Let_def)

lemma copy_element_src:
  assumes "is_perm p (length ds)" and "k < prod_list ds" and "length b = prod_list ds * e"
  shows "copy_element (in_strides ds) p (length ds) e b (unravel (map ((!) ds) p) k) =
    Ok (take e (drop (src_index ds p k * e) b))"
proof -
  have len: "length p = length ds" using assms(1) by (simp add: is_perm_def)
  let ?u = "unravel (map ((!) ds) p) k"
  have "sum_list (map (\<lambda>i. ?u ! i * in_strides ds ! (p ! i)) [0..<length ds]) =
      (\<Sum>i < length ds. ?u ! i * strides ds ! (p ! i))"
    by (simp add: interv_sum_list_conv_sum_set_nat atLeast0LessThan in_strides_eq)
  also have "\<dots> = src_index ds p k" using len by (simp add: src_index_def offset_of_def)
  finally have src: "sum_list (map (\<lambda>i. ?u ! i * in_strides ds ! (p ! i)) [0..<length ds]) = src_index ds p k" .
  have "(src_index ds p k + 1) * e \<le> length b"
    unfolding assms(3) using src_index_bound(1) [OF assms(1,2)] by (intro mult_le_mono1) simp
  then show ?thesis unfolding copy_element_def Let_def src by (simp only: if_True)
qed

lemma permute_bytes_correct:
  assumes p: "is_perm p (rank s)"
  shows "\<exists>r. permute_bytes b s p = Ok r \<and> (\<forall>b'. r = Some b' \<longrightarrow>
    decoded dec (shape_dtype s) (prod_list (extents_in env s)) b' =
    permute_data (extents_in env s) p (decoded dec (shape_dtype s) (prod_list (extents_in env s)) b))"
proof (cases "list_all is_static (dims s)")
  case True
  then obtain ns where ns: "dims s = map Static ns" by (auto simp: list_all_is_static)
  then have ds: "extents_in env s = ns" "map (\<lambda>d. case d of Static n \<Rightarrow> n | Dynamic _ \<Rightarrow> 0) (dims s) = ns"
    by (simp_all add: extents_in_def comp_def)
  have pn: "is_perm p (length ns)" using p ns by (simp add: rank_def)
  then have len: "length p = length ns" by (simp add: is_perm_def)
  let ?e = "dtype_size_bytes (shape_dtype s)" and ?n = "prod_list ns" and ?od = "map ((!) ns) p"
  show ?thesis
  proof (cases "?n = 0 \<or> length b \<noteq> ?n * ?e")
    case True
    then have "permute_bytes b s p = Ok None"
      using \<open>list_all is_static (dims s)\<close> by (auto simp: permute_bytes_def Let_def ds(2))
    then show ?thesis by simp
  next
    case False
    let ?parts = "map (\<lambda>k. take ?e (drop (src_index ns p k * ?e) b)) [0..<?n]"
    have od: "traverse (index_or_panic ns) p = (Ok ?od :: nat list res)"
      using pn by (simp add: traverse_index is_perm_def)
    have digits: "map (\<lambda>k. ((\<lambda>idx. bump ?od idx (length ns)) ^^ k) (replicate (length ns) 0)) [0..<?n] =
        map (unravel ?od) [0..<?n]"
      using odometer [of _ ?od] len prod_perm [OF pn] by (intro map_cong refl) simp
    have copied: "traverse (copy_element (in_strides ns) p (length ns) ?e b)
          (map (\<lambda>k. ((\<lambda>idx. bump ?od idx (length ns)) ^^ k) (replicate (length ns) 0)) [0..<?n]) =
        (Ok ?parts :: bytes list res)"
    proof -
      have "list_all2 (\<lambda>u part. copy_element (in_strides ns) p (length ns) ?e b u = (Ok part :: bytes res))
          (map (unravel ?od) [0..<?n]) ?parts"
        using False copy_element_src [OF pn] by (simp add: list_all2_conv_all_nth)
      then show ?thesis unfolding digits traverse_Ok_iff .
    qed
    have run: "permute_bytes b s p = Ok (Some (concat ?parts))"
      using True False len unfolding permute_bytes_def Let_def ds(2) by (simp add: od copied)
    have fits: "src_index ns p k * ?e + ?e \<le> length b" if "k < ?n" for k
    proof -
      have "(src_index ns p k + 1) * ?e \<le> ?n * ?e"
        using src_index_bound(1) [OF pn that] by (intro mult_le_mono1) simp
      then show ?thesis using False by (simp add: algebra_simps)
    qed
    have "decoded dec (shape_dtype s) ?n (concat ?parts) = map (dec (shape_dtype s)) ?parts"
      by (rule decoded_concat) (use fits in \<open>force simp: min_absorb2\<close>)+
    also have "\<dots> = permute_data ns p (decoded dec (shape_dtype s) ?n b)"
      using src_index_bound(1) [OF pn] by (simp add: permute_data_def decoded_def Let_def)
    finally show ?thesis using run by (simp add: ds(1))
  qed
qed (simp add: permute_bytes_def)

section \<open>One rule\<close>

lemma sink_perm_returns:
  "wf_nodes (g_nodes out) \<Longrightarrow> i < graph_len out \<Longrightarrow> returns (sink_perm depth out g uses rv i)"
proof (induction i arbitrary: depth rule: less_induct)
  case (less i)
  let ?n = "g_nodes out ! i"
  have "j < i" if "j \<in> set (n_inputs ?n)" for j
    using wf_nodesD(2) [OF less.prems(1)] less.prems(2) that by (simp add: graph_len_def)
  moreover from this have "j < graph_len out" if "j \<in> set (n_inputs ?n)" for j
    using less.prems(2) that less_trans by blast
  ultimately have "returns (for_each (\<lambda>st j. case st of
        None \<Rightarrow> Ok None
      | Some shared \<Rightarrow>
        bind_outcome (node_at out j) (\<lambda>opnd.
          if one_elem (n_shape opnd) then Ok (Some shared)
          else if dims (n_shape opnd) \<noteq> dims (n_shape ?n) then Ok None
          else bind_outcome (sink_perm (depth + 1) out g uses rv j) (\<lambda>r. case r of
              None \<Rightarrow> Ok None
            | Some p \<Rightarrow> (case shared of
                None \<Rightarrow> Ok (Some (Some p))
              | Some q \<Rightarrow> Ok (if q = p then Some shared else None))))) (Some None) (n_inputs ?n))"
    using less.IH less.prems
    by (intro returns_for_each) (auto split: option.split intro!: returns_bind)
  then show ?case using less.prems(2)
    by (subst sink_perm.simps) (auto split: option.split intro!: returns_bind)
qed

lemma simplify_moved:
  assumes K: "K = layout_kernels env f dec other" and sz: "sized_in env other"
    and out: "typed_graph out" and src: "src < graph_len out"
    and p: "is_perm p (rank (n_shape (g_nodes out ! src)))"
  shows "\<exists>r. simplify out g uses rv src (g_nodes out ! src) p = Ok r \<and>
    (\<forall>x. r = Some x \<longrightarrow> moved K out src p x)"
proof -
  let ?n = "g_nodes out ! src"
  have wf: "wf_nodes (g_nodes out)" using out by (simp add: typed_graph_def)
  obtain t where t: "transpose_onto (Suc src) out src p = Ok t" "moved K out src p t"
    using transpose_onto_moved [OF K sz out src _ p] by blast
  show ?thesis
  proof (cases "is_identity p \<or> transpose_perm (n_op ?n) \<noteq> None")
    case True
    show ?thesis
    proof (cases "is_identity p")
      case True
      then have "t = (out, src)" using t(1) src by simp
      then show ?thesis using True t(2) by (simp add: simplify_def)
    next
      case False
      then have "transpose_perm (n_op ?n) \<noteq> None"
        using \<open>is_identity p \<or> transpose_perm (n_op ?n) \<noteq> None\<close> by simp
      then have "simplify out g uses rv src ?n p = Ok (Some t)"
        using t(1) False by (simp only: simplify_def if_False if_True bind_outcome.simps not_False_eq_True)
      then show ?thesis using t(2) by (intro exI [of _ "Some t"]) auto
    qed
  next
    case other: False
    show ?thesis
    proof (cases "constant_data (n_op ?n)")
      case (Some b)
      then have op: "n_op ?n = Constant b" by (cases "n_op ?n") auto
      obtain r where r: "permute_bytes b (n_shape ?n) p = Ok r"
        "\<And>b'. r = Some b' \<Longrightarrow> decoded dec (shape_dtype (n_shape ?n)) (prod_list (extents_in env (n_shape ?n))) b' =
          permute_data (extents_in env (n_shape ?n)) p
            (decoded dec (shape_dtype (n_shape ?n)) (prod_list (extents_in env (n_shape ?n))) b)"
        using permute_bytes_correct [OF p] by blast
      show ?thesis
      proof (cases r)
        case None
        then show ?thesis using other Some r(1) by (simp add: simplify_def)
      next
        case (Some b')
        let ?r = "add_node out (Constant b') [] (shape_permute p (n_shape ?n))"
        have pd: "prod_list (map ((!) (extents_in env (n_shape ?n))) p) = prod_list (extents_in env (n_shape ?n))"
          by (rule prod_perm) (simp add: extents_rank p)
        have "value_at K out src = K (Constant b) (n_shape ?n) (map (value_at K out) (n_inputs ?n))"
          using value_at_wf [OF wf src, of K] op by simp
        then have "K (Constant b') (shape_permute p (n_shape ?n)) (map (value_at K out) []) =
            tensor_permute p (value_at K out src)"
          using r(2) [OF Some] pd
          by (simp add: K layout_kernels_def Let_def tensor_permute_def extents_permute [OF p])
            (simp add: shape_permute_def)
        then have "moved K out src p ?r" by (intro moved_add typed_add_plain) (simp_all add: out)
        moreover have "simplify out g uses rv src ?n p = Ok (Some ?r)"
          using other \<open>constant_data (n_op ?n) = Some b\<close> r(1) Some permuted_shape_Ok [OF p]
          by (simp add: simplify_def)
        ultimately show ?thesis by (intro exI [of _ "Some ?r"]) auto
      qed
    next
      case None
      obtain r where r: "sink_perm 0 out g uses rv src = Ok r"
        using sink_perm_returns [OF wf src] by (rule returnsE)
      show ?thesis
      proof (cases r)
        case None
        then show ?thesis using other \<open>constant_data (n_op ?n) = None\<close> r by (simp add: simplify_def)
      next
        case (Some q)
        obtain x where x: "sink (Suc src) out src p = Ok x" "moved K out src p x"
          using sink_moved [OF K sz out r [unfolded Some] out extends_refl p, of "Suc src"] by auto
        then show ?thesis using other \<open>constant_data (n_op ?n) = None\<close> r Some
          by (cases x) (simp add: simplify_def del: sink.simps)
      qed
    qed
  qed
qed

section \<open>One round\<close>

lemma copy_named_eq: "copy_named out n ins = copy_node out n ins"
  by (simp add: copy_named_def copy_node_def add_node_def push_def push_ext_def Let_def)

definition round_inv :: "graph \<Rightarrow> round_state \<Rightarrow> bool" where
  "round_inv g st \<longleftrightarrow> typed_graph (fst st) \<and> shapes_kept g (fst st) (fst (snd st))"

lemma shapes_kept_update:
  assumes "shapes_kept g out m" and "extends out out'" and "j < graph_len out'"
    and "n_shape (g_nodes out' ! j) = n_shape (g_nodes g ! i)"
  shows "shapes_kept g out' (m(i \<mapsto> j))"
  using shapes_kept_extends [OF assms(1,2)] assms(3,4) by (auto simp: shapes_kept_def)

text \<open>Adding a node of the right value and shape, by a rule or as a copy, keeps the contract.\<close>

lemma round_step_ok:
  assumes K: "K = layout_kernels env f dec other" and sz: "sized_in env other"
    and g: "typed_graph g" and wf: "wf_graph g" and mem: "n \<in> set (g_nodes g)"
    and inv: "round_inv g (out, m, rv, fired)"
    and ins: "\<forall>i \<in> set (n_inputs n). mapped K K g out m i"
  shows "\<exists>out' m' rv' fired'. round_step g (out, m, rv, fired) n = Ok (out', m', rv', fired') \<and>
    round_inv g (out', m', rv', fired') \<and> extends out out' \<and> (\<forall>i. i \<noteq> n_id n \<longrightarrow> m' i = m i) \<and>
    mapped K K g out' m' (n_id n)"
proof -
  have wfn: "wf_nodes (g_nodes g)" using g by (simp add: typed_graph_def)
  note id = wf_nodes_member(1,2) [OF wfn mem]
  have typed: "typed_graph out" and kept: "shapes_kept g out m" using inv by (simp_all add: round_inv_def)
  obtain js where js: "map_ids m (n_inputs n) = Ok js" "length js = length (n_inputs n)"
      "\<forall>j \<in> set js. j < graph_len out" "map (value_at K out) js = map (value_at K g) (n_inputs n)"
    by (rule map_ids_mapped [OF ins])
  have val: "value_at K g (n_id n) = K (n_op n) (n_shape n) (map (value_at K g) (n_inputs n))"
    by (rule value_at_node [OF wf mem])
  have shape_of: "n_shape (g_nodes out ! (js ! k)) = n_shape (g_nodes g ! (n_inputs n ! k))"
    if "k < length (n_inputs n)" for k
  proof -
    have "m (n_inputs n ! k) = Some (js ! k)"
      using js(1,2) that by (metis map_ids_Ok length_map nth_map)
    then show ?thesis using kept by (auto simp: shapes_kept_def)
  qed
  let ?done = "\<lambda>out' i. typed_graph out' \<and> extends out out' \<and> i < graph_len out' \<and>
    n_shape (g_nodes out' ! i) = n_shape n \<and> value_at K out' i = value_at K g (n_id n)"
  have finish: "round_inv g (out', m(n_id n \<mapsto> i), rv', fired') \<and> mapped K K g out' (m(n_id n \<mapsto> i)) (n_id n)"
    if "?done out' i" for out' i rv' fired'
    using that shapes_kept_update [OF kept] id(2) by (auto simp: round_inv_def mapped_def)
  have copied: "?done (fst (copy_named out n js)) (snd (copy_named out n js))"
  proof -
    have "typed_graph (fst (copy_node out n js))"
    proof (rule typed_snoc [OF typed copy_node_simps(1)])
      fix p assume "transpose_perm (n_op (n\<lparr>n_id := graph_len out, n_inputs := js\<rparr>)) = Some p"
      then have "n_inputs n \<noteq> []" "distinct p"
          "transpose_shape (n_shape (g_nodes g ! (n_inputs n ! 0))) p = Ok (n_shape n)"
        using g mem by (auto simp: typed_graph_def transposes_typed_def)
      then show "n_inputs (n\<lparr>n_id := graph_len out, n_inputs := js\<rparr>) \<noteq> [] \<and> distinct p \<and>
          transpose_shape (n_shape (g_nodes out ! (n_inputs (n\<lparr>n_id := graph_len out, n_inputs := js\<rparr>) ! 0))) p =
          Ok (n_shape (n\<lparr>n_id := graph_len out, n_inputs := js\<rparr>))"
        using js(2) shape_of [of 0] by (cases js) auto
    qed (use js(3) in simp_all)
    moreover have "n_shape (g_nodes (fst (copy_node out n js)) ! graph_len out) = n_shape n"
      by (simp add: graph_len_def)
    ultimately show ?thesis
      unfolding copy_named_eq using js(4) val by (simp add: value_at_copy_node del: copy_node_simps(1))
  qed
  show ?thesis
  proof (cases "transpose_perm (n_op n)")
    case None
    then have "round_step g (out, m, rv, fired) n = Ok (fst (copy_named out n js), m(n_id n \<mapsto> snd (copy_named out n js)),
        if rv (snd (copy_named out n js)) = None then rv(snd (copy_named out n js) \<mapsto> n_id n) else rv, fired)"
      using js(1) by (simp add: round_step_def split_beta)
    then show ?thesis using finish [OF copied] copied by (metis fun_upd_other)
  next
    case (Some perm)
    have t: "n_inputs n \<noteq> []" "distinct perm"
        "transpose_shape (n_shape (g_nodes g ! (n_inputs n ! 0))) perm = Ok (n_shape n)"
      using g mem Some by (auto simp: typed_graph_def transposes_typed_def)
    let ?src = "js ! 0"
    have src: "?src < graph_len out" "0 < length js" using js(2,3) t(1) by (auto simp: nth_mem)
    have sh: "n_shape (g_nodes out ! ?src) = n_shape (g_nodes g ! (n_inputs n ! 0))"
      using shape_of [of 0] t(1) by simp
    have p: "is_perm perm (rank (n_shape (g_nodes out ! ?src)))"
      and ns: "n_shape n = shape_permute perm (n_shape (g_nodes out ! ?src))"
      using t(3) transpose_shape_Ok [OF t(2)] sh by auto
    have v0: "value_at K out ?src = value_at K g (n_inputs n ! 0)"
      using js(2,4) t(1) by (metis length_greater_0_conv nth_map)
    have "t_dims (value_at K out ?src) = extents_in env (n_shape (g_nodes out ! ?src))"
      by (rule layout_value(1) [OF K sz typed src(1)])
    then have tv: "value_at K g (n_id n) = tensor_permute perm (value_at K out ?src)"
      unfolding val using t(1) Some ns v0 p
      by (subst K, subst layout_transpose) (simp_all add: extents_permute)
    obtain r where r: "simplify out g (uses_of g) rv ?src (g_nodes out ! ?src) perm = Ok r"
        "\<And>x. r = Some x \<Longrightarrow> moved K out ?src perm x"
      using simplify_moved [OF K sz typed src(1) p] by blast
    show ?thesis
    proof (cases r)
      case None
      then have "round_step g (out, m, rv, fired) n = Ok (fst (copy_named out n js), m(n_id n \<mapsto> snd (copy_named out n js)),
          if rv (snd (copy_named out n js)) = None then rv(snd (copy_named out n js) \<mapsto> n_id n) else rv, fired)"
        using js(1) Some src r(1) by (simp add: round_step_def split_beta)
      then show ?thesis using finish [OF copied] copied by (metis fun_upd_other)
    next
      case (Some x)
      have "?done (fst x) (snd x)" using r(2) [OF Some] ns tv by (simp add: moved_def)
      moreover have "round_step g (out, m, rv, fired) n =
          Ok (fst x, m(n_id n \<mapsto> snd x), if rv (snd x) = None then rv(snd x \<mapsto> n_id n) else rv, True)"
        using js(1) \<open>transpose_perm (n_op n) = Some perm\<close> src r(1) Some
        by (simp add: round_step_def split_beta)
      ultimately show ?thesis using finish [of "fst x" "snd x"] by (metis fun_upd_other)
    qed
  qed
qed

interpretation tr: node_rewrite "layout_kernels env f dec other" "layout_kernels env f dec other"
  "\<lambda>g. (graph_new (g_name g), Map.empty, Map.empty, False)" round_step fst "\<lambda>s. fst (snd s)"
  "\<lambda>_ _. True" "\<lambda>g _. round_inv g" "\<lambda>g. typed_graph g \<and> sized_in env other"
  for env :: "nat \<Rightarrow> nat" and f :: "op \<Rightarrow> dtype \<Rightarrow> 'a list \<Rightarrow> 'a" and dec other
proof unfold_locales
  show "round_inv g (graph_new (g_name g), Map.empty, Map.empty, False)" for g
    by (simp add: round_inv_def graph_new_def typed_graph_def transposes_typed_def shapes_kept_def)
next
  let ?K = "layout_kernels env f dec other"
  fix g :: graph and n and s :: round_state
  assume wf: "wf_graph g" and adm: "typed_graph g \<and> sized_in env other"
    and mem: "n \<in> set (g_nodes g)" and inv: "round_inv g s"
    and ins: "True \<Longrightarrow> \<forall>i \<in> set (n_inputs n). mapped ?K ?K g (fst s) (fst (snd s)) i"
  obtain out m rv fired where s: "s = (out, m, rv, fired)" by (cases s)
  obtain out' m' rv' fired' where "round_step g s n = Ok (out', m', rv', fired')"
      "round_inv g (out', m', rv', fired')" "extends out out'" "\<forall>i. i \<noteq> n_id n \<longrightarrow> m' i = m i"
      "mapped ?K ?K g out' m' (n_id n)"
    using round_step_ok [OF refl, of env other g n out m rv fired f dec] wf adm mem inv ins s by auto
  then show "\<exists>s'. round_step g s n = Ok s' \<and> round_inv g s' \<and> wf_nodes (g_nodes (fst s')) \<and>
      extends (fst s) (fst s') \<and> (\<forall>i. i \<noteq> n_id n \<longrightarrow> fst (snd s') i = fst (snd s) i) \<and>
      (True \<longrightarrow> mapped ?K ?K g (fst s') (fst (snd s')) (n_id n))"
    by (intro exI [of _ "(out', m', rv', fired')"]) (simp add: s round_inv_def typed_graph_def)
qed (simp_all add: graph_new_def)

section \<open>The pass\<close>

lemma one_round_ok:
  assumes "wf_graph g" and "typed_graph g" and "sized_in env other"
  shows "\<exists>g' fired. one_round g = Ok (g', fired) \<and> wf_graph g' \<and> typed_graph g' \<and>
    output_values (layout_kernels env f dec other) g' = output_values (layout_kernels env f dec other) g"
proof -
  obtain s g' where s: "for_each (round_step g) (graph_new (g_name g), Map.empty, Map.empty, False) (g_nodes g) = Ok s"
      "round_inv g s" "rebuild_outputs g (fst s) (fst (snd s)) = Ok g'" "wf_graph g'"
      "g_nodes g' = g_nodes (fst s)"
      "output_values (layout_kernels env f dec other) g' = output_values (layout_kernels env f dec other) g"
    using tr.rebuild_ok [OF assms(1), of env other f dec] assms by auto
  have "typed_graph g'" using s(2,5) by (simp add: round_inv_def typed_graph_def transposes_typed_def)
  then show ?thesis using s by (simp add: one_round_def split_beta)
qed

lemma rounds_ok:
  assumes "sized_in env other"
  shows "wf_graph g \<Longrightarrow> typed_graph g \<Longrightarrow>
    \<exists>g' c'. rounds k g c = Ok (g', c') \<and> wf_graph g' \<and>
    output_values (layout_kernels env f dec other) g' = output_values (layout_kernels env f dec other) g"
proof (induction k arbitrary: g c)
  case (Suc k)
  obtain g' fired where r: "one_round g = Ok (g', fired)" "wf_graph g'" "typed_graph g'"
      "output_values (layout_kernels env f dec other) g' = output_values (layout_kernels env f dec other) g"
    using one_round_ok [OF Suc.prems assms, of f dec] by blast
  then show ?case using Suc.IH [OF r(2,3), of True] by auto
qed simp

text \<open>
  C24. Removing transposes returns on every graph whose transposes have the shapes inference gives
  them, and keeps the output values for all extents of the symbolic dimensions, all elementwise
  arithmetic, every reading of constants and any other kernels.
\<close>

theorem simplify_transposes_correct:
  assumes "wf_graph g" and "transposes_typed g" and "sized_in env other"
  shows "\<exists>g' changed. simplify_transposes g = Ok (g', changed) \<and> wf_graph g' \<and>
    output_values (layout_kernels env f dec other) g' = output_values (layout_kernels env f dec other) g"
proof -
  have "typed_graph g" using assms by (simp add: typed_graph_def wf_graph_def)
  then obtain h c where h: "rounds 8 g False = Ok (h, c)" "wf_graph h"
      "output_values (layout_kernels env f dec other) h = output_values (layout_kernels env f dec other) g"
    using rounds_ok [OF assms(3,1), of 8 False f dec] by blast
  obtain h' where "dce_run h = Ok h'" "wf_graph h'"
      "output_values (layout_kernels env f dec other) h' = output_values (layout_kernels env f dec other) h"
    using dce.rebuild_ok [OF h(2), where sem = "layout_kernels env f dec other"]
    by (auto simp: dce_run_eq [OF h(2)] split_beta)
  then show ?thesis using h assms(1) by (auto simp: simplify_transposes_def simp del: rounds.simps)
qed

section \<open>Concrete graphs\<close>

definition layout_node :: "node_id \<Rightarrow> op \<Rightarrow> node_id list \<Rightarrow> nat list \<Rightarrow> node" where
  "layout_node i opr ins ds = \<lparr>n_id = i, n_op = opr, n_inputs = ins, n_shape = shape_new ds F32,
     n_name = None, n_origin = None\<rparr>"

text \<open>A pair of transposes around an activation.\<close>

definition pair_graph :: graph where
  "pair_graph = (graph_new ''pair'')\<lparr>g_nodes :=
     [layout_node 0 (Input ''x'') [] [2, 3], layout_node 1 (Transpose [1, 0]) [0] [3, 2],
      layout_node 2 (Activation Relu) [1] [3, 2], layout_node 3 (Transpose [1, 0]) [2] [2, 3]],
     g_outputs := [3]\<rparr>"

definition pair_kernels :: "nat tensor kernels" where
  "pair_kernels = layout_kernels (\<lambda>_. 0) (\<lambda>opr t vs. hd vs + 10) (\<lambda>t b. 0)
     (\<lambda>opr s vs. [0..<prod_list (extents_in (\<lambda>_. 0) s)])"

lemmas pass_defs = one_round_def round_step_def Let_def map_ids_def copy_named_def simplify_def sink_perm.simps
  node_at_def graph_len_def add_node_def push_def push_ext_def index_or_panic_def is_identity_def
  one_elem_def num_elements_def checked_mul_def usize_max_def permuted_shape_def shape_from_dims_def
  compose_def uses_of_def rebuild_outputs_def set_outputs_def graph_new_def layout_node_def shape_new_def

definition pair_mid :: graph where
  "pair_mid = (graph_new ''pair'')\<lparr>g_nodes :=
     [layout_node 0 (Input ''x'') [] [2, 3], layout_node 1 (Transpose [1, 0]) [0] [3, 2],
      layout_node 2 (Activation Relu) [1] [3, 2], layout_node 3 (Activation Relu) [0] [2, 3]],
     g_outputs := [3]\<rparr>"

definition pair_end :: graph where
  "pair_end = (graph_new ''pair'')\<lparr>g_nodes :=
     [layout_node 0 (Input ''x'') [] [2, 3], layout_node 1 (Activation Relu) [0] [2, 3]],
     g_outputs := [1]\<rparr>"

lemma pair_rounds: "one_round pair_graph = Ok (pair_mid, True)" "one_round pair_mid = Ok (pair_mid, False)"
  by (simp_all add: pair_graph_def pair_mid_def pass_defs
      cong: bind_outcome_weak for_each_weak option.case_cong_weak)

lemma pair_dce: "dce_run pair_mid = Ok pair_end"
  by (simp add: dce_run_def pair_mid_def pair_end_def layout_node_def graph_new_def node_at_def
      dce_step_def map_ids_def copy_node_def add_node_def push_def push_ext_def rebuild_outputs_def
      set_outputs_def)

lemma pair_run: "simplify_transposes pair_graph = Ok (pair_end, True)"
proof -
  have "rounds 8 pair_graph False = Ok (pair_mid, True)"
    by (simp add: numeral_eq_Suc pair_rounds)
  moreover have "list_ex (\<lambda>n. transpose_perm (n_op n) \<noteq> None) (g_nodes pair_graph)"
    by (simp add: pair_graph_def layout_node_def)
  ultimately show ?thesis by (simp add: simplify_transposes_def pair_dce)
qed

lemma pair_typed: "wf_graph pair_graph" "transposes_typed pair_graph"
  by (simp_all add: wf_graph_def wf_nodes_def pair_graph_def layout_node_def graph_len_def graph_new_def
      less_Suc_eq numeral_eq_Suc transposes_typed_def transpose_shape_def shape_new_def rank_def
      dim_at_def)

lemma pair_values: "map t_data (output_values pair_kernels pair_graph) = [[10, 11, 12, 13, 14, 15]]"
  by code_simp

theorem simplify_transposes_correct_witness:
  "map t_data (output_values pair_kernels pair_end) = [[10, 11, 12, 13, 14, 15]]"
proof -
  have "sized_in (\<lambda>_. 0) (\<lambda>opr s vs. [0..<prod_list (extents_in (\<lambda>_. 0) s)])"
    by (simp add: sized_in_def)
  from simplify_transposes_correct [OF pair_typed this, of "\<lambda>opr t vs. hd vs + 10" "\<lambda>t b. 0"]
  have "output_values pair_kernels pair_end = output_values pair_kernels pair_graph"
    unfolding pair_run pair_kernels_def by simp
  then show ?thesis using pair_values by simp
qed

text \<open>
  The sink rule can add work: here both transposes under the sum are read elsewhere as well, and
  the moved ones do not cancel. Three transposes become four.
\<close>

definition shared_graph :: "node list \<Rightarrow> node_id \<Rightarrow> graph" where
  "shared_graph rest out = (graph_new ''shared'')\<lparr>g_nodes :=
     [layout_node 0 (Input ''x'') [] [2, 3, 4], layout_node 1 (Input ''y'') [] [2, 3, 4],
      layout_node 2 (Transpose [1, 2, 0]) [0] [3, 4, 2], layout_node 3 (Transpose [1, 2, 0]) [1] [3, 4, 2],
      layout_node 4 (Binary Add) [2, 3] [3, 4, 2]] @ rest, g_outputs := [2, 3, out]\<rparr>"

lemma fuel_numeral:
  "sink (numeral k) out i p = sink (Suc (pred_numeral k)) out i p"
  "transpose_onto (numeral k) out i p = transpose_onto (Suc (pred_numeral k)) out i p"
  by (simp_all only: numeral_eq_Suc)

lemma sink_adds_transposes:
  "one_round (shared_graph [layout_node 5 (Transpose [1, 2, 0]) [4] [4, 2, 3]] 5) =
     Ok (shared_graph [layout_node 5 (Transpose [2, 0, 1]) [0] [4, 2, 3],
       layout_node 6 (Transpose [2, 0, 1]) [1] [4, 2, 3], layout_node 7 (Binary Add) [5, 6] [4, 2, 3]] 7, True)"
  by (simp add: shared_graph_def pass_defs fuel_numeral
      cong: bind_outcome_weak for_each_weak option.case_cong_weak)

end
