(* ===== verification/AlgebraicSimplify.thy ===== *)
theory AlgebraicSimplify
  imports Layouts
begin

text \<open>
  Algebraic simplification (\<open>crates/core/rlx-compile/src/algebraic_simplify.rs\<close>): binary nodes
  with one constant operand that is all zeros or all ones. The pass reads every constant as
  single-precision floats; on graphs whose binary nodes have that type it keeps the output values
  under any arithmetic in which zero and one behave as in a ring, on others it need not.
\<close>

section \<open>Constants as floats\<close>

text \<open>The whole groups of four bytes.\<close>

definition decode_f32 :: "bytes \<Rightarrow> f32 list" where
  "decode_f32 b = map (\<lambda>k. word_of_int (le_value (take 4 (drop (k * 4) b)))) [0..<length b div 4]"

definition encode_f32 :: "f32 list \<Rightarrow> bytes" where
  "encode_f32 xs = concat (map (\<lambda>x. le_bytes 4 (uint x)) xs)"

definition constant_f32_values :: "graph \<Rightarrow> node_id \<Rightarrow> f32 list option res" where
  "constant_f32_values g i =
     bind_outcome (node_at g i) (\<lambda>n. Ok (map_option decode_f32 (constant_data (n_op n))))"

text \<open>The comparisons with 0 and 1: two bit patterns are zero, one is one.\<close>

definition is_all_zero :: "f32 list \<Rightarrow> bool" where
  "is_all_zero xs = list_all (\<lambda>x. x = 0 \<or> x = 0x80000000) xs"

definition is_all_one :: "f32 list \<Rightarrow> bool" where
  "is_all_one xs = list_all (\<lambda>x. x = 0x3f800000) xs"

definition zeros_like :: "graph \<Rightarrow> shape \<Rightarrow> graph \<times> node_id" where
  "zeros_like g s =
     (let n = (case num_elements s of Some n \<Rightarrow> n | None \<Rightarrow> 1)
      in add_node g (Constant (encode_f32 (replicate n 0))) [] s)"

section \<open>The pass\<close>

text \<open>The node that replaces a binary one, if a rule applies.\<close>

definition simplify_binary ::
  "graph \<Rightarrow> binary_op \<Rightarrow> node_id \<Rightarrow> node_id \<Rightarrow> shape \<Rightarrow> (graph \<times> node_id option) res" where
  "simplify_binary out bop a b s =
     bind_outcome (constant_f32_values out a) (\<lambda>a_const.
     bind_outcome (constant_f32_values out b) (\<lambda>b_const.
       let out_elems = (case num_elements s of Some n \<Rightarrow> n | None \<Rightarrow> 0);
           const_matches = (\<lambda>c. length c = out_elems \<or> length c = 1);
           kept = (\<lambda>i. bind_outcome (node_at out i) (\<lambda>n.
             Ok (out, if n_shape n = s then Some i else None)));
           scaled = (\<lambda>c i.
             if \<not> const_matches c \<or> \<not> (is_all_zero c \<or> is_all_one c) then Ok (out, None)
             else if is_all_zero c then (case zeros_like out s of (out', z) \<Rightarrow> Ok (out', Some z))
             else kept i)
       in case (a_const, b_const) of
            (Some c, None) \<Rightarrow>
              if bop = Add \<and> const_matches c \<and> is_all_zero c then kept b
              else if bop = Mul then scaled c b
              else Ok (out, None)
          | (None, Some c) \<Rightarrow>
              if (bop = Add \<or> bop = Sub) \<and> const_matches c \<and> is_all_zero c then kept a
              else if bop = Mul then scaled c a
              else Ok (out, None)
          | _ \<Rightarrow> Ok (out, None)))"

fun binary_of :: "op \<Rightarrow> binary_op option" where
  "binary_of (Binary b) = Some b"
| "binary_of _ = None"

definition algebraic_step :: "graph \<times> id_map \<Rightarrow> node \<Rightarrow> (graph \<times> id_map) res" where
  "algebraic_step st n =
     (case st of (out, m) \<Rightarrow>
        bind_outcome (map_ids m (n_inputs n)) (\<lambda>ins.
        bind_outcome
          (case binary_of (n_op n) of
             Some bop \<Rightarrow> if length ins \<noteq> 2 then Ok (out, None)
                         else simplify_binary out bop (ins ! 0) (ins ! 1) (n_shape n)
           | None \<Rightarrow> Ok (out, None))
          (\<lambda>(out1, simplified).
             case (case simplified of Some i \<Rightarrow> (out1, i)
                   | None \<Rightarrow> add_node out1 (n_op n) ins (n_shape n)) of
               (out2, i) \<Rightarrow> Ok (out2, m(n_id n \<mapsto> i)))))"

definition algebraic_simplify :: "graph \<Rightarrow> graph res" where
  "algebraic_simplify g =
     bind_outcome (for_each algebraic_step (graph_new (g_name g), Map.empty) (g_nodes g))
       (\<lambda>(out, m). rebuild_outputs g out m)"

section \<open>What a constant holds\<close>

lemma le_value_bounds: "0 \<le> le_value bs \<and> le_value bs < 256 ^ length bs"
proof (induction bs)
  case (Cons b bs)
  have "uint b < 256" "0 \<le> uint b" using uint_bounded [of b] by simp_all
  then show ?case using Cons by simp
qed simp

lemma le_bytes_le_value: "le_bytes (length bs) (le_value bs) = bs"
proof (induction bs)
  case (Cons b bs)
  have b: "uint b < 256" "0 \<le> uint b" using uint_bounded [of b] by simp_all
  have "word_of_int (uint b + 256 * le_value bs) = b"
  proof (rule word_uint_eqI)
    show "uint (word_of_int (uint b + 256 * le_value bs) :: 8 word) = uint b"
      unfolding uint_word_of_int using b by simp
  qed
  then show ?case using Cons b by (simp add: le_bytes_Suc div_add1_eq)
qed (simp add: le_bytes_def)

lemma word_chunk:
  assumes "length c = 4"
  shows "le_bytes 4 (uint (word_of_int (le_value c) :: f32)) = c"
proof -
  have "uint (word_of_int (le_value c) :: f32) = le_value c"
    using le_value_bounds [of c] assms by (simp add: uint_word_of_int)
  then show ?thesis using le_bytes_le_value [of c] assms by simp
qed

section \<open>Kernels and arithmetic\<close>

text \<open>Constants hold their decoded bytes, elementwise operators work on broadcast reads, anything
  else is arbitrary and fills its output.\<close>

definition elementwise_kernels ::
  "(nat \<Rightarrow> nat) \<Rightarrow> (op \<Rightarrow> dtype \<Rightarrow> 'a list \<Rightarrow> 'a) \<Rightarrow> (dtype \<Rightarrow> bytes \<Rightarrow> 'a) \<Rightarrow>
   (op \<Rightarrow> shape \<Rightarrow> 'a tensor list \<Rightarrow> 'a list) \<Rightarrow> 'a tensor kernels" where
  "elementwise_kernels env f dec other opr s vs =
     (let ds = extents_in env s in
      \<lparr>t_dims = ds, t_data =
         (if is_elementwise opr then pointwise (f opr (shape_dtype s)) ds vs
          else case constant_data opr of
            Some b \<Rightarrow> decoded dec (shape_dtype s) (prod_list ds) b
          | None \<Rightarrow> other opr s vs)\<rparr>)"

definition float_value :: "(dtype \<Rightarrow> bytes \<Rightarrow> 'a) \<Rightarrow> f32 \<Rightarrow> 'a" where
  "float_value dec w = dec F32 (le_bytes 4 (uint w))"

definition ring_like :: "(op \<Rightarrow> dtype \<Rightarrow> 'a list \<Rightarrow> 'a) \<Rightarrow> (dtype \<Rightarrow> bytes \<Rightarrow> 'a) \<Rightarrow> bool" where
  "ring_like f dec \<longleftrightarrow> (\<forall>x. \<forall>z \<in> {0, 0x80000000}.
     f (Binary Add) F32 [x, float_value dec z] = x \<and> f (Binary Add) F32 [float_value dec z, x] = x \<and>
     f (Binary Sub) F32 [x, float_value dec z] = x \<and>
     f (Binary Mul) F32 [x, float_value dec z] = float_value dec 0 \<and>
     f (Binary Mul) F32 [float_value dec z, x] = float_value dec 0 \<and>
     f (Binary Mul) F32 [x, float_value dec 0x3f800000] = x \<and>
     f (Binary Mul) F32 [float_value dec 0x3f800000, x] = x)"

text \<open>The operand broadcasts to the node.\<close>

definition operand_fits :: "shape \<Rightarrow> shape \<Rightarrow> bool" where
  "operand_fits s t \<longleftrightarrow> length (dims s) \<le> length (dims t) \<and>
     (\<forall>i < length (dims s). rev (dims s) ! i = Static 1 \<or> rev (dims s) ! i = rev (dims t) ! i)"

definition const_sized :: "node \<Rightarrow> bool" where
  "const_sized n \<longleftrightarrow> (\<forall>b. constant_data (n_op n) = Some b \<longrightarrow> shape_dtype (n_shape n) = F32 \<longrightarrow>
     (\<exists>k. num_elements (n_shape n) = Some k \<and> length b = 4 * k))"

definition f32_arith :: "graph \<Rightarrow> bool" where
  "f32_arith g \<longleftrightarrow> (\<forall>n \<in> set (g_nodes g). const_sized n \<and>
     (binary_of (n_op n) \<noteq> None \<longrightarrow> num_elements (n_shape n) \<noteq> None \<and> shape_dtype (n_shape n) = F32 \<and>
       (\<forall>j \<in> set (n_inputs n). shape_dtype (n_shape (g_nodes g ! j)) = F32 \<and>
          operand_fits (n_shape (g_nodes g ! j)) (n_shape n))))"

lemma num_elements_extents: "num_elements s = Some n \<Longrightarrow> prod_list (extents_in env s) = n"
  by (elim num_elements_Some) (simp add: extents_in_def comp_def)

lemma bcast_index_bound:
  "length ss \<le> length ts \<Longrightarrow> \<forall>i < length ss. ss ! i = 1 \<or> ss ! i = ts ! i \<Longrightarrow> k < prod_list ts \<Longrightarrow>
     bcast_index ss ts k < prod_list ss"
proof (induction ss ts k rule: bcast_index.induct)
  case (1 s ss t ts k)
  have t: "0 < t" using 1(4) by (cases t) auto
  have "k div t < prod_list ts" using 1(4) by (simp add: less_mult_imp_div_less mult.commute)
  moreover have "\<forall>i < length ss. ss ! i = 1 \<or> ss ! i = ts ! i" using 1(3) by force
  ultimately have ih: "bcast_index ss ts (k div t) < prod_list ss" using 1(1,2) by simp
  let ?d = "if s = 1 then 0 else k mod t" and ?r = "bcast_index ss ts (k div t)"
  have "s = 1 \<or> s = t" using 1(3) by force
  then have "?d < s" using t by auto
  then have "?d + s * ?r < s * Suc ?r" by simp
  also have "\<dots> \<le> s * prod_list ss" using ih by (intro mult_le_mono2) simp
  finally show ?case by simp
qed auto

lemma bcast_read_fits:
  assumes "operand_fits s t" and "t_dims x = extents_in env s" and "k < prod_list (extents_in env t)"
  obtains i where "i < prod_list (extents_in env s)" "bcast_read x (extents_in env t) k = t_data x ! i"
proof -
  let ?v = "\<lambda>d. case d of Static n \<Rightarrow> n | Dynamic y \<Rightarrow> env y"
  have ext: "rev (extents_in env u) = map ?v (rev (dims u))" for u by (simp add: extents_in_def rev_map)
  have prod: "prod_list (rev xs) = prod_list xs" for xs :: "nat list"
    by (induction xs) (simp_all add: mult.commute)
  have "bcast_index (rev (extents_in env s)) (rev (extents_in env t)) k < prod_list (rev (extents_in env s))"
  proof (rule bcast_index_bound)
    show "length (rev (extents_in env s)) \<le> length (rev (extents_in env t))"
      using assms(1) by (simp add: operand_fits_def extents_in_def)
    show "\<forall>i < length (rev (extents_in env s)). rev (extents_in env s) ! i = 1 \<or>
        rev (extents_in env s) ! i = rev (extents_in env t) ! i"
      using assms(1) unfolding ext operand_fits_def by auto
  qed (simp add: prod assms(3))
  then show thesis using that assms(2) by (simp add: bcast_read_def prod)
qed

lemma elementwise_dims [simp]: "t_dims (elementwise_kernels env f dec other opr s vs) = extents_in env s"
  by (simp add: elementwise_kernels_def Let_def)

lemma elementwise_len:
  "sized_in env other \<Longrightarrow>
     length (t_data (elementwise_kernels env f dec other opr s vs)) = prod_list (extents_in env s)"
  by (simp add: elementwise_kernels_def Let_def pointwise_def decoded_def sized_in_def split: option.split)

text \<open>A constant operand that holds one of two words everywhere.\<close>

lemma constant_read:
  assumes K: "K = elementwise_kernels env f dec other"
    and wf: "wf_nodes (g_nodes out)" and a: "a < graph_len out"
    and b: "constant_data (n_op (g_nodes out ! a)) = Some b" and sized: "const_sized (g_nodes out ! a)"
    and ty: "shape_dtype (n_shape (g_nodes out ! a)) = F32"
    and fits: "operand_fits (n_shape (g_nodes out ! a)) s" and k: "k < prod_list (extents_in env s)"
    and all: "list_all P (decode_f32 b)"
  shows "\<exists>w. P w \<and> bcast_read (value_at K out a) (extents_in env s) k = float_value dec w"
proof -
  let ?n = "g_nodes out ! a"
  obtain m where m: "num_elements (n_shape ?n) = Some m" "length b = 4 * m"
    using sized b ty by (auto simp: const_sized_def)
  note ext = num_elements_extents [OF m(1), of env]
  have op: "n_op ?n = Constant b" using b by (cases "n_op ?n") auto
  have val: "value_at K out a = \<lparr>t_dims = extents_in env (n_shape ?n), t_data = decoded dec F32 m b\<rparr>"
    unfolding value_at_wf [OF wf a] using ty ext by (simp add: K elementwise_kernels_def Let_def op)
  obtain i where i: "i < m" "bcast_read (value_at K out a) (extents_in env s) k = t_data (value_at K out a) ! i"
    using bcast_read_fits [OF fits _ k, of "value_at K out a"] ext val by auto
  let ?c = "take 4 (drop (i * 4) b)"
  have c: "length ?c = 4" using i(1) m(2) by simp
  have "t_data (value_at K out a) ! i = dec F32 ?c"
    using i(1) by (simp add: val decoded_def)
  also have "\<dots> = float_value dec (word_of_int (le_value ?c))"
    by (simp only: float_value_def word_chunk [OF c])
  finally have "bcast_read (value_at K out a) (extents_in env s) k = float_value dec (decode_f32 b ! i)"
    using i m(2) by (simp add: decode_f32_def)
  moreover have "P (decode_f32 b ! i)"
    using all i(1) m(2) by (simp add: decode_f32_def list_all_length)
  ultimately show ?thesis by blast
qed

section \<open>One node\<close>

lemma elementwise_binary:
  "elementwise_kernels env f dec other (Binary bop) s vs =
     \<lparr>t_dims = extents_in env s, t_data = pointwise (f (Binary bop) (shape_dtype s)) (extents_in env s) vs\<rparr>"
  by (simp add: elementwise_kernels_def Let_def)

lemma pointwise_keeps:
  assumes "t_dims v = ds" and "length (t_data v) = prod_list ds"
    and "\<And>k. k < prod_list ds \<Longrightarrow> F (map (\<lambda>x. bcast_read x ds k) vs) = bcast_read v ds k"
  shows "pointwise F ds vs = t_data v"
proof (rule nth_equalityI)
  fix k assume "k < length (pointwise F ds vs)"
  then show "pointwise F ds vs ! k = t_data v ! k"
    using assms(3) [of k] bcast_read_same [OF assms(1)] by (simp add: pointwise_def)
qed (simp add: pointwise_def assms(2))

lemma decoded_zeros: "decoded dec F32 n (encode_f32 (replicate n 0)) = replicate n (float_value dec 0)"
proof (rule nth_equalityI)
  fix k assume "k < length (decoded dec F32 n (encode_f32 (replicate n 0)))"
  then have k: "k < n" by (simp add: decoded_def)
  have enc: "encode_f32 (replicate m 0) = concat (replicate m (le_bytes 4 0))" for m
    by (simp add: encode_f32_def map_replicate)
  have drop: "drop (j * 4) (concat (replicate m (le_bytes 4 0))) = concat (replicate (m - j) (le_bytes 4 0))" for j m
    by (induction j m rule: diff_induct) simp_all
  have "take 4 (concat (replicate (Suc m) (le_bytes 4 0))) = le_bytes 4 0" for m by simp
  then have "take 4 (drop (k * 4) (encode_f32 (replicate n 0))) = le_bytes 4 0"
    using k unfolding enc drop by (metis Suc_diff_Suc)
  then show "decoded dec F32 n (encode_f32 (replicate n 0)) ! k = replicate n (float_value dec 0) ! k"
    using k by (simp add: decoded_def float_value_def)
qed (simp add: decoded_def)

text \<open>The outcome of a rule: a node of the shape and the value the binary node had.\<close>

definition rule_ok :: "'a tensor kernels \<Rightarrow> graph \<Rightarrow> binary_op \<Rightarrow> node_id \<Rightarrow> node_id \<Rightarrow> shape \<Rightarrow>
    graph \<times> node_id option \<Rightarrow> bool" where
  "rule_ok K out bop a b s r \<longleftrightarrow> extends out (fst r) \<and> wf_nodes (g_nodes (fst r)) \<and>
     (\<forall>n \<in> set (g_nodes (fst r)). const_sized n) \<and>
     (\<forall>i. snd r = Some i \<longrightarrow> i < graph_len (fst r) \<and> n_shape (g_nodes (fst r) ! i) = s \<and>
        value_at K (fst r) i = K (Binary bop) s [value_at K out a, value_at K out b])"

lemma zeros_like_ok:
  assumes K: "K = elementwise_kernels env f dec other"
    and out: "wf_nodes (g_nodes out)" "\<forall>n \<in> set (g_nodes out). const_sized n"
    and s: "num_elements s = Some N" "shape_dtype s = F32"
    and zero: "\<And>k. k < prod_list (extents_in env s) \<Longrightarrow>
      f (Binary bop) F32 [bcast_read (value_at K out a) (extents_in env s) k,
        bcast_read (value_at K out b) (extents_in env s) k] = float_value dec 0"
  shows "rule_ok K out bop a b s (fst (zeros_like out s), Some (snd (zeros_like out s)))"
proof -
  let ?b = "encode_f32 (replicate N 0)"
  have z: "zeros_like out s = add_node out (Constant ?b) [] s" by (simp add: zeros_like_def s(1))
  have len: "length ?b = 4 * N" by (simp add: encode_f32_def map_replicate length_concat sum_list_replicate)
  have ext: "prod_list (extents_in env s) = N" by (rule num_elements_extents [OF s(1)])
  have "value_at K (fst (add_node out (Constant ?b) [] s)) (graph_len out) =
      \<lparr>t_dims = extents_in env s, t_data = replicate N (float_value dec 0)\<rparr>"
    unfolding value_at_add_node using s(2) ext decoded_zeros [of dec N]
    by (simp add: K elementwise_kernels_def Let_def)
  also have "\<dots> = K (Binary bop) s [value_at K out a, value_at K out b]"
  proof -
    have "replicate N (float_value dec 0) = pointwise (f (Binary bop) F32) (extents_in env s)
        [value_at K out a, value_at K out b]"
      by (rule nth_equalityI) (use zero ext in \<open>simp_all add: pointwise_def\<close>)
    moreover have "K (Binary bop) s vs =
        \<lparr>t_dims = extents_in env s, t_data = pointwise (f (Binary bop) F32) (extents_in env s) vs\<rparr>" for vs
      using s(2) by (simp add: K elementwise_binary)
    ultimately show ?thesis by simp
  qed
  finally show ?thesis using out len s(1)
    by (simp add: rule_ok_def z wf_nodes_snoc snd_conv add_node_simps(2) const_sized_def
        graph_len_def nth_append)
qed

lemma kept_ok:
  assumes K: "K = elementwise_kernels env f dec other" and sz: "sized_in env other"
    and out: "wf_nodes (g_nodes out)" "\<forall>n \<in> set (g_nodes out). const_sized n"
    and i: "i < graph_len out" "n_shape (g_nodes out ! i) = s" and s: "shape_dtype s = F32"
    and keeps: "\<And>k. k < prod_list (extents_in env s) \<Longrightarrow>
      f (Binary bop) F32 [bcast_read (value_at K out a) (extents_in env s) k,
        bcast_read (value_at K out b) (extents_in env s) k] = bcast_read (value_at K out i) (extents_in env s) k"
  shows "rule_ok K out bop a b s (out, Some i)"
proof -
  have v: "t_dims (value_at K out i) = extents_in env s" "length (t_data (value_at K out i)) = prod_list (extents_in env s)"
    unfolding value_at_wf [OF out(1) i(1)] using i(2) elementwise_len [OF sz] by (simp_all add: K)
  have "pointwise (f (Binary bop) F32) (extents_in env s) [value_at K out a, value_at K out b] = t_data (value_at K out i)"
    by (rule pointwise_keeps [OF v]) (simp add: keeps)
  then have "value_at K out i = K (Binary bop) s [value_at K out a, value_at K out b]"
    using v(1) s by (subst K) (simp add: elementwise_binary)
  then show ?thesis using out i by (simp add: rule_ok_def)
qed

lemma all_zero_iff: "is_all_zero c \<longleftrightarrow> list_all (\<lambda>x. x \<in> {0, 0x80000000}) c"
  by (simp add: is_all_zero_def)

lemma all_one_iff: "is_all_one c \<longleftrightarrow> list_all (\<lambda>x. x = 0x3f800000) c"
  by (simp add: is_all_one_def)

lemma simplify_binary_ok:
  assumes K: "K = elementwise_kernels env f dec other" and sz: "sized_in env other" and ring: "ring_like f dec"
    and out: "wf_nodes (g_nodes out)" "\<forall>n \<in> set (g_nodes out). const_sized n"
    and ab: "a < graph_len out" "b < graph_len out"
    and s: "num_elements s = Some N" "shape_dtype s = F32"
    and fa: "shape_dtype (n_shape (g_nodes out ! a)) = F32" "operand_fits (n_shape (g_nodes out ! a)) s"
    and fb: "shape_dtype (n_shape (g_nodes out ! b)) = F32" "operand_fits (n_shape (g_nodes out ! b)) s"
  shows "\<exists>r. simplify_binary out bop a b s = Ok r \<and> rule_ok K out bop a b s r"
proof -
  let ?ds = "extents_in env s"
  let ?ra = "\<lambda>k. bcast_read (value_at K out a) ?ds k" and ?rb = "\<lambda>k. bcast_read (value_at K out b) ?ds k"
  have none: "rule_ok K out bop a b s (out, None)" using out by (simp add: rule_ok_def)
  have member: "const_sized (g_nodes out ! a)" "const_sized (g_nodes out ! b)"
    using out(2) ab by (simp_all add: graph_len_def)
  have read_a: "\<exists>w. P w \<and> ?ra k = float_value dec w"
    if "constant_data (n_op (g_nodes out ! a)) = Some d" "list_all P (decode_f32 d)" "k < prod_list ?ds" for d P k
    by (rule constant_read [OF K out(1) ab(1) that(1) member(1) fa that(3,2)])
  have read_b: "\<exists>w. P w \<and> ?rb k = float_value dec w"
    if "constant_data (n_op (g_nodes out ! b)) = Some d" "list_all P (decode_f32 d)" "k < prod_list ?ds" for d P k
    by (rule constant_read [OF K out(1) ab(2) that(1) member(2) fb that(3,2)])
  note keep = kept_ok [OF K sz out _ _ s(2)] and zero = zeros_like_ok [OF K out s]
  note laws = ring [unfolded ring_like_def, rule_format]
  show ?thesis
  proof (cases "constant_data (n_op (g_nodes out ! a))")
    case None
    show ?thesis
    proof (cases "constant_data (n_op (g_nodes out ! b))")
      case None
      then show ?thesis using \<open>constant_data (n_op (g_nodes out ! a)) = None\<close> ab none
        by (simp add: simplify_binary_def constant_f32_values_def)
    next
      case (Some d)
      let ?c = "decode_f32 d"
      have add: "rule_ok K out bop a b s (out, Some a)"
        if "bop = Add \<or> bop = Sub" "is_all_zero ?c" "n_shape (g_nodes out ! a) = s"
        using that(1) laws read_b [OF Some that(2) [unfolded all_zero_iff]]
        by (intro keep ab(1) that(3)) (elim disjE; fastforce)
      have mul1: "rule_ok K out bop a b s (out, Some a)"
        if "bop = Mul" "is_all_one ?c" "n_shape (g_nodes out ! a) = s"
        using that(1) laws read_b [OF Some that(2) [unfolded all_one_iff]]
        by (intro keep ab(1) that(3)) fastforce
      have mul0: "rule_ok K out bop a b s (fst (zeros_like out s), Some (snd (zeros_like out s)))"
        if "bop = Mul" "is_all_zero ?c"
        using that(1) laws read_b [OF Some that(2) [unfolded all_zero_iff]]
        by (intro zero) fastforce
      show ?thesis using None Some ab none add mul1 mul0
        by (auto simp: simplify_binary_def constant_f32_values_def Let_def split_beta)
    qed
  next
    case (Some d)
    let ?c = "decode_f32 d"
    show ?thesis
    proof (cases "constant_data (n_op (g_nodes out ! b))")
      case None
      have add: "rule_ok K out bop a b s (out, Some b)"
        if "bop = Add" "is_all_zero ?c" "n_shape (g_nodes out ! b) = s"
        using that(1) laws read_a [OF Some that(2) [unfolded all_zero_iff]]
        by (intro keep ab(2) that(3)) fastforce
      have mul1: "rule_ok K out bop a b s (out, Some b)"
        if "bop = Mul" "is_all_one ?c" "n_shape (g_nodes out ! b) = s"
        using that(1) laws read_a [OF Some that(2) [unfolded all_one_iff]]
        by (intro keep ab(2) that(3)) fastforce
      have mul0: "rule_ok K out bop a b s (fst (zeros_like out s), Some (snd (zeros_like out s)))"
        if "bop = Mul" "is_all_zero ?c"
        using that(1) laws read_a [OF Some that(2) [unfolded all_zero_iff]]
        by (intro zero) fastforce
      show ?thesis using None Some ab none add mul1 mul0
        by (auto simp: simplify_binary_def constant_f32_values_def Let_def split_beta)
    next
      case (Some d')
      then show ?thesis using \<open>constant_data (n_op (g_nodes out ! a)) = Some d\<close> ab none
        by (simp add: simplify_binary_def constant_f32_values_def)
    qed
  qed
qed

section \<open>The pass keeps the outputs\<close>

definition algebraic_inv :: "graph \<Rightarrow> graph \<times> id_map \<Rightarrow> bool" where
  "algebraic_inv g st \<longleftrightarrow> wf_nodes (g_nodes (fst st)) \<and> (\<forall>n \<in> set (g_nodes (fst st)). const_sized n) \<and>
     shapes_kept g (fst st) (snd st)"

lemma algebraic_step_ok:
  assumes K: "K = elementwise_kernels env f dec other" and sz: "sized_in env other" and ring: "ring_like f dec"
    and g: "f32_arith g" and wf: "wf_graph g" and mem: "n \<in> set (g_nodes g)"
    and inv: "algebraic_inv g (out, m)" and ins: "\<forall>i \<in> set (n_inputs n). mapped K K g out m i"
  shows "\<exists>out' m'. algebraic_step (out, m) n = Ok (out', m') \<and> algebraic_inv g (out', m') \<and> extends out out' \<and>
    (\<forall>i. i \<noteq> n_id n \<longrightarrow> m' i = m i) \<and> mapped K K g out' m' (n_id n)"
proof -
  have wfn: "wf_nodes (g_nodes g)" using wf by (simp add: wf_graph_def)
  note id = wf_nodes_member(1,2) [OF wfn mem]
  have out: "wf_nodes (g_nodes out)" "\<forall>n \<in> set (g_nodes out). const_sized n" and kept: "shapes_kept g out m"
    using inv by (simp_all add: algebraic_inv_def)
  obtain js where js: "map_ids m (n_inputs n) = Ok js" "length js = length (n_inputs n)"
      "\<forall>j \<in> set js. j < graph_len out" "map (value_at K out) js = map (value_at K g) (n_inputs n)"
    by (rule map_ids_mapped [OF ins])
  have val: "value_at K g (n_id n) = K (n_op n) (n_shape n) (map (value_at K out) js)"
    unfolding js(4) by (rule value_at_node [OF wf mem])
  have cs: "const_sized n" using g mem by (simp add: f32_arith_def)
  define r where "r = (case binary_of (n_op n) of
      Some bop \<Rightarrow> if length js \<noteq> 2 then Ok (out, None) else simplify_binary out bop (js ! 0) (js ! 1) (n_shape n)
    | None \<Rightarrow> Ok (out, None))"
  have "\<exists>out1 x. r = Ok (out1, x) \<and> extends out out1 \<and> wf_nodes (g_nodes out1) \<and>
      (\<forall>n \<in> set (g_nodes out1). const_sized n) \<and>
      (\<forall>i. x = Some i \<longrightarrow> i < graph_len out1 \<and> n_shape (g_nodes out1 ! i) = n_shape n \<and>
         value_at K out1 i = value_at K g (n_id n))"
  proof (cases "binary_of (n_op n) \<noteq> None \<and> length js = 2")
    case False
    then show ?thesis using out by (auto simp: r_def split: option.split)
  next
    case True
    then obtain bop where bop: "binary_of (n_op n) = Some bop" by auto
    then have op: "n_op n = Binary bop" by (cases "n_op n") auto
    have shape: "num_elements (n_shape n) \<noteq> None" "shape_dtype (n_shape n) = F32"
      "\<forall>j \<in> set (n_inputs n). shape_dtype (n_shape (g_nodes g ! j)) = F32 \<and>
         operand_fits (n_shape (g_nodes g ! j)) (n_shape n)"
      using g mem bop by (auto simp: f32_arith_def)
    have opnd: "js ! k < graph_len out \<and> shape_dtype (n_shape (g_nodes out ! (js ! k))) = F32 \<and>
        operand_fits (n_shape (g_nodes out ! (js ! k))) (n_shape n)" if "k < 2" for k
    proof -
      have k: "k < length (n_inputs n)" "k < length js" using that True js(2) by simp_all
      have "list_all2 (\<lambda>i j. (case m i of Some j \<Rightarrow> Ok j | None \<Rightarrow> Panic) = (Ok j :: node_id res)) (n_inputs n) js"
        using js(1) by (simp add: map_ids_def traverse_Ok_iff)
      then have "m (n_inputs n ! k) = Some (js ! k)"
        using k(1) by (auto simp: list_all2_conv_all_nth split: option.splits)
      then have "n_shape (g_nodes out ! (js ! k)) = n_shape (g_nodes g ! (n_inputs n ! k))"
        using kept by (auto simp: shapes_kept_def)
      then show ?thesis using shape(3) nth_mem [OF k(1)] js(3) nth_mem [OF k(2)] by simp
    qed
    obtain N where N: "num_elements (n_shape n) = Some N" using shape(1) by auto
    have o0: "js ! 0 < graph_len out" "shape_dtype (n_shape (g_nodes out ! (js ! 0))) = F32"
        "operand_fits (n_shape (g_nodes out ! (js ! 0))) (n_shape n)"
      and o1: "js ! 1 < graph_len out" "shape_dtype (n_shape (g_nodes out ! (js ! 1))) = F32"
        "operand_fits (n_shape (g_nodes out ! (js ! 1))) (n_shape n)"
      using opnd [of 0] opnd [of 1] by simp_all
    obtain x where x: "simplify_binary out bop (js ! 0) (js ! 1) (n_shape n) = Ok x"
        "rule_ok K out bop (js ! 0) (js ! 1) (n_shape n) x"
      using simplify_binary_ok [OF K sz ring out o0(1) o1(1) N shape(2) o0(2,3) o1(2,3)] by blast
    have "js = [js ! 0, js ! 1]" using True by (intro nth_equalityI) (auto simp: less_2_cases_iff)
    then have "map (value_at K out) js = [value_at K out (js ! 0), value_at K out (js ! 1)]"
      by (metis list.simps(8,9))
    then have "K (Binary bop) (n_shape n) [value_at K out (js ! 0), value_at K out (js ! 1)] = value_at K g (n_id n)"
      using val op by simp
    then show ?thesis using x True bop unfolding r_def
      by (intro exI [of _ "fst x"] exI [of _ "snd x"]) (simp add: rule_ok_def)
  qed
  then obtain out1 x where x: "r = Ok (out1, x)" "extends out out1" "wf_nodes (g_nodes out1)"
      "\<forall>n \<in> set (g_nodes out1). const_sized n"
      "\<And>i. x = Some i \<Longrightarrow> i < graph_len out1 \<and> n_shape (g_nodes out1 ! i) = n_shape n \<and>
         value_at K out1 i = value_at K g (n_id n)"
    by blast
  define fin where "fin = (case x of Some i \<Rightarrow> (out1, i) | None \<Rightarrow> add_node out1 (n_op n) js (n_shape n))"
  have run: "algebraic_step (out, m) n = Ok (fst fin, m(n_id n \<mapsto> snd fin))"
    unfolding algebraic_step_def prod.case js(1) bind_outcome.simps r_def [symmetric] x(1) fin_def [symmetric]
    by (simp add: split_beta)
  have jl: "\<forall>j \<in> set js. j < graph_len out1" using js(3) extends_len [OF x(2)] by (meson order_less_le_trans)
  have "extends out (fst fin) \<and> wf_nodes (g_nodes (fst fin)) \<and> (\<forall>n \<in> set (g_nodes (fst fin)). const_sized n) \<and>
      snd fin < graph_len (fst fin) \<and> n_shape (g_nodes (fst fin) ! snd fin) = n_shape n \<and>
      value_at K (fst fin) (snd fin) = value_at K g (n_id n)"
  proof (cases x)
    case (Some i)
    then show ?thesis using x by (simp add: fin_def)
  next
    case None
    have same: "map (value_at K out1) js = map (value_at K out) js"
      using js(3) extends_value [OF x(2)] by (intro map_cong) auto
    have "value_at K (fst (add_node out1 (n_op n) js (n_shape n))) (graph_len out1) = value_at K g (n_id n)"
      unfolding value_at_add_node same by (rule val [symmetric])
    then show ?thesis
      using None x(3,4) jl cs extends_trans [OF x(2) extends_add_node]
      by (simp add: fin_def wf_nodes_snoc graph_len_def nth_append const_sized_def add_node_simps(2))
  qed
  then show ?thesis using run shapes_kept_extends [OF kept] id(2)
    by (intro exI [of _ "fst fin"] exI [of _ "m(n_id n \<mapsto> snd fin)"])
      (auto simp: algebraic_inv_def mapped_def shapes_kept_def)
qed

interpretation alg: node_rewrite "elementwise_kernels env f dec other" "elementwise_kernels env f dec other"
  "\<lambda>g. (graph_new (g_name g), Map.empty)" "\<lambda>_. algebraic_step" fst snd "\<lambda>_ _. True"
  "\<lambda>g _. algebraic_inv g" "\<lambda>g. f32_arith g \<and> sized_in env other \<and> ring_like f dec"
  for env :: "nat \<Rightarrow> nat" and f :: "op \<Rightarrow> dtype \<Rightarrow> 'a list \<Rightarrow> 'a" and dec other
proof unfold_locales
  show "algebraic_inv g (graph_new (g_name g), Map.empty)" for g
    by (simp add: algebraic_inv_def graph_new_def shapes_kept_def)
next
  let ?K = "elementwise_kernels env f dec other"
  fix g :: graph and n and s :: "graph \<times> id_map"
  assume wf: "wf_graph g" and adm: "f32_arith g \<and> sized_in env other \<and> ring_like f dec"
    and mem: "n \<in> set (g_nodes g)" and inv: "algebraic_inv g s"
    and ins: "True \<Longrightarrow> \<forall>i \<in> set (n_inputs n). mapped ?K ?K g (fst s) (snd s) i"
  obtain out m where s: "s = (out, m)" by (cases s)
  obtain out' m' where "algebraic_step s n = Ok (out', m')" "algebraic_inv g (out', m')" "extends out out'"
      "\<forall>i. i \<noteq> n_id n \<longrightarrow> m' i = m i" "mapped ?K ?K g out' m' (n_id n)"
    using algebraic_step_ok [OF refl, of env other f dec g n out m] wf adm mem inv ins s by auto
  then show "\<exists>s'. algebraic_step s n = Ok s' \<and> algebraic_inv g s' \<and> wf_nodes (g_nodes (fst s')) \<and>
      extends (fst s) (fst s') \<and> (\<forall>i. i \<noteq> n_id n \<longrightarrow> snd s' i = snd s i) \<and>
      (True \<longrightarrow> mapped ?K ?K g (fst s') (snd s') (n_id n))"
    by (intro exI [of _ "(out', m')"]) (simp add: s algebraic_inv_def)
qed (simp_all add: graph_new_def)

text \<open>
  C30. On graphs whose binary nodes and their operands are static and single precision, the pass
  returns and keeps the output values, in any arithmetic in which zero and one behave as in a
  ring and for any other kernels.
\<close>

theorem algebraic_simplify_correct:
  assumes "wf_graph g" and "f32_arith g" and "sized_in env other" and "ring_like f dec"
  shows "\<exists>g'. algebraic_simplify g = Ok g' \<and> wf_graph g' \<and>
    output_values (elementwise_kernels env f dec other) g' = output_values (elementwise_kernels env f dec other) g"
  using alg.rebuild_ok [OF assms(1), of env other f dec] assms
  by (auto simp: algebraic_simplify_def split_beta)

section \<open>Integers read as floats\<close>

definition arith_node :: "node_id \<Rightarrow> op \<Rightarrow> node_id list \<Rightarrow> nat list \<Rightarrow> dtype \<Rightarrow> node" where
  "arith_node i opr ins ds t = \<lparr>n_id = i, n_op = opr, n_inputs = ins, n_shape = shape_new ds t,
     n_name = None, n_origin = None\<rparr>"

definition scaled_graph :: "binary_op \<Rightarrow> bytes \<Rightarrow> nat list \<Rightarrow> dtype \<Rightarrow> graph" where
  "scaled_graph bop b ds t = (graph_new ''c'')\<lparr>g_nodes :=
     [arith_node 0 (Input ''x'') [] ds t, arith_node 1 (Constant b) [] [1] t,
      arith_node 2 (Binary bop) [0, 1] ds t], g_outputs := [2]\<rparr>"

text \<open>Exact integer arithmetic of 32 bits, little-endian constants.\<close>

fun i32_arith :: "op \<Rightarrow> dtype \<Rightarrow> int list \<Rightarrow> int" where
  "i32_arith (Binary Add) t [x, y] = (x + y + 2 ^ 31) mod 2 ^ 32 - 2 ^ 31"
| "i32_arith (Binary Mul) t [x, y] = (x * y + 2 ^ 31) mod 2 ^ 32 - 2 ^ 31"
| "i32_arith opr t xs = 0"

definition i32_kernels :: "int tensor kernels" where
  "i32_kernels = elementwise_kernels (\<lambda>_. 0) i32_arith (\<lambda>t. le_signed)
     (\<lambda>opr s vs. map (\<lambda>k. int k + 1) [0..<prod_list (extents_in (\<lambda>_. 0) s)])"

definition dropped_graph :: "bytes \<Rightarrow> graph" where
  "dropped_graph b = (graph_new ''c'')\<lparr>g_nodes :=
     [arith_node 0 (Input ''x'') [] [2] I32, arith_node 1 (Constant b) [] [1] I32], g_outputs := [0]\<rparr>"

lemma reads_as_zero: "decode_f32 [0, 0, 0, 128] = [0x80000000]"
  by (simp add: decode_f32_def)

lemma reads_as_one: "decode_f32 [0, 0, 128, 63] = [0x3f800000]"
  by (simp add: decode_f32_def)

lemmas algebraic_defs = algebraic_simplify_def scaled_graph_def dropped_graph_def algebraic_step_def
  map_ids_def simplify_binary_def constant_f32_values_def Let_def node_at_def graph_len_def add_node_def
  push_def push_ext_def index_or_panic_def arith_node_def shape_new_def num_elements_def checked_mul_def
  usize_max_def graph_new_def rebuild_outputs_def set_outputs_def is_all_zero_def is_all_one_def

lemma drops:
  "algebraic_simplify (scaled_graph Add [0, 0, 0, 128] [2] I32) = Ok (dropped_graph [0, 0, 0, 128])"
  "algebraic_simplify (scaled_graph Mul [0, 0, 128, 63] [2] I32) = Ok (dropped_graph [0, 0, 128, 63])"
  by (simp_all add: algebraic_defs reads_as_zero reads_as_one
      cong: bind_outcome_weak for_each_weak option.case_cong_weak)

lemma i32_values:
  "map t_data (output_values i32_kernels (dropped_graph b)) = [[1, 2]]"
  "map t_data (output_values i32_kernels (scaled_graph Add [0, 0, 0, 128] [2] I32)) =
     [[- 2147483647, - 2147483646]]"
  "map t_data (output_values i32_kernels (scaled_graph Mul [0, 0, 128, 63] [2] I32)) =
     [[1065353216, 2130706432]]"
  by (simp_all add: output_values_def value_at_def eval_nodes_def node_value_def scaled_graph_def
      dropped_graph_def arith_node_def graph_new_def i32_kernels_def elementwise_kernels_def Let_def
      extents_in_def shape_new_def pointwise_def decoded_def le_signed_def bcast_read_def
      upt_rec [of 0] upt_rec [of 1] upt_rec [of 2] upt_rec [of "Suc 0"])


section \<open>A single-precision graph\<close>

fun ring_arith :: "op \<Rightarrow> dtype \<Rightarrow> int list \<Rightarrow> int" where
  "ring_arith (Binary Add) t [x, y] = x + y"
| "ring_arith (Binary Sub) t [x, y] = x - y"
| "ring_arith (Binary Mul) t [x, y] = x * y"
| "ring_arith opr t xs = 0"

definition ring_decode :: "dtype \<Rightarrow> bytes \<Rightarrow> int" where
  "ring_decode t b = (if b = [0, 0, 128, 63] then 1 else 0)"

definition ring_kernels :: "int tensor kernels" where
  "ring_kernels = elementwise_kernels (\<lambda>_. 0) ring_arith ring_decode
     (\<lambda>opr s vs. map (\<lambda>k. int k + 1) [0..<prod_list (extents_in (\<lambda>_. 0) s)])"

lemma le_bytes_4:
  "le_bytes 4 v = [word_of_int v, word_of_int (v div 256), word_of_int (v div 256 div 256),
     word_of_int (v div 256 div 256 div 256)]"
proof -
  have four: "(4 :: nat) = Suc (Suc (Suc (Suc 0)))" by simp
  show ?thesis unfolding four le_bytes_Suc by (simp add: le_bytes_def)
qed

lemma ring_arith_laws: "ring_like ring_arith ring_decode"
  by (simp add: ring_like_def float_value_def ring_decode_def le_bytes_4)

lemma scaled_f32: "wf_graph (scaled_graph Mul [0, 0, 128, 63] [2] F32)" "f32_arith (scaled_graph Mul [0, 0, 128, 63] [2] F32)"
  by (simp_all add: wf_graph_def wf_nodes_def scaled_graph_def arith_node_def graph_len_def graph_new_def
      less_Suc_eq numeral_2_eq_2 numeral_3_eq_3 f32_arith_def const_sized_def shape_new_def num_elements_def
      checked_mul_def usize_max_def operand_fits_def)

theorem algebraic_simplify_correct_witness:
  "\<exists>g'. algebraic_simplify (scaled_graph Mul [0, 0, 128, 63] [2] F32) = Ok g' \<and> wf_graph g' \<and>
     output_values ring_kernels g' = output_values ring_kernels (scaled_graph Mul [0, 0, 128, 63] [2] F32)"
  unfolding ring_kernels_def
  by (rule algebraic_simplify_correct [OF scaled_f32 _ ring_arith_laws]) (simp add: sized_in_def)

end
