(* ===== verification/OpTraits.thy ===== *)
theory OpTraits
  imports IR
begin

unbundle bit_operations_syntax

text \<open>
  What the compiler knows of an operator from its variant alone: the kinds, their
  capability flags (\<open>crates/core/rlx-ir/src/capability.rs\<close>) and the number of operands
  (\<open>Arity\<close> and \<open>Op::arity\<close> of \<open>op.rs\<close>).

  A kind is the name of its variant. The tables hold every kind, those of the operators
  that \<open>op\<close> carries as \<open>OtherOp\<close> included; where the operand count of such an operator
  depends on an attribute, it is taken from the parameter \<open>attr_arity\<close>, a function of the
  variant name and the rendered attributes.
\<close>

section \<open>Kinds\<close>

type_synonym op_kind = string

fun op_kind :: "op \<Rightarrow> op_kind" where
  "op_kind (Input _) = ''Input''"
| "op_kind (Param _) = ''Param''"
| "op_kind (Constant _) = ''Constant''"
| "op_kind (Activation _) = ''Activation''"
| "op_kind (Cast _) = ''Cast''"
| "op_kind (Binary _) = ''Binary''"
| "op_kind (Compare _) = ''Compare''"
| "op_kind Where = ''Where''"
| "op_kind Fma = ''Fma''"
| "op_kind MatMul = ''MatMul''"
| "op_kind (LayerNorm _ _) = ''LayerNorm''"
| "op_kind (LayerNorm2d _) = ''LayerNorm2d''"
| "op_kind (Attention _ _ _ _ _ _) = ''Attention''"
| "op_kind (Reshape _) = ''Reshape''"
| "op_kind (Transpose _) = ''Transpose''"
| "op_kind (Narrow _ _ _) = ''Narrow''"
| "op_kind (Concat _) = ''Concat''"
| "op_kind (KvAppend _ _) = ''KvAppend''"
| "op_kind (Expand _) = ''Expand''"
| "op_kind (Gather _) = ''Gather''"
| "op_kind (ScatterNd _) = ''ScatterNd''"
| "op_kind (ScatterElements _ _) = ''ScatterElements''"
| "op_kind (GatherNd _) = ''GatherNd''"
| "op_kind (GatherElements _) = ''GatherElements''"
| "op_kind (DequantMatMul _) = ''DequantMatMul''"
| "op_kind GroupedMatMul = ''GroupedMatMul''"
| "op_kind (DequantGroupedMatMul _) = ''DequantGroupedMatMul''"
| "op_kind (Conv3d _ _ _ _) = ''Conv3d''"
| "op_kind (FusedConvBiasAct _ _ _ _ _ _ _) = ''FusedConvBiasAct''"
| "op_kind (LayerNormBackwardGamma _ _) = ''LayerNormBackwardGamma''"
| "op_kind (Custom _ _ _) = ''Custom''"
| "op_kind (DynamicUpdateSlice _) = ''DynamicUpdateSlice''"
| "op_kind (OtherOp nm _) = nm"

text \<open>\<open>OpKind::ALL\<close>, and the variants of the enumeration in declaration order.\<close>

definition all_kinds :: "op_kind list" where
  "all_kinds =
     [''Input'', ''Param'', ''Constant'', ''Activation'', ''Cast'', ''StopGradient'',
      ''Quantize'', ''Dequantize'', ''FakeQuantize'', ''FakeQuantizeLSQ'',
      ''FakeQuantizeLSQBackwardX'', ''FakeQuantizeLSQBackwardScale'', ''RoundToFormat'',
      ''DoubleSingle'', ''Binary'', ''Compare'', ''Where'', ''Fma'',
      ''ElementwiseRegion'', ''TransformRegion'', ''BatchElementwiseRegion'', ''MatMul'',
      ''DotGeneral'', ''DenseSolve'', ''BatchedDenseSolve'', ''Cholesky'',
      ''TriangularSolve'', ''Det'', ''LogDet'', ''Sort'', ''ArgSort'', ''Svd'', ''Qr'',
      ''LayerNorm'', ''LayerNorm2d'', ''GroupNorm'', ''BatchNormInference'', ''RmsNorm'',
      ''ResizeNearest2x'', ''Interpolate3d'', ''Attention'', ''Rope'', ''AxialRope2d'',
      ''Reshape'', ''Transpose'', ''Narrow'', ''Concat'', ''KvAppend'', ''Expand'',
      ''Gather'', ''Reverse'', ''Pad'', ''Slice'', ''Roll'', ''Clamp'', ''Tile'',
      ''Trilu'', ''Reduce'', ''Histogram'', ''Softmax'', ''Cumsum'', ''CumProd'',
      ''CumMax'', ''ArgMax'', ''ArgMin'', ''TopK'', ''Sample'', ''RngNormal'',
      ''RngUniform'', ''Conv'', ''Im2Col'', ''ConvTranspose2d'', ''Conv3d'',
      ''ConvTranspose3d'', ''Pool'', ''ReluBackward'', ''ActivationBackward'',
      ''FakeQuantizeBackward'', ''ComplexNormSq'', ''ComplexNormSqBackward'',
      ''Conjugate'', ''MaxPool2dBackward'', ''Conv2dBackwardInput'',
      ''Conv2dBackwardWeight'', ''MaxPool3dBackward'', ''Conv3dBackwardInput'',
      ''Conv3dBackwardWeight'', ''SoftmaxCrossEntropy'',
      ''SoftmaxCrossEntropyWithLogits'', ''SoftmaxCrossEntropyBackward'',
      ''AttentionBackward'', ''AttentionBackwardAll'', ''LayerNormBackwardInput'',
      ''LayerNormBackwardGamma'', ''RmsNormBackwardInput'', ''RmsNormBackwardGamma'',
      ''RmsNormBackwardBeta'', ''RopeBackward'', ''GroupNormBackwardInput'',
      ''GroupNormBackwardGamma'', ''GroupNormBackwardBeta'',
      ''BatchNormInferenceBackwardInput'', ''BatchNormInferenceBackwardGamma'',
      ''BatchNormInferenceBackwardBeta'', ''CumsumBackward'', ''GatherBackward'',
      ''GroupedMatMul'', ''DequantGroupedMatMul'', ''DequantGroupedMatMulMlx'',
      ''DequantMoEWeights'', ''ScaledGroupedMatMul'', ''ScatterAdd'', ''ScatterNd'',
      ''ScatterElements'', ''GatherNd'', ''GatherElements'', ''LoraMatMul'',
      ''PartitionedConv'', ''DequantMatMul'', ''SynthMatMul'', ''SynthMatMulBackward'',
      ''SynthReconstruct'', ''SplineActivation'', ''SplineActivationBackwardX'',
      ''SplineActivationBackwardCoeff'', ''QMatMul'', ''QConv2d'', ''ScaledMatMul'',
      ''ScaledQuantize'', ''ScaledQuantScale'', ''ScaledDequantize'', ''SelectiveScan'',
      ''GatedDeltaNet'', ''Lstm'', ''Gru'', ''Rnn'', ''Mamba2'', ''FusedSwiGLU'',
      ''FusedMatMulBiasAct'', ''FusedMatMulResidual'', ''FusedConvBiasAct'',
      ''FusedResidualLN'', ''FusedResidualRmsNorm'', ''FusedAttentionBlock'',
      ''FusedTransformerLayer'', ''If'', ''While'', ''Scan'', ''ScanBackward'',
      ''ScanBackwardXs'', ''GaussianSplatRender'', ''GaussianSplatRenderBackward'',
      ''GaussianSplatPrepare'', ''GaussianSplatRasterize'', ''Custom'', ''CustomFn'',
      ''Fft'', ''FftPocketFft'', ''FftQ'', ''FftButterflyStage'', ''LogMel'',
      ''LogMelBackward'', ''WelchPeaks'', ''BiMap'', ''ReEig'', ''LogEig'',
      ''SpdBatchNorm'', ''SpdKarcherMean'', ''ReEigBackward'', ''LogEigBackward'',
      ''SpdBatchNormBackwardX'', ''SpdBatchNormBackwardG'', ''SpdKarcherMeanWeighted'',
      ''SpdLogMap'', ''SpdExpMap'', ''SpdParallelTransport'', ''SpdMatrixFnBatch'',
      ''SpdLogMapBackward'', ''SpdExpMapBackward'', ''SpdParallelTransportBackward'',
      ''SpdMatrixFnBatchBackward'', ''Eigh'', ''EighBackward'', ''EighBatch'',
      ''EighBatchBackward'', ''AdaLayerNorm'', ''AdaLayerNormBackward'',
      ''GatedResidual'', ''GatedResidualBackward'', ''DynamicUpdateSlice'']"

definition declared_kinds :: "op_kind list" where
  "declared_kinds =
     [''Input'', ''Param'', ''Constant'', ''Activation'', ''Cast'', ''StopGradient'',
      ''Quantize'', ''Dequantize'', ''FakeQuantize'', ''FakeQuantizeLSQ'',
      ''FakeQuantizeLSQBackwardX'', ''FakeQuantizeLSQBackwardScale'', ''RoundToFormat'',
      ''DoubleSingle'', ''Binary'', ''Compare'', ''Where'', ''Fma'',
      ''ElementwiseRegion'', ''TransformRegion'', ''BatchElementwiseRegion'', ''MatMul'',
      ''DotGeneral'', ''DenseSolve'', ''BatchedDenseSolve'', ''Cholesky'',
      ''TriangularSolve'', ''Det'', ''LogDet'', ''Sort'', ''ArgSort'', ''Svd'', ''Qr'',
      ''LayerNorm'', ''LayerNorm2d'', ''GroupNorm'', ''BatchNormInference'', ''RmsNorm'',
      ''ResizeNearest2x'', ''Interpolate3d'', ''Attention'', ''Rope'', ''AxialRope2d'',
      ''Reshape'', ''Transpose'', ''Narrow'', ''Concat'', ''KvAppend'', ''Expand'',
      ''Gather'', ''Reverse'', ''Pad'', ''Slice'', ''Roll'', ''Clamp'', ''Tile'',
      ''Trilu'', ''Reduce'', ''Histogram'', ''Softmax'', ''Cumsum'', ''CumProd'',
      ''CumMax'', ''ArgMax'', ''ArgMin'', ''TopK'', ''Sample'', ''RngNormal'',
      ''RngUniform'', ''Conv'', ''Im2Col'', ''ConvTranspose2d'', ''Conv3d'',
      ''ConvTranspose3d'', ''Pool'', ''ReluBackward'', ''ActivationBackward'',
      ''FakeQuantizeBackward'', ''ComplexNormSq'', ''ComplexNormSqBackward'',
      ''Conjugate'', ''MaxPool2dBackward'', ''Conv2dBackwardInput'',
      ''Conv2dBackwardWeight'', ''MaxPool3dBackward'', ''Conv3dBackwardInput'',
      ''Conv3dBackwardWeight'', ''SoftmaxCrossEntropy'',
      ''SoftmaxCrossEntropyWithLogits'', ''SoftmaxCrossEntropyBackward'',
      ''AttentionBackward'', ''AttentionBackwardAll'', ''LayerNormBackwardInput'',
      ''LayerNormBackwardGamma'', ''RmsNormBackwardInput'', ''RmsNormBackwardGamma'',
      ''RmsNormBackwardBeta'', ''RopeBackward'', ''GroupNormBackwardInput'',
      ''GroupNormBackwardGamma'', ''GroupNormBackwardBeta'',
      ''BatchNormInferenceBackwardInput'', ''BatchNormInferenceBackwardGamma'',
      ''BatchNormInferenceBackwardBeta'', ''CumsumBackward'', ''GatherBackward'',
      ''GroupedMatMul'', ''DequantGroupedMatMul'', ''DequantGroupedMatMulMlx'',
      ''DequantMoEWeights'', ''ScaledGroupedMatMul'', ''ScatterAdd'', ''ScatterNd'',
      ''ScatterElements'', ''GatherNd'', ''GatherElements'', ''LoraMatMul'',
      ''PartitionedConv'', ''DequantMatMul'', ''SynthMatMul'', ''SynthMatMulBackward'',
      ''SynthReconstruct'', ''SplineActivation'', ''SplineActivationBackwardX'',
      ''SplineActivationBackwardCoeff'', ''QMatMul'', ''QConv2d'', ''ScaledMatMul'',
      ''ScaledQuantize'', ''ScaledQuantScale'', ''ScaledDequantize'', ''SelectiveScan'',
      ''GatedDeltaNet'', ''GatedDeltaNetBackward'', ''Lstm'', ''Gru'', ''Rnn'',
      ''Mamba2'', ''FusedSwiGLU'', ''FusedMatMulBiasAct'', ''FusedMatMulResidual'',
      ''FusedConvBiasAct'', ''FusedResidualLN'', ''FusedResidualRmsNorm'',
      ''FusedAttentionBlock'', ''FusedTransformerLayer'', ''If'', ''While'', ''Scan'',
      ''ScanBackward'', ''ScanBackwardXs'', ''GaussianSplatRender'',
      ''GaussianSplatRenderBackward'', ''GaussianSplatPrepare'',
      ''GaussianSplatRasterize'', ''Custom'', ''CustomFn'', ''Fft'', ''FftPocketFft'',
      ''FftQ'', ''FftButterflyStage'', ''LogMel'', ''LogMelBackward'', ''WelchPeaks'',
      ''BiMap'', ''ReEig'', ''LogEig'', ''SpdBatchNorm'', ''SpdKarcherMean'',
      ''ReEigBackward'', ''LogEigBackward'', ''SpdBatchNormBackwardX'',
      ''SpdBatchNormBackwardG'', ''SpdKarcherMeanWeighted'', ''SpdLogMap'', ''SpdExpMap'',
      ''SpdParallelTransport'', ''SpdMatrixFnBatch'', ''SpdLogMapBackward'',
      ''SpdExpMapBackward'', ''SpdParallelTransportBackward'',
      ''SpdMatrixFnBatchBackward'', ''Eigh'', ''EighBackward'', ''EighBatch'',
      ''EighBatchBackward'', ''AdaLayerNorm'', ''AdaLayerNormBackward'',
      ''GatedResidual'', ''GatedResidualBackward'', ''DynamicUpdateSlice'']"

section \<open>Capabilities\<close>

type_synonym op_caps = "32 word"

definition cap_none :: op_caps where "cap_none = 0"
definition cap_leaf :: op_caps where "cap_leaf = push_bit 0 1"
definition cap_elementwise :: op_caps where "cap_elementwise = push_bit 1 1"
definition cap_const_foldable :: op_caps where "cap_const_foldable = push_bit 2 1"
definition cap_blas :: op_caps where "cap_blas = push_bit 3 1"
definition cap_fusion_boundary :: op_caps where "cap_fusion_boundary = push_bit 4 1"
definition cap_reduction :: op_caps where "cap_reduction = push_bit 5 1"
definition cap_transform :: op_caps where "cap_transform = push_bit 6 1"
definition cap_fused :: op_caps where "cap_fused = push_bit 7 1"
definition cap_nested_body :: op_caps where "cap_nested_body = push_bit 8 1"
definition cap_nondeterministic :: op_caps where "cap_nondeterministic = push_bit 9 1"

definition caps_union :: "op_caps \<Rightarrow> op_caps \<Rightarrow> op_caps" where
  "caps_union a b = a OR b"

definition caps_contains :: "op_caps \<Rightarrow> op_caps \<Rightarrow> bool" where
  "caps_contains a b \<longleftrightarrow> a AND b = b"

definition caps_intersects :: "op_caps \<Rightarrow> op_caps \<Rightarrow> bool" where
  "caps_intersects a b \<longleftrightarrow> a AND b \<noteq> 0"

definition caps_is_empty :: "op_caps \<Rightarrow> bool" where
  "caps_is_empty a \<longleftrightarrow> a = 0"

text \<open>The arms of the match in \<open>OpKind::caps\<close>; the last lists the kinds without flags.\<close>

definition caps_arms :: "(op_caps \<times> op_kind list) list" where
  "caps_arms =
     [(cap_leaf,
       [''Input'', ''Param'', ''Constant'']),
      (caps_union cap_elementwise cap_const_foldable,
       [''Activation'', ''Cast'', ''Binary'', ''Compare'']),
      (cap_elementwise,
       [''StopGradient'', ''Where'', ''Fma'', ''ElementwiseRegion'',
        ''BatchElementwiseRegion'']),
      (caps_union cap_blas cap_fusion_boundary,
       [''MatMul'', ''DotGeneral'', ''DenseSolve'', ''BatchedDenseSolve'', ''Conv'',
        ''Im2Col'', ''ConvTranspose2d'', ''Conv3d'', ''ConvTranspose3d'',
        ''GroupedMatMul'', ''DequantGroupedMatMul'', ''DequantGroupedMatMulMlx'',
        ''DequantMoEWeights'', ''ScaledGroupedMatMul'', ''DequantMatMul'',
        ''SynthMatMul'', ''QMatMul'', ''QConv2d'', ''ScaledMatMul'',
        ''FusedMatMulResidual'']),
      (cap_transform,
       [''ResizeNearest2x'']),
      (cap_const_foldable,
       [''Reshape'', ''Expand'']),
      (cap_reduction,
       [''Reduce'', ''Softmax'', ''TopK'']),
      (cap_nondeterministic,
       [''Sample'', ''RngNormal'', ''RngUniform'']),
      (caps_union cap_blas (caps_union cap_fusion_boundary cap_fused),
       [''LoraMatMul'', ''FusedMatMulBiasAct'', ''FusedConvBiasAct'']),
      (cap_fused,
       [''PartitionedConv'', ''SelectiveScan'', ''GatedDeltaNet'',
        ''GatedDeltaNetBackward'', ''Lstm'', ''Gru'', ''Rnn'', ''Mamba2'',
        ''FusedSwiGLU'', ''FusedResidualLN'', ''FusedResidualRmsNorm'',
        ''FusedAttentionBlock'', ''FusedTransformerLayer'', ''AdaLayerNorm'',
        ''GatedResidual'']),
      (cap_nested_body,
       [''If'', ''While'', ''Scan'', ''ScanBackward'', ''ScanBackwardXs'', ''CustomFn'']),
      (cap_fusion_boundary,
       [''GaussianSplatRender'', ''GaussianSplatRenderBackward'',
        ''GaussianSplatPrepare'', ''GaussianSplatRasterize'']),
      (cap_none,
       [''Quantize'', ''Dequantize'', ''FakeQuantize'', ''FakeQuantizeLSQ'',
        ''FakeQuantizeLSQBackwardX'', ''FakeQuantizeLSQBackwardScale'',
        ''RoundToFormat'', ''DoubleSingle'', ''TransformRegion'', ''Cholesky'',
        ''TriangularSolve'', ''Det'', ''LogDet'', ''Sort'', ''ArgSort'', ''Svd'',
        ''Qr'', ''LayerNorm'', ''LayerNorm2d'', ''GroupNorm'', ''BatchNormInference'',
        ''RmsNorm'', ''Interpolate3d'', ''Attention'', ''Rope'', ''AxialRope2d'',
        ''Transpose'', ''Narrow'', ''Concat'', ''KvAppend'', ''Gather'', ''Reverse'',
        ''Pad'', ''Slice'', ''Roll'', ''Clamp'', ''Tile'', ''Trilu'', ''Histogram'',
        ''Cumsum'', ''CumProd'', ''CumMax'', ''ArgMax'', ''ArgMin'', ''Pool'',
        ''ReluBackward'', ''ActivationBackward'', ''FakeQuantizeBackward'',
        ''ComplexNormSq'', ''ComplexNormSqBackward'', ''Conjugate'',
        ''MaxPool2dBackward'', ''Conv2dBackwardInput'', ''Conv2dBackwardWeight'',
        ''MaxPool3dBackward'', ''Conv3dBackwardInput'', ''Conv3dBackwardWeight'',
        ''SoftmaxCrossEntropy'', ''SoftmaxCrossEntropyWithLogits'',
        ''SoftmaxCrossEntropyBackward'', ''AttentionBackward'',
        ''AttentionBackwardAll'', ''LayerNormBackwardInput'',
        ''LayerNormBackwardGamma'', ''RmsNormBackwardInput'', ''RmsNormBackwardGamma'',
        ''RmsNormBackwardBeta'', ''RopeBackward'', ''GroupNormBackwardInput'',
        ''GroupNormBackwardGamma'', ''GroupNormBackwardBeta'',
        ''BatchNormInferenceBackwardInput'', ''BatchNormInferenceBackwardGamma'',
        ''BatchNormInferenceBackwardBeta'', ''CumsumBackward'', ''GatherBackward'',
        ''ScatterAdd'', ''ScatterNd'', ''ScatterElements'', ''GatherNd'',
        ''GatherElements'', ''SynthMatMulBackward'', ''SynthReconstruct'',
        ''SplineActivation'', ''SplineActivationBackwardX'',
        ''SplineActivationBackwardCoeff'', ''ScaledQuantize'', ''ScaledQuantScale'',
        ''ScaledDequantize'', ''Custom'', ''Fft'', ''FftPocketFft'', ''FftQ'',
        ''FftButterflyStage'', ''LogMel'', ''LogMelBackward'', ''WelchPeaks'',
        ''BiMap'', ''ReEig'', ''LogEig'', ''SpdBatchNorm'', ''SpdKarcherMean'',
        ''ReEigBackward'', ''LogEigBackward'', ''SpdBatchNormBackwardX'',
        ''SpdBatchNormBackwardG'', ''SpdKarcherMeanWeighted'', ''SpdLogMap'',
        ''SpdExpMap'', ''SpdParallelTransport'', ''SpdMatrixFnBatch'',
        ''SpdLogMapBackward'', ''SpdExpMapBackward'', ''SpdParallelTransportBackward'',
        ''SpdMatrixFnBatchBackward'', ''Eigh'', ''EighBackward'', ''EighBatch'',
        ''EighBatchBackward'', ''AdaLayerNormBackward'', ''GatedResidualBackward'',
        ''DynamicUpdateSlice''])]"

definition kind_caps :: "op_kind \<Rightarrow> op_caps" where
  "kind_caps k = (case find (\<lambda>arm. k \<in> set (snd arm)) caps_arms of
     Some arm \<Rightarrow> fst arm | None \<Rightarrow> cap_none)"

definition kind_has :: "op_kind \<Rightarrow> op_caps \<Rightarrow> bool" where
  "kind_has k c = caps_contains (kind_caps k) c"

definition op_is_elementwise :: "op \<Rightarrow> bool" where
  "op_is_elementwise opr = kind_has (op_kind opr) cap_elementwise"

definition is_transform_eligible :: "op \<Rightarrow> bool" where
  "is_transform_eligible opr = kind_has (op_kind opr) cap_transform"

definition is_blas :: "op \<Rightarrow> bool" where
  "is_blas opr = kind_has (op_kind opr) cap_blas"

definition is_fusion_boundary :: "op \<Rightarrow> bool" where
  "is_fusion_boundary opr = kind_has (op_kind opr) cap_fusion_boundary"

definition is_reduction :: "op \<Rightarrow> bool" where
  "is_reduction opr = kind_has (op_kind opr) cap_reduction"

definition is_leaf :: "op \<Rightarrow> bool" where
  "is_leaf opr = kind_has (op_kind opr) cap_leaf"

definition is_const_foldable :: "op \<Rightarrow> bool" where
  "is_const_foldable opr = kind_has (op_kind opr) cap_const_foldable"

definition is_fused :: "op \<Rightarrow> bool" where
  "is_fused opr = kind_has (op_kind opr) cap_fused"

definition has_nested_body :: "op \<Rightarrow> bool" where
  "has_nested_body opr = kind_has (op_kind opr) cap_nested_body"

definition is_nondeterministic :: "op \<Rightarrow> bool" where
  "is_nondeterministic opr = kind_has (op_kind opr) cap_nondeterministic"

definition fused_kinds :: "op_kind list" where
  "fused_kinds = filter (\<lambda>k. kind_has k cap_fused) all_kinds"

section \<open>Operand counts\<close>

datatype arity = Exact nat | Range nat nat | AtLeast nat

fun arity_accepts :: "arity \<Rightarrow> nat \<Rightarrow> bool" where
  "arity_accepts (Exact k) n = (n = k)"
| "arity_accepts (Range lo hi) n = (lo \<le> n \<and> n \<le> hi)"
| "arity_accepts (AtLeast lo) n = (lo \<le> n)"

fun min_operands :: "arity \<Rightarrow> nat" where
  "min_operands (Exact k) = k"
| "min_operands (AtLeast k) = k"
| "min_operands (Range lo hi) = lo"

fun max_operands :: "arity \<Rightarrow> nat option" where
  "max_operands (Exact k) = Some k"
| "max_operands (Range lo hi) = Some hi"
| "max_operands (AtLeast k) = None"

definition is_unconstrained :: "arity \<Rightarrow> bool" where
  "is_unconstrained a \<longleftrightarrow> a = AtLeast 0"

text \<open>The arms of \<open>exact_num_inputs\<close> with a constant count.\<close>

definition arity_arms :: "(nat \<times> op_kind list) list" where
  "arity_arms =
     [(1,
       [''Activation'', ''Cast'', ''StopGradient'', ''Reshape'', ''Quantize'',
        ''Dequantize'', ''Transpose'', ''Narrow'', ''Reverse'', ''Pad'', ''Slice'',
        ''Roll'', ''Clamp'', ''Tile'', ''Trilu'', ''Expand'', ''Reduce'', ''Histogram'',
        ''Softmax'', ''FusedSwiGLU'', ''TopK'', ''Cumsum'', ''CumProd'', ''CumMax'',
        ''ArgMax'', ''ArgMin'', ''Sample'', ''ResizeNearest2x'', ''Interpolate3d'',
        ''DequantMoEWeights'', ''ScaledQuantScale'', ''AxialRope2d'', ''Im2Col'',
        ''Pool'', ''ComplexNormSq'', ''Conjugate'', ''BatchNormInferenceBackwardBeta'',
        ''CumsumBackward'', ''Cholesky'', ''Det'', ''LogDet'', ''Sort'', ''ArgSort'',
        ''Svd'', ''Qr'', ''Fft'', ''FftQ'', ''WelchPeaks'', ''ReEig'', ''LogEig'',
        ''SpdKarcherMean'', ''SpdMatrixFnBatch'', ''Eigh'', ''EighBatch'']),
      (2,
       [''FakeQuantizeLSQ'', ''Binary'', ''Compare'', ''Gather'', ''MatMul'',
        ''ScatterAdd'', ''GatherNd'', ''GatherElements'', ''PartitionedConv'',
        ''SynthReconstruct'', ''SplineActivation'', ''SplineActivationBackwardCoeff'',
        ''ScaledQuantize'', ''ScaledDequantize'', ''Conv'', ''ConvTranspose2d'',
        ''Conv3d'', ''ConvTranspose3d'', ''ReluBackward'', ''ActivationBackward'',
        ''FakeQuantizeBackward'', ''ComplexNormSqBackward'', ''LayerNormBackwardGamma'',
        ''GroupNormBackwardGamma'', ''GroupNormBackwardBeta'', ''GatherBackward'',
        ''MaxPool2dBackward'', ''Conv2dBackwardInput'', ''Conv2dBackwardWeight'',
        ''MaxPool3dBackward'', ''Conv3dBackwardInput'', ''Conv3dBackwardWeight'',
        ''SoftmaxCrossEntropy'', ''SoftmaxCrossEntropyWithLogits'', ''KvAppend'',
        ''DotGeneral'', ''DenseSolve'', ''BatchedDenseSolve'', ''TriangularSolve'',
        ''GaussianSplatRasterize'', ''LogMel'', ''BiMap'', ''SpdKarcherMeanWeighted'',
        ''SpdLogMap'', ''SpdExpMap'', ''SpdMatrixFnBatchBackward'', ''EighBackward'',
        ''EighBatchBackward'']),
      (3,
       [''FakeQuantizeLSQBackwardX'', ''FakeQuantizeLSQBackwardScale'', ''ScatterNd'',
        ''ScatterElements'', ''GroupedMatMul'', ''DequantGroupedMatMul'',
        ''SynthMatMul'', ''SplineActivationBackwardX'', ''QMatMul'', ''QConv2d'',
        ''Where'', ''Fma'', ''Rope'', ''LayerNorm'', ''LayerNorm2d'', ''GroupNorm'',
        ''RmsNorm'', ''FusedMatMulBiasAct'', ''FusedMatMulResidual'',
        ''LayerNormBackwardInput'', ''RopeBackward'', ''SoftmaxCrossEntropyBackward'',
        ''LogMelBackward'', ''SpdBatchNorm'', ''SpdParallelTransport'',
        ''ReEigBackward'', ''LogEigBackward'', ''SpdBatchNormBackwardX'',
        ''SpdLogMapBackward'', ''SpdExpMapBackward'', ''AdaLayerNorm'',
        ''GatedResidual'', ''DynamicUpdateSlice'']),
      (4,
       [''LoraMatMul'', ''SynthMatMulBackward'', ''RmsNormBackwardInput'',
        ''RmsNormBackwardGamma'', ''RmsNormBackwardBeta'', ''GroupNormBackwardInput'',
        ''BatchNormInferenceBackwardGamma'', ''SpdBatchNormBackwardG'',
        ''SpdParallelTransportBackward'', ''AdaLayerNormBackward'',
        ''GatedResidualBackward'']),
      (5,
       [''DequantGroupedMatMulMlx'', ''SelectiveScan'', ''Mamba2'',
        ''BatchNormInference'', ''BatchNormInferenceBackwardInput'',
        ''FftButterflyStage'']),
      (6,
       []),
      (7,
       [''GaussianSplatRender'', ''GaussianSplatPrepare'']),
      (8,
       [''GaussianSplatRenderBackward''])]"

definition table_arity :: "op_kind \<Rightarrow> nat option" where
  "table_arity k = map_option fst (find (\<lambda>arm. k \<in> set (snd arm)) arity_arms)"

text \<open>A scheme is the \<open>Debug\<close> rendering of a \<open>QuantScheme\<close>: the variant, then its fields.\<close>

definition scheme_name :: "string \<Rightarrow> string" where
  "scheme_name s = takeWhile (\<lambda>c. c \<noteq> CHR '' '') s"

definition scheme_is_gguf :: "string \<Rightarrow> bool" where
  "scheme_is_gguf s \<longleftrightarrow>
     scheme_name s \<in> set
      [''GgufQ4K'', ''GgufQ5K'', ''GgufQ6K'', ''GgufQ8K'', ''GgufQ2K'', ''GgufQ3K'',
       ''GgufQ4_0'', ''GgufQ4_1'', ''GgufQ5_0'', ''GgufQ5_1'', ''GgufQ8_0'',
       ''GgufIQ4NL'', ''GgufIQ4XS'', ''GgufIQ2XXS'', ''GgufIQ2XS'', ''GgufIQ2S'',
       ''GgufIQ3XXS'', ''GgufIQ3S'', ''GgufIQ1S'', ''GgufIQ1M'', ''GgufTQ1_0'',
       ''GgufTQ2_0'', ''GgufMXFP4'', ''GgufNVFP4'', ''GgufQ1_0'', ''GgufQ2_0'',
       ''GgufFV5'', ''GgufFV5B'', ''GgufG8_0'', ''GgufPtq1_0'', ''GgufBF16'',
       ''Fp8E4m3B128'', ''Fp8E5m2B128'']"

definition scheme_is_mxfp4x2 :: "string \<Rightarrow> bool" where
  "scheme_is_mxfp4x2 s \<longleftrightarrow> scheme_name s = ''MxFp4x2Block''"

type_synonym attr_arity = "string \<Rightarrow> string \<Rightarrow> nat"

definition exact_num_inputs :: "attr_arity \<Rightarrow> op \<Rightarrow> nat" where
  "exact_num_inputs attr_arity opr = (case opr of
     DequantMatMul scheme \<Rightarrow>
       if scheme_is_gguf scheme then 2 else if scheme_is_mxfp4x2 scheme then 3 else 4
   | Attention _ _ _ kind _ _ \<Rightarrow> if kind = MaskCustom \<or> kind = MaskBias then 4 else 3
   | FusedConvBiasAct _ _ _ _ _ _ has_residual \<Rightarrow> if has_residual then 4 else 3
   | Custom _ num_inputs _ \<Rightarrow> num_inputs
   | OtherOp nm attrs \<Rightarrow>
       (case table_arity nm of Some k \<Rightarrow> k | None \<Rightarrow> attr_arity nm attrs)
   | _ \<Rightarrow> (case table_arity (op_kind opr) of Some k \<Rightarrow> k | None \<Rightarrow> 0))"

definition op_arity :: "attr_arity \<Rightarrow> op \<Rightarrow> arity" where
  "op_arity attr_arity opr =
     (let k = op_kind opr in
      if k = ''Input'' \<or> k = ''Param'' \<or> k = ''Constant'' then Exact 0
      else if k = ''RngNormal'' \<or> k = ''RngUniform'' then Range 0 1
      else if k = ''Concat'' then AtLeast 1
      else if k = ''If'' then AtLeast 1
      else if k = ''While'' then AtLeast 0
      else Exact (exact_num_inputs attr_arity opr))"

definition num_inputs :: "attr_arity \<Rightarrow> op \<Rightarrow> nat" where
  "num_inputs attr_arity opr = min_operands (op_arity attr_arity opr)"

section \<open>Laws\<close>

lemmas cap_values = cap_none_def cap_leaf_def cap_elementwise_def cap_const_foldable_def
  cap_blas_def cap_fusion_boundary_def cap_reduction_def cap_transform_def cap_fused_def
  cap_nested_body_def cap_nondeterministic_def

lemma kind_caps_cases:
  obtains "kind_caps k = cap_none"
  | arm where "arm \<in> set caps_arms" "k \<in> set (snd arm)" "kind_caps k = fst arm"
proof (cases "find (\<lambda>arm. k \<in> set (snd arm)) caps_arms")
  case None
  then show thesis using that(1) by (simp add: kind_caps_def)
next
  case (Some arm)
  then have "arm \<in> set caps_arms" "k \<in> set (snd arm)" by (auto simp: find_Some_iff)
  then show thesis using that(2) Some by (simp add: kind_caps_def)
qed

text \<open>No flag is set on \<open>cap_none\<close>, so a kind with a flag comes from an arm with it.\<close>

definition flagged :: "op_caps \<Rightarrow> op_kind list" where
  "flagged c = concat (map snd (filter (\<lambda>arm. caps_contains (fst arm) c) caps_arms))"

lemma kind_has_flagged:
  assumes "kind_has k c" and "c \<noteq> 0"
  shows "k \<in> set (flagged c)"
proof (cases k rule: kind_caps_cases)
  case 1
  then show ?thesis using assms by (simp add: kind_has_def caps_contains_def cap_none_def)
next
  case (2 arm)
  then have "arm \<in> set (filter (\<lambda>arm. caps_contains (fst arm) c) caps_arms)"
    using assms(1) by (simp add: kind_has_def)
  then show ?thesis using 2(2) unfolding flagged_def set_concat set_map by blast
qed

lemma flagged_kinds:
  "flagged cap_leaf = [''Input'', ''Param'', ''Constant'']"
  "flagged cap_nondeterministic = [''Sample'', ''RngNormal'', ''RngUniform'']"
  by (simp_all add: flagged_def caps_arms_def caps_contains_def caps_union_def cap_values)

lemma flagged_have:
  "list_all (\<lambda>k. kind_has k cap_leaf) [''Input'', ''Param'', ''Constant'']"
  "list_all (\<lambda>k. kind_has k cap_nondeterministic) [''Sample'', ''RngNormal'', ''RngUniform'']"
  by (simp_all add: kind_has_def kind_caps_def caps_arms_def caps_contains_def caps_union_def
      cap_values)

lemma kind_has_leaf:
  "kind_has k cap_leaf \<longleftrightarrow> k \<in> {''Input'', ''Param'', ''Constant''}"
proof
  show "kind_has k cap_leaf \<Longrightarrow> k \<in> {''Input'', ''Param'', ''Constant''}"
    using kind_has_flagged [of k cap_leaf] by (simp add: flagged_kinds) (simp add: cap_leaf_def)
qed (use flagged_have in auto)

lemma kind_has_nondeterministic:
  "kind_has k cap_nondeterministic \<longleftrightarrow> k \<in> {''Sample'', ''RngNormal'', ''RngUniform''}"
proof
  show "kind_has k cap_nondeterministic \<Longrightarrow> k \<in> {''Sample'', ''RngNormal'', ''RngUniform''}"
    using kind_has_flagged [of k cap_nondeterministic]
    by (simp add: flagged_kinds) (simp add: cap_nondeterministic_def)
qed (use flagged_have in auto)

lemma arms_consistent:
  "list_all (\<lambda>arm. caps_contains (fst arm) cap_blas \<longrightarrow>
     caps_contains (fst arm) cap_fusion_boundary) caps_arms"
  "list_all (\<lambda>arm. caps_contains (fst arm) cap_nondeterministic \<longrightarrow>
     \<not> caps_contains (fst arm) cap_const_foldable) caps_arms"
  by (simp_all add: caps_arms_def caps_contains_def caps_union_def cap_values)

lemma no_caps: "\<not> caps_contains cap_none cap_blas" "\<not> caps_contains cap_none cap_nondeterministic"
  by (simp_all add: caps_contains_def cap_values)

text \<open>The consistency the tests check over \<open>OpKind::ALL\<close> holds for every kind.\<close>

lemma kind_flags_consistent:
  "kind_has k cap_blas \<Longrightarrow> kind_has k cap_fusion_boundary"
  "kind_has k cap_nondeterministic \<Longrightarrow> \<not> kind_has k cap_const_foldable"
  using arms_consistent no_caps
  by (cases k rule: kind_caps_cases; simp add: kind_has_def list_all_iff)+

text \<open>\<open>OpKind::ALL\<close> is documented to hold every kind; one variant is missing.\<close>

lemma all_kinds_incomplete:
  "''GatedDeltaNetBackward'' \<in> set declared_kinds" "''GatedDeltaNetBackward'' \<notin> set all_kinds"
  by (simp_all add: declared_kinds_def all_kinds_def)

lemma is_leaf_simps [simp]:
  "is_leaf (Input x)" "is_leaf (Param x)" "is_leaf (Constant d)"
  by (simp_all add: is_leaf_def kind_has_leaf)

end
