(* ===== verification/UseCounts.thy ===== *)
theory UseCounts
  imports DCE
begin

text \<open>
  The consumers of every node, computed in one pass
  (\<open>UseCounts\<close> of \<open>crates/core/rlx-fusion/src/analysis.rs\<close>), and its agreement with the
  per-node queries of the graph and with reachability from the outputs.
\<close>

section \<open>The analysis\<close>

record use_counts =
  uc_users :: "node_id list list"
  uc_counts :: "nat list"
  uc_live :: "bool list"
  uc_output :: "bool list"

type_synonym edge_state = "node_id list \<times> node_id list list \<times> nat list"

definition count_edge :: "nat \<Rightarrow> node_id \<Rightarrow> edge_state \<Rightarrow> node_id \<Rightarrow> edge_state" where
  "count_edge n i st input =
     (case st of (seen, us, counts) \<Rightarrow>
        if n \<le> input then st
        else if input \<notin> set seen
        then (seen @ [input], us[input := us ! input @ [i]], counts[input := counts ! input + 1])
        else st)"

definition count_node ::
  "nat \<Rightarrow> node_id list list \<times> nat list \<Rightarrow> node \<Rightarrow> node_id list list \<times> nat list" where
  "count_node n st nd = snd (foldl (count_edge n (n_id nd)) ([], st) (n_inputs nd))"

definition raise_flag :: "bool list \<Rightarrow> node_id \<Rightarrow> bool list" where
  "raise_flag flags i = (if i < length flags then flags[i := True] else flags)"

definition live_step :: "bool list \<Rightarrow> node \<Rightarrow> bool list res" where
  "live_step live nd =
     bind_outcome (index_or_panic live (n_id nd)) (\<lambda>l.
       Ok (if l then foldl raise_flag live (n_inputs nd) else live))"

definition use_counts_compute :: "graph \<Rightarrow> use_counts res" where
  "use_counts_compute g =
     (let n = graph_len g;
          (us, counts) = foldl (count_node n) (replicate n [], replicate n 0) (g_nodes g);
          outs = foldl raise_flag (replicate n False) (g_outputs g)
      in bind_outcome (for_each live_step outs (rev (g_nodes g))) (\<lambda>live.
           Ok \<lparr>uc_users = us, uc_counts = counts, uc_live = live, uc_output = outs\<rparr>))"

definition get_or :: "'a \<Rightarrow> 'a list \<Rightarrow> nat \<Rightarrow> 'a" where
  "get_or d xs i = (if i < length xs then xs ! i else d)"

definition users_of :: "use_counts \<Rightarrow> node_id \<Rightarrow> node_id list" where
  "users_of uc i = get_or [] (uc_users uc) i"

definition use_count_of :: "use_counts \<Rightarrow> node_id \<Rightarrow> nat" where
  "use_count_of uc i = get_or 0 (uc_counts uc) i"

definition is_graph_output :: "use_counts \<Rightarrow> node_id \<Rightarrow> bool" where
  "is_graph_output uc i = get_or False (uc_output uc) i"

definition has_single_use :: "use_counts \<Rightarrow> node_id \<Rightarrow> bool" where
  "has_single_use uc i \<longleftrightarrow> use_count_of uc i = 1 \<and> \<not> is_graph_output uc i"

definition is_live :: "use_counts \<Rightarrow> node_id \<Rightarrow> bool" where
  "is_live uc i = get_or False (uc_live uc) i"

definition dead_nodes :: "use_counts \<Rightarrow> node_id list" where
  "dead_nodes uc = map fst (filter (\<lambda>p. \<not> snd p) (List.enumerate 0 (uc_live uc)))"

section \<open>Consumers\<close>

definition tally :: "nat \<Rightarrow> node list \<Rightarrow> node_id list list \<times> nat list \<Rightarrow> bool" where
  "tally n ns st \<longleftrightarrow> length (fst st) = n \<and> length (snd st) = n \<and>
     (\<forall>i < n. fst st ! i = map n_id (filter (\<lambda>m. i \<in> set (n_inputs m)) ns) \<and>
              snd st ! i = length (filter (\<lambda>m. i \<in> set (n_inputs m)) ns))"

lemma count_edges:
  assumes "length us = n" and "length counts = n"
  shows "\<exists>seen us' counts'. foldl (count_edge n k) ([], us, counts) ins = (seen, us', counts') \<and>
     set seen = {i \<in> set ins. i < n} \<and> length us' = n \<and> length counts' = n \<and>
     (\<forall>i < n. us' ! i = us ! i @ (if i \<in> set ins then [k] else []) \<and>
              counts' ! i = counts ! i + (if i \<in> set ins then 1 else 0))"
proof (induction ins rule: rev_induct)
  case (snoc x ins)
  then obtain seen us' counts' where
    fold: "foldl (count_edge n k) ([], us, counts) ins = (seen, us', counts')"
    and seen: "set seen = {i \<in> set ins. i < n}" and len: "length us' = n" "length counts' = n"
    and val: "\<forall>i < n. us' ! i = us ! i @ (if i \<in> set ins then [k] else []) \<and>
              counts' ! i = counts ! i + (if i \<in> set ins then 1 else 0)" by blast
  show ?case
  proof (cases "x < n \<and> x \<notin> set ins")
    case True
    then have "foldl (count_edge n k) ([], us, counts) (ins @ [x]) =
        (seen @ [x], us'[x := us' ! x @ [k]], counts'[x := counts' ! x + 1])"
      using fold seen by (simp add: count_edge_def)
    then show ?thesis using True seen len val
      by (intro exI) (auto simp: nth_list_update)
  next
    case False
    then have "foldl (count_edge n k) ([], us, counts) (ins @ [x]) = (seen, us', counts')"
      using fold seen by (auto simp: count_edge_def)
    then show ?thesis using False seen len val by (intro exI) auto
  qed
qed (use assms in auto)

lemma tally_step: "tally n ns st \<Longrightarrow> tally n (ns @ [nd]) (count_node n st nd)"
proof -
  assume st: "tally n ns st"
  obtain us counts where [simp]: "st = (us, counts)" by (cases st)
  obtain seen us' counts' where
    "foldl (count_edge n (n_id nd)) ([], us, counts) (n_inputs nd) = (seen, us', counts')"
    "length us' = n" "length counts' = n"
    "\<forall>i < n. us' ! i = us ! i @ (if i \<in> set (n_inputs nd) then [n_id nd] else []) \<and>
       counts' ! i = counts ! i + (if i \<in> set (n_inputs nd) then 1 else 0)"
    using count_edges [of us n counts "n_id nd" "n_inputs nd"] st by (auto simp: tally_def)
  then show ?thesis using st by (simp add: tally_def count_node_def)
qed

lemma tally_nodes: "tally n ns (foldl (count_node n) (replicate n [], replicate n 0) ns)"
  by (induction ns rule: rev_induct) (simp add: tally_def, simp add: tally_step)

section \<open>Liveness\<close>

lemma raise_flags [simp]:
  "length (foldl raise_flag flags is) = length flags"
  "i < length flags \<Longrightarrow> foldl raise_flag flags is ! i \<longleftrightarrow> flags ! i \<or> i \<in> set is"
proof -
  show len: "length (foldl raise_flag flags is) = length flags" for flags
    by (induction "is" arbitrary: flags) (auto simp: raise_flag_def)
  show "i < length flags \<Longrightarrow> foldl raise_flag flags is ! i \<longleftrightarrow> flags ! i \<or> i \<in> set is"
    by (induction "is" arbitrary: flags) (auto simp: raise_flag_def nth_list_update)
qed

text \<open>What the sweep knows once the nodes from \<open>k\<close> on are done.\<close>

definition swept :: "graph \<Rightarrow> nat \<Rightarrow> bool list \<Rightarrow> bool" where
  "swept g k live \<longleftrightarrow> length live = graph_len g \<and>
     (\<forall>i < graph_len g. live ! i \<longleftrightarrow> i \<in> set (g_outputs g) \<or>
        (\<exists>j. k \<le> j \<and> j < graph_len g \<and> reach g j \<and> i \<in> set (n_inputs (g_nodes g ! j))))"

lemma reach_cases:
  "reach g i \<longleftrightarrow> i \<in> set (g_outputs g) \<or> (\<exists>j. reach g j \<and> i \<in> set (n_inputs (g_nodes g ! j)))"
  by (subst reach.simps) blast

lemma swept_reach:
  assumes "wf_graph g" and "swept g k live" and "i < graph_len g" and "k \<le> Suc i"
  shows "live ! i \<longleftrightarrow> reach g i"
proof -
  have "k \<le> j \<and> j < graph_len g" if "reach g j" "i \<in> set (n_inputs (g_nodes g ! j))" for j
    using reach_len [OF that(1) assms(1)] that(2) assms(1,4) wf_nodesD(2) [of "g_nodes g" j i]
    by (auto simp: wf_graph_def graph_len_def)
  then show ?thesis using assms(2,3) reach_cases [of g i] unfolding swept_def by blast
qed

lemma live_step_swept:
  assumes wf: "wf_graph g" and k: "k < graph_len g" and sw: "swept g (Suc k) live"
  shows "\<exists>live'. live_step live (g_nodes g ! k) = Ok live' \<and> swept g k live'"
proof -
  have id: "n_id (g_nodes g ! k) = k"
    using wf k by (auto simp: wf_graph_def graph_len_def wf_nodesD)
  have len: "length live = graph_len g" using sw by (simp add: swept_def)
  have at: "live ! k \<longleftrightarrow> reach g k" using swept_reach [OF wf sw k] by simp
  let ?live = "if live ! k then foldl raise_flag live (n_inputs (g_nodes g ! k)) else live"
  have "live_step live (g_nodes g ! k) = Ok ?live"
    using k len by (simp add: live_step_def id)
  moreover have "?live ! i \<longleftrightarrow> i \<in> set (g_outputs g) \<or>
      (\<exists>j. k \<le> j \<and> j < graph_len g \<and> reach g j \<and> i \<in> set (n_inputs (g_nodes g ! j)))"
    if i: "i < graph_len g" for i
  proof -
    have "?live ! i \<longleftrightarrow> live ! i \<or> (reach g k \<and> i \<in> set (n_inputs (g_nodes g ! k)))"
      using at i len by simp
    moreover have "(\<exists>j. k \<le> j \<and> j < graph_len g \<and> P j) \<longleftrightarrow>
        P k \<or> (\<exists>j. Suc k \<le> j \<and> j < graph_len g \<and> P j)" for P
      using k by (metis Suc_leI le_less order.refl Suc_le_lessD)
    ultimately show ?thesis using sw i unfolding swept_def by auto
  qed
  ultimately show ?thesis using len by (auto simp: swept_def)
qed

lemma sweep_swept:
  assumes wf: "wf_graph g"
  shows "k \<le> graph_len g \<Longrightarrow> swept g k live \<Longrightarrow>
    \<exists>live'. for_each live_step live (rev (take k (g_nodes g))) = Ok live' \<and> swept g 0 live'"
proof (induction k arbitrary: live)
  case (Suc k)
  then obtain mid where mid: "live_step live (g_nodes g ! k) = Ok mid" "swept g k mid"
    using live_step_swept [OF wf, of k live] by auto
  then obtain live' where "for_each live_step mid (rev (take k (g_nodes g))) = Ok live'"
    "swept g 0 live'" using Suc by auto
  then show ?case using Suc.prems(1) mid(1)
    by (simp add: take_Suc_conv_app_nth graph_len_def)
qed simp

section \<open>Agreement\<close>

text \<open>The one-pass tables answer what the per-node queries of the graph answer, and the
  reverse sweep finds exactly what the outputs depend on.\<close>
theorem use_counts_agree:
  assumes "wf_graph g"
  shows "\<exists>uc. use_counts_compute g = Ok uc \<and>
    (\<forall>i < graph_len g. users_of uc i = users g i \<and> use_count_of uc i = use_count g i \<and>
       is_graph_output uc i = (i \<in> set (g_outputs g)) \<and> is_live uc i = reach g i)"
proof -
  let ?n = "graph_len g"
  let ?outs = "foldl raise_flag (replicate ?n False) (g_outputs g)"
  obtain us counts where
    fold: "foldl (count_node ?n) (replicate ?n [], replicate ?n 0) (g_nodes g) = (us, counts)"
    by fastforce
  then have tally: "tally ?n (g_nodes g) (us, counts)" using tally_nodes [of ?n "g_nodes g"] by simp
  have "swept g ?n ?outs" by (auto simp: swept_def)
  then obtain live where live: "for_each live_step ?outs (rev (g_nodes g)) = Ok live" "swept g 0 live"
    using sweep_swept [OF assms, of ?n ?outs] by (auto simp: graph_len_def)
  let ?uc = "\<lparr>uc_users = us, uc_counts = counts, uc_live = live, uc_output = ?outs\<rparr>"
  have "use_counts_compute g = Ok ?uc" using fold live(1) by (simp add: use_counts_compute_def)
  moreover have "is_live ?uc i = reach g i" if "i < ?n" for i
    using swept_reach [OF assms live(2) that] live(2) that by (simp add: is_live_def get_or_def swept_def)
  ultimately show ?thesis using tally
    by (intro exI [of _ ?uc]) (simp add: tally_def users_of_def use_count_of_def is_graph_output_def
        get_or_def users_def use_count_def)
qed

lemma users_of_users:
  assumes "wf_graph g" and "use_counts_compute g = Ok uc" and "i < graph_len g"
  shows "users_of uc i = users g i"
  using use_counts_agree [OF assms(1)] assms(2,3) by auto

lemma use_counts_exist: "wf_graph g \<Longrightarrow> \<exists>uc. use_counts_compute g = Ok uc"
  using use_counts_agree by blast

end
