(* ===== verification/ParamHoist.thy ===== *)
theory ParamHoist
  imports OpTraits UseCounts
begin

text \<open>
  Splitting a graph into the part that depends on the weights only and the rest
  (\<open>crates/core/rlx-compile/src/param_hoist.rs\<close>): the first part (\<open>prepare\<close>) runs once,
  the rest (\<open>main\<close>) reads its results as named inputs in every run.
\<close>

section \<open>The split\<close>

fun is_input :: "op \<Rightarrow> bool" where
  "is_input (Input _) = True"
| "is_input _ = False"

definition mark_dynamic :: "node_id set \<Rightarrow> node \<Rightarrow> node_id set" where
  "mark_dynamic dyn n =
     (if is_input (n_op n) \<or> is_nondeterministic (n_op n) \<or> list_ex (\<lambda>i. i \<in> dyn) (n_inputs n)
      then insert (n_id n) dyn else dyn)"

definition dynamic_nodes :: "graph \<Rightarrow> node_id set" where
  "dynamic_nodes g = foldl mark_dynamic {} (g_nodes g)"

definition boundary_ids :: "node_id set \<Rightarrow> use_counts \<Rightarrow> graph \<Rightarrow> node_id list" where
  "boundary_ids dyn uc g =
     map n_id
       (filter (\<lambda>n. n_id n \<in> set (g_outputs g) \<or> list_ex (\<lambda>u. u \<in> dyn) (users_of uc (n_id n)))
         (filter (\<lambda>n. n_id n \<notin> dyn \<and> \<not> is_leaf (n_op n)) (g_nodes g)))"

fun decimal :: "nat \<Rightarrow> string" where
  "decimal n = (if n < 10 then [char_of (48 + n)] else decimal (n div 10) @ [char_of (48 + n mod 10)])"

declare decimal.simps [simp del]

definition prep_name :: "nat \<Rightarrow> string" where
  "prep_name i = ''__rlx_prep_'' @ decimal i"

text \<open>\<open>Graph::input\<close> of \<open>rlx-ir/src/ops/io.rs\<close>.\<close>

definition input_node :: "graph \<Rightarrow> string \<Rightarrow> shape \<Rightarrow> graph \<times> node_id" where
  "input_node g nm s = push g (Input nm) [] s (Some nm)"

definition hoist_step ::
  "graph \<Rightarrow> (node_id \<rightharpoonup> string) \<Rightarrow> graph \<times> id_map \<Rightarrow> node \<Rightarrow> (graph \<times> id_map) res" where
  "hoist_step g names st n =
     (case st of (main, m) \<Rightarrow>
        case names (n_id n) of
          Some nm \<Rightarrow> (case input_node main nm (n_shape n) of (main', i) \<Rightarrow>
            Ok (main', m(n_id n \<mapsto> i)))
        | None \<Rightarrow>
            bind_outcome (map_ids m (n_inputs n)) (\<lambda>ins.
            bind_outcome (node_at g (n_id n)) (\<lambda>src.
              case add_node main (n_op n) ins (n_shape n) of (main', i) \<Rightarrow>
                Ok (main'\<lparr>g_nodes := (g_nodes main')[i :=
                     (g_nodes main' ! i)\<lparr>n_name := n_name src, n_origin := n_origin src\<rparr>]\<rparr>,
                   m(n_id n \<mapsto> i)))))"

fun param_name :: "op \<Rightarrow> string option" where
  "param_name (Param nm) = Some nm"
| "param_name _ = None"

definition param_names :: "graph \<Rightarrow> string set" where
  "param_names g = set (List.map_filter (\<lambda>n. param_name (n_op n)) (g_nodes g))"

record hoist_split =
  hs_prepare :: graph
  hs_main :: graph
  hs_boundary :: "string list"
  hs_prepare_params :: "string set"
  hs_main_params :: "string set"

definition split_param_invariant :: "graph \<Rightarrow> hoist_split option res" where
  "split_param_invariant g =
     bind_outcome (use_counts_compute g) (\<lambda>uc.
       let ids = boundary_ids (dynamic_nodes g) uc g in
       if ids = [] then Ok None
       else
         let names = map prep_name [0..<length ids] in
         bind_outcome (dce_run (set_outputs g ids)) (\<lambda>prepare.
         bind_outcome
           (for_each (hoist_step g (map_of (zip ids names))) (graph_new (g_name g), Map.empty)
             (g_nodes g)) (\<lambda>(main, m).
         bind_outcome (rebuild_outputs g main m) (\<lambda>main.
         bind_outcome (dce_run main) (\<lambda>main.
           Ok (Some \<lparr>hs_prepare = prepare, hs_main = main, hs_boundary = names,
                     hs_prepare_params = param_names prepare,
                     hs_main_params = param_names main\<rparr>))))))"

section \<open>Boundary names\<close>

lemma decimal_inj: "decimal m = decimal n \<Longrightarrow> m = n"
proof (induction m arbitrary: n rule: decimal.induct)
  case (1 m)
  have digit: "char_of (48 + i) = (char_of (48 + j) :: char) \<longleftrightarrow> i = j" if "i < 10" "j < 10" for i j :: nat
  proof
    assume "char_of (48 + i) = (char_of (48 + j) :: char)"
    then have "of_char (char_of (48 + i) :: char) = (of_char (char_of (48 + j) :: char) :: nat)" by simp
    then show "i = j" using that by simp
  qed simp
  have small: "decimal i = [char_of (48 + i)]" if "i < 10" for i
    using that by (subst decimal.simps) simp
  have big: "decimal i = decimal (i div 10) @ [char_of (48 + i mod 10)]" "decimal i \<noteq> [c]"
    if "\<not> i < 10" for i c
  proof -
    have "decimal (i div 10) \<noteq> []" by (subst decimal.simps) simp
    moreover show "decimal i = decimal (i div 10) @ [char_of (48 + i mod 10)]"
      using that by (subst decimal.simps) simp
    ultimately show "decimal i \<noteq> [c]" by simp
  qed
  show ?case
  proof (cases "m < 10 \<or> n < 10")
    case True
    then have "m < 10 \<and> n < 10" using 1(2) small big(2) by metis
    then show ?thesis using 1(2) digit by (simp add: small)
  next
    case False
    then have "decimal (m div 10) = decimal (n div 10)" "m mod 10 = n mod 10"
      using 1(2) digit [of "m mod 10" "n mod 10"] big(1) [of m] big(1) [of n] by simp_all
    then show ?thesis using 1(1) False by (metis div_mult_mod_eq)
  qed
qed

lemma prep_name_inj: "prep_name i = prep_name j \<longleftrightarrow> i = j"
  by (auto simp: prep_name_def dest: decimal_inj)

section \<open>Dynamic nodes\<close>

lemma dynamic_prefix:
  assumes "wf_nodes ns"
  shows "foldl mark_dynamic {} ns \<subseteq> {..<length ns}" and
    "i < length ns \<Longrightarrow> i \<in> foldl mark_dynamic {} ns \<longleftrightarrow>
       is_input (n_op (ns ! i)) \<or> is_nondeterministic (n_op (ns ! i)) \<or>
       (\<exists>j \<in> set (n_inputs (ns ! i)). j \<in> foldl mark_dynamic {} ns)"
proof -
  have "foldl mark_dynamic {} ns \<subseteq> {..<length ns} \<and>
    (\<forall>i < length ns. i \<in> foldl mark_dynamic {} ns \<longleftrightarrow>
       is_input (n_op (ns ! i)) \<or> is_nondeterministic (n_op (ns ! i)) \<or>
       (\<exists>j \<in> set (n_inputs (ns ! i)). j \<in> foldl mark_dynamic {} ns))"
    using assms
  proof (induction ns rule: rev_induct)
    case (snoc n ns)
    let ?d = "foldl mark_dynamic {} ns"
    have wf: "wf_nodes ns" and id: "n_id n = length ns" and ins: "\<forall>j \<in> set (n_inputs n). j < length ns"
      using snoc.prems by (auto simp: wf_nodes_snoc)
    have sub: "?d \<subseteq> {..<length ns}" and old: "\<forall>i < length ns. i \<in> ?d \<longleftrightarrow>
       is_input (n_op (ns ! i)) \<or> is_nondeterministic (n_op (ns ! i)) \<or>
       (\<exists>j \<in> set (n_inputs (ns ! i)). j \<in> ?d)" using snoc.IH [OF wf] by auto
    have same: "j \<in> mark_dynamic ?d n \<longleftrightarrow> j \<in> ?d" if "j < length ns" for j
      using that id by (auto simp: mark_dynamic_def)
    have early: "j < length ns" if "i < length ns" "j \<in> set (n_inputs (ns ! i))" for i j
      using wf_nodesD(2) [OF wf that] that(1) by simp
    have "length ns \<in> mark_dynamic ?d n \<longleftrightarrow> is_input (n_op n) \<or> is_nondeterministic (n_op n) \<or>
        (\<exists>j \<in> set (n_inputs n). j \<in> ?d)"
      using sub id by (auto simp: mark_dynamic_def list_ex_iff)
    moreover have "mark_dynamic ?d n \<subseteq> {..<Suc (length ns)}"
      using sub id by (auto simp: mark_dynamic_def)
    moreover have "i \<in> mark_dynamic ?d n \<longleftrightarrow> is_input (n_op (ns ! i)) \<or>
        is_nondeterministic (n_op (ns ! i)) \<or>
        (\<exists>j \<in> set (n_inputs (ns ! i)). j \<in> mark_dynamic ?d n)" if "i < length ns" for i
    proof -
      have "(\<exists>j \<in> set (n_inputs (ns ! i)). j \<in> mark_dynamic ?d n) \<longleftrightarrow>
          (\<exists>j \<in> set (n_inputs (ns ! i)). j \<in> ?d)"
        using same early [OF that] by (intro bex_cong) simp_all
      then show ?thesis using old same [OF that] that by simp
    qed
    moreover have "(\<exists>j \<in> set (n_inputs n). j \<in> mark_dynamic ?d n) \<longleftrightarrow>
        (\<exists>j \<in> set (n_inputs n). j \<in> ?d)"
      using same ins by (intro bex_cong) simp_all
    ultimately show ?case by (simp add: nth_append less_Suc_eq all_conj_distrib)
  qed simp
  then show "foldl mark_dynamic {} ns \<subseteq> {..<length ns}"
    "i < length ns \<Longrightarrow> i \<in> foldl mark_dynamic {} ns \<longleftrightarrow>
       is_input (n_op (ns ! i)) \<or> is_nondeterministic (n_op (ns ! i)) \<or>
       (\<exists>j \<in> set (n_inputs (ns ! i)). j \<in> foldl mark_dynamic {} ns)" by auto
qed

lemma static_node:
  assumes "wf_graph g" and "i < graph_len g" and "i \<notin> dynamic_nodes g"
  shows "\<not> is_input (n_op (g_nodes g ! i))" and "\<not> is_nondeterministic (n_op (g_nodes g ! i))"
    and "j \<in> set (n_inputs (g_nodes g ! i)) \<Longrightarrow> j \<notin> dynamic_nodes g"
  using assms dynamic_prefix(2) [of "g_nodes g" i]
  by (auto simp: wf_graph_def dynamic_nodes_def graph_len_def)

text \<open>Kernels of two runs: they may differ on the inputs and on the operators that draw
  random values, and on nothing else.\<close>

definition same_weights :: "'v kernels \<Rightarrow> 'v kernels \<Rightarrow> bool" where
  "same_weights sem1 sem2 \<longleftrightarrow>
     (\<forall>opr s vs. \<not> is_input opr \<and> \<not> is_nondeterministic opr \<longrightarrow> sem1 opr s vs = sem2 opr s vs)"

lemma static_value:
  assumes "wf_graph g" and "same_weights sem1 sem2" and "i < graph_len g" and "i \<notin> dynamic_nodes g"
  shows "value_at sem1 g i = value_at sem2 g i"
  using assms(3,4)
proof (induction i rule: less_induct)
  case (less i)
  have wf: "wf_nodes (g_nodes g)" using assms(1) by (simp add: wf_graph_def)
  have "map (value_at sem1 g) (n_inputs (g_nodes g ! i)) = map (value_at sem2 g) (n_inputs (g_nodes g ! i))"
  proof (rule map_cong [OF refl])
    fix j assume j: "j \<in> set (n_inputs (g_nodes g ! i))"
    then have "j < i" using wf_nodesD(2) [OF wf _ j] less.prems(1) by (simp add: graph_len_def)
    then show "value_at sem1 g j = value_at sem2 g j"
      using less static_node(3) [OF assms(1) less.prems j] by simp
  qed
  moreover have "sem1 (n_op (g_nodes g ! i)) s vs = sem2 (n_op (g_nodes g ! i)) s vs" for s vs
    using static_node(1,2) [OF assms(1) less.prems] assms(2) by (simp add: same_weights_def)
  ultimately show ?case by (simp only: value_at_wf [OF wf less.prems(1)])
qed

section \<open>Rebuilding the main graph\<close>

text \<open>Kernels under which some inputs are bound to given values.\<close>

definition bound_kernels :: "(string \<rightharpoonup> 'v) \<Rightarrow> 'v kernels \<Rightarrow> 'v kernels" where
  "bound_kernels env sem opr s vs =
     (case opr of
        Input nm \<Rightarrow> (case env nm of Some v \<Rightarrow> v | None \<Rightarrow> sem opr s vs)
      | _ \<Rightarrow> sem opr s vs)"

lemma input_node_simps [simp]:
  "g_nodes (fst (input_node g nm s)) =
     g_nodes g @ [\<lparr>n_id = graph_len g, n_op = Input nm, n_inputs = [], n_shape = s,
       n_name = Some nm, n_origin = None\<rparr>]"
  "snd (input_node g nm s) = graph_len g"
  by (simp_all add: input_node_def push_def push_ext_def Let_def graph_len_def)

text \<open>The names bind what they stand for, and no other input of the graph is bound to
  something else.\<close>

definition binds :: "'v kernels \<Rightarrow> (node_id \<rightharpoonup> string) \<Rightarrow> (string \<rightharpoonup> 'v) \<Rightarrow> graph \<Rightarrow> bool" where
  "binds sem names env g \<longleftrightarrow> (\<forall>n \<in> set (g_nodes g).
     case names (n_id n) of
       Some nm \<Rightarrow> env nm = Some (value_at sem g (n_id n))
     | None \<Rightarrow> (\<forall>nm v. n_op n = Input nm \<longrightarrow> env nm = Some v \<longrightarrow>
         (\<forall>s vs. sem (Input nm) s vs = v)))"

lemma hoist_copy:
  assumes "wf_graph g" and "n \<in> set (g_nodes g)" and "names (n_id n) = None"
    and "map_ids m (n_inputs n) = Ok ins"
  shows "hoist_step g names (main, m) n =
    Ok (fst (copy_node main n ins), m(n_id n \<mapsto> graph_len main))"
proof -
  have "node_at g (n_id n) = Ok n"
    using assms(1,2) wf_nodes_member [of "g_nodes g" n] by (simp add: node_at_Ok wf_graph_def graph_len_def)
  then show ?thesis
    using assms(3,4) by (auto simp: hoist_step_def copy_node_def split_beta
        add_node_def push_def push_ext_def Let_def graph_len_def)
qed

lemma hoist_step_ok:
  assumes wf: "wf_graph g" and binds: "binds sem names env g" and mem: "n \<in> set (g_nodes g)"
    and wf': "wf_nodes (g_nodes out)"
    and ins: "\<forall>i \<in> set (n_inputs n). mapped sem (bound_kernels env sem) g out m i"
  shows "\<exists>out'. hoist_step g names (out, m) n = Ok (out', m(n_id n \<mapsto> graph_len out)) \<and>
    wf_nodes (g_nodes out') \<and> extends out out' \<and>
    mapped sem (bound_kernels env sem) g out' (m(n_id n \<mapsto> graph_len out)) (n_id n)"
proof (cases "names (n_id n)")
  case (Some nm)
  let ?out = "fst (input_node out nm (n_shape n))"
  have "env nm = Some (value_at sem g (n_id n))" using binds mem Some by (auto simp: binds_def)
  then have "mapped sem (bound_kernels env sem) g ?out (m(n_id n \<mapsto> graph_len out)) (n_id n)"
    by (simp add: mapped_def value_at_abs graph_len_def nth_append node_value_def bound_kernels_def)
  moreover have "hoist_step g names (out, m) n = Ok (?out, m(n_id n \<mapsto> graph_len out))"
    using Some by (simp add: hoist_step_def split_beta)
  ultimately show ?thesis using wf' by (simp add: extends_def wf_nodes_snoc graph_len_def)
next
  case None
  obtain js where js: "map_ids m (n_inputs n) = Ok js" "\<forall>j \<in> set js. j < graph_len out"
      "map (value_at (bound_kernels env sem) out) js = map (value_at sem g) (n_inputs n)"
    using ins by (rule map_ids_mapped)
  let ?out = "fst (copy_node out n js)"
  have "\<forall>nm v. n_op n = Input nm \<longrightarrow> env nm = Some v \<longrightarrow> (\<forall>s vs. sem (Input nm) s vs = v)"
    using binds mem None by (auto simp: binds_def)
  then have "bound_kernels env sem (n_op n) s vs = sem (n_op n) s vs" for s vs
    by (auto simp: bound_kernels_def split: op.splits option.splits)
  then have "mapped sem (bound_kernels env sem) g ?out (m(n_id n \<mapsto> graph_len out)) (n_id n)"
    by (simp add: mapped_def value_at_node [OF wf mem] value_at_copy_node js(3))
  then show ?thesis
    using hoist_copy [where names = names, OF wf mem None js(1)] wf_copy_node [OF wf' js(2)] by simp
qed

interpretation hoist: node_rewrite sem "bound_kernels env sem"
  "\<lambda>g. (graph_new (g_name g), Map.empty)" "\<lambda>g. hoist_step g names" fst snd
  "\<lambda>_ _. True" "\<lambda>_ _ _. True" "binds sem names env"
  for sem :: "'v kernels" and env names
proof unfold_locales
  fix g :: graph and n s
  assume "wf_graph g" "binds sem names env g" "n \<in> set (g_nodes g)" "wf_nodes (g_nodes (fst s))"
    "True \<Longrightarrow> \<forall>i \<in> set (n_inputs n). mapped sem (bound_kernels env sem) g (fst s) (snd s) i"
  then show "\<exists>s'. hoist_step g names s n = Ok s' \<and> True \<and> wf_nodes (g_nodes (fst s')) \<and>
      extends (fst s) (fst s') \<and> (\<forall>i. i \<noteq> n_id n \<longrightarrow> snd s' i = snd s i) \<and>
      (True \<longrightarrow> mapped sem (bound_kernels env sem) g (fst s') (snd s') (n_id n))"
    using hoist_step_ok [of g sem names env n "fst s" "snd s"] by (cases s) fastforce
qed (simp_all add: graph_new_def)

section \<open>The two halves\<close>

lemma dce_ok:
  "wf_graph g \<Longrightarrow> \<exists>g'. dce_run g = Ok g' \<and> wf_graph g' \<and> output_values sem g' = output_values sem g"
  using dce.rebuild_ok [where sem = sem] by (fastforce simp: dce_run_eq split_beta)

lemma dce_keeps:
  assumes "wf_graph g" and "dce_run g = Ok g'"
  shows "wf_graph g'" and "output_values sem g' = output_values sem g"
    and "length (g_outputs g') = length (g_outputs g)"
proof -
  show "wf_graph g'" and eq: "output_values sem g' = output_values sem g"
    using dce_ok [OF assms(1), of sem] assms(2) by auto
  show "length (g_outputs g') = length (g_outputs g)"
    using arg_cong [OF eq, of length] by (simp add: output_values_def)
qed

text \<open>Elimination only copies: an operator of the result is one of a node the outputs need.\<close>

lemma dce_ops:
  assumes wf: "wf_graph g" and run: "dce_run g = Ok g'" and n': "n' \<in> set (g_nodes g')"
  shows "\<exists>i. reach g i \<and> n_op n' = n_op (g_nodes g ! i)"
proof -
  define copied where "copied st \<longleftrightarrow> (\<forall>m \<in> set (g_nodes (fst st)). \<exists>i. reach g i \<and>
      n_op m = n_op (g_nodes g ! i))" for st :: "graph \<times> id_map"
  obtain out m where loop: "for_each (dce_step {i. reach g i}) (graph_new (g_name g), Map.empty)
      (g_nodes g) = Ok (out, m)" and fin: "rebuild_outputs g out m = Ok g'"
    using run by (auto simp: dce_run_eq [OF wf] outcome_simps)
  have "copied (out, m)"
  proof (rule for_each_invariant [OF loop])
    show "copied (graph_new (g_name g), Map.empty)" by (simp add: copied_def graph_new_def)
  next
    fix n st st'
    assume n: "n \<in> set (g_nodes g)" and st: "copied st" and
      step: "dce_step {i. reach g i} st n = Ok st'"
    have at: "g_nodes g ! n_id n = n" using wf n wf_nodes_member(2) by (auto simp: wf_graph_def)
    show "copied st'"
    proof (cases "reach g (n_id n)")
      case True
      then obtain ins where "fst st' = fst (copy_node (fst st) n ins)"
        using step by (auto simp: dce_step_def outcome_simps split_beta split: prod.splits)
      then show ?thesis using st True at by (auto simp: copied_def)
    next
      case False
      then show ?thesis using st step by (simp add: dce_step_def split: prod.splits)
    qed
  qed
  moreover have "g_nodes g' = g_nodes out"
    using fin by (auto simp: rebuild_outputs_def outcome_simps set_outputs_def)
  ultimately show ?thesis using n' by (simp add: copied_def)
qed

lemma static_reach:
  assumes "wf_graph g" and "set (g_outputs g) \<inter> dynamic_nodes g = {}" and "reach g i"
  shows "i \<notin> dynamic_nodes g"
  using assms(3)
proof induction
  case (reach_input i j)
  then show ?case using static_node(3) [OF assms(1) reach_len [OF _ assms(1)]] by blast
qed (use assms(2) in blast)

lemma boundary_ids_static:
  assumes "wf_graph g" and "i \<in> set (boundary_ids (dynamic_nodes g) uc g)"
  shows "i < graph_len g" and "i \<notin> dynamic_nodes g"
  using assms wf_nodes_member(1) [of "g_nodes g"]
  by (auto simp: boundary_ids_def wf_graph_def graph_len_def)

lemma boundary_ids_distinct:
  assumes "wf_graph g"
  shows "distinct (boundary_ids dyn uc g)"
proof -
  have "map n_id (g_nodes g) = [0..<length (g_nodes g)]"
    using assms by (auto simp: wf_graph_def wf_nodes_def intro: nth_equalityI)
  then have "distinct (map n_id (g_nodes g))" by simp
  then show ?thesis by (simp add: boundary_ids_def distinct_map_filter)
qed

lemma outputs_with:
  "g_nodes (set_outputs g is) = g_nodes g" "g_outputs (set_outputs g is) = is"
  "value_at sem (set_outputs g is) = value_at sem g"
  "dynamic_nodes (set_outputs g is) = dynamic_nodes g"
  by (simp_all add: set_outputs_def value_at_abs dynamic_nodes_def)

lemma map_of_zip_names:
  assumes "distinct is" and "k < length is"
  shows "map_of (zip is (map prep_name [0..<length is])) (is ! k) = Some (prep_name k)"
  using assms by (auto simp: map_of_zip_nth)

lemma hoist_main:
  fixes sem :: "'v kernels"
  assumes wf: "wf_graph g" and dist: "distinct is" and sub: "\<forall>i \<in> set is. i < graph_len g"
    and names: "names = map prep_name [0..<length is]"
    and env: "env = map_of (zip names (map (value_at sem g) is))"
    and fresh: "\<forall>n \<in> set (g_nodes g). \<forall>nm v. n_op n = Input nm \<longrightarrow> env nm = Some v \<longrightarrow>
      (\<forall>s vs. sem (Input nm) s vs = v)"
  shows "\<exists>st out main. for_each (hoist_step g (map_of (zip is names)))
      (graph_new (g_name g), Map.empty) (g_nodes g) = Ok st \<and>
    rebuild_outputs g (fst st) (snd st) = Ok out \<and> wf_graph out \<and>
    dce_run out = Ok main \<and> wf_graph main \<and>
    output_values (bound_kernels env sem) main = output_values sem g"
proof -
  have dn: "distinct names" by (simp add: names distinct_map inj_on_def prep_name_inj)
  have len: "length names = length is" by (simp add: names)
  have "binds sem (map_of (zip is names)) env g"
    unfolding binds_def
  proof
    fix n assume n: "n \<in> set (g_nodes g)"
    show "case map_of (zip is names) (n_id n) of
        Some nm \<Rightarrow> env nm = Some (value_at sem g (n_id n))
      | None \<Rightarrow> (\<forall>nm v. n_op n = Input nm \<longrightarrow> env nm = Some v \<longrightarrow>
          (\<forall>s vs. sem (Input nm) s vs = v))"
    proof (cases "n_id n \<in> set is")
      case True
      then obtain k where k: "k < length is" "is ! k = n_id n" by (auto simp: in_set_conv_nth)
      have "env (names ! k) = Some (value_at sem g (is ! k))"
        using map_of_zip_nth [of names "map (value_at sem g) is" k] k dn len env by simp
      moreover have "map_of (zip is names) (n_id n) = Some (names ! k)"
        using map_of_zip_nth [of "is" names k] k dist len by simp
      ultimately show ?thesis using k(2) by simp
    next
      case False
      then have "map_of (zip is names) (n_id n) = None" using len by (simp add: map_of_zip_is_None)
      then show ?thesis using fresh n by simp
    qed
  qed
  then obtain st out where "for_each (hoist_step g (map_of (zip is names)))
      (graph_new (g_name g), Map.empty) (g_nodes g) = Ok st"
      "rebuild_outputs g (fst st) (snd st) = Ok out" "wf_graph out"
      "output_values (bound_kernels env sem) out = output_values sem g"
    using hoist.rebuild_ok [OF wf] by blast
  then show ?thesis using dce_ok [of out "bound_kernels env sem"] by auto
qed

lemma split_returns:
  assumes wf: "wf_graph g"
  shows "\<exists>h. split_param_invariant g = Ok h"
proof -
  obtain uc where uc: "use_counts_compute g = Ok uc" using use_counts_exist [OF wf] by blast
  let ?is = "boundary_ids (dynamic_nodes g) uc g"
  have ids: "distinct ?is" "\<forall>i \<in> set ?is. i < graph_len g"
    using boundary_ids_distinct [OF wf] boundary_ids_static [OF wf] by auto
  have "wf_graph (set_outputs g ?is)"
    using wf ids(2) by (simp add: wf_graph_def outputs_with graph_len_def)
  then obtain prepare where "dce_run (set_outputs g ?is) = Ok prepare" using dce_ok by blast
  moreover obtain st out main where "for_each (hoist_step g (map_of (zip ?is
      (map prep_name [0..<length ?is])))) (graph_new (g_name g), Map.empty) (g_nodes g) = Ok st"
    "rebuild_outputs g (fst st) (snd st) = Ok out" "dce_run out = Ok main"
    using hoist_main [OF wf ids refl refl, where sem = "\<lambda>_ _ _. ()"] by auto
  ultimately show ?thesis
    using uc by (cases st) (auto simp: split_param_invariant_def Let_def)
qed

lemma split_parts:
  assumes wf: "wf_graph g" and split: "split_param_invariant g = Ok (Some h)"
  obtains "is" st out where "distinct is" "is \<noteq> []" "\<forall>i \<in> set is. i < graph_len g \<and> i \<notin> dynamic_nodes g"
    "wf_graph (set_outputs g is)" "dce_run (set_outputs g is) = Ok (hs_prepare h)"
    "hs_boundary h = map prep_name [0..<length is]"
    "for_each (hoist_step g (map_of (zip is (hs_boundary h)))) (graph_new (g_name g), Map.empty)
       (g_nodes g) = Ok st"
    "rebuild_outputs g (fst st) (snd st) = Ok out" "dce_run out = Ok (hs_main h)"
    "hs_prepare_params h = param_names (hs_prepare h)" "hs_main_params h = param_names (hs_main h)"
proof -
  obtain uc where uc: "use_counts_compute g = Ok uc"
    using split by (auto simp: split_param_invariant_def outcome_simps)
  let ?is = "boundary_ids (dynamic_nodes g) uc g"
  have ids: "distinct ?is" "\<forall>i \<in> set ?is. i < graph_len g \<and> i \<notin> dynamic_nodes g"
    using boundary_ids_distinct [OF wf] boundary_ids_static [OF wf] by auto
  have "wf_graph (set_outputs g ?is)"
    using wf ids(2) by (simp add: wf_graph_def outputs_with graph_len_def)
  then show thesis
    using split uc ids by (auto simp: split_param_invariant_def outcome_simps Let_def
        split: if_splits intro!: that)
qed

lemma hoist_refines:
  assumes wf: "wf_graph g" and split: "split_param_invariant g = Ok (Some h)"
    and weights: "same_weights sem1 sem2"
    and fresh: "\<forall>n \<in> set (g_nodes g). \<forall>nm. n_op n = Input nm \<longrightarrow> nm \<notin> set (hs_boundary h)"
  shows "output_values (bound_kernels (map_of (zip (hs_boundary h)
      (output_values sem1 (hs_prepare h)))) sem2) (hs_main h) = output_values sem2 g"
proof -
  obtain "is" st out where cut: "distinct is" "\<forall>i \<in> set is. i < graph_len g \<and> i \<notin> dynamic_nodes g"
    "wf_graph (set_outputs g is)" "dce_run (set_outputs g is) = Ok (hs_prepare h)"
    and names: "hs_boundary h = map prep_name [0..<length is]"
    and main: "for_each (hoist_step g (map_of (zip is (hs_boundary h))))
      (graph_new (g_name g), Map.empty) (g_nodes g) = Ok st"
      "rebuild_outputs g (fst st) (snd st) = Ok out" "dce_run out = Ok (hs_main h)"
    using split_parts [OF wf split] by metis
  have "output_values sem1 (hs_prepare h) = map (value_at sem1 g) is"
    using dce_keeps(2) [OF cut(3,4)] by (simp add: output_values_def outputs_with)
  also have "\<dots> = map (value_at sem2 g) is" using static_value [OF wf weights] cut(2) by simp
  finally have vals: "output_values sem1 (hs_prepare h) = map (value_at sem2 g) is" .
  let ?env = "map_of (zip (hs_boundary h) (map (value_at sem2 g) is))"
  have "\<forall>n \<in> set (g_nodes g). \<forall>nm v. n_op n = Input nm \<longrightarrow> ?env nm = Some v \<longrightarrow>
      (\<forall>s vs. sem2 (Input nm) s vs = v)"
    using fresh by (metis map_of_SomeD set_zip_leftD)
  then obtain st' out' main' where "for_each (hoist_step g (map_of (zip is (hs_boundary h))))
      (graph_new (g_name g), Map.empty) (g_nodes g) = Ok st'"
    "rebuild_outputs g (fst st') (snd st') = Ok out'" "dce_run out' = Ok main'"
    "output_values (bound_kernels ?env sem2) main' = output_values sem2 g"
    using hoist_main [OF wf cut(1) _ names refl, where sem = sem2] cut(2) by blast
  then show ?thesis using main vals by simp
qed

text \<open>C8. Hoisting refines direct execution. The prepared tensors may come from any run with
  the same weights: bound to the boundary inputs, they make the main graph give, in every
  run, the outputs of the graph that was split. Only a graph with an input that bears a
  boundary name of its own is excepted.\<close>
theorem hoist_correct:
  assumes wf: "wf_graph g" and split: "split_param_invariant g = Ok (Some h)"
    and weights: "same_weights sem1 sem2"
    and fresh: "\<forall>n \<in> set (g_nodes g). \<forall>nm. n_op n = Input nm \<longrightarrow> nm \<notin> set (hs_boundary h)"
  shows "output_values (bound_kernels (map_of (zip (hs_boundary h)
      (output_values sem1 (hs_prepare h)))) sem2) (hs_main h) = output_values sem2 g"
  using assms by (rule hoist_refines)

text \<open>The split always returns, both halves are well formed, the prepare graph has one output
  for each boundary name, and no operator of it is an input or draws random values.\<close>
theorem hoist_halves:
  assumes wf: "wf_graph g"
  shows "\<exists>r. split_param_invariant g = Ok r \<and> (case r of None \<Rightarrow> True | Some h \<Rightarrow>
    wf_graph (hs_prepare h) \<and> length (g_outputs (hs_prepare h)) = length (hs_boundary h) \<and>
    distinct (hs_boundary h) \<and>
    (\<forall>n \<in> set (g_nodes (hs_prepare h)). \<not> is_input (n_op n) \<and> \<not> is_nondeterministic (n_op n)))"
proof -
  obtain r where r: "split_param_invariant g = Ok r" using split_returns [OF wf] by blast
  show ?thesis
  proof (cases r)
    case (Some h)
    obtain "is" where cut: "\<forall>i \<in> set is. i < graph_len g \<and> i \<notin> dynamic_nodes g"
      "wf_graph (set_outputs g is)" "dce_run (set_outputs g is) = Ok (hs_prepare h)"
      "hs_boundary h = map prep_name [0..<length is]"
      using split_parts [OF wf] r Some by metis
    have static: "reach (set_outputs g is) i \<Longrightarrow> i < graph_len g \<and> i \<notin> dynamic_nodes g" for i
      using static_reach [OF cut(2), of i] reach_len [OF _ cut(2), of i] cut(1)
      by (auto simp: outputs_with graph_len_def)
    have "\<not> is_input (n_op n) \<and> \<not> is_nondeterministic (n_op n)"
      if "n \<in> set (g_nodes (hs_prepare h))" for n
      using dce_ops [OF cut(2,3) that] static static_node(1,2) [OF wf] by (auto simp: outputs_with)
    then show ?thesis
      using r Some cut(4) dce_keeps(1) [OF cut(2,3)] dce_keeps(3) [OF cut(2,3)]
      by (simp add: outputs_with distinct_map inj_on_def prep_name_inj)
  qed (simp add: r)
qed

section \<open>An example\<close>

text \<open>\<open>x + w * scale\<close>, of which the product is hoisted.\<close>

definition affine_graph :: "string \<Rightarrow> graph" where
  "affine_graph x = (graph_new ''g'')\<lparr>g_nodes :=
     [sample_node 0 (Input x) [], sample_node 1 (Param ''w'') [], sample_node 2 (Param ''s'') [],
      sample_node 3 (Binary Mul) [1, 2], sample_node 4 (Binary Add) [0, 3]], g_outputs := [4]\<rparr>"

definition affine_kernels :: "nat \<Rightarrow> nat kernels" where
  "affine_kernels x opr s vs = (case opr of
       Input nm \<Rightarrow> x
     | Param nm \<Rightarrow> length nm + 1
     | Binary b \<Rightarrow> (if b = Mul then foldr (*) vs 1 else foldr (+) vs 0)
     | _ \<Rightarrow> 0)"

definition affine_prepare :: graph where
  "affine_prepare = (graph_new ''g'')\<lparr>g_nodes :=
     [sample_node 0 (Param ''w'') [], sample_node 1 (Param ''s'') [],
      sample_node 2 (Binary Mul) [0, 1]], g_outputs := [2]\<rparr>"

definition affine_main :: "string \<Rightarrow> graph" where
  "affine_main x = (graph_new ''g'')\<lparr>g_nodes :=
     [sample_node 0 (Input x) [],
      (sample_node 1 (Input (prep_name 0)) [])\<lparr>n_name := Some (prep_name 0)\<rparr>,
      sample_node 2 (Binary Add) [0, 1]], g_outputs := [2]\<rparr>"

lemma affine_split:
  "split_param_invariant (affine_graph x) = Ok (Some \<lparr>hs_prepare = affine_prepare,
     hs_main = affine_main x, hs_boundary = [prep_name 0], hs_prepare_params = {''w'', ''s''},
     hs_main_params = {}\<rparr>)"
proof -
  note eval = affine_graph_def affine_prepare_def affine_main_def sample_node_def graph_new_def
    node_at_def graph_len_def map_ids_def copy_node_def add_node_def push_def push_ext_def
    rebuild_outputs_def set_outputs_def
  have kinds: "\<not> is_leaf (Binary b)" "\<not> is_nondeterministic (Binary b)"
      "\<not> is_nondeterministic (Input nm)" "\<not> is_nondeterministic (Param nm)" for b nm
    by (simp_all add: is_leaf_def is_nondeterministic_def kind_has_leaf kind_has_nondeterministic)
  have dyn: "dynamic_nodes (affine_graph x) = {0, 4}"
    by (simp add: dynamic_nodes_def mark_dynamic_def eval kinds insert_commute)
  have uses: "use_counts_compute (affine_graph x) = Ok \<lparr>uc_users = [[4], [3], [3], [4], []],
      uc_counts = [1, 1, 1, 1, 0], uc_live = [True, True, True, True, True],
      uc_output = [False, False, False, False, True]\<rparr>"
    by (simp add: use_counts_compute_def count_node_def count_edge_def live_step_def raise_flag_def
        eval)
  have ids: "boundary_ids {0, 4} \<lparr>uc_users = [[4], [3], [3], [4], []], uc_counts = cs,
      uc_live = ls, uc_output = os\<rparr> (affine_graph x) = [3]" for cs ls os
    by (simp add: boundary_ids_def users_of_def get_or_def eval kinds)
  have prepare: "dce_run (set_outputs (affine_graph x) [3]) = Ok affine_prepare"
    by (simp add: dce_run_def dce_step_def eval)
  define out where "out = (graph_new ''g'')\<lparr>g_nodes :=
     [sample_node 0 (Input x) [], sample_node 1 (Param ''w'') [], sample_node 2 (Param ''s'') [],
      (sample_node 3 (Input (prep_name 0)) [])\<lparr>n_name := Some (prep_name 0)\<rparr>,
      sample_node 4 (Binary Add) [0, 3]], g_outputs := [4]\<rparr>"
  have main: "bind_outcome (for_each (hoist_step (affine_graph x) [3 \<mapsto> prep_name 0])
      (graph_new ''g'', Map.empty) (g_nodes (affine_graph x))) (\<lambda>(main, m).
      rebuild_outputs (affine_graph x) main m) = Ok out"
    by (simp add: hoist_step_def input_node_def out_def eval)
  have fin: "dce_run out = Ok (affine_main x)"
    by (simp add: dce_run_def dce_step_def out_def eval)
  obtain main m where "for_each (hoist_step (affine_graph x) [3 \<mapsto> prep_name 0])
      (graph_new ''g'', Map.empty) (g_nodes (affine_graph x)) = Ok (main, m)"
      "rebuild_outputs (affine_graph x) main m = Ok out"
    using main by (auto simp: outcome_simps)
  moreover have "param_names affine_prepare = {''w'', ''s''}" "param_names (affine_main x) = {}"
    by (simp_all add: param_names_def map_filter_simps eval)
  moreover have "g_name (affine_graph x) = ''g''" by (simp add: eval)
  ultimately show ?thesis
    by (simp add: split_param_invariant_def uses dyn ids prepare fin)
qed

lemma wf_affine_graph: "wf_graph (affine_graph x)"
  by (simp add: wf_graph_def affine_graph_def wf_nodes_def sample_node_def graph_new_def
    graph_len_def less_Suc_eq numeral_eq_Suc)

theorem hoist_correct_witness:
  "output_values (bound_kernels (map_of (zip [prep_name 0]
     (output_values (affine_kernels 5) affine_prepare))) (affine_kernels 7)) (affine_main ''x'') =
   output_values (affine_kernels 7) (affine_graph ''x'')"
proof -
  have "same_weights (affine_kernels 5) (affine_kernels 7)"
    by (auto simp: same_weights_def affine_kernels_def split: op.splits)
  moreover have "\<forall>n \<in> set (g_nodes (affine_graph ''x'')). \<forall>nm. n_op n = Input nm \<longrightarrow>
      nm \<notin> set [prep_name 0]"
    by (simp add: affine_graph_def sample_node_def prep_name_def)
  ultimately show ?thesis using hoist_correct [OF wf_affine_graph affine_split] by simp
qed

text \<open>An input that bears a boundary name reads the prepared tensor instead of its own value.\<close>

lemma hoist_name_clash:
  "output_values (bound_kernels (map_of (zip [prep_name 0]
     (output_values (affine_kernels 7) affine_prepare))) (affine_kernels 7))
       (affine_main (prep_name 0)) = [8]"
  "output_values (affine_kernels 7) (affine_graph (prep_name 0)) = [11]"
  by (simp_all add: output_values_def value_at_def eval_nodes_def node_value_def bound_kernels_def
      affine_kernels_def affine_prepare_def affine_main_def affine_graph_def sample_node_def
      graph_new_def)

end
