(* ===== verification/Staging.thy ===== *)
theory Staging
  imports ParamHoist
begin

text \<open>
  Running a split graph (\<open>CompiledGraph\<close> and its \<open>Staging\<close> in
  \<open>crates/core/rlx-runtime/src/compiled.rs\<close>, attached by \<open>session.rs\<close>): parameters are
  routed to the half that has them, the prepare stage runs when a run finds it stale, and
  its results are bound to the main graph or fed with every run.

  The backend is the parameter \<open>be\<close>, the methods of \<open>ExecutableGraph\<close> that this code
  calls; \<open>'x\<close> is its state, \<open>'v\<close> a tensor, and \<open>'d\<close> the random draws of one run. Of a
  compiled graph only the staging is modelled: the conversions of narrow, widened and
  double-float parameters, the name checks and the taps are left out, as are the errors
  the backend may return.
\<close>

section \<open>State\<close>

type_synonym 'v feed = "(string \<times> 'v) list"

record ('x, 'v, 'd) backend =
  be_set_param :: "string \<Rightarrow> 'v \<Rightarrow> 'x \<Rightarrow> 'x"
  be_finalize :: "'x \<Rightarrow> 'x"
  be_bind_handle :: "string \<Rightarrow> 'v \<Rightarrow> 'x \<Rightarrow> bool \<times> 'x"
  be_run :: "'d \<Rightarrow> 'v feed \<Rightarrow> 'x \<Rightarrow> 'v list \<times> 'x"
  be_run_typed :: "'d \<Rightarrow> 'v feed \<Rightarrow> 'x \<Rightarrow> 'v list \<times> 'x"

record ('x, 'v) staging =
  st_prepare :: 'x
  st_prepared :: bool
  st_boundary :: "string list"
  st_prepare_params :: "string set"
  st_main_params :: "string set"
  st_bound :: bool
  st_values :: "'v list"

text \<open>The double-float boundary: the parameters stored as pairs, and the encoding.\<close>

record 'v df_boundary =
  df_params :: "string set"
  df_pairs :: "'v \<Rightarrow> 'v"

record ('x, 'v) compiled =
  cg_inner :: 'x
  cg_staging :: "('x, 'v) staging option"
  cg_df :: "'v df_boundary option"

section \<open>Operations\<close>

definition compiled_new :: "'x \<Rightarrow> ('x, 'v) compiled" where
  "compiled_new inner = \<lparr>cg_inner = inner, cg_staging = None, cg_df = None\<rparr>"

definition set_df_boundary ::
  "('x, 'v) compiled \<Rightarrow> 'v df_boundary option \<Rightarrow> ('x, 'v) compiled" where
  "set_df_boundary c df = c\<lparr>cg_df := df\<rparr>"

definition df_param :: "('x, 'v) compiled \<Rightarrow> string \<Rightarrow> 'v df_boundary option" where
  "df_param c nm = (case cg_df c of None \<Rightarrow> None | Some df \<Rightarrow> if nm \<in> df_params df then Some df else None)"

definition with_staging ::
  "('x, 'v) compiled \<Rightarrow> 'x \<Rightarrow> string list \<Rightarrow> string set \<Rightarrow> string set \<Rightarrow> ('x, 'v) compiled" where
  "with_staging c prepare boundary prepare_params main_params =
     c\<lparr>cg_staging := Some \<lparr>st_prepare = prepare, st_prepared = False, st_boundary = boundary,
         st_prepare_params = prepare_params, st_main_params = main_params, st_bound = False,
         st_values = []\<rparr>\<rparr>"

text \<open>\<open>try_hoist_param_invariant\<close>; \<open>compile\<close> is the compilation of one graph.\<close>

definition try_hoist :: "(graph \<Rightarrow> 'x) \<Rightarrow> graph \<Rightarrow> ('x, 'v) compiled option res" where
  "try_hoist compile g =
     bind_outcome (split_param_invariant g) (\<lambda>split.
       Ok (case split of
             None \<Rightarrow> None
           | Some h \<Rightarrow> Some (with_staging (compiled_new (compile (hs_main h)))
               (compile (hs_prepare h)) (hs_boundary h) (hs_prepare_params h)
               (hs_main_params h))))"

definition bind_step :: "('x, 'v, 'd) backend \<Rightarrow> bool \<times> 'x \<Rightarrow> string \<times> 'v \<Rightarrow> bool \<times> 'x" where
  "bind_step be st p =
     (case be_bind_handle be (fst p) (snd p) (snd st) of (ok, x) \<Rightarrow>
        (if \<not> ok then False else fst st, x))"

definition bind_outputs ::
  "('x, 'v, 'd) backend \<Rightarrow> string list \<Rightarrow> 'v list \<Rightarrow> 'x \<Rightarrow> bool \<times> 'x" where
  "bind_outputs be boundary outs inner =
     foldl (bind_step be) (outs \<noteq> [], inner) (zip boundary outs)"

definition ensure_prepared ::
  "('x, 'v, 'd) backend \<Rightarrow> 'd \<Rightarrow> ('x, 'v) compiled \<Rightarrow> ('x, 'v) compiled" where
  "ensure_prepared be d c =
     (case cg_staging c of
        None \<Rightarrow> c
      | Some st \<Rightarrow>
          if st_prepared st then c
          else case be_run be d [] (be_finalize be (st_prepare st)) of (outs, prepare) \<Rightarrow>
            (case bind_outputs be (st_boundary st) outs (cg_inner c) of (all_bound, inner) \<Rightarrow>
              c\<lparr>cg_inner := inner,
                cg_staging := Some (st\<lparr>st_prepare := prepare, st_bound := all_bound,
                  st_values := (if all_bound then [] else outs), st_prepared := True\<rparr>)\<rparr>))"

definition set_param ::
  "('x, 'v, 'd) backend \<Rightarrow> string \<Rightarrow> 'v \<Rightarrow> ('x, 'v) compiled \<Rightarrow> ('x, 'v) compiled" where
  "set_param be nm v c =
     (case df_param c nm of
        Some df \<Rightarrow> c\<lparr>cg_inner := be_set_param be nm (df_pairs df v) (cg_inner c)\<rparr>
      | None \<Rightarrow>
      case cg_staging c of
        None \<Rightarrow> c\<lparr>cg_inner := be_set_param be nm v (cg_inner c)\<rparr>
      | Some st \<Rightarrow>
          (let st = (if nm \<in> st_prepare_params st
                     then st\<lparr>st_prepare := be_set_param be nm v (st_prepare st),
                             st_prepared := False\<rparr>
                     else st);
               inner = (if nm \<in> st_main_params st then be_set_param be nm v (cg_inner c)
                        else cg_inner c)
           in c\<lparr>cg_inner := inner, cg_staging := Some st\<rparr>))"

text \<open>What a run feeds beside the caller's inputs.\<close>

definition unbound_feed :: "('x, 'v) compiled \<Rightarrow> 'v feed" where
  "unbound_feed c =
     (case cg_staging c of
        Some st \<Rightarrow> if \<not> st_bound st then zip (st_boundary st) (st_values st) else []
      | None \<Rightarrow> [])"

definition try_run ::
  "('x, 'v, 'd) backend \<Rightarrow> 'd \<Rightarrow> 'v feed \<Rightarrow> ('x, 'v) compiled \<Rightarrow> 'v list \<times> ('x, 'v) compiled"
where
  "try_run be d ins c =
     (let c = ensure_prepared be d c in
      case be_run be d (ins @ unbound_feed c) (cg_inner c) of (outs, inner) \<Rightarrow>
        (outs, c\<lparr>cg_inner := inner\<rparr>))"

text \<open>\<open>run_typed_untapped\<close> prepares, but feeds the caller's inputs only.\<close>

definition run_typed ::
  "('x, 'v, 'd) backend \<Rightarrow> 'd \<Rightarrow> 'v feed \<Rightarrow> ('x, 'v) compiled \<Rightarrow> 'v list \<times> ('x, 'v) compiled"
where
  "run_typed be d ins c =
     (let c = ensure_prepared be d c in
      case be_run_typed be d ins (cg_inner c) of (outs, inner) \<Rightarrow>
        (outs, c\<lparr>cg_inner := inner\<rparr>))"

definition finalize_params ::
  "('x, 'v, 'd) backend \<Rightarrow> 'd \<Rightarrow> ('x, 'v) compiled \<Rightarrow> ('x, 'v) compiled" where
  "finalize_params be d c =
     (let c = ensure_prepared be d c in c\<lparr>cg_inner := be_finalize be (cg_inner c)\<rparr>)"

text \<open>A client's calls, and the outputs of its runs.\<close>

datatype ('v, 'd) call = SetParam string 'v | Finalize 'd | Run 'd "'v feed"

fun calls :: "('x, 'v, 'd) backend \<Rightarrow> ('v, 'd) call list \<Rightarrow> ('x, 'v) compiled \<Rightarrow> 'v list list" where
  "calls be [] c = []"
| "calls be (SetParam nm v # cs) c = calls be cs (set_param be nm v c)"
| "calls be (Finalize d # cs) c = calls be cs (finalize_params be d c)"
| "calls be (Run d ins # cs) c =
     (case try_run be d ins c of (outs, c') \<Rightarrow> outs # calls be cs c')"

section \<open>The contract of a backend\<close>

text \<open>Kernels of one run: parameters and inputs read what was set, fed or bound.\<close>

definition run_kernels :: "'v kernels \<Rightarrow> (string \<rightharpoonup> 'v) \<Rightarrow> (string \<rightharpoonup> 'v) \<Rightarrow> 'v kernels" where
  "run_kernels sem w ins opr s vs =
     (case opr of
        Param nm \<Rightarrow> (case w nm of Some v \<Rightarrow> v | None \<Rightarrow> sem opr s vs)
      | Input nm \<Rightarrow> (case ins nm of Some v \<Rightarrow> v | None \<Rightarrow> sem opr s vs)
      | _ \<Rightarrow> sem opr s vs)"

lemma output_values_ops:
  assumes "\<forall>n \<in> set (g_nodes g). sem1 (n_op n) = sem2 (n_op n)"
  shows "output_values sem1 g = output_values sem2 g"
proof -
  have "\<forall>n \<in> set ns. sem1 (n_op n) = sem2 (n_op n) \<Longrightarrow> eval_nodes sem1 ns = eval_nodes sem2 ns" for ns
    by (induction ns rule: rev_induct) (simp_all add: node_value_def)
  then show ?thesis using assms by (simp add: output_values_def value_at_def)
qed

lemma param_names_member: "n \<in> set (g_nodes g) \<Longrightarrow> n_op n = Param p \<Longrightarrow> p \<in> param_names g"
  by (force simp: param_names_def map_filter_def)

lemma run_kernels_weights:
  assumes "\<forall>p \<in> param_names g. w p = w' p"
  shows "output_values (run_kernels sem w ins) g = output_values (run_kernels sem w' ins) g"
proof (intro output_values_ops ballI ext)
  fix n s vs assume "n \<in> set (g_nodes g)"
  then have "\<forall>p. n_op n = Param p \<longrightarrow> w p = w' p" using assms param_names_member by blast
  then show "run_kernels sem w ins (n_op n) s vs = run_kernels sem w' ins (n_op n) s vs"
    by (simp add: run_kernels_def split: op.splits)
qed

lemma run_kernels_same: "same_weights sem1 sem2 \<Longrightarrow>
    same_weights (run_kernels sem1 w ins) (run_kernels sem2 w ins')"
  by (auto simp: same_weights_def run_kernels_def split: op.splits option.splits)

text \<open>A staged graph with the weights \<open>w\<close>: both halves hold those they read, and the prepared
  values are current whenever they are marked so, bound or kept for feeding.\<close>

definition staged_inv ::
  "('x \<Rightarrow> graph) \<Rightarrow> ('x \<Rightarrow> string \<rightharpoonup> 'v) \<Rightarrow> ('x \<Rightarrow> string \<rightharpoonup> 'v) \<Rightarrow> ('d \<Rightarrow> 'v kernels) \<Rightarrow> hoist_split
   \<Rightarrow> (string \<rightharpoonup> 'v) \<Rightarrow> ('x, 'v) compiled \<Rightarrow> bool" where
  "staged_inv program weights handles sem h w c \<longleftrightarrow> cg_df c = None \<and> (\<exists>st. cg_staging c = Some st \<and>
     program (cg_inner c) = hs_main h \<and> program (st_prepare st) = hs_prepare h \<and>
     handles (st_prepare st) = Map.empty \<and> st_boundary st = hs_boundary h \<and>
     st_prepare_params st = hs_prepare_params h \<and> st_main_params st = hs_main_params h \<and>
     (\<forall>p \<in> hs_prepare_params h. weights (st_prepare st) p = w p) \<and>
     (\<forall>p \<in> hs_main_params h. weights (cg_inner c) p = w p) \<and>
     dom (handles (cg_inner c)) \<subseteq> set (hs_boundary h) \<and>
     (st_prepared st \<longrightarrow> (\<exists>d vals. vals = output_values
         (run_kernels (sem d) (weights (st_prepare st)) Map.empty) (hs_prepare h) \<and>
       (if st_bound st
        then \<forall>k < length (hs_boundary h). handles (cg_inner c) (hs_boundary h ! k) = Some (vals ! k)
        else st_values st = vals))))"

locale executable =
  fixes be :: "('x, 'v, 'd) backend"
    and compile :: "graph \<Rightarrow> 'x"
    and sem :: "'d \<Rightarrow> 'v kernels"
    and program :: "'x \<Rightarrow> graph"
    and weights handles :: "'x \<Rightarrow> string \<rightharpoonup> 'v"
    and persistent :: "'x \<Rightarrow> string \<Rightarrow> bool"
  assumes compiled: "program (compile g) = g" "weights (compile g) = Map.empty"
      "handles (compile g) = Map.empty"
    and draws: "same_weights (sem d) (sem d')"
    and set_param: "program (be_set_param be nm v x) = program x"
      "weights (be_set_param be nm v x) = (weights x)(nm \<mapsto> v)"
      "handles (be_set_param be nm v x) = handles x"
      "persistent (be_set_param be nm v x) = persistent x"
    and finalize: "program (be_finalize be x) = program x" "weights (be_finalize be x) = weights x"
      "handles (be_finalize be x) = handles x" "persistent (be_finalize be x) = persistent x"
    and bind_handle: "fst (be_bind_handle be nm v x) \<longleftrightarrow> persistent x nm"
      "program (snd (be_bind_handle be nm v x)) = program x"
      "weights (snd (be_bind_handle be nm v x)) = weights x"
      "handles (snd (be_bind_handle be nm v x)) =
         (if persistent x nm then (handles x)(nm \<mapsto> v) else handles x)"
      "persistent (snd (be_bind_handle be nm v x)) = persistent x"
    and run: "distinct (map fst ins) \<Longrightarrow> fst (be_run be d ins x) =
        output_values (run_kernels (sem d) (weights x) (handles x ++ map_of ins)) (program x)"
      "program (snd (be_run be d ins x)) = program x" "weights (snd (be_run be d ins x)) = weights x"
      "handles (snd (be_run be d ins x)) = handles x"
      "persistent (snd (be_run be d ins x)) = persistent x"
begin

lemma bind_stays_failed: "\<not> fst (foldl (bind_step be) (False, x) ps)"
  by (induction ps arbitrary: x) (simp_all add: bind_step_def split_beta)

lemma bind_steps:
  assumes "length boundary = length outs" and "foldl (bind_step be) (b, x) (zip boundary outs) = (r, y)"
  shows "program y = program x" and "weights y = weights x"
    and "nm \<notin> set boundary \<Longrightarrow> handles y nm = handles x nm"
    and "r \<Longrightarrow> distinct boundary \<Longrightarrow> k < length boundary \<Longrightarrow>
      handles y (boundary ! k) = Some (outs ! k)"
proof -
  have "program y = program x \<and> weights y = weights x \<and>
    (\<forall>nm. nm \<notin> set boundary \<longrightarrow> handles y nm = handles x nm) \<and>
    (r \<longrightarrow> distinct boundary \<longrightarrow>
      (\<forall>k < length boundary. handles y (boundary ! k) = Some (outs ! k)))"
    using assms
  proof (induction boundary arbitrary: outs b x)
    case (Cons nm boundary)
    obtain out outs' where outs: "outs = out # outs'" using Cons.prems by (cases outs) auto
    let ?x = "snd (be_bind_handle be nm out x)"
    let ?b = "if \<not> fst (be_bind_handle be nm out x) then False else b"
    have step: "bind_step be (b, x) (nm, out) = (?b, ?x)"
      by (simp add: bind_step_def split_beta)
    have fold: "foldl (bind_step be) (?b, ?x) (zip boundary outs') = (r, y)"
      using Cons.prems(2) unfolding outs zip_Cons_Cons foldl_Cons step .
    then have IH: "program y = program ?x" "weights y = weights ?x"
      "\<forall>nm. nm \<notin> set boundary \<longrightarrow> handles y nm = handles ?x nm"
      "r \<longrightarrow> distinct boundary \<longrightarrow>
        (\<forall>k < length boundary. handles y (boundary ! k) = Some (outs' ! k))"
      using Cons.IH [OF _ fold] Cons.prems(1) outs by auto
    have "persistent x nm" if "r"
    proof (rule ccontr)
      assume "\<not> persistent x nm"
      then have "foldl (bind_step be) (False, ?x) (zip boundary outs') = (r, y)"
        using fold by (simp add: bind_handle(1))
      then show False using bind_stays_failed [of "?x" "zip boundary outs'"] that by simp
    qed
    then have head: "handles y nm = Some out" if "r" "nm \<notin> set boundary"
      using IH(3) that by (simp add: bind_handle(4))
    have "handles y ((nm # boundary) ! k) = Some (outs ! k)"
      if "r" "distinct (nm # boundary)" "k < length (nm # boundary)" for k
      using that head IH(4) by (cases k) (simp_all add: outs)
    moreover have "\<forall>n'. n' \<notin> set (nm # boundary) \<longrightarrow> handles y n' = handles x n'"
      using IH(3) by (simp add: bind_handle(4))
    ultimately show ?case using IH(1,2) bind_handle(2,3) by simp
  qed simp
  then show "program y = program x" "weights y = weights x"
    "nm \<notin> set boundary \<Longrightarrow> handles y nm = handles x nm"
    "r \<Longrightarrow> distinct boundary \<Longrightarrow> k < length boundary \<Longrightarrow>
      handles y (boundary ! k) = Some (outs ! k)" by blast+
qed

lemma staged_set_param:
  assumes "staged_inv program weights handles sem h w c"
  shows "staged_inv program weights handles sem h (w(nm \<mapsto> v)) (Staging.set_param be nm v c)"
  using assms by (auto simp: staged_inv_def Staging.set_param_def df_param_def Let_def set_param)

lemma staged_same:
  assumes "staged_inv program weights handles sem h w c" and "program y = program (cg_inner c)"
    and "weights y = weights (cg_inner c)" and "handles y = handles (cg_inner c)"
  shows "staged_inv program weights handles sem h w (c\<lparr>cg_inner := y\<rparr>)"
  using assms by (auto simp: staged_inv_def)

lemma staged_prepared:
  assumes inv: "staged_inv program weights handles sem h w c"
    and len: "length (g_outputs (hs_prepare h)) = length (hs_boundary h)"
    and dist: "distinct (hs_boundary h)"
  shows "staged_inv program weights handles sem h w (ensure_prepared be d c)"
    and "\<exists>st. cg_staging (ensure_prepared be d c) = Some st \<and> st_prepared st"
proof -
  obtain st where st: "cg_staging c = Some st" using inv by (auto simp: staged_inv_def)
  have "staged_inv program weights handles sem h w (ensure_prepared be d c) \<and>
    (\<exists>st. cg_staging (ensure_prepared be d c) = Some st \<and> st_prepared st)"
  proof (cases "st_prepared st")
    case True
    then show ?thesis using inv st by (simp add: ensure_prepared_def)
  next
    case False
    let ?p = "be_finalize be (st_prepare st)"
    obtain outs prep where run_p: "be_run be d [] ?p = (outs, prep)" by fastforce
    obtain r y where bind: "bind_outputs be (hs_boundary h) outs (cg_inner c) = (r, y)" by fastforce
    have outs: "outs = output_values (run_kernels (sem d) (weights (st_prepare st)) Map.empty) (hs_prepare h)"
      using run(1) [of "[]" d ?p] run_p inv st by (simp add: staged_inv_def finalize)
    then have "length (hs_boundary h) = length outs" using len by (simp add: output_values_def)
    note bound = bind_steps [OF this bind [unfolded bind_outputs_def]]
    have prep: "program prep = program ?p" "weights prep = weights ?p" "handles prep = handles ?p"
      using run(2,3,4) [of d "[]" ?p] run_p by auto
    have dom: "dom (handles y) \<subseteq> set (hs_boundary h)"
    proof
      fix nm assume nm: "nm \<in> dom (handles y)"
      have "dom (handles (cg_inner c)) \<subseteq> set (hs_boundary h)"
        using inv by (auto simp: staged_inv_def)
      then show "nm \<in> set (hs_boundary h)" using bound(3) nm by (metis domIff subsetD)
    qed
    let ?st = "st\<lparr>st_prepare := prep, st_bound := r, st_values := (if r then [] else outs),
      st_prepared := True\<rparr>"
    have old: "program (cg_inner c) = hs_main h" "program (st_prepare st) = hs_prepare h"
      "handles (st_prepare st) = Map.empty" "st_boundary st = hs_boundary h"
      "st_prepare_params st = hs_prepare_params h" "st_main_params st = hs_main_params h"
      "\<forall>p \<in> hs_prepare_params h. weights (st_prepare st) p = w p"
      "\<forall>p \<in> hs_main_params h. weights (cg_inner c) p = w p"
      using inv st by (auto simp: staged_inv_def)
    have eq: "ensure_prepared be d c = c\<lparr>cg_inner := y, cg_staging := Some ?st\<rparr>"
      using st False run_p bind old(4) by (simp add: ensure_prepared_def)
    have "outs = output_values (run_kernels (sem d) (weights prep) Map.empty) (hs_prepare h)"
      using outs prep(2) by (simp add: finalize)
    moreover have "if r then \<forall>k < length (hs_boundary h). handles y (hs_boundary h ! k) = Some (outs ! k)
        else (if r then [] else outs) = outs"
      using bound(4) [OF _ dist] by simp
    ultimately have "staged_inv program weights handles sem h w (ensure_prepared be d c)"
      unfolding staged_inv_def eq using old bound(1,2) prep dom inv
      by (intro conjI exI [of _ ?st] impI exI [of _ d] exI [of _ outs])
        (simp_all add: finalize staged_inv_def)
    then show ?thesis by (simp add: eq)
  qed
  then show "staged_inv program weights handles sem h w (ensure_prepared be d c)"
    "\<exists>st. cg_staging (ensure_prepared be d c) = Some st \<and> st_prepared st" by auto
qed

lemma staged_outputs:
  assumes wf: "wf_graph g" and split: "split_param_invariant g = Ok (Some h)"
    and fresh: "\<forall>n \<in> set (g_nodes g). \<forall>nm. n_op n = Input nm \<longrightarrow> nm \<notin> set (hs_boundary h)"
    and inv: "staged_inv program weights handles sem h w c"
    and st: "cg_staging c = Some st" "st_prepared st"
    and len: "length (g_outputs (hs_prepare h)) = length (hs_boundary h)"
    and dist: "distinct (hs_boundary h)"
    and params: "hs_prepare_params h = param_names (hs_prepare h)"
      "hs_main_params h = param_names (hs_main h)"
    and ins: "distinct (map fst ins)" "set (map fst ins) \<inter> set (hs_boundary h) = {}"
  shows "fst (be_run be d (ins @ unbound_feed c) (cg_inner c)) =
    output_values (run_kernels (sem d) w (map_of ins)) g"
proof -
  obtain d' vals where vals: "vals = output_values (run_kernels (sem d') (weights (st_prepare st))
      Map.empty) (hs_prepare h)"
    and current: "if st_bound st
      then \<forall>k < length (hs_boundary h). handles (cg_inner c) (hs_boundary h ! k) = Some (vals ! k)
      else st_values st = vals"
    using inv st by (auto simp: staged_inv_def)
  have "vals = output_values (run_kernels (sem d') w Map.empty) (hs_prepare h)"
    unfolding vals using inv st params by (intro run_kernels_weights) (auto simp: staged_inv_def)
  then have ref: "output_values (bound_kernels (map_of (zip (hs_boundary h) vals))
      (run_kernels (sem d) w (map_of ins))) (hs_main h) =
      output_values (run_kernels (sem d) w (map_of ins)) g"
    using hoist_refines [OF wf split run_kernels_same [OF draws] fresh] by simp
  have vlen: "length (hs_boundary h) = length vals"
    using len by (simp add: vals output_values_def)
  let ?feed = "unbound_feed c"
  have feed: "?feed = (if st_bound st then [] else zip (hs_boundary h) vals)"
    using st current inv by (auto simp: unbound_feed_def staged_inv_def)
  have "distinct (map fst (ins @ ?feed))"
    using ins dist vlen by (simp add: feed flip: set_map)
  note out = run(1) [OF this, of d "cg_inner c"]
  have dom: "dom (handles (cg_inner c)) \<subseteq> set (hs_boundary h)"
    using inv by (auto simp: staged_inv_def)
  have look: "(handles (cg_inner c) ++ map_of (ins @ ?feed)) nm =
      (case map_of (zip (hs_boundary h) vals) nm of Some v \<Rightarrow> Some v | None \<Rightarrow> map_of ins nm)" for nm
  proof (cases "nm \<in> set (hs_boundary h)")
    case True
    then obtain k where k: "k < length (hs_boundary h)" "nm = hs_boundary h ! k"
      by (auto simp: in_set_conv_nth)
    have "map_of ins nm = None" using ins(2) True by (auto simp: map_of_eq_None_iff)
    moreover have "map_of (zip (hs_boundary h) vals) nm = Some (vals ! k)"
      using k dist vlen by (simp add: map_of_zip_nth)
    ultimately show ?thesis using current k by (simp add: feed map_add_def)
  next
    case False
    have "handles (cg_inner c) nm = None" using dom False by (metis domIff subsetD)
    moreover have "map_of (zip (hs_boundary h) vals) nm = None"
      using False vlen by (simp add: map_of_zip_is_None)
    ultimately show ?thesis by (simp add: feed map_add_def split: option.splits)
  qed
  have "run_kernels (sem d) (weights (cg_inner c)) (handles (cg_inner c) ++ map_of (ins @ ?feed)) (n_op n) =
      bound_kernels (map_of (zip (hs_boundary h) vals)) (run_kernels (sem d) w (map_of ins)) (n_op n)"
    if "n \<in> set (g_nodes (hs_main h))" for n
  proof (intro ext)
    fix s vs
    have "weights (cg_inner c) p = w p" if "n_op n = Param p" for p
      using param_names_member [OF \<open>n \<in> set (g_nodes (hs_main h))\<close> that] inv params
      by (auto simp: staged_inv_def)
    then show "run_kernels (sem d) (weights (cg_inner c))
        (handles (cg_inner c) ++ map_of (ins @ ?feed)) (n_op n) s vs =
      bound_kernels (map_of (zip (hs_boundary h) vals)) (run_kernels (sem d) w (map_of ins)) (n_op n) s vs"
      unfolding run_kernels_def bound_kernels_def look by (auto split: op.splits option.splits)
  qed
  then have "output_values (run_kernels (sem d) (weights (cg_inner c))
      (handles (cg_inner c) ++ map_of (ins @ ?feed))) (hs_main h) =
    output_values (bound_kernels (map_of (zip (hs_boundary h) vals))
      (run_kernels (sem d) w (map_of ins))) (hs_main h)"
    by (intro output_values_ops ballI)
  then show ?thesis using out ref inv by (auto simp: staged_inv_def)
qed

lemma staged_calls:
  assumes wf: "wf_graph g" and split: "split_param_invariant g = Ok (Some h)"
    and fresh: "\<forall>n \<in> set (g_nodes g). \<forall>nm. n_op n = Input nm \<longrightarrow> nm \<notin> set (hs_boundary h)"
    and inv: "staged_inv program weights handles sem h w c"
    and plain: "program x = g" "weights x = w" "handles x = Map.empty"
    and ins: "\<forall>d ins. Run d ins \<in> set cs \<longrightarrow>
      distinct (map fst ins) \<and> set (map fst ins) \<inter> set (hs_boundary h) = {}"
  shows "calls be cs c = calls be cs (compiled_new x)"
proof -
  have len: "length (g_outputs (hs_prepare h)) = length (hs_boundary h)"
    and dist: "distinct (hs_boundary h)"
    using hoist_halves [OF wf] split by auto
  have params: "hs_prepare_params h = param_names (hs_prepare h)"
    "hs_main_params h = param_names (hs_main h)"
    using split_parts [OF wf split] by metis+
  show ?thesis
    using inv plain ins
  proof (induction cs arbitrary: c x w)
    case (Cons call cs)
    show ?case
    proof (cases call)
      case (SetParam nm v)
      have "calls be cs (Staging.set_param be nm v c) =
          calls be cs (compiled_new (be_set_param be nm v x))"
        by (rule Cons.IH [OF staged_set_param [OF Cons.prems(1)]])
          (use Cons.prems(2-5) in \<open>simp_all add: set_param\<close>)
      moreover have "Staging.set_param be nm v (compiled_new x) = compiled_new (be_set_param be nm v x)"
        by (simp add: Staging.set_param_def df_param_def compiled_new_def)
      ultimately show ?thesis by (simp add: SetParam)
    next
      case (Finalize d)
      have "calls be cs (finalize_params be d c) = calls be cs (compiled_new (be_finalize be x))"
        unfolding finalize_params_def Let_def
        by (rule Cons.IH [OF staged_same [OF staged_prepared(1) [OF Cons.prems(1) len dist]]])
          (use Cons.prems(2-5) in \<open>simp_all add: finalize\<close>)
      moreover have "finalize_params be d (compiled_new x) = compiled_new (be_finalize be x)"
        by (simp add: finalize_params_def ensure_prepared_def compiled_new_def)
      ultimately show ?thesis by (simp add: Finalize)
    next
      case (Run d ins)
      let ?c = "ensure_prepared be d c"
      note inv = staged_prepared(1) [OF Cons.prems(1) len dist, of d]
      obtain st where st: "cg_staging ?c = Some st" "st_prepared st"
        using staged_prepared(2) [OF Cons.prems(1) len dist] by blast
      have ok: "distinct (map fst ins)" "set (map fst ins) \<inter> set (hs_boundary h) = {}"
        using Cons.prems(5) Run by auto
      have "fst (be_run be d (ins @ unbound_feed ?c) (cg_inner ?c)) =
          output_values (run_kernels (sem d) w (map_of ins)) g"
        using staged_outputs [OF wf split fresh inv st len dist params ok] .
      also have "\<dots> = fst (be_run be d ins x)"
        using run(1) [OF ok(1), of d x] Cons.prems(2-4) by simp
      finally have same: "fst (be_run be d (ins @ unbound_feed ?c) (cg_inner ?c)) = fst (be_run be d ins x)" .
      have "staged_inv program weights handles sem h w
          (?c\<lparr>cg_inner := snd (be_run be d (ins @ unbound_feed ?c) (cg_inner ?c))\<rparr>)"
        by (rule staged_same [OF inv]) (simp_all add: run)
      then have "calls be cs (?c\<lparr>cg_inner := snd (be_run be d (ins @ unbound_feed ?c) (cg_inner ?c))\<rparr>) =
          calls be cs (compiled_new (snd (be_run be d ins x)))"
        using Cons.prems(2-5) by (intro Cons.IH) (simp_all add: run)
      moreover have "Staging.try_run be d ins (compiled_new x) =
          (fst (be_run be d ins x), compiled_new (snd (be_run be d ins x)))"
        by (simp add: Staging.try_run_def ensure_prepared_def unbound_feed_def compiled_new_def split_beta)
      moreover have "Staging.try_run be d ins c =
          (fst (be_run be d (ins @ unbound_feed ?c) (cg_inner ?c)),
           ?c\<lparr>cg_inner := snd (be_run be d (ins @ unbound_feed ?c) (cg_inner ?c))\<rparr>)"
        by (simp add: Staging.try_run_def Let_def split_beta)
      ultimately show ?thesis using same by (simp add: Run)
    qed
  qed simp
qed

lemma staged_start:
  assumes "wf_graph g" and "split_param_invariant g = Ok (Some h)"
  shows "staged_inv program weights handles sem h Map.empty
    (with_staging (compiled_new (compile (hs_main h))) (compile (hs_prepare h)) (hs_boundary h)
      (hs_prepare_params h) (hs_main_params h))"
  by (simp add: staged_inv_def with_staging_def compiled_new_def compiled)

end


section \<open>A reference backend\<close>

text \<open>A backend that evaluates the graph it was given, with or without persistent handles.\<close>

record 'v machine =
  ma_program :: graph
  ma_weights :: "string \<rightharpoonup> 'v"
  ma_handles :: "string \<rightharpoonup> 'v"
  ma_persistent :: bool

definition machine_compile :: "bool \<Rightarrow> graph \<Rightarrow> 'v machine" where
  "machine_compile persistent g = \<lparr>ma_program = g, ma_weights = Map.empty, ma_handles = Map.empty,
     ma_persistent = persistent\<rparr>"

definition machine_run ::
  "('d \<Rightarrow> 'v kernels) \<Rightarrow> 'd \<Rightarrow> 'v feed \<Rightarrow> 'v machine \<Rightarrow> 'v list \<times> 'v machine" where
  "machine_run sem d ins x =
     (output_values (run_kernels (sem d) (ma_weights x) (ma_handles x ++ map_of ins)) (ma_program x), x)"

definition machine :: "('d \<Rightarrow> 'v kernels) \<Rightarrow> ('v machine, 'v, 'd) backend" where
  "machine sem = \<lparr>be_set_param = (\<lambda>nm v x. x\<lparr>ma_weights := (ma_weights x)(nm \<mapsto> v)\<rparr>),
     be_finalize = (\<lambda>x. x),
     be_bind_handle = (\<lambda>nm v x. if ma_persistent x
       then (True, x\<lparr>ma_handles := (ma_handles x)(nm \<mapsto> v)\<rparr>) else (False, x)),
     be_run = machine_run sem, be_run_typed = machine_run sem\<rparr>"

interpretation machine: executable "machine (\<lambda>d :: 'd. sem)" "machine_compile persistent"
  "\<lambda>d. sem" ma_program ma_weights ma_handles "\<lambda>x _. ma_persistent x"
  for sem :: "'v kernels" and persistent
  by unfold_locales (simp_all add: machine_def machine_compile_def machine_run_def same_weights_def)

text \<open>The example graph: one weight changes between two runs.\<close>

definition affine_calls :: "(nat, unit) call list" where
  "affine_calls = [SetParam ''w'' 3, SetParam ''s'' 5, Run () [(''x'', 7)], SetParam ''s'' 6,
     Run () [(''x'', 8)]]"

definition affine_staged :: "bool \<Rightarrow> string \<Rightarrow> (nat machine, nat) compiled" where
  "affine_staged persistent x =
     with_staging (compiled_new (machine_compile persistent (affine_main x)))
       (machine_compile persistent affine_prepare) [prep_name 0] {''w'', ''s''} {}"


lemmas affine_eval = try_run_def run_typed_def Staging.set_param_def df_param_def affine_staged_def
  with_staging_def compiled_new_def machine_def machine_compile_def machine_run_def
  ensure_prepared_def bind_outputs_def bind_step_def unbound_feed_def output_values_def
  value_at_def eval_nodes_def node_value_def run_kernels_def affine_prepare_def affine_main_def
  sample_node_def graph_new_def number_kernels_def prep_name_def decimal.simps [of 0]


text \<open>A parameter of the double-float boundary goes to the main graph only, also when the
  prepare graph is the one that reads it.\<close>

lemma df_param_bypasses_staging:
  "let be = machine (\<lambda>_. number_kernels);
       c = set_df_boundary (affine_staged True ''x'')
             (Some \<lparr>df_params = {''w''}, df_pairs = (\<lambda>v. v)\<rparr>);
       c' = set_param be ''w'' 3 c
   in ma_weights (st_prepare (the (cg_staging c'))) ''w'' = None \<and>
      ma_weights (cg_inner c') ''w'' = Some 3"
  by (simp add: affine_eval set_df_boundary_def)

end
