(* ===== verification/InferShape.thy ===== *)
theory InferShape
  imports OpTraits
begin

text \<open>
  The shape rule of every operator (\<open>crates/core/rlx-ir/src/infer_shape.rs\<close>). The rules of the
  operators that \<open>op\<close> carries as \<open>OtherOp\<close> are given by kind where they need no attribute;
  for the other kinds with a rule, \<open>attr_infer\<close> is a parameter, a function of kind,
  attributes, declared shape and operand shapes.

  \<open>Ok None\<close> is the source's \<open>None\<close> without a message (no rule for the operator), \<open>Err\<close> the
  \<open>None\<close> with the message that \<open>sink\<close> stored, and \<open>Panic\<close> an index or \<open>unwrap_static\<close> that
  fails.
\<close>

type_synonym attr_infer = "string \<Rightarrow> string \<Rightarrow> shape \<Rightarrow> (nat \<Rightarrow> shape res) \<Rightarrow> shape option res"

section \<open>Operand access\<close>

definition in_shape :: "graph \<Rightarrow> node \<Rightarrow> nat \<Rightarrow> shape res" where
  "in_shape g n i = bind_outcome (index_or_panic (n_inputs n) i) (graph_shape g)"

text \<open>The rule's result: \<open>Some(f(in_shape(0)))\<close>, and \<open>f(..).sink(rejected)\<close> with one or two
  operands.\<close>

definition rule1 :: "(nat \<Rightarrow> shape res) \<Rightarrow> (shape \<Rightarrow> shape res) \<Rightarrow> shape option res" where
  "rule1 sh f = bind_outcome (sh 0) (\<lambda>a. bind_outcome (f a) (\<lambda>s. Ok (Some s)))"

definition rule2 :: "(nat \<Rightarrow> shape res) \<Rightarrow> (shape \<Rightarrow> shape \<Rightarrow> shape res) \<Rightarrow> shape option res" where
  "rule2 sh f = bind_outcome (sh 0) (\<lambda>a. bind_outcome (sh 1) (\<lambda>b.
     bind_outcome (f a b) (\<lambda>s. Ok (Some s))))"

definition same_as :: "(nat \<Rightarrow> shape res) \<Rightarrow> nat \<Rightarrow> shape option res" where
  "same_as sh i = bind_outcome (sh i) (\<lambda>s. Ok (Some (unary_shape s)))"

section \<open>Rules by kind\<close>

definition first_operand_kinds :: "op_kind list" where
  "first_operand_kinds =
     [''LogMelBackward'', ''SpdBatchNorm'', ''SpdMatrixFnBatch'', ''SpdMatrixFnBatchBackward'',
      ''ReluBackward'', ''Conjugate'', ''ComplexNormSqBackward'', ''StopGradient'', ''Softmax'',
      ''Cumsum'', ''CumProd'', ''CumMax'', ''Reverse'', ''Roll'', ''Clamp'', ''Trilu'',
      ''GroupNorm'', ''Rope'', ''AxialRope2d'', ''FusedResidualLN'', ''FusedResidualRmsNorm'',
      ''SplineActivation'', ''SplineActivationBackwardX'', ''DotGeneral'', ''If'', ''While'',
      ''SelectiveScan'', ''GatedDeltaNet'', ''Mamba2'', ''FusedAttentionBlock'',
      ''FusedTransformerLayer'']"

definition third_operand_kinds :: "op_kind list" where
  "third_operand_kinds =
     [''SpdParallelTransport'', ''SpdBatchNormBackwardX'', ''SpdBatchNormBackwardG'']"

text \<open>The rules that read static extents of one operand and build a static shape of its type.\<close>

definition of_extent ::
  "(nat \<Rightarrow> shape res) \<Rightarrow> nat \<Rightarrow> (nat \<Rightarrow> nat list) \<Rightarrow> shape option res" where
  "of_extent sh axis f =
     rule1 sh (\<lambda>a. bind_outcome (static_at a axis) (\<lambda>n. Ok (shape_new (f n) (shape_dtype a))))"

definition eigh_batch_rule :: "(nat \<Rightarrow> shape res) \<Rightarrow> shape option res" where
  "eigh_batch_rule sh =
     rule1 sh (\<lambda>a. bind_outcome (static_at a 0) (\<lambda>b. bind_outcome (static_at a 1) (\<lambda>n.
       Ok (shape_new [b, n * n + n] (shape_dtype a)))))"

definition resize_rule :: "shape \<Rightarrow> shape option res" where
  "resize_rule a =
     (if rank a = 4 then
        bind_outcome (static_at a 0) (\<lambda>d0. bind_outcome (static_at a 1) (\<lambda>d1.
        bind_outcome (static_at a 2) (\<lambda>d2. bind_outcome (static_at a 3) (\<lambda>d3.
          Ok (Some (shape_new [d0, d1, d2 * 2, d3 * 2] (shape_dtype a)))))))
      else Ok None)"

definition rms_norm_rule :: "shape \<Rightarrow> shape \<Rightarrow> shape option res" where
  "rms_norm_rule own a =
     (if rank own = 2 \<and> 2 < rank a \<and> leading_flatten_fused_shape a = Some own then Ok (Some own)
      else Ok (Some (unary_shape a)))"

text \<open>The modulation operands have to broadcast to the normalised tensor.\<close>

definition ada_layer_norm_rule :: "shape \<Rightarrow> shape \<Rightarrow> shape \<Rightarrow> shape option res" where
  "ada_layer_norm_rule x scale shift =
     bind_outcome (broadcast scale x) (\<lambda>b_scale. bind_outcome (broadcast shift x) (\<lambda>b_shift.
       Ok (if dims b_scale \<noteq> dims x \<or> dims b_shift \<noteq> dims x then None else Some (unary_shape x))))"

definition gated_residual_rule :: "shape \<Rightarrow> shape \<Rightarrow> shape \<Rightarrow> shape option res" where
  "gated_residual_rule x y gate =
     (if dims y \<noteq> dims x then Ok None
      else bind_outcome (broadcast gate x) (\<lambda>b_gate.
        Ok (if dims b_gate \<noteq> dims x then None else Some (unary_shape x))))"

definition ada_layer_norm_backward_rule ::
  "shape \<Rightarrow> shape \<Rightarrow> shape \<Rightarrow> shape \<Rightarrow> shape option res" where
  "ada_layer_norm_backward_rule x scale shift dy =
     (if dims dy \<noteq> dims x \<or> dims scale \<noteq> dims shift then Ok None
      else
        bind_outcome (broadcast scale x) (\<lambda>b_scale. bind_outcome (broadcast shift x) (\<lambda>b_shift.
          Ok (if dims b_scale \<noteq> dims x \<or> dims b_shift \<noteq> dims x then None
              else case (num_elements x, num_elements scale) of
                (Some nx, Some ns) \<Rightarrow> Some (shape_new [nx + 2 * ns] (shape_dtype x))
              | _ \<Rightarrow> None))))"

definition gated_residual_backward_rule ::
  "shape \<Rightarrow> shape \<Rightarrow> shape \<Rightarrow> shape \<Rightarrow> shape option res" where
  "gated_residual_backward_rule x y gate dy =
     (if dims y \<noteq> dims x \<or> dims dy \<noteq> dims x then Ok None
      else
        bind_outcome (broadcast gate x) (\<lambda>b_gate.
          Ok (if dims b_gate \<noteq> dims x then None
              else case (num_elements x, num_elements gate) of
                (Some nx, Some ng) \<Rightarrow> Some (shape_new [nx + nx + ng] (shape_dtype x))
              | _ \<Rightarrow> None)))"

definition quantized_matmul_rule :: "(nat \<Rightarrow> shape res) \<Rightarrow> shape option res" where
  "quantized_matmul_rule sh =
     bind_outcome (sh 1) (\<lambda>b. if rank b < 2 then Ok None else rule2 sh matmul_shape)"

definition partitioned_conv_rule :: "shape \<Rightarrow> shape \<Rightarrow> shape res" where
  "partitioned_conv_rule x ir =
     (if rank x = 0 then Panic
      else bind_outcome (static_at x (rank x - 1)) (\<lambda>l. bind_outcome (static_at ir 0) (\<lambda>mm.
        if l + mm = 0 then Panic else with_dim x (rank x - 1) (Static (l + mm - 1)))))"

definition scaled_matmul_rule :: "nat \<Rightarrow> shape \<Rightarrow> shape \<Rightarrow> shape option res" where
  "scaled_matmul_rule min_rank lhs rhs =
     Ok (if rank lhs < 2 \<or> rank rhs < min_rank then None
         else Some (shape_from_dims [dims lhs ! (rank lhs - 2), dims rhs ! (rank rhs - 2)] F32))"

definition attr_inferred_kinds :: "op_kind list" where
  "attr_inferred_kinds =
     [''LogMel'', ''WelchPeaks'', ''EighBackward'', ''EighBatchBackward'', ''Reduce'', ''Histogram'',
      ''ArgMax'', ''ArgMin'', ''Pad'', ''Slice'', ''Tile'', ''Interpolate3d'', ''Im2Col'',
      ''SynthMatMulBackward'', ''SynthReconstruct'', ''SplineActivationBackwardCoeff'',
      ''ScaledQuantScale'', ''GaussianSplatRender'', ''GaussianSplatRenderBackward'',
      ''GaussianSplatPrepare'', ''GaussianSplatRasterize'', ''GatedDeltaNetBackward'', ''Lstm'',
      ''Gru'', ''Rnn'', ''Scan'', ''ElementwiseRegion'', ''BatchElementwiseRegion'',
      ''TransformRegion'', ''ConvTranspose3d'']"

definition other_infer ::
  "attr_infer \<Rightarrow> string \<Rightarrow> string \<Rightarrow> shape \<Rightarrow> nat \<Rightarrow> (nat \<Rightarrow> shape res) \<Rightarrow> shape option res" where
  "other_infer attr_infer nm attrs own k sh =
     (let on2 = (\<lambda>f. bind_outcome (sh 0) (\<lambda>a. bind_outcome (sh 1) (f a)));
          on3 = (\<lambda>f. bind_outcome (sh 0) (\<lambda>a. bind_outcome (sh 1) (\<lambda>b. bind_outcome (sh 2) (f a b))))
      in
      if nm \<in> set first_operand_kinds then same_as sh 0
      else if nm = ''SpdLogMap'' \<or> nm = ''SpdExpMap'' then same_as sh 1
      else if nm \<in> set third_operand_kinds then same_as sh 2
      else if nm = ''ComplexNormSq'' then rule1 sh (\<lambda>a. Ok (shape_from_dims (dims a) F32))
      else if nm = ''BiMap'' then of_extent sh 0 (\<lambda>m. [m, m])
      else if nm = ''ReEig'' \<or> nm = ''LogEig'' then of_extent sh 0 (\<lambda>n. [2 * n * n + n])
      else if nm = ''SpdKarcherMean'' \<or> nm = ''SpdKarcherMeanWeighted'' then of_extent sh 1 (\<lambda>n. [n, n])
      else if nm = ''ReEigBackward'' \<or> nm = ''LogEigBackward'' then of_extent sh 0 (\<lambda>n. [n, n])
      else if nm = ''SpdLogMapBackward'' \<or> nm = ''SpdExpMapBackward'' then of_extent sh 0 (\<lambda>n. [2, n, n])
      else if nm = ''SpdParallelTransportBackward'' then of_extent sh 0 (\<lambda>n. [3, n, n])
      else if nm = ''Eigh'' then of_extent sh 0 (\<lambda>n. [n * n + n])
      else if nm = ''EighBatch'' then eigh_batch_rule sh
      else if nm = ''RngNormal'' \<or> nm = ''RngUniform''
      then (if k = 0 then Ok (Some own) else same_as sh 0)
      else if nm = ''ResizeNearest2x'' then bind_outcome (sh 0) resize_rule
      else if nm = ''RmsNorm'' then bind_outcome (sh 0) (rms_norm_rule own)
      else if nm = ''FusedMatMulBiasAct'' \<or> nm = ''FusedMatMulResidual'' then rule2 sh matmul_shape
      else if nm = ''LoraMatMul'' \<or> nm = ''QMatMul'' then quantized_matmul_rule sh
      else if nm = ''AdaLayerNorm'' then on3 ada_layer_norm_rule
      else if nm = ''GatedResidual'' then on3 gated_residual_rule
      else if nm = ''AdaLayerNormBackward''
      then on3 (\<lambda>a b c. bind_outcome (sh 3) (ada_layer_norm_backward_rule a b c))
      else if nm = ''GatedResidualBackward''
      then on3 (\<lambda>a b c. bind_outcome (sh 3) (gated_residual_backward_rule a b c))
      else if nm = ''SynthMatMul''
      then on2 (\<lambda>a b. bind_outcome (static_at a 0) (\<lambda>m. bind_outcome (static_at b 0) (\<lambda>n.
             Ok (Some (shape_new [m, n] (shape_dtype a))))))
      else if nm = ''PartitionedConv'' then rule2 sh partitioned_conv_rule
      else if nm = ''ScaledMatMul'' then on2 (scaled_matmul_rule 2)
      else if nm = ''ScaledGroupedMatMul'' then on2 (scaled_matmul_rule 3)
      else if nm = ''ScaledQuantize'' then rule1 sh (\<lambda>a. Ok (with_dtype (unary_shape a) U8))
      else if nm = ''ScaledDequantize'' then rule1 sh (\<lambda>a. Ok (with_dtype (unary_shape a) F32))
      else if nm \<in> set attr_inferred_kinds then attr_infer nm attrs own sh
      else Ok None)"

section \<open>The rule of an operator\<close>

definition where_rule :: "shape \<Rightarrow> shape \<Rightarrow> shape \<Rightarrow> shape res" where
  "where_rule c a b =
     bind_outcome (binary_shape a b) (\<lambda>branches. bind_outcome (binary_shape c branches) (\<lambda>s.
       Ok (with_dtype s (shape_dtype branches))))"

definition fma_rule :: "shape \<Rightarrow> shape \<Rightarrow> shape \<Rightarrow> shape res" where
  "fma_rule a b c = bind_outcome (binary_shape a b) (\<lambda>ab. binary_shape ab c)"

definition conv3d_rule ::
  "triple \<Rightarrow> triple \<Rightarrow> triple \<Rightarrow> nat \<Rightarrow> shape \<Rightarrow> (nat \<Rightarrow> shape res) \<Rightarrow> shape option res" where
  "conv3d_rule stride padding dilation groups w sh =
     (if rank w \<noteq> 5 then Ok None
      else
        bind_outcome (static_at w 2) (\<lambda>k0. bind_outcome (static_at w 3) (\<lambda>k1.
        bind_outcome (static_at w 4) (\<lambda>k2.
          rule1 sh (\<lambda>a. conv3d_output_shape a w (k0, k1, k2) stride padding dilation groups)))))"

definition rule3 ::
  "(nat \<Rightarrow> shape res) \<Rightarrow> (shape \<Rightarrow> shape \<Rightarrow> shape \<Rightarrow> shape res) \<Rightarrow> shape option res" where
  "rule3 sh f = bind_outcome (sh 0) (\<lambda>a. bind_outcome (sh 1) (\<lambda>b. bind_outcome (sh 2) (\<lambda>c.
     bind_outcome (f a b c) (\<lambda>s. Ok (Some s)))))"

fun infer_rule ::
  "attr_infer \<Rightarrow> op \<Rightarrow> shape \<Rightarrow> nat \<Rightarrow> (nat \<Rightarrow> shape res) \<Rightarrow> shape option res" where
  "infer_rule _ (Input _) own k sh = Ok None"
| "infer_rule _ (Param _) own k sh = Ok None"
| "infer_rule _ (Constant _) own k sh = Ok None"
| "infer_rule _ MatMul own k sh = rule2 sh matmul_shape"
| "infer_rule _ GroupedMatMul own k sh = rule2 sh grouped_matmul_shape"
| "infer_rule _ (Binary _) own k sh = rule2 sh binary_shape"
| "infer_rule _ (Compare _) own k sh = rule2 sh compare_shape"
| "infer_rule _ Where own k sh = rule3 sh where_rule"
| "infer_rule _ Fma own k sh = rule3 sh fma_rule"
| "infer_rule _ (Activation _) own k sh = same_as sh 0"
| "infer_rule _ (Cast to) own k sh = rule1 sh (\<lambda>a. Ok (cast_shape a to))"
| "infer_rule _ (Reshape ns) own k sh = rule1 sh (\<lambda>a. reshape_shape a ns)"
| "infer_rule _ (Transpose perm) own k sh = rule1 sh (\<lambda>a. transpose_shape a perm)"
| "infer_rule _ (Narrow axis _ len) own k sh = rule1 sh (\<lambda>a. narrow_shape a axis len)"
| "infer_rule _ (Concat axis) own k sh =
     bind_outcome (traverse sh [0..<k]) (\<lambda>ss. bind_outcome (concat_shape ss axis) (\<lambda>s. Ok (Some s)))"
| "infer_rule _ (DynamicUpdateSlice axis) own k sh =
     rule2 sh (\<lambda>a b. dynamic_update_slice_shape a b axis)"
| "infer_rule _ (KvAppend axis pos) own k sh = rule2 sh (\<lambda>a b. kv_append_shape a b axis pos)"
| "infer_rule _ (Gather axis) own k sh = rule2 sh (\<lambda>a b. gather_shape a b axis)"
| "infer_rule _ (ScatterNd _) own k sh = same_as sh 0"
| "infer_rule _ (ScatterElements _ _) own k sh = same_as sh 0"
| "infer_rule _ (GatherElements _) own k sh = same_as sh 1"
| "infer_rule _ (GatherNd _) own k sh = Ok (Some own)"
| "infer_rule _ (Expand ns) own k sh = rule1 sh (\<lambda>a. expand_shape a ns)"
| "infer_rule _ (LayerNorm _ _) own k sh = same_as sh 0"
| "infer_rule _ (LayerNorm2d _) own k sh = same_as sh 0"
| "infer_rule _ (Attention heads head_dim v_head_dim _ _ _) own k sh =
     rule1 sh (\<lambda>a. attention_shape_vdim a heads head_dim
       (case v_head_dim of Some d \<Rightarrow> d | None \<Rightarrow> head_dim))"
| "infer_rule _ (FusedConvBiasAct _ _ _ _ _ _ _) own k sh = Ok None"
| "infer_rule _ (DequantMatMul scheme) own k sh =
     (if scheme_is_gguf scheme
      then bind_outcome (sh 1) (\<lambda>b. if rank b < 2 then Ok None else rule2 sh dequant_matmul_shape)
      else quantized_matmul_rule sh)"
| "infer_rule _ (DequantGroupedMatMul _) own k sh = Ok None"
| "infer_rule _ (Conv3d stride padding dilation groups) own k sh =
     bind_outcome (sh 1) (\<lambda>w. conv3d_rule stride padding dilation groups w sh)"
| "infer_rule _ (LayerNormBackwardGamma _ _) own k sh = Ok None"
| "infer_rule _ (Custom _ _ _) own k sh = Ok None"
| "infer_rule attr_infer (OtherOp nm attrs) own k sh = other_infer attr_infer nm attrs own k sh"

definition infer_output_shape :: "attr_infer \<Rightarrow> graph \<Rightarrow> node \<Rightarrow> shape option res" where
  "infer_output_shape attr_infer g n =
     infer_rule attr_infer (n_op n) (n_shape n) (length (n_inputs n)) (in_shape g n)"

section \<open>Laws\<close>

text \<open>A rule reads the operand shapes and nothing else of the graph.\<close>

definition shapes_at :: "graph \<Rightarrow> node_id list \<Rightarrow> shape list" where
  "shapes_at g is = map (\<lambda>i. n_shape (g_nodes g ! i)) is"

lemma in_shape_eq:
  assumes "\<forall>i \<in> set (n_inputs n). i < graph_len g"
  shows "in_shape g n = index_or_panic (shapes_at g (n_inputs n))"
  using assms by (intro ext) (auto simp: in_shape_def index_or_panic_def graph_shape_def shapes_at_def)

end
