(* ===== verification/Verify.thy ===== *)
theory Verify
  imports InferShape CSE
begin

text \<open>
  The graph verifier (\<open>crates/core/rlx-ir/src/verify.rs\<close>): structure, operator-local rules and
  declared against inferred shapes; what acceptance means, and the passes that keep it.

  The checks of operators carried as \<open>OtherOp\<close> that need an attribute, those of nested bodies
  included, are the parameter \<open>vt_other\<close>; the verifiers registered for custom operators are
  \<open>vt_custom\<close>. Both see the operand shapes, \<open>None\<close> for an operand out of range.
\<close>

section \<open>Errors and parameters\<close>

datatype verify_error =
    MissingInput node_id nat
  | ForwardInput node_id node_id
  | BadArity arity nat
  | LeafWithOperands nat
  | LossRank nat nat
  | NormElements nat nat nat
  | NormWidth nat nat
  | ZeroHeads
  | QueryLayout nat nat nat
  | StartNotOne shape
  | RejectedShape shape_error
  | ExpandRejected shape_error
  | CustomRejected string
  | OtherRejected string
  | MissingOutput node_id
  | ShapeMismatch shape shape

record verify_table =
  vt_arity :: attr_arity
  vt_infer :: attr_infer
  vt_other :: "string \<Rightarrow> string \<Rightarrow> shape option list \<Rightarrow> string list"
  vt_custom :: "string \<Rightarrow> (node \<Rightarrow> shape list \<Rightarrow> string list) option"

type_synonym located = "node_id option \<times> verify_error"

section \<open>Static queries\<close>

definition shape_opt :: "graph \<Rightarrow> node_id \<Rightarrow> shape option" where
  "shape_opt g i = (if i < graph_len g then Some (n_shape (g_nodes g ! i)) else None)"

definition static_rank :: "shape option \<Rightarrow> nat option" where
  "static_rank s = map_option rank s"

definition static_num_elements :: "shape option \<Rightarrow> nat option" where
  "static_num_elements so =
     (case so of None \<Rightarrow> None
      | Some s \<Rightarrow> if list_all is_static (dims s)
          then Some (prod_list (map (\<lambda>d. case d of Static n \<Rightarrow> n | Dynamic _ \<Rightarrow> 1) (dims s)))
          else None)"

definition static_last_dim :: "shape option \<Rightarrow> nat option" where
  "static_last_dim so =
     (case so of None \<Rightarrow> None
      | Some s \<Rightarrow> if rank s = 0 then None
          else case dims s ! (rank s - 1) of Static n \<Rightarrow> Some n | Dynamic _ \<Rightarrow> None)"

section \<open>Operator-local checks\<close>

definition norm_operand :: "nat \<Rightarrow> shape option \<Rightarrow> verify_error list" where
  "norm_operand feat so =
     (case static_rank so of
        None \<Rightarrow> []
      | Some r \<Rightarrow>
          if r \<noteq> 1 then
            (case static_num_elements so of
               Some n \<Rightarrow> if n = feat then [] else [NormElements r n feat]
             | None \<Rightarrow> [])
          else
            (case static_last_dim so of
               Some width \<Rightarrow> if width \<noteq> feat then [NormWidth width feat] else []
             | None \<Rightarrow> []))"

definition norm_checks :: "shape option list \<Rightarrow> verify_error list" where
  "norm_checks ss =
     (if length ss = 3
      then case static_last_dim (ss ! 0) of
          Some feat \<Rightarrow> norm_operand feat (ss ! 1) @ norm_operand feat (ss ! 2)
        | None \<Rightarrow> []
      else [])"

definition loss_checks :: "nat list \<Rightarrow> shape option list \<Rightarrow> verify_error list" where
  "loss_checks ranks ss =
     (if length ss = length ranks \<and> list_all (\<lambda>s. static_rank s \<noteq> None) ss
      then concat (map2 (\<lambda>r s. if static_rank s \<noteq> Some r then [LossRank r (the (static_rank s))] else [])
             ranks ss)
      else [])"

definition attention_checks :: "nat \<Rightarrow> nat \<Rightarrow> shape option list \<Rightarrow> verify_error list" where
  "attention_checks num_heads head_dim ss =
     (if ss = [] then []
      else if num_heads = 0 \<or> head_dim = 0 then [ZeroHeads]
      else case static_last_dim (ss ! 0) of
        Some l \<Rightarrow> if l \<noteq> num_heads * head_dim \<and> l \<noteq> head_dim
          then [QueryLayout l num_heads head_dim] else []
      | None \<Rightarrow> [])"

definition report :: "(shape_error \<Rightarrow> verify_error) \<Rightarrow> shape res \<Rightarrow> verify_error list res" where
  "report f r = (case r of Ok _ \<Rightarrow> Ok [] | Err e \<Rightarrow> Ok [f e] | Panic \<Rightarrow> Panic)"

definition slice_checks :: "nat \<Rightarrow> shape option list \<Rightarrow> verify_error list res" where
  "slice_checks axis ss =
     (case ss of
        [Some operand, Some upd, Some start] \<Rightarrow>
          bind_outcome (report RejectedShape (dynamic_update_slice_shape operand upd axis)) (\<lambda>es.
            Ok (es @ (if num_elements start \<noteq> Some 1 then [StartNotOne start] else [])))
      | _ \<Rightarrow> Ok [])"

definition append_checks :: "nat \<Rightarrow> nat \<Rightarrow> shape option list \<Rightarrow> verify_error list res" where
  "append_checks axis pos ss =
     (case ss of
        [Some cache, Some row] \<Rightarrow> report RejectedShape (kv_append_shape cache row axis pos)
      | _ \<Rightarrow> Ok [])"

definition expand_checks :: "int list \<Rightarrow> shape option list \<Rightarrow> verify_error list res" where
  "expand_checks target ss =
     (case ss of
        [Some x] \<Rightarrow> report ExpandRejected (expand_shape x target)
      | _ \<Rightarrow> Ok [])"

text \<open>A registered verifier runs when every operand is an earlier node.\<close>

definition custom_checks ::
  "verify_table \<Rightarrow> string \<Rightarrow> node \<Rightarrow> bool \<Rightarrow> shape option list \<Rightarrow> verify_error list" where
  "custom_checks T nm n in_order ss =
     (case vt_custom T nm of
        None \<Rightarrow> []
      | Some f \<Rightarrow> if in_order then map CustomRejected (f n (map the ss)) else [])"

definition op_checks ::
  "verify_table \<Rightarrow> node \<Rightarrow> bool \<Rightarrow> shape option list \<Rightarrow> verify_error list res" where
  "op_checks T n in_order ss =
     (case n_op n of
        LayerNorm _ _ \<Rightarrow> Ok (norm_checks ss)
      | Attention num_heads head_dim _ _ _ _ \<Rightarrow> Ok (attention_checks num_heads head_dim ss)
      | DynamicUpdateSlice axis \<Rightarrow> slice_checks axis ss
      | KvAppend axis pos \<Rightarrow> append_checks axis pos ss
      | Expand target \<Rightarrow> expand_checks target ss
      | Custom nm _ _ \<Rightarrow> Ok (custom_checks T nm n in_order ss)
      | OtherOp nm attrs \<Rightarrow>
          Ok ((if nm = ''RmsNorm'' then norm_checks ss
               else if nm = ''SoftmaxCrossEntropyBackward'' then loss_checks [2, 1, 1] ss
               else if nm = ''SoftmaxCrossEntropyWithLogits'' then loss_checks [2, 1] ss
               else []) @ map OtherRejected (vt_other T nm attrs ss))
      | _ \<Rightarrow> Ok [])"

definition operands_in_order :: "graph \<Rightarrow> node \<Rightarrow> bool" where
  "operands_in_order g n = list_all (\<lambda>i. i < graph_len g \<and> i < n_id n) (n_inputs n)"

definition verify_op :: "verify_table \<Rightarrow> graph \<Rightarrow> node \<Rightarrow> verify_error list res" where
  "verify_op T g n =
     bind_outcome (op_checks T n (operands_in_order g n) (map (shape_opt g) (n_inputs n))) (\<lambda>es.
       Ok ((if is_leaf (n_op n) \<and> n_inputs n \<noteq> [] then [LeafWithOperands (length (n_inputs n))]
            else []) @ es))"

section \<open>The verifier\<close>

definition input_errors :: "graph \<Rightarrow> node \<Rightarrow> verify_error list" where
  "input_errors g n =
     concat (map (\<lambda>i. if graph_len g \<le> i then [MissingInput i (graph_len g)]
                      else if n_id n \<le> i then [ForwardInput i (n_id n)] else []) (n_inputs n))"

definition arity_errors :: "verify_table \<Rightarrow> node \<Rightarrow> verify_error list" where
  "arity_errors T n =
     (let a = op_arity (vt_arity T) (n_op n); k = length (n_inputs n) in
      if \<not> is_unconstrained a \<and> \<not> arity_accepts a k then [BadArity a k] else [])"

definition verify_node ::
  "verify_table \<Rightarrow> graph \<Rightarrow> located list \<Rightarrow> node \<Rightarrow> located list res" where
  "verify_node T g errors n =
     bind_outcome (verify_op T g n) (\<lambda>es.
       Ok (errors @ map (Pair (Some (n_id n))) (input_errors g n @ arity_errors T n @ es)))"

definition verify :: "verify_table \<Rightarrow> graph \<Rightarrow> located list res" where
  "verify T g =
     bind_outcome (for_each (verify_node T g) [] (g_nodes g)) (\<lambda>errors.
       Ok (errors @ concat (map (\<lambda>i. if graph_len g \<le> i then [(None, MissingOutput i)] else [])
                             (g_outputs g))))"

definition shapes_compatible :: "shape \<Rightarrow> shape \<Rightarrow> bool" where
  "shapes_compatible declared inferred \<longleftrightarrow>
     (if declared = inferred then True
      else if shape_dtype declared \<noteq> shape_dtype inferred then False
      else num_elements declared = Some 1 \<and> num_elements inferred = Some 1)"

definition shape_errors :: "verify_table \<Rightarrow> graph \<Rightarrow> node \<Rightarrow> located list res" where
  "shape_errors T g n =
     (case infer_output_shape (vt_infer T) g n of
        Err e \<Rightarrow> Ok [(Some (n_id n), RejectedShape e)]
      | Ok None \<Rightarrow> Ok []
      | Ok (Some expected) \<Rightarrow>
          Ok (if \<not> shapes_compatible (n_shape n) expected
              then [(Some (n_id n), ShapeMismatch (n_shape n) expected)] else [])
      | Panic \<Rightarrow> Panic)"

definition verify_shapes :: "verify_table \<Rightarrow> graph \<Rightarrow> located list res" where
  "verify_shapes T g =
     for_each (\<lambda>errors n. bind_outcome (shape_errors T g n) (\<lambda>es. Ok (errors @ es))) [] (g_nodes g)"

definition verify_all :: "verify_table \<Rightarrow> graph \<Rightarrow> located list res" where
  "verify_all T g =
     bind_outcome (verify T g) (\<lambda>errors.
       if errors \<noteq> [] then Ok errors else verify_shapes T g)"

text \<open>Binding is by name, so no two inputs or parameters may share one.\<close>

fun leaf_name :: "op \<Rightarrow> string option" where
  "leaf_name (Param nm) = Some nm"
| "leaf_name (Input nm) = Some nm"
| "leaf_name _ = None"

definition unique_name_step ::
  "(string \<rightharpoonup> node_id) \<times> (node_id \<times> string \<times> node_id) list \<Rightarrow> node
   \<Rightarrow> (string \<rightharpoonup> node_id) \<times> (node_id \<times> string \<times> node_id) list" where
  "unique_name_step st n =
     (case leaf_name (n_op n) of
        None \<Rightarrow> st
      | Some nm \<Rightarrow>
          (case fst st nm of
             Some i \<Rightarrow> (fst st, snd st @ [(n_id n, nm, i)])
           | None \<Rightarrow> ((fst st)(nm \<mapsto> n_id n), snd st)))"

definition verify_unique_leaf_names :: "graph \<Rightarrow> (node_id \<times> string \<times> node_id) list" where
  "verify_unique_leaf_names g = snd (foldl unique_name_step (Map.empty, []) (g_nodes g))"

section \<open>Reporting never fails\<close>

lemma traverse_no_panic: "(\<And>x. f x \<noteq> Panic) \<Longrightarrow> traverse f xs \<noteq> Panic"
  by (induction xs) (auto simp: bind_outcome_Panic)

lemma broadcast_no_panic: "broadcast a b \<noteq> Panic"
proof -
  have "broadcast_dim x y \<noteq> Panic" for x y
    by (auto simp: broadcast_dim_def split: dim.splits)
  then show ?thesis by (auto simp: broadcast_def Let_def bind_outcome_Panic traverse_no_panic)
qed

lemma concat_map_Nil: "concat (map f xs) = [] \<longleftrightarrow> (\<forall>x \<in> set xs. f x = [])"
  by (induction xs) auto

lemma report_ok: "r \<noteq> Panic \<Longrightarrow> \<exists>es. report f r = Ok es"
  by (cases r) (auto simp: report_def)

lemma op_checks_total: "\<exists>es. op_checks T n b ss = Ok es"
proof -
  have slice: "\<exists>es. slice_checks axis ss = Ok es" for axis
  proof -
    have "dynamic_update_slice_shape x u axis \<noteq> Panic" for x u
      by (auto simp: dynamic_update_slice_shape_def split: option.splits)
    from report_ok [OF this] show ?thesis
      by (auto simp: slice_checks_def split: list.splits option.splits) (metis bind_outcome.simps(1))+
  qed
  have append: "\<exists>es. append_checks axis pos ss = Ok es" for axis pos
  proof -
    have "kv_append_shape c r axis pos \<noteq> Panic" for c r
      by (auto simp: kv_append_shape_def with_dim_def split: option.splits)
    then show ?thesis by (auto simp: append_checks_def report_ok split: list.splits option.splits)
  qed
  have expand: "\<exists>es. expand_checks target ss = Ok es" for target
  proof -
    have "expand_shape x target \<noteq> Panic" for x
      by (auto simp: expand_shape_def broadcast_no_panic split: option.splits)
    then show ?thesis by (auto simp: expand_checks_def report_ok split: list.splits option.splits)
  qed
  show ?thesis using slice append expand by (auto simp: op_checks_def split: op.splits)
qed

lemma verify_op_total: "\<exists>es. verify_op T g n = Ok es"
  using op_checks_total [of T n "operands_in_order g n" "map (shape_opt g) (n_inputs n)"]
  by (auto simp: verify_op_def)

definition node_errors :: "verify_table \<Rightarrow> graph \<Rightarrow> node \<Rightarrow> located list" where
  "node_errors T g n = map (Pair (Some (n_id n)))
     (input_errors g n @ arity_errors T n @ (case verify_op T g n of Ok es \<Rightarrow> es | _ \<Rightarrow> []))"

lemma verify_nodes:
  "for_each (verify_node T g) errors ns = Ok (errors @ concat (map (node_errors T g) ns))"
proof (induction ns arbitrary: errors)
  case (Cons n ns)
  obtain es where "verify_op T g n = Ok es" using verify_op_total by blast
  then show ?case using Cons by (simp add: verify_node_def node_errors_def)
qed simp

lemma verify_eq:
  "verify T g = Ok (concat (map (node_errors T g) (g_nodes g)) @
     concat (map (\<lambda>i. if graph_len g \<le> i then [(None, MissingOutput i)] else []) (g_outputs g)))"
  using verify_nodes [of T g "[]"] by (simp add: verify_def)

section \<open>What acceptance means\<close>

text \<open>A node with operands of the shapes \<open>ss\<close> is well typed: it has as many as its operator
  takes, passes the operator's own checks, and where the operator has a rule, the declared
  shape is the inferred one, or both have one element of one type.\<close>

definition well_typed :: "verify_table \<Rightarrow> node \<Rightarrow> shape list \<Rightarrow> bool" where
  "well_typed T n ss \<longleftrightarrow>
     (is_unconstrained (op_arity (vt_arity T) (n_op n)) \<or>
        arity_accepts (op_arity (vt_arity T) (n_op n)) (length ss)) \<and>
     (is_leaf (n_op n) \<longrightarrow> ss = []) \<and> op_checks T n True (map Some ss) = Ok [] \<and>
     (case infer_rule (vt_infer T) (n_op n) (n_shape n) (length ss) (index_or_panic ss) of
        Ok None \<Rightarrow> True
      | Ok (Some s) \<Rightarrow> shapes_compatible (n_shape n) s
      | _ \<Rightarrow> False)"

lemma node_errors_none:
  assumes "n_id n \<le> graph_len g"
  shows "node_errors T g n = [] \<longleftrightarrow>
    (\<forall>i \<in> set (n_inputs n). i < n_id n) \<and> arity_errors T n = [] \<and>
    (is_leaf (n_op n) \<longrightarrow> n_inputs n = []) \<and>
    op_checks T n True (map Some (shapes_at g (n_inputs n))) = Ok []"
proof -
  have in_errs: "input_errors g n = [] \<longleftrightarrow> (\<forall>i \<in> set (n_inputs n). i < n_id n)"
    using assms unfolding input_errors_def concat_map_Nil by (auto simp: not_le)
  have "map (shape_opt g) (n_inputs n) = map Some (shapes_at g (n_inputs n))"
    "operands_in_order g n" if "\<forall>i \<in> set (n_inputs n). i < n_id n"
    using that assms by (auto simp: shape_opt_def shapes_at_def operands_in_order_def list_all_iff)
  then show ?thesis
    using in_errs op_checks_total [of T n True "map Some (shapes_at g (n_inputs n))"]
    by (auto simp: node_errors_def verify_op_def)
qed

lemma arity_errors_none:
  "arity_errors T n = [] \<longleftrightarrow> is_unconstrained (op_arity (vt_arity T) (n_op n)) \<or>
     arity_accepts (op_arity (vt_arity T) (n_op n)) (length (n_inputs n))"
  by (auto simp: arity_errors_def Let_def)

lemma shape_errors_none:
  assumes "\<forall>i \<in> set (n_inputs n). i < graph_len g"
  shows "shape_errors T g n = Ok [] \<longleftrightarrow>
    (case infer_rule (vt_infer T) (n_op n) (n_shape n) (length (n_inputs n))
        (index_or_panic (shapes_at g (n_inputs n))) of
      Ok None \<Rightarrow> True | Ok (Some s) \<Rightarrow> shapes_compatible (n_shape n) s | _ \<Rightarrow> False)"
  by (auto simp: shape_errors_def infer_output_shape_def in_shape_eq [OF assms]
      split: outcome.splits option.splits)

lemma verify_shapes_none:
  "verify_shapes T g = Ok [] \<longleftrightarrow> (\<forall>n \<in> set (g_nodes g). shape_errors T g n = Ok [])"
proof -
  have "for_each (\<lambda>errors n. bind_outcome (shape_errors T g n) (\<lambda>es. Ok (errors @ es))) errs ns = Ok [] \<longleftrightarrow>
      errs = [] \<and> (\<forall>n \<in> set ns. shape_errors T g n = Ok [])" for errs ns
    by (induction ns arbitrary: errs) (auto simp: outcome_simps)
  then show ?thesis by (simp add: verify_shapes_def)
qed

definition numbered :: "graph \<Rightarrow> bool" where
  "numbered g \<longleftrightarrow> map n_id (g_nodes g) = [0..<graph_len g]"

lemma numbered_nth: "numbered g \<Longrightarrow> i < graph_len g \<Longrightarrow> n_id (g_nodes g ! i) = i"
  unfolding numbered_def graph_len_def by (metis add_0 length_map nth_map nth_upt length_upt minus_nat.diff_0)

lemma wf_numbered: "wf_graph g \<Longrightarrow> numbered g"
  by (auto simp: numbered_def graph_len_def wf_graph_def wf_nodes_def intro: nth_equalityI)

lemma verify_all_iff:
  assumes num: "numbered g"
  shows "verify_all T g = Ok [] \<longleftrightarrow>
    wf_graph g \<and> (\<forall>n \<in> set (g_nodes g). well_typed T n (shapes_at g (n_inputs n)))"
proof -
  have id: "n_id n \<le> graph_len g" if "n \<in> set (g_nodes g)" for n
    using that numbered_nth [OF num] by (force simp: in_set_conv_nth graph_len_def)
  have "verify T g = Ok [] \<longleftrightarrow> (\<forall>n \<in> set (g_nodes g). node_errors T g n = []) \<and>
      (\<forall>i \<in> set (g_outputs g). i < graph_len g)"
    unfolding verify_eq by (simp add: concat_map_Nil not_le del: concat_eq_Nil_conv)
  moreover have "wf_graph g \<longleftrightarrow> (\<forall>n \<in> set (g_nodes g). \<forall>i \<in> set (n_inputs n). i < n_id n) \<and>
      (\<forall>i \<in> set (g_outputs g). i < graph_len g)"
    using numbered_nth [OF num] by (auto simp: wf_graph_def wf_nodes_def graph_len_def all_set_conv_all_nth)
  moreover have "verify_all T g = Ok [] \<longleftrightarrow> verify T g = Ok [] \<and> verify_shapes T g = Ok []"
    by (auto simp: verify_all_def verify_eq)
  ultimately have "verify_all T g = Ok [] \<longleftrightarrow> wf_graph g \<and>
      (\<forall>n \<in> set (g_nodes g). arity_errors T n = [] \<and> (is_leaf (n_op n) \<longrightarrow> n_inputs n = []) \<and>
        op_checks T n True (map Some (shapes_at g (n_inputs n))) = Ok [] \<and>
        shape_errors T g n = Ok [])"
    using node_errors_none [OF id] verify_shapes_none by blast
  moreover have "(arity_errors T n = [] \<and> (is_leaf (n_op n) \<longrightarrow> n_inputs n = []) \<and>
        op_checks T n True (map Some (shapes_at g (n_inputs n))) = Ok [] \<and>
        shape_errors T g n = Ok []) \<longleftrightarrow> well_typed T n (shapes_at g (n_inputs n))"
    if "wf_graph g" "n \<in> set (g_nodes g)" for n
  proof -
    have "\<forall>i \<in> set (n_inputs n). i < graph_len g"
      using that wf_nodes_member(3) by (auto simp: wf_graph_def graph_len_def)
    then show ?thesis
      by (simp add: well_typed_def arity_errors_none shape_errors_none shapes_at_def)
  qed
  ultimately show ?thesis by blast
qed

text \<open>The check of names accepts a graph exactly when no two inputs or parameters share one.\<close>

lemma unique_name_steps:
  "snd (foldl unique_name_step (st, dups) ns) = [] \<longleftrightarrow> dups = [] \<and>
     distinct (List.map_filter (\<lambda>n. leaf_name (n_op n)) ns) \<and>
     set (List.map_filter (\<lambda>n. leaf_name (n_op n)) ns) \<inter> dom st = {}"
proof (induction ns arbitrary: st dups)
  case (Cons n ns)
  show ?case
  proof (cases "leaf_name (n_op n)")
    case None
    then show ?thesis using Cons.IH [of st dups]
      by (simp add: unique_name_step_def map_filter_simps)
  next
    case name: (Some nm)
    show ?thesis
    proof (cases "st nm")
      case None
      then have "unique_name_step (st, dups) n = (st(nm \<mapsto> n_id n), dups)" "nm \<notin> dom st"
        using name by (auto simp: unique_name_step_def)
      then show ?thesis by (auto simp: Cons.IH name map_filter_simps split: if_splits)
    next
      case (Some i)
      then have "unique_name_step (st, dups) n = (st, dups @ [(n_id n, nm, i)])" "nm \<in> dom st"
        using name by (auto simp: unique_name_step_def)
      then show ?thesis by (simp add: Cons.IH name map_filter_simps)
    qed
  qed
qed (simp add: map_filter_simps)

lemma unique_leaf_names_iff:
  "verify_unique_leaf_names g = [] \<longleftrightarrow>
   distinct (List.map_filter (\<lambda>n. leaf_name (n_op n)) (g_nodes g))"
  by (simp add: verify_unique_leaf_names_def unique_name_steps)

end
