(* ===== verification/VerifiedPasses.thy ===== *)
theory VerifiedPasses
  imports Verify ParamHoist
begin

text \<open>
  The passes that copy nodes keep a verified graph verified: common-subexpression
  elimination, dead-code elimination, and both halves of the weight split.
\<close>

section \<open>Copies of nodes\<close>

text \<open>What a registered verifier of a custom operator says depends on the node's contents and
  on the operand shapes, not on how the nodes are numbered.\<close>

definition same_contents :: "node \<Rightarrow> node \<Rightarrow> bool" where
  "same_contents n n' \<longleftrightarrow> n_op n = n_op n' \<and> n_shape n = n_shape n' \<and> n_name n = n_name n' \<and>
     n_origin n = n_origin n'"

definition custom_by_contents :: "verify_table \<Rightarrow> bool" where
  "custom_by_contents T \<longleftrightarrow> (\<forall>nm f n n' ss. vt_custom T nm = Some f \<longrightarrow> same_contents n n' \<longrightarrow>
     f n ss = f n' ss)"

lemma well_typed_contents:
  assumes "custom_by_contents T" and "same_contents n n'"
  shows "well_typed T n ss \<longleftrightarrow> well_typed T n' ss"
proof -
  have ops: "n_op n' = n_op n" and shp: "n_shape n' = n_shape n" using assms(2) by (auto simp: same_contents_def)
  have "custom_checks T nm n True xs = custom_checks T nm n' True xs" for nm xs
  proof (cases "vt_custom T nm")
    case (Some f)
    then have "f n (map the xs) = f n' (map the xs)"
      using assms unfolding custom_by_contents_def by blast
    then show ?thesis by (simp add: custom_checks_def Some)
  qed (simp add: custom_checks_def)
  then have "op_checks T n True xs = op_checks T n' True xs" for xs
    unfolding op_checks_def ops by (simp split: op.splits)
  then show ?thesis unfolding well_typed_def ops shp by simp
qed

text \<open>Every node of the new graph is a copy whose operands have the shapes they had, or an
  input, and the map of ids keeps shapes.\<close>

definition copied_node :: "graph \<Rightarrow> graph \<Rightarrow> node \<Rightarrow> bool" where
  "copied_node g out n' \<longleftrightarrow>
     (\<exists>n \<in> set (g_nodes g). same_contents n n' \<and> shapes_at out (n_inputs n') = shapes_at g (n_inputs n)) \<or>
     (\<exists>nm. n_op n' = Input nm \<and> n_inputs n' = [])"

definition copies :: "graph \<Rightarrow> graph \<times> id_map \<Rightarrow> bool" where
  "copies g st \<longleftrightarrow> (case st of (out, m) \<Rightarrow>
     (\<forall>i j. m i = Some j \<longrightarrow> j < graph_len out \<and> n_shape (g_nodes out ! j) = n_shape (g_nodes g ! i)) \<and>
     (\<forall>n' \<in> set (g_nodes out). (\<forall>j \<in> set (n_inputs n'). j < graph_len out) \<and> copied_node g out n'))"

lemma copies_start: "copies g (graph_new nm, Map.empty)"
  by (simp add: copies_def graph_new_def)

lemma shapes_at_extends:
  "\<forall>j \<in> set js. j < graph_len out \<Longrightarrow> extends out out' \<Longrightarrow> shapes_at out' js = shapes_at out js"
  by (simp add: shapes_at_def extends_node)

lemma copies_append:
  assumes c: "copies g (out, m)" and ext: "g_nodes out' = g_nodes out @ [n']"
    and ins: "\<forall>j \<in> set (n_inputs n'). j < graph_len out"
    and shp: "n_shape n' = n_shape (g_nodes g ! i)" and node: "copied_node g out n'"
  shows "copies g (out', m(i \<mapsto> graph_len out))"
proof -
  have e: "extends out out'" and len: "graph_len out' = Suc (graph_len out)"
    using ext by (auto simp: extends_def graph_len_def)
  have kept: "copied_node g out' n" if "copied_node g out n" "\<forall>j \<in> set (n_inputs n). j < graph_len out" for n
    using that shapes_at_extends [OF that(2) e] by (simp add: copied_node_def)
  have "\<forall>j. (m(i \<mapsto> graph_len out)) k = Some j \<longrightarrow> j < graph_len out' \<and>
      n_shape (g_nodes out' ! j) = n_shape (g_nodes g ! k)" for k
  proof (cases "k = i")
    case True
    then show ?thesis using shp len ext by (simp add: graph_len_def nth_append)
  next
    case False
    have "j < graph_len out \<and> n_shape (g_nodes out ! j) = n_shape (g_nodes g ! k)" if "m k = Some j" for j
      using c that by (auto simp: copies_def)
    then show ?thesis using False len ext by (auto simp: graph_len_def nth_append)
  qed
  moreover have "(\<forall>j \<in> set (n_inputs n). j < graph_len out') \<and> copied_node g out' n"
    if "n \<in> set (g_nodes out')" for n
  proof (cases "n = n'")
    case True
    then show ?thesis using kept [OF node ins] ins len by auto
  next
    case False
    then have "(\<forall>j \<in> set (n_inputs n). j < graph_len out) \<and> copied_node g out n"
      using that c ext by (auto simp: copies_def)
    then show ?thesis using kept len by auto
  qed
  ultimately show ?thesis by (simp add: copies_def)
qed

lemma map_ids_shapes:
  assumes "copies g (out, m)" and "map_ids m is = Ok js"
  shows "\<forall>j \<in> set js. j < graph_len out" and "shapes_at out js = shapes_at g is"
proof -
  have at: "j < graph_len out \<and> n_shape (g_nodes out ! j) = n_shape (g_nodes g ! i)" if "m i = Some j" for i j
    using assms(1) that by (auto simp: copies_def)
  have ids: "map m is = map Some js" using assms(2) by (simp add: map_ids_Ok)
  have "(\<forall>j \<in> set js. j < graph_len out) \<and> shapes_at out js = shapes_at g is"
    using ids
  proof (induction "is" arbitrary: js)
    case (Cons i "is")
    then obtain j js' where js: "js = j # js'" "m i = Some j" "map m is = map Some js'"
      by (cases js) auto
    then show ?case using Cons.IH [of js'] at [of i j] by (simp add: shapes_at_def)
  qed (simp add: shapes_at_def)
  then show "\<forall>j \<in> set js. j < graph_len out" and "shapes_at out js = shapes_at g is" by simp_all
qed

lemma copies_copy:
  assumes wf: "wf_graph g" and c: "copies g (out, m)" and n: "n \<in> set (g_nodes g)"
    and ids: "map_ids m (n_inputs n) = Ok js"
  shows "copies g (fst (copy_node out n js), m(n_id n \<mapsto> graph_len out))"
proof (rule copies_append [OF c])
  have at: "g_nodes g ! n_id n = n" using wf n wf_nodes_member(2) by (auto simp: wf_graph_def)
  show "g_nodes (fst (copy_node out n js)) = g_nodes out @ [n\<lparr>n_id := graph_len out, n_inputs := js\<rparr>]"
    by simp
  show "\<forall>j \<in> set (n_inputs (n\<lparr>n_id := graph_len out, n_inputs := js\<rparr>)). j < graph_len out"
    using map_ids_shapes(1) [OF c ids] by simp
  show "n_shape (n\<lparr>n_id := graph_len out, n_inputs := js\<rparr>) = n_shape (g_nodes g ! n_id n)"
    by (simp add: at)
  show "copied_node g out (n\<lparr>n_id := graph_len out, n_inputs := js\<rparr>)"
    using map_ids_shapes(2) [OF c ids] n by (auto simp: copied_node_def same_contents_def)
qed

lemma copies_alias:
  "copies g (out, m) \<Longrightarrow> e < graph_len out \<Longrightarrow> n_shape (g_nodes out ! e) = n_shape (g_nodes g ! i) \<Longrightarrow>
   copies g (out, m(i \<mapsto> e))"
  by (simp add: copies_def)

lemma input_well_typed: "n_op n = Input nm \<Longrightarrow> well_typed T n []"
  by (simp add: well_typed_def op_arity_def op_checks_def)

lemma copies_verified:
  assumes num: "numbered g" and ok: "verify_all T g = Ok []" and custom: "custom_by_contents T"
    and c: "copies g (out, m)" and out: "g_nodes g' = g_nodes out" and wf: "wf_graph g'"
  shows "verify_all T g' = Ok []"
  unfolding verify_all_iff [OF wf_numbered [OF wf]]
proof (intro conjI wf ballI)
  fix n' assume n': "n' \<in> set (g_nodes g')"
  have at: "shapes_at g' = shapes_at out" by (simp add: shapes_at_def out fun_eq_iff)
  have old: "\<forall>n \<in> set (g_nodes g). well_typed T n (shapes_at g (n_inputs n))"
    using ok verify_all_iff [OF num] by blast
  have "copied_node g out n'" using c n' out by (simp add: copies_def)
  then show "well_typed T n' (shapes_at g' (n_inputs n'))"
    unfolding copied_node_def
  proof
    assume "\<exists>n \<in> set (g_nodes g). same_contents n n' \<and> shapes_at out (n_inputs n') = shapes_at g (n_inputs n)"
    then show ?thesis using old well_typed_contents [OF custom] at by metis
  next
    assume "\<exists>nm. n_op n' = Input nm \<and> n_inputs n' = []"
    then show ?thesis using input_well_typed by (auto simp: shapes_at_def)
  qed
qed

section \<open>The passes\<close>

lemma dce_verified:
  assumes num: "numbered g" and ok: "verify_all T g = Ok []" and custom: "custom_by_contents T"
    and run: "dce_run g = Ok g'"
  shows "verify_all T g' = Ok []"
proof -
  have wf: "wf_graph g" using ok verify_all_iff [OF num] by blast
  obtain out m where loop: "for_each (dce_step {i. reach g i}) (graph_new (g_name g), Map.empty)
      (g_nodes g) = Ok (out, m)" and fin: "rebuild_outputs g out m = Ok g'"
    using run by (auto simp: dce_run_eq [OF wf] outcome_simps)
  have "copies g (out, m)"
  proof (rule for_each_invariant [OF loop, of "copies g"])
    show "copies g (graph_new (g_name g), Map.empty)" by (rule copies_start)
  next
    fix n st st'
    assume n: "n \<in> set (g_nodes g)" and c: "copies g st" and
      step: "dce_step {i. reach g i} st n = Ok st'"
    show "copies g st'"
    proof (cases "reach g (n_id n)")
      case True
      obtain out m where st: "st = (out, m)" by fastforce
      then obtain js where "map_ids m (n_inputs n) = Ok js"
          "st' = (fst (copy_node out n js), m(n_id n \<mapsto> graph_len out))"
        using step True by (auto simp: dce_step_def outcome_simps split_beta)
      then show ?thesis using copies_copy [OF wf _ n] c st by simp
    next
      case False
      then show ?thesis using c step by (simp add: dce_step_def split: prod.splits)
    qed
  qed
  moreover have "g_nodes g' = g_nodes out"
    using fin by (auto simp: rebuild_outputs_def outcome_simps set_outputs_def)
  ultimately show ?thesis using copies_verified [OF num ok custom] dce_keeps(1) [OF wf run] by blast
qed

lemma cse_find_Some:
  "cse_find out n ins cands = Ok (Some e) \<Longrightarrow> e < graph_len out \<and> n_shape (g_nodes out ! e) = n_shape n"
  by (induction cands) (auto simp: outcome_simps split: if_splits)

lemma cse_verified:
  assumes num: "numbered g" and ok: "verify_all T g = Ok []" and custom: "custom_by_contents T"
  shows "\<exists>g'. cse_run key g = Ok g' \<and> verify_all T g' = Ok [] \<and> wf_graph g' \<and>
    output_values sem g' = output_values sem g"
proof -
  have wf: "wf_graph g" using ok verify_all_iff [OF num] by blast
  obtain s g' where loop: "for_each (cse_step key) (graph_new (g_name g), Map.empty, Map.empty)
      (g_nodes g) = Ok s" and fin: "rebuild_outputs g (fst s) (fst (snd s)) = Ok g'"
    and wf': "wf_graph g'" and nodes: "g_nodes g' = g_nodes (fst s)"
    and vals: "output_values sem g' = output_values sem g"
    using cse.rebuild_ok [OF wf, where sem = sem and key = key] by auto
  have "copies g (fst s, fst (snd s))"
  proof (rule for_each_invariant [OF loop, of "\<lambda>s. copies g (fst s, fst (snd s))"])
    show "copies g (fst (graph_new (g_name g), Map.empty, Map.empty),
        fst (snd (graph_new (g_name g), Map.empty, Map.empty)))" using copies_start by simp
  next
    fix n s s'
    assume n: "n \<in> set (g_nodes g)" and c: "copies g (fst s, fst (snd s))" and
      step: "cse_step key s n = Ok s'"
    obtain out m b where s: "s = (out, m, b)" by (metis prod.exhaust)
    obtain js where js: "map_ids m (n_inputs n) = Ok js"
      using step s by (auto simp: cse_step_def outcome_simps)
    have at: "g_nodes g ! n_id n = n" using wf n wf_nodes_member(2) by (auto simp: wf_graph_def)
    consider "fst s' = fst (copy_node out n js)" "fst (snd s') = m(n_id n \<mapsto> graph_len out)"
      | e where "cse_find out n js (bucket b (key (n_op n) js (n_shape n))) = Ok (Some e)"
          "fst s' = out" "fst (snd s') = m(n_id n \<mapsto> e)"
      using step js unfolding s
      by (auto simp: cse_step_def outcome_simps Let_def split_beta split: if_splits option.splits)
    then show "copies g (fst s', fst (snd s'))"
    proof cases
      case 1
      then show ?thesis using copies_copy [OF wf _ n js] c s by simp
    next
      case (2 e)
      then show ?thesis using copies_alias cse_find_Some [OF 2(1)] c s at by simp
    qed
  qed
  then have "verify_all T g' = Ok []" using copies_verified [OF num ok custom _ nodes wf'] by blast
  then show ?thesis using loop fin vals wf' by (auto simp: cse_run_def split_beta)
qed


lemma accepted_wf: "numbered g \<Longrightarrow> verify_all T g = Ok [] \<Longrightarrow> wf_graph g"
  using verify_all_iff by blast

text \<open>The cut graph of the weight split has other outputs and the same nodes.\<close>

lemma outputs_verified:
  assumes num: "numbered g" and ok: "verify_all T g = Ok []" and outs: "\<forall>i \<in> set is. i < graph_len g"
  shows "numbered (set_outputs g is)" and "verify_all T (set_outputs g is) = Ok []"
proof -
  show n: "numbered (set_outputs g is)"
    using num by (simp add: numbered_def graph_len_def outputs_with)
  show "verify_all T (set_outputs g is) = Ok []"
    using ok outs unfolding verify_all_iff [OF num] verify_all_iff [OF n]
    by (simp add: wf_graph_def outputs_with graph_len_def shapes_at_def)
qed

lemma hoist_step_copies:
  assumes wf: "wf_graph g" and n: "n \<in> set (g_nodes g)" and c: "copies g st"
    and step: "hoist_step g names st n = Ok st'"
  shows "copies g st'"
proof -
  have at: "g_nodes g ! n_id n = n" using wf n wf_nodes_member(2) by (auto simp: wf_graph_def)
  obtain out m where st: "st = (out, m)" by fastforce
  show ?thesis
  proof (cases "names (n_id n)")
    case (Some nm)
    define n' where "n' = \<lparr>n_id = graph_len out, n_op = Input nm, n_inputs = [],
      n_shape = n_shape n, n_name = Some nm, n_origin = None\<rparr>"
    have "st' = (out\<lparr>g_nodes := g_nodes out @ [n']\<rparr>, m(n_id n \<mapsto> graph_len out))"
      using step st Some
      by (auto simp: hoist_step_def input_node_def push_def push_ext_def Let_def graph_len_def n'_def)
    moreover have "copied_node g out n'" by (simp add: copied_node_def n'_def)
    ultimately show ?thesis
      using copies_append [where n' = n' and i = "n_id n" and g = g and out = out and m = m] c st at
      by (simp add: n'_def)
  next
    case None
    obtain js where js: "map_ids m (n_inputs n) = Ok js"
      using step st None by (auto simp: hoist_step_def outcome_simps)
    then have "st' = (fst (copy_node out n js), m(n_id n \<mapsto> graph_len out))"
      using step st hoist_copy [where names = names, OF wf n None js] by simp
    with js show ?thesis using copies_copy [OF wf _ n] c st by simp
  qed
qed

lemma split_verified:
  assumes num: "numbered g" and ok: "verify_all T g = Ok []" and custom: "custom_by_contents T"
    and split: "split_param_invariant g = Ok (Some h)"
  shows "verify_all T (hs_prepare h) = Ok []" and "verify_all T (hs_main h) = Ok []"
proof -
  have wf: "wf_graph g" using ok verify_all_iff [OF num] by blast
  obtain "is" st out where cut: "distinct is" "\<forall>i \<in> set is. i < graph_len g \<and> i \<notin> dynamic_nodes g"
      "dce_run (set_outputs g is) = Ok (hs_prepare h)" "hs_boundary h = map prep_name [0..<length is]"
    and loop: "for_each (hoist_step g (map_of (zip is (hs_boundary h))))
      (graph_new (g_name g), Map.empty) (g_nodes g) = Ok st"
    and fin: "rebuild_outputs g (fst st) (snd st) = Ok out" and main: "dce_run out = Ok (hs_main h)"
    using split_parts [OF wf split] by metis
  have sub: "\<forall>i \<in> set is. i < graph_len g" using cut(2) by blast
  show "verify_all T (hs_prepare h) = Ok []"
    by (rule dce_verified [OF outputs_verified [OF num ok sub] custom cut(3)])
  have wf': "wf_graph out"
    using hoist_main [OF wf cut(1) sub cut(4) refl, where sem = "\<lambda>_ _ _. ()"] loop fin by auto
  have "copies g st"
    by (rule for_each_invariant [OF loop, of "copies g"])
      (auto intro: copies_start hoist_step_copies [OF wf])
  moreover have "g_nodes out = g_nodes (fst st)"
    using fin by (auto simp: rebuild_outputs_def outcome_simps set_outputs_def)
  ultimately have "verify_all T out = Ok []"
    using copies_verified [OF num ok custom, of "fst st" "snd st"] wf' by simp
  then show "verify_all T (hs_main h) = Ok []"
    using dce_verified [OF wf_numbered [OF wf'] _ custom main] by blast
qed

section \<open>An example table\<close>

text \<open>One custom operator has a verifier: it wants operands of its own shape.\<close>

definition sample_table :: verify_table where
  "sample_table = \<lparr>vt_arity = (\<lambda>_ _. 1), vt_infer = (\<lambda>_ _ _ _. Ok None), vt_other = (\<lambda>_ _ _. []),
     vt_custom = [''same'' \<mapsto> \<lambda>n ss. if list_all (\<lambda>s. s = n_shape n) ss then [] else [''shape'']]\<rparr>"

lemma sample_table_custom: "custom_by_contents sample_table"
  by (auto simp: custom_by_contents_def sample_table_def same_contents_def split: if_splits)

lemma binary_arity: "table_arity ''Binary'' = Some 2" "table_arity ''Transpose'' = Some 1"
  by code_simp+

lemma sample_broadcast:
  "broadcast \<lparr>dims = [Static 2], shape_dtype = F32\<rparr> \<lparr>dims = [Static 2], shape_dtype = F32\<rparr> =
   Ok \<lparr>dims = [Static 2], shape_dtype = F32\<rparr>"
  by code_simp

lemma sample_well_typed:
  "well_typed sample_table (sample_node i (Input nm) js) []"
  "well_typed sample_table (sample_node i (Param nm) js) []"
  "well_typed sample_table (sample_node i (Binary b) js)
     [n_shape (sample_node k opr ks), n_shape (sample_node l opr' ls)]"
  by (simp_all add: well_typed_def op_arity_def is_unconstrained_def exact_num_inputs_def
      op_checks_def sample_node_def is_leaf_def kind_has_leaf rule2_def index_or_panic_def
      shapes_compatible_def binary_shape_def binary_arity sample_broadcast)

lemma sample_numbered: "numbered (sample_graph outs)" "numbered (affine_graph x)"
  by (simp_all add: numbered_def sample_graph_def affine_graph_def sample_node_def graph_len_def
      graph_new_def)

lemma sample_verified:
  "verify_all sample_table (sample_graph [2, 4]) = Ok []"
  "verify_all sample_table (affine_graph x) = Ok []"
  using sample_well_typed [unfolded sample_node_def]
  unfolding verify_all_iff [OF sample_numbered(1)] verify_all_iff [OF sample_numbered(2)]
  by (simp_all add: wf_sample_graph wf_affine_graph)
    (simp_all add: sample_graph_def affine_graph_def sample_node_def shapes_at_def graph_new_def)

section \<open>Properties\<close>





text \<open>The weight split keeps types: both halves of a graph that the full verifier accepts are
  accepted, the prepared tensors entering the main half as inputs of their declared shapes.\<close>
theorem verified_split:
  assumes "numbered g" and "verify_all T g = Ok []" and "custom_by_contents T"
    and "split_param_invariant g = Ok (Some h)"
  shows "verify_all T (hs_prepare h) = Ok [] \<and> verify_all T (hs_main h) = Ok []"
  using split_verified [OF assms] by blast

theorem verified_split_witness:
  "verify_all sample_table affine_prepare = Ok [] \<and> verify_all sample_table (affine_main ''x'') = Ok []"
  using verified_split [OF sample_numbered(2) sample_verified(2) sample_table_custom affine_split]
  by simp

text \<open>A transpose of a 3 by 5 matrix with a given permutation and declared shape.\<close>

definition transposed :: "nat list \<Rightarrow> dim list \<Rightarrow> graph" where
  "transposed perm ds = (graph_new ''g'')\<lparr>g_nodes :=
     [(sample_node 0 (Input ''x'') [])\<lparr>n_shape := \<lparr>dims = [Static 3, Static 5], shape_dtype = F32\<rparr>\<rparr>,
      (sample_node 1 (Transpose perm) [0])\<lparr>n_shape := \<lparr>dims = ds, shape_dtype = F32\<rparr>\<rparr>],
     g_outputs := [1]\<rparr>"


end
