(* ===== verification/Philox.thy ===== *)
theory Philox
  imports RlxPrelude
begin

unbundle bit_operations_syntax

text \<open>
  The counter-based random number generator \<open>Philox4x32\<close>
  (\<open>crates/core/rlx-ir/src/rng.rs\<close>): its block function, its state, and what its stream is.
\<close>

section \<open>The generator\<close>

type_synonym quad = "32 word \<times> 32 word \<times> 32 word \<times> 32 word"
type_synonym philox_key = "32 word \<times> 32 word"

record philox =
  px_seed :: philox_key
  px_counter :: quad
  px_buffer :: quad
  px_cursor :: nat

definition philox_new :: "64 word \<Rightarrow> philox" where
  "philox_new seed = \<lparr>px_seed = (ucast (seed AND 0xFFFFFFFF), ucast (drop_bit 32 seed)),
     px_counter = (0, 0, 0, 0), px_buffer = (0, 0, 0, 0), px_cursor = 4\<rparr>"

definition philox_m0 :: "64 word" where "philox_m0 = 0xD2561A75"
definition philox_m1 :: "64 word" where "philox_m1 = 0xCD9E8D57"

fun philox_round :: "quad \<Rightarrow> philox_key \<Rightarrow> quad" where
  "philox_round (s0, s1, s2, s3) (k0, k1) =
     (let p0 = ucast s0 * philox_m0; p1 = ucast s2 * philox_m1;
          hi0 = ucast (drop_bit 32 p0); lo0 = ucast p0;
          hi1 = ucast (drop_bit 32 p1); lo1 = ucast p1
      in (hi1 XOR s1 XOR k0, lo1, hi0 XOR s3 XOR k1, lo0))"

fun philox_bump_key :: "philox_key \<Rightarrow> philox_key" where
  "philox_bump_key (k0, k1) = (k0 + 0x9E3779B9, k1 + 0xBB67AE85)"

fun philox_rounds :: "nat \<Rightarrow> quad \<Rightarrow> philox_key \<Rightarrow> quad" where
  "philox_rounds 0 s k = s"
| "philox_rounds (Suc i) s k = philox_rounds i (philox_round s k) (philox_bump_key k)"

text \<open>The carry is the flag of \<open>overflowing_add\<close>: the sum is zero.\<close>

fun philox_bump :: "quad \<Rightarrow> quad" where
  "philox_bump (c0, c1, c2, c3) =
     (let c0' = c0 + 1 in
      if c0' \<noteq> 0 then (c0', c1, c2, c3)
      else let c1' = c1 + 1 in
      if c1' \<noteq> 0 then (c0', c1', c2, c3)
      else let c2' = c2 + 1 in
      if c2' \<noteq> 0 then (c0', c1', c2', c3)
      else (c0', c1', c2', c3 + 1))"

definition fill_buffer :: "philox \<Rightarrow> philox" where
  "fill_buffer g = g\<lparr>px_buffer := philox_rounds 10 (px_counter g) (px_seed g), px_cursor := 0,
     px_counter := philox_bump (px_counter g)\<rparr>"

fun quad_nth :: "quad \<Rightarrow> nat \<Rightarrow> 32 word" where
  "quad_nth (a, b, c, d) i = (if i = 0 then a else if i = 1 then b else if i = 2 then c else d)"

definition next_u32 :: "philox \<Rightarrow> 32 word \<times> philox" where
  "next_u32 g =
     (let g = (if 4 \<le> px_cursor g then fill_buffer g else g) in
      (quad_nth (px_buffer g) (px_cursor g), g\<lparr>px_cursor := px_cursor g + 1\<rparr>))"

text \<open>\<open>next_f32\<close> is the quotient of these 24 bits by \<open>2 ^ 24\<close>, which single precision holds
  exactly.\<close>

definition next_bits :: "philox \<Rightarrow> nat \<times> philox" where
  "next_bits g = (case next_u32 g of (v, g') \<Rightarrow> (unat (drop_bit 8 v), g'))"

lemma word32_bound: "unat w < 2 ^ 32" for w :: "32 word"
  using unsigned_less [of w, where ?'a = nat] by simp

lemma next_bits_bound: "fst (next_bits g) < 2 ^ 24"
proof -
  have "unat (drop_bit 8 v) < 2 ^ 24" for v :: "32 word"
    using word32_bound [of v] unat_drop_bit_eq [of 8 v]
    by (simp only: drop_bit_eq_div) (simp add: less_mult_imp_div_less)
  then show ?thesis by (simp add: next_bits_def split_beta)
qed

section \<open>The counter is a number of 128 bits\<close>

fun quad_value :: "quad \<Rightarrow> nat" where
  "quad_value (c0, c1, c2, c3) = unat c0 + 2 ^ 32 * (unat c1 + 2 ^ 32 * (unat c2 + 2 ^ 32 * unat c3))"

lemma unat_succ: "unat (c + 1) = (if c + 1 = 0 then 0 else unat c + 1)" for c :: "32 word"
  using unatSuc [of c] by (simp add: add.commute)

lemma unat_max: "c + 1 = 0 \<longleftrightarrow> unat c = 2 ^ 32 - 1" for c :: "32 word"
proof -
  have "unat (c + 1) = (unat c + 1) mod 2 ^ 32" using unat_word_ariths(1) [of c 1] by simp
  then have "c + 1 = 0 \<longleftrightarrow> (unat c + 1) mod 2 ^ 32 = 0" by (metis unsigned_eq_0_iff)
  moreover have "unat c + 1 = 2 ^ 32" if "\<not> unat c + 1 < 2 ^ 32"
    using that word32_bound [of c] by simp
  ultimately show ?thesis by (cases "unat c + 1 < 2 ^ 32") auto
qed

lemma quad_value_bound: "quad_value c < 2 ^ 128"
proof -
  obtain c0 c1 c2 c3 where c: "c = (c0, c1, c2, c3)" by (metis prod.exhaust)
  show ?thesis unfolding c
    using word32_bound [of c0] word32_bound [of c1] word32_bound [of c2] word32_bound [of c3] by simp
qed

lemma quad_value_bump: "quad_value (philox_bump c) = (quad_value c + 1) mod 2 ^ 128"
proof -
  obtain c0 c1 c2 c3 where c: "c = (c0, c1, c2, c3)" by (metis prod.exhaust)
  have step: "quad_value (philox_bump c) =
      (if quad_value c + 1 = 2 ^ 128 then 0 else quad_value c + 1)"
    unfolding c
    using word32_bound [of c0] word32_bound [of c1] word32_bound [of c2] word32_bound [of c3]
    by (cases "unat c0 = 2 ^ 32 - 1"; cases "unat c1 = 2 ^ 32 - 1"; cases "unat c2 = 2 ^ 32 - 1";
        cases "unat c3 = 2 ^ 32 - 1"; simp add: Let_def unat_succ unat_max; linarith?)
  show ?thesis unfolding step using quad_value_bound [of c] by (cases "quad_value c + 1 = 2 ^ 128") simp_all
qed

lemma digits_eq:
  assumes "x + b * m = y + b * n" and "x < b" and "y < (b :: nat)"
  shows "x = y \<and> m = n"
proof -
  have "x = (x + b * m) mod b" "m = (x + b * m) div b" using assms(2) by simp_all
  moreover have "y = (y + b * n) mod b" "n = (y + b * n) div b" using assms(3) by simp_all
  ultimately show ?thesis using assms(1) by metis
qed

lemma quad_value_inj:
  assumes "quad_value c = quad_value d"
  shows "c = d"
proof -
  obtain c0 c1 c2 c3 d0 d1 d2 d3 where c: "c = (c0, c1, c2, c3)" and d: "d = (d0, d1, d2, d3)"
    by (metis prod.exhaust)
  note e0 = digits_eq [OF assms [unfolded c d quad_value.simps] word32_bound word32_bound]
  note e1 = digits_eq [OF e0 [THEN conjunct2] word32_bound word32_bound]
  note e2 = digits_eq [OF e1 [THEN conjunct2] word32_bound word32_bound]
  show "c = d" using e0 e1 e2 by (auto simp: c d intro: unsigned_word_eqI)
qed

section \<open>A block determines its counter\<close>

lemma low_product: "ucast (ucast s * m :: 64 word) = s * (ucast m :: 32 word)" for s :: "32 word"
proof -
  have "(m mod 2 ^ 64) mod 2 ^ 32 = m mod 2 ^ 32" for m :: int by (rule mod_mod_cancel) simp
  then have "(s * (m mod 2 ^ 64)) mod 2 ^ 32 = (s * m) mod 2 ^ 32" for s m :: int
    by (metis mod_mult_right_eq)
  then show ?thesis
    by transfer (simp add: take_bit_eq_mod mod_mod_cancel mod_mult_left_eq mod_mult_right_eq)
qed

lemma xor_cancel:
  assumes "a XOR b XOR c = a XOR d XOR c"
  shows "b = (d :: 32 word)"
  using assms by (intro bit_word_eqI) (metis bit_xor_iff)

lemma low_product_inj:
  "ucast (ucast s * philox_m0 :: 64 word) = (ucast (ucast t * philox_m0 :: 64 word) :: 32 word) \<Longrightarrow> s = t"
  "ucast (ucast s * philox_m1 :: 64 word) = (ucast (ucast t * philox_m1 :: 64 word) :: 32 word) \<Longrightarrow> s = t"
  for s t :: "32 word"
proof -
  have inv: "ucast philox_m0 * (3236914653 :: 32 word) = 1" "ucast philox_m1 * (1836887655 :: 32 word) = 1"
    by (simp_all add: philox_m0_def philox_m1_def)
  have cancel: "s = t" if "s * m = t * m" "m * i = 1" for m i :: "32 word"
  proof -
    have "s = (s * m) * i" "t = (t * m) * i" using that(2) by (simp_all add: mult.assoc)
    then show ?thesis using that(1) by simp
  qed
  show "ucast (ucast s * philox_m0 :: 64 word) = (ucast (ucast t * philox_m0 :: 64 word) :: 32 word) \<Longrightarrow> s = t"
    unfolding low_product by (rule cancel [OF _ inv(1)])
  show "ucast (ucast s * philox_m1 :: 64 word) = (ucast (ucast t * philox_m1 :: 64 word) :: 32 word) \<Longrightarrow> s = t"
    unfolding low_product by (rule cancel [OF _ inv(2)])
qed

lemma philox_round_inj:
  assumes "philox_round s k = philox_round t k"
  shows "s = t"
proof -
  obtain s0 s1 s2 s3 t0 t1 t2 t3 k0 k1 where q: "s = (s0, s1, s2, s3)" "t = (t0, t1, t2, t3)" "k = (k0, k1)"
    by (metis prod.exhaust)
  note eq = assms [unfolded q philox_round.simps Let_def prod.inject]
  have lo: "s0 = t0" "s2 = t2"
    by (rule low_product_inj(1) [OF eq [THEN conjunct2, THEN conjunct2, THEN conjunct2]],
        rule low_product_inj(2) [OF eq [THEN conjunct2, THEN conjunct1]])
  have "s1 = t1"
    by (rule xor_cancel [OF eq [THEN conjunct1, unfolded lo]])
  moreover have "s3 = t3"
    by (rule xor_cancel [OF eq [THEN conjunct2, THEN conjunct2, THEN conjunct1, unfolded lo]])
  ultimately have "s1 = t1" "s3 = t3" by simp_all
  with lo show ?thesis by (simp add: q)
qed

lemma philox_rounds_inj: "philox_rounds n s k = philox_rounds n t k \<Longrightarrow> s = t"
proof (induction n arbitrary: s t k)
  case (Suc n)
  then show ?case using philox_round_inj by (metis philox_rounds.simps(2))
qed simp

section \<open>The stream\<close>

definition counter_at :: "nat \<Rightarrow> quad" where
  "counter_at k = (philox_bump ^^ k) (0, 0, 0, 0)"

definition philox_block :: "64 word \<Rightarrow> nat \<Rightarrow> quad" where
  "philox_block seed k = philox_rounds 10 (counter_at k) (px_seed (philox_new seed))"

lemma counter_at_value: "quad_value (counter_at k) = k mod 2 ^ 128"
  by (induction k) (simp_all add: counter_at_def quad_value_bump mod_Suc_eq del: quad_value.simps(1),
      simp_all)

lemma philox_block_inj:
  assumes "philox_block seed i = philox_block seed j"
  shows "i mod 2 ^ 128 = j mod 2 ^ 128"
  using philox_rounds_inj [OF assms [unfolded philox_block_def]] counter_at_value by metis

definition drawn :: "64 word \<Rightarrow> nat \<Rightarrow> philox" where
  "drawn seed n = ((\<lambda>g. snd (next_u32 g)) ^^ n) (philox_new seed)"

lemma drawn_state:
  "px_seed (drawn seed n) = px_seed (philox_new seed) \<and>
   (if n mod 4 = 0 then px_cursor (drawn seed n) = 4 \<and> px_counter (drawn seed n) = counter_at (n div 4)
    else px_cursor (drawn seed n) = n mod 4 \<and> px_counter (drawn seed n) = counter_at (n div 4 + 1) \<and>
      px_buffer (drawn seed n) = philox_block seed (n div 4))"
proof (induction n)
  case 0
  then show ?case by (simp add: drawn_def philox_new_def counter_at_def)
next
  case (Suc n)
  have step: "drawn seed (Suc n) = snd (next_u32 (drawn seed n))" by (simp add: drawn_def)
  have "n mod 4 < 4" by simp
  then consider "n mod 4 = 0" | "n mod 4 = 1" | "n mod 4 = 2" | "n mod 4 = 3" by linarith
  then show ?case
  proof cases
    case 1
    then have "Suc n mod 4 = 1" "Suc n div 4 = n div 4" by presburger+
    then show ?thesis using Suc 1
      by (simp add: step next_u32_def fill_buffer_def Let_def philox_block_def counter_at_def)
  next
    case 4
    then have "Suc n mod 4 = 0" "Suc n div 4 = n div 4 + 1" by presburger+
    then show ?thesis using Suc 4 by (simp add: step next_u32_def Let_def)
  next
    case 2
    then have "Suc n mod 4 = 2" "Suc n div 4 = n div 4" by presburger+
    then show ?thesis using Suc 2 by (simp add: step next_u32_def Let_def)
  next
    case 3
    then have "Suc n mod 4 = 3" "Suc n div 4 = n div 4" by presburger+
    then show ?thesis using Suc 3 by (simp add: step next_u32_def Let_def)
  qed
qed

lemma drawn_word:
  "fst (next_u32 (drawn seed n)) = quad_nth (philox_block seed (n div 4)) (n mod 4)"
  using drawn_state [of seed n]
  by (auto simp: next_u32_def fill_buffer_def Let_def philox_block_def split: if_splits)

text \<open>C23. The generator is counter based: the n-th word drawn from a seed is word \<open>n mod 4\<close> of the
  block of the number \<open>n div 4\<close>, whatever was drawn before, and within the first \<open>2 ^ 128\<close> blocks
  of a seed no block occurs twice.\<close>
theorem philox_counter_based:
  "fst (next_u32 (drawn seed n)) = quad_nth (philox_block seed (n div 4)) (n mod 4) \<and>
   inj_on (philox_block seed) {..< 2 ^ 128}"
  using drawn_word philox_block_inj by (auto simp: inj_on_def) (metis mod_less)

end
