(* ===== verification/Floats.thy ===== *)
theory Floats
  imports Complex_Main
begin

text \<open>
  Single-precision arithmetic as a parameter: the operations the modelled code uses, and the
  facts about zero and one that hold of them exactly in IEEE arithmetic. Real numbers are an
  instance.
\<close>

record 'f arith =
  fl_lit :: "rat \<Rightarrow> 'f"
  fl_of_nat :: "nat \<Rightarrow> 'f"
  fl_add :: "'f \<Rightarrow> 'f \<Rightarrow> 'f"
  fl_sub :: "'f \<Rightarrow> 'f \<Rightarrow> 'f"
  fl_mul :: "'f \<Rightarrow> 'f \<Rightarrow> 'f"
  fl_div :: "'f \<Rightarrow> 'f \<Rightarrow> 'f"
  fl_max :: "'f \<Rightarrow> 'f \<Rightarrow> 'f"
  fl_min :: "'f \<Rightarrow> 'f \<Rightarrow> 'f"
  fl_lt :: "'f \<Rightarrow> 'f \<Rightarrow> bool"
  fl_le :: "'f \<Rightarrow> 'f \<Rightarrow> bool"
  fl_ln :: "'f \<Rightarrow> 'f"
  fl_sqrt :: "'f \<Rightarrow> 'f"
  fl_min_positive :: 'f

abbreviation fl_zero :: "'f arith \<Rightarrow> 'f" where "fl_zero A \<equiv> fl_lit A 0"
abbreviation fl_one :: "'f arith \<Rightarrow> 'f" where "fl_one A \<equiv> fl_lit A 1"

text \<open>\<open>iter().sum()\<close>, and a draw of 24 bits as a number below one.\<close>

definition fl_sum :: "'f arith \<Rightarrow> 'f list \<Rightarrow> 'f" where
  "fl_sum A xs = foldl (fl_add A) (fl_zero A) xs"

definition fl_unit :: "'f arith \<Rightarrow> nat \<Rightarrow> 'f" where
  "fl_unit A k = fl_div A (fl_of_nat A k) (fl_of_nat A (2 ^ 24))"

locale float_laws =
  fixes A :: "'f arith"
  assumes zero_one: "fl_zero A \<noteq> fl_one A"
    and add: "fl_add A (fl_zero A) (fl_zero A) = fl_zero A"
      "fl_add A (fl_zero A) (fl_one A) = fl_one A" "fl_add A (fl_one A) (fl_zero A) = fl_one A"
    and sub: "fl_sub A (fl_one A) (fl_zero A) = fl_one A" "fl_sub A (fl_zero A) (fl_zero A) = fl_zero A"
      "fl_sub A (fl_one A) (fl_one A) = fl_zero A"
      "fl_max A (fl_sub A (fl_zero A) (fl_one A)) (fl_zero A) = fl_zero A"
    and mul: "fl_mul A (fl_zero A) (fl_one A) = fl_zero A" "fl_mul A (fl_one A) (fl_one A) = fl_one A"
      "fl_mul A (fl_unit A k) (fl_one A) = fl_unit A k"
    and div: "fl_div A (fl_one A) (fl_one A) = fl_one A" "fl_div A (fl_zero A) (fl_one A) = fl_zero A"
      "fl_div A (fl_zero A) (fl_min_positive A) = fl_zero A"
      "fl_min A (fl_div A (fl_one A) (fl_min_positive A)) (fl_one A) = fl_one A"
    and max_min: "fl_max A (fl_zero A) (fl_min_positive A) = fl_min_positive A"
      "fl_max A (fl_one A) (fl_min_positive A) = fl_one A"
      "fl_max A (fl_zero A) (fl_zero A) = fl_zero A" "fl_max A (fl_one A) (fl_zero A) = fl_one A"
      "fl_min A (fl_one A) (fl_one A) = fl_one A" "fl_min A (fl_zero A) (fl_one A) = fl_zero A"
    and order: "fl_le A (fl_zero A) (fl_min_positive A)" "\<not> fl_le A (fl_one A) (fl_min_positive A)"
      "fl_lt A (fl_min_positive A) (fl_one A)" "fl_lt A (fl_zero A) (fl_one A)"
      "\<not> fl_lt A (fl_zero A) (fl_zero A)"
    and draws: "k < 2 ^ 24 \<Longrightarrow> fl_lt A (fl_unit A k) (fl_one A)"
      "k < 2 ^ 24 \<Longrightarrow> fl_le A (fl_unit A k) (fl_one A)" "\<not> fl_lt A (fl_unit A k) (fl_zero A)"
      "fl_le A (fl_unit A k) (fl_zero A) \<longleftrightarrow> k = 0"

definition real_arith :: "real arith" where
  "real_arith = \<lparr>fl_lit = of_rat, fl_of_nat = of_nat, fl_add = (+), fl_sub = (-), fl_mul = (*),
     fl_div = (/), fl_max = max, fl_min = min, fl_lt = (<), fl_le = (\<le>), fl_ln = ln, fl_sqrt = sqrt,
     fl_min_positive = 1 / 2 ^ 126\<rparr>"

interpretation reals: float_laws real_arith
  by unfold_locales (auto simp: real_arith_def fl_unit_def min_def max_def field_simps)

lemma real_ops [simp]:
  "fl_lit real_arith = of_rat" "fl_of_nat real_arith = of_nat" "fl_add real_arith = (+)"
  "fl_sub real_arith = (-)" "fl_mul real_arith = (*)" "fl_div real_arith = (/)"
  "fl_max real_arith = max" "fl_min real_arith = min" "fl_lt real_arith = (<)"
  "fl_le real_arith = (\<le>)" "fl_min_positive real_arith = 1 / 2 ^ 126"
  by (simp_all add: real_arith_def)

end
