(* ===== verification/SpecDecode.thy ===== *)
theory SpecDecode
  imports Philox Floats
begin

text \<open>
  Speculative decoding (\<open>crates/core/rlx-runtime/src/spec_decode.rs\<close>): acceptance of drafted
  tokens against dense and sparse target distributions, and the decoder's step. A token is a
  natural, an index into the rows of probabilities; single precision is the parameter \<open>A\<close>.
  The two models are records of functions on states of their own.
\<close>

type_synonym token = nat
type_synonym 'a checked = "(unit, 'a) outcome"

section \<open>Data\<close>

record 'f draft_proposal =
  dp_tokens :: "token list"
  dp_probs :: "'f list list"

record 'f verify_result =
  vr_probs :: "'f list list"

record accept_decision =
  ad_accepted :: "token list"
  ad_corrected :: "token option"

definition total_tokens :: "accept_decision \<Rightarrow> nat" where
  "total_tokens d = length (ad_accepted d) + (if ad_corrected d \<noteq> None then 1 else 0)"

record ('m, 'f) speculator =
  sp_propose :: "token list \<Rightarrow> nat \<Rightarrow> 'm \<Rightarrow> 'f draft_proposal \<times> 'm"
  sp_verify :: "token list \<Rightarrow> token list \<Rightarrow> 'm \<Rightarrow> 'f verify_result \<times> 'm"
  sp_commit :: "token list \<Rightarrow> token list \<Rightarrow> 'm \<Rightarrow> 'm"

section \<open>Sampling\<close>

definition next_f32 :: "'f arith \<Rightarrow> philox \<Rightarrow> 'f \<times> philox" where
  "next_f32 A g = (case next_bits g of (k, g') \<Rightarrow> (fl_unit A k, g'))"

text \<open>The loop of \<open>sample_from\<close> from position \<open>i\<close> with the mass \<open>acc\<close> before it; behind the last
  position, \<open>None\<close>.\<close>

fun sample_scan :: "'f arith \<Rightarrow> 'f \<Rightarrow> 'f \<Rightarrow> nat \<Rightarrow> 'f list \<Rightarrow> nat option" where
  "sample_scan A r acc i [] = None"
| "sample_scan A r acc i (p # ps) =
     (let acc = fl_add A acc p in
      if fl_le A r acc then Some i else sample_scan A r acc (Suc i) ps)"

definition sample_from :: "'f arith \<Rightarrow> 'f list \<Rightarrow> philox \<Rightarrow> (token \<times> philox) checked" where
  "sample_from A probs g =
     (case next_f32 A g of (r, g') \<Rightarrow>
        case sample_scan A r (fl_zero A) 0 probs of
          Some i \<Rightarrow> Ok (i, g')
        | None \<Rightarrow> if probs = [] then Panic else Ok (length probs - 1, g'))"

definition sample_corrected_residual ::
  "'f arith \<Rightarrow> 'f list \<Rightarrow> 'f list \<Rightarrow> philox \<Rightarrow> (token \<times> philox) checked" where
  "sample_corrected_residual A p q g =
     (let adj = map2 (\<lambda>qi pi. fl_max A (fl_sub A qi pi) (fl_zero A)) q p;
          total = fl_sum A adj
      in if fl_le A total (fl_min_positive A) then sample_from A q g
         else let inv = fl_div A (fl_one A) total
              in sample_from A (map (\<lambda>v. fl_mul A v inv) adj) g)"

section \<open>Dense acceptance\<close>

fun accept_scan ::
  "'f arith \<Rightarrow> (token \<times> 'f list \<times> 'f list) list \<Rightarrow> token list \<Rightarrow> philox
   \<Rightarrow> (accept_decision \<times> philox) checked" where
  "accept_scan A [] accepted g = Ok (\<lparr>ad_accepted = accepted, ad_corrected = None\<rparr>, g)"
| "accept_scan A ((token, prow, qrow) # rest) accepted g =
     bind_outcome (index_or_panic prow token) (\<lambda>p0.
     bind_outcome (index_or_panic qrow token) (\<lambda>q.
       let p = fl_max A p0 (fl_min_positive A);
           accept_ratio = fl_min A (fl_div A q p) (fl_one A)
       in case next_f32 A g of (r, g1) \<Rightarrow>
         if fl_lt A r accept_ratio then accept_scan A rest (accepted @ [token]) g1
         else bind_outcome (sample_corrected_residual A prow qrow g1) (\<lambda>(corrected, g2).
           Ok (\<lparr>ad_accepted = accepted, ad_corrected = Some corrected\<rparr>, g2))))"

definition speculative_accept ::
  "'f arith \<Rightarrow> 'f draft_proposal \<Rightarrow> 'f verify_result \<Rightarrow> philox \<Rightarrow> (accept_decision \<times> philox) checked"
where
  "speculative_accept A proposal verified g =
     (if length (dp_tokens proposal) \<noteq> length (dp_probs proposal) then Panic
      else if length (dp_probs proposal) \<noteq> length (vr_probs verified) then Panic
      else accept_scan A (zip (dp_tokens proposal) (zip (dp_probs proposal) (vr_probs verified))) [] g)"

section \<open>Sparse acceptance\<close>

record 'f sparse_dist =
  sd_ids :: "token list"
  sd_probs :: "'f list"

definition prob_of :: "'f arith \<Rightarrow> 'f sparse_dist \<Rightarrow> token \<Rightarrow> 'f" where
  "prob_of A d t = fl_sum A (map snd (filter (\<lambda>p. fst p = t) (zip (sd_ids d) (sd_probs d))))"

definition sample_sparse :: "'f arith \<Rightarrow> 'f sparse_dist \<Rightarrow> philox \<Rightarrow> (token \<times> philox) checked" where
  "sample_sparse A d g =
     (if sd_ids d = [] then Panic
      else let total = fl_sum A (sd_probs d) in
        bind_outcome
          (if fl_lt A (fl_min_positive A) total
           then let inv = fl_div A (fl_one A) total
                in sample_from A (map (\<lambda>v. fl_mul A v inv) (sd_probs d)) g
           else Ok (0, g)) (\<lambda>(i, g').
        bind_outcome (index_or_panic (sd_ids d) i) (\<lambda>t. Ok (t, g'))))"

definition sample_residual_sparse ::
  "'f arith \<Rightarrow> 'f sparse_dist \<Rightarrow> 'f sparse_dist \<Rightarrow> philox \<Rightarrow> (token \<times> philox) checked" where
  "sample_residual_sparse A draft target g =
     (let residual = map2 (\<lambda>t p. fl_max A (fl_sub A p (prob_of A draft t)) (fl_zero A))
            (sd_ids target) (sd_probs target);
          total = fl_sum A residual
      in if fl_le A total (fl_min_positive A) then sample_sparse A target g
         else let inv = fl_div A (fl_one A) total in
           bind_outcome (sample_from A (map (\<lambda>v. fl_mul A v inv) residual) g) (\<lambda>(i, g').
           bind_outcome (index_or_panic (sd_ids target) i) (\<lambda>t. Ok (t, g'))))"

fun accept_scan_sparse ::
  "'f arith \<Rightarrow> (token \<times> 'f sparse_dist \<times> 'f sparse_dist) list \<Rightarrow> 'f sparse_dist \<Rightarrow> token list
   \<Rightarrow> philox \<Rightarrow> (accept_decision \<times> philox) checked" where
  "accept_scan_sparse A [] bonus accepted g =
     bind_outcome (sample_sparse A bonus g) (\<lambda>(corrected, g').
       Ok (\<lparr>ad_accepted = accepted, ad_corrected = Some corrected\<rparr>, g'))"
| "accept_scan_sparse A ((token, proposed, target) # rest) bonus accepted g =
     (let q = prob_of A proposed token; p = prob_of A target token;
          (keep, g1) = (if fl_lt A (fl_zero A) q
                        then (case next_f32 A g of (u, g') \<Rightarrow> (fl_le A (fl_mul A u q) p, g'))
                        else (False, g))
      in if keep then accept_scan_sparse A rest bonus (accepted @ [token]) g1
         else bind_outcome (sample_residual_sparse A proposed target g1) (\<lambda>(corrected, g2).
           Ok (\<lparr>ad_accepted = accepted, ad_corrected = Some corrected\<rparr>, g2)))"

definition speculative_accept_sparse ::
  "'f arith \<Rightarrow> token list \<Rightarrow> 'f sparse_dist list \<Rightarrow> 'f sparse_dist list \<Rightarrow> philox
   \<Rightarrow> (accept_decision \<times> philox) checked" where
  "speculative_accept_sparse A draft dists target g =
     (if length draft \<noteq> length dists then Panic
      else if length target \<noteq> length draft + 1 then Panic
      else accept_scan_sparse A (zip draft (zip dists target)) (target ! length draft) [] g)"

section \<open>The decoder\<close>

record ('d, 't) spec_decoder =
  dec_draft :: 'd
  dec_target :: 't
  dec_n :: nat
  dec_rng :: philox

definition spec_new :: "'d \<Rightarrow> 't \<Rightarrow> nat \<Rightarrow> 64 word \<Rightarrow> ('d, 't) spec_decoder" where
  "spec_new draft target n seed =
     \<lparr>dec_draft = draft, dec_target = target, dec_n = n, dec_rng = philox_new seed\<rparr>"

definition emitted :: "accept_decision \<Rightarrow> token list" where
  "emitted d = ad_accepted d @ (case ad_corrected d of Some c \<Rightarrow> [c] | None \<Rightarrow> [])"

definition spec_step ::
  "'f arith \<Rightarrow> ('d, 'f) speculator \<Rightarrow> ('t, 'f) speculator \<Rightarrow> token list \<Rightarrow> ('d, 't) spec_decoder
   \<Rightarrow> (token list \<times> ('d, 't) spec_decoder) checked" where
  "spec_step A D T context s =
     (case sp_propose D context (dec_n s) (dec_draft s) of (proposal, draft) \<Rightarrow>
      case sp_verify T context (dp_tokens proposal) (dec_target s) of (verified, target) \<Rightarrow>
      bind_outcome (speculative_accept A proposal verified (dec_rng s)) (\<lambda>(decision, rng).
        let out = emitted decision in
        Ok (out, s\<lparr>dec_draft := sp_commit D context out draft,
                    dec_target := sp_commit T context out target, dec_rng := rng\<rparr>)))"

end
