(* ===== verification/SpecLaws.thy ===== *)
theory SpecLaws
  imports SpecDecode
begin

text \<open>
  With a target that puts all mass on one token, speculative decoding emits what greedy
  decoding with the target emits, unless the generator draws a zero.
\<close>

section \<open>Greedy models\<close>

definition one_hot :: "'f arith \<Rightarrow> nat \<Rightarrow> token \<Rightarrow> 'f list" where
  "one_hot A V t = map (\<lambda>i. if i = t then fl_one A else fl_zero A) [0..<V]"

definition binary_row :: "'f arith \<Rightarrow> nat \<Rightarrow> 'f list \<Rightarrow> bool" where
  "binary_row A V p \<longleftrightarrow> length p = V \<and> set p \<subseteq> {fl_zero A, fl_one A}"

text \<open>The continuation of a context under a greedy model, and the rows of its verification.\<close>

fun greedy :: "(token list \<Rightarrow> token) \<Rightarrow> token list \<Rightarrow> nat \<Rightarrow> token list" where
  "greedy f ctx 0 = []"
| "greedy f ctx (Suc n) = f ctx # greedy f (ctx @ [f ctx]) n"

fun target_rows :: "'f arith \<Rightarrow> nat \<Rightarrow> (token list \<Rightarrow> token) \<Rightarrow> token list \<Rightarrow> token list \<Rightarrow> 'f list list" where
  "target_rows A V f ctx [] = []"
| "target_rows A V f ctx (t # ts) = one_hot A V (f ctx) # target_rows A V f (ctx @ [t]) ts"

definition one_sparse :: "'f arith \<Rightarrow> token \<Rightarrow> 'f sparse_dist" where
  "one_sparse A t = \<lparr>sd_ids = [t], sd_probs = [fl_one A]\<rparr>"

fun sparse_rows :: "'f arith \<Rightarrow> (token list \<Rightarrow> token) \<Rightarrow> token list \<Rightarrow> token list \<Rightarrow> 'f sparse_dist list" where
  "sparse_rows A f ctx [] = [one_sparse A (f ctx)]"
| "sparse_rows A f ctx (t # ts) = one_sparse A (f ctx) # sparse_rows A f (ctx @ [t]) ts"

definition binary_dist :: "'f arith \<Rightarrow> 'f sparse_dist \<Rightarrow> bool" where
  "binary_dist A d \<longleftrightarrow> (\<forall>u. prob_of A d u = fl_zero A \<or> prob_of A d u = fl_one A)"

fun nonzero_draws :: "philox \<Rightarrow> nat \<Rightarrow> bool" where
  "nonzero_draws g 0 = True"
| "nonzero_draws g (Suc n) \<longleftrightarrow> fst (next_bits g) \<noteq> 0 \<and> nonzero_draws (snd (next_bits g)) n"

lemma nonzero_draws_mono: "nonzero_draws g n \<Longrightarrow> m \<le> n \<Longrightarrow> nonzero_draws g m"
proof (induction g n arbitrary: m rule: nonzero_draws.induct)
  case (2 g n)
  then show ?case by (cases m) auto
qed simp

lemma next_f32_eq: "next_f32 A g = (fl_unit A (fst (next_bits g)), snd (next_bits g))"
  by (simp add: next_f32_def split_beta)

lemma one_hot_split:
  "t < V \<Longrightarrow> one_hot A V t = replicate t (fl_zero A) @ fl_one A # replicate (V - t - 1) (fl_zero A)"
  by (rule nth_equalityI) (auto simp: one_hot_def nth_append nth_Cons')

lemma length_one_hot [simp]: "length (one_hot A V t) = V"
  by (simp add: one_hot_def)

lemma length_target_rows [simp]: "length (target_rows A V f ctx ts) = length ts"
  by (induction ts arbitrary: ctx) simp_all

lemma binary_row_nth:
  assumes "binary_row A V p" and "i < V"
  shows "p ! i = fl_zero A \<or> p ! i = fl_one A"
proof -
  have "p ! i \<in> {fl_zero A, fl_one A}"
    using assms nth_mem [of i p] unfolding binary_row_def by blast
  then show ?thesis by simp
qed

lemma sparse_rows_length [simp]: "length (sparse_rows A f ctx ts) = length ts + 1"
  by (induction ts arbitrary: ctx) simp_all

lemma sparse_rows_bonus: "sparse_rows A f ctx ts ! length ts = one_sparse A (f (ctx @ ts))"
  by (induction ts arbitrary: ctx) simp_all

section \<open>Sampling from a row with one token\<close>

context float_laws
begin

lemma foldl_zeros:
  "a \<in> {fl_zero A, fl_one A} \<Longrightarrow> foldl (fl_add A) a (replicate n (fl_zero A)) = a"
  by (induction n) (auto simp: add)

lemma sum_zeros: "fl_sum A (replicate n (fl_zero A)) = fl_zero A"
  by (simp add: fl_sum_def foldl_zeros)

lemma sum_one_hot: "t < V \<Longrightarrow> fl_sum A (one_hot A V t) = fl_one A"
  by (simp add: fl_sum_def one_hot_split foldl_zeros add)

lemma scan_to_one:
  "\<not> fl_le A r (fl_zero A) \<or> n = 0 \<Longrightarrow> fl_le A r (fl_one A) \<Longrightarrow>
   sample_scan A r (fl_zero A) i (replicate n (fl_zero A) @ fl_one A # ps) = Some (i + n)"
  by (induction n arbitrary: i) (auto simp: add)

lemma sample_one_hot:
  assumes "t < V" and "fst (next_bits g) \<noteq> 0"
  shows "sample_from A (one_hot A V t) g = Ok (t, snd (next_bits g))"
proof -
  have "sample_scan A (fl_unit A (fst (next_bits g))) (fl_zero A) 0 (one_hot A V t) = Some (0 + t)"
    unfolding one_hot_split [OF assms(1)]
    by (rule scan_to_one) (use assms(2) draws next_bits_bound [of g] in auto)
  then show ?thesis by (simp add: sample_from_def next_f32_eq)
qed

lemma times_one: "set xs \<subseteq> {fl_zero A, fl_one A} \<Longrightarrow> map (\<lambda>v. fl_mul A v (fl_one A)) xs = xs"
  by (induction xs) (auto simp: mul)

lemma residual_row:
  assumes "binary_row A V p" and "t < V"
  shows "map2 (\<lambda>qi pi. fl_max A (fl_sub A qi pi) (fl_zero A)) (one_hot A V t) p =
    (if p ! t = fl_one A then replicate V (fl_zero A) else one_hot A V t)"
proof (rule nth_equalityI)
  show "length (map2 (\<lambda>qi pi. fl_max A (fl_sub A qi pi) (fl_zero A)) (one_hot A V t) p) =
      length (if p ! t = fl_one A then replicate V (fl_zero A) else one_hot A V t)"
    using assms by (simp add: binary_row_def)
next
  fix i assume "i < length (map2 (\<lambda>qi pi. fl_max A (fl_sub A qi pi) (fl_zero A)) (one_hot A V t) p)"
  then have i: "i < V" using assms(1) by (simp add: binary_row_def)
  from binary_row_nth [OF assms(1) i] binary_row_nth [OF assms]
  show "map2 (\<lambda>qi pi. fl_max A (fl_sub A qi pi) (fl_zero A)) (one_hot A V t) p ! i =
      (if p ! t = fl_one A then replicate V (fl_zero A) else one_hot A V t) ! i"
    using assms i zero_one by (auto simp: binary_row_def one_hot_def sub max_min)
qed

lemma residual_one_hot:
  assumes "binary_row A V p" and "t < V" and "fst (next_bits g) \<noteq> 0"
  shows "sample_corrected_residual A p (one_hot A V t) g = Ok (t, snd (next_bits g))"
proof -
  have "set (one_hot A V t) \<subseteq> {fl_zero A, fl_one A}" by (auto simp: one_hot_def)
  note one = times_one [OF this]
  show ?thesis
    using sample_one_hot [OF assms(2,3)]
    by (simp add: sample_corrected_residual_def residual_row [OF assms(1,2)] sum_zeros
        sum_one_hot [OF assms(2)] order div one)
qed

section \<open>Dense acceptance\<close>

text \<open>A token is accepted exactly when it is the target's.\<close>

lemma ratio_one_hot:
  assumes "binary_row A V p" and "token < V"
  shows "fl_min A (fl_div A (one_hot A V t ! token) (fl_max A (p ! token) (fl_min_positive A))) (fl_one A) =
    (if token = t then fl_one A else fl_zero A)"
proof -
  have "p ! token = fl_zero A \<or> p ! token = fl_one A" by (rule binary_row_nth [OF assms])
  then show ?thesis using assms(2) by (auto simp: one_hot_def max_min div)
qed

lemma accept_greedy:
  assumes "\<forall>t \<in> set ts. t < V" and "length ps = length ts" and "\<forall>p \<in> set ps. binary_row A V p"
    and f: "\<And>c. f c < V" and "nonzero_draws g (length ts + 1)"
  shows "\<exists>d g' out. accept_scan A (zip ts (zip ps (target_rows A V f ctx ts))) acc g = Ok (d, g') \<and>
    emitted d = acc @ out \<and> out = greedy f ctx (length out) \<and> length out \<le> length ts \<and>
    (ts \<noteq> [] \<longrightarrow> out \<noteq> [])"
  using assms(1-3,5)
proof (induction ts arbitrary: ps ctx acc g)
  case Nil
  then show ?case by (simp add: emitted_def)
next
  case (Cons t ts)
  obtain p ps' where ps: "ps = p # ps'" using Cons.prems(2) by (cases ps) auto
  let ?g = "snd (next_bits g)"
  have row: "binary_row A V p" and t: "t < V" using Cons.prems ps by auto
  have draw: "fst (next_bits g) < 2 ^ 24" "fst (next_bits ?g) \<noteq> 0" "nonzero_draws ?g (length ts + 1)"
    using next_bits_bound Cons.prems(4) by auto
  have len: "length p = V" using row by (simp add: binary_row_def)
  show ?case
  proof (cases "t = f ctx")
    case True
    obtain d g' out where IH: "accept_scan A (zip ts (zip ps' (target_rows A V f (ctx @ [t]) ts)))
        (acc @ [t]) ?g = Ok (d, g')" "emitted d = (acc @ [t]) @ out"
        "out = greedy f (ctx @ [t]) (length out)" "length out \<le> length ts"
      using Cons.IH [of ps' ?g "ctx @ [t]" "acc @ [t]"] Cons.prems ps draw(3) by auto
    have "accept_scan A (zip (t # ts) (zip ps (target_rows A V f ctx (t # ts)))) acc g = Ok (d, g')"
      using IH(1) True t len draws(1) [OF draw(1)] ratio_one_hot [OF row t, of "f ctx"]
      by (simp add: ps Let_def next_f32_eq)
    moreover have "t # out = greedy f ctx (length (t # out))" using IH(3) True by simp
    ultimately show ?thesis using IH(2,4) by (intro exI [of _ d] exI [of _ g'] exI [of _ "t # out"]) simp
  next
    case False
    have "accept_scan A (zip (t # ts) (zip ps (target_rows A V f ctx (t # ts)))) acc g =
        Ok (\<lparr>ad_accepted = acc, ad_corrected = Some (f ctx)\<rparr>, snd (next_bits ?g))"
      using False t len draws(3) ratio_one_hot [OF row t, of "f ctx"]
        residual_one_hot [OF row f draw(2)]
      by (simp add: ps Let_def next_f32_eq)
    then show ?thesis by (simp add: emitted_def)
  qed
qed

section \<open>Sparse acceptance\<close>

lemma prob_of_one: "prob_of A (one_sparse A t) u = (if u = t then fl_one A else fl_zero A)"
  by (simp add: prob_of_def one_sparse_def fl_sum_def add)

lemma sparse_one:
  "fst (next_bits g) \<noteq> 0 \<Longrightarrow> sample_from A [fl_one A] g = Ok (0, snd (next_bits g))"
  using sample_one_hot [of 0 1 g] by (simp add: one_hot_def)

lemma sample_sparse_one:
  "fst (next_bits g) \<noteq> 0 \<Longrightarrow> sample_sparse A (one_sparse A t) g = Ok (t, snd (next_bits g))"
  by (simp add: sample_sparse_def one_sparse_def fl_sum_def add order div mul sparse_one)

lemma residual_sparse_one:
  assumes "binary_dist A d" and "fst (next_bits g) \<noteq> 0"
  shows "sample_residual_sparse A d (one_sparse A t) g = Ok (t, snd (next_bits g))"
proof -
  have "prob_of A d t = fl_zero A \<or> prob_of A d t = fl_one A"
    using assms(1) by (simp add: binary_dist_def)
  then show ?thesis
    using sample_sparse_one [OF assms(2), of t] sparse_one [OF assms(2)] zero_one
    by (auto simp: sample_residual_sparse_def one_sparse_def fl_sum_def add sub max_min order div mul)
qed

lemma accept_sparse_greedy:
  assumes "length ds = length ts" and "\<forall>d \<in> set ds. binary_dist A d"
    and "nonzero_draws g (length ts + 1)"
  shows "\<exists>d g'. accept_scan_sparse A (zip ts (zip ds (sparse_rows A f ctx ts)))
      (one_sparse A (f (ctx @ ts))) acc g = Ok (d, g') \<and>
    (\<exists>n \<le> length ts. emitted d = acc @ greedy f ctx (n + 1))"
  using assms
proof (induction ts arbitrary: ds ctx acc g)
  case Nil
  then show ?case by (simp add: sample_sparse_one emitted_def)
next
  case (Cons t ts)
  obtain d ds' where ds: "ds = d # ds'" using Cons.prems(1) by (cases ds) auto
  have d: "binary_dist A d" using Cons.prems(2) ds by simp
  then consider "prob_of A d t = fl_zero A" | "prob_of A d t = fl_one A" by (auto simp: binary_dist_def)
  then show ?case
  proof cases
    case 1
    then show ?thesis using Cons.prems(3) residual_sparse_one [OF d, of g]
      by (auto simp: ds order emitted_def)
  next
    case 2
    let ?g = "snd (next_bits g)"
    have draw: "fst (next_bits g) < 2 ^ 24" "fst (next_bits g) \<noteq> 0" "fst (next_bits ?g) \<noteq> 0"
        "nonzero_draws ?g (length ts + 1)"
      using next_bits_bound Cons.prems(3) by auto
    show ?thesis
    proof (cases "t = f ctx")
      case True
      obtain d' g' n where "accept_scan_sparse A (zip ts (zip ds' (sparse_rows A f (ctx @ [t]) ts)))
          (one_sparse A (f ((ctx @ [t]) @ ts))) (acc @ [t]) ?g = Ok (d', g')" "n \<le> length ts"
          "emitted d' = (acc @ [t]) @ greedy f (ctx @ [t]) (n + 1)"
        using Cons.IH [of ds' ?g "ctx @ [t]" "acc @ [t]"] Cons.prems ds draw(4) by auto
      then show ?thesis using True 2 draws(2) [OF draw(1)]
        by (intro exI [of _ d'] exI [of _ g'])
          (auto simp: ds order next_f32_eq mul prob_of_one intro!: exI [of _ "Suc n"])
    next
      case False
      then show ?thesis using 2 draw(2) draws(4) residual_sparse_one [OF d draw(3)]
        by (auto simp: ds order next_f32_eq mul prob_of_one emitted_def intro!: exI [of _ 0])
    qed
  qed
qed

end

section \<open>The decoder\<close>

text \<open>What a greedy target verifies with, and what a draft may propose.\<close>

definition greedy_target ::
  "'f arith \<Rightarrow> nat \<Rightarrow> (token list \<Rightarrow> token) \<Rightarrow> ('t, 'f) speculator \<Rightarrow> bool" where
  "greedy_target A V f T \<longleftrightarrow> (\<forall>c. f c < V) \<and>
     (\<forall>ctx ts m. fst (sp_verify T ctx ts m) = \<lparr>vr_probs = target_rows A V f ctx ts\<rparr>)"

definition binary_draft :: "'f arith \<Rightarrow> nat \<Rightarrow> ('d, 'f) speculator \<Rightarrow> bool" where
  "binary_draft A V D \<longleftrightarrow> (\<forall>ctx n m. let p = fst (sp_propose D ctx n m) in
     length (dp_tokens p) \<le> n \<and> length (dp_probs p) = length (dp_tokens p) \<and>
     (\<forall>t \<in> set (dp_tokens p). t < V) \<and> (\<forall>row \<in> set (dp_probs p). binary_row A V row))"

lemma spec_step_greedy:
  assumes laws: "float_laws A" and T: "greedy_target A V f T" and D: "binary_draft A V D"
    and draws: "nonzero_draws (dec_rng s) (dec_n s + 1)"
  shows "\<exists>out s'. spec_step A D T ctx s = Ok (out, s') \<and> out = greedy f ctx (length out) \<and>
    length out \<le> dec_n s \<and>
    (dp_tokens (fst (sp_propose D ctx (dec_n s) (dec_draft s))) \<noteq> [] \<longrightarrow> out \<noteq> [])"
proof -
  obtain p draft where p: "sp_propose D ctx (dec_n s) (dec_draft s) = (p, draft)" by fastforce
  obtain v target where v: "sp_verify T ctx (dp_tokens p) (dec_target s) = (v, target)" by fastforce
  have pr: "length (dp_tokens p) \<le> dec_n s" "length (dp_probs p) = length (dp_tokens p)"
      "\<forall>t \<in> set (dp_tokens p). t < V" "\<forall>row \<in> set (dp_probs p). binary_row A V row"
    using D p unfolding binary_draft_def Let_def by (metis fst_conv)+
  have rows: "v = \<lparr>vr_probs = target_rows A V f ctx (dp_tokens p)\<rparr>" and f: "\<And>c. f c < V"
    using T v unfolding greedy_target_def by (metis fst_conv)+
  have nd: "nonzero_draws (dec_rng s) (length (dp_tokens p) + 1)"
    by (rule nonzero_draws_mono [OF draws]) (use pr(1) in simp)
  obtain d g' out where "accept_scan A (zip (dp_tokens p) (zip (dp_probs p)
        (target_rows A V f ctx (dp_tokens p)))) [] (dec_rng s) = Ok (d, g')"
      "emitted d = [] @ out" "out = greedy f ctx (length out)" "length out \<le> length (dp_tokens p)"
      "dp_tokens p \<noteq> [] \<longrightarrow> out \<noteq> []"
    using float_laws.accept_greedy [where f = f and ctx = ctx and acc = "[]",
        OF laws pr(3,2,4) f nd] by blast
  then show ?thesis
    using pr(1,2) by (simp add: spec_step_def p v rows speculative_accept_def Let_def)
qed

section \<open>Properties\<close>

text \<open>C20. With a target that verifies greedily and a draft whose rows are zeros and ones, a step
  of the decoder returns and emits a prefix of the target's own greedy continuation, not more
  than asked for and not nothing if the draft proposed anything; so drafting changes the speed
  and not the text. The draws of the step have to be non-zero.\<close>
theorem spec_decode_greedy:
  assumes "float_laws A" and "greedy_target A V f T" and "binary_draft A V D"
    and "nonzero_draws (dec_rng s) (dec_n s + 1)"
  shows "\<exists>out s'. spec_step A D T ctx s = Ok (out, s') \<and> out = greedy f ctx (length out) \<and>
    length out \<le> dec_n s \<and>
    (dp_tokens (fst (sp_propose D ctx (dec_n s) (dec_draft s))) \<noteq> [] \<longrightarrow> out \<noteq> [])"
  by (rule spec_step_greedy [OF assms])

text \<open>A target that counts and a draft that always proposes the tokens one and two.\<close>

definition counting_target :: "(unit, real) speculator" where
  "counting_target = \<lparr>sp_propose = (\<lambda>_ _ m. (\<lparr>dp_tokens = [], dp_probs = []\<rparr>, m)),
     sp_verify = (\<lambda>ctx ts m. (\<lparr>vr_probs = target_rows real_arith 3 (\<lambda>c. length c mod 3) ctx ts\<rparr>, m)),
     sp_commit = (\<lambda>_ _ m. m)\<rparr>"

definition fixed_draft :: "(unit, real) speculator" where
  "fixed_draft = \<lparr>sp_propose = (\<lambda>_ n m. (\<lparr>dp_tokens = take n [1, 2],
       dp_probs = take n [one_hot real_arith 3 1, one_hot real_arith 3 2]\<rparr>, m)),
     sp_verify = (\<lambda>_ _ m. (\<lparr>vr_probs = []\<rparr>, m)), sp_commit = (\<lambda>_ _ m. m)\<rparr>"

lemma one_hot_binary: "binary_row A V (one_hot A V t)"
  by (auto simp: binary_row_def one_hot_def)

definition buffered :: "quad \<Rightarrow> philox" where
  "buffered b = \<lparr>px_seed = (0, 0), px_counter = (0, 0, 0, 0), px_buffer = b, px_cursor = 0\<rparr>"

definition sample_rng :: philox where
  "sample_rng = buffered (0x80000000, 0x80000000, 0x80000000, 0)"

lemma sample_draws: "nonzero_draws sample_rng 3"
  by (simp add: sample_rng_def buffered_def next_bits_def next_u32_def numeral_3_eq_3)

theorem spec_decode_greedy_witness:
  "\<exists>out s'. spec_step real_arith fixed_draft counting_target [0] ((spec_new () () 2 42)\<lparr>dec_rng := sample_rng\<rparr>) = Ok (out, s') \<and>
    out = greedy (\<lambda>c. length c mod 3) [0] (length out) \<and> out \<noteq> []"
proof -
  have T: "greedy_target real_arith 3 (\<lambda>c. length c mod 3) counting_target"
    by (simp add: greedy_target_def counting_target_def)
  have D: "binary_draft real_arith 3 fixed_draft"
    by (auto simp: binary_draft_def fixed_draft_def take_Cons' one_hot_binary)
  have "nonzero_draws (dec_rng ((spec_new () () 2 42)\<lparr>dec_rng := sample_rng\<rparr>)) (dec_n ((spec_new () () 2 42)\<lparr>dec_rng := sample_rng\<rparr>) + 1)"
    using sample_draws by (simp add: spec_new_def)
  from spec_decode_greedy [OF reals.float_laws_axioms T D this, of "[0]"]
  show ?thesis by (auto simp: fixed_draft_def spec_new_def)
qed

text \<open>Sparse acceptance does the same with the bonus token: against target sets of one token
  it returns and emits at least one and at most one more token than drafted, those of the
  greedy continuation.\<close>
theorem spec_sparse_greedy:
  assumes "float_laws A" and "length ds = length ts" and "\<forall>d \<in> set ds. binary_dist A d"
    and "nonzero_draws g (length ts + 1)"
  shows "\<exists>d g'. speculative_accept_sparse A ts ds (sparse_rows A f ctx ts) g = Ok (d, g') \<and>
    (\<exists>n \<le> length ts. emitted d = greedy f ctx (n + 1))"
  using float_laws.accept_sparse_greedy [OF assms, where acc = "[]" and f = f and ctx = ctx] assms(2)
  by (simp add: speculative_accept_sparse_def sparse_rows_bonus)

theorem spec_sparse_greedy_witness:
  "\<exists>d g'. speculative_accept_sparse real_arith [1, 0]
      [one_sparse real_arith 1, one_sparse real_arith 0]
      (sparse_rows real_arith (\<lambda>c. length c mod 3) [0] [1, 0]) sample_rng = Ok (d, g') \<and>
    (\<exists>n \<le> 2. emitted d = greedy (\<lambda>c. length c mod 3) [0] (n + 1))"
proof -
  have "\<forall>d \<in> set [one_sparse real_arith 1, one_sparse real_arith 0]. binary_dist real_arith d"
    by (simp add: binary_dist_def reals.prob_of_one)
  moreover have "length [1 :: token, 0] + 1 = 3" by simp
  then have "nonzero_draws sample_rng (length [1 :: token, 0] + 1)"
    using sample_draws by (simp only:)
  moreover have "length [one_sparse real_arith 1, one_sparse real_arith 0] = length [1 :: token, 0]"
    by simp
  ultimately have "\<exists>d g'. speculative_accept_sparse real_arith [1, 0]
      [one_sparse real_arith 1, one_sparse real_arith 0]
      (sparse_rows real_arith (\<lambda>c. length c mod 3) [0] [1, 0]) sample_rng = Ok (d, g') \<and>
    (\<exists>n \<le> length [1 :: token, 0]. emitted d = greedy (\<lambda>c. length c mod 3) [0] (n + 1))"
    by (intro spec_sparse_greedy reals.float_laws_axioms)
  moreover have "length [1 :: token, 0] = 2" by simp
  ultimately show ?thesis by (simp only:)
qed


end
