(* ===== verification/OrtRng.thy ===== *)
theory OrtRng
  imports RlxPrelude Floats
begin

text \<open>
  The generator behind the ONNX Runtime mode of \<open>crates/core/rlx-ir/src/rng.rs\<close>: seeds,
  \<open>MinstdRand0\<close> and the polar method of \<open>StdNormalDist\<close>, which may loop.
\<close>

section \<open>Seeds\<close>

datatype rng_backend = PhiloxRng | OrtRng | BnnsRng | ZeroRng

record rng_options =
  ro_seed :: "64 word"
  ro_backend :: rng_backend

definition rng_default :: rng_options where
  "rng_default = \<lparr>ro_seed = 42, ro_backend = PhiloxRng\<rparr>"

definition combine_seed :: "64 word \<Rightarrow> 64 word \<Rightarrow> 64 word" where
  "combine_seed global key = global + key * 0x9E3779B97F4A7C15"

text \<open>The operator's own seed is given after the cast \<open>s as u32\<close>.\<close>

definition ort_engine_seed :: "64 word \<Rightarrow> 64 word \<Rightarrow> 32 word option \<Rightarrow> 32 word" where
  "ort_engine_seed global key op_seed =
     (case op_seed of Some s \<Rightarrow> s | None \<Rightarrow> ucast (global + key))"

section \<open>The engine\<close>

definition minstd_a :: nat where "minstd_a = 48271"
definition minstd_m :: nat where "minstd_m = 2147483647"

definition minstd_new :: "32 word \<Rightarrow> 32 word" where
  "minstd_new seed = seed mod of_nat minstd_m"

definition minstd_next :: "32 word \<Rightarrow> 32 word" where
  "minstd_next s = ucast ((ucast s * of_nat minstd_a :: 64 word) mod of_nat minstd_m)"

definition unit_f32 :: "'f arith \<Rightarrow> 32 word \<Rightarrow> 'f \<times> 32 word" where
  "unit_f32 A s = (let s' = minstd_next s in
     (fl_div A (fl_of_nat A (unat s')) (fl_of_nat A (minstd_m - 1)), s'))"

section \<open>The polar method\<close>

record 'f std_normal =
  sn_mean :: 'f
  sn_scale :: 'f
  sn_spare :: 'f
  sn_has_spare :: bool

definition std_normal_new :: "'f arith \<Rightarrow> 'f \<Rightarrow> 'f \<Rightarrow> 'f std_normal" where
  "std_normal_new A m sc = \<lparr>sn_mean = m, sn_scale = sc, sn_spare = fl_zero A, sn_has_spare = False\<rparr>"

text \<open>One turn of the loop: the two points and their norm.\<close>

definition polar_point :: "'f arith \<Rightarrow> 32 word \<Rightarrow> ('f \<times> 'f \<times> 'f) \<times> 32 word" where
  "polar_point A eng =
     (case unit_f32 A eng of (x1, eng1) \<Rightarrow> case unit_f32 A eng1 of (x2, eng2) \<Rightarrow>
       let u1 = fl_sub A (fl_mul A (fl_lit A 2) x1) (fl_one A);
           u2 = fl_sub A (fl_mul A (fl_lit A 2) x2) (fl_one A)
       in ((u1, u2, fl_add A (fl_mul A u1 u1) (fl_mul A u2 u2)), eng2))"

partial_function (option) polar_loop :: "'f arith \<Rightarrow> 32 word \<Rightarrow> (('f \<times> 'f \<times> 'f) \<times> 32 word) option" where
  "polar_loop A eng =
     (case polar_point A eng of ((u1, u2, s), eng') \<Rightarrow>
        if fl_le A (fl_one A) s \<or> s = fl_zero A then polar_loop A eng'
        else Some ((u1, u2, s), eng'))"

definition std_normal_sample ::
  "'f arith \<Rightarrow> 'f std_normal \<Rightarrow> 32 word \<Rightarrow> ('f \<times> 'f std_normal \<times> 32 word) option" where
  "std_normal_sample A d eng =
     (if sn_has_spare d then Some (sn_spare d, d\<lparr>sn_has_spare := False\<rparr>, eng)
      else case polar_loop A eng of
        None \<Rightarrow> None
      | Some ((u1, u2, s), eng') \<Rightarrow>
          (let factor = fl_sqrt A (fl_div A (fl_mul A (fl_lit A (- 2)) (fl_ln A s)) s) in
           Some (fl_add A (fl_mul A (fl_mul A u1 factor) (sn_scale d)) (sn_mean d),
             d\<lparr>sn_spare := fl_add A (fl_mul A (fl_mul A u2 factor) (sn_scale d)) (sn_mean d),
               sn_has_spare := True\<rparr>, eng')))"

text \<open>\<open>fill_normal_like\<close> and \<open>fill_uniform_like\<close> in this mode, for \<open>n\<close> elements.\<close>

fun normal_samples ::
  "'f arith \<Rightarrow> nat \<Rightarrow> 'f std_normal \<Rightarrow> 32 word \<Rightarrow> 'f list option" where
  "normal_samples A 0 d eng = Some []"
| "normal_samples A (Suc n) d eng =
     (case std_normal_sample A d eng of
        None \<Rightarrow> None
      | Some (v, d', eng') \<Rightarrow> map_option ((#) v) (normal_samples A n d' eng'))"

definition fill_normal_ort ::
  "'f arith \<Rightarrow> nat \<Rightarrow> 'f \<Rightarrow> 'f \<Rightarrow> rng_options \<Rightarrow> 64 word \<Rightarrow> 32 word option \<Rightarrow> 'f list option" where
  "fill_normal_ort A n m sc opts key op_seed =
     normal_samples A n (std_normal_new A m sc) (minstd_new (ort_engine_seed (ro_seed opts) key op_seed))"

fun uniform_samples :: "'f arith \<Rightarrow> nat \<Rightarrow> 'f \<Rightarrow> 'f \<Rightarrow> 32 word \<Rightarrow> 'f list" where
  "uniform_samples A 0 low high eng = []"
| "uniform_samples A (Suc n) low high eng =
     (case unit_f32 A eng of (x, eng') \<Rightarrow>
        fl_add A low (fl_mul A (fl_sub A high low) x) # uniform_samples A n low high eng')"

definition fill_uniform_ort ::
  "'f arith \<Rightarrow> nat \<Rightarrow> 'f \<Rightarrow> 'f \<Rightarrow> rng_options \<Rightarrow> 64 word \<Rightarrow> 32 word option \<Rightarrow> 'f list" where
  "fill_uniform_ort A n low high opts key op_seed =
     uniform_samples A n low high (minstd_new (ort_engine_seed (ro_seed opts) key op_seed))"

section \<open>The orbit of the engine\<close>

lemma minstd_next_value: "unat (minstd_next s) = unat s * minstd_a mod minstd_m"
proof -
  have b: "unat s < 2 ^ 32" using unsigned_less [of s, where ?'a = nat] by simp
  have up: "unat (ucast s :: 64 word) = unat s"
    using b by (simp only: unsigned_ucast_eq) (simp add: take_bit_nat_eq_self)
  have a: "unat (of_nat minstd_a :: 64 word) = minstd_a" "unat (of_nat minstd_m :: 64 word) = minstd_m"
    by (simp_all add: minstd_a_def minstd_m_def)
  have "unat s * minstd_a < 2 ^ 32 * 2 ^ 32"
    by (rule mult_strict_mono) (use b in \<open>auto simp: minstd_a_def\<close>)
  then have "unat (ucast s * of_nat minstd_a :: 64 word) = unat s * minstd_a"
    by (simp only: unat_word_ariths(2) up a) simp
  then have m: "unat ((ucast s * of_nat minstd_a :: 64 word) mod of_nat minstd_m) =
      unat s * minstd_a mod minstd_m"
    by (simp only: unat_mod_distrib a)
  have "unat s * minstd_a mod minstd_m < minstd_m" by (simp add: minstd_m_def)
  then have "unat s * minstd_a mod minstd_m < 2 ^ 32" by (simp add: minstd_m_def)
  then show ?thesis
    by (simp only: minstd_next_def unsigned_ucast_eq m) (simp add: take_bit_nat_eq_self)
qed

lemma minstd_next_zero: "minstd_next 0 = 0"
  by (rule unsigned_word_eqI [where ?'a = nat]) (simp add: minstd_next_value)

text \<open>The multiplier has an inverse modulo the modulus, so no other state leads to zero.\<close>

lemma minstd_next_nonzero:
  assumes "unat s mod minstd_m \<noteq> 0"
  shows "unat (minstd_next s) mod minstd_m \<noteq> 0"
proof
  assume "unat (minstd_next s) mod minstd_m = 0"
  then have z: "(unat s * minstd_a) mod minstd_m = 0" by (simp add: minstd_next_value)
  have inv: "minstd_a * 1899818559 mod minstd_m = 1" by (simp add: minstd_a_def minstd_m_def)
  have "unat s mod minstd_m = unat s * (minstd_a * 1899818559 mod minstd_m) mod minstd_m"
    by (simp only: inv mult_1_right)
  also have "\<dots> = unat s * (minstd_a * 1899818559) mod minstd_m" by (rule mod_mult_right_eq)
  also have "\<dots> = (unat s * minstd_a) * 1899818559 mod minstd_m" by (simp only: mult.assoc)
  also have "\<dots> = (unat s * minstd_a mod minstd_m) * 1899818559 mod minstd_m"
    by (rule mod_mult_left_eq [symmetric])
  finally show False using z assms by simp
qed

definition engine_after :: "32 word \<Rightarrow> nat \<Rightarrow> 32 word" where
  "engine_after seed n = (minstd_next ^^ n) (minstd_new seed)"

lemma minstd_new_value: "unat (minstd_new seed) = unat seed mod minstd_m"
proof -
  have "unat (of_nat minstd_m :: 32 word) = minstd_m" by (simp add: minstd_m_def)
  then show ?thesis by (simp add: minstd_new_def unat_mod_distrib)
qed

text \<open>A seed that is a multiple of \<open>2 ^ 31 - 1\<close>, zero for one, keeps the engine at zero for
  ever; every other seed keeps it between one and \<open>2 ^ 31 - 2\<close> for ever.\<close>
theorem minstd_orbit:
  "if unat seed mod minstd_m = 0 then engine_after seed n = 0
   else 0 < unat (engine_after seed n) \<and> unat (engine_after seed n) < minstd_m"
proof (cases "unat seed mod minstd_m = 0")
  case True
  then have "minstd_new seed = 0"
    by (intro unsigned_word_eqI [where ?'a = nat]) (simp add: minstd_new_value)
  then have "engine_after seed n = 0" by (induction n) (simp_all add: engine_after_def minstd_next_zero)
  then show ?thesis using True by simp
next
  case False
  have "unat (engine_after seed n) mod minstd_m \<noteq> 0 \<and> unat (engine_after seed n) < minstd_m"
  proof (induction n)
    case 0
    then show ?case using False by (simp add: engine_after_def minstd_new_value) (simp add: minstd_m_def)
  next
    case (Suc n)
    have "unat (minstd_next (engine_after seed n)) < minstd_m"
      by (simp only: minstd_next_value) (simp add: minstd_m_def)
    moreover have "unat (minstd_next (engine_after seed n)) mod minstd_m \<noteq> 0"
      using minstd_next_nonzero Suc by blast
    moreover have "engine_after seed (Suc n) = minstd_next (engine_after seed n)"
      by (simp add: engine_after_def)
    ultimately show ?case by (simp only: simp_thms)
  qed
  then show ?thesis using False by (auto intro!: Nat.gr0I)
qed

section \<open>The loop that does not end\<close>

text \<open>At zero both coordinates are minus one and the norm is two, which single precision
  represents.\<close>

definition zero_norm_rejected :: "'f arith \<Rightarrow> bool" where
  "zero_norm_rejected A \<longleftrightarrow> fl_le A (fl_one A) (snd (snd (fst (polar_point A 0))))"

lemma polar_loop_zero:
  assumes "zero_norm_rejected A"
  shows "polar_loop A 0 = None"
proof -
  have "zero_norm_rejected A \<longrightarrow> eng \<noteq> 0" if "polar_loop A eng = Some r" for A :: "'a arith" and eng r
  proof (rule polar_loop.raw_induct [OF _ that])
    fix loop and A :: "'a arith" and eng r
    assume IH: "\<And>A eng r. loop A eng = Some r \<Longrightarrow> zero_norm_rejected A \<longrightarrow> eng \<noteq> 0"
      and body: "(case polar_point A eng of ((u1, u2, s), eng') \<Rightarrow>
        if fl_le A (fl_one A) s \<or> s = fl_zero A then loop A eng' else Some ((u1, u2, s), eng')) = Some r"
    have zero: "snd (polar_point A 0) = 0"
      by (simp add: polar_point_def unit_f32_def minstd_next_zero Let_def)
    show "zero_norm_rejected A \<longrightarrow> eng \<noteq> 0"
    proof (intro impI notI)
      assume z: "zero_norm_rejected A" and "eng = 0"
      then have "loop A 0 = Some r"
        using body zero by (simp add: zero_norm_rejected_def split_beta)
      then show False using IH z by blast
    qed
  qed
  then show ?thesis using assms by (cases "polar_loop A 0") blast+
qed

text \<open>C22. Normal samples in this mode never return for a seed that is a multiple of
  \<open>2 ^ 31 - 1\<close>, such as an operator's own seed of zero: the engine is stuck at zero, and the
  polar method rejects the point it gives.\<close>
theorem fill_normal_hangs:
  assumes "zero_norm_rejected A" and "unat (ort_engine_seed (ro_seed opts) key op_seed) mod minstd_m = 0"
  shows "fill_normal_ort A (Suc n) m sc opts key op_seed = None"
proof -
  have "minstd_new (ort_engine_seed (ro_seed opts) key op_seed) = 0"
    using assms(2) by (intro unsigned_word_eqI [where ?'a = nat]) (simp add: minstd_new_value)
  then show ?thesis using polar_loop_zero [OF assms(1)]
    by (simp add: fill_normal_ort_def std_normal_sample_def std_normal_new_def)
qed

theorem fill_normal_hangs_witness:
  "fill_normal_ort real_arith 1 0 1 rng_default 7 (Some 0) = None"
proof -
  have "zero_norm_rejected real_arith"
    by (simp add: zero_norm_rejected_def polar_point_def unit_f32_def minstd_next_zero Let_def)
  from fill_normal_hangs [OF this, of rng_default 7 "Some 0" 0] show ?thesis
    by (simp add: ort_engine_seed_def)
qed

end
