(* ===== verification/KvRetention.thy ===== *)
theory KvRetention
  imports RlxPrelude Floats
begin

text \<open>
  Retention of cached positions (\<open>crates/core/rlx-runtime/src/kv_retention.rs\<close>): policies, the
  plan of what to keep, evict and retrieve, the store of evicted blocks, and the bookkeeping of
  the resident positions. Single precision is the parameter \<open>A\<close>; the recorder of telemetry is
  left out.
\<close>

section \<open>State\<close>

datatype retention_policy =
    FullRetention
  | Sinks nat nat
  | HeavyHitter nat nat nat
  | Retrieval nat nat nat nat
  | Auto nat

record 'f slot =
  rs_pos :: nat
  rs_mass :: 'f
  rs_used :: nat
  rs_block :: nat

record 'f stored_block =
  sb_id :: nat
  sb_start :: nat
  sb_rows :: nat
  sb_key :: "'f list"
  sb_k :: "'f list list"
  sb_v :: "'f list list"

record retention_plan =
  rp_keep :: "nat list"
  rp_evict :: "nat list"
  rp_retrieve :: "nat list"
  rp_store_evicted :: bool

definition keep_all :: "nat \<Rightarrow> retention_plan" where
  "keep_all n = \<lparr>rp_keep = [0..<n], rp_evict = [], rp_retrieve = [], rp_store_evicted = False\<rparr>"

definition is_noop :: "retention_plan \<Rightarrow> bool" where
  "is_noop p \<longleftrightarrow> rp_evict p = [] \<and> rp_retrieve p = []"

record 'f retention =
  rm_policy :: retention_policy
  rm_kv_dim :: nat
  rm_resident :: "'f slot list"
  rm_store :: "'f stored_block list"
  rm_next_block :: nat
  rm_step :: nat
  rm_concentration :: 'f
  rm_next_pos :: nat

definition retention_new :: "'f arith \<Rightarrow> retention_policy \<Rightarrow> nat \<Rightarrow> 'f retention" where
  "retention_new A policy kv_dim = \<lparr>rm_policy = policy, rm_kv_dim = kv_dim, rm_resident = [],
     rm_store = [], rm_next_block = 0, rm_step = 0, rm_concentration = fl_zero A, rm_next_pos = 0\<rparr>"

section \<open>Queries\<close>

definition needs_attention :: "'f retention \<Rightarrow> bool" where
  "needs_attention m = (case rm_policy m of HeavyHitter _ _ _ \<Rightarrow> True | Auto _ \<Rightarrow> True | _ \<Rightarrow> False)"

definition stored_tokens :: "'f retention \<Rightarrow> nat" where
  "stored_tokens m = sum_list (map sb_rows (rm_store m))"

definition block_size :: "'f retention \<Rightarrow> nat" where
  "block_size m = (case rm_policy m of
     Retrieval block _ _ _ \<Rightarrow> block
   | Auto max_resident \<Rightarrow> max (max_resident div 8) 16
   | _ \<Rightarrow> 0)"

definition resident_positions :: "'f retention \<Rightarrow> nat list" where
  "resident_positions m = map rs_pos (rm_resident m)"

definition selection_snapshot :: "'f retention \<Rightarrow> (nat \<times> 'f \<times> nat) list \<times> 'f" where
  "selection_snapshot m =
     (map (\<lambda>s. (rs_pos s, rs_mass s, rs_used s)) (rm_resident m), rm_concentration m)"

section \<open>Updates\<close>

definition on_prefill :: "'f arith \<Rightarrow> nat \<Rightarrow> 'f retention \<Rightarrow> 'f retention" where
  "on_prefill A n m =
     (let block_sz = max (block_size m) 1 in
      m\<lparr>rm_resident := map (\<lambda>pos. \<lparr>rs_pos = pos, rs_mass = fl_zero A, rs_used = 0,
            rs_block = pos div block_sz\<rparr>) [0..<n],
        rm_store := [], rm_next_pos := n,
        rm_next_block := max (rm_next_block m) ((n + block_sz - 1) div block_sz)\<rparr>)"

definition append_position :: "'f arith \<Rightarrow> 'f retention \<Rightarrow> 'f retention" where
  "append_position A m =
     (let pos = rm_next_pos m in
      m\<lparr>rm_resident := rm_resident m @ [\<lparr>rs_pos = pos, rs_mass = fl_zero A, rs_used = rm_step m,
            rs_block = pos div max (block_size m) 1\<rparr>],
        rm_next_pos := pos + 1\<rparr>)"

text \<open>One turn of the loop over the weights, with the running total and peak.\<close>

definition observe_one ::
  "'f arith \<Rightarrow> nat \<Rightarrow> 'f slot \<times> 'f \<Rightarrow> 'f \<times> 'f \<Rightarrow> 'f slot \<times> ('f \<times> 'f)" where
  "observe_one A step sw tp =
     (case sw of (s, weight) \<Rightarrow> case tp of (mass, peak) \<Rightarrow>
       let w = fl_max A weight (fl_zero A);
           s = s\<lparr>rs_mass := fl_add A (rs_mass s) w\<rparr>;
           s = (if fl_lt A (fl_lit A (1 / 10000)) w then s\<lparr>rs_used := step\<rparr> else s)
       in (s, (fl_add A mass w, if fl_lt A peak w then w else peak)))"

fun observe_scan ::
  "'f arith \<Rightarrow> nat \<Rightarrow> 'f slot list \<Rightarrow> 'f list \<Rightarrow> 'f \<times> 'f \<Rightarrow> 'f slot list \<times> ('f \<times> 'f)" where
  "observe_scan A step (s # ss) (w # ws) tp =
     (case observe_one A step (s, w) tp of (s', tp') \<Rightarrow>
      case observe_scan A step ss ws tp' of (ss', tp'') \<Rightarrow> (s' # ss', tp''))"
| "observe_scan A step ss ws tp = (ss, tp)"

definition observe_attention :: "'f arith \<Rightarrow> 'f list \<Rightarrow> 'f retention \<Rightarrow> 'f retention" where
  "observe_attention A weights m =
     (let faded = map (\<lambda>s. s\<lparr>rs_mass := fl_mul A (rs_mass s) (fl_lit A (98 / 100))\<rparr>) (rm_resident m);
          (resident, mass, peak) = observe_scan A (rm_step m) faded weights (fl_zero A, fl_zero A);
          conc = (if fl_lt A (fl_zero A) mass
                  then fl_add A (fl_mul A (fl_lit A (9 / 10)) (rm_concentration m))
                         (fl_mul A (fl_lit A (1 / 10)) (fl_div A peak mass))
                  else rm_concentration m)
      in m\<lparr>rm_resident := resident, rm_concentration := conc, rm_step := rm_step m + 1\<rparr>)"

section \<open>Plans\<close>

definition effective_policy :: "'f arith \<Rightarrow> 'f retention \<Rightarrow> retention_policy" where
  "effective_policy A m = (case rm_policy m of
     Auto max_resident \<Rightarrow>
       if length (rm_resident m) + stored_tokens m \<le> max_resident then FullRetention
       else
         let sinks = min 4 (max_resident div 8); recent = max_resident div 2 in
         if fl_le A (fl_lit A (15 / 100)) (rm_concentration m)
         then HeavyHitter sinks recent (max_resident - (sinks + recent))
         else
           let block = max (max_resident div 8) 16;
               resident_blocks = (max_resident - (sinks + recent)) div max block 1
           in Retrieval block (max resident_blocks 1) sinks recent
   | p \<Rightarrow> p)"

text \<open>\<open>sort_by\<close> with the comparison of \<open>score(b)\<close> to \<open>score(a)\<close>: stable, larger scores first.\<close>

fun insert_desc :: "'f arith \<Rightarrow> ('a \<Rightarrow> 'f) \<Rightarrow> 'a \<Rightarrow> 'a list \<Rightarrow> 'a list" where
  "insert_desc A score x [] = [x]"
| "insert_desc A score x (y # ys) =
     (if fl_lt A (score y) (score x) then x # y # ys else y # insert_desc A score x ys)"

definition sort_desc :: "'f arith \<Rightarrow> ('a \<Rightarrow> 'f) \<Rightarrow> 'a list \<Rightarrow> 'a list" where
  "sort_desc A score xs = foldl (\<lambda>acc x. insert_desc A score x acc) [] xs"

definition plan_keep_set ::
  "'f arith \<Rightarrow> 'f retention \<Rightarrow> nat \<Rightarrow> nat \<Rightarrow> nat \<Rightarrow> (nat \<Rightarrow> 'f) \<Rightarrow> bool \<Rightarrow> nat list \<Rightarrow> retention_plan" where
  "plan_keep_set A m sinks recent budget score store_evicted retrieve =
     (let n = length (rm_resident m);
          sinks = min sinks n;
          recent = min recent (n - sinks);
          mid_hi = n - recent;
          all_mid = [sinks..<mid_hi];
          mid = (if budget < length all_mid then take budget (sort_desc A score all_mid) else all_mid);
          kept = (\<lambda>i. i < sinks \<or> mid_hi \<le> i \<or> i \<in> set mid)
      in \<lparr>rp_keep = filter kept [0..<n], rp_evict = filter (\<lambda>i. \<not> kept i) [0..<n],
          rp_retrieve = retrieve, rp_store_evicted = store_evicted\<rparr>)"

definition dot :: "'f arith \<Rightarrow> 'f list \<Rightarrow> 'f list \<Rightarrow> 'f" where
  "dot A a b = foldl (\<lambda>s (x, y). fl_add A s (fl_mul A x y)) (fl_zero A) (zip a b)"

definition plan_retrieval ::
  "'f arith \<Rightarrow> 'f retention \<Rightarrow> nat \<Rightarrow> nat \<Rightarrow> nat \<Rightarrow> 'f list option \<Rightarrow> retention_plan" where
  "plan_retrieval A m resident_blocks sinks recent query =
     (let retrieve = (case query of
            Some q \<Rightarrow>
              if rm_store m \<noteq> []
              then map fst (take resident_blocks
                     (sort_desc A snd (map (\<lambda>b. (sb_id b, dot A q (sb_key b))) (rm_store m))))
              else []
          | None \<Rightarrow> [])
      in plan_keep_set A m sinks recent 0 (\<lambda>_. fl_zero A) True retrieve)"

definition plan_retention :: "'f arith \<Rightarrow> 'f list option \<Rightarrow> 'f retention \<Rightarrow> retention_plan" where
  "plan_retention A query m = (case effective_policy A m of
     FullRetention \<Rightarrow> keep_all (length (rm_resident m))
   | Sinks sinks window \<Rightarrow> plan_keep_set A m sinks window 0 (\<lambda>_. fl_zero A) False []
   | HeavyHitter sinks recent budget \<Rightarrow>
       plan_keep_set A m sinks recent budget (\<lambda>i. rs_mass (rm_resident m ! i)) False []
   | Retrieval block resident_blocks sinks recent \<Rightarrow>
       plan_retrieval A m resident_blocks sinks recent query
   | Auto max_resident \<Rightarrow> keep_all (length (rm_resident m)))"

section \<open>The store and the commit\<close>

definition mean_rows :: "'f arith \<Rightarrow> 'f list \<Rightarrow> nat \<Rightarrow> nat \<Rightarrow> 'f list" where
  "mean_rows A xs inner rows =
     (if inner = 0 \<or> rows = 0 then replicate inner (fl_zero A)
      else map (\<lambda>j. fl_mul A (foldl (\<lambda>acc r. fl_add A acc (xs ! (r * inner + j))) (fl_zero A) [0..<rows])
                      (fl_div A (fl_one A) (fl_of_nat A rows))) [0..<inner])"

definition push_evicted_block ::
  "'f arith \<Rightarrow> nat \<Rightarrow> 'f list list \<Rightarrow> 'f list list \<Rightarrow> 'f retention \<Rightarrow> nat \<times> 'f retention" where
  "push_evicted_block A start_pos k v m =
     (let first = (case k of l # _ \<Rightarrow> l | [] \<Rightarrow> []);
          rows = (if 0 < rm_kv_dim m then length first div rm_kv_dim m else 0);
          i = rm_next_block m
      in (i, m\<lparr>rm_next_block := i + 1,
          rm_store := rm_store m @ [\<lparr>sb_id = i, sb_start = start_pos, sb_rows = rows,
            sb_key = mean_rows A first (rm_kv_dim m) rows, sb_k = k, sb_v = v\<rparr>]\<rparr>))"

definition take_block :: "nat \<Rightarrow> 'f retention \<Rightarrow> 'f stored_block option \<times> 'f retention" where
  "take_block i m =
     (case find (\<lambda>b. sb_id b = i) (rm_store m) of
        Some b \<Rightarrow> (Some b, m\<lparr>rm_store := remove1 b (rm_store m)\<rparr>)
      | None \<Rightarrow> (None, m))"

text \<open>\<open>sort_by_key\<close> on the positions is stable, and \<open>dedup_by_key\<close> keeps the first of a run.\<close>

fun dedup_positions :: "'f slot list \<Rightarrow> 'f slot list" where
  "dedup_positions (s # t # ss) =
     (if rs_pos s = rs_pos t then dedup_positions (s # ss) else s # dedup_positions (t # ss))"
| "dedup_positions ss = ss"

definition commit_plan :: "'f arith \<Rightarrow> retention_plan \<Rightarrow> nat list \<Rightarrow> 'f retention \<Rightarrow> 'f retention" where
  "commit_plan A plan retrieved m =
     (let kept = map (\<lambda>i. rm_resident m ! i) (filter (\<lambda>i. i < length (rm_resident m)) (rp_keep plan));
          back = map (\<lambda>pos. \<lparr>rs_pos = pos, rs_mass = fl_zero A, rs_used = rm_step m,
                   rs_block = pos div max (block_size m) 1\<rparr>) retrieved
      in m\<lparr>rm_resident := dedup_positions (sort_key rs_pos (kept @ back))\<rparr>)"

end
