(* ===== verification/KvRetentionLaws.thy ===== *)
theory KvRetentionLaws
  imports KvRetention "HOL-Library.Multiset"
begin

text \<open>
  What a retention plan keeps, that the bookkeeping stays consistent, and how many rows a plan
  leaves resident.
\<close>

section \<open>The sort\<close>

text \<open>Scores without not-a-number are weakly ordered.\<close>

definition weak_order :: "'f arith \<Rightarrow> bool" where
  "weak_order A \<longleftrightarrow> (\<forall>x y. fl_lt A x y \<longrightarrow> \<not> fl_lt A y x) \<and>
     (\<forall>x y z. \<not> fl_lt A x y \<longrightarrow> \<not> fl_lt A y z \<longrightarrow> \<not> fl_lt A x z)"

lemma mset_insert_desc [simp]: "mset (insert_desc A score x ys) = add_mset x (mset ys)"
  by (induction ys) simp_all

lemma mset_sort_desc [simp]: "mset (sort_desc A score xs) = mset xs"
proof -
  have "mset (foldl (\<lambda>acc x. insert_desc A score x acc) acc xs) = mset acc + mset xs" for acc
    by (induction xs arbitrary: acc) simp_all
  then show ?thesis by (simp add: sort_desc_def)
qed

lemma length_sort_desc [simp]: "length (sort_desc A score xs) = length xs"
  by (metis mset_sort_desc size_mset)

lemma set_sort_desc [simp]: "set (sort_desc A score xs) = set xs"
  by (metis mset_sort_desc set_mset_mset)

abbreviation descending :: "'f arith \<Rightarrow> ('a \<Rightarrow> 'f) \<Rightarrow> 'a list \<Rightarrow> bool" where
  "descending A score \<equiv> sorted_wrt (\<lambda>a b. \<not> fl_lt A (score a) (score b))"

lemma insert_desc_descending:
  assumes "weak_order A" and "descending A score ys"
  shows "descending A score (insert_desc A score x ys)"
  using assms(2)
proof (induction ys)
  case (Cons y ys)
  have sub: "set (insert_desc A score x ys) = insert x (set ys)"
    by (metis mset_insert_desc set_mset_add_mset_insert set_mset_mset)
  show ?case
  proof (cases "fl_lt A (score y) (score x)")
    case True
    have y: "\<not> fl_lt A (score y) (score z)" if "z \<in> set ys" for z using Cons.prems that by simp
    have "\<not> fl_lt A (score x) (score z)" if "z \<in> set ys" for z
    proof
      assume "fl_lt A (score x) (score z)"
      then have "\<not> fl_lt A (score z) (score x)" using assms(1) unfolding weak_order_def by blast
      then show False using y [OF that] True assms(1) unfolding weak_order_def by blast
    qed
    moreover have "\<not> fl_lt A (score x) (score y)"
      using True assms(1) unfolding weak_order_def by blast
    ultimately show ?thesis using True Cons.prems by simp
  next
    case False
    then show ?thesis using Cons sub by auto
  qed
qed simp

lemma sort_desc_descending: "weak_order A \<Longrightarrow> descending A score (sort_desc A score xs)"
proof -
  assume w: "weak_order A"
  have "descending A score acc \<Longrightarrow> descending A score (foldl (\<lambda>acc x. insert_desc A score x acc) acc xs)" for acc
    by (induction xs arbitrary: acc) (simp_all add: insert_desc_descending [OF w])
  then show ?thesis by (simp add: sort_desc_def)
qed

lemma taken_above_dropped:
  assumes "weak_order A" and "a \<in> set (take k (sort_desc A score xs))"
    and "e \<in> set xs" and "e \<notin> set (take k (sort_desc A score xs))"
  shows "\<not> fl_lt A (score a) (score e)"
proof -
  have "e \<in> set (take k (sort_desc A score xs) @ drop k (sort_desc A score xs))"
    using assms(3) by (simp only: append_take_drop_id set_sort_desc)
  then have "e \<in> set (drop k (sort_desc A score xs))" using assms(4) by (simp only: set_append) blast
  moreover have "descending A score (take k (sort_desc A score xs) @ drop k (sort_desc A score xs))"
    using sort_desc_descending [OF assms(1)] by (simp only: append_take_drop_id)
  ultimately show ?thesis using assms(2) unfolding sorted_wrt_append by blast
qed

section \<open>The keep set\<close>

definition kept_mid :: "'f arith \<Rightarrow> (nat \<Rightarrow> 'f) \<Rightarrow> nat \<Rightarrow> nat \<Rightarrow> nat \<Rightarrow> nat list" where
  "kept_mid A score budget lo hi =
     (if budget < length [lo..<hi] then take budget (sort_desc A score [lo..<hi]) else [lo..<hi])"

lemma kept_mid_facts:
  "distinct (kept_mid A score budget lo hi)" "length (kept_mid A score budget lo hi) = min budget (hi - lo)"
  "set (kept_mid A score budget lo hi) \<subseteq> {lo..<hi}"
proof -
  have "distinct (sort_desc A score [lo..<hi])"
    by (metis distinct_upt mset_eq_imp_distinct_iff mset_sort_desc)
  then show "distinct (kept_mid A score budget lo hi)" by (simp add: kept_mid_def distinct_take)
  show "length (kept_mid A score budget lo hi) = min budget (hi - lo)" by (simp add: kept_mid_def)
  show "set (kept_mid A score budget lo hi) \<subseteq> {lo..<hi}"
    using set_take_subset [of budget "sort_desc A score [lo..<hi]"] by (auto simp: kept_mid_def)
qed

lemma kept_mid_heaviest:
  assumes "weak_order A" and "i \<in> set (kept_mid A score budget lo hi)"
    and "j \<in> {lo..<hi}" and "j \<notin> set (kept_mid A score budget lo hi)"
  shows "\<not> fl_lt A (score i) (score j)"
  using assms taken_above_dropped [of A i budget score "[lo..<hi]" j]
  by (simp add: kept_mid_def split: if_splits)

text \<open>The three ranges: the sinks end at \<open>keep_lo\<close>, the recent positions begin at \<open>keep_hi\<close>.\<close>

definition keep_lo :: "nat \<Rightarrow> nat \<Rightarrow> nat" where
  "keep_lo n sinks = min sinks n"

definition keep_hi :: "nat \<Rightarrow> nat \<Rightarrow> nat \<Rightarrow> nat" where
  "keep_hi n sinks recent = n - min recent (n - keep_lo n sinks)"

lemma keep_ranges: "keep_lo n sinks \<le> keep_hi n sinks recent" "keep_hi n sinks recent \<le> n"
  by (auto simp: keep_lo_def keep_hi_def)

definition kept :: "'f arith \<Rightarrow> nat \<Rightarrow> nat \<Rightarrow> nat \<Rightarrow> nat \<Rightarrow> (nat \<Rightarrow> 'f) \<Rightarrow> nat \<Rightarrow> bool" where
  "kept A n sinks recent budget score i \<longleftrightarrow> i < keep_lo n sinks \<or> keep_hi n sinks recent \<le> i \<or>
     i \<in> set (kept_mid A score budget (keep_lo n sinks) (keep_hi n sinks recent))"

lemma plan_keep_set_eq:
  assumes "n = length (rm_resident m)"
  shows "plan_keep_set A m sinks recent budget score st rt =
    \<lparr>rp_keep = filter (kept A n sinks recent budget score) [0..<n],
     rp_evict = filter (\<lambda>i. \<not> kept A n sinks recent budget score i) [0..<n],
     rp_retrieve = rt, rp_store_evicted = st\<rparr>"
  unfolding plan_keep_set_def Let_def assms [symmetric]
  by (simp add: kept_def [abs_def] kept_mid_def keep_lo_def keep_hi_def)

lemma kept_count: "length (filter (kept A n sinks recent budget score) [0..<n]) = min n (sinks + recent + budget)"
proof -
  let ?s = "keep_lo n sinks" let ?h = "keep_hi n sinks recent"
  define mid where "mid = kept_mid A score budget ?s ?h"
  note mid = kept_mid_facts [of A score budget ?s ?h, folded mid_def]
  have "set (filter (kept A n sinks recent budget score) [0..<n]) = {..<?s} \<union> set mid \<union> {?h..<n}"
    using mid(3) keep_ranges [of n sinks recent] by (auto simp: kept_def mid_def [symmetric])
  then have "length (filter (kept A n sinks recent budget score) [0..<n]) =
      card ({..<?s} \<union> set mid \<union> {?h..<n})"
    using distinct_card [of "filter (kept A n sinks recent budget score) [0..<n]"] by simp
  also have "\<dots> = ?s + length mid + (n - ?h)"
  proof -
    have "({..<?s} \<union> set mid) \<inter> {?h..<n} = {}" "{..<?s} \<inter> set mid = {}"
      using mid(3) keep_ranges(1) [of n sinks recent] by auto
    then show ?thesis using mid(1) by (simp add: card_Un_disjoint distinct_card)
  qed
  also have "\<dots> = min n (sinks + recent + budget)"
    unfolding mid(2) keep_lo_def keep_hi_def
    by (cases "n \<le> sinks"; cases "n - sinks \<le> recent"; cases "n - sinks - recent \<le> budget")
      (auto simp: min_def)
  finally show ?thesis .
qed

lemma kept_ends: "i < n \<Longrightarrow> i < sinks \<or> n \<le> i + recent \<Longrightarrow> kept A n sinks recent budget score i"
  by (auto simp: kept_def keep_lo_def keep_hi_def)

lemma kept_heaviest:
  assumes "weak_order A" and "kept A n sinks recent budget score i" and "j < n"
    and "\<not> kept A n sinks recent budget score j"
  shows "i < sinks \<or> n \<le> i + recent \<or> \<not> fl_lt A (score i) (score j)"
proof -
  have "j \<in> {keep_lo n sinks..<keep_hi n sinks recent}" using assms(4) by (simp add: kept_def not_less)
  then have "i < keep_lo n sinks \<or> keep_hi n sinks recent \<le> i \<or> \<not> fl_lt A (score i) (score j)"
    using assms kept_mid_heaviest [OF assms(1)] unfolding kept_def by blast
  moreover have "keep_hi n sinks recent \<le> i \<Longrightarrow> n \<le> i + recent" by (simp add: keep_hi_def)
  ultimately show ?thesis by (auto simp: keep_lo_def)
qed

text \<open>C21. The plan of the heavy-hitter policy splits the resident positions: what it keeps and what
  it evicts are each in order, disjoint and everything; the sinks and the recent positions are
  kept; it keeps as many as the budgets allow; and between the ends no evicted position has
  more attention mass than a kept one.\<close>
theorem heavy_hitter_plan:
  assumes "weak_order A" and "rm_policy m = HeavyHitter sinks recent budget"
    and "n = length (rm_resident m)" and "p = plan_retention A q m"
  shows "sorted_wrt (<) (rp_keep p) \<and> sorted_wrt (<) (rp_evict p) \<and>
    set (rp_keep p) \<inter> set (rp_evict p) = {} \<and> set (rp_keep p) \<union> set (rp_evict p) = {..<n} \<and>
    length (rp_keep p) = min n (sinks + recent + budget) \<and>
    (\<forall>i < n. i < sinks \<or> n \<le> i + recent \<longrightarrow> i \<in> set (rp_keep p)) \<and>
    (\<forall>i \<in> set (rp_keep p). \<forall>j \<in> set (rp_evict p). i < sinks \<or> n \<le> i + recent \<or>
      \<not> fl_lt A (rs_mass (rm_resident m ! i)) (rs_mass (rm_resident m ! j)))"
proof -
  have p: "p = \<lparr>rp_keep = filter (kept A n sinks recent budget (\<lambda>i. rs_mass (rm_resident m ! i))) [0..<n],
     rp_evict = filter (\<lambda>i. \<not> kept A n sinks recent budget (\<lambda>i. rs_mass (rm_resident m ! i)) i) [0..<n],
     rp_retrieve = [], rp_store_evicted = False\<rparr>"
    using assms by (simp add: plan_retention_def effective_policy_def plan_keep_set_eq)
  show ?thesis
    using kept_ends [of _ n sinks recent A budget]
      kept_heaviest [OF assms(1), of n sinks recent budget "\<lambda>i. rs_mass (rm_resident m ! i)"]
    by (auto simp: p sorted_wrt_filter kept_count)
qed

definition sample_retention :: "real retention" where
  "sample_retention = (retention_new real_arith (HeavyHitter 1 1 1) 4)\<lparr>rm_resident :=
     map (\<lambda>i. \<lparr>rs_pos = i, rs_mass = real (i mod 3), rs_used = 0, rs_block = 0\<rparr>) [0..<5]\<rparr>"

lemma real_weak_order: "weak_order real_arith"
  by (simp add: weak_order_def)

theorem heavy_hitter_plan_witness:
  "length (rp_keep (plan_retention real_arith None sample_retention)) = 3"
proof -
  have "rm_policy sample_retention = HeavyHitter 1 1 1" "5 = length (rm_resident sample_retention)"
    by (simp_all add: sample_retention_def retention_new_def)
  note heavy_hitter_plan [OF real_weak_order this refl, THEN conjunct2, THEN conjunct2,
      THEN conjunct2, THEN conjunct2, THEN conjunct1, of None]
  then show ?thesis by simp
qed

section \<open>The books\<close>

definition retention_ok :: "'f retention \<Rightarrow> bool" where
  "retention_ok m \<longleftrightarrow> sorted_wrt (<) (resident_positions m) \<and>
     (\<forall>i \<in> set (resident_positions m). i < rm_next_pos m) \<and>
     distinct (map sb_id (rm_store m)) \<and> (\<forall>b \<in> set (rm_store m). sb_id b < rm_next_block m)"

text \<open>What a client may do; positions it brings back were handed out before.\<close>

inductive retained :: "'f arith \<Rightarrow> 'f retention \<Rightarrow> bool" for A where
  start: "retained A (retention_new A policy kv_dim)"
| prefill: "retained A m \<Longrightarrow> retained A (on_prefill A n m)"
| append: "retained A m \<Longrightarrow> retained A (append_position A m)"
| observe: "retained A m \<Longrightarrow> retained A (observe_attention A ws m)"
| push: "retained A m \<Longrightarrow> retained A (snd (push_evicted_block A i k v m))"
| take_out: "retained A m \<Longrightarrow> retained A (snd (take_block i m))"
| commit: "retained A m \<Longrightarrow> \<forall>i \<in> set returned. i < rm_next_pos m \<Longrightarrow> retained A (commit_plan A plan returned m)"

lemma observe_scan_positions: "map rs_pos (fst (observe_scan A step ss ws tp)) = map rs_pos ss"
  by (induction A step ss ws tp rule: observe_scan.induct)
    (auto simp: observe_one_def Let_def split_beta)

lemma dedup_sorted:
  "sorted (map rs_pos ss) \<Longrightarrow> sorted_wrt (<) (map rs_pos (dedup_positions ss)) \<and>
   set (map rs_pos (dedup_positions ss)) = set (map rs_pos ss)"
proof (induction ss rule: dedup_positions.induct)
  case (1 s t ss)
  show ?case
  proof (cases "rs_pos s = rs_pos t")
    case True
    then show ?thesis using 1 by auto
  next
    case False
    then have "sorted_wrt (<) (map rs_pos (dedup_positions (t # ss)))"
        "set (map rs_pos (dedup_positions (t # ss))) = set (map rs_pos (t # ss))"
      using 1 by auto
    moreover have "\<forall>x \<in> set (map rs_pos (t # ss)). rs_pos s < x"
      using 1(3) False by (auto simp: le_less)
    ultimately show ?thesis using False by auto
  qed
qed auto

text \<open>After a commit the resident positions are those kept and those brought back.\<close>

lemma commit_positions:
  "sorted_wrt (<) (resident_positions (commit_plan A plan returned m))"
  "set (resident_positions (commit_plan A plan returned m)) =
     {rs_pos (rm_resident m ! i) | i. i \<in> set (rp_keep plan) \<and> i < length (rm_resident m)} \<union> set returned"
proof -
  define ss where "ss = sort_key rs_pos (map (\<lambda>i. rm_resident m ! i)
      (filter (\<lambda>i. i < length (rm_resident m)) (rp_keep plan)) @
    map (\<lambda>pos. \<lparr>rs_pos = pos, rs_mass = fl_zero A, rs_used = rm_step m,
      rs_block = pos div max (block_size m) 1\<rparr>) returned)"
  have "sorted (map rs_pos ss)" by (simp add: ss_def)
  note d = dedup_sorted [OF this]
  have r: "resident_positions (commit_plan A plan returned m) = map rs_pos (dedup_positions ss)"
    by (simp add: resident_positions_def commit_plan_def Let_def ss_def)
  show "sorted_wrt (<) (resident_positions (commit_plan A plan returned m))" using d r by simp
  have "set (map rs_pos ss) =
     {rs_pos (rm_resident m ! i) | i. i \<in> set (rp_keep plan) \<and> i < length (rm_resident m)} \<union> set returned"
    by (simp add: ss_def image_Un image_image) auto
  then show "set (resident_positions (commit_plan A plan returned m)) =
     {rs_pos (rm_resident m ! i) | i. i \<in> set (rp_keep plan) \<and> i < length (rm_resident m)} \<union> set returned"
    using d r by simp
qed

lemma retained_ok: "retained A m \<Longrightarrow> retention_ok m"
proof (induction rule: retained.induct)
  case (observe m ws)
  then show ?case
    by (simp add: retention_ok_def observe_attention_def resident_positions_def Let_def split_beta
        observe_scan_positions o_def)
next
  case (take_out m i)
  have "distinct (map sb_id (remove1 b (rm_store m)))" for b
    using take_out.IH by (auto simp: retention_ok_def distinct_map intro: inj_on_subset)
  moreover have "set (remove1 b (rm_store m)) \<subseteq> set (rm_store m)" for b by (rule set_remove1_subset)
  ultimately show ?case
    using take_out.IH
    by (cases "find (\<lambda>b. sb_id b = i) (rm_store m)")
      (auto simp: retention_ok_def take_block_def resident_positions_def)
next
  case (commit m returned plan)
  then show ?case
    using commit_positions(1) [of A plan returned m]
    by (auto simp: retention_ok_def commit_positions(2)) (auto simp: commit_plan_def resident_positions_def)
next
  case (push m i k v)
  then show ?case
    by (auto simp: retention_ok_def push_evicted_block_def resident_positions_def Let_def less_Suc_eq)
qed (auto simp: retention_ok_def retention_new_def on_prefill_def append_position_def
    resident_positions_def Let_def sorted_wrt_append o_def less_SucI)

lemma plan_retrieve_cases:
  "rp_retrieve (plan_retention A q m) = [] \<or>
   (\<exists>k f. rp_retrieve (plan_retention A q m) =
      map fst (take k (sort_desc A snd (map (\<lambda>b. (sb_id b, f b)) (rm_store m)))))"
proof -
  have "rp_retrieve (plan_keep_set A m sinks recent budget score st rt) = rt" for sinks recent budget score st rt
    by (simp add: plan_keep_set_eq)
  then show ?thesis
    by (auto simp: plan_retention_def plan_retrieval_def keep_all_def Let_def
        split: retention_policy.splits option.splits)
qed

text \<open>A plan asks for blocks that are in the store, each once.\<close>

lemma plan_retrieve_stored:
  assumes "distinct (map sb_id (rm_store m))"
  shows "distinct (rp_retrieve (plan_retention A q m)) \<and>
    set (rp_retrieve (plan_retention A q m)) \<subseteq> sb_id ` set (rm_store m)"
  using plan_retrieve_cases [of A q m]
proof
  assume "\<exists>k f. rp_retrieve (plan_retention A q m) =
      map fst (take k (sort_desc A snd (map (\<lambda>b. (sb_id b, f b)) (rm_store m))))"
  then obtain k f where r: "rp_retrieve (plan_retention A q m) =
      take k (map fst (sort_desc A snd (map (\<lambda>b. (sb_id b, f b)) (rm_store m))))"
    by (auto simp: take_map)
  have "mset (map fst (sort_desc A snd (map (\<lambda>b. (sb_id b, f b)) (rm_store m)))) = mset (map sb_id (rm_store m))"
    by (simp add: image_mset.compositionality o_def)
  note e = mset_eq_imp_distinct_iff [OF this] mset_eq_setD [OF this]
  have "distinct (rp_retrieve (plan_retention A q m))" using e(1) assms by (simp only: r distinct_take)
  moreover have "set (rp_retrieve (plan_retention A q m)) \<subseteq> set (map sb_id (rm_store m))"
    unfolding r e(2) [symmetric] by (rule set_take_subset)
  ultimately show ?thesis by simp
qed simp

lemma take_block_stored:
  assumes "i \<in> sb_id ` set (rm_store m)"
  shows "\<exists>b \<in> set (rm_store m). sb_id b = i \<and> fst (take_block i m) = Some b"
proof -
  obtain b where "find (\<lambda>b. sb_id b = i) (rm_store m) = Some b"
    using assms by (cases "find (\<lambda>b. sb_id b = i) (rm_store m)") (auto simp: find_None_iff)
  moreover from this have "b \<in> set (rm_store m)" "sb_id b = i" by (auto simp: find_Some_iff)
  ultimately show ?thesis by (auto simp: take_block_def)
qed

text \<open>C32. However prefills, appended positions, observed weights, stored and taken blocks and
  commits follow each other, the resident positions are strictly increasing and were handed
  out, block ids are distinct, and every plan retrieves distinct blocks that the store has.\<close>
theorem retention_books:
  assumes "retained A m"
  shows "sorted_wrt (<) (resident_positions m) \<and> (\<forall>i \<in> set (resident_positions m). i < rm_next_pos m) \<and>
    distinct (map sb_id (rm_store m)) \<and> distinct (rp_retrieve (plan_retention A q m)) \<and>
    (\<forall>i \<in> set (rp_retrieve (plan_retention A q m)). fst (take_block i m) \<noteq> None)"
  using retained_ok [OF assms] plan_retrieve_stored [of m A q] take_block_stored
  by (fastforce simp: retention_ok_def)

theorem retention_books_witness:
  "sorted_wrt (<) (resident_positions (append_position real_arith
     (on_prefill real_arith 5 (retention_new real_arith (Auto 16) 4))))"
  using retention_books [OF append [OF prefill [OF start]], of real_arith 5 "Auto 16" 4 None] by simp

section \<open>The bound of the automatic policy\<close>

text \<open>The rows a plan leaves resident: those kept and those of the blocks it retrieves.\<close>

definition planned_rows :: "'f retention \<Rightarrow> retention_plan \<Rightarrow> nat" where
  "planned_rows m p = length (rp_keep p) +
     sum_list (map (\<lambda>i. case fst (take_block i m) of Some b \<Rightarrow> sb_rows b | None \<Rightarrow> 0) (rp_retrieve p))"

lemma retrieved_rows:
  assumes "\<forall>b \<in> set (rm_store m). sb_rows b \<le> sz"
  shows "sum_list (map (\<lambda>i. case fst (take_block i m) of Some b \<Rightarrow> sb_rows b | None \<Rightarrow> 0) ids) \<le> length ids * sz"
proof (induction ids)
  case (Cons i ids)
  have "(case fst (take_block i m) of Some b \<Rightarrow> sb_rows b | None \<Rightarrow> 0) \<le> sz"
    using assms by (auto simp: take_block_def find_Some_iff split: option.splits)
  then show ?case using Cons by simp
qed simp

lemma whole_blocks:
  assumes "b \<le> n - r" and "r \<le> n" and "0 < (b :: nat)"
  shows "r + max ((n - r) div b) 1 * b \<le> n"
proof -
  have "1 \<le> (n - r) div b" using assms(1,3) by (metis div_le_mono div_self not_less0)
  then have "max ((n - r) div b) 1 = (n - r) div b" by (rule max.absorb1)
  moreover have "r + (n - r) div b * b \<le> n"
    using assms(2) div_times_less_eq_dividend [of "n - r" b] by linarith
  ultimately show ?thesis by (simp only:)
qed

lemma block_budget:
  assumes "39 \<le> (n :: nat)"
  shows "max (n div 8) 16 \<le> n - (min 4 (n div 8) + n div 2)" and "min 4 (n div 8) + n div 2 \<le> n"
proof -
  have d: "n div 8 * 8 \<le> n" "n div 2 * 2 \<le> n" by (rule div_times_less_eq_dividend)+
  have s: "min 4 (n div 8) \<le> 4" by (rule min.cobounded1)
  have "max (n div 8) 16 + (min 4 (n div 8) + n div 2) \<le> n"
  proof (cases "n div 8 \<le> 16")
    case True
    then have "max (n div 8) 16 = 16" by (rule max.absorb2)
    then show ?thesis using d s assms by linarith
  next
    case False
    then have "max (n div 8) 16 = n div 8" by (intro max.absorb1) simp
    then show ?thesis using d s False by linarith
  qed
  then show "max (n div 8) 16 \<le> n - (min 4 (n div 8) + n div 2)" "min 4 (n div 8) + n div 2 \<le> n"
    by (rule le_diff_conv2 [THEN iffD2, rotated] le_trans [OF le_add2]; simp?)+
qed

text \<open>C33. With a budget of 39 positions or more, the automatic policy leaves at most that many rows
  resident, whichever branch it takes, if no stored block is longer than a block.\<close>
theorem auto_retention_bound:
  assumes "rm_policy m = Auto max_resident" and "39 \<le> max_resident"
    and "\<forall>b \<in> set (rm_store m). sb_rows b \<le> block_size m"
  shows "planned_rows m (plan_retention A q m) \<le> max_resident"
proof -
  let ?n = "length (rm_resident m)" let ?s = "min 4 (max_resident div 8)"
  consider (full) "effective_policy A m = FullRetention" "?n \<le> max_resident"
    | (heavy) "effective_policy A m = HeavyHitter ?s (max_resident div 2) (max_resident - (?s + max_resident div 2))"
    | (blocks) "effective_policy A m = Retrieval (max (max_resident div 8) 16)
        (max ((max_resident - (?s + max_resident div 2)) div max (max_resident div 8) 16) 1) ?s (max_resident div 2)"
    using assms(1) by (cases "?n + stored_tokens m \<le> max_resident";
        cases "fl_le A (fl_lit A (15 / 100)) (rm_concentration m)") (simp_all add: effective_policy_def Let_def)
  then show ?thesis
  proof cases
    case full
    then show ?thesis by (simp add: planned_rows_def plan_retention_def keep_all_def)
  next
    case heavy
    have "?s + max_resident div 2 \<le> max_resident" by (auto simp: min_def)
    then show ?thesis
      by (simp add: planned_rows_def plan_retention_def heavy plan_keep_set_eq kept_count)
  next
    case blocks
    let ?b = "max (max_resident div 8) 16"
    let ?k = "max ((max_resident - (?s + max_resident div 2)) div max (max_resident div 8) 16) 1"
    let ?p = "plan_retrieval A m ?k ?s (max_resident div 2) q"
    have p: "plan_retention A q m = ?p" by (simp add: plan_retention_def blocks)
    have len: "length (rp_retrieve ?p) \<le> ?k"
      by (auto simp: plan_retrieval_def plan_keep_set_eq Let_def split: option.splits)
    have keep: "length (rp_keep ?p) \<le> ?s + max_resident div 2"
      by (simp add: plan_retrieval_def Let_def plan_keep_set_eq kept_count)
    have "planned_rows m ?p \<le> length (rp_keep ?p) + length (rp_retrieve ?p) * block_size m"
      unfolding planned_rows_def using retrieved_rows [OF assms(3)] by simp
    also have "\<dots> \<le> (?s + max_resident div 2) + ?k * ?b"
    proof (rule add_mono [OF keep])
      have "block_size m = ?b" using assms(1) by (simp add: block_size_def)
      then show "length (rp_retrieve ?p) * block_size m \<le> ?k * ?b"
        using len by (simp only: mult_le_mono1)
    qed
    also have "\<dots> \<le> max_resident"
      by (rule whole_blocks [OF block_budget [OF assms(2)]]) (rule less_le_trans [of 0 16], simp, rule max.cobounded2)
    finally show ?thesis by (simp only: p)
  qed
qed

theorem auto_retention_bound_witness:
  "planned_rows (on_prefill real_arith 100 (retention_new real_arith (Auto 40) 4))
     (plan_retention real_arith None (on_prefill real_arith 100 (retention_new real_arith (Auto 40) 4))) \<le> 40"
  by (rule auto_retention_bound) (simp_all add: on_prefill_def retention_new_def Let_def)

text \<open>Sixteen positions allowed, twenty-six prefilled: the plan evicts sixteen, which are stored.\<close>

definition prefilled :: "real retention" where
  "prefilled = on_prefill real_arith 26 (retention_new real_arith (Auto 16) 1)"

definition crowded :: "real retention" where
  "crowded = snd (push_evicted_block real_arith 2 [replicate 16 1] [replicate 16 1]
     (commit_plan real_arith (plan_retention real_arith None prefilled) [] prefilled))"

lemma prefilled_fields:
  "rm_policy prefilled = Auto 16" "length (rm_resident prefilled) = 26" "rm_store prefilled = []"
  "rm_concentration prefilled = 0" "i < 26 \<Longrightarrow> rs_pos (rm_resident prefilled ! i) = i"
  "rm_next_block prefilled = 2" "rm_kv_dim prefilled = 1"
  by (simp_all add: prefilled_def on_prefill_def retention_new_def Let_def block_size_def)

lemma prefilled_plan:
  "rp_keep (plan_retention real_arith None prefilled) = filter (kept real_arith 26 2 8 0 (\<lambda>_. 0)) [0..<26]"
proof -
  have "effective_policy real_arith prefilled = Retrieval 16 1 2 8"
    by (simp add: effective_policy_def prefilled_fields stored_tokens_def)
  then show ?thesis
    by (simp add: plan_retention_def plan_retrieval_def plan_keep_set_eq prefilled_fields)
qed

lemma crowded_fields:
  "rm_policy crowded = Auto 16" "length (rm_resident crowded) = 10" "stored_tokens crowded = 16"
  "rm_concentration crowded = 0" "map sb_id (rm_store crowded) = [2]" "map sb_rows (rm_store crowded) = [16]"
proof -
  let ?p = "plan_retention real_arith None prefilled"
  have "resident_positions crowded = resident_positions (commit_plan real_arith ?p [] prefilled)"
    by (simp add: crowded_def resident_positions_def push_evicted_block_def Let_def)
  moreover have "set (resident_positions (commit_plan real_arith ?p [] prefilled)) = set (rp_keep ?p)"
    unfolding commit_positions(2) prefilled_plan by (auto simp: prefilled_fields) (metis prefilled_fields(5))
  moreover have "distinct (resident_positions (commit_plan real_arith ?p [] prefilled))"
    using commit_positions(1) [of real_arith ?p "[]" prefilled]
    by (simp add: strict_sorted_iff)
  moreover have "distinct (rp_keep ?p)" by (simp add: prefilled_plan)
  ultimately have "length (resident_positions crowded) = length (rp_keep ?p)"
    by (metis distinct_card)
  then show "length (rm_resident crowded) = 10"
    by (simp add: resident_positions_def prefilled_plan kept_count)
qed (simp_all add: crowded_def push_evicted_block_def commit_plan_def prefilled_fields stored_tokens_def Let_def)

text \<open>Below that the bound fails: with a budget of 16 a client that stores what the plan evicts
  reaches a state whose next plan keeps 10 positions and retrieves a block of 16.\<close>
theorem auto_retention_overflows:
  "retained real_arith crowded \<and> rm_policy crowded = Auto 16 \<and>
   planned_rows crowded (plan_retention real_arith (Some [1]) crowded) = 26"
proof -
  have "retained real_arith crowded"
    unfolding crowded_def prefilled_def by (intro retained.intros) simp
  moreover have "planned_rows crowded (plan_retention real_arith (Some [1]) crowded) = 26"
  proof -
    have store: "\<exists>b. rm_store crowded = [b] \<and> sb_id b = 2 \<and> sb_rows b = 16"
      using crowded_fields(5,6) by (cases "rm_store crowded") auto
    have policy: "effective_policy real_arith crowded = Retrieval 16 1 2 8"
      by (simp add: effective_policy_def crowded_fields)
    show ?thesis using store
      by (auto simp: planned_rows_def plan_retention_def policy plan_retrieval_def Let_def plan_keep_set_eq
          kept_count crowded_fields sort_desc_def take_block_def)
  qed
  ultimately show ?thesis by (simp add: crowded_fields)
qed

end
