(* ===== verification/Spec2Isabelle.thy ===== *)
theory Spec2Isabelle
  imports ShapeLaws DCE CSE LegalizeBroadcast KvPrefixLaws KvBatch PlanGate Hazards
    JobSlots HotExpertCache Exchange Partition TransposeLaws AlgebraicSimplify
    Staging VerifiedPasses SpecLaws OrtRng KvRetentionLaws
begin

text \<open>
  A verification development of the core of RLX, a machine-learning compiler and runtime in
  Rust. A model is a graph of tensor operators (\<open>rlx-ir\<close>); the compiler rewrites the graph and
  plans where every tensor lies in one byte array, the arena (\<open>rlx-compile\<close>); a backend executes
  the nodes in order over the arena. Around this the runtime keeps state of its own: the paged
  key-value cache of a language model, the experts of a mixture-of-experts layer that reside on
  the device, the slots that bound concurrent jobs (\<open>rlx-runtime\<close>); and several processes share
  one model through collectives and layer splits (\<open>rlx-driver\<close>, \<open>rlx-distributed\<close>). Paths below
  are relative to \<open>src/crates/core\<close>.

  Conventions. A definition has the name of the function it translates where that name is free;
  \<open>x_step\<close> or a name of its own is the body of a loop. A struct is a record with a prefix per
  struct (\<open>n_\<close> for nodes, \<open>g_\<close> for graphs, \<open>kp_\<close> for the page pool and so on), an enum a datatype.
  A function that may fail returns the \<open>outcome\<close> type of \<open>RlxPrelude\<close>: \<open>Ok\<close>, \<open>Err\<close> with an error
  constructor where the code builds a message, or \<open>Panic\<close> where the code asserts, unwraps,
  indexes out of range or overflows with a check. \<open>usize\<close> values are naturals; where the code
  checks, saturates or wraps, the bound of 64 bits is written out, and where a value is cast to
  32 bits the remainder is. Machine words are \<open>w word\<close>. State is passed explicitly.

  \<^bold>\<open>The graph IR.\<close> \<open>DTypes\<close>: element types, promotion and the byte encoding of scalar constants
  (\<open>rlx-ir/src/dtype.rs\<close>). \<open>Shapes\<close>: dimensions and every shape rule of \<open>shape.rs\<close>;
  \<open>ShapeLaws\<close> shows broadcasting to be a join, the element counts kept by reshaping and
  transposing, and the convolution extents against a count of window positions. \<open>IR\<close>: nodes,
  graphs, construction and queries (\<open>graph.rs\<close>, \<open>op.rs\<close>); operators that some modelled code
  inspects are constructors of \<open>op\<close>, the others one constructor with a name and attributes.
  \<open>Rewrite\<close>: the value of a graph under given kernels, and the contract of a pass that rebuilds
  a graph node by node through a map of ids, as a locale the passes interpret.
  \<open>OpTraits\<close>: the kind of every operator, its capability bits and its arity (\<open>capability.rs\<close>,
  \<open>op.rs\<close>).

  \<^bold>\<open>The verifier.\<close> \<open>InferShape\<close> gives the shape rule of every operator (\<open>infer_shape.rs\<close>) over the
  shapes of its operands, \<open>Verify\<close> the structural checks, the checks of single operators, the
  comparison of declared with inferred shapes and the check of names (\<open>verify.rs\<close>). Where a rule
  or a check needs an attribute of an operator that \<open>op\<close> carries as text, or looks into a nested
  body, and for the verifiers registered for custom operators, it is a field of the record
  \<open>verify_table\<close>; the theorems hold for every table, those on passes for tables whose registered
  verifiers do not look at node numbers. Acceptance is characterized as a typing of the nodes,
  and \<open>VerifiedPasses\<close> shows that common-subexpression elimination, dead-code elimination and
  both halves of the weight split keep it. A permutation with an axis out of range makes the
  verifier panic.

  \<^bold>\<open>Compiler passes\<close> (\<open>rlx-compile/src\<close>). \<open>DCE\<close> (\<open>dce.rs\<close>), \<open>CSE\<close> (\<open>cse.rs\<close>, with the structural
  equality of \<open>rlx-ir/src/equivalence.rs\<close>; the hash is a parameter) and \<open>LegalizeBroadcast\<close>
  (\<open>legalize_broadcast.rs\<close>): each pass returns and keeps the values of the outputs; dead-code
  elimination keeps nothing else, one run of common-subexpression elimination leaves no duplicate,
  and after legalization kernels that read an operand modulo its length compute what strided
  broadcasting computes. \<open>Layouts\<close> relates row-major indices to transposes and gives the
  kernels of the next two. \<open>SimplifyTransposes\<close>, \<open>TransposeLaws\<close> (\<open>simplify_transposes.rs\<close>):
  removal of transposes that cancel, up to the permuted bytes of constants, for all extents of
  the symbolic dimensions. \<open>AlgebraicSimplify\<close> (\<open>algebraic_simplify.rs\<close>): neutral and absorbing
  constants; correct on single-precision graphs in any arithmetic with the ring laws for zero and
  one (floats satisfy them up to signed zeros, infinities and not-a-number), and wrong on others.
  \<open>UseCounts\<close> (\<open>rlx-fusion/src/analysis.rs\<close>): readers, counts and liveness in one pass, against
  the queries of the graph. \<open>ParamHoist\<close> (\<open>param_hoist.rs\<close>): the split of a graph into a part that
  depends on the weights alone and a main part that reads its results as inputs; the halves
  together compute what the graph does, unless a user input has a boundary name.

  \<^bold>\<open>The memory planner\<close> (\<open>rlx-compile/src/memory.rs\<close>). \<open>Views\<close> and \<open>ViewLaws\<close>: which nodes are views
  of another buffer and which transposes a matrix product folds away. \<open>Liveness\<close>,
  \<open>StaticWeights\<close>, \<open>FoldLiveness\<close>: the live range of every buffer and the passes that extend
  ranges for operators that read in unusual ways. \<open>MemPlan\<close>: slot sizes, the sweep for the
  lowest free offset, the placement loop, the in-place safety pass and the aliasing of views.
  \<open>LiveLaws\<close>, \<open>PlaceLaws\<close>, \<open>PlanLaws\<close>, \<open>PlanTotal\<close>, \<open>PlanSafety\<close>: the planner returns on every
  ready graph; ranges cover every birth and read; buffers live together share no byte; slots are
  aligned and inside the arena. \<open>Arena\<close> states what this is for, as a refinement: executing the
  schedule over the planned bytes leaves the values of the graph in the output slots.
  \<open>PlanWitnesses\<close> has the concrete graph. \<open>PlanCheck\<close> models the gates of \<open>plan_check.rs\<close>;
  \<open>PlanCheckLaws\<close> and \<open>PlanGate\<close> show that the planner's plans pass them, that any plan that
  passes them runs correctly if uploads come first, and that it need not otherwise. \<open>Hazards\<close>
  models the byte ranges of \<open>rlx-ir/src/arena_range.rs\<close> and the scan \<open>schedule_hazards\<close> over the
  reads and writes a compiled schedule declares, with the declarative meaning of each hazard and
  what a schedule without hazards guarantees of any execution.

  \<^bold>\<open>The runtime\<close> (\<open>rlx-runtime/src\<close>). \<open>KvPool\<close>, \<open>KvPrefix\<close>, \<open>KvPrefixLaws\<close>, \<open>KvBatch\<close>
  (\<open>paged_kv.rs\<close>): reference-counted pages, the prefix trie with insertion, matching and eviction,
  and batch construction. The trie's skeleton and an accounting of references per page are the
  invariants; a later match finds what was inserted. \<open>JobSlots\<close> (\<open>job_slots.rs\<close>): a step relation
  over threads between the points where the mutex is free, with spurious wake-ups; memory
  readings are arbitrary at every step. Tickets are served in order, the counter never underflows,
  no wake-up is lost. \<open>ExpertPool\<close> (\<open>expert_pool.rs\<close>): which experts reside on the device, refresh
  policies and the placement with hysteresis; the floating-point comparison with the margin and
  the order in which a hash set is traversed are parameters. \<open>HotExpertCache\<close>
  (\<open>hot_expert_cache.rs\<close>): device slots that follow the pool. What it needs of a pool is the
  locale \<open>mask_provider\<close>, interpreted on \<open>ExpertPool\<close>; a layer that alternates refreshes and
  reconciliations routes every token to a slot holding its expert or to the host.
  \<open>Staging\<close> (\<open>compiled.rs\<close>, \<open>session.rs\<close>): the split graph in use. The contract of a backend is the
  locale \<open>executable\<close>, interpreted on a machine that stores weights and handles and evaluates the
  graph; over any backend that keeps it, every history of uploads and plain runs gives what
  direct execution gives, while typed runs lose the prepared tensors on a backend without
  persistent handles.

  \<^bold>\<open>Generation.\<close> \<open>Floats\<close> has single precision as a record of operations, with the locale
  \<open>float_laws\<close> of facts about zero and one that IEEE arithmetic satisfies exactly, interpreted on
  the reals. \<open>Philox\<close> and \<open>OrtRng\<close> (\<open>rlx-ir/src/rng.rs\<close>): the counter-based generator, whose n-th
  word is a function of seed and n and whose blocks do not repeat, and the congruential engine
  of the ONNX Runtime mode, whose orbit is zero for some seeds; then the polar method, a
  \<open>partial_function\<close>, does not return. \<open>SpecDecode\<close>, \<open>SpecLaws\<close> (\<open>rlx-runtime/src/spec_decode.rs\<close>):
  speculative decoding with a greedy target emits the greedy text if no draw is zero, and may
  leave the support of the target if one is. \<open>KvRetention\<close>, \<open>KvRetentionLaws\<close>
  (\<open>rlx-runtime/src/kv_retention.rs\<close>): what a retention plan keeps, the consistency of positions
  and stored blocks through every history, and the budget of the automatic policy, which holds
  from 39 positions on.

  \<^bold>\<open>Several ranks.\<close> \<open>Collectives\<close> (\<open>rlx-driver/src/symmetric.rs\<close>, \<open>collective.rs\<close>): the symmetric
  heap, and each collective as the list of puts, gets, barriers and local updates its rank
  performs; the world takes these one at a time in any order, and a barrier lets all ranks pass
  together. Float arithmetic is a parameter, with no law except where stated. \<open>CollectiveLaws\<close>
  proves the ring all-reduce for all numbers of ranks and all interleavings, \<open>Exchange\<close> the
  direct collectives, their agreement with the ring and the race between two calls. \<open>Partition\<close>
  (\<open>rlx-distributed/src/partition.rs\<close>): splits of the layers over the ranks; the double-precision
  shares are a parameter.

  Fuel and bounds. Loops that follow views use the number of nodes as fuel, and
  \<open>resolve_view_root_exact\<close> shows this is no restriction where views point backward. Other loops
  are structural, or \<open>function\<close>s with a measure. The run of a collective is bounded by the number
  of instructions left, a run of the job slots without arrivals by \<open>4 * n * (n + 1) + n\<close> steps.

  Not modelled. Kernels, encoders and drivers of the backends: device code and foreign calls,
  and floating-point arithmetic throughout. Automatic differentiation, fusion and decomposition,
  and the passes that compute with floating-point constants. Shape rules that depend on
  attributes of operators carried as text, and nested bodies: parameters of the verifier.
  Symbolic generalization of dimensions and the composition of graphs; quantization, number
  formats and the AES-based generator; of compiled graphs the conversions of narrowed, widened and double-float tensors, name
  checks and taps, and the other caches of the sessions; network transports, file formats,
  bindings and tools. Of the modelled files: printing and rendering, reading options from the
  environment (the options are arguments), the text form of a layer split, debug assertions,
  poisoned locks, and overflow of products of extents in the verifier.
\<close>

end
